(* ===== verification/Sombrero_Prelude.thy ===== *)
theory Sombrero_Prelude
  imports Main "HOL-Library.Word" "HOL-Library.Multiset"
begin

unbundle bit_operations_syntax

section \<open>Prelude: machine types, status codes and shared lemmas\<close>

text \<open>
  The types and facts every component of the development shares. Go's fixed-width unsigned
  integers are words of their width (\<open>+\<close>, \<open>-\<close> and \<open>*\<close> wrap, as in Go), \<open>int\<close> values that
  index or measure slices are \<open>nat\<close>, byte slices are lists of bytes, and Go's \<open>&^\<close> is
  \<open>AND NOT\<close>. Pointers to mutable objects (opens, leases, channels) are identifiers. The status
  codes are the ones of \<^verbatim>\<open>src/smb2/error.go\<close>.
\<close>

type_synonym byte = "8 word"
type_synonym u8 = "8 word"
type_synonym u16 = "16 word"
type_synonym u32 = "32 word"
type_synonym u64 = "64 word"

text \<open>The identity of an open, a lease and a channel: what a Go pointer compares by.\<close>

type_synonym oid = nat
type_synonym chan = nat

subsection \<open>Status codes\<close>

definition STATUS_OK :: u32 where
  "STATUS_OK = 0x00000000"

definition STATUS_FILE_CLOSED :: u32 where
  "STATUS_FILE_CLOSED = 0xc0000128"

definition STATUS_CANCELLED :: u32 where
  "STATUS_CANCELLED = 0xc0000120"

definition STATUS_INVALID_PARAMETER :: u32 where
  "STATUS_INVALID_PARAMETER = 0xc000000d"

definition STATUS_LOCK_NOT_GRANTED :: u32 where
  "STATUS_LOCK_NOT_GRANTED = 0xc0000055"

definition STATUS_RANGE_NOT_LOCKED :: u32 where
  "STATUS_RANGE_NOT_LOCKED = 0xc000007e"

lemmas status_defs =
  STATUS_OK_def STATUS_FILE_CLOSED_def STATUS_CANCELLED_def STATUS_INVALID_PARAMETER_def
  STATUS_LOCK_NOT_GRANTED_def STATUS_RANGE_NOT_LOCKED_def

subsection \<open>Lists: removal at an index\<close>

text \<open>Go's \<^verbatim>\<open>append(xs[:i], xs[i+1:]...)\<close>.\<close>

definition remove_at :: "nat \<Rightarrow> 'a list \<Rightarrow> 'a list" where
  "remove_at i xs = take i xs @ drop (Suc i) xs"

lemma mset_remove_at:
  "i < length xs \<Longrightarrow> add_mset (xs ! i) (mset (remove_at i xs)) = mset xs"
  by (metis add_mset_add_single id_take_nth_drop mset.simps(2) mset_append remove_at_def
      union_mset_add_mset_right)

lemma length_remove_at: "i < length xs \<Longrightarrow> length (remove_at i xs) = length xs - 1"
  by (simp add: remove_at_def)

lemma set_remove_at_subset: "set (remove_at i xs) \<subseteq> set xs"
  by (auto simp: remove_at_def dest: in_set_takeD in_set_dropD)

subsection \<open>Words: unsigned overflow\<close>

lemma mod_add_less_iff:
  fixes a b M :: nat
  assumes "a < M" "b < M"
  shows "(a + b) mod M < a \<longleftrightarrow> M \<le> a + b"
proof (cases "M \<le> a + b")
  case True
  with assms have "(a + b) mod M = a + b - M" by (simp add: le_mod_geq)
  with True assms show ?thesis by simp
qed simp

text \<open>Go's idiom for an unsigned sum that wrapped: the sum is below its first operand.\<close>

lemma word_add_wraps_iff:
  fixes a b :: "'a :: len word"
  shows "a + b < a \<longleftrightarrow> 2 ^ LENGTH('a) \<le> unat a + unat b"
  by (simp add: word_less_nat_alt unat_word_ariths mod_add_less_iff unsigned_less)

lemma unat_add_nowrap:
  fixes a b :: "'a :: len word"
  assumes "\<not> a + b < a"
  shows "unat (a + b) = unat a + unat b"
  using assms by (simp add: word_add_wraps_iff unat_word_ariths)

end
