(* ===== verification/Byte_Locks.thy ===== *)
theory Byte_Locks
  imports Sombrero_Prelude
begin

section \<open>Byte-range locks\<close>

text \<open>
  The byte-range locks of a file, \<^verbatim>\<open>src/lock.go\<close>: the ranges and when two of them overlap, the
  lock table of a \<^verbatim>\<open>fileState\<close> with the operations on it, the lock sequences an open remembers, and
  the waiting request \<^verbatim>\<open>awaitLock\<close> as a step relation that interleaves with every other operation
  on the table. An open is its identifier; a Go channel is a number, fresh when it is made, and the
  set of channels closed so far is part of the state.
\<close>

subsection \<open>Ranges\<close>

record byteRange =
  rg_offset :: u64
  rg_length :: u64

text \<open>\<^verbatim>\<open>byteRange.end\<close>: the first offset past the range, saturated.\<close>

definition range_end :: "'a byteRange_scheme \<Rightarrow> u64" where
  "range_end r =
     (if rg_offset r + rg_length r < rg_offset r then 0xffffffffffffffff
      else rg_offset r + rg_length r)"

definition overlaps :: "'a byteRange_scheme \<Rightarrow> 'b byteRange_scheme \<Rightarrow> bool" where
  "overlaps r other =
     (if rg_length r = 0 \<and> rg_length other = 0 then False
      else if rg_length r = 0 then rg_offset other < rg_offset r \<and> range_end other > rg_offset r
      else if rg_length other = 0 then rg_offset r < rg_offset other \<and> range_end r > rg_offset other
      else rg_offset r < range_end other \<and> rg_offset other < range_end r)"

subsection \<open>The lock sequences of an open\<close>

definition lockSequenceEntries :: nat where
  "lockSequenceEntries = 64"

record lockSequenceEntry =
  seq_number :: u8
  seq_valid :: bool

text \<open>
  \<^verbatim>\<open>replayedLock\<close> and \<^verbatim>\<open>rememberLock\<close> on the array \<^verbatim>\<open>lockSequence\<close> of an open, which has
  \<^verbatim>\<open>lockSequenceEntries\<close> entries.
\<close>

definition replayedLock ::
  "lockSequenceEntry list \<Rightarrow> u32 \<Rightarrow> u8 \<Rightarrow> lockSequenceEntry list \<times> bool" where
  "replayedLock sq index number =
     (if index = 0 \<or> unat index > lockSequenceEntries then (sq, False)
      else let i = unat index - 1; entry = sq ! i
           in if \<not> seq_valid entry then (sq, False)
              else if seq_number entry = number then (sq, True)
              else (sq[i := entry\<lparr>seq_valid := False\<rparr>], False))"

definition rememberLock ::
  "lockSequenceEntry list \<Rightarrow> u32 \<Rightarrow> u8 \<Rightarrow> lockSequenceEntry list" where
  "rememberLock sq index number =
     (if index = 0 \<or> unat index > lockSequenceEntries then sq
      else sq[unat index - 1 := \<lparr>seq_number = number, seq_valid = True\<rparr>])"

subsection \<open>The lock table of a file\<close>

text \<open>\<^verbatim>\<open>smb2.Lock\<close>, an element of a lock request, and the flags it carries.\<close>

record smbLock =
  lk_Offset :: u64
  lk_Length :: u64
  lk_Flags :: u32

definition LOCKFLAG_SHARED_LOCK :: u32 where
  "LOCKFLAG_SHARED_LOCK = 0x01"

definition LOCKFLAG_EXCLUSIVE_LOCK :: u32 where
  "LOCKFLAG_EXCLUSIVE_LOCK = 0x02"

definition LOCKFLAG_FAIL_IMMEDIATELY :: u32 where
  "LOCKFLAG_FAIL_IMMEDIATELY = 0x10"

lemmas lockflag_defs =
  LOCKFLAG_SHARED_LOCK_def LOCKFLAG_EXCLUSIVE_LOCK_def LOCKFLAG_FAIL_IMMEDIATELY_def

text \<open>The embedded \<^verbatim>\<open>byteRange\<close> of a \<^verbatim>\<open>byteRangeLock\<close> is a record extension.\<close>

record byteRangeLock = byteRange +
  bl_open :: oid
  bl_exclusive :: bool

text \<open>
  What \<^verbatim>\<open>fileState\<close> keeps for locking: the locks in the order they were taken, and the channel
  closed when one of them is given back.
\<close>

record lockState =
  locks :: "byteRangeLock list"
  lockWait :: "chan option"
  closedChans :: "chan set"
  nextChan :: chan

definition lock_range :: "smbLock \<Rightarrow> byteRange" where
  "lock_range l = \<lparr>rg_offset = lk_Offset l, rg_length = lk_Length l\<rparr>"

definition lock_exclusive :: "smbLock \<Rightarrow> bool" where
  "lock_exclusive l = (lk_Flags l AND LOCKFLAG_EXCLUSIVE_LOCK \<noteq> 0)"

definition fails_immediately :: "smbLock \<Rightarrow> bool" where
  "fails_immediately l = (lk_Flags l AND LOCKFLAG_FAIL_IMMEDIATELY \<noteq> 0)"

definition mk_lock :: "oid \<Rightarrow> smbLock \<Rightarrow> byteRangeLock" where
  "mk_lock op l = \<lparr>rg_offset = lk_Offset l, rg_length = lk_Length l,
                   bl_open = op, bl_exclusive = lock_exclusive l\<rparr>"

definition validLockFlags :: "u32 \<Rightarrow> bool" where
  "validLockFlags flags =
     (let f = flags AND NOT LOCKFLAG_FAIL_IMMEDIATELY
      in f = LOCKFLAG_SHARED_LOCK \<or> f = LOCKFLAG_EXCLUSIVE_LOCK)"

text \<open>The loop of \<^verbatim>\<open>lockConflict\<close> over the locks held.\<close>

fun lockConflict :: "byteRangeLock list \<Rightarrow> oid \<Rightarrow> byteRange \<Rightarrow> bool \<Rightarrow> bool" where
  "lockConflict [] op r exclusive = False"
| "lockConflict (held # hs) op r exclusive =
     (if \<not> overlaps held r then lockConflict hs op r exclusive
      else if bl_exclusive held then
        (if bl_open held \<noteq> op then True else lockConflict hs op r exclusive)
      else if exclusive then True
      else lockConflict hs op r exclusive)"

definition lockWaiter :: "lockState \<Rightarrow> lockState \<times> chan" where
  "lockWaiter fs =
     (case lockWait fs of
        None \<Rightarrow> (fs\<lparr>lockWait := Some (nextChan fs), nextChan := Suc (nextChan fs)\<rparr>, nextChan fs)
      | Some c \<Rightarrow> (fs, c))"

definition lockChanged :: "lockState \<Rightarrow> lockState" where
  "lockChanged fs =
     (case lockWait fs of
        None \<Rightarrow> fs
      | Some c \<Rightarrow> fs\<lparr>lockWait := None, closedChans := insert c (closedChans fs)\<rparr>)"

text \<open>
  The loop of \<^verbatim>\<open>lockRanges\<close>: the number of locks this request has taken so far, and on return the
  status together with whether the request is to wait.
\<close>

fun lockRanges_loop ::
  "oid \<Rightarrow> nat \<Rightarrow> lockState \<Rightarrow> smbLock list \<Rightarrow> lockState \<times> u32 \<times> bool" where
  "lockRanges_loop op taken fs [] = (fs, STATUS_OK, False)"
| "lockRanges_loop op taken fs (l # ls) =
     (if \<not> validLockFlags (lk_Flags l) then (fs, STATUS_INVALID_PARAMETER, False)
      else if lockConflict (locks fs) op (lock_range l) (lock_exclusive l) then
        (if \<not> fails_immediately l then (fs, STATUS_OK, True)
         else if taken > 0 then
           (lockChanged (fs\<lparr>locks := take (length (locks fs) - taken) (locks fs)\<rparr>),
            STATUS_LOCK_NOT_GRANTED, False)
         else (fs, STATUS_LOCK_NOT_GRANTED, False))
      else lockRanges_loop op (Suc taken) (fs\<lparr>locks := locks fs @ [mk_lock op l]\<rparr>) ls)"

definition lockRanges :: "oid \<Rightarrow> smbLock list \<Rightarrow> lockState \<Rightarrow> lockState \<times> u32 \<times> bool" where
  "lockRanges op ls fs =
     (if length ls > 1 \<and> \<not> list_all fails_immediately ls
      then (fs, STATUS_INVALID_PARAMETER, False)
      else lockRanges_loop op 0 fs ls)"

text \<open>\<^verbatim>\<open>dropLock\<close> gives back the last lock equal to the one the request took.\<close>

fun last_index :: "'a list \<Rightarrow> 'a \<Rightarrow> nat \<Rightarrow> nat option" where
  "last_index xs w 0 = None"
| "last_index xs w (Suc i) = (if xs ! i = w then Some i else last_index xs w i)"

definition dropLock :: "oid \<Rightarrow> smbLock \<Rightarrow> lockState \<Rightarrow> lockState" where
  "dropLock op l fs =
     (case last_index (locks fs) (mk_lock op l) (length (locks fs)) of
        None \<Rightarrow> fs
      | Some i \<Rightarrow> lockChanged (fs\<lparr>locks := remove_at i (locks fs)\<rparr>))"

text \<open>The search of \<^verbatim>\<open>unlockRanges\<close>: index so far, and the shared lock met first.\<close>

fun unlock_search ::
  "oid \<Rightarrow> smbLock \<Rightarrow> nat \<Rightarrow> nat option \<Rightarrow> byteRangeLock list \<Rightarrow> nat option" where
  "unlock_search op l i found [] = found"
| "unlock_search op l i found (held # hs) =
     (if bl_open held \<noteq> op \<or> rg_offset held \<noteq> lk_Offset l \<or> rg_length held \<noteq> lk_Length l
      then unlock_search op l (Suc i) found hs
      else if bl_exclusive held then Some i
      else unlock_search op l (Suc i) (if found = None then Some i else found) hs)"

fun unlockRanges_loop ::
  "oid \<Rightarrow> bool \<Rightarrow> lockState \<Rightarrow> smbLock list \<Rightarrow> lockState \<times> u32 \<times> bool" where
  "unlockRanges_loop op given fs [] = (fs, STATUS_OK, given)"
| "unlockRanges_loop op given fs (l # ls) =
     (if lk_Flags l AND (LOCKFLAG_SHARED_LOCK OR LOCKFLAG_EXCLUSIVE_LOCK) \<noteq> 0
      then (fs, STATUS_INVALID_PARAMETER, given)
      else case unlock_search op l 0 None (locks fs) of
        None \<Rightarrow> (fs, STATUS_RANGE_NOT_LOCKED, given)
      | Some i \<Rightarrow> unlockRanges_loop op True (fs\<lparr>locks := remove_at i (locks fs)\<rparr>) ls)"

definition unlockRanges :: "oid \<Rightarrow> smbLock list \<Rightarrow> lockState \<Rightarrow> lockState \<times> u32" where
  "unlockRanges op ls fs =
     (case unlockRanges_loop op False fs ls of
        (fs', status, given) \<Rightarrow> (if given then lockChanged fs' else fs', status))"

definition releaseLocks :: "oid \<Rightarrow> lockState \<Rightarrow> lockState" where
  "releaseLocks op fs =
     (let kept = filter (\<lambda>held. bl_open held \<noteq> op) (locks fs);
          fs' = (if length kept < length (locks fs) then lockChanged fs else fs)
      in fs'\<lparr>locks := kept\<rparr>)"

subsection \<open>A request waiting for a range\<close>

text \<open>
  \<^verbatim>\<open>awaitLock\<close> is a loop that looks at the table under the lock of the file and sleeps outside it.
  A waiter is about to look, asleep on a channel, or done with a status. \<^verbatim>\<open>awaitLock_look\<close> is one
  look, after the check of \<^verbatim>\<open>stop\<close> and \<^verbatim>\<open>gone\<close> that opens it.
\<close>

datatype waiter = Looking | Asleep chan | Done u32

definition awaitLock_look :: "oid \<Rightarrow> smbLock \<Rightarrow> lockState \<Rightarrow> lockState \<times> waiter" where
  "awaitLock_look op l fs =
     (if \<not> lockConflict (locks fs) op (lock_range l) (lock_exclusive l)
      then (fs\<lparr>locks := locks fs @ [mk_lock op l]\<rparr>, Done STATUS_OK)
      else case lockWaiter fs of (fs', c) \<Rightarrow> (fs', Asleep c))"

text \<open>
  The file with the requests waiting on it. \<^verbatim>\<open>stopped\<close> are the waiters whose \<^verbatim>\<open>stop\<close> channel is
  closed, \<^verbatim>\<open>gone\<close> the opens whose context is done. Where both are ready Go's \<^verbatim>\<open>select\<close> picks either,
  so the steps are a relation.
\<close>

record lockSys =
  tbl :: lockState
  waiters :: "nat \<Rightarrow> (oid \<times> smbLock \<times> waiter) option"
  stopped :: "nat set"
  gone :: "oid set"

definition init_tbl :: lockState where
  "init_tbl = \<lparr>locks = [], lockWait = None, closedChans = {}, nextChan = 0\<rparr>"

definition init_lockSys :: lockSys where
  "init_lockSys = \<lparr>tbl = init_tbl, waiters = (\<lambda>_. None), stopped = {}, gone = {}\<rparr>"

inductive lock_step :: "lockSys \<Rightarrow> lockSys \<Rightarrow> bool" where
  lock: "lock_step s (s\<lparr>tbl := fst (lockRanges op ls (tbl s))\<rparr>)"
| unlock: "lock_step s (s\<lparr>tbl := fst (unlockRanges op ls (tbl s))\<rparr>)"
| drop: "lock_step s (s\<lparr>tbl := dropLock op l (tbl s)\<rparr>)"
| release: "lock_step s (s\<lparr>tbl := releaseLocks op (tbl s)\<rparr>)"
| stop: "lock_step s (s\<lparr>stopped := insert w (stopped s)\<rparr>)"
| go: "lock_step s (s\<lparr>gone := insert op (gone s)\<rparr>)"
| start: "waiters s w = None \<Longrightarrow>
    lock_step s (s\<lparr>waiters := (waiters s)(w \<mapsto> (op, l, Looking))\<rparr>)"
| look: "waiters s w = Some (op, l, Looking) \<Longrightarrow> w \<notin> stopped s \<Longrightarrow> op \<notin> gone s \<Longrightarrow>
    awaitLock_look op l (tbl s) = (t, st) \<Longrightarrow>
    lock_step s (s\<lparr>tbl := t, waiters := (waiters s)(w \<mapsto> (op, l, st))\<rparr>)"
| wake: "waiters s w = Some (op, l, Asleep c) \<Longrightarrow> c \<in> closedChans (tbl s) \<Longrightarrow>
    lock_step s (s\<lparr>waiters := (waiters s)(w \<mapsto> (op, l, Looking))\<rparr>)"
| cancel: "waiters s w = Some (op, l, st) \<Longrightarrow> st = Looking \<or> st = Asleep c \<Longrightarrow> w \<in> stopped s \<Longrightarrow>
    lock_step s (s\<lparr>waiters := (waiters s)(w \<mapsto> (op, l, Done STATUS_CANCELLED))\<rparr>)"
| closed: "waiters s w = Some (op, l, st) \<Longrightarrow> st = Looking \<or> st = Asleep c \<Longrightarrow> op \<in> gone s \<Longrightarrow>
    lock_step s (s\<lparr>waiters := (waiters s)(w \<mapsto> (op, l, Done STATUS_FILE_CLOSED))\<rparr>)"

inductive lock_reachable :: "lockSys \<Rightarrow> bool" where
  init: "lock_reachable init_lockSys"
| step: "lock_reachable s \<Longrightarrow> lock_step s t \<Longrightarrow> lock_reachable t"

text \<open>
  What the table must never show: an exclusive lock over bytes that another open has locked too.
\<close>

definition compatible :: "byteRangeLock \<Rightarrow> byteRangeLock \<Rightarrow> bool" where
  "compatible a b \<longleftrightarrow>
     (overlaps a b \<and> bl_open a \<noteq> bl_open b \<longrightarrow> \<not> bl_exclusive a \<and> \<not> bl_exclusive b)"

definition exclusion :: "lockState \<Rightarrow> bool" where
  "exclusion fs \<longleftrightarrow> pairwise compatible (set (locks fs))"

text \<open>
  What the channel must satisfy: the one being waited on is open, and no channel is reused.
\<close>

definition chan_ok :: "lockState \<Rightarrow> bool" where
  "chan_ok fs \<longleftrightarrow> closedChans fs \<subseteq> {..<nextChan fs} \<and>
     (\<forall>c. lockWait fs = Some c \<longrightarrow> c \<notin> closedChans fs \<and> c < nextChan fs)"

text \<open>No wake-up is lost: a waiter asleep on an open channel still has its range taken.\<close>

definition no_lost_wakeup :: "lockSys \<Rightarrow> bool" where
  "no_lost_wakeup s \<longleftrightarrow>
     (\<forall>w op l c. waiters s w = Some (op, l, Asleep c) \<longrightarrow>
        c \<in> closedChans (tbl s) \<or>
        (lockWait (tbl s) = Some c \<and>
         lockConflict (locks (tbl s)) op (lock_range l) (lock_exclusive l)))"

subsection \<open>Overlap\<close>

lemma overlaps_sym: "overlaps r q = overlaps q r"
  by (auto simp: overlaps_def)

lemma unat_range_end:
  "unat (range_end r) = min (unat (rg_offset r) + unat (rg_length r)) (2 ^ 64 - 1)"
  using unsigned_less[of "rg_offset r + rg_length r"]
  by (auto simp: range_end_def word_add_wraps_iff unat_add_nowrap min_def)

text \<open>
  Two ranges of at least one byte overlap exactly when they share a byte, except that the byte at
  the largest offset of all is in no range: the end of a range is saturated at that offset and is
  exclusive.
\<close>

definition covers_byte :: "'a byteRange_scheme \<Rightarrow> nat \<Rightarrow> bool" where
  "covers_byte r b \<longleftrightarrow> unat (rg_offset r) \<le> b \<and> b < unat (rg_offset r) + unat (rg_length r)"

lemma overlaps_iff_byte:
  assumes "rg_length r \<noteq> 0" "rg_length q \<noteq> 0"
  shows "overlaps r q \<longleftrightarrow> (\<exists>b < 2 ^ 64 - 1. covers_byte r b \<and> covers_byte q b)"
proof
  assume "overlaps r q"
  with assms have "unat (rg_offset r) < unat (range_end q)" "unat (rg_offset q) < unat (range_end r)"
    by (auto simp: overlaps_def word_less_nat_alt)
  with assms show "\<exists>b < 2 ^ 64 - 1. covers_byte r b \<and> covers_byte q b"
    by (intro exI[of _ "max (unat (rg_offset r)) (unat (rg_offset q))"])
       (auto simp: unat_range_end covers_byte_def unat_gt_0)
next
  assume "\<exists>b < 2 ^ 64 - 1. covers_byte r b \<and> covers_byte q b"
  with assms show "overlaps r q"
    by (auto simp: overlaps_def word_less_nat_alt unat_range_end covers_byte_def)
qed

subsection \<open>The table: what each operation does to it\<close>

lemma lockConflict_iff:
  "lockConflict hs op r ex \<longleftrightarrow>
     (\<exists>h \<in> set hs. overlaps h r \<and>
        (bl_exclusive h \<and> bl_open h \<noteq> op \<or> \<not> bl_exclusive h \<and> ex))"
  by (induction hs) auto

lemma lockConflict_mono: "set hs \<subseteq> set hs' \<Longrightarrow> lockConflict hs op r ex \<Longrightarrow> lockConflict hs' op r ex"
  by (force simp: lockConflict_iff)

lemma lockConflict_append [simp]:
  "lockConflict (hs @ hs') op r ex \<longleftrightarrow> lockConflict hs op r ex \<or> lockConflict hs' op r ex"
  by (auto simp: lockConflict_iff)

lemma locks_lockChanged [simp]: "locks (lockChanged fs) = locks fs"
  by (simp add: lockChanged_def split: option.splits)

lemma lockChanged_locks_update [simp]:
  "lockChanged (fs\<lparr>locks := ls\<rparr>) = (lockChanged fs)\<lparr>locks := ls\<rparr>"
  by (simp add: lockChanged_def split: option.splits)

lemma locks_lockWaiter [simp]: "locks (fst (lockWaiter fs)) = locks fs"
  by (simp add: lockWaiter_def split: option.splits)

lemma mk_lock_simps [simp]:
  "bl_open (mk_lock op l) = op"
  "bl_exclusive (mk_lock op l) = lock_exclusive l"
  "overlaps h (mk_lock op l) = overlaps h (lock_range l)"
  "overlaps (mk_lock op l) h = overlaps h (lock_range l)"
  by (auto simp: mk_lock_def lock_range_def overlaps_def range_end_def)

text \<open>A lock that meets no conflict is compatible with everything held.\<close>

lemma no_conflict_compatible:
  assumes "\<not> lockConflict hs op (lock_range l) (lock_exclusive l)" "h \<in> set hs"
  shows "compatible h (mk_lock op l) \<and> compatible (mk_lock op l) h"
  using assms by (auto simp: compatible_def lockConflict_iff)

lemma exclusion_append:
  assumes "exclusion fs" "\<not> lockConflict (locks fs) op (lock_range l) (lock_exclusive l)"
  shows "exclusion (fs\<lparr>locks := locks fs @ [mk_lock op l]\<rparr>)"
  using assms no_conflict_compatible[OF assms(2)]
  by (auto simp: exclusion_def pairwise_insert)

lemma exclusion_subset: "exclusion fs \<Longrightarrow> set (locks fs') \<subseteq> set (locks fs) \<Longrightarrow> exclusion fs'"
  unfolding exclusion_def by (rule pairwise_subset)

text \<open>
  The three outcomes of the locking loop. Refused over a conflict, it leaves the locks held as they
  were when the request began; granted, it has added one lock per element; to be waited for, it has
  added the elements before the one that conflicts.
\<close>

lemma lockRanges_loop_granted:
  "lockRanges_loop op n fs ls = (fs', STATUS_OK, False) \<Longrightarrow>
     fs' = fs\<lparr>locks := locks fs @ map (mk_lock op) ls\<rparr>"
  by (induction ls arbitrary: n fs) (fastforce simp: status_defs split: if_splits)+

lemma lockRanges_loop_refused:
  "lockRanges_loop op n fs ls = (fs', STATUS_LOCK_NOT_GRANTED, w) \<Longrightarrow> n \<le> length (locks fs) \<Longrightarrow>
     locks fs' = take (length (locks fs) - n) (locks fs)"
  by (induction ls arbitrary: n fs) (fastforce simp: status_defs split: if_splits)+

lemma lockRanges_loop_prefix:
  "lockRanges_loop op n fs ls = (fs', st, w) \<Longrightarrow> st \<noteq> STATUS_LOCK_NOT_GRANTED \<Longrightarrow>
     \<exists>m \<le> length ls. fs' = fs\<lparr>locks := locks fs @ map (mk_lock op) (take m ls)\<rparr>"
proof (induction ls arbitrary: n fs)
  case (Cons l ls)
  show ?case
  proof (cases "validLockFlags (lk_Flags l) \<and>
      \<not> lockConflict (locks fs) op (lock_range l) (lock_exclusive l)")
    case True
    with Cons.prems Cons.IH[of "Suc n" "fs\<lparr>locks := locks fs @ [mk_lock op l]\<rparr>"]
    obtain m where "m \<le> length ls"
      "fs' = fs\<lparr>locks := locks fs @ map (mk_lock op) (take (Suc m) (l # ls))\<rparr>" by auto
    then show ?thesis by (intro exI[of _ "Suc m"]) auto
  next
    case False
    with Cons.prems have "fs' = fs" by (auto split: if_splits)
    then show ?thesis by (intro exI[of _ 0]) simp
  qed
qed simp

lemma lockRanges_loop_wait:
  "lockRanges_loop op n fs ls = (fs', st, True) \<Longrightarrow> \<exists>l \<in> set ls. \<not> fails_immediately l"
  by (induction ls arbitrary: n fs) (auto split: if_splits)

lemma lockRanges_loop_exclusion:
  "exclusion fs \<Longrightarrow> exclusion (fst (lockRanges_loop op n fs ls))"
proof (induction ls arbitrary: n fs)
  case (Cons l ls)
  have "exclusion (lockChanged (fs\<lparr>locks := take (length (locks fs) - n) (locks fs)\<rparr>))"
    using Cons.prems by (rule exclusion_subset) (simp add: set_take_subset)
  with Cons show ?case by (auto simp: exclusion_append)
qed simp

lemma exclusion_lockRanges: "exclusion fs \<Longrightarrow> exclusion (fst (lockRanges op ls fs))"
  by (simp add: lockRanges_def lockRanges_loop_exclusion)

text \<open>The operations that give ranges back leave a part of what was held.\<close>

lemma locks_dropLock_subset: "set (locks (dropLock op l fs)) \<subseteq> set (locks fs)"
  using set_remove_at_subset by (auto simp: dropLock_def split: option.splits) fastforce

lemma locks_unlockRanges_loop_subset:
  "set (locks (fst (unlockRanges_loop op g fs ls))) \<subseteq> set (locks fs)"
proof (induction ls arbitrary: g fs)
  case (Cons l ls)
  have "set (locks (fst (unlockRanges_loop op True (fs\<lparr>locks := remove_at i (locks fs)\<rparr>) ls)))
      \<subseteq> set (locks fs)" for i
    using Cons.IH[of True "fs\<lparr>locks := remove_at i (locks fs)\<rparr>"] set_remove_at_subset
    by fastforce
  then show ?case by (auto split: option.splits)
qed simp

lemma locks_unlockRanges_subset: "set (locks (fst (unlockRanges op ls fs))) \<subseteq> set (locks fs)"
  using locks_unlockRanges_loop_subset[of op False fs ls]
  by (auto simp: unlockRanges_def split: prod.splits)

lemma locks_releaseLocks [simp]:
  "locks (releaseLocks op fs) = filter (\<lambda>h. bl_open h \<noteq> op) (locks fs)"
  by (simp add: releaseLocks_def Let_def)


subsection \<open>The contract every operation on the table keeps\<close>

text \<open>
  \<^verbatim>\<open>signals fs fs'\<close>: no channel is reopened, and the channel a waiter sleeps on is closed unless it
  is still the one waited on and nothing that was held has been given back.
\<close>

definition signals :: "lockState \<Rightarrow> lockState \<Rightarrow> bool" where
  "signals fs fs' \<longleftrightarrow> closedChans fs \<subseteq> closedChans fs' \<and>
     (\<forall>c. lockWait fs = Some c \<longrightarrow>
        c \<in> closedChans fs' \<or> lockWait fs' = Some c \<and> set (locks fs) \<subseteq> set (locks fs'))"

lemma signals_refl [simp]: "signals fs fs"
  by (simp add: signals_def)

lemma signals_trans: "signals a b \<Longrightarrow> signals b c \<Longrightarrow> signals a c"
  unfolding signals_def by blast

lemma signals_append [simp]: "signals fs (fs\<lparr>locks := locks fs @ ls\<rparr>)"
  by (simp add: signals_def)

lemma signals_lockChanged [simp]: "signals fs ((lockChanged fs)\<lparr>locks := ls\<rparr>)"
  by (auto simp: signals_def lockChanged_def split: option.splits)

lemma chan_ok_locks [simp]: "chan_ok (fs\<lparr>locks := ls\<rparr>) = chan_ok fs"
  by (simp add: chan_ok_def)

lemma chan_ok_lockChanged: "chan_ok fs \<Longrightarrow> chan_ok (lockChanged fs)"
  by (auto simp: chan_ok_def lockChanged_def split: option.splits)

definition lock_inv :: "lockSys \<Rightarrow> bool" where
  "lock_inv s \<longleftrightarrow> exclusion (tbl s) \<and> chan_ok (tbl s) \<and> no_lost_wakeup s"

locale lock_table_op =
  fixes f :: "lockState \<Rightarrow> lockState"
  assumes keeps_exclusion: "exclusion fs \<Longrightarrow> exclusion (f fs)"
    and keeps_chan_ok: "chan_ok fs \<Longrightarrow> chan_ok (f fs)"
    and tells_waiters: "signals fs (f fs)"
begin

lemma keeps_no_lost_wakeup:
  assumes "no_lost_wakeup s"
  shows "no_lost_wakeup (s\<lparr>tbl := f (tbl s)\<rparr>)"
  unfolding no_lost_wakeup_def
proof (intro allI impI)
  fix w op l c
  assume "waiters (s\<lparr>tbl := f (tbl s)\<rparr>) w = Some (op, l, Asleep c)"
  with assms have "c \<in> closedChans (tbl s) \<or> lockWait (tbl s) = Some c \<and>
      lockConflict (locks (tbl s)) op (lock_range l) (lock_exclusive l)"
    by (simp add: no_lost_wakeup_def)
  with tells_waiters[of "tbl s"]
  show "c \<in> closedChans (tbl (s\<lparr>tbl := f (tbl s)\<rparr>)) \<or>
      lockWait (tbl (s\<lparr>tbl := f (tbl s)\<rparr>)) = Some c \<and>
      lockConflict (locks (tbl (s\<lparr>tbl := f (tbl s)\<rparr>))) op (lock_range l) (lock_exclusive l)"
    by (auto simp: signals_def intro: lockConflict_mono)
qed

lemma keeps_lock_inv: "lock_inv s \<Longrightarrow> lock_inv (s\<lparr>tbl := f (tbl s)\<rparr>)"
  by (simp add: lock_inv_def keeps_exclusion keeps_chan_ok keeps_no_lost_wakeup)

end

lemma lockRanges_loop_contract:
  "signals fs (fst (lockRanges_loop op n fs ls)) \<and>
   (chan_ok fs \<longrightarrow> chan_ok (fst (lockRanges_loop op n fs ls)))"
proof (induction ls arbitrary: n fs)
  case (Cons l ls)
  have "signals fs (fst (lockRanges_loop op (Suc n) (fs\<lparr>locks := locks fs @ [mk_lock op l]\<rparr>) ls))"
    using Cons.IH signals_append signals_trans by blast
  with Cons.IH[of "fs\<lparr>locks := locks fs @ [mk_lock op l]\<rparr>" "Suc n"] show ?case
    by (auto simp: chan_ok_lockChanged)
qed simp

interpretation lockRanges_op: lock_table_op "\<lambda>fs. fst (lockRanges op ls fs)" for op ls
proof
  show "exclusion fs \<Longrightarrow> exclusion (fst (lockRanges op ls fs))" for fs
    by (rule exclusion_lockRanges)
qed (auto simp: lockRanges_def lockRanges_loop_contract)

lemma unlockRanges_loop_contract:
  "(chan_ok fs \<longrightarrow> chan_ok (fst (unlockRanges_loop op g fs ls))) \<and>
   lockWait (fst (unlockRanges_loop op g fs ls)) = lockWait fs \<and>
   closedChans (fst (unlockRanges_loop op g fs ls)) = closedChans fs \<and>
   (g \<longrightarrow> snd (snd (unlockRanges_loop op g fs ls))) \<and>
   (\<not> snd (snd (unlockRanges_loop op g fs ls)) \<longrightarrow> fst (unlockRanges_loop op g fs ls) = fs)"
proof (induction ls arbitrary: g fs)
  case (Cons l ls)
  then show ?case
    by (cases "unlock_search op l 0 None (locks fs)") (auto simp: Cons.IH)
qed simp

lemma unlockRanges_contract:
  "signals fs (fst (unlockRanges op ls fs)) \<and>
   (chan_ok fs \<longrightarrow> chan_ok (fst (unlockRanges op ls fs)))"
proof (cases "unlockRanges_loop op False fs ls")
  case (fields fs' st given)
  have "signals fs (lockChanged fs')" if "lockWait fs' = lockWait fs" "closedChans fs' = closedChans fs"
    using that by (auto simp: signals_def lockChanged_def split: option.splits)
  with fields unlockRanges_loop_contract[of fs op False ls] show ?thesis
    by (auto simp: unlockRanges_def chan_ok_lockChanged)
qed

interpretation unlockRanges_op: lock_table_op "\<lambda>fs. fst (unlockRanges op ls fs)" for op ls
proof
  show "exclusion fs \<Longrightarrow> exclusion (fst (unlockRanges op ls fs))" for fs
    by (rule exclusion_subset[OF _ locks_unlockRanges_subset])
qed (auto simp: unlockRanges_contract)

interpretation dropLock_op: lock_table_op "\<lambda>fs. dropLock op l fs" for op l
proof
  show "exclusion fs \<Longrightarrow> exclusion (dropLock op l fs)" for fs
    by (rule exclusion_subset[OF _ locks_dropLock_subset])
qed (auto simp: dropLock_def chan_ok_lockChanged split: option.splits)

lemma filter_all: "\<not> length (filter P xs) < length xs \<Longrightarrow> filter P xs = xs"
  by (metis filter_True length_filter_less)

interpretation releaseLocks_op: lock_table_op "\<lambda>fs. releaseLocks op fs" for op
proof
  fix fs
  show "exclusion fs \<Longrightarrow> exclusion (releaseLocks op fs)"
    by (rule exclusion_subset) auto
  show "signals fs (releaseLocks op fs)"
    by (cases "length (filter (\<lambda>h. bl_open h \<noteq> op) (locks fs)) < length (locks fs)")
       (auto simp: releaseLocks_def Let_def filter_all)
qed (auto simp: releaseLocks_def Let_def chan_ok_lockChanged)


subsection \<open>The system with waiters\<close>

text \<open>A look either takes the range or leaves the waiter asleep on the channel waited on.\<close>

lemma awaitLock_look_contract:
  assumes "awaitLock_look op l fs = (t, st)" "chan_ok fs"
  shows "signals fs t" and "chan_ok t" and "exclusion fs \<Longrightarrow> exclusion t"
    and "st = Asleep c \<Longrightarrow> lockWait t = Some c \<and>
           lockConflict (locks t) op (lock_range l) (lock_exclusive l)"
proof -
  consider (take) "\<not> lockConflict (locks fs) op (lock_range l) (lock_exclusive l)"
      "t = fs\<lparr>locks := locks fs @ [mk_lock op l]\<rparr>" "st = Done STATUS_OK"
    | (sleep) "lockConflict (locks fs) op (lock_range l) (lock_exclusive l)"
      "t = fst (lockWaiter fs)" "st = Asleep (snd (lockWaiter fs))"
    using assms(1) by (auto simp: awaitLock_look_def split: if_splits prod.splits)
  note look_cases = this
  show "signals fs t"
    by (cases rule: look_cases) (auto simp: signals_def lockWaiter_def split: option.splits)
  show "chan_ok t"
    using assms(2) by (cases rule: look_cases)
      (auto simp: chan_ok_def lockWaiter_def less_Suc_eq split: option.splits)
  show "exclusion fs \<Longrightarrow> exclusion t"
    by (cases rule: look_cases) (auto simp: exclusion_append elim: exclusion_subset)
  show "st = Asleep c \<Longrightarrow> lockWait t = Some c \<and>
      lockConflict (locks t) op (lock_range l) (lock_exclusive l)"
    by (cases rule: look_cases) (auto simp: lockWaiter_def split: option.splits)
qed

lemma lock_inv_init: "lock_inv init_lockSys"
  by (simp add: lock_inv_def init_lockSys_def init_tbl_def exclusion_def chan_ok_def
      no_lost_wakeup_def)

text \<open>Setting one waiter to a state in which it is not asleep keeps the invariant.\<close>

lemma lock_inv_awake:
  assumes "lock_inv s" "\<And>c. st \<noteq> Asleep c"
  shows "lock_inv (s\<lparr>waiters := (waiters s)(w \<mapsto> (op, l, st))\<rparr>)"
  using assms unfolding lock_inv_def no_lost_wakeup_def by auto

lemma lock_inv_look:
  assumes "lock_inv s" "awaitLock_look op l (tbl s) = (t, st)"
  shows "lock_inv (s\<lparr>tbl := t, waiters := (waiters s)(w \<mapsto> (op, l, st))\<rparr>)"
proof -
  have inv: "chan_ok (tbl s)" "exclusion (tbl s)" "no_lost_wakeup s"
    using assms(1) by (auto simp: lock_inv_def)
  note contract = awaitLock_look_contract[OF assms(2) inv(1)]
  have "no_lost_wakeup (s\<lparr>tbl := t, waiters := (waiters s)(w \<mapsto> (op, l, st))\<rparr>)"
    unfolding no_lost_wakeup_def
  proof (intro allI impI)
    fix w' op' l' c
    let ?s = "s\<lparr>tbl := t, waiters := (waiters s)(w \<mapsto> (op, l, st))\<rparr>"
    assume asleep: "waiters ?s w' = Some (op', l', Asleep c)"
    show "c \<in> closedChans (tbl ?s) \<or> lockWait (tbl ?s) = Some c \<and>
        lockConflict (locks (tbl ?s)) op' (lock_range l') (lock_exclusive l')"
    proof (cases "w' = w")
      case True
      with asleep contract(4) show ?thesis by auto
    next
      case False
      with asleep inv(3) have "c \<in> closedChans (tbl s) \<or> lockWait (tbl s) = Some c \<and>
          lockConflict (locks (tbl s)) op' (lock_range l') (lock_exclusive l')"
        by (auto simp: no_lost_wakeup_def)
      with contract(1) show ?thesis by (auto simp: signals_def intro: lockConflict_mono)
    qed
  qed
  with inv contract show ?thesis by (simp add: lock_inv_def)
qed

lemma lock_step_inv: "lock_step s t \<Longrightarrow> lock_inv s \<Longrightarrow> lock_inv t"
proof (induction rule: lock_step.induct)
  case (stop s w)
  then show ?case by (simp add: lock_inv_def no_lost_wakeup_def)
next
  case (go s op)
  then show ?case by (simp add: lock_inv_def no_lost_wakeup_def)
qed (auto intro: lockRanges_op.keeps_lock_inv unlockRanges_op.keeps_lock_inv
      dropLock_op.keeps_lock_inv releaseLocks_op.keeps_lock_inv lock_inv_awake lock_inv_look)

lemma reachable_lock_inv: "lock_reachable s \<Longrightarrow> lock_inv s"
  by (induction rule: lock_reachable.induct) (auto intro: lock_inv_init lock_step_inv)


subsection \<open>Giving ranges back\<close>

definition names_lock :: "oid \<Rightarrow> smbLock \<Rightarrow> byteRangeLock \<Rightarrow> bool" where
  "names_lock op l h \<longleftrightarrow> bl_open h = op \<and> rg_offset h = lk_Offset l \<and> rg_length h = lk_Length l"

lemma unlock_search_found:
  assumes "unlock_search op l i found hs = Some j" "\<forall>k. found = Some k \<longrightarrow> k < i"
  shows "found = Some j \<or> i \<le> j \<and> j - i < length hs \<and> names_lock op l (hs ! (j - i))"
  using assms
proof (induction hs arbitrary: i found)
  case (Cons h hs)
  show ?case
  proof (cases "names_lock op l h \<and> bl_exclusive h")
    case True
    with Cons.prems show ?thesis by (auto simp: names_lock_def)
  next
    case False
    define found' where "found' = (if names_lock op l h \<and> found = None then Some i else found)"
    from False Cons.prems have "unlock_search op l (Suc i) found' hs = Some j"
      by (auto simp: names_lock_def found'_def split: if_splits)
    moreover from Cons.prems have "\<forall>k. found' = Some k \<longrightarrow> k < Suc i"
      by (auto simp: found'_def less_Suc_eq split: if_splits)
    ultimately have "found' = Some j \<or>
        Suc i \<le> j \<and> j - Suc i < length hs \<and> names_lock op l (hs ! (j - Suc i))"
      by (rule Cons.IH)
    then show ?thesis
      by (auto simp: found'_def nth_Cons' split: if_splits)
  qed
qed simp

lemma unlock_search_exclusive:
  assumes "unlock_search op l i found hs = Some j" "h \<in> set hs" "names_lock op l h" "bl_exclusive h"
  shows "i \<le> j \<and> j - i < length hs \<and> bl_exclusive (hs ! (j - i))"
  using assms
proof (induction hs arbitrary: i found)
  case (Cons g hs)
  show ?case
  proof (cases "names_lock op l g \<and> bl_exclusive g")
    case True
    with Cons.prems show ?thesis by (auto simp: names_lock_def)
  next
    case False
    with Cons.prems obtain found' where "unlock_search op l (Suc i) found' hs = Some j" "h \<in> set hs"
      by (auto simp: names_lock_def split: if_splits)
    with Cons.IH Cons.prems(3,4) have
      "Suc i \<le> j \<and> j - Suc i < length hs \<and> bl_exclusive (hs ! (j - Suc i))" by blast
    then show ?thesis by (auto simp: nth_Cons')
  qed
qed simp

lemma unlock_search_index:
  "unlock_search op l 0 None hs = Some j \<Longrightarrow> j < length hs \<and> names_lock op l (hs ! j)"
  using unlock_search_found[of op l 0 None hs j] by simp

lemma unlockRanges_loop_gives_back:
  "unlockRanges_loop op g fs ls = (fs', STATUS_OK, g') \<Longrightarrow>
     \<exists>hs. mset (locks fs) = mset hs + mset (locks fs') \<and> list_all2 (names_lock op) ls hs"
proof (induction ls arbitrary: g fs)
  case (Cons l ls)
  then obtain j where j: "unlock_search op l 0 None (locks fs) = Some j"
    and rest: "unlockRanges_loop op True (fs\<lparr>locks := remove_at j (locks fs)\<rparr>) ls
                 = (fs', STATUS_OK, g')"
    by (auto simp: status_defs split: if_splits option.splits)
  from Cons.IH[OF rest] obtain hs where
    "mset (remove_at j (locks fs)) = mset hs + mset (locks fs')" "list_all2 (names_lock op) ls hs"
    by auto
  with unlock_search_index[OF j] mset_remove_at[of j "locks fs"] show ?case
    by (intro exI[of _ "locks fs ! j # hs"]) auto
qed simp

subsection \<open>The properties of the lock table\<close>

text \<open>
  C2 (lock_exclusion). In every reachable state of a file and its waiting requests, a byte that one
  open has locked exclusively is covered by no lock of another open. The byte at the largest offset
  a 64-bit number holds is the exception, see \<open>last_byte_never_conflicts\<close>.
\<close>

theorem lock_exclusion:
  assumes "lock_reachable s" "a \<in> set (locks (tbl s))" "h \<in> set (locks (tbl s))"
    and "bl_exclusive a" "bl_open a \<noteq> bl_open h" "covers_byte a b" "b < 2 ^ 64 - 1"
  shows "\<not> covers_byte h b"
proof
  assume "covers_byte h b"
  with assms(6,7) have "overlaps a h"
    by (subst overlaps_iff_byte) (auto simp: covers_byte_def)
  moreover have "compatible a h"
    using reachable_lock_inv[OF assms(1)] assms(2,3,5)
    by (auto simp: lock_inv_def exclusion_def pairwise_def)
  ultimately show False using assms(4,5) by (simp add: compatible_def)
qed

text \<open>The states the witnesses below run through: open 1 locks bytes 0 to 9, open 2 bytes 10 to 19.\<close>

definition ex_lock :: "u64 \<Rightarrow> u64 \<Rightarrow> u32 \<Rightarrow> smbLock" where
  "ex_lock off len flags = \<lparr>lk_Offset = off, lk_Length = len, lk_Flags = flags\<rparr>"

lemmas ex_lock_simps =
  ex_lock_def mk_lock_def lock_range_def lock_exclusive_def fails_immediately_def lockflag_defs
  lockRanges_def validLockFlags_def overlaps_def range_end_def status_defs

definition ex_tbl :: "byteRangeLock list \<Rightarrow> lockState" where
  "ex_tbl ls = init_tbl\<lparr>locks := ls\<rparr>"

lemma ex_reachable_1:
  "lock_reachable (init_lockSys\<lparr>tbl := ex_tbl [mk_lock 1 (ex_lock 0 10 2)]\<rparr>)"
  using lock_reachable.step[OF lock_reachable.init
      lock_step.lock[of init_lockSys 1 "[ex_lock 0 10 2]"]]
  by (simp add: init_lockSys_def init_tbl_def ex_tbl_def ex_lock_simps)

lemma ex_reachable_2:
  "lock_reachable
     (init_lockSys\<lparr>tbl := ex_tbl [mk_lock 1 (ex_lock 0 10 2), mk_lock 2 (ex_lock 10 10 1)]\<rparr>)"
  using lock_reachable.step[OF ex_reachable_1
      lock_step.lock[of "init_lockSys\<lparr>tbl := ex_tbl [mk_lock 1 (ex_lock 0 10 2)]\<rparr>" 2
        "[ex_lock 10 10 1]"]]
  by (simp add: init_lockSys_def init_tbl_def ex_tbl_def ex_lock_simps)

theorem lock_exclusion_witness: "\<not> covers_byte (mk_lock 2 (ex_lock 10 10 1)) 9"
  by (rule lock_exclusion[OF ex_reachable_2, of "mk_lock 1 (ex_lock 0 10 2)"])
     (auto simp: ex_tbl_def ex_lock_simps covers_byte_def)

text \<open>
  C26 (lock_no_lost_wakeup). In every reachable state, a request asleep on a range that has come free
  can be woken and, unless it has been called off or its handle is gone, takes the range at its next
  look: a range given back between the look and the sleep is never missed.
\<close>

theorem lock_no_lost_wakeup:
  assumes "lock_reachable s" "waiters s w = Some (op, l, Asleep c)"
    and "\<not> lockConflict (locks (tbl s)) op (lock_range l) (lock_exclusive l)"
    and "w \<notin> stopped s" "op \<notin> gone s"
  shows "\<exists>t u. lock_step s t \<and> lock_step t u \<and> waiters u w = Some (op, l, Done STATUS_OK) \<and>
           locks (tbl u) = locks (tbl s) @ [mk_lock op l]"
proof -
  have "c \<in> closedChans (tbl s)"
    using reachable_lock_inv[OF assms(1)] assms(2,3)
    by (auto simp: lock_inv_def no_lost_wakeup_def)
  then have t: "lock_step s (s\<lparr>waiters := (waiters s)(w \<mapsto> (op, l, Looking))\<rparr>)" (is "lock_step s ?t")
    using assms(2) by (rule lock_step.wake[rotated])
  have "awaitLock_look op l (tbl ?t) =
      ((tbl s)\<lparr>locks := locks (tbl s) @ [mk_lock op l]\<rparr>, Done STATUS_OK)" (is "_ = (?tbl, _)")
    using assms(3) by (simp add: awaitLock_look_def)
  with assms(4,5) have
    "lock_step ?t (?t\<lparr>tbl := ?tbl, waiters := (waiters ?t)(w \<mapsto> (op, l, Done STATUS_OK))\<rparr>)"
    by (intro lock_step.look) auto
  with t show ?thesis by (intro exI) (auto intro!: exI)
qed


text \<open>
  A state in which open 2 sleeps on the range open 1 has just let go of: open 1 locks it, open 2
  starts waiting and looks, open 1 closes.
\<close>

definition ex_slept :: lockSys where
  "ex_slept = \<lparr>tbl = \<lparr>locks = [], lockWait = None, closedChans = {0}, nextChan = 1\<rparr>,
     waiters = [0 \<mapsto> (2, ex_lock 5 1 2, Asleep 0)], stopped = {}, gone = {}\<rparr>"

lemma reachable_stepI: "lock_reachable s \<Longrightarrow> lock_step s t \<Longrightarrow> t = u \<Longrightarrow> lock_reachable u"
  by (blast intro: lock_reachable.step)

lemma ex_slept_reachable: "lock_reachable ex_slept"
proof -
  let ?held = "init_lockSys\<lparr>tbl := ex_tbl [mk_lock 1 (ex_lock 0 10 2)]\<rparr>"
  let ?started = "?held\<lparr>waiters := [0 \<mapsto> (2, ex_lock 5 1 2, Looking)]\<rparr>"
  let ?asleep = "?started\<lparr>tbl := (ex_tbl [mk_lock 1 (ex_lock 0 10 2)])\<lparr>lockWait := Some 0, nextChan := 1\<rparr>,
      waiters := [0 \<mapsto> (2, ex_lock 5 1 2, Asleep 0)]\<rparr>"
  have "lock_reachable ?started"
    by (rule reachable_stepI[OF ex_reachable_1 lock_step.start[of _ 0 2 "ex_lock 5 1 2"]])
       (simp_all add: init_lockSys_def)
  then have "lock_reachable ?asleep"
    by (rule reachable_stepI[OF _ lock_step.look[of _ 0 2 "ex_lock 5 1 2"]])
       (simp_all add: init_lockSys_def ex_tbl_def init_tbl_def awaitLock_look_def lockWaiter_def
          ex_lock_simps)
  then show ?thesis
    by (rule reachable_stepI[OF _ lock_step.release[of _ 1]])
       (simp add: ex_slept_def init_lockSys_def ex_tbl_def init_tbl_def releaseLocks_def
          lockChanged_def ex_lock_simps)
qed

theorem lock_no_lost_wakeup_witness:
  "\<exists>t u. lock_step ex_slept t \<and> lock_step t u \<and>
     waiters u 0 = Some (2, ex_lock 5 1 2, Done STATUS_OK) \<and>
     locks (tbl u) = locks (tbl ex_slept) @ [mk_lock 2 (ex_lock 5 1 2)]"
  by (rule lock_no_lost_wakeup[OF ex_slept_reachable]) (auto simp: ex_slept_def)

text \<open>
  C34 (lockRanges_outcomes). The outcomes of a lock request. Granted, it adds exactly its elements,
  in order; refused over a conflict, it leaves the locks as they were; put off, it names the one
  range and has changed nothing; malformed, it has added the elements before the malformed one and
  nothing else.
\<close>

theorem lockRanges_outcomes:
  assumes "lockRanges op ls fs = (fs', st, wait)"
  shows "(st = STATUS_OK \<and> \<not> wait \<longrightarrow> fs' = fs\<lparr>locks := locks fs @ map (mk_lock op) ls\<rparr>) \<and>
         (st = STATUS_LOCK_NOT_GRANTED \<longrightarrow> locks fs' = locks fs) \<and>
         (wait \<longrightarrow> (\<exists>l. ls = [l]) \<and> fs' = fs \<and> st = STATUS_OK) \<and>
         (st = STATUS_INVALID_PARAMETER \<longrightarrow>
            (\<exists>m \<le> length ls. fs' = fs\<lparr>locks := locks fs @ map (mk_lock op) (take m ls)\<rparr>))"
proof (cases "length ls > 1 \<and> \<not> list_all fails_immediately ls")
  case True
  with assms show ?thesis
    by (auto simp: lockRanges_def status_defs intro!: exI[of _ 0])
next
  case False
  with assms have loop: "lockRanges_loop op 0 fs ls = (fs', st, wait)"
    by (auto simp: lockRanges_def split: if_splits)
  have put_off: "(\<exists>l. ls = [l]) \<and> fs' = fs \<and> st = STATUS_OK" if wait
  proof -
    from that loop lockRanges_loop_wait[of op 0 fs ls] False obtain l where "ls = [l]"
      by (cases ls; cases "tl ls") (auto simp: list_all_iff)
    with that loop show ?thesis by (auto split: if_splits)
  qed
  with loop show ?thesis
    using lockRanges_loop_granted[of op 0 fs ls fs'] lockRanges_loop_refused[of op 0 fs ls fs']
      lockRanges_loop_prefix[of op 0 fs ls fs' st wait]
    by (auto simp: status_defs)
qed

theorem lockRanges_outcomes_witness:
  "locks (fst (lockRanges 2 [ex_lock 20 5 0x12, ex_lock 3 4 0x12]
      (ex_tbl [mk_lock 1 (ex_lock 0 10 2)]))) = [mk_lock 1 (ex_lock 0 10 2)]"
proof -
  let ?fs = "ex_tbl [mk_lock 1 (ex_lock 0 10 2)]"
  have "lockRanges 2 [ex_lock 20 5 0x12, ex_lock 3 4 0x12] ?fs = (?fs, STATUS_LOCK_NOT_GRANTED, False)"
    by (simp add: ex_tbl_def init_tbl_def lockChanged_def ex_lock_simps)
  then show ?thesis using lockRanges_outcomes[of 2 "[ex_lock 20 5 0x12, ex_lock 3 4 0x12]" ?fs]
    by (simp add: ex_tbl_def)
qed

text \<open>
  An unlock request that is answered with success has given back one
  lock per element and nothing else, each of them held by the requesting open over exactly the range
  the element names.
\<close>

theorem unlockRanges_gives_back:
  assumes "unlockRanges op ls fs = (fs', STATUS_OK)"
  shows "\<exists>hs. mset (locks fs) = mset hs + mset (locks fs') \<and> list_all2 (names_lock op) ls hs"
proof (cases "unlockRanges_loop op False fs ls")
  case (fields t st given)
  with assms have "st = STATUS_OK" "locks fs' = locks t"
    by (auto simp: unlockRanges_def split: if_splits)
  with fields unlockRanges_loop_gives_back[of op False fs ls t given] show ?thesis by simp
qed

theorem unlockRanges_gives_back_witness:
  "\<exists>hs. mset (locks (ex_tbl [mk_lock 1 (ex_lock 0 10 1), mk_lock 1 (ex_lock 0 10 2)])) =
        mset hs + mset [mk_lock 1 (ex_lock 0 10 1)] \<and> list_all2 (names_lock 1) [ex_lock 0 10 4] hs"
proof -
  let ?fs = "ex_tbl [mk_lock 1 (ex_lock 0 10 1), mk_lock 1 (ex_lock 0 10 2)]"
  have "unlockRanges 1 [ex_lock 0 10 4] ?fs = (ex_tbl [mk_lock 1 (ex_lock 0 10 1)], STATUS_OK)"
    by (simp add: unlockRanges_def ex_tbl_def init_tbl_def lockChanged_def remove_at_def ex_lock_simps)
  then show ?thesis
    using unlockRanges_gives_back[of 1 "[ex_lock 0 10 4]" ?fs] by (simp add: ex_tbl_def)
qed

text \<open>
  The byte at offset \<open>2 ^ 64 - 1\<close> cannot be locked: two opens are
  both granted an exclusive lock over it, whatever else is held, because the saturated end of the
  range is the offset itself.
\<close>

theorem last_byte_never_conflicts:
  "lockRanges op [ex_lock 0xffffffffffffffff 1 2] fs =
     (fs\<lparr>locks := locks fs @ [mk_lock op (ex_lock 0xffffffffffffffff 1 2)]\<rparr>, STATUS_OK, False)"
proof -
  have "\<not> overlaps h (lock_range (ex_lock 0xffffffffffffffff 1 2))" for h :: byteRangeLock
  proof -
    have "\<not> (0xffffffffffffffff :: u64) < x" for x
      using unsigned_less[of x, where 'a = nat] by (simp add: word_less_nat_alt)
    then show ?thesis by (auto simp: overlaps_def lock_range_def ex_lock_def)
  qed
  then have "\<not> lockConflict (locks fs) op (lock_range (ex_lock 0xffffffffffffffff 1 2)) True"
    by (simp add: lockConflict_iff)
  moreover have "lock_exclusive (ex_lock 0xffffffffffffffff 1 2)"
    "validLockFlags (lk_Flags (ex_lock 0xffffffffffffffff 1 2))" by (simp_all add: ex_lock_simps)
  ultimately show ?thesis by (simp add: lockRanges_def)
qed

end
