(* ===== verification/Slices.thy ===== *)
theory Slices
  imports Sombrero_Prelude
begin

section \<open>Slice, key and path helpers\<close>

text \<open>
  The helpers of \<^verbatim>\<open>src/utils/utils.go\<close>: rounding up to a boundary, taking paths apart, the
  extreme keys of a map, and the set operations on slices that the negotiation of algorithms and
  dialects rests on. Go strings are byte strings, \<^typ>\<open>string\<close> here. A Go map that is iterated over
  is an association list: Go leaves the order of the iteration open, and so do the theorems, which
  hold for every order. The Go type parameters are type variables; the zero value a function returns
  when it finds nothing is a parameter.
\<close>

subsection \<open>Rounding\<close>

text \<open>\<^verbatim>\<open>Roundup\<close> on Go's 64-bit \<^verbatim>\<open>int\<close>.\<close>

definition Roundup :: "64 word \<Rightarrow> 64 word \<Rightarrow> 64 word" where
  "Roundup x bound = (x + (bound - 1)) AND NOT (bound - 1)"

subsection \<open>Paths\<close>

abbreviation slash :: char where
  "slash \<equiv> CHR ''/''"

abbreviation backslash :: char where
  "backslash \<equiv> CHR 0x5C"

text \<open>\<^verbatim>\<open>strings.Split(s, "/")\<close>: never empty, one part more than there are separators.\<close>

fun split_slash :: "string \<Rightarrow> string list" where
  "split_slash [] = [[]]"
| "split_slash (c # cs) =
     (if c = slash then [] # split_slash cs
      else (c # hd (split_slash cs)) # tl (split_slash cs))"

text \<open>\<^verbatim>\<open>strings.Join(parts, "/")\<close>.\<close>

fun join_slash :: "string list \<Rightarrow> string" where
  "join_slash [] = []"
| "join_slash [p] = p"
| "join_slash (p # ps) = p @ slash # join_slash ps"

definition replace_backslash :: "string \<Rightarrow> string" where
  "replace_backslash = map (\<lambda>c. if c = backslash then slash else c)"

text \<open>\<^verbatim>\<open>ExtractFilename\<close> returns the path, the name, and whether it is a directory.\<close>

definition ExtractFilename :: "string \<Rightarrow> string \<times> string \<times> bool" where
  "ExtractFilename path =
     (if path = [] \<or> path = [slash] then ([], [], True)
      else
        let filepath = (if hd path = slash then tl path else path);
            isDir = (last path = slash);
            filepath = (if isDir then butlast filepath else filepath);
            filename = last (split_slash filepath)
        in (filepath, filename, isDir))"

definition TrimPath :: "string \<Rightarrow> string" where
  "TrimPath path = last (split_slash (replace_backslash path))"

definition TrimName :: "string \<Rightarrow> string" where
  "TrimName path = join_slash (butlast (split_slash (replace_backslash path)))"

subsection \<open>The extreme keys of a map\<close>

text \<open>The loop over the map: key so far, value so far, and whether a pair has been seen.\<close>

fun FindMinKey_loop :: "u64 \<Rightarrow> 'v \<Rightarrow> bool \<Rightarrow> (u64 \<times> 'v) list \<Rightarrow> u64 \<times> 'v" where
  "FindMinKey_loop key val found [] = (key, val)"
| "FindMinKey_loop key val found ((k, v) # kvs) =
     (if \<not> found \<or> k < key then FindMinKey_loop k v True kvs
      else FindMinKey_loop key val found kvs)"

definition FindMinKey :: "'v \<Rightarrow> (u64 \<times> 'v) list \<Rightarrow> u64 \<times> 'v" where
  "FindMinKey zero m = FindMinKey_loop 0xffffffffffffffff zero False m"

fun FindMaxKey_loop :: "u64 \<Rightarrow> 'v \<Rightarrow> bool \<Rightarrow> (u64 \<times> 'v) list \<Rightarrow> u64 \<times> 'v" where
  "FindMaxKey_loop key val found [] = (key, val)"
| "FindMaxKey_loop key val found ((k, v) # kvs) =
     (if \<not> found \<or> k > key then FindMaxKey_loop k v True kvs
      else FindMaxKey_loop key val found kvs)"

definition FindMaxKey :: "'v \<Rightarrow> (u64 \<times> 'v) list \<Rightarrow> u64 \<times> 'v" where
  "FindMaxKey zero m = FindMaxKey_loop 0 zero False m"

subsection \<open>Slices as sets\<close>

text \<open>Every one of these builds its set from the shorter slice and walks the longer.\<close>

definition shorter :: "'a list \<Rightarrow> 'a list \<Rightarrow> 'a list" where
  "shorter a b = (if length a > length b then b else a)"

definition longer :: "'a list \<Rightarrow> 'a list \<Rightarrow> 'a list" where
  "longer a b = (if length a > length b then a else b)"

definition IsOverlapped :: "'a list \<Rightarrow> 'a list \<Rightarrow> bool" where
  "IsOverlapped a b =
     (if a = [] \<or> b = [] then False
      else list_ex (\<lambda>v. v \<in> set (shorter a b)) (longer a b))"

definition Subset :: "'a list \<Rightarrow> 'a list \<Rightarrow> 'a list" where
  "Subset a b =
     (if a = [] \<or> b = [] then []
      else filter (\<lambda>v. v \<in> set (shorter a b)) (longer a b))"

definition FirstMatch :: "'a \<Rightarrow> 'a list \<Rightarrow> 'a list \<Rightarrow> 'a" where
  "FirstMatch zero a b =
     (if a = [] \<or> b = [] then zero
      else case List.find (\<lambda>v. v \<in> set b) a of None \<Rightarrow> zero | Some v \<Rightarrow> v)"

definition Equal :: "'a list \<Rightarrow> 'a list \<Rightarrow> bool" where
  "Equal a b =
     (if a = [] \<and> b = [] then True
      else if a = [] \<or> b = [] then False
      else list_all (\<lambda>v. v \<in> set (shorter a b)) (longer a b))"

fun MaxCommon_loop :: "'a :: linorder set \<Rightarrow> 'a \<Rightarrow> 'a list \<Rightarrow> 'a" where
  "MaxCommon_loop S c [] = c"
| "MaxCommon_loop S c (v # vs) = MaxCommon_loop S (if v \<in> S \<and> v > c then v else c) vs"

definition MaxCommon :: "'a :: linorder \<Rightarrow> 'a list \<Rightarrow> 'a list \<Rightarrow> 'a" where
  "MaxCommon zero a b =
     (if a = [] \<or> b = [] then zero
      else MaxCommon_loop (set (shorter a b)) zero (longer a b))"

subsection \<open>The dialect check of a validate-negotiate request\<close>

text \<open>
  What \<^verbatim>\<open>processRequest\<close> asks of the dialects of an \<^verbatim>\<open>FSCTL_VALIDATE_NEGOTIATE_INFO\<close> request, with
  \<^verbatim>\<open>MaxSupportedDialect\<close> being 3.1.1 as it is in this server: the list has to equal the one the
  negotiate request carried, and the greatest common dialect has to be the one negotiated.
\<close>

definition validate_dialects :: "u16 list \<Rightarrow> u16 list \<Rightarrow> u16 \<Rightarrow> bool" where
  "validate_dialects dialects clientDialects negotiated =
     (Equal dialects clientDialects \<and> MaxCommon 0 dialects clientDialects = negotiated)"

subsection \<open>Lemmas\<close>

lemma split_slash_not_Nil [simp]: "split_slash s \<noteq> []"
  by (cases s) auto

lemma join_split_slash: "join_slash (split_slash s) = s"
proof (induction s)
  case (Cons c s)
  then show ?case by (cases "split_slash s"; cases "tl (split_slash s)") auto
qed simp

lemma split_slash_no_slash: "p \<in> set (split_slash s) \<Longrightarrow> slash \<notin> set p"
proof (induction s arbitrary: p)
  case (Cons c s)
  then show ?case by (cases "split_slash s") (auto split: if_splits)
qed simp

lemma FindMinKey_loop_correct:
  assumes "FindMinKey_loop key val found m = (k, v)" "found \<or> m \<noteq> []"
  shows "((k, v) \<in> set m \<or> found \<and> (k, v) = (key, val)) \<and>
         (\<forall>k' \<in> fst ` set m. k \<le> k') \<and> (found \<longrightarrow> k \<le> key)"
  using assms
proof (induction m arbitrary: key val found)
  case (Cons kv m)
  obtain k0 v0 where "kv = (k0, v0)" by (cases kv)
  with Cons.prems Cons.IH[of k0 v0 True] Cons.IH[of key val found] show ?case
    by (auto split: if_splits)
qed auto

lemma FindMaxKey_loop_correct:
  assumes "FindMaxKey_loop key val found m = (k, v)" "found \<or> m \<noteq> []"
  shows "((k, v) \<in> set m \<or> found \<and> (k, v) = (key, val)) \<and>
         (\<forall>k' \<in> fst ` set m. k' \<le> k) \<and> (found \<longrightarrow> key \<le> k)"
  using assms
proof (induction m arbitrary: key val found)
  case (Cons kv m)
  obtain k0 v0 where "kv = (k0, v0)" by (cases kv)
  with Cons.prems Cons.IH[of k0 v0 True] Cons.IH[of key val found] show ?case
    by (auto split: if_splits)
qed auto

lemma set_shorter_longer: "set (shorter a b) \<inter> set (longer a b) = set a \<inter> set b"
  by (auto simp: shorter_def longer_def)

lemma IsOverlapped_iff: "IsOverlapped a b \<longleftrightarrow> set a \<inter> set b \<noteq> {}"
  using set_shorter_longer[of a b] by (auto simp: IsOverlapped_def list_ex_iff)

lemma set_Subset: "set (Subset a b) = set a \<inter> set b"
  using set_shorter_longer[of a b] by (auto simp: Subset_def)

text \<open>On slices without repetitions \<^const>\<open>Equal\<close> is what its comment says: equality as sets.\<close>

lemma distinct_subset_eq:
  assumes "distinct x" "distinct y" "length x \<le> length y" "set y \<subseteq> set x"
  shows "set y = set x"
  using assms by (metis List.finite_set card_seteq distinct_card)

lemma Equal_distinct:
  assumes "distinct a" "distinct b"
  shows "Equal a b \<longleftrightarrow> set a = set b"
proof (cases "a = [] \<or> b = []")
  case True
  then show ?thesis by (auto simp: Equal_def)
next
  case False
  then have "Equal a b \<longleftrightarrow> set (longer a b) \<subseteq> set (shorter a b)"
    by (auto simp: Equal_def list_all_iff)
  also have "\<dots> \<longleftrightarrow> set a = set b"
  proof (cases "length a > length b")
    case True
    with assms distinct_subset_eq[of b a] show ?thesis by (auto simp: shorter_def longer_def)
  next
    case False
    with assms distinct_subset_eq[of a b] show ?thesis by (auto simp: shorter_def longer_def)
  qed
  finally show ?thesis .
qed

lemma MaxCommon_loop_upper:
  "c \<le> MaxCommon_loop S c vs \<and> (\<forall>v \<in> set vs \<inter> S. v \<le> MaxCommon_loop S c vs)"
proof (induction vs arbitrary: c)
  case (Cons v vs)
  let ?c = "if v \<in> S \<and> v > c then v else c"
  have "c \<le> ?c" "v \<in> S \<Longrightarrow> v \<le> ?c" by auto
  with Cons.IH[of ?c] show ?case by (auto simp del: if_split intro: order_trans)
qed simp

lemma MaxCommon_loop_in:
  "MaxCommon_loop S c vs = c \<or> MaxCommon_loop S c vs \<in> set vs \<inter> S"
proof (induction vs arbitrary: c)
  case (Cons v vs)
  from Cons.IH[of "if v \<in> S \<and> v > c then v else c"] show ?case by (auto split: if_splits)
qed simp

text \<open>
  The dialect check does not detect a downgrade by repetition. A
  client that offers 3.0, 3.0.2 and 3.1.1 and whose negotiate request reaches the server as 3.0 three
  times over negotiates 3.0, and its validate-negotiate request, carrying the dialects it really
  offered, is accepted.
\<close>

theorem validate_dialects_downgrade:
  "validate_dialects [0x0300, 0x0302, 0x0311] [0x0300, 0x0300, 0x0300] 0x0300 \<and>
   set [0x0300, 0x0302, 0x0311 :: u16] \<noteq> set [0x0300, 0x0300, 0x0300]"
  by (auto simp: validate_dialects_def Equal_def MaxCommon_def shorter_def longer_def)

text \<open>
  Where neither list repeats a dialect the check is sound: an accepted
  request carries the same dialects as the negotiate request, and the dialect negotiated is the
  greatest of them.
\<close>

theorem validate_dialects_sound:
  assumes "validate_dialects ds cs d" "distinct ds" "distinct cs" "ds \<noteq> []"
  shows "set ds = set cs \<and> (d = 0 \<or> d \<in> set ds) \<and> (\<forall>v \<in> set ds. v \<le> d)"
proof -
  have eq: "set ds = set cs" "cs \<noteq> []"
    using assms Equal_distinct[of ds cs] by (auto simp: validate_dialects_def)
  have d: "d = MaxCommon_loop (set (shorter ds cs)) 0 (longer ds cs)"
    using assms eq by (simp add: validate_dialects_def MaxCommon_def)
  show ?thesis
    using MaxCommon_loop_in[of "set (shorter ds cs)" 0 "longer ds cs"]
      MaxCommon_loop_upper[of 0 "set (shorter ds cs)" "longer ds cs"] eq
    by (auto simp: d shorter_def longer_def split: if_splits)
qed

theorem validate_dialects_sound_witness:
  "set [0x0300, 0x0302 :: u16] = set [0x0302, 0x0300] \<and> (0x0300 :: u16) \<le> 0x0302"
proof -
  have "validate_dialects [0x0300, 0x0302] [0x0302, 0x0300] 0x0302"
    by (simp add: validate_dialects_def Equal_def MaxCommon_def shorter_def longer_def)
  from validate_dialects_sound[OF this] show ?thesis by auto
qed

end
