(* ===== verification/Server_Store.thy ===== *)
theory Server_Store
  imports Slices "HOL-Library.AList"
begin

section \<open>The opens, the leases and the tables of the server\<close>

text \<open>
  The part of the server's state that the caching promises and the index of opens live in: the
  fields of \<^verbatim>\<open>open\<close> (\<^verbatim>\<open>src/open.go\<close>), \<^verbatim>\<open>lease\<close> and \<^verbatim>\<open>leaseTable\<close> (\<^verbatim>\<open>src/lease.go\<close>), and the tables of
  \<^verbatim>\<open>server\<close> (\<^verbatim>\<open>src/server.go\<close>) those files work on. Pointers are identifiers into two stores,
  one of opens and one of leases, so that every alias of an open sees every change to it; a share
  is an identifier too. A Go map that the code iterates over is an association list whose order stands
  for the order Go happens to iterate in; one that is only looked up is a partial function. A
  16-byte GUID or key is a 128-bit word: the code only ever compares them and asks whether they are
  all zeroes. Mutexes are not modelled: an operation that runs under one is one function.
\<close>

type_synonym guid = "128 word"
type_synonym sid = nat
type_synonym lid = nat

text \<open>The constants \<^verbatim>\<open>OplockNone\<close>, \<^verbatim>\<open>OplockHeld\<close> and \<^verbatim>\<open>OplockBreaking\<close> of \<^verbatim>\<open>src/smb2/create.go\<close>.\<close>

datatype oplockStatus = OplockNone | OplockHeld | OplockBreaking

definition OPLOCK_LEVEL_NONE :: u8 where
  "OPLOCK_LEVEL_NONE = 0x00"

definition OPLOCK_LEVEL_II :: u8 where
  "OPLOCK_LEVEL_II = 0x01"

definition OPLOCK_LEVEL_EXCLUSIVE :: u8 where
  "OPLOCK_LEVEL_EXCLUSIVE = 0x08"

definition OPLOCK_LEVEL_BATCH :: u8 where
  "OPLOCK_LEVEL_BATCH = 0x09"

definition OPLOCK_LEVEL_LEASE :: u8 where
  "OPLOCK_LEVEL_LEASE = 0xff"

lemmas oplock_level_defs =
  OPLOCK_LEVEL_NONE_def OPLOCK_LEVEL_II_def OPLOCK_LEVEL_EXCLUSIVE_def OPLOCK_LEVEL_BATCH_def
  OPLOCK_LEVEL_LEASE_def

definition SMB2_LEASE_NONE :: u32 where
  "SMB2_LEASE_NONE = 0x00"

definition SMB2_LEASE_READ_CACHING :: u32 where
  "SMB2_LEASE_READ_CACHING = 0x01"

definition SMB2_LEASE_HANDLE_CACHING :: u32 where
  "SMB2_LEASE_HANDLE_CACHING = 0x02"

definition SMB2_LEASE_WRITE_CACHING :: u32 where
  "SMB2_LEASE_WRITE_CACHING = 0x04"

lemmas lease_state_defs =
  SMB2_LEASE_NONE_def SMB2_LEASE_READ_CACHING_def SMB2_LEASE_HANDLE_CACHING_def
  SMB2_LEASE_WRITE_CACHING_def

text \<open>\<^verbatim>\<open>treeConnect.share\<close> is \<open>None\<close> where \<^verbatim>\<open>treeConnect\<close> is nil.\<close>

record openRec =
  durableFileID :: u64
  op_share :: "sid option"
  grantedAccess :: u32
  shareMode :: u32
  pathName :: string
  fileName :: string
  createGuid :: guid
  clientGuid :: guid
  isReplayEligible :: bool
  op_isDirectory :: bool
  oplockLevel :: u8
  oplockState :: oplockStatus
  oplockBreakTo :: u8
  oplockBreak :: "chan option"
  oplockBreakSeq :: u64
  op_lease :: "lid option"

record leaseRec =
  leaseKey :: guid
  ls_clientGuid :: guid
  ls_fileName :: string
  ls_state :: u32
  breakToState :: u32
  breaking :: bool
  epoch :: u16
  fileDeleteOnClose :: bool
  ls_opens :: "(u64 \<times> oid) list"
  breakDone :: "chan option"
  breakSeq :: u64

record fileKey =
  fk_share :: "sid option"
  fk_path :: string

record replayKey =
  rk_clientGuid :: guid
  rk_createGuid :: guid

record server =
  opens :: "oid \<Rightarrow> openRec"
  leases :: "lid \<Rightarrow> leaseRec"
  opensByFile :: "(fileKey \<times> (u64 \<times> oid) list) list"
  replayableOpens :: "replayKey \<Rightarrow> oid option"
  leaseTables :: "guid \<Rightarrow> (guid \<Rightarrow> lid option)"
  nextLease :: lid
  closed :: "chan set"
  nextChannel :: chan
  panicked :: bool

text \<open>Changing the fields of one open, or of one lease, in place.\<close>

definition upd_open :: "oid \<Rightarrow> (openRec \<Rightarrow> openRec) \<Rightarrow> server \<Rightarrow> server" where
  "upd_open op f s = s\<lparr>opens := (opens s)(op := f (opens s op))\<rparr>"

definition upd_lease :: "lid \<Rightarrow> (leaseRec \<Rightarrow> leaseRec) \<Rightarrow> server \<Rightarrow> server" where
  "upd_lease l f s = s\<lparr>leases := (leases s)(l := f (leases s l))\<rparr>"

lemma opens_upd_open [simp]:
  "opens (upd_open op f s) = (opens s)(op := f (opens s op))"
  "leases (upd_open op f s) = leases s"
  "opensByFile (upd_open op f s) = opensByFile s"
  "replayableOpens (upd_open op f s) = replayableOpens s"
  "closed (upd_open op f s) = closed s"
  "nextChannel (upd_open op f s) = nextChannel s"
  "panicked (upd_open op f s) = panicked s"
  "leaseTables (upd_open op f s) = leaseTables s"
  "nextLease (upd_open op f s) = nextLease s"
  by (simp_all add: upd_open_def)

lemma leases_upd_lease [simp]:
  "leases (upd_lease l g s) = (leases s)(l := g (leases s l))"
  "opens (upd_lease l g s) = opens s"
  "opensByFile (upd_lease l g s) = opensByFile s"
  "replayableOpens (upd_lease l g s) = replayableOpens s"
  "closed (upd_lease l g s) = closed s"
  "nextChannel (upd_lease l g s) = nextChannel s"
  "panicked (upd_lease l g s) = panicked s"
  "leaseTables (upd_lease l g s) = leaseTables s"
  "nextLease (upd_lease l g s) = nextLease s"
  by (simp_all add: upd_lease_def)

text \<open>
  Go channels that are only ever closed. Making one takes the next identifier; closing a nil channel or
  one that is closed already panics, which the \<^const>\<open>panicked\<close> flag records.
\<close>

definition make_chan :: "server \<Rightarrow> server \<times> chan" where
  "make_chan s = (s\<lparr>nextChannel := Suc (nextChannel s)\<rparr>, nextChannel s)"

definition close_chan :: "chan option \<Rightarrow> server \<Rightarrow> server" where
  "close_chan ch s =
     (case ch of
        None \<Rightarrow> s\<lparr>panicked := True\<rparr>
      | Some c \<Rightarrow> (if c \<in> closed s then s\<lparr>panicked := True\<rparr> else s\<lparr>closed := insert c (closed s)\<rparr>))"

lemma close_chan_simps [simp]:
  "opens (close_chan ch s) = opens s"
  "leases (close_chan ch s) = leases s"
  "opensByFile (close_chan ch s) = opensByFile s"
  "replayableOpens (close_chan ch s) = replayableOpens s"
  "nextChannel (close_chan ch s) = nextChannel s"
  "leaseTables (close_chan ch s) = leaseTables s"
  "nextLease (close_chan ch s) = nextLease s"
  by (simp_all add: close_chan_def split: option.splits)

lemma close_chan_open:
  assumes "c \<notin> closed s"
  shows "closed (close_chan (Some c) s) = insert c (closed s)"
    and "panicked (close_chan (Some c) s) = panicked s"
  using assms by (simp_all add: close_chan_def)

end
