(* ===== verification/Open_Index.thy ===== *)
theory Open_Index
  imports Server_Store
begin

section \<open>The index of opens\<close>

text \<open>
  \<^verbatim>\<open>src/openindex.go\<close>: the opens on a file, which every create consults before it may promise
  anything, and the open a create GUID already made. The index is held together by one invariant,
  \<open>index_ok\<close>: an open is filed under exactly the share and path it carries.
\<close>

subsection \<open>The opens on a file\<close>

definition fileKeyLocked :: "openRec \<Rightarrow> fileKey" where
  "fileKeyLocked o' = \<lparr>fk_share = op_share o', fk_path = pathName o'\<rparr>"

text \<open>A bucket that is not there is read as an empty one, as Go reads a nil map.\<close>

definition bucket :: "server \<Rightarrow> fileKey \<Rightarrow> (u64 \<times> oid) list" where
  "bucket s key = (case map_of (opensByFile s) key of None \<Rightarrow> [] | Some b \<Rightarrow> b)"

definition indexOpen :: "oid \<Rightarrow> server \<Rightarrow> server" where
  "indexOpen op s =
     (let key = fileKeyLocked (opens s op); dfid = durableFileID (opens s op)
      in s\<lparr>opensByFile := AList.update key (AList.update dfid op (bucket s key)) (opensByFile s)\<rparr>)"

definition dropFromBucket :: "fileKey \<Rightarrow> u64 \<Rightarrow> server \<Rightarrow> server" where
  "dropFromBucket key dfid s =
     (case map_of (opensByFile s) key of
        None \<Rightarrow> s
      | Some b \<Rightarrow>
          (let b' = AList.delete dfid b
           in if b' = [] then s\<lparr>opensByFile := AList.delete key (opensByFile s)\<rparr>
              else s\<lparr>opensByFile := AList.update key b' (opensByFile s)\<rparr>))"

definition unindexOpen :: "oid \<Rightarrow> server \<Rightarrow> server" where
  "unindexOpen op s = dropFromBucket (fileKeyLocked (opens s op)) (durableFileID (opens s op)) s"

text \<open>\<^verbatim>\<open>moveOpen\<close> and \<^verbatim>\<open>moveOpenLocked\<close>, which differ only in who holds the mutex.\<close>

definition moveOpenLocked :: "oid \<Rightarrow> string \<Rightarrow> server \<Rightarrow> server" where
  "moveOpenLocked op newPath s =
     (let oldKey = fileKeyLocked (opens s op);
          dfid = durableFileID (opens s op);
          s1 = upd_open op (\<lambda>o'. o'\<lparr>pathName := newPath, fileName := TrimPath newPath\<rparr>) s;
          newKey = fileKeyLocked (opens s1 op)
      in case map_of (opensByFile s) oldKey of
           None \<Rightarrow> s1
         | Some b \<Rightarrow>
             (if map_of b dfid = None then s1
              else let s2 = dropFromBucket oldKey dfid s1
                   in s2\<lparr>opensByFile :=
                        AList.update newKey (AList.update dfid op (bucket s2 newKey)) (opensByFile s2)\<rparr>))"

definition moveOpen :: "oid \<Rightarrow> string \<Rightarrow> server \<Rightarrow> server" where
  "moveOpen op newPath s = moveOpenLocked op newPath s"

text \<open>\<^verbatim>\<open>strings.HasPrefix\<close>.\<close>

definition has_prefix :: "string \<Rightarrow> string \<Rightarrow> bool" where
  "has_prefix s pre = (take (length pre) s = pre)"

text \<open>The opens beneath a directory, each with the path it is to carry.\<close>

definition opens_under :: "sid \<Rightarrow> string \<Rightarrow> string \<Rightarrow> server \<Rightarrow> (oid \<times> string) list" where
  "opens_under sh oldPath newPath s =
     concat (map (\<lambda>(key, b).
         if fk_share key \<noteq> Some sh \<or> \<not> has_prefix (fk_path key) (oldPath @ [slash]) then []
         else map (\<lambda>(dfid, op).
             (op, newPath @ [slash] @ drop (length (oldPath @ [slash])) (fk_path key))) b)
       (opensByFile s))"

definition moveOpensUnder :: "sid \<Rightarrow> string \<Rightarrow> string \<Rightarrow> server \<Rightarrow> server \<times> oid list" where
  "moveOpensUnder sh oldPath newPath s =
     (let moves = opens_under sh oldPath newPath s
      in (fold (\<lambda>(op, path) t. moveOpenLocked op path t) moves s, map fst moves))"

text \<open>
  \<^verbatim>\<open>opensOn\<close>: the candidates out of the bucket, each of which then answers for itself. \<open>except\<close> is
  \<open>None\<close> where the code passes nil.
\<close>

definition opensOn :: "sid \<Rightarrow> string \<Rightarrow> oid option \<Rightarrow> server \<Rightarrow> oid list" where
  "opensOn sh path except s =
     filter (\<lambda>op. op_share (opens s op) = Some sh \<and> pathName (opens s op) = path)
       (filter (\<lambda>op. Some op \<noteq> except) (map snd (bucket s \<lparr>fk_share = Some sh, fk_path = path\<rparr>)))"

definition moveOpensOnFile :: "sid \<Rightarrow> string \<Rightarrow> string \<Rightarrow> server \<Rightarrow> server \<times> oid list" where
  "moveOpensOnFile sh path newName s =
     (let moved = opensOn sh path None s
      in (fold (\<lambda>op t. moveOpen op newName t) moved s, moved))"

subsection \<open>The open a create already made\<close>

definition FILE_READ_DATA :: u32 where "FILE_READ_DATA = 0x00000001"
definition FILE_WRITE_DATA :: u32 where "FILE_WRITE_DATA = 0x00000002"
definition FILE_APPEND_DATA :: u32 where "FILE_APPEND_DATA = 0x00000004"
definition FILE_EXECUTE :: u32 where "FILE_EXECUTE = 0x00000020"
definition DELETE_ACCESS :: u32 where "DELETE_ACCESS = 0x00010000"

lemmas access_defs =
  FILE_READ_DATA_def FILE_WRITE_DATA_def FILE_APPEND_DATA_def FILE_EXECUTE_def DELETE_ACCESS_def

definition useful :: u32 where
  "useful = FILE_READ_DATA OR FILE_EXECUTE OR FILE_WRITE_DATA OR FILE_APPEND_DATA OR DELETE_ACCESS"

definition replay_key :: "openRec \<Rightarrow> replayKey" where
  "replay_key o' = \<lparr>rk_clientGuid = clientGuid o', rk_createGuid = createGuid o'\<rparr>"

definition markReplayEligible :: "oid \<Rightarrow> string \<Rightarrow> server \<Rightarrow> server" where
  "markReplayEligible op shareName s =
     (if shareName = ''ipc$'' then s
      else if op_isDirectory (opens s op) \<or> grantedAccess (opens s op) AND useful = 0 then s
      else let s1 = upd_open op (\<lambda>o'. o'\<lparr>isReplayEligible := True\<rparr>) s
           in s1\<lparr>replayableOpens := (replayableOpens s1)(replay_key (opens s1 op) \<mapsto> op)\<rparr>)"

definition clearReplayEligible :: "oid \<Rightarrow> server \<Rightarrow> server" where
  "clearReplayEligible op s =
     (if \<not> isReplayEligible (opens s op) then s
      else let s1 = upd_open op (\<lambda>o'. o'\<lparr>isReplayEligible := False\<rparr>) s;
               key = replay_key (opens s1 op)
           in if replayableOpens s1 key = Some op
              then s1\<lparr>replayableOpens := (replayableOpens s1)(key := None)\<rparr>
              else s1)"

definition findReplayableOpen :: "guid \<Rightarrow> guid \<Rightarrow> server \<Rightarrow> oid option" where
  "findReplayableOpen cg crg s =
     (case replayableOpens s \<lparr>rk_clientGuid = cg, rk_createGuid = crg\<rparr> of
        None \<Rightarrow> None
      | Some op \<Rightarrow>
          (if isReplayEligible (opens s op) \<and> createGuid (opens s op) = crg \<and>
              clientGuid (opens s op) = cg
           then Some op else None))"


subsection \<open>The index as a partial function\<close>

text \<open>
  What the two-level map amounts to: the open filed under a key and a durable file ID. The
  representation keeps its keys apart and its buckets non-empty, so it does not grow with every path
  ever opened.
\<close>

definition filed :: "server \<Rightarrow> fileKey \<Rightarrow> u64 \<Rightarrow> oid option" where
  "filed s key d = map_of (bucket s key) d"

definition buckets_ok :: "server \<Rightarrow> bool" where
  "buckets_ok s \<longleftrightarrow> distinct (map fst (opensByFile s)) \<and>
     (\<forall>key b. map_of (opensByFile s) key = Some b \<longrightarrow> b \<noteq> [] \<and> distinct (map fst b))"

text \<open>
  The invariant. Durable file IDs are drawn at random from 64 bits; that no two opens in the index
  share one is part of it.
\<close>

definition index_ok :: "server \<Rightarrow> bool" where
  "index_ok s \<longleftrightarrow> buckets_ok s \<and>
     (\<forall>key d op. filed s key d = Some op \<longrightarrow>
        fileKeyLocked (opens s op) = key \<and> durableFileID (opens s op) = d) \<and>
     (\<forall>key key' d a b. filed s key d = Some a \<longrightarrow> filed s key' d = Some b \<longrightarrow> a = b)"

definition indexed :: "server \<Rightarrow> oid \<Rightarrow> bool" where
  "indexed s op \<longleftrightarrow> filed s (fileKeyLocked (opens s op)) (durableFileID (opens s op)) = Some op"

lemma bucket_simps [simp]:
  "bucket (s\<lparr>opensByFile := AList.update k b t\<rparr>) key =
     (if key = k then b else bucket (s\<lparr>opensByFile := t\<rparr>) key)"
  "bucket (s\<lparr>opensByFile := AList.delete k t\<rparr>) key =
     (if key = k then [] else bucket (s\<lparr>opensByFile := t\<rparr>) key)"
  "bucket (s\<lparr>opensByFile := opensByFile s\<rparr>) key = bucket s key"
  by (simp_all add: bucket_def update_conv' delete_conv')

lemma filed_upd_open [simp]: "filed (upd_open op f s) = filed s"
  by (simp add: filed_def bucket_def fun_eq_iff)

lemma filed_upd_lease [simp]: "filed (upd_lease l g s) = filed s"
  by (simp add: filed_def bucket_def fun_eq_iff)

lemma filed_update:
  "filed (s\<lparr>opensByFile := AList.update k (AList.update d op (bucket s k)) (opensByFile s)\<rparr>) key d' =
     (if key = k \<and> d' = d then Some op else filed s key d')"
  by (simp add: filed_def update_conv')

lemma filed_indexOpen:
  "filed (indexOpen op s) key d =
     (if key = fileKeyLocked (opens s op) \<and> d = durableFileID (opens s op) then Some op
      else filed s key d)"
  by (simp add: indexOpen_def Let_def filed_update)

lemma opens_indexOpen [simp]: "opens (indexOpen op s) = opens s" "leases (indexOpen op s) = leases s"
  by (simp_all add: indexOpen_def Let_def)

lemma dropFromBucket_simps [simp]:
  "opens (dropFromBucket k d s) = opens s" "leases (dropFromBucket k d s) = leases s"
  by (simp_all add: dropFromBucket_def Let_def split: option.splits)

lemma filed_dropFromBucket:
  "filed (dropFromBucket k d s) key d' = (if key = k \<and> d' = d then None else filed s key d')"
proof (cases "map_of (opensByFile s) k")
  case None
  then show ?thesis by (simp add: dropFromBucket_def filed_def bucket_def)
next
  case (Some b)
  have nil: "map_of (if AList.delete d b = [] then [] else AList.delete d b) d' =
      (if d' = d then None else map_of b d')"
    by (simp add: delete_conv')
  show ?thesis
  proof (cases "AList.delete d b = []")
    case True
    with Some have *: "filed (dropFromBucket k d s) key d' = (if key = k then None else filed s key d')"
      by (simp add: dropFromBucket_def filed_def Let_def)
    have "filed s k d' = None" if "d' \<noteq> d"
      using nil True Some that by (simp add: filed_def bucket_def)
    with * show ?thesis by simp
  next
    case False
    with Some nil show ?thesis
      by (cases "d' = d") (simp_all add: dropFromBucket_def filed_def Let_def bucket_def update_conv')
  qed
qed

lemma buckets_ok_update:
  assumes "buckets_ok s" "b \<noteq> []" "distinct (map fst b)"
  shows "buckets_ok (s\<lparr>opensByFile := AList.update k b (opensByFile s)\<rparr>)"
  using assms by (auto simp: buckets_ok_def distinct_update update_conv')

lemma buckets_ok_delete:
  "buckets_ok s \<Longrightarrow> buckets_ok (s\<lparr>opensByFile := AList.delete k (opensByFile s)\<rparr>)"
  by (auto simp: buckets_ok_def distinct_delete delete_conv')

lemma buckets_ok_bucket: "buckets_ok s \<Longrightarrow> distinct (map fst (bucket s key))"
  by (auto simp: buckets_ok_def bucket_def dest: map_of_SomeD split: option.splits)

lemma buckets_ok_insert:
  "buckets_ok s \<Longrightarrow>
     buckets_ok (s\<lparr>opensByFile := AList.update k (AList.update d op (bucket s k)) (opensByFile s)\<rparr>)"
  by (rule buckets_ok_update)
     (auto simp: distinct_update buckets_ok_bucket update_nonempty)

lemma buckets_ok_drop: "buckets_ok s \<Longrightarrow> buckets_ok (dropFromBucket k d s)"
  using buckets_ok_bucket[of s k]
  by (auto simp: dropFromBucket_def Let_def bucket_def distinct_delete
      intro!: buckets_ok_delete buckets_ok_update split: option.splits)

lemma buckets_ok_upd_open [simp]: "buckets_ok (upd_open op f s) = buckets_ok s"
  by (simp add: buckets_ok_def)


text \<open>What \<^const>\<open>opensOn\<close> returns: exactly the indexed opens that carry the share and the path.\<close>

lemma index_ok_filed:
  assumes "index_ok s" "filed s key d = Some op"
  shows "indexed s op" "fileKeyLocked (opens s op) = key" "durableFileID (opens s op) = d"
  using assms by (auto simp: index_ok_def indexed_def)

lemma set_opensOn:
  assumes "index_ok s"
  shows "set (opensOn sh path ex s) =
    {op. indexed s op \<and> op_share (opens s op) = Some sh \<and> pathName (opens s op) = path \<and> Some op \<noteq> ex}"
proof -
  let ?k = "\<lparr>fk_share = Some sh, fk_path = path\<rparr>"
  have dist: "distinct (map fst (bucket s ?k))"
    using assms buckets_ok_bucket by (auto simp: index_ok_def)
  have "op \<in> snd ` set (bucket s ?k) \<longleftrightarrow> indexed s op \<and> fileKeyLocked (opens s op) = ?k" for op
  proof
    assume "op \<in> snd ` set (bucket s ?k)"
    then obtain d where "(d, op) \<in> set (bucket s ?k)" by auto
    with dist have "filed s ?k d = Some op" by (simp add: filed_def)
    with assms show "indexed s op \<and> fileKeyLocked (opens s op) = ?k" by (auto dest: index_ok_filed)
  next
    assume "indexed s op \<and> fileKeyLocked (opens s op) = ?k"
    then show "op \<in> snd ` set (bucket s ?k)"
      by (force simp: indexed_def filed_def dest: map_of_SomeD)
  qed
  then show ?thesis by (auto simp: opensOn_def fileKeyLocked_def)
qed

text \<open>
  What the clients of the index rely on, the sharing rules and the caching promises alike: while the
  invariant holds, a lookup returns exactly the opens that belong to the file.
\<close>

locale open_index =
  fixes on_file :: "sid \<Rightarrow> string \<Rightarrow> oid option \<Rightarrow> 's \<Rightarrow> oid list"
    and member :: "'s \<Rightarrow> oid \<Rightarrow> bool"
    and the_open :: "'s \<Rightarrow> oid \<Rightarrow> openRec"
    and ok :: "'s \<Rightarrow> bool"
  assumes on_file_exact: "ok s \<Longrightarrow> set (on_file sh path ex s) =
    {op. member s op \<and> op_share (the_open s op) = Some sh \<and> pathName (the_open s op) = path \<and> Some op \<noteq> ex}"
begin

lemma every_open_on_file:
  assumes "ok s"
  shows "(\<forall>x \<in> set (on_file sh path ex s). P x) \<longleftrightarrow>
    (\<forall>x. member s x \<and> op_share (the_open s x) = Some sh \<and> pathName (the_open s x) = path \<and>
         Some x \<noteq> ex \<longrightarrow> P x)"
  using on_file_exact[OF assms] by blast

lemma alone_on_file:
  assumes "ok s"
  shows "on_file sh path ex s = [] \<longleftrightarrow>
    (\<forall>x. member s x \<and> op_share (the_open s x) = Some sh \<and> pathName (the_open s x) = path \<longrightarrow> Some x = ex)"
  using on_file_exact[OF assms, of sh path ex] by (auto simp: set_eq_iff simp flip: set_empty)

end

interpretation idx: open_index opensOn indexed opens index_ok
  by unfold_locales (rule set_opensOn)

subsection \<open>Every operation keeps the index\<close>

lemma index_ok_indexOpen:
  assumes "index_ok s" "\<forall>key. filed s key (durableFileID (opens s op)) = None"
  shows "index_ok (indexOpen op s)"
proof -
  have "buckets_ok (indexOpen op s)"
    using assms(1) by (simp add: index_ok_def indexOpen_def Let_def buckets_ok_insert)
  with assms show ?thesis by (auto simp: index_ok_def filed_indexOpen)
qed

lemma index_ok_unindexOpen: "index_ok s \<Longrightarrow> index_ok (unindexOpen op s)"
  by (auto simp: index_ok_def unindexOpen_def filed_dropFromBucket buckets_ok_drop split: if_splits)

text \<open>An open that is not filed changes its name and nothing else.\<close>

definition renamed :: "string \<Rightarrow> openRec \<Rightarrow> openRec" where
  "renamed newPath o' = o'\<lparr>pathName := newPath, fileName := TrimPath newPath\<rparr>"

lemma opens_moveOpenLocked [simp]:
  "opens (moveOpenLocked op p s) = (opens s)(op := renamed p (opens s op))"
  by (simp add: moveOpenLocked_def renamed_def Let_def split: option.splits)

text \<open>The durable file ID of an open is its own: no other open is filed under it.\<close>

definition own_id :: "server \<Rightarrow> oid \<Rightarrow> bool" where
  "own_id s op \<longleftrightarrow> (\<forall>key y. filed s key (durableFileID (opens s op)) = Some y \<longrightarrow> y = op)"

lemma indexed_own_id: "index_ok s \<Longrightarrow> indexed s op \<Longrightarrow> own_id s op"
  unfolding index_ok_def indexed_def own_id_def by blast

lemma own_id_indexed_iff:
  assumes "own_id s op"
  shows "indexed s op \<longleftrightarrow>
    (\<exists>b. map_of (opensByFile s) (fileKeyLocked (opens s op)) = Some b \<and>
         map_of b (durableFileID (opens s op)) \<noteq> None)"
proof -
  let ?k = "fileKeyLocked (opens s op)" and ?d = "durableFileID (opens s op)"
  have "filed s ?k ?d \<noteq> None \<longleftrightarrow>
      (\<exists>b. map_of (opensByFile s) ?k = Some b \<and> map_of b ?d \<noteq> None)"
    by (cases "map_of (opensByFile s) ?k") (simp_all add: filed_def bucket_def)
  moreover have "filed s ?k ?d \<noteq> None \<longleftrightarrow> indexed s op"
    using assms by (auto simp: indexed_def own_id_def)
  ultimately show ?thesis by blast
qed

lemma moveOpenLocked_unfiled:
  assumes "own_id s op" "\<not> indexed s op"
  shows "moveOpenLocked op p s = upd_open op (renamed p) s"
  using assms own_id_indexed_iff[OF assms(1)]
  by (cases "map_of (opensByFile s) (fileKeyLocked (opens s op))")
     (simp_all add: moveOpenLocked_def Let_def renamed_def[abs_def])

lemma moveOpenLocked_filed:
  assumes "own_id s op" "indexed s op"
  shows "moveOpenLocked op p s =
    (let s2 = dropFromBucket (fileKeyLocked (opens s op)) (durableFileID (opens s op))
                (upd_open op (renamed p) s);
         newKey = fileKeyLocked (renamed p (opens s op))
     in s2\<lparr>opensByFile := AList.update newKey
          (AList.update (durableFileID (opens s op)) op (bucket s2 newKey)) (opensByFile s2)\<rparr>)"
proof -
  obtain b y where "map_of (opensByFile s) (fileKeyLocked (opens s op)) = Some b"
    "map_of b (durableFileID (opens s op)) = Some y"
    using assms own_id_indexed_iff[OF assms(1)] by blast
  then show ?thesis by (simp add: moveOpenLocked_def Let_def renamed_def[abs_def])
qed

lemma filed_moveOpenLocked:
  assumes "index_ok s" "own_id s op"
  shows "filed (moveOpenLocked op p s) key d =
    (if \<not> indexed s op \<or> d \<noteq> durableFileID (opens s op) then filed s key d
     else if key = fileKeyLocked (renamed p (opens s op)) then Some op else None)"
proof (cases "indexed s op")
  case True
  have None: "filed s key (durableFileID (opens s op)) = None" if "key \<noteq> fileKeyLocked (opens s op)"
  proof (rule ccontr)
    assume "filed s key (durableFileID (opens s op)) \<noteq> None"
    then obtain y where "filed s key (durableFileID (opens s op)) = Some y" by blast
    with assms(2) have "filed s key (durableFileID (opens s op)) = Some op"
      unfolding own_id_def by blast
    from index_ok_filed(2)[OF assms(1) this] that show False by simp
  qed
  with True assms(2) show ?thesis
    by (simp add: moveOpenLocked_filed Let_def filed_update filed_dropFromBucket)
qed (simp add: moveOpenLocked_unfiled assms)

lemma buckets_ok_moveOpenLocked:
  assumes "buckets_ok s" "own_id s op"
  shows "buckets_ok (moveOpenLocked op p s)"
  using assms
  by (cases "indexed s op")
     (simp_all add: moveOpenLocked_filed moveOpenLocked_unfiled Let_def buckets_ok_insert buckets_ok_drop)

lemma renamed_simps [simp]:
  "durableFileID (renamed p o') = durableFileID o'"
  "pathName (renamed p o') = p"
  "op_share (renamed p o') = op_share o'"
  by (simp_all add: renamed_def)

lemma index_ok_moveOpenLocked:
  assumes "index_ok s" "own_id s op"
  shows "index_ok (moveOpenLocked op p s)"
proof -
  note filed_eq = filed_moveOpenLocked[OF assms]
  have "buckets_ok (moveOpenLocked op p s)"
    using assms by (simp add: index_ok_def buckets_ok_moveOpenLocked)
  moreover have "fileKeyLocked (opens (moveOpenLocked op p s) x) = key \<and>
      durableFileID (opens (moveOpenLocked op p s) x) = d"
    if "filed (moveOpenLocked op p s) key d = Some x" for key d x
  proof (cases "\<not> indexed s op \<or> d \<noteq> durableFileID (opens s op)")
    case True
    with that have *: "filed s key d = Some x" by (auto simp: filed_eq)
    note x = index_ok_filed[OF assms(1) *]
    with True have "x \<noteq> op" by auto
    with x show ?thesis by simp
  next
    case False
    with that show ?thesis by (auto simp: filed_eq split: if_splits)
  qed
  moreover have "a = b" if "filed (moveOpenLocked op p s) key d = Some a"
      "filed (moveOpenLocked op p s) key' d = Some b" for key key' d a b
  proof (cases "\<not> indexed s op \<or> d \<noteq> durableFileID (opens s op)")
    case True
    with that have "filed s key d = Some a" "filed s key' d = Some b" by (auto simp: filed_eq)
    with assms(1) show ?thesis unfolding index_ok_def by blast
  next
    case False
    with that show ?thesis by (auto simp: filed_eq split: if_splits)
  qed
  ultimately show ?thesis unfolding index_ok_def by blast
qed

lemma indexed_moveOpenLocked:
  assumes "index_ok s" "own_id s op"
  shows "indexed (moveOpenLocked op p s) x \<longleftrightarrow> indexed s x"
proof (cases "x = op")
  case True
  have "indexed s op" if "filed s key (durableFileID (opens s op)) = Some op" for key
    using index_ok_filed[OF assms(1) that] by simp
  with True assms show ?thesis by (auto simp: indexed_def[of "moveOpenLocked op p s"] filed_moveOpenLocked)
next
  case False
  have "\<not> indexed s x" if "indexed s op" "durableFileID (opens s x) = durableFileID (opens s op)"
    using that False assms(2) unfolding indexed_def own_id_def by metis
  with False assms show ?thesis
    by (auto simp: indexed_def[of "moveOpenLocked op p s"] indexed_def[of s x] filed_moveOpenLocked
        split: if_splits)
qed

text \<open>
  A batch of moves, each to the path a function of the open gives it, as a rename of a directory or of
  a file makes it.
\<close>

lemma renamed_idem [simp]: "renamed p (renamed q o') = renamed p o'"
  by (simp add: renamed_def)

definition move_all :: "(oid \<times> string) list \<Rightarrow> server \<Rightarrow> server" where
  "move_all ms s = fold (\<lambda>(op, path) t. moveOpenLocked op path t) ms s"

lemma move_all:
  assumes "index_ok s" "\<forall>(x, p) \<in> set ms. indexed s x \<and> p = g x"
  shows "index_ok (move_all ms s) \<and>
    (\<forall>x. indexed (move_all ms s) x = indexed s x) \<and>
    (\<forall>x. opens (move_all ms s) x =
      (if x \<in> fst ` set ms then renamed (g x) (opens s x) else opens s x))"
  using assms
proof (induction ms arbitrary: s)
  case (Cons a ms)
  obtain op p where a: "a = (op, p)" by force
  let ?t = "moveOpenLocked op p s"
  from Cons.prems(2) a have idx: "indexed s op" and p: "p = g op" by auto
  note own = indexed_own_id[OF Cons.prems(1) idx]
  have ok: "index_ok ?t" by (rule index_ok_moveOpenLocked[OF Cons.prems(1) own])
  have ind: "indexed ?t y \<longleftrightarrow> indexed s y" for y
    by (rule indexed_moveOpenLocked[OF Cons.prems(1) own])
  have rest: "\<forall>(x, p) \<in> set ms. indexed ?t x \<and> p = g x" using Cons.prems(2) ind by auto
  have "move_all (a # ms) s = move_all ms ?t" by (simp add: move_all_def a)
  with Cons.IH[OF ok rest] show ?case using ind by (simp add: a p image_iff)
qed (simp add: move_all_def)

lemma mem_opens_under:
  "(op, p) \<in> set (opens_under sh old new s) \<longleftrightarrow>
     (\<exists>key b d. (key, b) \<in> set (opensByFile s) \<and> (d, op) \<in> set b \<and> fk_share key = Some sh \<and>
        has_prefix (fk_path key) (old @ [slash]) \<and>
        p = new @ [slash] @ drop (length (old @ [slash])) (fk_path key))"
  unfolding opens_under_def by (auto split: if_splits) force

lemma mem_index:
  assumes "index_ok s"
  shows "(\<exists>b d. (key, b) \<in> set (opensByFile s) \<and> (d, op) \<in> set b) \<longleftrightarrow>
    indexed s op \<and> fileKeyLocked (opens s op) = key"
proof
  assume "\<exists>b d. (key, b) \<in> set (opensByFile s) \<and> (d, op) \<in> set b"
  then obtain b d where b: "(key, b) \<in> set (opensByFile s)" "(d, op) \<in> set b" by blast
  have "buckets_ok s" using assms by (simp add: index_ok_def)
  with b(1) have m: "map_of (opensByFile s) key = Some b" by (simp add: buckets_ok_def)
  with \<open>buckets_ok s\<close> have "distinct (map fst b)" by (auto simp: buckets_ok_def)
  with m b(2) have "filed s key d = Some op" by (simp add: filed_def bucket_def)
  with assms show "indexed s op \<and> fileKeyLocked (opens s op) = key" by (auto dest: index_ok_filed)
next
  assume *: "indexed s op \<and> fileKeyLocked (opens s op) = key"
  then have "map_of (bucket s key) (durableFileID (opens s op)) = Some op"
    by (auto simp: indexed_def filed_def)
  moreover then obtain b where "map_of (opensByFile s) key = Some b" "bucket s key = b"
    by (auto simp: bucket_def split: option.splits)
  ultimately show "\<exists>b d. (key, b) \<in> set (opensByFile s) \<and> (d, op) \<in> set b"
    by (metis map_of_SomeD)
qed

lemma set_opens_under:
  assumes "index_ok s"
  shows "(op, p) \<in> set (opens_under sh old new s) \<longleftrightarrow>
    indexed s op \<and> op_share (opens s op) = Some sh \<and>
    has_prefix (pathName (opens s op)) (old @ [slash]) \<and>
    p = new @ [slash] @ drop (length (old @ [slash])) (pathName (opens s op))"
proof -
  have "(op, p) \<in> set (opens_under sh old new s) \<longleftrightarrow>
      (\<exists>key. (\<exists>b d. (key, b) \<in> set (opensByFile s) \<and> (d, op) \<in> set b) \<and> fk_share key = Some sh \<and>
        has_prefix (fk_path key) (old @ [slash]) \<and>
        p = new @ [slash] @ drop (length (old @ [slash])) (fk_path key))"
    unfolding mem_opens_under by blast
  then show ?thesis unfolding mem_index[OF assms] by (auto simp: fileKeyLocked_def)
qed

lemma set_fst_opens_under:
  assumes "index_ok s"
  shows "fst ` set (opens_under sh old new s) =
    {op. indexed s op \<and> op_share (opens s op) = Some sh \<and>
         has_prefix (pathName (opens s op)) (old @ [slash])}"
proof -
  have "x \<in> fst ` set (opens_under sh old new s) \<longleftrightarrow> (\<exists>p. (x, p) \<in> set (opens_under sh old new s))" for x
    by force
  then show ?thesis unfolding set_opens_under[OF assms] by blast
qed

lemma moveOpensUnder_facts:
  assumes "index_ok s" "moveOpensUnder sh old new s = (s', moved)"
  shows "s' = move_all (opens_under sh old new s) s" "moved = map fst (opens_under sh old new s)"
    and "\<forall>(x, p) \<in> set (opens_under sh old new s). indexed s x \<and>
      p = new @ [slash] @ drop (length (old @ [slash])) (pathName (opens s x))"
  using assms(2) set_opens_under[OF assms(1)]
  by (auto simp: moveOpensUnder_def Let_def move_all_def)

lemma moveOpensUnder_index_ok:
  assumes "index_ok s" "moveOpensUnder sh old new s = (s', moved)"
  shows "index_ok s'"
  using move_all[OF assms(1) moveOpensUnder_facts(3)[OF assms]] moveOpensUnder_facts(1)[OF assms]
  by blast

text \<open>
  The rename of a directory moves exactly the opens beneath it: those
  indexed on its share whose path starts with the old path and a slash. Each of them carries the new
  path in place of the old afterwards, no other open changes, the same opens are indexed as before,
  and the index files every open under the name it carries.
\<close>

theorem moveOpensUnder_exact:
  assumes "index_ok s" "moveOpensUnder sh old new s = (s', moved)"
  shows "index_ok s' \<and>
    set moved = {op. indexed s op \<and> op_share (opens s op) = Some sh \<and>
                     has_prefix (pathName (opens s op)) (old @ [slash])} \<and>
    (\<forall>x. indexed s' x = indexed s x) \<and>
    (\<forall>x. opens s' x =
       (if x \<in> set moved
        then renamed (new @ [slash] @ drop (length old + 1) (pathName (opens s x))) (opens s x)
        else opens s x))"
  using move_all[OF assms(1) moveOpensUnder_facts(3)[OF assms]]
    set_fst_opens_under[OF assms(1), of sh old new]
  by (simp add: moveOpensUnder_facts(1,2)[OF assms])

text \<open>A small index for the witnesses: a file beneath a directory and another beside it.\<close>

definition blank_open :: openRec where
  "blank_open = \<lparr>durableFileID = 0, op_share = None, grantedAccess = 0, shareMode = 0,
     pathName = [], fileName = [], createGuid = 0, clientGuid = 0, isReplayEligible = False,
     op_isDirectory = False, oplockLevel = 0, oplockState = OplockNone, oplockBreakTo = 0,
     oplockBreak = None, oplockBreakSeq = 0, op_lease = None\<rparr>"

definition blank_lease :: leaseRec where
  "blank_lease = \<lparr>leaseKey = 0, ls_clientGuid = 0, ls_fileName = [], ls_state = 0,
     breakToState = 0, breaking = False, epoch = 0, fileDeleteOnClose = False, ls_opens = [],
     breakDone = None, breakSeq = 0\<rparr>"

definition empty_server :: server where
  "empty_server = \<lparr>opens = (\<lambda>_. blank_open), leases = (\<lambda>_. blank_lease), opensByFile = [],
     replayableOpens = (\<lambda>_. None), leaseTables = (\<lambda>_ _. None), nextLease = 0, closed = {},
     nextChannel = 0, panicked = False\<rparr>"

definition sample_open :: "u64 \<Rightarrow> string \<Rightarrow> openRec" where
  "sample_open d p = blank_open\<lparr>durableFileID := d, op_share := Some 7, pathName := p,
     fileName := TrimPath p, grantedAccess := FILE_READ_DATA, createGuid := 5, clientGuid := 6\<rparr>"

definition sample_index :: server where
  "sample_index = indexOpen 2 (indexOpen 1 (empty_server\<lparr>opens :=
     (\<lambda>_. blank_open)(1 := sample_open 11 ''a/x'', 2 := sample_open 12 ''ab'')\<rparr>))"

lemma index_ok_empty: "opensByFile s = [] \<Longrightarrow> index_ok s"
  by (simp add: index_ok_def buckets_ok_def filed_def bucket_def)

lemma filed_empty [simp]: "filed (empty_server\<lparr>opens := g\<rparr>) k d = None"
  by (simp add: filed_def bucket_def empty_server_def)

lemma index_ok_sample: "index_ok sample_index"
proof -
  let ?e = "empty_server\<lparr>opens :=
     (\<lambda>_. blank_open)(1 := sample_open 11 ''a/x'', 2 := sample_open 12 ''ab'')\<rparr>"
  have e: "opensByFile ?e = []" by (simp add: empty_server_def)
  then have "index_ok (indexOpen 1 ?e)" using index_ok_empty[OF e] by (simp add: index_ok_indexOpen)
  then show ?thesis unfolding sample_index_def
    by (rule index_ok_indexOpen) (simp add: filed_indexOpen sample_open_def)
qed

theorem moveOpensUnder_exact_witness:
  "index_ok (fst (moveOpensUnder 7 ''a'' ''c'' sample_index)) \<and>
   opens (fst (moveOpensUnder 7 ''a'' ''c'' sample_index)) 1 = sample_open 11 ''c/x'' \<and>
   opens (fst (moveOpensUnder 7 ''a'' ''c'' sample_index)) 2 = sample_open 12 ''ab''"
proof -
  obtain t moved where m: "moveOpensUnder 7 ''a'' ''c'' sample_index = (t, moved)" by force
  note P = moveOpensUnder_exact[OF index_ok_sample m]
  have i1: "indexed sample_index 1" and i2: "opens sample_index 1 = sample_open 11 ''a/x''"
    "opens sample_index 2 = sample_open 12 ''ab''"
    by (simp_all add: sample_index_def indexed_def filed_indexOpen sample_open_def fileKeyLocked_def)
  from P i1 i2 have "1 \<in> set moved" "2 \<notin> set moved"
    by (simp_all add: sample_open_def has_prefix_def)
  with P i2 show ?thesis
    by (simp add: m sample_open_def renamed_def has_prefix_def)
qed

subsection \<open>The life of the index\<close>

text \<open>
  The operations in any order. An open whose fields are being set is in nobody's index yet; one that
  is indexed changes its share, its path and its durable file ID through a move only. An open that
  joins the index brings a durable file ID nobody else has.
\<close>

inductive index_step :: "server \<Rightarrow> server \<Rightarrow> bool" where
  joins: "\<forall>key. filed s key (durableFileID (opens s op)) = None \<Longrightarrow> index_step s (indexOpen op s)"
| leaves: "index_step s (unindexOpen op s)"
| moves: "own_id s op \<Longrightarrow> index_step s (moveOpen op path s)"
| moves_under: "index_step s (fst (moveOpensUnder sh path path' s))"
| moves_on_file: "index_step s (fst (moveOpensOnFile sh path path' s))"
| marked: "index_step s (markReplayEligible op name s)"
| cleared: "index_step s (clearReplayEligible op s)"
| set_up: "\<lbrakk>\<forall>key d. filed s key d \<noteq> Some op; \<not> isReplayEligible (opens s op); \<not> isReplayEligible o'\<rbrakk> \<Longrightarrow>
    index_step s (upd_open op (\<lambda>_. o') s)"

inductive index_reachable :: "server \<Rightarrow> bool" where
  start: "index_reachable empty_server"
| step: "index_reachable s \<Longrightarrow> index_step s t \<Longrightarrow> index_reachable t"

text \<open>The index of replayable creates: every entry stands for an open that is still eligible.\<close>

definition replay_ok :: "server \<Rightarrow> bool" where
  "replay_ok s \<longleftrightarrow> (\<forall>key op. replayableOpens s key = Some op \<longrightarrow>
     isReplayEligible (opens s op) \<and> replay_key (opens s op) = key)"

lemma replayableOpens_simps [simp]:
  "replayableOpens (indexOpen op s) = replayableOpens s"
  "replayableOpens (dropFromBucket k d s) = replayableOpens s"
  "replayableOpens (moveOpenLocked op p s) = replayableOpens s"
  by (simp_all add: indexOpen_def dropFromBucket_def moveOpenLocked_def Let_def split: option.splits)

lemma index_same_filing:
  assumes "opensByFile t = opensByFile s"
    and "\<And>x. fileKeyLocked (opens t x) = fileKeyLocked (opens s x)"
    and "\<And>x. durableFileID (opens t x) = durableFileID (opens s x)"
  shows "index_ok t = index_ok s"
proof -
  have "filed t = filed s" using assms(1) by (simp add: filed_def bucket_def fun_eq_iff)
  then show ?thesis using assms by (simp add: index_ok_def buckets_ok_def)
qed

lemma index_ok_replay [simp]:
  "index_ok (markReplayEligible op name s) = index_ok s"
  "index_ok (clearReplayEligible op s) = index_ok s"
  by (intro index_same_filing;
      simp add: markReplayEligible_def clearReplayEligible_def Let_def fileKeyLocked_def)+

lemma index_ok_set_up:
  assumes "index_ok s" "\<forall>key d. filed s key d \<noteq> Some op"
  shows "index_ok (upd_open op f s)"
  using assms unfolding index_ok_def by (auto simp: fun_upd_apply)

lemma index_ok_moveOpensOnFile:
  assumes "index_ok s"
  shows "index_ok (fst (moveOpensOnFile sh p q s))"
proof -
  let ?ms = "map (\<lambda>op. (op, q)) (opensOn sh p None s)"
  have "\<forall>(x, r) \<in> set ?ms. indexed s x \<and> r = q" using set_opensOn[OF assms] by auto
  from move_all[OF assms this]
  have "index_ok (move_all ?ms s)" by blast
  moreover have "move_all ?ms s = fst (moveOpensOnFile sh p q s)"
    by (simp add: moveOpensOnFile_def move_all_def Let_def moveOpen_def fold_map comp_def)
  ultimately show ?thesis by simp
qed

lemma index_ok_step:
  assumes "index_step s t" "index_ok s"
  shows "index_ok t"
  using assms
proof cases
  case (moves_under sh path path')
  obtain t' moved where "moveOpensUnder sh path path' s = (t', moved)" by force
  with moves_under moveOpensUnder_index_ok[OF assms(2)] show ?thesis by (metis fst_conv)
qed (simp_all add: assms(2) index_ok_indexOpen index_ok_unindexOpen moveOpen_def index_ok_moveOpenLocked
      index_ok_moveOpensOnFile index_ok_set_up)

lemma replay_ok_same:
  assumes "replayableOpens t = replayableOpens s"
    and "\<And>x. isReplayEligible (opens t x) = isReplayEligible (opens s x)"
    and "\<And>x. replay_key (opens t x) = replay_key (opens s x)"
  shows "replay_ok t = replay_ok s"
  using assms by (simp add: replay_ok_def)

lemma replay_ok_moveOpenLocked [simp]: "replay_ok (moveOpenLocked op p s) = replay_ok s"
  by (rule replay_ok_same) (simp_all add: renamed_def replay_key_def)

lemma replay_ok_move_all [simp]: "replay_ok (move_all ms s) = replay_ok s"
proof (induction ms arbitrary: s)
  case (Cons a ms)
  obtain op p where "a = (op, p)" by force
  then have "move_all (a # ms) s = move_all ms (moveOpenLocked op p s)" by (simp add: move_all_def)
  then show ?case using Cons by (simp only: replay_ok_moveOpenLocked)
qed (simp add: move_all_def)

lemma replay_ok_mark:
  assumes "replay_ok s"
  shows "replay_ok (markReplayEligible op name s)"
  using assms
  by (auto simp: replay_ok_def markReplayEligible_def Let_def replay_key_def)

lemma replay_ok_clear:
  assumes "replay_ok s"
  shows "replay_ok (clearReplayEligible op s)"
proof -
  let ?t = "clearReplayEligible op s"
  have key: "replay_key (opens ?t x) = replay_key (opens s x)" for x
    by (simp add: clearReplayEligible_def Let_def replay_key_def)
  have elig: "isReplayEligible (opens ?t x) = (x \<noteq> op \<and> isReplayEligible (opens s x))" for x
    by (simp add: clearReplayEligible_def Let_def)
  have rep: "replayableOpens ?t k = (if replayableOpens s k = Some op \<and> k = replay_key (opens s op) \<and>
      isReplayEligible (opens s op) then None else replayableOpens s k)" for k
    by (cases "k = replay_key (opens s op)") (simp_all add: clearReplayEligible_def Let_def replay_key_def)
  show ?thesis
    unfolding replay_ok_def key elig rep using assms unfolding replay_ok_def by (metis option.distinct(1))
qed

lemma replay_ok_step:
  assumes "index_step s t" "replay_ok s"
  shows "replay_ok t"
  using assms
proof cases
  case (moves_on_file sh path path')
  have "fst (moveOpensOnFile sh path path' s) = move_all (map (\<lambda>op. (op, path')) (opensOn sh path None s)) s"
    by (simp add: moveOpensOnFile_def move_all_def Let_def moveOpen_def fold_map comp_def)
  with moves_on_file assms(2) show ?thesis by simp
next
  case (set_up op o')
  with assms(2) show ?thesis by (auto simp: replay_ok_def)
qed (simp_all add: assms(2) replay_ok_mark replay_ok_clear moveOpen_def unindexOpen_def
      moveOpensUnder_def Let_def flip: move_all_def,
     simp_all add: replay_ok_def[of "indexOpen _ _"] replay_ok_def[of "dropFromBucket _ _ _"]
       assms(2)[unfolded replay_ok_def])

lemma index_reachable_ok:
  assumes "index_reachable s"
  shows "index_ok s \<and> replay_ok s"
  using assms
proof induction
  case start
  have "opensByFile empty_server = []" "replayableOpens empty_server = (\<lambda>_. None)"
    by (simp_all add: empty_server_def)
  then show ?case by (simp add: index_ok_empty replay_ok_def)
qed (blast dest: index_ok_step replay_ok_step)


lemma sample_index_reachable: "index_reachable sample_index"
proof -
  let ?o1 = "sample_open 11 ''a/x''" and ?o2 = "sample_open 12 ''ab''"
  let ?s1 = "upd_open 1 (\<lambda>_. ?o1) empty_server"
  let ?s2 = "upd_open 2 (\<lambda>_. ?o2) ?s1"
  have e: "opens empty_server = (\<lambda>_. blank_open)" by (simp add: empty_server_def)
  have f: "filed empty_server k d = None" for k d using filed_empty[of "opens empty_server"] by simp
  have "index_reachable ?s1"
    by (rule index_reachable.step[OF index_reachable.start], rule index_step.set_up)
       (simp_all add: f e sample_open_def blank_open_def)
  then have "index_reachable ?s2"
    by (rule index_reachable.step, intro index_step.set_up)
       (simp_all add: f e sample_open_def blank_open_def)
  then have "index_reachable (indexOpen 1 ?s2)"
    by (rule index_reachable.step, intro index_step.joins) (simp add: f)
  then have "index_reachable (indexOpen 2 (indexOpen 1 ?s2))"
    by (rule index_reachable.step, intro index_step.joins) (simp add: f filed_indexOpen sample_open_def)
  moreover have "?s2 = empty_server\<lparr>opens := (\<lambda>_. blank_open)(1 := ?o1, 2 := ?o2)\<rparr>"
    by (simp add: upd_open_def e)
  ultimately show ?thesis by (simp add: sample_index_def)
qed


text \<open>
  A create may be replayed exactly until its handle is used. In a
  reachable state, once the open of a file that was opened for something has been marked, a create of
  the same client with the same create GUID finds it; once the handle has been used, no client and no
  create GUID finds it any more; and what is found always belongs to the client that asks.
\<close>

theorem replay_found_until_used:
  assumes "index_reachable s" "name \<noteq> ''ipc$''" "\<not> op_isDirectory (opens s op)"
    "grantedAccess (opens s op) AND useful \<noteq> 0"
  shows "findReplayableOpen (clientGuid (opens s op)) (createGuid (opens s op))
           (markReplayEligible op name s) = Some op \<and>
    findReplayableOpen cg crg (clearReplayEligible op s) \<noteq> Some op \<and>
    (findReplayableOpen cg crg s = Some x \<longrightarrow> clientGuid (opens s x) = cg \<and> createGuid (opens s x) = crg)"
proof -
  have "findReplayableOpen (clientGuid (opens s op)) (createGuid (opens s op))
           (markReplayEligible op name s) = Some op"
    using assms by (simp add: findReplayableOpen_def markReplayEligible_def Let_def replay_key_def)
  moreover have "\<not> isReplayEligible (opens (clearReplayEligible op s) op)"
    by (simp add: clearReplayEligible_def Let_def)
  ultimately show ?thesis
    by (auto simp: findReplayableOpen_def split: option.splits if_splits)
qed

theorem replay_found_until_used_witness:
  "findReplayableOpen 6 5 (markReplayEligible 1 ''disk'' sample_index) = Some 1"
proof -
  have o1: "opens sample_index 1 = sample_open 11 ''a/x''" by (simp add: sample_index_def)
  have "grantedAccess (opens sample_index 1) AND useful \<noteq> 0"
    unfolding o1 by (simp add: sample_open_def useful_def access_defs)
  moreover have "\<not> op_isDirectory (opens sample_index 1)"
    "clientGuid (opens sample_index 1) = 6" "createGuid (opens sample_index 1) = 5"
    unfolding o1 by (simp_all add: sample_open_def blank_open_def)
  ultimately show ?thesis
    using replay_found_until_used[OF sample_index_reachable, of "''disk''" 1] by simp
qed

end
