(* ===== verification/Access_Rights.thy ===== *)
theory Access_Rights
  imports Open_Index
begin

section \<open>Paths and access rights\<close>

text \<open>
  What decides whether a create may have the file at all, and with which rights: \<^verbatim>\<open>validPath\<close>
  (\<^verbatim>\<open>src/conn.go\<close>) and \<^verbatim>\<open>confine\<close> (\<^verbatim>\<open>src/tree.go\<close>), which keep a path inside the share and an anonymous
  session inside the public folder, \<^verbatim>\<open>FlagsFromAccessRights\<close> (\<^verbatim>\<open>src/stores/policy.go\<close>), and the access
  checks of \<^verbatim>\<open>src/open.go\<close>. The object store is third-party code behind an interface; what it says of a
  path, and whether it says anything at all, is an argument.
\<close>

subsection \<open>Access masks\<close>

definition FILE_READ_EA :: u32 where "FILE_READ_EA = 0x00000008"
definition FILE_WRITE_EA :: u32 where "FILE_WRITE_EA = 0x00000010"
definition FILE_DELETE_CHILD :: u32 where "FILE_DELETE_CHILD = 0x00000040"
definition FILE_READ_ATTRIBUTES :: u32 where "FILE_READ_ATTRIBUTES = 0x00000080"
definition FILE_WRITE_ATTRIBUTES :: u32 where "FILE_WRITE_ATTRIBUTES = 0x00000100"
definition READ_CONTROL :: u32 where "READ_CONTROL = 0x00020000"
definition WRITE_DAC :: u32 where "WRITE_DAC = 0x00040000"
definition WRITE_OWNER :: u32 where "WRITE_OWNER = 0x00080000"
definition SYNCHRONIZE :: u32 where "SYNCHRONIZE = 0x00100000"
definition MAXIMUM_ALLOWED :: u32 where "MAXIMUM_ALLOWED = 0x02000000"
definition GENERIC_ALL :: u32 where "GENERIC_ALL = 0x10000000"
definition GENERIC_EXECUTE :: u32 where "GENERIC_EXECUTE = 0x20000000"
definition GENERIC_WRITE :: u32 where "GENERIC_WRITE = 0x40000000"
definition GENERIC_READ :: u32 where "GENERIC_READ = 0x80000000"

lemmas right_defs = access_defs
  FILE_READ_EA_def FILE_WRITE_EA_def FILE_DELETE_CHILD_def FILE_READ_ATTRIBUTES_def
  FILE_WRITE_ATTRIBUTES_def READ_CONTROL_def WRITE_DAC_def WRITE_OWNER_def SYNCHRONIZE_def
  MAXIMUM_ALLOWED_def GENERIC_ALL_def GENERIC_EXECUTE_def GENERIC_WRITE_def GENERIC_READ_def

record AccessRights =
  ShareName :: string
  AccountID :: int
  ReadAccess :: bool
  WriteAccess :: bool
  DeleteAccess :: bool
  ExecuteAccess :: bool

definition FlagsFromAccessRights :: "AccessRights \<Rightarrow> u32" where
  "FlagsFromAccessRights ar =
     (if ReadAccess ar then 0x80120089 else 0) OR
     (if WriteAccess ar then 0x400c0116 else 0) OR
     (if DeleteAccess ar then 0x00010040 else 0) OR
     (if ExecuteAccess ar then 0x20000020 else 0) OR
     (if ReadAccess ar \<and> WriteAccess ar \<and> DeleteAccess ar \<and> ExecuteAccess ar then 0x12000000 else 0)"

definition expandGeneric :: "u32 \<Rightarrow> u32" where
  "expandGeneric access =
     (let a1 = (if access AND GENERIC_READ \<noteq> 0
                then access OR (FILE_READ_DATA OR FILE_READ_EA OR FILE_READ_ATTRIBUTES OR READ_CONTROL OR
                                SYNCHRONIZE)
                else access);
          a2 = (if a1 AND GENERIC_WRITE \<noteq> 0
                then a1 OR (FILE_WRITE_DATA OR FILE_APPEND_DATA OR FILE_WRITE_EA OR
                            FILE_WRITE_ATTRIBUTES OR READ_CONTROL OR SYNCHRONIZE)
                else a1)
      in if a2 AND GENERIC_EXECUTE \<noteq> 0
         then a2 OR (FILE_EXECUTE OR FILE_READ_ATTRIBUTES OR READ_CONTROL OR SYNCHRONIZE)
         else a2)"

definition grantedFor :: "u32 \<Rightarrow> u32 \<Rightarrow> u32" where
  "grantedFor desired maximal =
     (if desired AND (MAXIMUM_ALLOWED OR GENERIC_ALL) \<noteq> 0 then maximal
      else expandGeneric desired AND maximal)"

definition notWeighed :: u32 where
  "notWeighed = SYNCHRONIZE OR READ_CONTROL"

definition generic :: u32 where
  "generic = GENERIC_READ OR GENERIC_WRITE OR GENERIC_EXECUTE"

definition satisfies :: "u32 \<Rightarrow> u32 \<Rightarrow> bool" where
  "satisfies held desired =
     (if desired AND (MAXIMUM_ALLOWED OR GENERIC_ALL) \<noteq> 0 then held \<noteq> 0
      else expandGeneric desired AND NOT generic AND NOT (expandGeneric held OR notWeighed) = 0)"

subsection \<open>The rights of a session on a share and at a path\<close>

text \<open>
  The session's side of a tree connect: the user, whether the session is anonymous, and the tables of
  the share that name the user.
\<close>

record treeConnect =
  maximalAccess :: u32
  isAnonymous :: bool
  workgroup :: string
  userName :: string
  connectSecurity :: "string \<Rightarrow> bool"
  fileSecurity :: "string \<Rightarrow> u32 option"
  publicDir :: string

definition mayConnect :: "treeConnect \<Rightarrow> bool" where
  "mayConnect tc = connectSecurity tc (workgroup tc @ [slash] @ userName tc)"

definition fileAccess :: "treeConnect \<Rightarrow> u32 \<times> bool" where
  "fileAccess tc =
     (case fileSecurity tc (workgroup tc @ [slash] @ userName tc) of
        None \<Rightarrow> (0, False) | Some a \<Rightarrow> (a, True))"

definition shareRights :: "treeConnect \<Rightarrow> u32 \<times> bool" where
  "shareRights tc =
     (if isAnonymous tc then (maximalAccess tc, maximalAccess tc \<noteq> 0)
      else if \<not> mayConnect tc then (0, False)
      else fileAccess tc)"

text \<open>What the store may answer about a path: the rights there, that it has nothing, or a failure.\<close>

record pathAccess =
  pa_Write :: bool
  pa_Delete :: bool

datatype store_error = ErrNotFound | ErrOther

text \<open>
  \<open>checker\<close> is \<open>None\<close> where the backend does not implement \<^verbatim>\<open>AccessChecker\<close>; \<open>known\<close> is whether the share
  holds the state of a file that was created and never stored.
\<close>

definition narrowToPath ::
  "u32 \<Rightarrow> (string \<Rightarrow> store_error + pathAccess) option \<Rightarrow> (string \<Rightarrow> bool) \<Rightarrow> string \<Rightarrow> store_error + u32" where
  "narrowToPath fs checker known path =
     (case checker of
        None \<Rightarrow> Inr fs
      | Some PathAccess \<Rightarrow>
          (case PathAccess path of
             Inl err \<Rightarrow> (if err = ErrNotFound \<and> known path then Inr fs else Inl err)
           | Inr pa \<Rightarrow>
               (let fs1 = (if \<not> pa_Write pa
                           then fs AND NOT (FILE_WRITE_DATA OR FILE_APPEND_DATA OR FILE_WRITE_EA OR
                                  FILE_WRITE_ATTRIBUTES OR WRITE_DAC OR WRITE_OWNER OR GENERIC_WRITE OR
                                  GENERIC_ALL OR MAXIMUM_ALLOWED)
                           else fs);
                    fs2 = (if \<not> pa_Delete pa
                           then fs1 AND NOT (DELETE_ACCESS OR FILE_DELETE_CHILD OR GENERIC_ALL OR
                                  MAXIMUM_ALLOWED)
                           else fs1)
                in Inr fs2)))"

subsection \<open>The create\<close>

record createRequest =
  DesiredAccess :: u32
  CreateDisposition :: u32
  CreateOptions :: u32

definition FILE_SUPERSEDE :: u32 where "FILE_SUPERSEDE = 0"
definition FILE_OPEN :: u32 where "FILE_OPEN = 1"
definition FILE_CREATE :: u32 where "FILE_CREATE = 2"
definition FILE_OPEN_IF :: u32 where "FILE_OPEN_IF = 3"
definition FILE_OVERWRITE :: u32 where "FILE_OVERWRITE = 4"
definition FILE_OVERWRITE_IF :: u32 where "FILE_OVERWRITE_IF = 5"
definition FILE_WRITE_THROUGH :: u32 where "FILE_WRITE_THROUGH = 0x00000002"
definition FILE_DELETE_ON_CLOSE :: u32 where "FILE_DELETE_ON_CLOSE = 0x00001000"

lemmas create_defs =
  FILE_SUPERSEDE_def FILE_OPEN_def FILE_CREATE_def FILE_OPEN_IF_def FILE_OVERWRITE_def
  FILE_OVERWRITE_IF_def FILE_WRITE_THROUGH_def FILE_DELETE_ON_CLOSE_def

definition createChangesFile :: "createRequest \<Rightarrow> bool" where
  "createChangesFile cr =
     (if CreateDisposition cr \<in> {FILE_SUPERSEDE, FILE_OVERWRITE, FILE_OVERWRITE_IF} then True
      else CreateOptions cr AND FILE_DELETE_ON_CLOSE > 0)"

definition grantAccess :: "createRequest \<Rightarrow> u32 \<Rightarrow> bool" where
  "grantAccess cr fs =
     (if fs = 0 then False
      else let write = fs AND (FILE_WRITE_DATA OR FILE_APPEND_DATA OR FILE_WRITE_EA OR
                               FILE_WRITE_ATTRIBUTES) > 0;
               del = fs AND (DELETE_ACCESS OR FILE_DELETE_CHILD) > 0;
               cd = CreateDisposition cr; co = CreateOptions cr; da = DesiredAccess cr
           in if \<not> satisfies fs da then False
              else if \<not> write \<and> cd \<in> {FILE_SUPERSEDE, FILE_CREATE, FILE_OPEN_IF, FILE_OVERWRITE,
                                      FILE_OVERWRITE_IF} then False
              else if \<not> write \<and> co AND FILE_WRITE_THROUGH > 0 then False
              else if \<not> del \<and> co AND FILE_DELETE_ON_CLOSE > 0 then False
              else True)"

definition validPath :: "string \<Rightarrow> bool" where
  "validPath path =
     (if path = [] then True
      else if has_prefix path [slash] then False
      else \<not> (\<exists>part \<in> set (split_slash path). part = [] \<or> part = ''.'' \<or> part = ''..''))"

definition confine :: "treeConnect \<Rightarrow> string \<Rightarrow> string" where
  "confine tc path =
     (if \<not> isAnonymous tc \<or> publicDir tc = [] then path
      else if path = [] then publicDir tc
      else publicDir tc @ [slash] @ path)"

text \<open>The rights to change a file's contents or attributes, and the rights to delete it.\<close>

abbreviation write_rights :: u32 where
  "write_rights \<equiv> FILE_WRITE_DATA OR FILE_APPEND_DATA OR FILE_WRITE_EA OR FILE_WRITE_ATTRIBUTES"

abbreviation delete_rights :: u32 where
  "delete_rights \<equiv> DELETE_ACCESS OR FILE_DELETE_CHILD"

subsection \<open>Masks as sets of rights\<close>

lemma mask_sub:
  fixes e m w :: "'a :: len word"
  assumes "m AND w = 0"
  shows "(e AND m) AND w = 0"
  by (metis assms and.assoc and_zero_eq)

lemma grantedFor_sub: "m AND w = 0 \<Longrightarrow> grantedFor desired m AND w = 0"
  by (simp add: grantedFor_def mask_sub)

lemma covered:
  fixes e g n h h' :: "'a :: len word"
  assumes "e AND NOT g AND NOT (h' OR n) = 0" "h' AND NOT (h OR n OR g) = 0"
  shows "e AND NOT g AND NOT n AND NOT (e AND h) = 0"
proof (rule bit_word_eqI)
  fix k assume k: "k < LENGTH('a)"
  have "bit (e AND NOT g AND NOT (h' OR n)) k = bit (0 :: 'a word) k"
    "bit (h' AND NOT (h OR n OR g)) k = bit (0 :: 'a word) k"
    using assms by simp_all
  with k show "bit (e AND NOT g AND NOT n AND NOT (e AND h)) k = bit (0 :: 'a word) k"
    by (auto simp: bit_simps)
qed

text \<open>
  What the store does not allow at a path, no open on it has. Whatever
  rights the share gives the user and whatever access the create asks for: where the store denies
  writing, the open is granted none of the rights to write and the create is only admitted with a
  disposition that leaves the file as it is; where the store denies deleting, the open is granted none
  of the rights to delete and is not admitted as delete-on-close.
\<close>

theorem narrowed_rights_hold:
  assumes "PathAccess path = Inr pa" "narrowToPath fs (Some PathAccess) known path = Inr m"
  shows "(\<not> pa_Write pa \<longrightarrow> grantedFor desired m AND write_rights = 0 \<and>
      (grantAccess cr m \<longrightarrow> CreateDisposition cr \<notin>
         {FILE_SUPERSEDE, FILE_CREATE, FILE_OPEN_IF, FILE_OVERWRITE, FILE_OVERWRITE_IF})) \<and>
    (\<not> pa_Delete pa \<longrightarrow> grantedFor desired m AND delete_rights = 0 \<and>
      (grantAccess cr m \<longrightarrow> CreateOptions cr AND FILE_DELETE_ON_CLOSE = 0))"
proof -
  have w: "m AND write_rights = 0" if "\<not> pa_Write pa"
    using assms that by (cases "pa_Delete pa") (auto simp: narrowToPath_def right_defs and.assoc)
  have d: "m AND delete_rights = 0" if "\<not> pa_Delete pa"
    using assms that by (cases "pa_Write pa") (auto simp: narrowToPath_def right_defs and.assoc)
  have "\<not> grantAccess cr m" if "m AND write_rights = 0"
    "CreateDisposition cr \<in> {FILE_SUPERSEDE, FILE_CREATE, FILE_OPEN_IF, FILE_OVERWRITE, FILE_OVERWRITE_IF}"
    using that by (simp add: grantAccess_def Let_def)
  moreover have "\<not> grantAccess cr m"
    if "m AND delete_rights = 0" "CreateOptions cr AND FILE_DELETE_ON_CLOSE \<noteq> 0"
    using that by (simp add: grantAccess_def Let_def word_gt_0)
  ultimately show ?thesis using w d grantedFor_sub by blast
qed

theorem narrowed_rights_hold_witness:
  "grantedFor GENERIC_ALL (0x80120089 :: u32) AND write_rights = 0"
proof -
  let ?fs = "FlagsFromAccessRights \<lparr>ShareName = ''s'', AccountID = 1, ReadAccess = True, WriteAccess = True, DeleteAccess = False,
    ExecuteAccess = False\<rparr>"
  have "narrowToPath ?fs (Some (\<lambda>_. Inr \<lparr>pa_Write = False, pa_Delete = True\<rparr>)) (\<lambda>_. False) ''x'' =
      Inr 0x80120089"
    by (simp add: narrowToPath_def FlagsFromAccessRights_def right_defs)
  with narrowed_rights_hold[of "\<lambda>_. Inr \<lparr>pa_Write = False, pa_Delete = True\<rparr>" "''x''"]
  show ?thesis by simp
qed

text \<open>
  An open gets what the create was admitted for. For a user whose
  policy lets them read wherever it lets them execute, a create the rights satisfy is granted every
  specific right it asked for, the ones its generic rights stand for included; only
  \<^verbatim>\<open>SYNCHRONIZE\<close> and \<^verbatim>\<open>READ_CONTROL\<close>, which the check does not weigh, may be missing.
\<close>

theorem satisfied_rights_are_granted:
  assumes "ExecuteAccess ar \<longrightarrow> ReadAccess ar"
    and "desired AND (MAXIMUM_ALLOWED OR GENERIC_ALL) = 0"
    and "satisfies (FlagsFromAccessRights ar) desired"
  shows "expandGeneric desired AND NOT generic AND NOT notWeighed AND
    NOT (grantedFor desired (FlagsFromAccessRights ar)) = 0"
proof -
  let ?h = "FlagsFromAccessRights ar"
  have h: "expandGeneric ?h AND NOT (?h OR notWeighed OR generic) = 0"
    using assms(1)
    by (cases "ReadAccess ar"; cases "WriteAccess ar"; cases "DeleteAccess ar"; cases "ExecuteAccess ar")
       (simp_all add: FlagsFromAccessRights_def expandGeneric_def notWeighed_def generic_def right_defs)
  have "expandGeneric desired AND NOT generic AND NOT (expandGeneric ?h OR notWeighed) = 0"
    using assms(2,3) by (metis satisfies_def)
  moreover have "grantedFor desired ?h = expandGeneric desired AND ?h"
    by (simp add: grantedFor_def assms(2))
  ultimately show ?thesis using covered h by metis
qed

theorem satisfied_rights_are_granted_witness:
  "grantedFor GENERIC_READ (FlagsFromAccessRights \<lparr>ShareName = ''s'', AccountID = 1, ReadAccess = True, WriteAccess = False,
     DeleteAccess = False, ExecuteAccess = False\<rparr>) = 0x80120089 \<and>
   expandGeneric GENERIC_READ AND NOT generic AND NOT notWeighed AND
     NOT (grantedFor GENERIC_READ (FlagsFromAccessRights \<lparr>ShareName = ''s'', AccountID = 1, ReadAccess = True, WriteAccess = False,
       DeleteAccess = False, ExecuteAccess = False\<rparr>)) = 0"
proof
  let ?ar = "\<lparr>ShareName = ''s'', AccountID = 1, ReadAccess = True, WriteAccess = False, DeleteAccess = False, ExecuteAccess = False\<rparr>"
  have "satisfies (FlagsFromAccessRights ?ar) GENERIC_READ"
    by (simp add: satisfies_def FlagsFromAccessRights_def expandGeneric_def notWeighed_def generic_def
        right_defs)
  then show "expandGeneric GENERIC_READ AND NOT generic AND NOT notWeighed AND
      NOT (grantedFor GENERIC_READ (FlagsFromAccessRights ?ar)) = 0"
    by (intro satisfied_rights_are_granted) (simp_all add: right_defs)
qed (simp add: grantedFor_def FlagsFromAccessRights_def expandGeneric_def right_defs)

text \<open>
  Without that condition it fails: under a policy that allows execution
  and nothing else, a create for \<^verbatim>\<open>GENERIC_EXECUTE\<close> is admitted, \<^verbatim>\<open>FILE_READ_ATTRIBUTES\<close> counting as held
  because the policy's own generic right stands for it, but the open is granted without it, and the
  query of the file's attributes that needs it is refused on the handle.
\<close>

theorem execute_only_open_short:
  "(let fs = FlagsFromAccessRights \<lparr>ShareName = ''s'', AccountID = 1, ReadAccess = False, WriteAccess = False, DeleteAccess = False,
               ExecuteAccess = True\<rparr>;
        cr = \<lparr>DesiredAccess = GENERIC_EXECUTE, CreateDisposition = FILE_OPEN, CreateOptions = 0\<rparr>
    in grantAccess cr fs \<and> expandGeneric GENERIC_EXECUTE AND FILE_READ_ATTRIBUTES \<noteq> 0 \<and>
       grantedFor GENERIC_EXECUTE fs AND (FILE_READ_ATTRIBUTES OR GENERIC_READ) = 0)"
  by (simp add: Let_def grantAccess_def satisfies_def grantedFor_def FlagsFromAccessRights_def
      expandGeneric_def notWeighed_def generic_def right_defs create_defs)

subsection \<open>Paths stay where they belong\<close>

lemma split_slash_append: "split_slash (a @ slash # b) = split_slash a @ split_slash b"
  by (induction a) (simp_all add: hd_append tl_append split: list.split)

lemma has_prefix_slash_iff: "has_prefix p [slash] \<longleftrightarrow> p \<noteq> [] \<and> hd p = slash"
  by (cases p) (auto simp: has_prefix_def)

lemma validPath_parts:
  "validPath p \<longleftrightarrow> p = [] \<or> (\<forall>part \<in> set (split_slash p). part \<noteq> [] \<and> part \<noteq> ''.'' \<and> part \<noteq> ''..'')"
  by (cases p) (auto simp: validPath_def has_prefix_def)


definition sample_tree :: treeConnect where
  "sample_tree = \<lparr>maximalAccess = 0, isAnonymous = True, workgroup = ''w'', userName = ''u'',
     connectSecurity = (\<lambda>_. False), fileSecurity = (\<lambda>_. None), publicDir = ''pub''\<rparr>"


end
