(* ===== verification/Share_Modes.thy ===== *)
theory Share_Modes
  imports Access_Rights
begin

section \<open>Sharing modes\<close>

text \<open>
  \<^verbatim>\<open>src/sharing.go\<close>: whether two opens can stand on one file together, and the open a create cannot stand
  beside. A create checks the sharing before it looks the file up in the store and joins the index of
  opens afterwards (\<^verbatim>\<open>createFile\<close> of \<^verbatim>\<open>src/conn.go\<close>), and nothing is held in between; the step relation of
  the second half keeps the two apart.
\<close>

definition FILE_SHARE_READ :: u32 where "FILE_SHARE_READ = 0x00000001"
definition FILE_SHARE_WRITE :: u32 where "FILE_SHARE_WRITE = 0x00000002"
definition FILE_SHARE_DELETE :: u32 where "FILE_SHARE_DELETE = 0x00000004"

lemmas share_defs = FILE_SHARE_READ_def FILE_SHARE_WRITE_def FILE_SHARE_DELETE_def

definition readsFile :: u32 where
  "readsFile = FILE_READ_DATA OR FILE_EXECUTE OR GENERIC_READ OR GENERIC_EXECUTE OR GENERIC_ALL"

definition writesFile :: u32 where
  "writesFile = FILE_WRITE_DATA OR FILE_APPEND_DATA OR GENERIC_WRITE OR GENERIC_ALL"

definition deletesFile :: u32 where
  "deletesFile = DELETE_ACCESS OR GENERIC_ALL"

definition touchesFile :: u32 where
  "touchesFile = readsFile OR writesFile OR deletesFile"

definition sharingConflict :: "u32 \<Rightarrow> u32 \<Rightarrow> u32 \<Rightarrow> u32 \<Rightarrow> bool" where
  "sharingConflict access mode held allowed =
     (if access AND touchesFile = 0 \<or> held AND touchesFile = 0 then False
      else if access AND readsFile \<noteq> 0 \<and> allowed AND FILE_SHARE_READ = 0 then True
      else if access AND writesFile \<noteq> 0 \<and> allowed AND FILE_SHARE_WRITE = 0 then True
      else if access AND deletesFile \<noteq> 0 \<and> allowed AND FILE_SHARE_DELETE = 0 then True
      else if held AND readsFile \<noteq> 0 \<and> mode AND FILE_SHARE_READ = 0 then True
      else if held AND writesFile \<noteq> 0 \<and> mode AND FILE_SHARE_WRITE = 0 then True
      else if held AND deletesFile \<noteq> 0 \<and> mode AND FILE_SHARE_DELETE = 0 then True
      else False)"

fun first_conflict :: "(oid \<Rightarrow> openRec) \<Rightarrow> u32 \<Rightarrow> u32 \<Rightarrow> oid list \<Rightarrow> oid option" where
  "first_conflict store access mode [] = None"
| "first_conflict store access mode (other # rest) =
     (if sharingConflict access mode (grantedAccess (store other)) (shareMode (store other))
      then Some other
      else first_conflict store access mode rest)"

definition sharingViolation :: "sid \<Rightarrow> string \<Rightarrow> u32 \<Rightarrow> u32 \<Rightarrow> server \<Rightarrow> oid option" where
  "sharingViolation sh path access mode s =
     first_conflict (opens s) access mode (opensOn sh path None s)"

subsection \<open>The rules\<close>

lemma sharingConflict_sym:
  "sharingConflict access mode held allowed = sharingConflict held allowed access mode"
  by (auto simp: sharingConflict_def)

lemma first_conflict_Some:
  "first_conflict store access mode os = Some x \<Longrightarrow>
     x \<in> set os \<and> sharingConflict access mode (grantedAccess (store x)) (shareMode (store x))"
  by (induction os) (auto split: if_splits)

lemma first_conflict_None:
  "first_conflict store access mode os = None \<longleftrightarrow>
     (\<forall>x \<in> set os. \<not> sharingConflict access mode (grantedAccess (store x)) (shareMode (store x)))"
  by (induction os) auto

text \<open>
  What the sharing rules forbid: two opens clash exactly when both touch
  the file and one of them does something, reading, writing or deleting, that the other does not
  share; and it does not matter which of them came first.
\<close>

theorem sharing_clash_meaning:
  "(sharingConflict access mode held allowed \<longleftrightarrow>
      access AND touchesFile \<noteq> 0 \<and> held AND touchesFile \<noteq> 0 \<and>
      (\<exists>(does, shares) \<in> {(readsFile, FILE_SHARE_READ), (writesFile, FILE_SHARE_WRITE),
                          (deletesFile, FILE_SHARE_DELETE)}.
         (access AND does \<noteq> 0 \<and> allowed AND shares = 0) \<or> (held AND does \<noteq> 0 \<and> mode AND shares = 0))) \<and>
   sharingConflict access mode held allowed = sharingConflict held allowed access mode"
  by (auto simp: sharingConflict_def)

subsection \<open>Creates in flight\<close>

text \<open>
  The server and the creates between the check and the registration: the open to be, its share, path,
  access and mode. \<^term>\<open>joining\<close> sets the fields \<^verbatim>\<open>registerOpen\<close> gives the new open.
\<close>

record pending =
  pd_op :: oid
  pd_share :: sid
  pd_path :: string
  pd_access :: u32
  pd_mode :: u32
  pd_id :: u64

definition joining :: "pending \<Rightarrow> server \<Rightarrow> server" where
  "joining p s = indexOpen (pd_op p) (upd_open (pd_op p)
     (\<lambda>_. blank_open\<lparr>durableFileID := pd_id p, op_share := Some (pd_share p), pathName := pd_path p,
        fileName := TrimPath (pd_path p), grantedAccess := pd_access p, shareMode := pd_mode p\<rparr>) s)"

definition fresh :: "server \<Rightarrow> pending \<Rightarrow> bool" where
  "fresh s p \<longleftrightarrow> (\<forall>key d. filed s key d \<noteq> Some (pd_op p)) \<and> (\<forall>key. filed s key (pd_id p) = None)"

inductive create_step :: "server \<times> pending list \<Rightarrow> server \<times> pending list \<Rightarrow> bool" where
  checks: "sharingViolation (pd_share p) (pd_path p) (pd_access p) (pd_mode p) s = None \<Longrightarrow>
    create_step (s, ps) (s, ps @ [p])"
| registers: "p \<in> set ps \<Longrightarrow> fresh s p \<Longrightarrow> create_step (s, ps) (joining p s, remove1 p ps)"
| closes: "create_step (s, ps) (unindexOpen op s, ps)"

inductive create_reachable :: "server \<times> pending list \<Rightarrow> bool" where
  start: "create_reachable (empty_server, [])"
| step: "create_reachable c \<Longrightarrow> create_step c c' \<Longrightarrow> create_reachable c'"

text \<open>No two opens on a file clash.\<close>

definition stand_together :: "server \<Rightarrow> bool" where
  "stand_together s \<longleftrightarrow> (\<forall>a b. indexed s a \<and> indexed s b \<and> a \<noteq> b \<and>
     fileKeyLocked (opens s a) = fileKeyLocked (opens s b) \<longrightarrow>
     \<not> sharingConflict (grantedAccess (opens s a)) (shareMode (opens s a))
         (grantedAccess (opens s b)) (shareMode (opens s b)))"

text \<open>
  The same with the creates one at a time: a create checks the sharing and registers before the next
  one checks.
\<close>

inductive serial_reachable :: "server \<Rightarrow> bool" where
  serial_start: "serial_reachable empty_server"
| serial_create: "\<lbrakk>serial_reachable s;
     sharingViolation (pd_share p) (pd_path p) (pd_access p) (pd_mode p) s = None; fresh s p\<rbrakk> \<Longrightarrow>
     serial_reachable (joining p s)"
| serial_close: "serial_reachable s \<Longrightarrow> serial_reachable (unindexOpen op s)"

lemma joining_opens:
  "opens (joining p s) = (opens s)(pd_op p := blank_open\<lparr>durableFileID := pd_id p,
     op_share := Some (pd_share p), pathName := pd_path p, fileName := TrimPath (pd_path p),
     grantedAccess := pd_access p, shareMode := pd_mode p\<rparr>)"
  by (simp add: joining_def)

lemma index_ok_joining:
  assumes "index_ok s" "fresh s p"
  shows "index_ok (joining p s)"
  unfolding joining_def
  using assms by (intro index_ok_indexOpen index_ok_set_up) (simp_all add: fresh_def)

lemma filed_joining:
  "filed (joining p s) key d =
     (if key = \<lparr>fk_share = Some (pd_share p), fk_path = pd_path p\<rparr> \<and> d = pd_id p then Some (pd_op p)
      else filed s key d)"
  by (simp add: joining_def filed_indexOpen fileKeyLocked_def)

lemma indexed_joining:
  assumes "index_ok s" "fresh s p"
  shows "indexed (joining p s) x \<longleftrightarrow> x = pd_op p \<or> indexed s x"
proof -
  have "\<not> indexed s (pd_op p)" using assms(2) by (simp add: fresh_def indexed_def)
  moreover have "durableFileID (opens s x) \<noteq> pd_id p" if "indexed s x"
    using that assms(2) by (auto simp: fresh_def indexed_def)
  ultimately show ?thesis
    by (auto simp: indexed_def[of "joining p s"] joining_opens filed_joining indexed_def[of s]
        fileKeyLocked_def)
qed

lemma indexed_unindexOpen: "indexed (unindexOpen op s) x \<Longrightarrow> indexed s x"
  by (simp add: indexed_def unindexOpen_def filed_dropFromBucket split: if_splits)

lemma opens_unindexOpen [simp]: "opens (unindexOpen op s) = opens s"
  by (simp add: unindexOpen_def)

lemma sharingViolation_None:
  assumes "index_ok s"
  shows "sharingViolation sh path access mode s = None \<longleftrightarrow>
    (\<forall>x. indexed s x \<and> fileKeyLocked (opens s x) = \<lparr>fk_share = Some sh, fk_path = path\<rparr> \<longrightarrow>
       \<not> sharingConflict access mode (grantedAccess (opens s x)) (shareMode (opens s x)))"
  unfolding sharingViolation_def first_conflict_None idx.every_open_on_file[OF assms]
  by (auto simp: fileKeyLocked_def)

lemma stand_together_joining:
  assumes "index_ok s" "fresh s p" "stand_together s"
    "sharingViolation (pd_share p) (pd_path p) (pd_access p) (pd_mode p) s = None"
  shows "stand_together (joining p s)"
proof -
  note V = assms(4)[unfolded sharingViolation_None[OF assms(1)]]
  have new: "\<not> sharingConflict (pd_access p) (pd_mode p) (grantedAccess (opens s b)) (shareMode (opens s b))"
    if "indexed s b" "fileKeyLocked (opens s b) = \<lparr>fk_share = Some (pd_share p), fk_path = pd_path p\<rparr>" for b
    using V that by blast
  have key: "fileKeyLocked (opens (joining p s) (pd_op p)) =
      \<lparr>fk_share = Some (pd_share p), fk_path = pd_path p\<rparr>"
    by (simp add: joining_opens fileKeyLocked_def)
  show ?thesis
    unfolding stand_together_def
  proof (intro allI impI)
    fix a b
    assume *: "indexed (joining p s) a \<and> indexed (joining p s) b \<and> a \<noteq> b \<and>
      fileKeyLocked (opens (joining p s) a) = fileKeyLocked (opens (joining p s) b)"
    consider "a = pd_op p" | "b = pd_op p" | "a \<noteq> pd_op p" "b \<noteq> pd_op p" by blast
    then show "\<not> sharingConflict (grantedAccess (opens (joining p s) a)) (shareMode (opens (joining p s) a))
        (grantedAccess (opens (joining p s) b)) (shareMode (opens (joining p s) b))"
    proof cases
      case 1
      with * key have "indexed s b" "fileKeyLocked (opens s b) = \<lparr>fk_share = Some (pd_share p), fk_path = pd_path p\<rparr>"
        using indexed_joining[OF assms(1,2)] by (auto simp: joining_opens)
      with 1 * show ?thesis using new by (simp add: joining_opens)
    next
      case 2
      with * key have "indexed s a" "fileKeyLocked (opens s a) = \<lparr>fk_share = Some (pd_share p), fk_path = pd_path p\<rparr>"
        using indexed_joining[OF assms(1,2)] by (auto simp: joining_opens)
      with 2 * show ?thesis using new sharingConflict_sym by (simp add: joining_opens)
    next
      case 3
      with * indexed_joining[OF assms(1,2)] have "indexed s a" "indexed s b" by auto
      with 3 * assms(3) show ?thesis by (simp add: stand_together_def joining_opens)
    qed
  qed
qed

lemma serial_invariant:
  assumes "serial_reachable s"
  shows "index_ok s \<and> stand_together s"
  using assms
proof induction
  case serial_start
  have "index_ok empty_server" by (rule index_ok_empty) (simp add: empty_server_def)
  moreover have "\<not> indexed empty_server x" for x
    by (simp add: indexed_def filed_def bucket_def empty_server_def)
  ultimately show ?case by (simp add: stand_together_def)
next
  case (serial_create s p)
  then show ?case by (simp add: index_ok_joining stand_together_joining)
next
  case (serial_close s op)
  then show ?case by (auto simp: index_ok_unindexOpen stand_together_def dest: indexed_unindexOpen)
qed


text \<open>Two creates for one file: a reader that shares reading, and a writer that shares nothing.\<close>

definition reader :: "oid \<Rightarrow> pending" where
  "reader x = \<lparr>pd_op = x, pd_share = 7, pd_path = ''f'', pd_access = FILE_READ_DATA,
     pd_mode = FILE_SHARE_READ, pd_id = of_nat x\<rparr>"

definition writer :: "oid \<Rightarrow> pending" where
  "writer x = \<lparr>pd_op = x, pd_share = 7, pd_path = ''f'', pd_access = FILE_WRITE_DATA,
     pd_mode = 0, pd_id = of_nat x\<rparr>"

lemmas share_mode_masks =
  readsFile_def writesFile_def deletesFile_def touchesFile_def right_defs share_defs

lemma filed_empty_server [simp]: "filed empty_server k d = None"
  using filed_empty[of "opens empty_server"] by simp

lemma index_ok_empty_server: "index_ok empty_server"
  by (rule index_ok_empty) (simp add: empty_server_def)

lemma not_indexed_empty: "\<not> indexed empty_server x"
  by (simp add: indexed_def)

lemma fresh_first: "fresh empty_server p"
  by (simp add: fresh_def)

lemma fresh_second: "pd_op q \<noteq> pd_op p \<Longrightarrow> pd_id q \<noteq> pd_id p \<Longrightarrow> fresh (joining p empty_server) q"
  by (simp add: fresh_def filed_joining)


text \<open>
  Two creates in flight at once can both be let through: the second one
  checks the sharing after the first has checked and before it has registered, so that an open that
  reads the file and an open that writes it and shares nothing end up on it together.
\<close>

theorem concurrent_creates_clash:
  "\<exists>s a b. create_reachable (s, []) \<and> indexed s a \<and> indexed s b \<and> a \<noteq> b \<and>
     fileKeyLocked (opens s a) = fileKeyLocked (opens s b) \<and>
     sharingConflict (grantedAccess (opens s a)) (shareMode (opens s a))
       (grantedAccess (opens s b)) (shareMode (opens s b))"
proof -
  let ?s1 = "joining (reader 1) empty_server"
  let ?s2 = "joining (writer 2) ?s1"
  have ok: "index_ok empty_server" "index_ok ?s1"
    using index_ok_empty_server index_ok_joining fresh_first by blast+
  have f: "fresh ?s1 (writer 2)" by (rule fresh_second) (simp_all add: reader_def writer_def)
  have V: "sharingViolation sh path access mode empty_server = None" for sh path access mode
    by (simp add: sharingViolation_None ok not_indexed_empty)
  have "create_reachable (empty_server, [reader 1])"
    using create_reachable.step[OF create_reachable.start create_step.checks[OF V]] by simp
  from create_reachable.step[OF this create_step.checks[OF V]]
  have "create_reachable (empty_server, [reader 1, writer 2])" by simp
  from create_reachable.step[OF this create_step.registers[OF _ fresh_first, of "reader 1"]]
  have "create_reachable (?s1, [writer 2])" by simp
  from create_reachable.step[OF this create_step.registers[OF _ f]]
  have "create_reachable (?s2, [])" by simp
  moreover have "indexed ?s2 1" "indexed ?s2 2"
    unfolding indexed_joining[OF ok(2) f] indexed_joining[OF ok(1) fresh_first]
    by (simp_all add: reader_def writer_def)
  moreover have "fileKeyLocked (opens ?s2 1) = fileKeyLocked (opens ?s2 2)"
    "sharingConflict (grantedAccess (opens ?s2 1)) (shareMode (opens ?s2 1))
       (grantedAccess (opens ?s2 2)) (shareMode (opens ?s2 2))"
    by (simp_all add: joining_opens reader_def writer_def fileKeyLocked_def sharingConflict_def share_mode_masks)
  ultimately show ?thesis by (intro exI[of _ ?s2] exI[of _ 1] exI[of _ 2]) simp
qed

end
