(* ===== verification/Break_Protocol.thy ===== *)
theory Break_Protocol
  imports Open_Index
begin

section \<open>The protocol of a break\<close>

text \<open>
  Oplocks (\<^verbatim>\<open>src/oplock.go\<close>) and leases (\<^verbatim>\<open>src/lease.go\<close>) are given up the same way: a break is started, and
  hands out a channel to wait on; it ends once, by an acknowledgment, the expiry of its timer or the
  death of the holder, whichever comes first; and the timer of a break that is over says nothing about a
  later one. The locale states that contract once, over the channel and the sequence number of the
  break in flight, and the two components interpret it on their own operations.
\<close>

subsection \<open>Channels\<close>

text \<open>The channel of the break in flight on an oplock (\<open>Inl\<close>) or on a lease (\<open>Inr\<close>).\<close>

fun in_flight :: "server \<Rightarrow> oid + lid \<Rightarrow> chan option" where
  "in_flight s (Inl op) = oplockBreak (opens s op)"
| "in_flight s (Inr l) = breakDone (leases s l)"

text \<open>
  Every channel in flight is open and belongs to one break, so that ending a break never closes a
  channel twice; nothing has panicked.
\<close>

definition chans_ok :: "server \<Rightarrow> bool" where
  "chans_ok s \<longleftrightarrow> \<not> panicked s \<and> closed s \<subseteq> {..<nextChannel s} \<and>
     (\<forall>x c. in_flight s x = Some c \<longrightarrow> c < nextChannel s \<and> c \<notin> closed s) \<and>
     (\<forall>x y c. in_flight s x = Some c \<longrightarrow> in_flight s y = Some c \<longrightarrow> x = y)"

text \<open>A change that leaves every channel in flight alone.\<close>

lemma chans_ok_same:
  assumes "chans_ok s" "panicked t = panicked s" "closed t = closed s"
    "nextChannel t = nextChannel s" "\<And>x. in_flight t x = in_flight s x"
  shows "chans_ok t"
  using assms by (simp add: chans_ok_def)

text \<open>Starting a break: one holder takes a new channel.\<close>

lemma chans_ok_made:
  assumes "chans_ok s" "panicked t = panicked s" "closed t = closed s"
    "nextChannel t = Suc (nextChannel s)"
    "\<And>y. in_flight t y = (if y = x then Some (nextChannel s) else in_flight s y)"
  shows "chans_ok t"
  unfolding chans_ok_def
proof (intro conjI allI impI)
  show "\<not> panicked t" using assms(1,2) by (simp add: chans_ok_def)
  show "closed t \<subseteq> {..<nextChannel t}" using assms(1,3,4) by (auto simp: chans_ok_def)
  fix y c assume y: "in_flight t y = Some c"
  have "c < nextChannel s \<and> c \<notin> closed s" if "y \<noteq> x"
    using that y assms(1,5) by (simp add: chans_ok_def)
  moreover have "c = nextChannel s" if "y = x" using that y assms(5) by simp
  moreover have "nextChannel s \<notin> closed s" using assms(1) by (auto simp: chans_ok_def)
  ultimately show "c < nextChannel t" "c \<notin> closed t" using assms(3,4) by (auto simp: less_Suc_eq)
next
  fix y z c assume *: "in_flight t y = Some c" "in_flight t z = Some c"
  have "in_flight s w \<noteq> Some (nextChannel s)" for w using assms(1) by (auto simp: chans_ok_def)
  then show "y = z" using * assms(1,5) unfolding chans_ok_def by (metis option.inject)
qed

text \<open>Ending a break: its channel is closed and no longer in flight.\<close>

lemma chans_ok_closed:
  assumes "chans_ok s" "in_flight s x = Some c" "panicked t = panicked s"
    "closed t = insert c (closed s)" "nextChannel t = nextChannel s"
    "\<And>y. in_flight t y = (if y = x then None else in_flight s y)"
  shows "chans_ok t"
proof -
  have "in_flight s y \<noteq> Some c" if "y \<noteq> x" for y
    using that assms(1,2) unfolding chans_ok_def by blast
  then show ?thesis using assms by (auto simp: chans_ok_def split: if_splits)
qed

lemma chans_ok_close_chan:
  assumes "chans_ok s" "in_flight s x = Some c"
  shows "closed (close_chan (Some c) s) = insert c (closed s)"
    and "panicked (close_chan (Some c) s) = panicked s"
proof -
  have "c \<notin> closed s" using assms unfolding chans_ok_def by blast
  then show "closed (close_chan (Some c) s) = insert c (closed s)"
    "panicked (close_chan (Some c) s) = panicked s" by (rule close_chan_open)+
qed

subsection \<open>The contract\<close>

locale break_protocol =
  fixes flying :: "'s \<Rightarrow> chan option"
    and seq :: "'s \<Rightarrow> u64"
    and ended :: "'s \<Rightarrow> chan set"
    and ok :: "'s \<Rightarrow> bool"
    and start :: "'t \<Rightarrow> 's \<Rightarrow> 's \<times> chan option \<times> bool"
    and finish :: "'v \<Rightarrow> 's \<Rightarrow> 's \<times> bool"
    and expire :: "u64 \<Rightarrow> 'v \<Rightarrow> 's \<Rightarrow> 's \<times> bool"
  assumes start_ok: "ok s \<Longrightarrow> ok (fst (start t s))"
    and finish_ok: "ok s \<Longrightarrow> ok (fst (finish v s))"
    and start_idle: "ok s \<Longrightarrow> flying s = None \<Longrightarrow> start t s = (s', Some c, new) \<Longrightarrow>
      new \<and> flying s' = Some c \<and> seq s' = seq s + 1 \<and> c \<notin> ended s' \<and> ended s' = ended s"
    and start_nothing: "ok s \<Longrightarrow> start t s = (s', None, new) \<Longrightarrow> s' = s \<and> \<not> new"
    and start_flying: "ok s \<Longrightarrow> flying s = Some c \<Longrightarrow> start t s = (s', Some c', new) \<Longrightarrow>
      c' = c \<and> flying s' = Some c \<and> seq s' = seq s \<and> ended s' = ended s"
    and finish_idle: "ok s \<Longrightarrow> flying s = None \<Longrightarrow> finish v s = (s, False)"
    and finish_flying: "ok s \<Longrightarrow> flying s = Some c \<Longrightarrow> finish v s = (s', r) \<Longrightarrow>
      r \<and> flying s' = None \<and> seq s' = seq s \<and> ended s' = insert c (ended s)"
    and expire_eq: "expire q v s = (if seq s \<noteq> q then (s, False) else finish v s)"
    and open_channel: "ok s \<Longrightarrow> flying s = Some c \<Longrightarrow> c \<notin> ended s"
begin

text \<open>Whoever started a break, or joined one in flight, is released when it ends, and not before.\<close>

lemma waiter_released:
  assumes "ok s" "start t s = (s1, Some c, new)" "finish v s1 = (s2, r)"
  shows "c \<notin> ended s1 \<and> r \<and> c \<in> ended s2"
proof -
  have ok1: "ok s1" using start_ok[OF assms(1), of t] assms(2) by simp
  have "flying s1 = Some c"
    using start_idle[OF assms(1) _ assms(2)] start_flying[OF assms(1) _ assms(2)]
    by (cases "flying s") auto
  with open_channel[OF ok1] finish_flying[OF ok1 _ assms(3)] show ?thesis by blast
qed

text \<open>A break ends once: whatever comes second finds nothing to end.\<close>

lemma ends_once:
  assumes "ok s" "finish v s = (s1, r)"
  shows "finish w s1 = (s1, False)"
proof (cases "flying s")
  case None
  then show ?thesis using assms finish_idle by simp
next
  case (Some c)
  moreover have "ok s1" using finish_ok[OF assms(1), of v] assms(2) by simp
  ultimately show ?thesis using assms finish_flying finish_idle by blast
qed

text \<open>The timer of an earlier break leaves the one that took its place alone.\<close>

lemma stale_timer:
  assumes "ok s" "start t s = (s1, Some c, True)" "flying s = None"
    and "finish v s1 = (s2, r)" "start t' s2 = (s3, Some c', new)"
  shows "expire (seq s1) w s3 = (s3, False)" "flying s3 = Some c'" "c' \<notin> ended s3"
proof -
  have ok1: "ok s1" using start_ok[OF assms(1), of t] assms(2) by simp
  have ok2: "ok s2" using finish_ok[OF ok1, of v] assms(4) by simp
  have f1: "flying s1 = Some c" using start_idle[OF assms(1,3,2)] by blast
  note f2 = finish_flying[OF ok1 f1 assms(4)]
  note f3 = start_idle[OF ok2 _ assms(5)]
  from f2 f3 show "expire (seq s1) w s3 = (s3, False)" "flying s3 = Some c'" "c' \<notin> ended s3"
    by (auto simp: expire_eq)
qed

text \<open>The timer of the break in flight ends it.\<close>

lemma own_timer:
  assumes "ok s" "start t s = (s1, Some c, True)" "flying s = None" "expire (seq s1) v s1 = (s2, r)"
  shows "r \<and> flying s2 = None \<and> c \<in> ended s2"
proof -
  have ok1: "ok s1" using start_ok[OF assms(1), of t] assms(2) by simp
  have f1: "flying s1 = Some c" using start_idle[OF assms(1,3,2)] by blast
  have "finish v s1 = (s2, r)" using assms(4) by (simp add: expire_eq)
  with finish_flying[OF ok1 f1] show ?thesis by blast
qed

end

end
