(* ===== verification/Oplocks.thy ===== *)
theory Oplocks
  imports Break_Protocol Access_Rights
begin

section \<open>Oplocks\<close>

text \<open>
  The oplock of an open and its break (\<^verbatim>\<open>src/oplock.go\<close>, up to \<^verbatim>\<open>startBreaks\<close>, and
  \<^verbatim>\<open>acknowledgeOplockBreak\<close>). Whether a notification could be delivered over some connection of the
  client is I/O and an argument; the timer a sent notification arms is a returned value, the open and the
  sequence number it will expire.
\<close>

subsection \<open>Status codes\<close>

definition STATUS_UNSUCCESSFUL :: u32 where "STATUS_UNSUCCESSFUL = 0xc0000001"
definition STATUS_OBJECT_NAME_NOT_FOUND :: u32 where "STATUS_OBJECT_NAME_NOT_FOUND = 0xc0000034"
definition STATUS_REQUEST_NOT_ACCEPTED :: u32 where "STATUS_REQUEST_NOT_ACCEPTED = 0xc00000d0"
definition STATUS_INVALID_OPLOCK_PROTOCOL :: u32 where "STATUS_INVALID_OPLOCK_PROTOCOL = 0xc00000e3"
definition STATUS_INVALID_DEVICE_STATE :: u32 where "STATUS_INVALID_DEVICE_STATE = 0xc0000184"

lemmas oplock_status_defs = STATUS_UNSUCCESSFUL_def STATUS_OBJECT_NAME_NOT_FOUND_def
  STATUS_REQUEST_NOT_ACCEPTED_def STATUS_INVALID_OPLOCK_PROTOCOL_def STATUS_INVALID_DEVICE_STATE_def

subsection \<open>Operations\<close>

definition oplockEligible :: "u8 \<Rightarrow> string \<Rightarrow> bool \<Rightarrow> bool" where
  "oplockEligible requested shareName isDir =
     (if requested \<in> {OPLOCK_LEVEL_II, OPLOCK_LEVEL_EXCLUSIVE, OPLOCK_LEVEL_BATCH}
      then shareName \<noteq> ''ipc$'' \<and> \<not> isDir
      else False)"

definition oplockBreakTarget :: "bool \<Rightarrow> u8" where
  "oplockBreakTarget sharedOK = (if sharedOK then OPLOCK_LEVEL_II else OPLOCK_LEVEL_NONE)"

definition startOplockBreak :: "oid \<Rightarrow> u8 \<Rightarrow> server \<Rightarrow> server \<times> chan option \<times> bool" where
  "startOplockBreak op to s =
     (case oplockState (opens s op) of
        OplockHeld \<Rightarrow>
          (if to \<ge> oplockLevel (opens s op) then (s, None, False)
           else let (s1, c) = make_chan s
                in (upd_open op (\<lambda>o'. o'\<lparr>oplockState := OplockBreaking, oplockBreakTo := to,
                      oplockBreakSeq := oplockBreakSeq o' + 1, oplockBreak := Some c\<rparr>) s1, Some c, True))
      | OplockBreaking \<Rightarrow>
          (if to \<ge> oplockBreakTo (opens s op) then (s, oplockBreak (opens s op), False)
           else (upd_open op (\<lambda>o'. o'\<lparr>oplockBreakTo := to\<rparr>) s, oplockBreak (opens s op), True))
      | OplockNone \<Rightarrow> (s, None, False))"

definition finishOplockBreak :: "oid \<Rightarrow> u8 \<Rightarrow> server \<Rightarrow> server \<times> bool" where
  "finishOplockBreak op level s =
     (if oplockState (opens s op) \<noteq> OplockBreaking then (s, False)
      else let s1 = upd_open op (\<lambda>o'. o'\<lparr>oplockLevel := level,
                 oplockState := (if level = OPLOCK_LEVEL_NONE then OplockNone else OplockHeld)\<rparr>) s;
               s2 = close_chan (oplockBreak (opens s op)) s1
           in (upd_open op (\<lambda>o'. o'\<lparr>oplockBreak := None\<rparr>) s2, True))"

definition completeOplockBreak :: "oid \<Rightarrow> u8 \<Rightarrow> server \<Rightarrow> server \<times> bool" where
  "completeOplockBreak op level s = finishOplockBreak op level s"

definition expireOplockBreak :: "oid \<Rightarrow> u64 \<Rightarrow> u8 \<Rightarrow> server \<Rightarrow> server \<times> bool" where
  "expireOplockBreak op seq level s =
     (if oplockBreakSeq (opens s op) \<noteq> seq then (s, False) else finishOplockBreak op level s)"

definition releaseOplock :: "oid \<Rightarrow> server \<Rightarrow> server" where
  "releaseOplock op s =
     (let s1 = upd_open op (\<lambda>o'. o'\<lparr>oplockLevel := OPLOCK_LEVEL_NONE, oplockState := OplockNone\<rparr>) s
      in case oplockBreak (opens s op) of
           None \<Rightarrow> s1
         | Some c \<Rightarrow> upd_open op (\<lambda>o'. o'\<lparr>oplockBreak := None\<rparr>) (close_chan (Some c) s1))"

text \<open>
  \<^verbatim>\<open>sendOplockBreak\<close> in its two halves: what it reads of the open before it sends, and what it does once
  the sending has come to something. The result is the timer that was armed, if any.
\<close>

definition sendOplockBreak_done :: "oid \<Rightarrow> u8 \<Rightarrow> u64 \<Rightarrow> bool \<Rightarrow> server \<Rightarrow> server \<times> (oid \<times> u64) option" where
  "sendOplockBreak_done op held seq sent s =
     (if \<not> sent then (fst (completeOplockBreak op OPLOCK_LEVEL_NONE s), None)
      else if held = OPLOCK_LEVEL_II then (fst (completeOplockBreak op OPLOCK_LEVEL_NONE s), None)
      else (s, Some (op, seq)))"

definition sendOplockBreak :: "oid \<Rightarrow> bool \<Rightarrow> server \<Rightarrow> server \<times> (oid \<times> u64) option" where
  "sendOplockBreak op sent s =
     sendOplockBreak_done op (oplockLevel (opens s op)) (oplockBreakSeq (opens s op)) sent s"

fun startBreaks :: "oid list \<Rightarrow> u8 \<Rightarrow> server \<Rightarrow> server \<times> chan list \<times> oid list" where
  "startBreaks [] to s = (s, [], [])"
| "startBreaks (op # ops) to s =
     (let (s1, ch, started) = startOplockBreak op to s;
          (s2, waits, notify) = startBreaks ops to s1
      in case ch of
           None \<Rightarrow> (s2, waits, notify)
         | Some c \<Rightarrow> (s2, c # waits, if started then op # notify else notify))"

text \<open>
  \<^verbatim>\<open>acknowledgeOplockBreak\<close>: the check reads the open under its lock, and the break is completed under the
  lock again.
\<close>

definition ack_valid :: "u8 \<Rightarrow> u8 \<Rightarrow> bool" where
  "ack_valid held level =
     (if held = OPLOCK_LEVEL_BATCH then
        level = OPLOCK_LEVEL_EXCLUSIVE \<or> level = OPLOCK_LEVEL_II \<or> level = OPLOCK_LEVEL_NONE
      else if held = OPLOCK_LEVEL_EXCLUSIVE then level = OPLOCK_LEVEL_II \<or> level = OPLOCK_LEVEL_NONE
      else if held = OPLOCK_LEVEL_II then level = OPLOCK_LEVEL_NONE
      else False)"

definition acknowledgeOplockBreak :: "oid \<Rightarrow> u8 \<Rightarrow> server \<Rightarrow> server \<times> u32 \<times> u8" where
  "acknowledgeOplockBreak op level s =
     (let state = oplockState (opens s op); held = oplockLevel (opens s op); to = oplockBreakTo (opens s op)
      in if state \<noteq> OplockBreaking then (s, STATUS_INVALID_DEVICE_STATE, OPLOCK_LEVEL_NONE)
         else if level = OPLOCK_LEVEL_LEASE then
           (fst (completeOplockBreak op OPLOCK_LEVEL_NONE s), STATUS_INVALID_PARAMETER, OPLOCK_LEVEL_NONE)
         else if \<not> ack_valid held level then
           (fst (completeOplockBreak op OPLOCK_LEVEL_NONE s), STATUS_INVALID_OPLOCK_PROTOCOL, OPLOCK_LEVEL_NONE)
         else if level > to then (s, STATUS_REQUEST_NOT_ACCEPTED, OPLOCK_LEVEL_NONE)
         else (fst (completeOplockBreak op level s), STATUS_OK, level))"

subsection \<open>The invariant\<close>

text \<open>
  An oplock is being broken exactly while a channel is there to wait on, to a level below the one held
  and no higher than a read cache; one that is held is held at some level.
\<close>

definition oplock_ok :: "openRec \<Rightarrow> bool" where
  "oplock_ok o' \<longleftrightarrow> (oplockState o' = OplockBreaking \<longleftrightarrow> oplockBreak o' \<noteq> None) \<and>
     oplockBreakTo o' \<le> OPLOCK_LEVEL_II \<and>
     (oplockState o' = OplockBreaking \<longrightarrow> oplockBreakTo o' < oplockLevel o') \<and>
     (oplockState o' \<noteq> OplockNone \<longrightarrow> oplockLevel o' \<noteq> OPLOCK_LEVEL_NONE)"

definition oplocks_ok :: "server \<Rightarrow> bool" where
  "oplocks_ok s \<longleftrightarrow> chans_ok s \<and> (\<forall>op. oplock_ok (opens s op))"

lemma oplocks_okD: "oplocks_ok s \<Longrightarrow> chans_ok s" "oplocks_ok s \<Longrightarrow> oplock_ok (opens s op)"
  by (simp_all add: oplocks_ok_def)

lemma in_flight_upd_open:
  "in_flight (upd_open op f s) x =
     (if x = Inl op then oplockBreak (f (opens s op)) else in_flight s x)"
  by (cases x) simp_all

lemma in_flight_close_chan [simp]: "in_flight (close_chan ch s) x = in_flight s x"
  by (cases x) simp_all

lemma in_flight_make_chan [simp]: "in_flight (s\<lparr>nextChannel := n\<rparr>) x = in_flight s x"
  by (cases x) simp_all

lemma startOplockBreak_cases:
  assumes "oplocks_ok s"
  obtains (idles) "startOplockBreak op to s = (s, None, False)" "oplockBreak (opens s op) = None"
      "oplockState (opens s op) = OplockNone \<or> oplockLevel (opens s op) \<le> to"
  | (starts) "oplockState (opens s op) = OplockHeld" "to < oplockLevel (opens s op)"
      "oplockBreak (opens s op) = None"
      "startOplockBreak op to s = (upd_open op (\<lambda>o'. o'\<lparr>oplockState := OplockBreaking,
         oplockBreakTo := to, oplockBreakSeq := oplockBreakSeq o' + 1,
         oplockBreak := Some (nextChannel s)\<rparr>) (s\<lparr>nextChannel := Suc (nextChannel s)\<rparr>),
         Some (nextChannel s), True)"
  | (waits) c where "oplockState (opens s op) = OplockBreaking" "oplockBreak (opens s op) = Some c"
      "oplockBreakTo (opens s op) \<le> to" "startOplockBreak op to s = (s, Some c, False)"
  | (deepens) c where "oplockState (opens s op) = OplockBreaking" "oplockBreak (opens s op) = Some c"
      "to < oplockBreakTo (opens s op)"
      "startOplockBreak op to s = (upd_open op (\<lambda>o'. o'\<lparr>oplockBreakTo := to\<rparr>) s, Some c, True)"
proof (cases "oplockState (opens s op)")
  case OplockNone
  with oplocks_okD(2)[OF assms, of op] show ?thesis
    by - (rule idles, auto simp: startOplockBreak_def oplock_ok_def)
next
  case OplockHeld
  with assms oplocks_okD(2)[of s op] have "oplockBreak (opens s op) = None" by (auto simp: oplock_ok_def)
  show ?thesis
  proof (cases "to \<ge> oplockLevel (opens s op)")
    case True
    with \<open>oplockBreak (opens s op) = None\<close> OplockHeld show ?thesis
      by - (rule idles, auto simp: startOplockBreak_def)
  next
    case False
    with \<open>oplockBreak (opens s op) = None\<close> OplockHeld show ?thesis
      by - (rule starts, auto simp: startOplockBreak_def make_chan_def)
  qed
next
  case OplockBreaking
  with assms oplocks_okD(2)[of s op] obtain c where "oplockBreak (opens s op) = Some c"
    by (auto simp: oplock_ok_def)
  with OplockBreaking waits deepens show ?thesis
    by (cases "to \<ge> oplockBreakTo (opens s op)") (simp_all add: startOplockBreak_def not_le)
qed

lemma oplocks_ok_upd:
  assumes "chans_ok (upd_open op f s)" "oplocks_ok s" "oplock_ok (f (opens s op))"
  shows "oplocks_ok (upd_open op f s)"
  using assms by (auto simp: oplocks_ok_def)

lemma startOplockBreak_ok:
  assumes "oplocks_ok s" "to \<le> OPLOCK_LEVEL_II"
  shows "oplocks_ok (fst (startOplockBreak op to s))"
  using assms(1)
proof (cases rule: startOplockBreak_cases[where op = op and to = to])
  case starts
  let ?f = "\<lambda>o'. o'\<lparr>oplockState := OplockBreaking, oplockBreakTo := to,
    oplockBreakSeq := oplockBreakSeq o' + 1, oplockBreak := Some (nextChannel s)\<rparr>"
  let ?s = "s\<lparr>nextChannel := Suc (nextChannel s)\<rparr>"
  have "chans_ok (upd_open op ?f ?s)"
    by (rule chans_ok_made[OF oplocks_okD(1)[OF assms(1)], where x = "Inl op"])
       (simp_all add: in_flight_upd_open)
  moreover have "oplock_ok (?f (opens s op))"
    using starts assms(2) oplocks_okD(2)[OF assms(1), of op] by (simp add: oplock_ok_def)
  ultimately show ?thesis using starts assms(1) by (auto simp: oplocks_ok_def)
next
  case (deepens c)
  let ?f = "\<lambda>o'. o'\<lparr>oplockBreakTo := to\<rparr>"
  have "chans_ok (upd_open op ?f s)"
    by (rule chans_ok_same[OF oplocks_okD(1)[OF assms(1)]]) (simp_all add: in_flight_upd_open deepens)
  moreover have "oplock_ok (?f (opens s op))"
    using deepens assms(2) oplocks_okD(2)[OF assms(1), of op] by (auto simp: oplock_ok_def)
  ultimately show ?thesis using deepens assms(1) by (auto simp: oplocks_ok_def)
qed (simp_all add: assms(1))

text \<open>What ending a break comes to, on an open whose break has a channel to close.\<close>

lemma finishOplockBreak_flying:
  assumes "oplocks_ok s" "oplockBreak (opens s op) = Some c"
  shows "snd (finishOplockBreak op level s)"
    and "opens (fst (finishOplockBreak op level s)) = (opens s)(op := (opens s op)\<lparr>oplockLevel := level,
      oplockState := (if level = OPLOCK_LEVEL_NONE then OplockNone else OplockHeld), oplockBreak := None\<rparr>)"
    and "closed (fst (finishOplockBreak op level s)) = insert c (closed s)"
    and "panicked (fst (finishOplockBreak op level s)) = panicked s"
proof -
  have b: "oplockState (opens s op) = OplockBreaking"
    using assms oplocks_okD(2)[of s op] by (auto simp: oplock_ok_def)
  have c: "c \<notin> closed s"
    using oplocks_okD(1)[OF assms(1)] assms(2) unfolding chans_ok_def by (metis in_flight.simps(1))
  show "snd (finishOplockBreak op level s)"
    "opens (fst (finishOplockBreak op level s)) = (opens s)(op := (opens s op)\<lparr>oplockLevel := level,
      oplockState := (if level = OPLOCK_LEVEL_NONE then OplockNone else OplockHeld), oplockBreak := None\<rparr>)"
    "closed (fst (finishOplockBreak op level s)) = insert c (closed s)"
    "panicked (fst (finishOplockBreak op level s)) = panicked s"
    using b c assms(2) by (simp_all add: finishOplockBreak_def Let_def close_chan_open)
qed

lemma finishOplockBreak_idle:
  assumes "oplocks_ok s" "oplockBreak (opens s op) = None"
  shows "finishOplockBreak op level s = (s, False)"
  using assms oplocks_okD(2)[of s op] by (auto simp: finishOplockBreak_def oplock_ok_def)

lemma finishOplockBreak_simps [simp]:
  "nextChannel (fst (finishOplockBreak op level s)) = nextChannel s"
  "leases (fst (finishOplockBreak op level s)) = leases s"
  "opensByFile (fst (finishOplockBreak op level s)) = opensByFile s"
  by (simp_all add: finishOplockBreak_def Let_def)

lemma in_flight_leases_same:
  "leases t = leases s \<Longrightarrow> opens t = (opens s)(op := o') \<Longrightarrow>
     in_flight t x = (if x = Inl op then oplockBreak o' else in_flight s x)"
  by (cases x) simp_all

lemma finishOplockBreak_ok:
  assumes "oplocks_ok s"
  shows "oplocks_ok (fst (finishOplockBreak op level s))"
proof (cases "oplockBreak (opens s op)")
  case None
  then show ?thesis using assms by (simp add: finishOplockBreak_idle)
next
  case (Some c)
  note fin = finishOplockBreak_flying[OF assms Some, of level]
  have "chans_ok (fst (finishOplockBreak op level s))"
    by (rule chans_ok_closed[OF oplocks_okD(1)[OF assms], where x = "Inl op" and c = c])
       (simp_all add: Some fin in_flight_leases_same[OF _ fin(2)])
  moreover have "oplock_ok (opens (fst (finishOplockBreak op level s)) x)" for x
    using oplocks_okD(2)[OF assms, of x] by (auto simp: fin oplock_ok_def)
  ultimately show ?thesis by (simp add: oplocks_ok_def)
qed

interpretation ob: break_protocol "\<lambda>s. oplockBreak (opens s op)" "\<lambda>s. oplockBreakSeq (opens s op)"
  closed oplocks_ok "\<lambda>sharedOK. startOplockBreak op (oplockBreakTarget sharedOK)"
  "completeOplockBreak op" "expireOplockBreak op" for op
proof (unfold_locales, goal_cases)
  case (1 s t)
  then show ?case by (intro startOplockBreak_ok) (simp_all add: oplockBreakTarget_def oplock_level_defs)
next
  case (2 s v)
  then show ?case by (simp add: completeOplockBreak_def finishOplockBreak_ok)
next
  case (3 s t s' c new)
  have "nextChannel s \<notin> closed s" using oplocks_okD(1)[OF 3(1)] by (auto simp: chans_ok_def)
  from 3(1) show ?case
    by (cases rule: startOplockBreak_cases[where op = op and to = "oplockBreakTarget t"])
       (use 3 \<open>nextChannel s \<notin> closed s\<close> in auto)
next
  case (4 s t s' new)
  from 4(1) show ?case
    by (cases rule: startOplockBreak_cases[where op = op and to = "oplockBreakTarget t"]) (use 4 in auto)
next
  case (5 s c t s' c' new)
  from 5(1) show ?case
    by (cases rule: startOplockBreak_cases[where op = op and to = "oplockBreakTarget t"]) (use 5 in auto)
next
  case (6 s v)
  then show ?case by (simp add: completeOplockBreak_def finishOplockBreak_idle)
next
  case (7 s c v s' r)
  then show ?case using finishOplockBreak_flying[OF 7(1,2), of v] by (simp add: completeOplockBreak_def)
next
  case (8 q v s)
  then show ?case by (simp add: expireOplockBreak_def completeOplockBreak_def)
next
  case (9 s c)
  then show ?case using oplocks_okD(1)[OF 9(1)] unfolding chans_ok_def by (metis in_flight.simps(1))
qed

lemma oplockBreak_None_idem: "oplockBreak o' = None \<Longrightarrow> o'\<lparr>oplockBreak := None\<rparr> = o'"
  by (cases o') simp

lemma releaseOplock_ok:
  assumes "oplocks_ok s"
  shows "oplocks_ok (releaseOplock op s)"
proof -
  let ?o = "(opens s op)\<lparr>oplockLevel := OPLOCK_LEVEL_NONE, oplockState := OplockNone, oplockBreak := None\<rparr>"
  have o: "opens (releaseOplock op s) = (opens s)(op := ?o)"
    by (cases "oplockBreak (opens s op)") (simp_all add: releaseOplock_def Let_def oplockBreak_None_idem)
  have l: "leases (releaseOplock op s) = leases s" "nextChannel (releaseOplock op s) = nextChannel s"
    by (cases "oplockBreak (opens s op)"; simp add: releaseOplock_def Let_def)+
  have "chans_ok (releaseOplock op s)"
  proof (cases "oplockBreak (opens s op)")
    case None
    show ?thesis
      by (rule chans_ok_same[OF oplocks_okD(1)[OF assms]])
         (simp_all add: None l in_flight_leases_same[OF l(1) o], simp_all add: None releaseOplock_def)
  next
    case (Some c)
    have c: "c \<notin> closed s"
      using oplocks_okD(1)[OF assms] Some unfolding chans_ok_def by (metis in_flight.simps(1))
    show ?thesis
      by (rule chans_ok_closed[OF oplocks_okD(1)[OF assms], where x = "Inl op" and c = c])
         (simp_all add: Some l in_flight_leases_same[OF l(1) o],
          simp_all add: Some c releaseOplock_def Let_def close_chan_open)
  qed
  moreover have "oplock_ok (opens (releaseOplock op s) x)" for x
    using oplocks_okD(2)[OF assms, of x] by (auto simp: o oplock_ok_def)
  ultimately show ?thesis by (simp add: oplocks_ok_def)
qed

text \<open>What a client may be left with: never more than the break in flight was to leave it.\<close>

lemma acknowledged_level:
  assumes "oplocks_ok s" "acknowledgeOplockBreak op level s = (t, STATUS_OK, kept)"
  shows "oplockState (opens s op) = OplockBreaking" "kept = level" "level \<le> oplockBreakTo (opens s op)"
    "t = fst (completeOplockBreak op level s)" "level \<le> OPLOCK_LEVEL_II"
proof -
  show *: "oplockState (opens s op) = OplockBreaking" "kept = level" "level \<le> oplockBreakTo (opens s op)"
    "t = fst (completeOplockBreak op level s)"
    using assms(2) by (auto simp: acknowledgeOplockBreak_def Let_def status_defs oplock_status_defs split: if_splits)
  show "level \<le> OPLOCK_LEVEL_II"
    using * oplocks_okD(2)[OF assms(1), of op] by (auto simp: oplock_ok_def)
qed

lemma acknowledgeOplockBreak_ok:
  "oplocks_ok s \<Longrightarrow> oplocks_ok (fst (acknowledgeOplockBreak op level s))"
  by (simp add: acknowledgeOplockBreak_def Let_def completeOplockBreak_def finishOplockBreak_ok)

lemma startBreaks_Cons:
  "fst (startBreaks (op # ops) to s) = fst (startBreaks ops to (fst (startOplockBreak op to s)))"
  by (auto simp: Let_def split: prod.splits option.splits)

lemma startBreaks_ok:
  "oplocks_ok s \<Longrightarrow> to \<le> OPLOCK_LEVEL_II \<Longrightarrow> oplocks_ok (fst (startBreaks ops to s))"
proof (induction ops arbitrary: s)
  case (Cons op ops)
  then show ?case by (simp only: startBreaks_Cons startOplockBreak_ok)
qed simp

text \<open>Starting a break changes neither the level of an oplock nor whether anything is held.\<close>

definition same_promise :: "openRec \<Rightarrow> openRec \<Rightarrow> bool" where
  "same_promise a b \<longleftrightarrow> oplockLevel a = oplockLevel b \<and>
     (oplockState a = OplockNone \<longleftrightarrow> oplockState b = OplockNone) \<and> op_lease a = op_lease b \<and>
     clientGuid a = clientGuid b \<and> fileKeyLocked a = fileKeyLocked b \<and> durableFileID a = durableFileID b"

lemma same_promise_refl [simp]: "same_promise o' o'"
  by (simp add: same_promise_def)

lemma same_promise_trans: "same_promise a b \<Longrightarrow> same_promise b c \<Longrightarrow> same_promise a c"
  by (simp add: same_promise_def)

lemma startOplockBreak_promise:
  "same_promise (opens s x) (opens (fst (startOplockBreak op to s)) x)"
  "leases (fst (startOplockBreak op to s)) = leases s"
  "opensByFile (fst (startOplockBreak op to s)) = opensByFile s"
  by (simp_all add: startOplockBreak_def make_chan_def same_promise_def fileKeyLocked_def
      split: oplockStatus.splits)

lemma startBreaks_promise:
  "(\<forall>x. same_promise (opens s x) (opens (fst (startBreaks ops to s)) x)) \<and>
   leases (fst (startBreaks ops to s)) = leases s \<and>
   opensByFile (fst (startBreaks ops to s)) = opensByFile s"
proof (induction ops arbitrary: s)
  case (Cons op ops)
  let ?t = "fst (startOplockBreak op to s)"
  show ?case
    unfolding startBreaks_Cons
    using Cons[of ?t] startOplockBreak_promise[where s = s and op = op and to = to]
    by (metis same_promise_trans)
qed simp

end
