(* ===== verification/Leases.thy ===== *)
theory Leases
  imports Oplocks
begin

section \<open>Leases\<close>

text \<open>
  \<^verbatim>\<open>src/lease.go\<close>: the lease table of a client, joining and leaving a lease, and the break of a lease. As
  with an oplock, delivery is an argument and a timer is a returned value. The granting of a lease, which
  looks at every other open on the file, is in the theory of the caching promises.
\<close>

definition leaseStates :: u32 where
  "leaseStates = SMB2_LEASE_READ_CACHING OR SMB2_LEASE_HANDLE_CACHING OR SMB2_LEASE_WRITE_CACHING"

definition leaseGrantable :: "u32 \<Rightarrow> bool" where
  "leaseGrantable requested = (requested AND leaseStates \<noteq> 0)"

definition leaseBreakTarget :: "u32 \<Rightarrow> bool \<Rightarrow> u32" where
  "leaseBreakTarget current sharedOK =
     (if sharedOK then current AND NOT SMB2_LEASE_WRITE_CACHING else SMB2_LEASE_NONE)"

definition findLease :: "guid \<Rightarrow> guid \<Rightarrow> server \<Rightarrow> lid option" where
  "findLease g key s = leaseTables s g key"

text \<open>A key the client has not used yet makes a lease; the identifier of a new lease is the next one.\<close>

definition new_lease :: "guid \<Rightarrow> guid \<Rightarrow> string \<Rightarrow> leaseRec" where
  "new_lease g key path = \<lparr>leaseKey = key, ls_clientGuid = g, ls_fileName = path, ls_state = 0,
     breakToState = 0, breaking = False, epoch = 1, fileDeleteOnClose = False, ls_opens = [],
     breakDone = None, breakSeq = 0\<rparr>"

definition set_table :: "guid \<Rightarrow> guid \<Rightarrow> lid option \<Rightarrow> server \<Rightarrow> server" where
  "set_table g key v s = s\<lparr>leaseTables := (leaseTables s)(g := (leaseTables s g)(key := v))\<rparr>"

definition leaseFor :: "guid \<Rightarrow> guid \<Rightarrow> string \<Rightarrow> server \<Rightarrow> server \<times> lid \<times> bool" where
  "leaseFor g key path s =
     (case leaseTables s g key of
        Some l \<Rightarrow>
          (let s1 = (if ls_fileName (leases s l) \<noteq> path \<and> fileDeleteOnClose (leases s l)
                     then upd_lease l (\<lambda>r. r\<lparr>ls_fileName := path, fileDeleteOnClose := False\<rparr>) s
                     else s)
           in (s1, l, ls_fileName (leases s1 l) = path))
      | None \<Rightarrow>
          (let l = nextLease s;
               s1 = upd_lease l (\<lambda>_. new_lease g key path) (s\<lparr>nextLease := Suc l\<rparr>)
           in (set_table g key (Some l) s1, l, True)))"

definition join :: "lid \<Rightarrow> oid \<Rightarrow> u32 \<Rightarrow> server \<Rightarrow> server" where
  "join l op state s =
     (let g = ls_clientGuid (leases s l); key = leaseKey (leases s l);
          s1 = (if leaseTables s g key = None then set_table g key (Some l) s else s);
          s2 = upd_lease l (\<lambda>r. r\<lparr>ls_state := state,
                 ls_opens := AList.update (durableFileID (opens s op)) op (ls_opens r)\<rparr>) s1
      in upd_open op (\<lambda>o'. o'\<lparr>op_lease := Some l\<rparr>) s2)"

definition leaveLease :: "oid \<Rightarrow> server \<Rightarrow> server" where
  "leaveLease op s =
     (let s0 = upd_open op (\<lambda>o'. o'\<lparr>op_lease := None\<rparr>) s
      in case op_lease (opens s op) of
           None \<Rightarrow> s0
         | Some l \<Rightarrow>
             (let s1 = upd_lease l (\<lambda>r. r\<lparr>ls_opens := AList.delete (durableFileID (opens s op)) (ls_opens r)\<rparr>) s0
              in if ls_opens (leases s1 l) \<noteq> [] then s1
                 else let s2 = upd_lease l (\<lambda>r. r\<lparr>ls_state := SMB2_LEASE_NONE\<rparr>) s1;
                          s3 = (if breaking (leases s2 l)
                                then upd_lease l (\<lambda>r. r\<lparr>breaking := False, breakDone := None\<rparr>)
                                       (close_chan (breakDone (leases s2 l)) s2)
                                else s2);
                          g = ls_clientGuid (leases s3 l); key = leaseKey (leases s3 l)
                      in if leaseTables s3 g key = Some l then set_table g key None s3 else s3))"

definition setLeaseDeleteOnClose :: "oid \<Rightarrow> bool \<Rightarrow> server \<Rightarrow> server" where
  "setLeaseDeleteOnClose op pending s =
     (case op_lease (opens s op) of
        None \<Rightarrow> s
      | Some l \<Rightarrow> upd_lease l (\<lambda>r. r\<lparr>fileDeleteOnClose := pending\<rparr>) s)"

definition renameLease :: "oid \<Rightarrow> string \<Rightarrow> server \<Rightarrow> server" where
  "renameLease op path s =
     (case op_lease (opens s op) of
        None \<Rightarrow> s
      | Some l \<Rightarrow> upd_lease l (\<lambda>r. r\<lparr>ls_fileName := path, fileDeleteOnClose := False\<rparr>) s)"

definition releaseCaching :: "oid \<Rightarrow> server \<Rightarrow> server" where
  "releaseCaching op s = leaveLease op (releaseOplock op s)"

subsection \<open>The break of a lease\<close>

definition startBreak :: "lid \<Rightarrow> u32 \<Rightarrow> server \<Rightarrow> server \<times> chan option \<times> bool" where
  "startBreak l to s =
     (let r = leases s l
      in if ls_state r = SMB2_LEASE_NONE \<or> ls_state r AND NOT to = 0 then (s, None, False)
         else if breaking r then
           (if breakToState r AND NOT to = 0 then (s, breakDone r, False)
            else (upd_lease l (\<lambda>r. r\<lparr>breakToState := breakToState r AND to, epoch := epoch r + 1\<rparr>) s,
                  breakDone r, True))
         else let (s1, c) = make_chan s
              in (upd_lease l (\<lambda>r. r\<lparr>breaking := True, breakToState := to, epoch := epoch r + 1,
                    breakSeq := breakSeq r + 1, breakDone := Some c\<rparr>) s1, Some c, True))"

definition finishBreak :: "lid \<Rightarrow> u32 \<Rightarrow> server \<Rightarrow> server \<times> bool" where
  "finishBreak l state s =
     (if \<not> breaking (leases s l) then (s, False)
      else let s1 = upd_lease l (\<lambda>r. r\<lparr>ls_state := state, breaking := False\<rparr>) s;
               s2 = close_chan (breakDone (leases s l)) s1
           in (upd_lease l (\<lambda>r. r\<lparr>breakDone := None\<rparr>) s2, True))"

definition completeBreak :: "lid \<Rightarrow> u32 \<Rightarrow> server \<Rightarrow> server \<times> bool" where
  "completeBreak l state s = finishBreak l state s"

definition expireBreak :: "lid \<Rightarrow> u64 \<Rightarrow> u32 \<Rightarrow> server \<Rightarrow> server \<times> bool" where
  "expireBreak l seq state s =
     (if breakSeq (leases s l) \<noteq> seq then (s, False) else finishBreak l state s)"

definition sendLeaseBreak_done ::
  "lid \<Rightarrow> u32 \<Rightarrow> u32 \<Rightarrow> u64 \<Rightarrow> bool \<Rightarrow> server \<Rightarrow> server \<times> (lid \<times> u64) option" where
  "sendLeaseBreak_done l current to seq sent s =
     (if \<not> sent then (fst (completeBreak l SMB2_LEASE_NONE s), None)
      else if \<not> (current \<noteq> SMB2_LEASE_READ_CACHING) then (fst (completeBreak l to s), None)
      else (s, Some (l, seq)))"

definition sendLeaseBreak :: "lid \<Rightarrow> bool \<Rightarrow> server \<Rightarrow> server \<times> (lid \<times> u64) option" where
  "sendLeaseBreak l sent s =
     sendLeaseBreak_done l (ls_state (leases s l)) (breakToState (leases s l)) (breakSeq (leases s l)) sent s"

fun startLeaseBreaks :: "lid list \<Rightarrow> bool \<Rightarrow> server \<Rightarrow> server \<times> chan list \<times> lid list" where
  "startLeaseBreaks [] sharedOK s = (s, [], [])"
| "startLeaseBreaks (l # ls) sharedOK s =
     (let (s1, ch, started) = startBreak l (leaseBreakTarget (ls_state (leases s l)) sharedOK) s;
          (s2, waits, notify) = startLeaseBreaks ls sharedOK s1
      in case ch of
           None \<Rightarrow> (s2, waits, notify)
         | Some c \<Rightarrow> (s2, c # waits, if started then l # notify else notify))"

definition acknowledgeLeaseBreak :: "guid \<Rightarrow> guid \<Rightarrow> u32 \<Rightarrow> server \<Rightarrow> server \<times> u32 \<times> u32" where
  "acknowledgeLeaseBreak g key state s =
     (case findLease g key s of
        None \<Rightarrow> (s, STATUS_OBJECT_NAME_NOT_FOUND, SMB2_LEASE_NONE)
      | Some l \<Rightarrow>
          (let isBreaking = breaking (leases s l); to = breakToState (leases s l);
               s1 = fold clearReplayEligible (map snd (ls_opens (leases s l))) s
           in if \<not> isBreaking then (s1, STATUS_UNSUCCESSFUL, SMB2_LEASE_NONE)
              else if state AND NOT to \<noteq> 0 then (s1, STATUS_REQUEST_NOT_ACCEPTED, SMB2_LEASE_NONE)
              else (fst (completeBreak l state s1), STATUS_OK, state)))"

text \<open>Whether a create asks for a lease; \<open>parsed\<close> is what \<^verbatim>\<open>ParseLeaseRequest\<close> made of its context.\<close>

definition leaseRequest :: "bool \<Rightarrow> u8 \<Rightarrow> nat \<Rightarrow> 'lr option option \<Rightarrow> 'lr option" where
  "leaseRequest offersLeasing requestedLevel guidLen parsed =
     (if \<not> offersLeasing then None
      else if requestedLevel \<noteq> OPLOCK_LEVEL_LEASE \<or> guidLen \<noteq> 16 then None
      else case parsed of None \<Rightarrow> None | Some lr \<Rightarrow> lr)"

subsection \<open>The invariant\<close>

text \<open>
  A lease is being broken exactly while a channel is there to wait on, it still promises something then,
  and what the break is to leave it never includes the write cache.
\<close>

definition lease_ok :: "leaseRec \<Rightarrow> bool" where
  "lease_ok r \<longleftrightarrow> (breaking r \<longleftrightarrow> breakDone r \<noteq> None) \<and>
     breakToState r AND SMB2_LEASE_WRITE_CACHING = 0 \<and>
     (breaking r \<longrightarrow> ls_state r \<noteq> SMB2_LEASE_NONE)"

definition leases_ok :: "server \<Rightarrow> bool" where
  "leases_ok s \<longleftrightarrow> chans_ok s \<and> (\<forall>l. lease_ok (leases s l))"

lemma leases_okD: "leases_ok s \<Longrightarrow> chans_ok s" "leases_ok s \<Longrightarrow> lease_ok (leases s l)"
  by (simp_all add: leases_ok_def)

lemma in_flight_opens_same:
  "opens t = opens s \<Longrightarrow> leases t = (leases s)(l := r) \<Longrightarrow>
     in_flight t x = (if x = Inr l then breakDone r else in_flight s x)"
  by (cases x) simp_all

lemma leaseBreakTarget_no_write: "leaseBreakTarget current sharedOK AND SMB2_LEASE_WRITE_CACHING = 0"
  by (simp add: leaseBreakTarget_def lease_state_defs and.assoc)

lemma and_no_write:
  fixes a b w :: "'a :: len word"
  shows "b AND w = 0 \<Longrightarrow> (a AND b) AND w = 0"
  by (simp add: and.assoc)

lemma startBreak_cases:
  assumes "leases_ok s"
  obtains (idles) "startBreak l to s = (s, None, False)"
      "ls_state (leases s l) = SMB2_LEASE_NONE \<or> ls_state (leases s l) AND NOT to = 0"
  | (starts) "\<not> breaking (leases s l)" "breakDone (leases s l) = None" "ls_state (leases s l) \<noteq> SMB2_LEASE_NONE"
      "startBreak l to s = (upd_lease l (\<lambda>r. r\<lparr>breaking := True, breakToState := to,
         epoch := epoch r + 1, breakSeq := breakSeq r + 1, breakDone := Some (nextChannel s)\<rparr>)
         (s\<lparr>nextChannel := Suc (nextChannel s)\<rparr>), Some (nextChannel s), True)"
  | (waits) c where "breaking (leases s l)" "breakDone (leases s l) = Some c"
      "startBreak l to s = (s, Some c, False)"
  | (deepens) c where "breaking (leases s l)" "breakDone (leases s l) = Some c"
      "startBreak l to s = (upd_lease l (\<lambda>r. r\<lparr>breakToState := breakToState r AND to,
         epoch := epoch r + 1\<rparr>) s, Some c, True)"
proof -
  note ok = leases_okD(2)[OF assms, of l, unfolded lease_ok_def]
  consider (n) "ls_state (leases s l) = SMB2_LEASE_NONE \<or> ls_state (leases s l) AND NOT to = 0"
    | (b) "\<not> (ls_state (leases s l) = SMB2_LEASE_NONE \<or> ls_state (leases s l) AND NOT to = 0)"
        "breaking (leases s l)"
    | (i) "\<not> (ls_state (leases s l) = SMB2_LEASE_NONE \<or> ls_state (leases s l) AND NOT to = 0)"
        "\<not> breaking (leases s l)"
    by blast
  then show ?thesis
  proof cases
    case n
    then show ?thesis by - (rule idles, simp_all add: startBreak_def)
  next
    case b
    with ok obtain c where c: "breakDone (leases s l) = Some c" by auto
    show ?thesis
    proof (cases "breakToState (leases s l) AND NOT to = 0")
      case True
      with b c show ?thesis by - (rule waits, simp_all add: startBreak_def)
    next
      case False
      with b c show ?thesis by - (rule deepens, simp_all add: startBreak_def)
    qed
  next
    case i
    with ok show ?thesis by - (rule starts, simp_all add: startBreak_def make_chan_def)
  qed
qed

lemma startBreak_ok:
  assumes "leases_ok s" "to AND SMB2_LEASE_WRITE_CACHING = 0"
  shows "leases_ok (fst (startBreak l to s))"
  using assms(1)
proof (cases rule: startBreak_cases[where l = l and to = to])
  case starts
  let ?f = "\<lambda>r. r\<lparr>breaking := True, breakToState := to, epoch := epoch r + 1,
    breakSeq := breakSeq r + 1, breakDone := Some (nextChannel s)\<rparr>"
  let ?t = "upd_lease l ?f (s\<lparr>nextChannel := Suc (nextChannel s)\<rparr>)"
  have "in_flight ?t x = (if x = Inr l then Some (nextChannel s) else in_flight s x)" for x
    by (cases x) simp_all
  then have "chans_ok ?t" by (intro chans_ok_made[OF leases_okD(1)[OF assms(1)]]) simp_all
  moreover have "lease_ok (?f (leases s l))"
    using starts assms(2) leases_okD(2)[OF assms(1), of l] by (simp add: lease_ok_def)
  ultimately show ?thesis using starts assms(1) by (auto simp: leases_ok_def)
next
  case (deepens c)
  let ?f = "\<lambda>r. r\<lparr>breakToState := breakToState r AND to, epoch := epoch r + 1\<rparr>"
  have "in_flight (upd_lease l ?f s) x = in_flight s x" for x by (cases x) simp_all
  then have "chans_ok (upd_lease l ?f s)" by (intro chans_ok_same[OF leases_okD(1)[OF assms(1)]]) simp_all
  moreover have "lease_ok (?f (leases s l))"
    using deepens assms(2) leases_okD(2)[OF assms(1), of l] by (auto simp: lease_ok_def and_no_write)
  ultimately show ?thesis using deepens assms(1) by (auto simp: leases_ok_def)
qed (simp_all add: assms(1))

lemma finishBreak_flying:
  assumes "leases_ok s" "breakDone (leases s l) = Some c"
  shows "snd (finishBreak l state s)"
    and "leases (fst (finishBreak l state s)) =
      (leases s)(l := (leases s l)\<lparr>ls_state := state, breaking := False, breakDone := None\<rparr>)"
    and "closed (fst (finishBreak l state s)) = insert c (closed s)"
    and "panicked (fst (finishBreak l state s)) = panicked s"
proof -
  have b: "breaking (leases s l)" using assms leases_okD(2)[of s l] by (auto simp: lease_ok_def)
  have c: "c \<notin> closed s"
    using leases_okD(1)[OF assms(1)] assms(2) unfolding chans_ok_def by (metis in_flight.simps(2))
  show "snd (finishBreak l state s)"
    "leases (fst (finishBreak l state s)) =
      (leases s)(l := (leases s l)\<lparr>ls_state := state, breaking := False, breakDone := None\<rparr>)"
    "closed (fst (finishBreak l state s)) = insert c (closed s)"
    "panicked (fst (finishBreak l state s)) = panicked s"
    using b c assms(2) by (simp_all add: finishBreak_def Let_def close_chan_open)
qed

lemma finishBreak_idle:
  assumes "leases_ok s" "breakDone (leases s l) = None"
  shows "finishBreak l state s = (s, False)"
  using assms leases_okD(2)[of s l] by (auto simp: finishBreak_def lease_ok_def)

lemma finishBreak_simps [simp]:
  "nextChannel (fst (finishBreak l state s)) = nextChannel s"
  "opens (fst (finishBreak l state s)) = opens s"
  "opensByFile (fst (finishBreak l state s)) = opensByFile s"
  by (simp_all add: finishBreak_def Let_def)

lemma finishBreak_ok:
  assumes "leases_ok s"
  shows "leases_ok (fst (finishBreak l state s))"
proof (cases "breakDone (leases s l)")
  case None
  then show ?thesis using assms by (simp add: finishBreak_idle)
next
  case (Some c)
  note fin = finishBreak_flying[OF assms Some, of state]
  have "chans_ok (fst (finishBreak l state s))"
    by (rule chans_ok_closed[OF leases_okD(1)[OF assms], where x = "Inr l" and c = c])
       (simp_all add: Some fin in_flight_opens_same[OF _ fin(2)])
  moreover have "lease_ok (leases (fst (finishBreak l state s)) x)" for x
    using leases_okD(2)[OF assms, of x] by (auto simp: fin lease_ok_def)
  ultimately show ?thesis by (simp add: leases_ok_def)
qed

interpretation lb: break_protocol "\<lambda>s. breakDone (leases s l)" "\<lambda>s. breakSeq (leases s l)"
  closed leases_ok "\<lambda>sharedOK s. startBreak l (leaseBreakTarget (ls_state (leases s l)) sharedOK) s"
  "completeBreak l" "expireBreak l" for l
proof (unfold_locales, goal_cases)
  case (1 s t)
  then show ?case by (intro startBreak_ok leaseBreakTarget_no_write)
next
  case (2 s v)
  then show ?case by (simp add: completeBreak_def finishBreak_ok)
next
  case (3 s t s' c new)
  have "nextChannel s \<notin> closed s" using leases_okD(1)[OF 3(1)] by (auto simp: chans_ok_def)
  from 3(1) show ?case
    by (cases rule: startBreak_cases[where l = l and to = "leaseBreakTarget (ls_state (leases s l)) t"])
       (use 3 \<open>nextChannel s \<notin> closed s\<close> in auto)
next
  case (4 s t s' new)
  from 4(1) show ?case
    by (cases rule: startBreak_cases[where l = l and to = "leaseBreakTarget (ls_state (leases s l)) t"])
       (use 4 in auto)
next
  case (5 s c t s' c' new)
  from 5(1) show ?case
    by (cases rule: startBreak_cases[where l = l and to = "leaseBreakTarget (ls_state (leases s l)) t"])
       (use 5 in \<open>auto simp: leases_ok_def lease_ok_def\<close>)
next
  case (6 s v)
  then show ?case by (simp add: completeBreak_def finishBreak_idle)
next
  case (7 s c v s' r)
  then show ?case
    using finishBreak_flying[OF 7(1,2), of v] by (simp add: completeBreak_def)
next
  case (8 q v s)
  then show ?case by (simp add: expireBreak_def completeBreak_def)
next
  case (9 s c)
  then show ?case using leases_okD(1)[OF 9(1)] unfolding chans_ok_def by (metis in_flight.simps(2))
qed

lemma leases_ok_same: "leases_ok s \<Longrightarrow> leases t = leases s \<Longrightarrow> chans_ok t \<Longrightarrow> leases_ok t"
  by (simp add: leases_ok_def)

lemma oplocks_ok_same: "oplocks_ok s \<Longrightarrow> (\<And>x. oplock_ok (opens t x) = oplock_ok (opens s x)) \<Longrightarrow>
    chans_ok t \<Longrightarrow> oplocks_ok t"
  by (simp add: oplocks_ok_def)

subsection \<open>Joining and leaving\<close>

lemma set_table_simps [simp]:
  "opens (set_table g k v s) = opens s" "leases (set_table g k v s) = leases s"
  "opensByFile (set_table g k v s) = opensByFile s" "closed (set_table g k v s) = closed s"
  "nextChannel (set_table g k v s) = nextChannel s" "panicked (set_table g k v s) = panicked s"
  "nextLease (set_table g k v s) = nextLease s" "replayableOpens (set_table g k v s) = replayableOpens s"
  by (simp_all add: set_table_def)

lemma join_simps [simp]:
  "opens (join l op st s) = (opens s)(op := (opens s op)\<lparr>op_lease := Some l\<rparr>)"
  "leases (join l op st s) = (leases s)(l := (leases s l)\<lparr>ls_state := st,
     ls_opens := AList.update (durableFileID (opens s op)) op (ls_opens (leases s l))\<rparr>)"
  "opensByFile (join l op st s) = opensByFile s" "closed (join l op st s) = closed s"
  "nextChannel (join l op st s) = nextChannel s" "panicked (join l op st s) = panicked s"
  "nextLease (join l op st s) = nextLease s"
  by (simp_all add: join_def Let_def)

lemma join_ok:
  assumes "oplocks_ok s" "leases_ok s" "st \<noteq> SMB2_LEASE_NONE"
  shows "oplocks_ok (join l op st s)" "leases_ok (join l op st s)"
proof -
  have "in_flight (join l op st s) x = in_flight s x" for x by (cases x) simp_all
  then have "chans_ok (join l op st s)" by (intro chans_ok_same[OF oplocks_okD(1)[OF assms(1)]]) simp_all
  with assms show "oplocks_ok (join l op st s)" "leases_ok (join l op st s)"
    by (auto simp: oplocks_ok_def leases_ok_def oplock_ok_def lease_ok_def)
qed

text \<open>What leaving a lease comes to: the open has none, and the lease keeps its state or loses it.\<close>

lemma leaveLease_opens [simp]:
  "opens (leaveLease op s) = (opens s)(op := (opens s op)\<lparr>op_lease := None\<rparr>)"
  "opensByFile (leaveLease op s) = opensByFile s"
  "nextChannel (leaveLease op s) = nextChannel s"
  "nextLease (leaveLease op s) = nextLease s"
  by (simp_all add: leaveLease_def Let_def split: option.split)

lemma leaveLease_last:
  assumes "op_lease (opens s op) = Some l" "AList.delete (durableFileID (opens s op)) (ls_opens (leases s l)) = []"
  shows "leases (leaveLease op s) = (leases s)(l := (leases s l)\<lparr>ls_opens := [], ls_state := SMB2_LEASE_NONE,
      breaking := False, breakDone := (if breaking (leases s l) then None else breakDone (leases s l))\<rparr>)"
    and "breaking (leases s l) \<Longrightarrow> breakDone (leases s l) = Some c \<Longrightarrow> c \<notin> closed s \<Longrightarrow>
      closed (leaveLease op s) = insert c (closed s) \<and> panicked (leaveLease op s) = panicked s"
    and "\<not> breaking (leases s l) \<Longrightarrow>
      closed (leaveLease op s) = closed s \<and> panicked (leaveLease op s) = panicked s"
proof -
  have upd: "\<not> breaking r \<Longrightarrow> r\<lparr>breaking := False, breakDone := breakDone r\<rparr> = r" for r
    by (cases r) simp
  show "leases (leaveLease op s) = (leases s)(l := (leases s l)\<lparr>ls_opens := [], ls_state := SMB2_LEASE_NONE,
      breaking := False, breakDone := (if breaking (leases s l) then None else breakDone (leases s l))\<rparr>)"
    using assms by (cases "leases s l") (simp add: leaveLease_def Let_def)
  show "breaking (leases s l) \<Longrightarrow> breakDone (leases s l) = Some c \<Longrightarrow> c \<notin> closed s \<Longrightarrow>
      closed (leaveLease op s) = insert c (closed s) \<and> panicked (leaveLease op s) = panicked s"
    using assms by (simp add: leaveLease_def Let_def close_chan_open)
  show "\<not> breaking (leases s l) \<Longrightarrow>
      closed (leaveLease op s) = closed s \<and> panicked (leaveLease op s) = panicked s"
    using assms by (simp add: leaveLease_def Let_def)
qed

lemma leaveLease_others:
  assumes "op_lease (opens s op) = Some l" "AList.delete (durableFileID (opens s op)) (ls_opens (leases s l)) \<noteq> []"
  shows "leases (leaveLease op s) = (leases s)(l := (leases s l)\<lparr>ls_opens :=
      AList.delete (durableFileID (opens s op)) (ls_opens (leases s l))\<rparr>)"
    "closed (leaveLease op s) = closed s" "panicked (leaveLease op s) = panicked s"
  using assms by (simp_all add: leaveLease_def Let_def)

lemma leaveLease_none:
  assumes "op_lease (opens s op) = None"
  shows "leases (leaveLease op s) = leases s" "closed (leaveLease op s) = closed s"
    "panicked (leaveLease op s) = panicked s"
  using assms by (simp_all add: leaveLease_def Let_def)

lemma leaveLease_ok:
  assumes "oplocks_ok s" "leases_ok s"
  shows "oplocks_ok (leaveLease op s) \<and> leases_ok (leaveLease op s)"
proof -
  have "chans_ok (leaveLease op s) \<and> (\<forall>l. lease_ok (leases (leaveLease op s) l))"
  proof (cases "op_lease (opens s op)")
    case None
    have "in_flight (leaveLease op s) x = in_flight s x" for x by (cases x) (simp_all add: leaveLease_none[OF None])
    then show ?thesis
      using assms(2) by (auto simp: leases_ok_def leaveLease_none[OF None] intro: chans_ok_same)
  next
    case (Some l)
    note ok = leases_okD(2)[OF assms(2), of l, unfolded lease_ok_def]
    consider (others) "AList.delete (durableFileID (opens s op)) (ls_opens (leases s l)) \<noteq> []"
      | (idle) "AList.delete (durableFileID (opens s op)) (ls_opens (leases s l)) = []" "\<not> breaking (leases s l)"
      | (busy) c where "AList.delete (durableFileID (opens s op)) (ls_opens (leases s l)) = []"
          "breaking (leases s l)" "breakDone (leases s l) = Some c"
      using ok by blast
    then show ?thesis
    proof cases
      case others
      have "in_flight (leaveLease op s) x = in_flight s x" for x
        by (cases x) (simp_all add: leaveLease_others[OF Some others])
      then have "chans_ok (leaveLease op s)"
        by (intro chans_ok_same[OF leases_okD(1)[OF assms(2)]]) (simp_all add: leaveLease_others[OF Some others])
      then show ?thesis using assms(2) by (auto simp: leaveLease_others[OF Some others] leases_ok_def lease_ok_def)
    next
      case idle
      note eqs = leaveLease_last(1)[OF Some idle(1)] leaveLease_last(3)[OF Some idle]
      have "in_flight (leaveLease op s) x = in_flight s x" for x by (cases x) (simp_all add: eqs idle)
      then have "chans_ok (leaveLease op s)"
        by (intro chans_ok_same[OF leases_okD(1)[OF assms(2)]]) (simp_all add: eqs)
      then show ?thesis using assms(2) idle by (auto simp: eqs leases_ok_def lease_ok_def)
    next
      case busy
      have c: "c \<notin> closed s" "in_flight s (Inr l) = Some c"
        using leases_okD(1)[OF assms(2)] busy(3) unfolding chans_ok_def by (metis in_flight.simps(2), simp)
      note eqs = leaveLease_last(1)[OF Some busy(1)] leaveLease_last(2)[OF Some busy c(1)]
      have "in_flight (leaveLease op s) x = (if x = Inr l then None else in_flight s x)" for x
        by (cases x) (simp_all add: eqs busy)
      then have "chans_ok (leaveLease op s)"
        by (intro chans_ok_closed[OF leases_okD(1)[OF assms(2)] c(2)]) (simp_all add: eqs)
      then show ?thesis using assms(2) busy by (auto simp: eqs leases_ok_def lease_ok_def)
    qed
  qed
  then show ?thesis using assms(1) by (auto simp: oplocks_ok_def leases_ok_def oplock_ok_def)
qed

end
