(* ===== verification/Caching.thy ===== *)
theory Caching
  imports Leases
begin

section \<open>Caching promises\<close>

text \<open>
  What a client may cache, decided over all the opens on a file (the second half of \<^verbatim>\<open>src/oplock.go\<close>, and
  \<^verbatim>\<open>grantLease\<close> of \<^verbatim>\<open>src/lease.go\<close>). The operations that run under \<^verbatim>\<open>cachingMu\<close> are one function each. The
  main theorem is coherence: while one client may write to a file out of its cache, nobody else is
  promised anything about that file.
\<close>

subsection \<open>Operations\<close>

record asker =
  as_guid :: guid
  as_own :: "lid option"
  as_keyed :: bool

definition covers :: "server \<Rightarrow> asker \<Rightarrow> lid \<Rightarrow> bool" where
  "covers s by l =
     (if Some l = as_own by then True
      else if as_keyed by \<or> as_guid by = 0 then False
      else ls_clientGuid (leases s l) = as_guid by)"

definition sameCacheView :: "server \<Rightarrow> oid \<Rightarrow> guid \<Rightarrow> bool" where
  "sameCacheView s op g = (if g = 0 then False else clientGuid (opens s op) = g)"

fun holdersIn_loop :: "server \<Rightarrow> asker \<Rightarrow> lid set \<Rightarrow> oid list \<Rightarrow> oid list \<times> lid list" where
  "holdersIn_loop s by seen [] = ([], [])"
| "holdersIn_loop s by seen (op # ops) =
     (case op_lease (opens s op) of
        Some l \<Rightarrow>
          (if covers s by l \<or> l \<in> seen then holdersIn_loop s by seen ops
           else if ls_state (leases s l) \<noteq> SMB2_LEASE_NONE \<or> breaking (leases s l)
           then let (oplocks, ls) = holdersIn_loop s by (insert l seen) ops in (oplocks, l # ls)
           else holdersIn_loop s by seen ops)
      | None \<Rightarrow>
          (if oplockState (opens s op) \<noteq> OplockNone \<and> \<not> sameCacheView s op (as_guid by)
           then let (oplocks, ls) = holdersIn_loop s by seen ops in (op # oplocks, ls)
           else holdersIn_loop s by seen ops))"

definition holdersIn :: "server \<Rightarrow> oid list \<Rightarrow> asker \<Rightarrow> oid list \<times> lid list" where
  "holdersIn s ops by = holdersIn_loop s by {} ops"

definition holdersOn :: "server \<Rightarrow> sid \<Rightarrow> string \<Rightarrow> oid option \<Rightarrow> asker \<Rightarrow> oid list \<times> lid list" where
  "holdersOn s sh path except by = holdersIn s (opensOn sh path except s) by"

definition opensOutside :: "server \<Rightarrow> oid list \<Rightarrow> lid option \<Rightarrow> oid list" where
  "opensOutside s ops own = filter (\<lambda>op. \<not> (own \<noteq> None \<and> op_lease (opens s op) = own)) ops"

definition exclusiveHeld :: "server \<Rightarrow> oid list \<Rightarrow> lid list \<Rightarrow> bool" where
  "exclusiveHeld s oplocks ls \<longleftrightarrow>
     (\<exists>op \<in> set oplocks. oplockLevel (opens s op) > OPLOCK_LEVEL_II \<or> oplockState (opens s op) = OplockBreaking) \<or>
     (\<exists>l \<in> set ls. ls_state (leases s l) AND SMB2_LEASE_WRITE_CACHING > 0 \<or> breaking (leases s l))"

definition startHolderBreaks ::
  "sid \<Rightarrow> string \<Rightarrow> oid option \<Rightarrow> asker \<Rightarrow> bool \<Rightarrow> server \<Rightarrow> server \<times> chan list \<times> oid list \<times> lid list" where
  "startHolderBreaks sh path except by sharedOK s =
     (let (oplocks, ls) = holdersOn s sh path except by;
          (s1, waits, notify) = startBreaks oplocks (oplockBreakTarget sharedOK) s;
          (s2, leaseWaits, leaseNotify) = startLeaseBreaks ls sharedOK s1
      in (s2, waits @ leaseWaits, notify, leaseNotify))"

definition needsBreakWait :: "sid \<Rightarrow> string \<Rightarrow> oid option \<Rightarrow> asker \<Rightarrow> bool \<Rightarrow> server \<Rightarrow> bool" where
  "needsBreakWait sh path except by sharedOK s =
     (let (oplocks, ls) = holdersOn s sh path except by; to = oplockBreakTarget sharedOK
      in (\<exists>op \<in> set oplocks. oplockLevel (opens s op) > OPLOCK_LEVEL_II \<and> to < oplockLevel (opens s op)) \<or>
         (\<exists>l \<in> set ls. ls_state (leases s l) \<noteq> SMB2_LEASE_READ_CACHING \<and>
            ls_state (leases s l) AND NOT (leaseBreakTarget (ls_state (leases s l)) sharedOK) \<noteq> 0))"

definition hasHoldersOn :: "sid \<Rightarrow> string \<Rightarrow> oid option \<Rightarrow> asker \<Rightarrow> server \<Rightarrow> bool" where
  "hasHoldersOn sh path except by s =
     (let (oplocks, ls) = holdersOn s sh path except by in oplocks \<noteq> [] \<or> ls \<noteq> [])"

text \<open>
  The state a write, a truncation, a rename or a delete leaves behind, and the notifications it owes. The
  goroutine that sends them is the sending of each.
\<close>

definition breakForChange :: "oid \<Rightarrow> server \<Rightarrow> server \<times> oid list \<times> lid list" where
  "breakForChange op s =
     (case op_share (opens s op) of
        None \<Rightarrow> (s\<lparr>panicked := True\<rparr>, [], [])
      | Some sh \<Rightarrow>
          (let (s1, waits, notify, leaseNotify) =
                 startHolderBreaks sh (pathName (opens s op)) (Some op)
                   \<lparr>as_guid = 0, as_own = op_lease (opens s op), as_keyed = False\<rparr> False s
           in (s1, notify, leaseNotify)))"

definition grantOplock ::
  "oid \<Rightarrow> u8 \<Rightarrow> sid \<Rightarrow> string \<Rightarrow> server \<Rightarrow> server \<times> u8 \<times> oid list \<times> lid list" where
  "grantOplock op requested sh path s =
     (if oplockState (opens s op) \<noteq> OplockNone then (s, OPLOCK_LEVEL_NONE, [], [])
      else let g = clientGuid (opens s op);
               elsewhere = filter (\<lambda>other. \<not> sameCacheView s other g) (opensOn sh path (Some op) s);
               (oplocks, ls) = holdersIn s elsewhere \<lparr>as_guid = g, as_own = None, as_keyed = False\<rparr>;
               granted = (if elsewhere \<noteq> []
                          then if exclusiveHeld s oplocks ls then OPLOCK_LEVEL_NONE else OPLOCK_LEVEL_II
                          else requested)
           in if granted \<noteq> OPLOCK_LEVEL_NONE
              then (upd_open op (\<lambda>o'. o'\<lparr>oplockLevel := granted, oplockState := OplockHeld\<rparr>) s, granted, [], [])
              else let (s1, waits, notify) = startBreaks oplocks OPLOCK_LEVEL_NONE s;
                       (s2, leaseWaits, leaseNotify) = startLeaseBreaks ls False s1
                   in (s2, OPLOCK_LEVEL_NONE, notify, leaseNotify))"

definition grantLease ::
  "oid \<Rightarrow> lid \<Rightarrow> u32 \<Rightarrow> sid \<Rightarrow> string \<Rightarrow> server \<Rightarrow> server \<times> u32 \<times> oid list \<times> lid list" where
  "grantLease op l requested sh path s =
     (let others = opensOn sh path (Some op) s;
          g = clientGuid (opens s op);
          (oplocks, ls) = holdersIn s others \<lparr>as_guid = g, as_own = Some l, as_keyed = True\<rparr>;
          granted = (if opensOutside s others (Some l) \<noteq> []
                     then if exclusiveHeld s oplocks ls then SMB2_LEASE_NONE
                          else (requested AND leaseStates) AND NOT SMB2_LEASE_WRITE_CACHING
                     else requested AND leaseStates)
      in if granted \<noteq> SMB2_LEASE_NONE then (join l op granted s, granted, [], [])
         else let (s1, waits, notify) = startBreaks oplocks OPLOCK_LEVEL_NONE s;
                  (s2, leaseWaits, leaseNotify) = startLeaseBreaks ls False s1
              in (s2, SMB2_LEASE_NONE, notify, leaseNotify))"

subsection \<open>What is promised\<close>

definition holds :: "server \<Rightarrow> oid \<Rightarrow> bool" where
  "holds s x = (case op_lease (opens s x) of
     Some l \<Rightarrow> ls_state (leases s l) \<noteq> SMB2_LEASE_NONE
   | None \<Rightarrow> oplockState (opens s x) \<noteq> OplockNone)"

text \<open>
  The right to write out of the cache. An oplock or a lease that is being broken still counts in full: the
  client keeps it until it has answered.
\<close>

definition exclusive_holder :: "server \<Rightarrow> oid \<Rightarrow> bool" where
  "exclusive_holder s x = (case op_lease (opens s x) of
     Some l \<Rightarrow> ls_state (leases s l) AND SMB2_LEASE_WRITE_CACHING \<noteq> 0
   | None \<Rightarrow> oplockState (opens s x) \<noteq> OplockNone \<and> oplockLevel (opens s x) > OPLOCK_LEVEL_II)"

text \<open>Two opens that share one view of the file: of one client, or under one lease.\<close>

definition same_view :: "server \<Rightarrow> oid \<Rightarrow> oid \<Rightarrow> bool" where
  "same_view s a b \<longleftrightarrow>
     (clientGuid (opens s a) = clientGuid (opens s b) \<and> clientGuid (opens s a) \<noteq> 0) \<or>
     (op_lease (opens s a) = op_lease (opens s b) \<and> op_lease (opens s a) \<noteq> None)"

definition coherent :: "server \<Rightarrow> bool" where
  "coherent s \<longleftrightarrow> (\<forall>a b. indexed s a \<longrightarrow> indexed s b \<longrightarrow> a \<noteq> b \<longrightarrow>
     fileKeyLocked (opens s a) = fileKeyLocked (opens s b) \<longrightarrow> \<not> same_view s a b \<longrightarrow>
     exclusive_holder s a \<longrightarrow> \<not> holds s b)"

text \<open>
  The links between opens and leases: an open that shares a lease has no oplock of its own, and belongs to
  the client of the lease.
\<close>

definition links_ok :: "server \<Rightarrow> bool" where
  "links_ok s \<longleftrightarrow> (\<forall>x l. op_lease (opens s x) = Some l \<longrightarrow>
     l < nextLease s \<and> clientGuid (opens s x) = ls_clientGuid (leases s l) \<and>
     oplockState (opens s x) = OplockNone)"

definition caching_inv :: "server \<Rightarrow> bool" where
  "caching_inv s \<longleftrightarrow> index_ok s \<and> oplocks_ok s \<and> leases_ok s \<and> links_ok s \<and> coherent s"

subsection \<open>The holders of a file\<close>

lemma holdersIn_loop_oplocks:
  "set (fst (holdersIn_loop s by seen ops)) =
     {x \<in> set ops. op_lease (opens s x) = None \<and> oplockState (opens s x) \<noteq> OplockNone \<and>
        \<not> sameCacheView s x (as_guid by)}"
  by (induction ops arbitrary: seen) (auto simp: Let_def case_prod_beta split: option.splits)

lemma holdersIn_loop_leases:
  "set (snd (holdersIn_loop s by seen ops)) =
     {l. l \<notin> seen \<and> \<not> covers s by l \<and> (ls_state (leases s l) \<noteq> SMB2_LEASE_NONE \<or> breaking (leases s l)) \<and>
        (\<exists>x \<in> set ops. op_lease (opens s x) = Some l)}"
proof (induction ops arbitrary: seen)
  case (Cons op ops)
  show ?case
  proof (cases "op_lease (opens s op)")
    case None
    then have "snd (holdersIn_loop s by seen (op # ops)) = snd (holdersIn_loop s by seen ops)"
      by (simp add: case_prod_beta Let_def)
    with None show ?thesis by (simp add: Cons)
  next
    case (Some l)
    show ?thesis
    proof (cases "covers s by l \<or> l \<in> seen")
      case True
      with Some show ?thesis by (auto simp: Cons)
    next
      case False
      show ?thesis
      proof (cases "ls_state (leases s l) \<noteq> SMB2_LEASE_NONE \<or> breaking (leases s l)")
        case True
        obtain os ls where h: "holdersIn_loop s by (insert l seen) ops = (os, ls)" by force
        have "set ls = {m. m \<notin> insert l seen \<and> \<not> covers s by m \<and>
            (ls_state (leases s m) \<noteq> SMB2_LEASE_NONE \<or> breaking (leases s m)) \<and>
            (\<exists>x \<in> set ops. op_lease (opens s x) = Some m)}"
          using Cons[of "insert l seen"] h by simp
        moreover have "holdersIn_loop s by seen (op # ops) = (os, l # ls)"
          using Some False True h by auto
        ultimately show ?thesis using Some False True by auto
      next
        case False': False
        then have "holdersIn_loop s by seen (op # ops) = holdersIn_loop s by seen ops"
          using Some False by simp
        with Some False' show ?thesis by (auto simp: Cons)
      qed
    qed
  qed
qed simp

lemma holdersIn_sets:
  assumes "holdersIn s ops by = (os, ls)"
  shows "set os = {x \<in> set ops. op_lease (opens s x) = None \<and> oplockState (opens s x) \<noteq> OplockNone \<and>
      \<not> sameCacheView s x (as_guid by)}"
    and "set ls = {l. \<not> covers s by l \<and> (ls_state (leases s l) \<noteq> SMB2_LEASE_NONE \<or> breaking (leases s l)) \<and>
      (\<exists>x \<in> set ops. op_lease (opens s x) = Some l)}"
  using holdersIn_loop_oplocks[of s "by" "{}" ops] holdersIn_loop_leases[of s "by" "{}" ops] assms
  by (auto simp: holdersIn_def)

text \<open>
  Where nothing exclusive is found among the holders, no open that counts may write out of its cache.
\<close>

lemma not_exclusiveHeld:
  assumes "holdersIn s ops by = (os, ls)" "\<not> exclusiveHeld s os ls" "x \<in> set ops"
    and "op_lease (opens s x) = None \<Longrightarrow> \<not> sameCacheView s x (as_guid by)"
    and "\<And>l. op_lease (opens s x) = Some l \<Longrightarrow> \<not> covers s by l"
  shows "\<not> exclusive_holder s x"
proof (cases "op_lease (opens s x)")
  case None
  then show ?thesis
    using assms(2-4) holdersIn_sets(1)[OF assms(1)] by (auto simp: exclusive_holder_def exclusiveHeld_def)
next
  case (Some l)
  have "\<not> 0 < ls_state (leases s l) AND SMB2_LEASE_WRITE_CACHING"
  proof
    assume w: "0 < ls_state (leases s l) AND SMB2_LEASE_WRITE_CACHING"
    then have "ls_state (leases s l) \<noteq> SMB2_LEASE_NONE" by (auto simp: SMB2_LEASE_NONE_def)
    with Some assms(3,5) have "l \<in> set ls" using holdersIn_sets(2)[OF assms(1)] by auto
    with w assms(2) show False by (auto simp: exclusiveHeld_def)
  qed
  then show ?thesis using Some by (simp add: exclusive_holder_def word_gt_0)
qed

subsection \<open>Breaks leave the promises standing\<close>

text \<open>Two states that promise the same, though a break may have been started in between.\<close>

definition same_promises :: "server \<Rightarrow> server \<Rightarrow> bool" where
  "same_promises s t \<longleftrightarrow> (\<forall>x. same_promise (opens s x) (opens t x)) \<and> opensByFile t = opensByFile s \<and>
     nextLease t = nextLease s \<and>
     (\<forall>l. ls_state (leases t l) = ls_state (leases s l) \<and>
          ls_clientGuid (leases t l) = ls_clientGuid (leases s l))"

lemma same_promises_refl: "same_promises s s"
  by (simp add: same_promises_def)

lemma same_promises_trans: "same_promises s t \<Longrightarrow> same_promises t u \<Longrightarrow> same_promises s u"
  by (auto simp: same_promises_def intro: same_promise_trans)

lemma nextLease_startOplockBreak: "nextLease (fst (startOplockBreak op to s)) = nextLease s"
  by (simp add: startOplockBreak_def make_chan_def split: oplockStatus.splits)

lemma nextLease_startBreaks: "nextLease (fst (startBreaks ops to s)) = nextLease s"
proof (induction ops arbitrary: s)
  case (Cons op ops)
  then show ?case by (simp only: startBreaks_Cons nextLease_startOplockBreak)
qed simp

lemma startBreaks_same_promises: "same_promises s (fst (startBreaks ops to s))"
  using startBreaks_promise[of s ops to] by (simp add: same_promises_def nextLease_startBreaks)

lemma startBreak_same_promises: "same_promises s (fst (startBreak l to s))"
  by (auto simp: same_promises_def startBreak_def make_chan_def Let_def)

lemma startLeaseBreaks_Cons:
  "fst (startLeaseBreaks (l # ls) sharedOK s) =
     fst (startLeaseBreaks ls sharedOK
       (fst (startBreak l (leaseBreakTarget (ls_state (leases s l)) sharedOK) s)))"
  by (auto simp: Let_def split: prod.splits option.splits)

lemma startLeaseBreaks_same_promises: "same_promises s (fst (startLeaseBreaks ls sharedOK s))"
proof (induction ls arbitrary: s)
  case (Cons l ls)
  show ?case unfolding startLeaseBreaks_Cons
    using Cons startBreak_same_promises same_promises_trans by blast
qed (simp add: same_promises_refl)

lemma startBreak_opens: "opens (fst (startBreak l to s)) = opens s"
  by (simp add: startBreak_def make_chan_def Let_def)

lemma startLeaseBreaks_ok:
  assumes "leases_ok s" "oplocks_ok s"
  shows "leases_ok (fst (startLeaseBreaks ls sharedOK s)) \<and> oplocks_ok (fst (startLeaseBreaks ls sharedOK s))"
  using assms
proof (induction ls arbitrary: s)
  case (Cons l ls)
  let ?t = "fst (startBreak l (leaseBreakTarget (ls_state (leases s l)) sharedOK) s)"
  have l: "leases_ok ?t" by (rule startBreak_ok[OF Cons.prems(1) leaseBreakTarget_no_write])
  have "oplocks_ok ?t"
    using Cons.prems(2) leases_okD(1)[OF l] by (simp add: oplocks_ok_def startBreak_opens)
  with l show ?case unfolding startLeaseBreaks_Cons by (rule Cons.IH)
qed simp

lemma startBreaks_both_ok:
  assumes "leases_ok s" "oplocks_ok s" "to \<le> OPLOCK_LEVEL_II"
  shows "leases_ok (fst (startBreaks ops to s)) \<and> oplocks_ok (fst (startBreaks ops to s))"
  using assms startBreaks_ok[OF assms(2,3), of ops] startBreaks_promise[of s ops to]
  by (auto intro: leases_ok_same oplocks_okD)

lemma all_breaks:
  assumes "leases_ok s" "oplocks_ok s" "to \<le> OPLOCK_LEVEL_II"
    and "startBreaks os to s = (s1, ws, ns)" "startLeaseBreaks ls sharedOK s1 = (s2, ws', ns')"
  shows "leases_ok s2 \<and> oplocks_ok s2 \<and> same_promises s s2"
proof -
  have s1: "leases_ok s1" "oplocks_ok s1" "same_promises s s1"
    using startBreaks_both_ok[OF assms(1-3), of os] startBreaks_same_promises[of s os to] assms(4) by simp_all
  then show ?thesis
    using startLeaseBreaks_ok[OF s1(1,2), of ls sharedOK] startLeaseBreaks_same_promises[of s1 ls sharedOK]
      assms(5) by (auto intro: same_promises_trans)
qed

lemma same_promises_indexed:
  assumes "same_promises s t"
  shows "index_ok t = index_ok s" "indexed t x = indexed s x"
proof -
  have f: "filed t = filed s" using assms by (simp add: same_promises_def filed_def bucket_def fun_eq_iff)
  have o: "fileKeyLocked (opens t y) = fileKeyLocked (opens s y)"
    "durableFileID (opens t y) = durableFileID (opens s y)" for y
    using assms by (simp_all add: same_promises_def same_promise_def)
  show "index_ok t = index_ok s"
    using assms by (intro index_same_filing) (simp_all add: o same_promises_def)
  show "indexed t x = indexed s x" by (simp add: indexed_def f o)
qed

lemma same_promises_holders:
  assumes "same_promises s t"
  shows "holds t x = holds s x" "exclusive_holder t x = exclusive_holder s x"
    "same_view t x y = same_view s x y"
proof -
  have *: "op_lease (opens t z) = op_lease (opens s z)" "clientGuid (opens t z) = clientGuid (opens s z)"
    "oplockLevel (opens t z) = oplockLevel (opens s z)"
    "(oplockState (opens t z) = OplockNone) = (oplockState (opens s z) = OplockNone)"
    "ls_state (leases t l) = ls_state (leases s l)" for z l
    using assms by (auto simp: same_promises_def same_promise_def)
  show "holds t x = holds s x" "exclusive_holder t x = exclusive_holder s x"
    "same_view t x y = same_view s x y"
    by (simp_all add: holds_def exclusive_holder_def same_view_def * split: option.split)
qed

lemma same_promises_inv:
  assumes "caching_inv s" "same_promises s t" "leases_ok t" "oplocks_ok t"
  shows "caching_inv t"
proof -
  have "fileKeyLocked (opens t y) = fileKeyLocked (opens s y)" for y
    using assms(2) by (simp add: same_promises_def same_promise_def)
  then have "coherent t"
    using assms(1) by (simp add: caching_inv_def coherent_def same_promises_holders[OF assms(2)]
        same_promises_indexed[OF assms(2)])
  moreover have "links_ok t"
    using assms(1,2) by (simp add: caching_inv_def links_ok_def same_promises_def same_promise_def)
  ultimately show ?thesis using assms by (simp add: caching_inv_def same_promises_indexed)
qed

subsection \<open>Steps that only take away\<close>

lemma coherent_mono:
  assumes "coherent s"
    and "\<And>x. indexed t x \<Longrightarrow> exclusive_holder t x \<or> holds t x \<Longrightarrow>
      indexed s x \<and> fileKeyLocked (opens t x) = fileKeyLocked (opens s x)"
    and "\<And>x. exclusive_holder t x \<Longrightarrow> exclusive_holder s x"
    and "\<And>x. holds t x \<Longrightarrow> holds s x"
    and "\<And>a b. exclusive_holder t a \<Longrightarrow> holds t b \<Longrightarrow> same_view s a b \<Longrightarrow> same_view t a b"
  shows "coherent t"
  using assms unfolding coherent_def by metis

text \<open>One open changes its own promise, to something no more than it was, and keeps its place.\<close>

lemma coherent_upd_open:
  assumes "caching_inv s"
    and "opens t = (opens s)(op := o')" "leases t = leases s" "opensByFile t = opensByFile s"
    and "same_place": "fileKeyLocked o' = fileKeyLocked (opens s op)"
      "durableFileID o' = durableFileID (opens s op)" "clientGuid o' = clientGuid (opens s op)"
      "op_lease o' = op_lease (opens s op)"
    and "oplockState o' \<noteq> OplockNone \<Longrightarrow> oplockState (opens s op) \<noteq> OplockNone"
    and "oplockState o' \<noteq> OplockNone \<Longrightarrow> oplockLevel o' \<le> oplockLevel (opens s op) \<or> oplockLevel o' \<le> OPLOCK_LEVEL_II"
  shows "coherent t"
proof (rule coherent_mono)
  show "coherent s" using assms(1) by (simp add: caching_inv_def)
  have f: "filed t = filed s" using assms(4) by (simp add: filed_def bucket_def fun_eq_iff)
  show "indexed s x \<and> fileKeyLocked (opens t x) = fileKeyLocked (opens s x)" if "indexed t x" for x
    using that by (auto simp: indexed_def f assms(2) same_place split: if_splits)
  show "exclusive_holder s x" if "exclusive_holder t x" for x
    using that assms(9,10) same_place
    by (auto simp: exclusive_holder_def assms(2,3) split: option.splits if_splits)
  show "holds s x" if "holds t x" for x
    using that assms(9) same_place by (auto simp: holds_def assms(2,3) split: option.splits if_splits)
  show "same_view t a b" if "same_view s a b" for a b
    using that same_place by (auto simp: same_view_def assms(2))
qed

text \<open>The break of an oplock ends at a read cache or less.\<close>

lemma finishOplockBreak_inv:
  assumes "caching_inv s" "level \<le> OPLOCK_LEVEL_II"
  shows "caching_inv (fst (finishOplockBreak op level s))"
proof (cases "oplockBreak (opens s op)")
  case None
  then show ?thesis using assms(1) by (simp add: finishOplockBreak_idle caching_inv_def)
next
  case (Some c)
  let ?t = "fst (finishOplockBreak op level s)"
  let ?o = "(opens s op)\<lparr>oplockLevel := level,
    oplockState := (if level = OPLOCK_LEVEL_NONE then OplockNone else OplockHeld), oplockBreak := None\<rparr>"
  have ok: "oplocks_ok s" "leases_ok s" using assms(1) by (simp_all add: caching_inv_def)
  note o = finishOplockBreak_flying(2)[OF ok(1) Some, of level]
  have st: "oplockState (opens s op) = OplockBreaking"
    using oplocks_okD(2)[OF ok(1), of op] Some by (auto simp: oplock_ok_def)
  have "oplocks_ok ?t" by (rule finishOplockBreak_ok[OF ok(1)])
  moreover from this have "leases_ok ?t" using ok(2) by (auto intro: leases_ok_same oplocks_okD)
  moreover have "coherent ?t"
    by (rule coherent_upd_open[OF assms(1) o]) (simp_all add: st assms(2) fileKeyLocked_def)
  moreover have "index_ok ?t"
    using assms(1) index_same_filing[of ?t s] by (simp add: caching_inv_def o fileKeyLocked_def)
  moreover have "op_lease (opens s op) = None"
    using assms(1) st by (cases "op_lease (opens s op)") (auto simp: caching_inv_def links_ok_def)
  then have "links_ok ?t"
    using assms(1) by (auto simp: caching_inv_def links_ok_def o finishOplockBreak_def Let_def)
  ultimately show ?thesis by (simp add: caching_inv_def)
qed

lemma releaseOplock_opens:
  "opens (releaseOplock op s) = (opens s)(op := (opens s op)\<lparr>oplockLevel := OPLOCK_LEVEL_NONE,
     oplockState := OplockNone, oplockBreak := None\<rparr>)"
  "leases (releaseOplock op s) = leases s" "opensByFile (releaseOplock op s) = opensByFile s"
  "nextLease (releaseOplock op s) = nextLease s"
  by (cases "oplockBreak (opens s op)"; simp add: releaseOplock_def Let_def oplockBreak_None_idem)+

lemma releaseOplock_inv:
  assumes "caching_inv s"
  shows "caching_inv (releaseOplock op s)"
proof -
  let ?t = "releaseOplock op s"
  have ok: "oplocks_ok s" "leases_ok s" using assms by (simp_all add: caching_inv_def)
  have "oplocks_ok ?t" by (rule releaseOplock_ok[OF ok(1)])
  moreover from this have "leases_ok ?t" using ok(2) by (auto simp: releaseOplock_opens intro: leases_ok_same oplocks_okD)
  moreover have "coherent ?t"
    by (rule coherent_upd_open[OF assms releaseOplock_opens(1-3)]) (simp_all add: fileKeyLocked_def)
  moreover have "index_ok ?t"
    using assms index_same_filing[of ?t s] by (simp add: caching_inv_def releaseOplock_opens fileKeyLocked_def)
  moreover have "links_ok ?t" using assms by (auto simp: caching_inv_def links_ok_def releaseOplock_opens)
  ultimately show ?thesis by (simp add: caching_inv_def)
qed

text \<open>The break of a lease ends without the write cache.\<close>

lemma finishBreak_inv:
  assumes "caching_inv s" "state AND SMB2_LEASE_WRITE_CACHING = 0"
  shows "caching_inv (fst (finishBreak l state s))"
proof (cases "breakDone (leases s l)")
  case None
  then show ?thesis using assms(1) by (simp add: finishBreak_idle caching_inv_def)
next
  case (Some c)
  let ?t = "fst (finishBreak l state s)"
  have ok: "oplocks_ok s" "leases_ok s" using assms(1) by (simp_all add: caching_inv_def)
  note ls = finishBreak_flying(2)[OF ok(2) Some, of state]
  have st: "ls_state (leases s l) \<noteq> SMB2_LEASE_NONE"
    using leases_okD(2)[OF ok(2), of l] Some by (auto simp: lease_ok_def)
  have "leases_ok ?t" by (rule finishBreak_ok[OF ok(2)])
  moreover from this have "oplocks_ok ?t" using ok(1) by (auto intro: oplocks_ok_same leases_okD)
  moreover have "coherent ?t"
  proof (rule coherent_mono)
    show "coherent s" using assms(1) by (simp add: caching_inv_def)
    have f: "filed ?t = filed s" by (simp add: filed_def bucket_def fun_eq_iff)
    show "indexed s x \<and> fileKeyLocked (opens ?t x) = fileKeyLocked (opens s x)" if "indexed ?t x" for x
      using that by (simp add: indexed_def f)
    show "exclusive_holder s x" if "exclusive_holder ?t x" for x
      using that assms(2) by (auto simp: exclusive_holder_def ls split: option.splits if_splits)
    show "holds s x" if "holds ?t x" for x
      using that st by (auto simp: holds_def ls split: option.splits if_splits)
    show "same_view ?t a b" if "same_view s a b" for a b using that by (simp add: same_view_def)
  qed
  moreover have "index_ok ?t" using assms(1) index_same_filing[of ?t s] by (simp add: caching_inv_def)
  moreover have "links_ok ?t"
    using assms(1) by (auto simp: caching_inv_def links_ok_def ls finishBreak_def Let_def)
  ultimately show ?thesis by (simp add: caching_inv_def)
qed

lemma leaveLease_leases:
  "ls_clientGuid (leases (leaveLease op s) l) = ls_clientGuid (leases s l)"
  "ls_state (leases (leaveLease op s) l) = ls_state (leases s l) \<or>
     ls_state (leases (leaveLease op s) l) = SMB2_LEASE_NONE"
  by (auto simp: leaveLease_def Let_def split: option.splits)

lemma leaveLease_inv:
  assumes "caching_inv s" "oplockState (opens s op) = OplockNone"
  shows "caching_inv (leaveLease op s)"
proof -
  let ?t = "leaveLease op s"
  have ok: "oplocks_ok ?t" "leases_ok ?t" using assms(1) leaveLease_ok by (auto simp: caching_inv_def)
  have gone: "\<not> holds ?t op" "\<not> exclusive_holder ?t op"
    using assms(2) by (simp_all add: holds_def exclusive_holder_def)
  have "coherent ?t"
  proof (rule coherent_mono)
    show "coherent s" using assms(1) by (simp add: caching_inv_def)
    have f: "filed ?t = filed s" by (simp add: filed_def bucket_def fun_eq_iff)
    show "indexed s x \<and> fileKeyLocked (opens ?t x) = fileKeyLocked (opens s x)" if "indexed ?t x" for x
      using that by (auto simp: indexed_def f fileKeyLocked_def split: if_splits)
    show "exclusive_holder s x" if x: "exclusive_holder ?t x" for x
    proof -
      have "x \<noteq> op" using x gone by auto
      then show ?thesis using x leaveLease_leases(2)[of op s "the (op_lease (opens s x))"]
        by (cases "op_lease (opens s x)") (auto simp: exclusive_holder_def SMB2_LEASE_NONE_def)
    qed
    show "holds s x" if x: "holds ?t x" for x
    proof -
      have "x \<noteq> op" using x gone by auto
      then show ?thesis using x leaveLease_leases(2)[of op s "the (op_lease (opens s x))"]
        by (cases "op_lease (opens s x)") (auto simp: holds_def)
    qed
    show "same_view ?t a b" if "exclusive_holder ?t a" "holds ?t b" "same_view s a b" for a b
    proof -
      have "a \<noteq> op" "b \<noteq> op" using that gone by auto
      with that(3) show ?thesis by (simp add: same_view_def)
    qed
  qed
  moreover have "index_ok ?t"
    using assms(1) index_same_filing[of ?t s] by (simp add: caching_inv_def fileKeyLocked_def)
  moreover have "links_ok ?t"
    using assms(1) by (auto simp: caching_inv_def links_ok_def leaveLease_leases)
  ultimately show ?thesis using ok by (simp add: caching_inv_def)
qed

subsection \<open>Opens that come and go\<close>

text \<open>A new open, as \<^verbatim>\<open>registerOpen\<close> makes it: it caches nothing, and its durable file ID is its own.\<close>

definition caches_nothing :: "openRec \<Rightarrow> bool" where
  "caches_nothing o' \<longleftrightarrow> oplockLevel o' = OPLOCK_LEVEL_NONE \<and> oplockState o' = OplockNone \<and>
     oplockBreakTo o' = OPLOCK_LEVEL_NONE \<and> oplockBreak o' = None \<and> op_lease o' = None"

definition unused :: "server \<Rightarrow> oid \<Rightarrow> u64 \<Rightarrow> bool" where
  "unused s op d \<longleftrightarrow> (\<forall>key e. filed s key e \<noteq> Some op) \<and> (\<forall>key. filed s key d = None)"

lemma opened_inv:
  assumes "caching_inv s" "caches_nothing o'" "unused s op (durableFileID o')"
  shows "caching_inv (indexOpen op (upd_open op (\<lambda>_. o') s))"
proof -
  let ?u = "upd_open op (\<lambda>_. o') s"
  let ?t = "indexOpen op ?u"
  have o: "opens ?t = (opens s)(op := o')" "leases ?t = leases s" by simp_all
  have ix: "indexed s x" if "indexed ?t x" "x \<noteq> op" for x
    using that by (auto simp: indexed_def filed_indexOpen split: if_splits)
  have inf: "in_flight ?t x = (if x = Inl op then None else in_flight s x)" for x
    using assms(2) by (cases x) (simp_all add: caches_nothing_def)
  have "chans_ok ?t"
    using assms(1) inf by (auto simp: caching_inv_def oplocks_ok_def chans_ok_def indexOpen_def Let_def)
  then have "oplocks_ok ?t" "leases_ok ?t"
    using assms(1,2) by (auto simp: caching_inv_def oplocks_ok_def leases_ok_def caches_nothing_def
        oplock_ok_def o oplock_level_defs)
  moreover have "index_ok ?t"
    using assms(1,3) by (intro index_ok_indexOpen index_ok_set_up) (simp_all add: caching_inv_def unused_def)
  moreover have "links_ok ?t"
    using assms(1,2) by (auto simp: caching_inv_def links_ok_def o caches_nothing_def indexOpen_def Let_def)
  moreover have "coherent ?t"
  proof (rule coherent_mono)
    show "coherent s" using assms(1) by (simp add: caching_inv_def)
    have bare: "\<not> holds ?t op" "\<not> exclusive_holder ?t op"
      using assms(2) by (simp_all add: holds_def exclusive_holder_def caches_nothing_def)
    show "indexed s x \<and> fileKeyLocked (opens ?t x) = fileKeyLocked (opens s x)"
      if "indexed ?t x" "exclusive_holder ?t x \<or> holds ?t x" for x
    proof -
      have "x \<noteq> op" using that(2) bare by blast
      with that(1) show ?thesis using ix by simp
    qed
    show "exclusive_holder s x" if "exclusive_holder ?t x" for x
      using that bare by (cases "x = op") (simp_all add: exclusive_holder_def split: option.splits)
    show "holds s x" if "holds ?t x" for x
      using that bare by (cases "x = op") (simp_all add: holds_def split: option.splits)
    show "same_view ?t a b" if "exclusive_holder ?t a" "holds ?t b" "same_view s a b" for a b
    proof -
      have "a \<noteq> op" "b \<noteq> op" using that bare by blast+
      with that(3) show ?thesis by (simp add: same_view_def)
    qed
  qed
  ultimately show ?thesis by (simp add: caching_inv_def)
qed

lemma unindex_inv:
  assumes "caching_inv s"
  shows "caching_inv (unindexOpen op s)"
proof -
  let ?t = "unindexOpen op s"
  have o: "opens ?t = opens s" "leases ?t = leases s" "closed ?t = closed s" "panicked ?t = panicked s"
    "nextChannel ?t = nextChannel s" "nextLease ?t = nextLease s"
    by (simp_all add: unindexOpen_def dropFromBucket_def Let_def split: option.splits)
  have "in_flight ?t x = in_flight s x" for x by (cases x) (simp_all add: o)
  then have "chans_ok ?t" using assms by (auto simp: caching_inv_def oplocks_ok_def o intro: chans_ok_same)
  moreover have "indexed s x" if "indexed ?t x" for x
    using that by (simp add: indexed_def unindexOpen_def filed_dropFromBucket split: if_splits)
  moreover have "holds ?t x = holds s x" "exclusive_holder ?t x = exclusive_holder s x"
    "same_view ?t x y = same_view s x y" for x y
    by (simp_all add: holds_def exclusive_holder_def same_view_def o split: option.split)
  ultimately have "coherent ?t" using assms unfolding caching_inv_def coherent_def by (metis o(1))
  with \<open>chans_ok ?t\<close> show ?thesis
    using assms index_ok_unindexOpen[of s op]
    by (simp add: caching_inv_def oplocks_ok_def leases_ok_def links_ok_def o)
qed

lemma leaseFor_inv:
  assumes "caching_inv s"
  shows "caching_inv (fst (leaseFor g key path s))"
proof (cases "leaseTables s g key")
  case (Some l)
  let ?t = "fst (leaseFor g key path s)"
  have t: "opens ?t = opens s" "opensByFile ?t = opensByFile s" "closed ?t = closed s"
    "nextChannel ?t = nextChannel s" "panicked ?t = panicked s" "nextLease ?t = nextLease s"
    "ls_state (leases ?t m) = ls_state (leases s m)" "breaking (leases ?t m) = breaking (leases s m)"
    "breakDone (leases ?t m) = breakDone (leases s m)" "breakToState (leases ?t m) = breakToState (leases s m)"
    "ls_clientGuid (leases ?t m) = ls_clientGuid (leases s m)" for m
    by (simp_all add: leaseFor_def Some Let_def)
  have "in_flight ?t x = in_flight s x" for x by (cases x) (simp_all add: t)
  then have "chans_ok ?t" using assms by (auto simp: caching_inv_def oplocks_ok_def t intro: chans_ok_same)
  then show ?thesis
    using assms by (intro same_promises_inv[OF assms])
      (simp_all add: same_promises_def t caching_inv_def oplocks_ok_def leases_ok_def lease_ok_def)
next
  case None
  let ?t = "fst (leaseFor g key path s)" and ?n = "nextLease s"
  have t: "opens ?t = opens s" "opensByFile ?t = opensByFile s" "closed ?t = closed s"
    "nextChannel ?t = nextChannel s" "panicked ?t = panicked s" "nextLease ?t = Suc ?n"
    "leases ?t = (leases s)(?n := new_lease g key path)"
    by (simp_all add: leaseFor_def None Let_def)
  have none: "op_lease (opens s x) \<noteq> Some ?n" for x using assms by (auto simp: caching_inv_def links_ok_def)
  have inf: "in_flight ?t x = (if x = Inr ?n then None else in_flight s x)" for x
    by (cases x) (simp_all add: t new_lease_def)
  have "chans_ok ?t"
    using assms inf by (auto simp: caching_inv_def oplocks_ok_def chans_ok_def t)
  then have "oplocks_ok ?t" "leases_ok ?t"
    using assms by (auto simp: caching_inv_def oplocks_ok_def leases_ok_def t lease_ok_def new_lease_def)
  moreover have "index_ok ?t" using assms index_same_filing[of ?t s] by (simp add: caching_inv_def t)
  moreover have "links_ok ?t"
    using assms none by (auto simp: caching_inv_def links_ok_def t intro: less_SucI)
  moreover have "coherent ?t"
  proof -
    have "filed ?t = filed s" by (simp add: filed_def bucket_def fun_eq_iff t)
    moreover have "holds ?t x = holds s x" "exclusive_holder ?t x = exclusive_holder s x" for x
      using none[of x] by (simp_all add: holds_def exclusive_holder_def t split: option.split)
    ultimately show ?thesis
      using assms by (simp add: caching_inv_def coherent_def indexed_def same_view_def t)
  qed
  ultimately show ?thesis by (simp add: caching_inv_def)
qed

subsection \<open>Granting\<close>

lemma same_view_sym: "same_view s a b = same_view s b a"
  by (auto simp: same_view_def)

text \<open>
  The promises of some opens change: coherence stays if none of them, and nobody beside them, may write
  out of the cache unless they share a view.
\<close>

lemma coherent_promise:
  assumes "coherent s" "\<And>x. indexed t x = indexed s x"
    "\<And>x. fileKeyLocked (opens t x) = fileKeyLocked (opens s x)"
    and "\<And>x. x \<notin> G \<Longrightarrow> holds t x = holds s x \<and> exclusive_holder t x = exclusive_holder s x"
    and "\<And>x y. x \<notin> G \<Longrightarrow> y \<notin> G \<Longrightarrow> same_view s x y \<Longrightarrow> same_view t x y"
    and "\<And>x y. x \<in> G \<Longrightarrow> indexed s x \<Longrightarrow> indexed s y \<Longrightarrow>
      fileKeyLocked (opens s x) = fileKeyLocked (opens s y) \<Longrightarrow> x \<noteq> y \<Longrightarrow> \<not> same_view t x y \<Longrightarrow>
      \<not> exclusive_holder t x \<and> \<not> exclusive_holder t y"
  shows "coherent t"
  unfolding coherent_def
proof (intro allI impI)
  fix a b
  assume *: "indexed t a" "indexed t b" "a \<noteq> b" "fileKeyLocked (opens t a) = fileKeyLocked (opens t b)"
    "\<not> same_view t a b" "exclusive_holder t a"
  have "a \<notin> G" using * assms(2,3) assms(6)[of a b] by metis
  moreover have "b \<notin> G" using * assms(2,3) assms(6)[of b a] same_view_sym by metis
  ultimately show "\<not> holds t b" using * assms(1-5) unfolding coherent_def by metis
qed

lemma on_file_mem:
  assumes "index_ok s" "indexed s y" "fileKeyLocked (opens s y) = \<lparr>fk_share = Some sh, fk_path = path\<rparr>"
    "Some y \<noteq> ex"
  shows "y \<in> set (opensOn sh path ex s)"
  using assms(2-) by (simp add: idx.on_file_exact[OF assms(1)] fileKeyLocked_def)

text \<open>The outcomes of granting an oplock.\<close>

lemma grantOplock_cases:
  assumes "grantOplock op requested sh path s = (t, granted, ns, ns')"
  obtains (busy) "oplockState (opens s op) \<noteq> OplockNone" "t = s" "granted = OPLOCK_LEVEL_NONE"
  | (grants) elsewhere os ls where "oplockState (opens s op) = OplockNone"
      "elsewhere = filter (\<lambda>x. \<not> sameCacheView s x (clientGuid (opens s op))) (opensOn sh path (Some op) s)"
      "holdersIn s elsewhere \<lparr>as_guid = clientGuid (opens s op), as_own = None, as_keyed = False\<rparr> = (os, ls)"
      "elsewhere \<noteq> [] \<Longrightarrow> \<not> exclusiveHeld s os ls \<and> granted = OPLOCK_LEVEL_II"
      "elsewhere = [] \<Longrightarrow> granted = requested" "granted \<noteq> OPLOCK_LEVEL_NONE"
      "t = upd_open op (\<lambda>o'. o'\<lparr>oplockLevel := granted, oplockState := OplockHeld\<rparr>) s"
  | (refuses) os ls s1 ws ms ws' where "granted = OPLOCK_LEVEL_NONE"
      "startBreaks os OPLOCK_LEVEL_NONE s = (s1, ws, ms)" "startLeaseBreaks ls False s1 = (t, ws', ns')"
proof (cases "oplockState (opens s op) = OplockNone")
  case False
  with assms have "t = s" "granted = OPLOCK_LEVEL_NONE" by (auto simp: grantOplock_def)
  with False show ?thesis by (rule busy)
next
  case True
  define elsewhere where
    "elsewhere = filter (\<lambda>x. \<not> sameCacheView s x (clientGuid (opens s op))) (opensOn sh path (Some op) s)"
  obtain os ls where h: "holdersIn s elsewhere
      \<lparr>as_guid = clientGuid (opens s op), as_own = None, as_keyed = False\<rparr> = (os, ls)" by force
  define lvl where "lvl = (if elsewhere \<noteq> []
    then if exclusiveHeld s os ls then OPLOCK_LEVEL_NONE else OPLOCK_LEVEL_II else requested)"
  have g: "grantOplock op requested sh path s = (if lvl \<noteq> OPLOCK_LEVEL_NONE
      then (upd_open op (\<lambda>o'. o'\<lparr>oplockLevel := lvl, oplockState := OplockHeld\<rparr>) s, lvl, [], [])
      else let (s1, waits, notify) = startBreaks os OPLOCK_LEVEL_NONE s;
               (s2, leaseWaits, leaseNotify) = startLeaseBreaks ls False s1
           in (s2, OPLOCK_LEVEL_NONE, notify, leaseNotify))"
    unfolding grantOplock_def elsewhere_def[symmetric] Let_def using True h by (simp add: lvl_def)
  show ?thesis
  proof (cases "lvl = OPLOCK_LEVEL_NONE")
    case lvl: True
    obtain s1 ws ms where b1: "startBreaks os OPLOCK_LEVEL_NONE s = (s1, ws, ms)" by (metis prod_cases3)
    obtain s2 ws' ms' where b2: "startLeaseBreaks ls False s1 = (s2, ws', ms')" by (metis prod_cases3)
    from assms g lvl b1 b2 show ?thesis by - (rule refuses, auto)
  next
    case False
    with assms g have "t = upd_open op (\<lambda>o'. o'\<lparr>oplockLevel := granted, oplockState := OplockHeld\<rparr>) s"
      "granted = lvl" by auto
    with True False h show ?thesis by - (rule grants[OF _ elsewhere_def h], auto simp: lvl_def split: if_splits)
  qed
qed

lemma grantOplock_inv:
  assumes "caching_inv s" "indexed s op" "op_lease (opens s op) = None"
    "fileKeyLocked (opens s op) = \<lparr>fk_share = Some sh, fk_path = path\<rparr>"
    "grantOplock op requested sh path s = (t, granted, ns, ns')"
  shows "caching_inv t"
  using assms(5)
proof (cases rule: grantOplock_cases)
  case (grants elsewhere os ls)
  let ?by = "\<lparr>as_guid = clientGuid (opens s op), as_own = None, as_keyed = False\<rparr>"
  have ok: "index_ok s" "oplocks_ok s" "leases_ok s" "links_ok s" "coherent s"
    using assms(1) by (simp_all add: caching_inv_def)
  have others: "y \<in> set elsewhere" if "indexed s y" "y \<noteq> op" "\<not> same_view s op y"
    "fileKeyLocked (opens s op) = fileKeyLocked (opens s y)" for y
  proof -
    have "y \<in> set (opensOn sh path (Some op) s)"
      by (rule on_file_mem[OF ok(1)]) (use that assms(4) in auto)
    moreover have "\<not> sameCacheView s y (clientGuid (opens s op))"
      using that(3) by (auto simp: sameCacheView_def same_view_def)
    ultimately show ?thesis by (simp add: grants(2))
  qed
  have unc: "\<not> exclusive_holder s y" if "y \<in> set elsewhere" for y
  proof (rule not_exclusiveHeld[OF grants(3) _ that])
    show "\<not> exclusiveHeld s os ls" using grants(4) that by (metis empty_iff list.set(1))
    show "\<not> sameCacheView s y (as_guid ?by)" using that by (simp add: grants(2))
    show "\<not> covers s ?by l" if "op_lease (opens s y) = Some l" for l
      using that \<open>y \<in> set elsewhere\<close> ok(4) by (auto simp: covers_def grants(2) sameCacheView_def links_ok_def)
  qed
  have "coherent t"
  proof (rule coherent_promise[OF ok(5), where G = "{op}"])
    show "indexed t x = indexed s x" "fileKeyLocked (opens t x) = fileKeyLocked (opens s x)" for x
      by (auto simp: grants(7) indexed_def fileKeyLocked_def)
    show "holds t x = holds s x \<and> exclusive_holder t x = exclusive_holder s x" if "x \<notin> {op}" for x
      using that by (simp add: grants(7) holds_def exclusive_holder_def split: option.split)
    show "same_view t x y" if "x \<notin> {op}" "y \<notin> {op}" "same_view s x y" for x y
      using that by (simp add: grants(7) same_view_def)
    show "\<not> exclusive_holder t x \<and> \<not> exclusive_holder t y" if "x \<in> {op}" "indexed s x" "indexed s y"
      "fileKeyLocked (opens s x) = fileKeyLocked (opens s y)" "x \<noteq> y" "\<not> same_view t x y" for x y
    proof -
      have y: "y \<in> set elsewhere"
        using that by (intro others) (auto simp: grants(7) same_view_def)
      moreover have "exclusive_holder t y = exclusive_holder s y"
        using that(1,5) by (simp add: grants(7) exclusive_holder_def split: option.split)
      ultimately have "\<not> exclusive_holder t y" using unc by blast
      moreover have "granted = OPLOCK_LEVEL_II" using grants(4) y by (metis empty_iff list.set(1))
      ultimately show ?thesis using that(1) assms(3) by (simp add: grants(7) exclusive_holder_def)
    qed
  qed
  moreover have "chans_ok t"
    by (rule chans_ok_same[OF oplocks_okD(1)[OF ok(2)]]) (simp_all add: grants(7) in_flight_upd_open)
  then have "oplocks_ok t" "leases_ok t"
    using ok(2,3) grants(1,6) oplocks_okD(2)[OF ok(2), of op]
    by (auto simp: oplocks_ok_def leases_ok_def grants(7) oplock_ok_def)
  moreover have "index_ok t" using ok(1) index_same_filing[of t s] by (simp add: grants(7) fileKeyLocked_def)
  moreover have "links_ok t" using ok(4) assms(3) by (auto simp: links_ok_def grants(7))
  ultimately show ?thesis by (simp add: caching_inv_def)
next
  case (refuses os ls s1 ws ms ws')
  have "leases_ok t \<and> oplocks_ok t \<and> same_promises s t"
    using assms(1) by (intro all_breaks[OF _ _ _ refuses(2,3)]) (simp_all add: caching_inv_def oplock_level_defs)
  then show ?thesis using assms(1) by (auto intro: same_promises_inv)
qed (simp add: assms(1))

text \<open>The outcomes of granting a lease.\<close>

lemma grantLease_cases:
  assumes "grantLease op l requested sh path s = (t, granted, ns, ns')"
  obtains (grants) others os ls where "others = opensOn sh path (Some op) s"
      "holdersIn s others \<lparr>as_guid = clientGuid (opens s op), as_own = Some l, as_keyed = True\<rparr> = (os, ls)"
      "opensOutside s others (Some l) \<noteq> [] \<longrightarrow>
         \<not> exclusiveHeld s os ls \<and> granted AND SMB2_LEASE_WRITE_CACHING = 0"
      "granted \<noteq> SMB2_LEASE_NONE" "t = join l op granted s"
  | (refuses) os ls s1 ws ms ws' where "granted = SMB2_LEASE_NONE"
      "startBreaks os OPLOCK_LEVEL_NONE s = (s1, ws, ms)" "startLeaseBreaks ls False s1 = (t, ws', ns')"
proof -
  define others where "others = opensOn sh path (Some op) s"
  obtain os ls where h: "holdersIn s others
      \<lparr>as_guid = clientGuid (opens s op), as_own = Some l, as_keyed = True\<rparr> = (os, ls)" by force
  define st where "st = (if opensOutside s others (Some l) \<noteq> []
    then if exclusiveHeld s os ls then SMB2_LEASE_NONE
         else (requested AND leaseStates) AND NOT SMB2_LEASE_WRITE_CACHING
    else requested AND leaseStates)"
  have g: "grantLease op l requested sh path s = (if st \<noteq> SMB2_LEASE_NONE
      then (join l op st s, st, [], [])
      else let (s1, waits, notify) = startBreaks os OPLOCK_LEVEL_NONE s;
               (s2, leaseWaits, leaseNotify) = startLeaseBreaks ls False s1
           in (s2, SMB2_LEASE_NONE, notify, leaseNotify))"
    unfolding grantLease_def others_def[symmetric] Let_def using h by (simp add: st_def)
  show ?thesis
  proof (cases "st = SMB2_LEASE_NONE")
    case True
    obtain s1 ws ms where b1: "startBreaks os OPLOCK_LEVEL_NONE s = (s1, ws, ms)" by (metis prod_cases3)
    obtain s2 ws' ms' where b2: "startLeaseBreaks ls False s1 = (s2, ws', ms')" by (metis prod_cases3)
    from assms g True b1 b2 show ?thesis by - (rule refuses, auto)
  next
    case False
    have "x AND NOT SMB2_LEASE_WRITE_CACHING AND SMB2_LEASE_WRITE_CACHING = 0" for x :: u32
      by (simp add: lease_state_defs)
    then have "opensOutside s others (Some l) \<noteq> [] \<longrightarrow>
        \<not> exclusiveHeld s os ls \<and> st AND SMB2_LEASE_WRITE_CACHING = 0"
      using False by (auto simp: st_def and.assoc split: if_splits)
    with assms g False h show ?thesis by - (rule grants[OF others_def h], auto)
  qed
qed

lemma grantLease_inv:
  assumes "caching_inv s" "indexed s op" "op_lease (opens s op) = None" "oplockState (opens s op) = OplockNone"
    "fileKeyLocked (opens s op) = \<lparr>fk_share = Some sh, fk_path = path\<rparr>"
    and l: "l < nextLease s" "clientGuid (opens s op) = ls_clientGuid (leases s l)"
      "\<forall>x. op_lease (opens s x) = Some l \<longrightarrow> fileKeyLocked (opens s x) = fileKeyLocked (opens s op)"
    and g: "grantLease op l requested sh path s = (t, granted, ns, ns')"
  shows "caching_inv t"
  using g
proof (cases rule: grantLease_cases)
  case (grants others os ls)
  let ?by = "\<lparr>as_guid = clientGuid (opens s op), as_own = Some l, as_keyed = True\<rparr>"
  let ?G = "{x. op_lease (opens t x) = Some l}"
  have ok: "index_ok s" "oplocks_ok s" "leases_ok s" "links_ok s" "coherent s"
    using assms(1) by (simp_all add: caching_inv_def)
  have t: "opens t = (opens s)(op := (opens s op)\<lparr>op_lease := Some l\<rparr>)"
    "ls_state (leases t m) = (if m = l then granted else ls_state (leases s m))"
    "ls_clientGuid (leases t m) = ls_clientGuid (leases s m)" for m
    by (simp_all add: grants(5))
  have G: "x \<in> ?G \<Longrightarrow> clientGuid (opens s x) = ls_clientGuid (leases s l) \<and>
      fileKeyLocked (opens s x) = fileKeyLocked (opens s op)" for x
    using l(2,3) ok(4) by (auto simp: t links_ok_def split: if_splits)
  have outside: "\<not> exclusive_holder t y \<and> granted AND SMB2_LEASE_WRITE_CACHING = 0"
    if y: "indexed s y" "fileKeyLocked (opens s y) = fileKeyLocked (opens s op)" "x \<in> ?G" "\<not> same_view t x y" for x y
  proof -
    have x: "op_lease (opens t x) = Some l" using y(3) by simp
    then have ny: "op_lease (opens t y) \<noteq> Some l" using y(4) by (auto simp: same_view_def)
    then have yo: "y \<noteq> op" "op_lease (opens s y) \<noteq> Some l" by (auto simp: t split: if_splits)
    have mem: "y \<in> set others"
      unfolding grants(1) by (rule on_file_mem[OF ok(1) y(1)]) (use y(2) assms(5) yo(1) in auto)
    then have "y \<in> set (opensOutside s others (Some l))" using yo(2) by (simp add: opensOutside_def)
    then have w: "\<not> exclusiveHeld s os ls" "granted AND SMB2_LEASE_WRITE_CACHING = 0"
      using grants(3) by (metis empty_iff list.set(1))+
    have "clientGuid (opens t x) = clientGuid (opens s op)"
      using G[OF y(3)] l(2) by (simp add: t)
    then have "\<not> sameCacheView s y (clientGuid (opens s op))"
      using y(4) yo(1) by (auto simp: same_view_def sameCacheView_def t split: if_splits)
    then have "\<not> exclusive_holder s y"
      using yo(2) by (intro not_exclusiveHeld[OF grants(2) w(1) mem]) (auto simp: covers_def)
    with ny yo(1) w(2) show ?thesis by (auto simp: exclusive_holder_def t split: option.splits)
  qed
  have "coherent t"
  proof (rule coherent_promise[OF ok(5), where G = ?G])
    show "indexed t x = indexed s x" "fileKeyLocked (opens t x) = fileKeyLocked (opens s x)" for x
      by (auto simp: grants(5) indexed_def fileKeyLocked_def filed_def bucket_def)
    show "holds t x = holds s x \<and> exclusive_holder t x = exclusive_holder s x" if "x \<notin> ?G" for x
      using that by (auto simp: t holds_def exclusive_holder_def split: option.splits if_splits)
    show "same_view t x y" if "x \<notin> ?G" "y \<notin> ?G" "same_view s x y" for x y
      using that by (auto simp: t same_view_def split: if_splits)
    show "\<not> exclusive_holder t x \<and> \<not> exclusive_holder t y" if "x \<in> ?G" "indexed s x" "indexed s y"
      "fileKeyLocked (opens s x) = fileKeyLocked (opens s y)" "x \<noteq> y" "\<not> same_view t x y" for x y
    proof -
      have "fileKeyLocked (opens s y) = fileKeyLocked (opens s op)" using G[OF that(1)] that(4) by simp
      with outside[OF that(3) _ that(1,6)] that(1) show ?thesis by (simp add: exclusive_holder_def t(2))
    qed
  qed
  moreover have "oplocks_ok t" "leases_ok t" using join_ok[OF ok(2,3) grants(4)] by (simp_all add: grants(5))
  moreover have "index_ok t" using ok(1) index_same_filing[of t s] by (simp add: grants(5) fileKeyLocked_def)
  moreover have "links_ok t" using ok(4) l(1,2) assms(4) by (auto simp: links_ok_def grants(5))
  ultimately show ?thesis by (simp add: caching_inv_def)
next
  case (refuses os ls s1 ws ms ws')
  have "leases_ok t \<and> oplocks_ok t \<and> same_promises s t"
    using assms(1) by (intro all_breaks[OF _ _ _ refuses(2,3)]) (simp_all add: caching_inv_def oplock_level_defs)
  then show ?thesis using assms(1) by (auto intro: same_promises_inv)
qed

subsection \<open>The server at work\<close>

text \<open>
  Every operation that changes a promise, in any order. The create that asks for a promise has its open
  in the index already, and the open has nothing yet; a lease is granted on the file its other opens are
  on. A break is completed by its acknowledgment, its timer or a notification that could not be
  delivered; the acknowledgment reads the open or the lease first and completes the break afterwards, so
  that the completion is a step of its own, with any answer the check may have let through. Renames are
  left out.
\<close>

inductive caching_step :: "server \<Rightarrow> server \<Rightarrow> bool" where
  opened: "\<lbrakk>caches_nothing o'; unused s op (durableFileID o')\<rbrakk> \<Longrightarrow>
    caching_step s (indexOpen op (upd_open op (\<lambda>_. o') s))"
| closed: "caching_step s (unindexOpen op (releaseCaching op s))"
| lease_named: "caching_step s (fst (leaseFor g key path s))"
| oplock_asked: "\<lbrakk>indexed s op; op_lease (opens s op) = None;
    fileKeyLocked (opens s op) = \<lparr>fk_share = Some sh, fk_path = path\<rparr>\<rbrakk> \<Longrightarrow>
    caching_step s (fst (grantOplock op requested sh path s))"
| lease_asked: "\<lbrakk>indexed s op; op_lease (opens s op) = None; oplockState (opens s op) = OplockNone;
    fileKeyLocked (opens s op) = \<lparr>fk_share = Some sh, fk_path = path\<rparr>;
    l < nextLease s; clientGuid (opens s op) = ls_clientGuid (leases s l);
    \<forall>x. op_lease (opens s x) = Some l \<longrightarrow> fileKeyLocked (opens s x) = fileKeyLocked (opens s op)\<rbrakk> \<Longrightarrow>
    caching_step s (fst (grantLease op l requested sh path s))"
| breaks: "caching_step s (fst (startHolderBreaks sh path except by sharedOK s))"
| oplock_told: "caching_step s (fst (sendOplockBreak_done op held seq sent s))"
| lease_told: "to AND SMB2_LEASE_WRITE_CACHING = 0 \<Longrightarrow>
    caching_step s (fst (sendLeaseBreak_done l current to seq sent s))"
| oplock_timer: "caching_step s (fst (expireOplockBreak op seq OPLOCK_LEVEL_NONE s))"
| lease_timer: "caching_step s (fst (expireBreak l seq SMB2_LEASE_NONE s))"
| oplock_answered: "caching_step s (fst (acknowledgeOplockBreak op level s))"
| lease_answered: "caching_step s (fst (acknowledgeLeaseBreak g key state s))"
| oplock_completed: "level \<le> OPLOCK_LEVEL_II \<Longrightarrow> caching_step s (fst (completeOplockBreak op level s))"
| lease_completed: "state AND SMB2_LEASE_WRITE_CACHING = 0 \<Longrightarrow> caching_step s (fst (completeBreak l state s))"
| oplock_lost: "caching_step s (releaseCaching op s)"

inductive caching_reachable :: "server \<Rightarrow> bool" where
  start: "caching_reachable empty_server"
| step: "caching_reachable s \<Longrightarrow> caching_step s t \<Longrightarrow> caching_reachable t"

lemma releaseCaching_inv:
  assumes "caching_inv s"
  shows "caching_inv (releaseCaching op s)"
  unfolding releaseCaching_def
  by (rule leaveLease_inv[OF releaseOplock_inv[OF assms]]) (simp add: releaseOplock_opens)

lemma startHolderBreaks_inv:
  assumes "caching_inv s"
  shows "caching_inv (fst (startHolderBreaks sh path ex by sharedOK s))"
proof -
  obtain os ls where h: "holdersOn s sh path ex by = (os, ls)" by force
  obtain s1 ws ms where b1: "startBreaks os (oplockBreakTarget sharedOK) s = (s1, ws, ms)" by (metis prod_cases3)
  obtain s2 ws' ms' where b2: "startLeaseBreaks ls sharedOK s1 = (s2, ws', ms')" by (metis prod_cases3)
  have "leases_ok s2 \<and> oplocks_ok s2 \<and> same_promises s s2"
    using assms
    by (intro all_breaks[OF _ _ _ b1 b2]) (simp_all add: caching_inv_def oplockBreakTarget_def oplock_level_defs)
  then show ?thesis
    using assms by (auto simp: startHolderBreaks_def h b1 b2 intro: same_promises_inv)
qed

lemma acknowledgeOplockBreak_inv:
  assumes "caching_inv s"
  shows "caching_inv (fst (acknowledgeOplockBreak op level s))"
proof -
  have to: "oplockBreakTo (opens s op) \<le> OPLOCK_LEVEL_II"
    using assms oplocks_okD(2)[of s op] by (simp add: caching_inv_def oplock_ok_def)
  have none: "OPLOCK_LEVEL_NONE \<le> OPLOCK_LEVEL_II" by (simp add: oplock_level_defs)
  show ?thesis
    using assms finishOplockBreak_inv[OF assms none] finishOplockBreak_inv[OF assms, of level op] to
    by (auto simp: acknowledgeOplockBreak_def Let_def completeOplockBreak_def)
qed

lemma clearReplayEligible_inv:
  assumes "caching_inv s"
  shows "caching_inv (clearReplayEligible op s)" "leases (clearReplayEligible op s) = leases s"
proof -
  let ?t = "clearReplayEligible op s"
  have t: "leases ?t = leases s" "closed ?t = closed s" "nextChannel ?t = nextChannel s"
    "panicked ?t = panicked s" "oplock_ok (opens ?t x) = oplock_ok (opens s x)"
    "oplockBreak (opens ?t x) = oplockBreak (opens s x)" for x
    by (simp_all add: clearReplayEligible_def Let_def oplock_ok_def)
  have "in_flight ?t x = in_flight s x" for x by (cases x) (simp_all add: t)
  then have "chans_ok ?t" using assms by (auto simp: caching_inv_def oplocks_ok_def t intro: chans_ok_same)
  moreover have "same_promises s ?t"
    by (simp add: same_promises_def same_promise_def clearReplayEligible_def Let_def fileKeyLocked_def)
  ultimately show "caching_inv ?t"
    using assms by (intro same_promises_inv[OF assms]) (simp_all add: caching_inv_def oplocks_ok_def leases_ok_def t)
  show "leases ?t = leases s" by (rule t)
qed

lemma fold_clearReplayEligible_inv:
  "caching_inv s \<Longrightarrow> caching_inv (fold clearReplayEligible ops s) \<and> leases (fold clearReplayEligible ops s) = leases s"
  by (induction ops arbitrary: s) (simp_all add: clearReplayEligible_inv)

lemma within_no_write:
  fixes a b w :: "'a :: len word"
  assumes "a AND NOT b = 0" "b AND w = 0"
  shows "a AND w = 0"
proof -
  have "a = a AND b" using assms(1) by (metis and.right_neutral bit.conj_disj_distrib bit.disj_cancel_right or.right_neutral)
  with assms(2) show ?thesis by (metis and.assoc and_zero_eq)
qed

lemma acknowledgeLeaseBreak_inv:
  assumes "caching_inv s"
  shows "caching_inv (fst (acknowledgeLeaseBreak g key state s))"
proof (cases "findLease g key s")
  case None
  then show ?thesis using assms by (simp add: acknowledgeLeaseBreak_def)
next
  case (Some l)
  let ?s = "fold clearReplayEligible (map snd (ls_opens (leases s l))) s"
  have inv: "caching_inv ?s" using fold_clearReplayEligible_inv[OF assms] by blast
  have "breakToState (leases s l) AND SMB2_LEASE_WRITE_CACHING = 0"
    using assms leases_okD(2)[of s l] by (simp add: caching_inv_def lease_ok_def)
  then have "caching_inv (fst (finishBreak l state ?s))" if "state AND NOT (breakToState (leases s l)) = 0"
    using that inv by (intro finishBreak_inv) (auto dest: within_no_write)
  with inv show ?thesis by (simp add: acknowledgeLeaseBreak_def Some Let_def completeBreak_def)
qed

lemma caching_step_inv:
  assumes "caching_step s t" "caching_inv s"
  shows "caching_inv t"
proof -
  have none: "OPLOCK_LEVEL_NONE \<le> OPLOCK_LEVEL_II" by (simp add: oplock_level_defs)
  have nol: "SMB2_LEASE_NONE AND SMB2_LEASE_WRITE_CACHING = 0" by (simp add: lease_state_defs)
  from assms show ?thesis
  proof cases
    case (oplock_asked op sh path requested)
    then show ?thesis using grantOplock_inv[OF assms(2)] by (metis prod.collapse)
  next
    case (lease_asked op sh path l requested)
    then show ?thesis using grantLease_inv[OF assms(2) lease_asked(2-8)] by (metis prod.collapse)
  qed (simp_all add: assms(2) opened_inv unindex_inv releaseCaching_inv leaseFor_inv startHolderBreaks_inv
      sendOplockBreak_done_def sendLeaseBreak_done_def expireOplockBreak_def expireBreak_def
      completeOplockBreak_def completeBreak_def acknowledgeOplockBreak_inv acknowledgeLeaseBreak_inv
      finishOplockBreak_inv finishBreak_inv none nol)
qed

lemma caching_reachable_inv:
  assumes "caching_reachable s"
  shows "caching_inv s"
  using assms
proof induction
  case start
  have "index_ok empty_server" by (rule index_ok_empty) (simp add: empty_server_def)
  moreover have "\<not> indexed empty_server x" for x
    by (simp add: indexed_def filed_def bucket_def empty_server_def)
  moreover have "in_flight empty_server x = None" for x
    by (cases x) (simp_all add: empty_server_def blank_open_def blank_lease_def)
  ultimately show ?case
    by (simp add: caching_inv_def coherent_def oplocks_ok_def leases_ok_def chans_ok_def links_ok_def)
       (simp add: empty_server_def blank_open_def blank_lease_def oplock_ok_def lease_ok_def oplock_level_defs)
qed (rule caching_step_inv)


text \<open>
  C27 (breaks_never_panic). No break is ended twice and no channel is closed twice: in every reachable
  state nothing has panicked, an oplock or a lease is being broken exactly while it has a channel to wait
  on, that channel is open, and no two breaks share one.
\<close>

theorem breaks_never_panic:
  assumes "caching_reachable s"
  shows "\<not> panicked s \<and>
    (\<forall>op. oplockState (opens s op) = OplockBreaking \<longleftrightarrow> in_flight s (Inl op) \<noteq> None) \<and>
    (\<forall>l. breaking (leases s l) \<longleftrightarrow> in_flight s (Inr l) \<noteq> None) \<and>
    (\<forall>x c. in_flight s x = Some c \<longrightarrow> c \<notin> closed s) \<and>
    (\<forall>x y c. in_flight s x = Some c \<and> in_flight s y = Some c \<longrightarrow> x = y)"
  using caching_reachable_inv[OF assms]
  by (auto simp: caching_inv_def oplocks_ok_def leases_ok_def oplock_ok_def lease_ok_def chans_ok_def)

text \<open>
  A create goes ahead without waiting only where nothing can be lost: if it is
  found to need no wait, then no open on the file that is not the asker's own holds the right to write out
  of its cache, so nobody is sitting on writes the create should have seen.
\<close>

theorem no_wait_no_dirty_cache:
  assumes "caching_reachable s" "\<not> needsBreakWait sh path except by sharedOK s"
    "indexed s x" "fileKeyLocked (opens s x) = \<lparr>fk_share = Some sh, fk_path = path\<rparr>" "Some x \<noteq> except"
    "op_lease (opens s x) = None \<longrightarrow> \<not> sameCacheView s x (as_guid by)"
    "\<forall>l. op_lease (opens s x) = Some l \<longrightarrow> \<not> covers s by l"
  shows "\<not> exclusive_holder s x"
proof
  assume ex: "exclusive_holder s x"
  have ok: "index_ok s" using caching_reachable_inv[OF assms(1)] by (simp add: caching_inv_def)
  obtain os ls where h: "holdersIn s (opensOn sh path except s) by = (os, ls)" by force
  note mem = on_file_mem[OF ok assms(3,4,5)]
  show False
  proof (cases "op_lease (opens s x)")
    case None
    with ex assms(6) mem have "x \<in> set os" "OPLOCK_LEVEL_II < oplockLevel (opens s x)"
      using holdersIn_sets(1)[OF h] by (auto simp: exclusive_holder_def)
    moreover from this have "oplockBreakTarget sharedOK < oplockLevel (opens s x)"
      by (auto simp: oplockBreakTarget_def oplock_level_defs word_less_nat_alt)
    ultimately show False using assms(2) h by (auto simp: needsBreakWait_def holdersOn_def)
  next
    case (Some l)
    let ?st = "ls_state (leases s l)"
    have w: "?st AND SMB2_LEASE_WRITE_CACHING \<noteq> 0" using ex Some by (simp add: exclusive_holder_def)
    then have "?st \<noteq> SMB2_LEASE_NONE" "?st \<noteq> SMB2_LEASE_READ_CACHING" by (auto simp: lease_state_defs)
    moreover from this Some assms(7) mem have "l \<in> set ls" using holdersIn_sets(2)[OF h] by auto
    moreover have "?st AND NOT (leaseBreakTarget ?st sharedOK) \<noteq> 0"
      using w within_no_write[OF _ leaseBreakTarget_no_write] by blast
    ultimately show False using assms(2) h by (auto simp: needsBreakWait_def holdersOn_def)
  qed
qed

text \<open>
  The timer of an oplock break that is over says nothing about a later one: an
  oplock was broken, the break ended and another one was started; when the timer of the first break runs
  out, nothing changes and the second break stays in flight with its channel open, so the client has the
  whole of its time to answer. The same holds for leases.
\<close>

theorem stale_timer_harmless:
  assumes "caching_reachable s"
  shows "(oplockBreak (opens s op) = None \<and>
     startOplockBreak op (oplockBreakTarget b1) s = (s1, Some c, True) \<and>
     completeOplockBreak op level s1 = (s2, r) \<and>
     startOplockBreak op (oplockBreakTarget b2) s2 = (s3, Some c', new) \<longrightarrow>
       expireOplockBreak op (oplockBreakSeq (opens s1 op)) OPLOCK_LEVEL_NONE s3 = (s3, False) \<and> c' \<notin> closed s3) \<and>
    (breakDone (leases s l) = None \<and>
     startBreak l (leaseBreakTarget (ls_state (leases s l)) b1) s = (u1, Some d, True) \<and>
     completeBreak l state u1 = (u2, q) \<and>
     startBreak l (leaseBreakTarget (ls_state (leases u2 l)) b2) u2 = (u3, Some d', new') \<longrightarrow>
       expireBreak l (breakSeq (leases u1 l)) SMB2_LEASE_NONE u3 = (u3, False) \<and> d' \<notin> closed u3)"
  using caching_reachable_inv[OF assms] ob.stale_timer[of s op b1 s1 c level s2 r b2 s3 c' new]
    lb.stale_timer[of s l b1 u1 d state u2 q b2 u3 d' new']
  by (auto simp: caching_inv_def)

text \<open>
  A client that answers a break keeps no more than it was told it may keep. An
  accepted answer to an oplock break leaves it the level it answered with, at most the level the break was
  to and never more than a read cache; an accepted answer to a lease break leaves the lease the state it
  answered with, within what the break was to leave and never with the write cache. Either way the break is
  over and whoever waited for it is released.
\<close>

theorem acknowledgment_bounds:
  assumes "caching_reachable s"
  shows "(acknowledgeOplockBreak op level s = (t, STATUS_OK, kept) \<longrightarrow>
      kept \<le> oplockBreakTo (opens s op) \<and> kept \<le> OPLOCK_LEVEL_II \<and> oplockLevel (opens t op) = kept \<and>
      oplockState (opens t op) \<noteq> OplockBreaking \<and>
      (\<exists>c. oplockBreak (opens s op) = Some c \<and> c \<notin> closed s \<and> c \<in> closed t)) \<and>
    (findLease g key s = Some l \<and> acknowledgeLeaseBreak g key state s = (u, STATUS_OK, left) \<longrightarrow>
      left AND NOT (breakToState (leases s l)) = 0 \<and> left AND SMB2_LEASE_WRITE_CACHING = 0 \<and>
      ls_state (leases u l) = left \<and> \<not> breaking (leases u l) \<and>
      (\<exists>c. breakDone (leases s l) = Some c \<and> c \<notin> closed s \<and> c \<in> closed u))"
proof -
  have inv: "caching_inv s" by (rule caching_reachable_inv[OF assms])
  then have ok: "oplocks_ok s" "leases_ok s" by (simp_all add: caching_inv_def)
  have "kept \<le> oplockBreakTo (opens s op) \<and> kept \<le> OPLOCK_LEVEL_II \<and> oplockLevel (opens t op) = kept \<and>
      oplockState (opens t op) \<noteq> OplockBreaking \<and>
      (\<exists>c. oplockBreak (opens s op) = Some c \<and> c \<notin> closed s \<and> c \<in> closed t)"
    if a: "acknowledgeOplockBreak op level s = (t, STATUS_OK, kept)"
  proof -
    note k = acknowledged_level[OF ok(1) a]
    obtain c where c: "oplockBreak (opens s op) = Some c"
      using k(1) oplocks_okD(2)[OF ok(1), of op] by (auto simp: oplock_ok_def)
    note fin = finishOplockBreak_flying[OF ok(1) c, of level]
    show ?thesis
      using k c fin ob.open_channel[OF ok(1) c] by (simp add: completeOplockBreak_def)
  qed
  moreover have "left AND NOT (breakToState (leases s l)) = 0 \<and> left AND SMB2_LEASE_WRITE_CACHING = 0 \<and>
      ls_state (leases u l) = left \<and> \<not> breaking (leases u l) \<and>
      (\<exists>c. breakDone (leases s l) = Some c \<and> c \<notin> closed s \<and> c \<in> closed u)"
    if a: "findLease g key s = Some l" "acknowledgeLeaseBreak g key state s = (u, STATUS_OK, left)"
  proof -
    let ?s = "fold clearReplayEligible (map snd (ls_opens (leases s l))) s"
    have inv': "caching_inv ?s" "leases ?s = leases s" using fold_clearReplayEligible_inv[OF inv] by blast+
    have cl: "closed ?s = closed s"
      by (rule fold_invariant[where Q = "\<lambda>_. True" and P = "\<lambda>t. closed t = closed s"])
         (simp_all add: clearReplayEligible_def Let_def)
    have b: "breaking (leases s l)" "left = state" "state AND NOT (breakToState (leases s l)) = 0"
      "u = fst (finishBreak l state ?s)"
      using a by (auto simp: acknowledgeLeaseBreak_def Let_def completeBreak_def status_defs
          oplock_status_defs split: if_splits)
    obtain c where c: "breakDone (leases s l) = Some c"
      using b(1) leases_okD(2)[OF ok(2), of l] by (auto simp: lease_ok_def)
    have "breakDone (leases ?s l) = Some c" using c inv'(2) by simp
    moreover have "leases_ok ?s" using inv'(1) by (simp add: caching_inv_def)
    ultimately have fin: "leases u = (leases s)(l := (leases s l)\<lparr>ls_state := state, breaking := False,
        breakDone := None\<rparr>)" "closed u = insert c (closed s)"
      using finishBreak_flying[of ?s l c state] b(4) inv'(2) cl by simp_all
    have "breakToState (leases s l) AND SMB2_LEASE_WRITE_CACHING = 0"
      using leases_okD(2)[OF ok(2), of l] by (simp add: lease_ok_def)
    with b(2,3) show ?thesis
      using fin c lb.open_channel[OF ok(2) c] within_no_write by (auto simp: fin)
  qed
  ultimately show ?thesis by blast
qed

subsection \<open>Two clients on one file\<close>

text \<open>The first client has the file to itself and takes a batch oplock; then the second one opens it.\<close>

definition client_open :: "u64 \<Rightarrow> guid \<Rightarrow> sid \<Rightarrow> openRec" where
  "client_open d g sh = blank_open\<lparr>durableFileID := d, op_share := Some sh, pathName := ''f'',
     fileName := ''f'', clientGuid := g\<rparr>"

definition comes :: "oid \<Rightarrow> u64 \<Rightarrow> guid \<Rightarrow> sid \<Rightarrow> server \<Rightarrow> server" where
  "comes op d g sh s = indexOpen op (upd_open op (\<lambda>_. client_open d g sh) s)"

definition alone :: server where
  "alone = comes 1 1 1 1 empty_server"

definition batch :: server where
  "batch = fst (grantOplock 1 OPLOCK_LEVEL_BATCH 1 ''f'' alone)"

definition met :: server where
  "met = comes 2 2 2 1 batch"

definition broken :: server where
  "broken = fst (startOplockBreak 1 (oplockBreakTarget True) batch)"

lemma caches_nothing_client: "caches_nothing (client_open d g sh)"
  by (simp add: caches_nothing_def client_open_def blank_open_def oplock_level_defs)

lemma comes_reachable:
  assumes "caching_reachable s" "unused s op d"
  shows "caching_reachable (comes op d g sh s)"
  unfolding comes_def
  by (rule caching_reachable.step[OF assms(1)], rule caching_step.opened[OF caches_nothing_client])
     (use assms(2) in \<open>simp add: client_open_def\<close>)

lemma alone_index: "opensByFile alone = [(\<lparr>fk_share = Some 1, fk_path = ''f''\<rparr>, [(1, 1)])]"
  "opens alone = (\<lambda>_. blank_open)(1 := client_open 1 1 1)"
  by (simp_all add: alone_def comes_def indexOpen_def Let_def bucket_def empty_server_def upd_open_def
      fileKeyLocked_def client_open_def)

lemma alone_reachable: "caching_reachable alone"
  unfolding alone_def by (rule comes_reachable[OF caching_reachable.start])
    (simp add: unused_def filed_def bucket_def empty_server_def)

lemma indexed_alone: "indexed alone 1"
  "fileKeyLocked (opens alone 1) = \<lparr>fk_share = Some 1, fk_path = ''f''\<rparr>"
  by (simp_all add: indexed_def filed_def bucket_def alone_index fileKeyLocked_def client_open_def)

lemma batch_granted:
  "grantOplock 1 OPLOCK_LEVEL_BATCH 1 ''f'' alone =
     (upd_open 1 (\<lambda>o'. o'\<lparr>oplockLevel := OPLOCK_LEVEL_BATCH, oplockState := OplockHeld\<rparr>) alone,
      OPLOCK_LEVEL_BATCH, [], [])"
  by (simp add: grantOplock_def opensOn_def bucket_def alone_index client_open_def blank_open_def
      holdersIn_def oplock_level_defs)

lemma batch_reachable: "caching_reachable batch"
  unfolding batch_def
  by (rule caching_reachable.step[OF alone_reachable],
      rule caching_step.oplock_asked[OF indexed_alone(1) _ indexed_alone(2)])
     (simp add: alone_index client_open_def blank_open_def)

lemma batch_simps:
  "opens batch = (opens alone)(1 := (client_open 1 1 1)\<lparr>oplockLevel := OPLOCK_LEVEL_BATCH, oplockState := OplockHeld\<rparr>)"
  "opensByFile batch = opensByFile alone" "nextChannel batch = 0" "leases batch = (\<lambda>_. blank_lease)" "closed batch = {}"
  unfolding batch_def batch_granted
  by (simp_all add: alone_index, simp_all add: alone_def comes_def empty_server_def indexOpen_def Let_def)

lemma met_reachable: "caching_reachable met"
  unfolding met_def
  by (rule comes_reachable[OF batch_reachable]) (simp add: unused_def filed_def bucket_def batch_simps alone_index)

lemma met_simps:
  "opens met = (opens batch)(2 := client_open 2 2 1)"
  "opensByFile met = [(\<lparr>fk_share = Some 1, fk_path = ''f''\<rparr>, [(1, 1), (2, 2)])]"
  by (simp_all add: met_def comes_def indexOpen_def Let_def bucket_def batch_simps alone_index
      fileKeyLocked_def client_open_def)


lemma batch_breaks:
  "startOplockBreak 1 (oplockBreakTarget True) batch =
     (upd_open 1 (\<lambda>o'. o'\<lparr>oplockState := OplockBreaking, oplockBreakTo := OPLOCK_LEVEL_II,
        oplockBreakSeq := oplockBreakSeq o' + 1, oplockBreak := Some 0\<rparr>) (batch\<lparr>nextChannel := 1\<rparr>),
      Some 0, True)"
  by (simp add: startOplockBreak_def batch_simps oplockBreakTarget_def make_chan_def oplock_level_defs
      word_le_nat_alt)

theorem breaks_never_panic_witness: "\<not> panicked met \<and> in_flight met (Inl 1) = None"
  using breaks_never_panic[OF met_reachable]
  by (simp add: met_simps batch_simps client_open_def blank_open_def)

theorem no_wait_no_dirty_cache_witness: "\<not> exclusive_holder alone 1"
proof -
  let ?by = "\<lparr>as_guid = 2, as_own = None, as_keyed = False\<rparr>"
  have "\<not> needsBreakWait 1 ''f'' None ?by True alone"
    by (simp add: needsBreakWait_def holdersOn_def holdersIn_def opensOn_def bucket_def alone_index
        client_open_def blank_open_def)
  moreover have "\<not> sameCacheView alone 1 (as_guid ?by)" "op_lease (opens alone 1) = None"
    by (simp_all add: sameCacheView_def alone_index client_open_def blank_open_def)
  ultimately show ?thesis
    using no_wait_no_dirty_cache[OF alone_reachable _ indexed_alone, of None ?by True] by simp
qed

lemma broken_simps:
  "opens broken = (opens batch)(1 := (opens batch 1)\<lparr>oplockState := OplockBreaking,
     oplockBreakTo := OPLOCK_LEVEL_II, oplockBreakSeq := oplockBreakSeq (opens batch 1) + 1,
     oplockBreak := Some 0\<rparr>)"
  "closed broken = {}"
  unfolding broken_def batch_breaks by (simp_all add: batch_simps)

lemma broken_reachable: "caching_reachable broken"
proof -
  let ?by = "\<lparr>as_guid = 2, as_own = None, as_keyed = False\<rparr>"
  have "holdersOn batch 1 ''f'' None ?by = ([1], [])"
    by (simp add: holdersOn_def holdersIn_def opensOn_def bucket_def batch_simps alone_index
        client_open_def blank_open_def sameCacheView_def)
  then have "fst (startHolderBreaks 1 ''f'' None ?by True batch) = broken"
    by (simp add: startHolderBreaks_def broken_def batch_breaks[unfolded One_nat_def] Let_def)
  moreover have "caching_reachable (fst (startHolderBreaks 1 ''f'' None ?by True batch))"
    by (rule caching_reachable.step[OF batch_reachable caching_step.breaks])
  ultimately show ?thesis by simp
qed

theorem stale_timer_harmless_witness:
  "\<exists>s1 s2 s3 c c'. startOplockBreak 1 (oplockBreakTarget True) batch = (s1, Some c, True) \<and>
     completeOplockBreak 1 OPLOCK_LEVEL_II s1 = (s2, True) \<and>
     startOplockBreak 1 (oplockBreakTarget False) s2 = (s3, Some c', True) \<and>
     expireOplockBreak 1 (oplockBreakSeq (opens s1 1)) OPLOCK_LEVEL_NONE s3 = (s3, False)"
proof -
  obtain s2 where s2: "completeOplockBreak 1 OPLOCK_LEVEL_II broken = (s2, True)"
    "oplockState (opens s2 1) = OplockHeld" "oplockLevel (opens s2 1) = OPLOCK_LEVEL_II"
    by (rule that[of "fst (completeOplockBreak 1 OPLOCK_LEVEL_II broken)"])
       (simp_all add: completeOplockBreak_def finishOplockBreak_def broken_simps Let_def oplock_level_defs)
  obtain s3 c' where s3: "startOplockBreak 1 (oplockBreakTarget False) s2 = (s3, Some c', True)"
    using s2(2,3) by (simp add: startOplockBreak_def oplockBreakTarget_def make_chan_def oplock_level_defs)
  have s1: "startOplockBreak 1 (oplockBreakTarget True) batch = (broken, Some 0, True)"
    by (simp add: broken_def batch_breaks[unfolded One_nat_def])
  have "oplockBreak (opens batch 1) = None" by (simp add: batch_simps client_open_def blank_open_def)
  with s1 s2 s3 show ?thesis
    using stale_timer_harmless[OF batch_reachable, of 1 True broken 0 OPLOCK_LEVEL_II s2 True False s3 c' True]
    by blast
qed

theorem acknowledgment_bounds_witness:
  "\<exists>t. acknowledgeOplockBreak 1 OPLOCK_LEVEL_II broken = (t, STATUS_OK, OPLOCK_LEVEL_II) \<and>
     oplockLevel (opens t 1) = OPLOCK_LEVEL_II \<and> 0 \<in> closed t"
proof -
  have "snd (acknowledgeOplockBreak 1 OPLOCK_LEVEL_II broken) = (STATUS_OK, OPLOCK_LEVEL_II)"
    by (simp add: acknowledgeOplockBreak_def Let_def broken_simps batch_simps ack_valid_def oplock_level_defs)
  then obtain t where t: "acknowledgeOplockBreak 1 OPLOCK_LEVEL_II broken = (t, STATUS_OK, OPLOCK_LEVEL_II)"
    by (metis prod.collapse)
  have "oplockBreak (opens broken 1) = Some 0" by (simp add: broken_simps)
  with acknowledgment_bounds[OF broken_reachable, of 1 OPLOCK_LEVEL_II t OPLOCK_LEVEL_II] t
  show ?thesis by auto
qed

subsection \<open>Where the code falls short\<close>

text \<open>
  A client holds a read lease on a file of one share, beside another client's level II oplock. It then
  opens a file of the same path on another share under the same key and asks for everything.
\<close>

definition crossing :: server where
  "crossing =
     (let s1 = fst (grantOplock 1 OPLOCK_LEVEL_II 1 ''f'' alone);
          (s2, l, ok) = leaseFor 2 9 ''f'' (comes 2 2 2 1 s1);
          s3 = fst (grantLease 2 l SMB2_LEASE_READ_CACHING 1 ''f'' s2);
          (s4, l', ok') = leaseFor 2 9 ''f'' (comes 3 3 2 2 s3)
      in fst (grantLease 3 l' leaseStates 2 ''f'' s4))"

text \<open>
  A lease is found by its key and its path, and the share is not compared:
  joining the lease on the second share raises its state for the opens on the first one too. The client
  then holds the write cache on the first share's file while another client still holds a read cache
  there, and neither of them has been told.
\<close>

theorem lease_key_crosses_shares:
  "indexed crossing 1 \<and> indexed crossing 2 \<and>
   fileKeyLocked (opens crossing 1) = fileKeyLocked (opens crossing 2) \<and> \<not> same_view crossing 1 2 \<and>
   exclusive_holder crossing 2 \<and> holds crossing 1 \<and>
   \<not> breaking (leases crossing 0) \<and> oplockState (opens crossing 1) = OplockHeld"
  by code_simp

text \<open>
  A client holds the full lease on a file, and opens the file again without a lease; then it opens it once
  more under the key of the lease, asking for everything.
\<close>

definition full_lease :: server where
  "full_lease =
     (let (s1, l, ok) = leaseFor 2 9 ''f'' (comes 2 2 2 1 empty_server)
      in fst (grantLease 2 l leaseStates 1 ''f'' s1))"

definition reopened :: server where
  "reopened = fst (grantLease 4 0 leaseStates 1 ''f'' (comes 4 4 2 1 (comes 3 3 2 1 full_lease)))"

text \<open>
  Joining a lease can lower it: the write cache the client was promised
  is taken off the server's record without a break, so that the next create by another client finds
  nothing to wait for while this client still holds unsent writes under its earlier promise.
\<close>

theorem lease_lowered_without_break:
  "ls_state (leases full_lease 0) = leaseStates \<and>
   ls_state (leases reopened 0) = leaseStates AND NOT SMB2_LEASE_WRITE_CACHING \<and>
   epoch (leases reopened 0) = epoch (leases full_lease 0) \<and> \<not> breaking (leases reopened 0) \<and>
   op_lease (opens reopened 2) = Some 0 \<and>
   \<not> needsBreakWait 1 ''f'' None \<lparr>as_guid = 7, as_own = None, as_keyed = False\<rparr> True reopened"
  by code_simp

end
