(* ===== verification/Lznt1.thy ===== *)
theory Lznt1
  imports Sombrero_Prelude
begin

section \<open>LZNT1\<close>

text \<open>
  \<^verbatim>\<open>src/compress/lznt1/lznt1.go\<close>: the compressor with its hash chains, tag groups and adaptive split, and
  the decompressor with its bound on the output. A chunk is a list of bytes; a position in it is a
  \<^typ>\<open>nat\<close>; what is left to read is the rest of the list. The tag accumulator's fixed buffer is the list of
  the bytes in use, the arrays of the match finder are functions. Growing a slice's capacity has no
  counterpart.
\<close>

subsection \<open>Constants and errors\<close>

datatype lznt1_error = ErrUnexpectedEOF | ErrInvalidHeader | ErrInvalidOffset | ErrInputTooShort | ErrOutputTooLong

definition chunkSize :: nat where "chunkSize = 4096"
definition minMatch :: nat where "minMatch = 3"
definition maxMatch :: nat where "maxMatch = 4098"
definition maxSearchDepth :: nat where "maxSearchDepth = 16"
definition hashMask :: nat where "hashMask = 0xfff"
definition emptyEntry :: u16 where "emptyEntry = 0xffff"
definition headerCompressed :: u16 where "headerCompressed = 0xb000"
definition headerRaw :: u16 where "headerRaw = 0x3000"
definition headerCompressedFlag :: u16 where "headerCompressedFlag = 0x8000"
definition tagGroupSize :: nat where "tagGroupSize = 8"
definition initialSplit :: nat where "initialSplit = 12"
definition initialThreshold :: nat where "initialThreshold = 16"

lemmas lznt1_consts = chunkSize_def minMatch_def maxMatch_def tagGroupSize_def initialSplit_def
  initialThreshold_def

subsection \<open>The tag accumulator\<close>

record tagAccumulator =
  tagByte :: byte
  itemCount :: nat
  ta_buffer :: "byte list"

definition empty_ta :: tagAccumulator where
  "empty_ta = \<lparr>tagByte = 0, itemCount = 0, ta_buffer = []\<rparr>"

text \<open>The accumulator and the output, which the Go code passes by pointer, are threaded through.\<close>

definition ta_flush :: "tagAccumulator \<times> byte list \<Rightarrow> tagAccumulator \<times> byte list" where
  "ta_flush = (\<lambda>(ta, output).
     if itemCount ta > 0 then (empty_ta, output @ [tagByte ta] @ ta_buffer ta) else (ta, output))"

definition commitItem :: "tagAccumulator \<times> byte list \<Rightarrow> tagAccumulator \<times> byte list" where
  "commitItem = (\<lambda>(ta, output).
     let ta' = ta\<lparr>itemCount := itemCount ta + 1\<rparr>
     in if itemCount ta' = 8 then ta_flush (ta', output) else (ta', output))"

definition pushLiteral :: "byte \<Rightarrow> tagAccumulator \<times> byte list \<Rightarrow> tagAccumulator \<times> byte list" where
  "pushLiteral b = (\<lambda>(ta, output). commitItem (ta\<lparr>ta_buffer := ta_buffer ta @ [b]\<rparr>, output))"

definition pushTuple :: "u16 \<Rightarrow> tagAccumulator \<times> byte list \<Rightarrow> tagAccumulator \<times> byte list" where
  "pushTuple tuple = (\<lambda>(ta, output).
     commitItem (ta\<lparr>tagByte := tagByte ta OR push_bit (itemCount ta) 1,
       ta_buffer := ta_buffer ta @ [ucast tuple, ucast (drop_bit 8 tuple)]\<rparr>, output))"

subsection \<open>The match finder\<close>

record lz_context =
  ctx_head :: "nat \<Rightarrow> u16"
  ctx_next :: "nat \<Rightarrow> u16"

definition newContext :: lz_context where
  "newContext = \<lparr>ctx_head = (\<lambda>_. emptyEntry), ctx_next = (\<lambda>_. emptyEntry)\<rparr>"

definition ctx_reset :: "lz_context \<Rightarrow> lz_context" where
  "ctx_reset c = c\<lparr>ctx_head := (\<lambda>_. emptyEntry)\<rparr>"

definition hash3 :: "byte \<Rightarrow> byte \<Rightarrow> byte \<Rightarrow> nat" where
  "hash3 b0 b1 b2 =
     ((push_bit 6 (unat b0) XOR push_bit 3 (unat b1)) XOR unat b2) AND hashMask"

definition ctx_update :: "byte list \<Rightarrow> nat \<Rightarrow> lz_context \<Rightarrow> lz_context" where
  "ctx_update input idx c =
     (if idx + minMatch \<le> length input
      then let h = hash3 (input ! idx) (input ! (idx + 1)) (input ! (idx + 2))
           in c\<lparr>ctx_next := (ctx_next c)(idx := ctx_head c h), ctx_head := (ctx_head c)(h := of_nat idx)\<rparr>
      else c)"

text \<open>\<^verbatim>\<open>commonPrefixLen(a, b, max)\<close>.\<close>

fun common_loop :: "byte list \<Rightarrow> byte list \<Rightarrow> nat \<Rightarrow> nat" where
  "common_loop (x # xs) (y # ys) (Suc n) = (if x = y then Suc (common_loop xs ys n) else 0)"
| "common_loop _ _ _ = 0"

definition commonPrefixLen :: "byte list \<Rightarrow> byte list \<Rightarrow> nat \<Rightarrow> nat" where
  "commonPrefixLen a b maxLen = common_loop a b maxLen"

text \<open>The walk down a hash chain: the best length and offset so far, and the depth.\<close>

function lz_search ::
  "byte list \<Rightarrow> lz_context \<Rightarrow> nat \<Rightarrow> nat \<Rightarrow> u16 \<Rightarrow> nat \<Rightarrow> nat \<Rightarrow> nat \<Rightarrow> nat \<times> nat" where
  "lz_search chunk ctx inIdx maxOffset candidateIdx depth bestLen bestOff =
     (if candidateIdx \<noteq> emptyEntry \<and> depth < maxSearchDepth then
        let candidate = unat candidateIdx
        in if candidate \<ge> inIdx then (bestLen, bestOff)
           else let dist = inIdx - candidate
             in if dist \<ge> maxOffset then (bestLen, bestOff)
                else let matchLen = commonPrefixLen (drop inIdx chunk) (drop candidate chunk) maxMatch
                  in if inIdx + bestLen < length chunk \<and> chunk ! (candidate + bestLen) = chunk ! (inIdx + bestLen) \<and>
                        matchLen \<ge> minMatch \<and> matchLen > bestLen
                     then if matchLen \<ge> maxMatch then (maxMatch, dist)
                          else lz_search chunk ctx inIdx maxOffset (ctx_next ctx candidate) (depth + 1) matchLen dist
                     else lz_search chunk ctx inIdx maxOffset (ctx_next ctx candidate) (depth + 1) bestLen bestOff
      else (bestLen, bestOff))"
  by pat_completeness auto
termination by (relation "measure (\<lambda>(_, _, _, _, _, depth, _, _). maxSearchDepth - depth)") auto

definition bestMatch :: "byte list \<Rightarrow> lz_context \<Rightarrow> nat \<Rightarrow> nat \<Rightarrow> nat \<times> nat" where
  "bestMatch chunk ctx inIdx maxOffset =
     (if inIdx + minMatch \<le> length chunk
      then lz_search chunk ctx inIdx maxOffset
             (ctx_head ctx (hash3 (chunk ! inIdx) (chunk ! (inIdx + 1)) (chunk ! (inIdx + 2)))) 0 0 0
      else (0, 0))"

subsection \<open>Compression\<close>

text \<open>
  The adaptive loop: the threshold doubles and the split shrinks until the threshold covers what has been
  written. It starts at 16 and only ever doubles, so the guard against zero, which makes the recursion
  well-founded, is never what stops it.
\<close>

function adapt :: "nat \<Rightarrow> nat \<Rightarrow> nat \<Rightarrow> nat \<times> nat" where
  "adapt blobOutLen threshold split =
     (if blobOutLen > threshold \<and> threshold > 0
      then adapt blobOutLen (2 * threshold) (if split > 0 then split - 1 else split)
      else (threshold, split))"
  by pat_completeness auto
termination by (relation "measure (\<lambda>(n, t, _). n - t)") auto

declare lz_search.simps [simp del] adapt.simps [simp del]

fun update_range :: "byte list \<Rightarrow> nat \<Rightarrow> nat \<Rightarrow> lz_context \<Rightarrow> lz_context" where
  "update_range chunk inIdx 0 ctx = ctx"
| "update_range chunk inIdx (Suc n) ctx = update_range chunk (inIdx + 1) n (ctx_update chunk inIdx ctx)"

definition mk_tuple :: "nat \<Rightarrow> nat \<Rightarrow> nat \<Rightarrow> u16" where
  "mk_tuple split bestOff bestLen = of_nat (push_bit split (bestOff - 1) OR (bestLen - 3))"

definition clampLen :: "nat \<Rightarrow> nat \<Rightarrow> nat" where
  "clampLen split bestLen = (if bestLen > 2 ^ split + 2 then 2 ^ split + 2 else bestLen)"

function (sequential) compress_loop ::
  "byte list \<Rightarrow> nat \<Rightarrow> nat \<Rightarrow> nat \<Rightarrow> nat \<Rightarrow> lz_context \<Rightarrow> tagAccumulator \<times> byte list \<Rightarrow>
   lz_context \<times> tagAccumulator \<times> byte list" where
  "compress_loop chunk inIdx blobOutLen threshold split ctx acc =
     (if inIdx < length chunk then
        (case bestMatch chunk ctx inIdx (2 ^ (16 - split)) of
           (bestLen, bestOff) \<Rightarrow>
             (if bestLen \<ge> minMatch then
                let len = clampLen split bestLen;
                    (threshold', split') = adapt (blobOutLen + len) threshold split
                in compress_loop chunk (inIdx + len) (blobOutLen + len) threshold' split'
                     (update_range chunk inIdx len ctx) (pushTuple (mk_tuple split bestOff len) acc)
              else
                let (threshold', split') = adapt (blobOutLen + 1) threshold split
                in compress_loop chunk (inIdx + 1) (blobOutLen + 1) threshold' split'
                     (ctx_update chunk inIdx ctx) (pushLiteral (chunk ! inIdx) acc)))
      else (ctx, acc))"
  by pat_completeness auto
termination
  by (relation "measure (\<lambda>(chunk, inIdx, _). length chunk - inIdx)") (auto simp: clampLen_def minMatch_def)

declare compress_loop.simps [simp del]

definition compressChunk :: "byte list \<Rightarrow> byte list \<Rightarrow> lz_context \<Rightarrow> lz_context \<times> byte list" where
  "compressChunk chunk output ctx =
     (case compress_loop chunk 0 0 16 12 (ctx_reset ctx) (empty_ta, output) of
        (ctx', acc) \<Rightarrow> (ctx', snd (ta_flush acc)))"

definition encodeHeader :: "u16 \<Rightarrow> nat \<Rightarrow> u16" where
  "encodeHeader flag n = flag OR (of_nat (n - 1) AND of_nat hashMask)"

definition header_bytes :: "u16 \<Rightarrow> byte list" where
  "header_bytes header = [ucast header, ucast (drop_bit 8 header)]"

function Compress_loop :: "lz_context \<Rightarrow> byte list \<Rightarrow> byte list \<Rightarrow> byte list" where
  "Compress_loop ctx src dst =
     (if src \<noteq> [] then
        let chunk = take chunkSize src;
            (ctx', out) = compressChunk chunk (dst @ [0, 0]) ctx;
            compressedLen = length out - length dst - 2;
            dst' = (if compressedLen < length chunk
                    then take (length dst) out @ header_bytes (encodeHeader headerCompressed compressedLen) @
                         drop (length dst + 2) out
                    else take (length dst) out @ header_bytes (encodeHeader headerRaw (length chunk)) @ chunk)
        in Compress_loop ctx' (drop chunkSize src) dst'
      else dst)"
  by pat_completeness auto
termination by (relation "measure (\<lambda>(_, src, _). length src)") (auto simp: chunkSize_def)

declare Compress_loop.simps [simp del]

definition lznt1_Compress :: "byte list \<Rightarrow> byte list" where
  "lznt1_Compress src = Compress_loop newContext src []"

subsection \<open>Decompression\<close>

text \<open>The adaptive state of the decompressor: threshold, split and mask.\<close>

function updateAdaptiveState :: "nat \<Rightarrow> nat \<times> nat \<times> nat \<Rightarrow> nat \<times> nat \<times> nat" where
  "updateAdaptiveState currentLen (threshold, split, msk) =
     (if currentLen > threshold \<and> threshold > 0
      then updateAdaptiveState currentLen
             (2 * threshold, if split > 0 then split - 1 else split,
              if split > 0 then 2 ^ (split - 1) - 1 else msk)
      else (threshold, split, msk))"
  by pat_completeness auto
termination by (relation "measure (\<lambda>(n, t, _). n - t)") auto

declare updateAdaptiveState.simps [simp del]

fun copy_match :: "nat \<Rightarrow> nat \<Rightarrow> nat \<Rightarrow> byte list \<Rightarrow> byte list" where
  "copy_match srcPos k 0 dst = dst"
| "copy_match srcPos k (Suc n) dst = copy_match srcPos (k + 1) n (dst @ [dst ! (srcPos + k)])"

definition applyMatch :: "byte list \<Rightarrow> nat \<Rightarrow> nat \<Rightarrow> lznt1_error + byte list" where
  "applyMatch dst len offset =
     (if offset > length dst then Inl ErrInvalidOffset
      else if offset = 1 then Inr (dst @ replicate len (last dst))
      else Inr (copy_match (length dst - offset) 0 len dst))"

text \<open>
  The items of one tag group. \<open>Fail\<close> and \<open>Stop\<close> are the early returns out of the block, with an error and
  without; \<open>More\<close> goes on with the next group.
\<close>

datatype flow = Fail lznt1_error | Stop "byte list" | More "byte list" "byte list" "nat \<times> nat \<times> nat"

fun u16_of :: "byte \<Rightarrow> byte \<Rightarrow> u16" where
  "u16_of b0 b1 = ucast b0 OR push_bit 8 (ucast b1)"

fun group_items ::
  "nat \<Rightarrow> byte \<Rightarrow> nat \<Rightarrow> int \<Rightarrow> byte list \<Rightarrow> byte list \<Rightarrow> nat \<times> nat \<times> nat \<Rightarrow> flow" where
  "group_items 0 tag start limit src dst st = More src dst st"
| "group_items (Suc n) tag start limit src dst st =
     (let i = tagGroupSize - Suc n
      in if bit tag i then
           (case src of
              b0 # b1 # rest \<Rightarrow>
                (let tuple = unat (u16_of b0 b1); (threshold, split, msk) = st;
                     len = (tuple AND msk) + 3; offset = drop_bit split tuple + 1
                 in case applyMatch dst len offset of
                      Inl err \<Rightarrow> Fail err
                    | Inr dst' \<Rightarrow>
                        (if limit > 0 \<and> int (length dst') > limit then Fail ErrOutputTooLong
                         else let st' = updateAdaptiveState (length dst' - start) st
                              in if rest = [] then Stop dst' else group_items n tag start limit rest dst' st'))
            | _ \<Rightarrow> Fail ErrUnexpectedEOF)
         else
           (case src of
              [] \<Rightarrow> Stop dst
            | b # rest \<Rightarrow>
                (let dst' = dst @ [b]; st' = updateAdaptiveState (length dst' - start) st
                 in if rest = [] then Stop dst' else group_items n tag start limit rest dst' st')))"

lemma group_items_shrinks: "group_items n tag start limit src dst st = More src' dst' st' \<Longrightarrow> length src' \<le> length src"
proof (induction n tag start limit src dst st rule: group_items.induct)
  case (2 n tag start limit src dst st)
  then show ?case
    by (cases "bit tag (tagGroupSize - Suc n)")
       (fastforce simp: Let_def split: list.splits sum.splits if_splits prod.splits)+
qed simp

function block_loop ::
  "nat \<Rightarrow> int \<Rightarrow> byte list \<Rightarrow> byte list \<Rightarrow> nat \<times> nat \<times> nat \<Rightarrow> lznt1_error + byte list" where
  "block_loop start limit [] dst st = Inr dst"
| "block_loop start limit (tag # src) dst st =
     (if tag = 0 \<and> length src \<ge> tagGroupSize then
        let dst' = dst @ take tagGroupSize src
        in block_loop start limit (drop tagGroupSize src) dst' (updateAdaptiveState (length dst' - start) st)
      else
        (case group_items tagGroupSize tag start limit src dst st of
           Fail err \<Rightarrow> Inl err
         | Stop dst' \<Rightarrow> Inr dst'
         | More src' dst' st' \<Rightarrow> block_loop start limit src' dst' st'))"
  by pat_completeness auto
termination
  by (relation "measure (\<lambda>(_, _, src, _). length src)") (auto dest: group_items_shrinks)

declare block_loop.simps(2) [simp del]

definition decompressBlock :: "byte list \<Rightarrow> byte list \<Rightarrow> int \<Rightarrow> lznt1_error + byte list" where
  "decompressBlock src dst limit =
     block_loop (length dst) limit src dst (initialThreshold, initialSplit, 2 ^ initialSplit - 1)"

function lznt1_Decompress_loop :: "int \<Rightarrow> byte list \<Rightarrow> byte list \<Rightarrow> lznt1_error + byte list" where
  "lznt1_Decompress_loop limit src dst =
     (if src = [] then Inr dst
      else if length src = 1 \<and> hd src = 0 then Inr dst
      else if length src < 2 then Inl ErrUnexpectedEOF
      else let header = u16_of (src ! 0) (src ! 1); body = drop 2 src
           in if header = 0 then Inr dst
              else let size = (unat header AND hashMask) + 1;
                       isCompressed = header AND headerCompressedFlag \<noteq> 0
                   in if size > length body then Inl ErrInputTooShort
                      else case (if isCompressed then decompressBlock (take size body) dst limit
                                 else Inr (dst @ take size body)) of
                             Inl err \<Rightarrow> Inl err
                           | Inr dst' \<Rightarrow>
                               (if limit > 0 \<and> int (length dst') > limit then Inl ErrOutputTooLong
                                else lznt1_Decompress_loop limit (drop size body) dst'))"
  by pat_completeness auto
termination by (relation "measure (\<lambda>(_, src, _). length src)") auto

declare lznt1_Decompress_loop.simps [simp del]

definition lznt1_Decompress :: "byte list \<Rightarrow> int \<Rightarrow> lznt1_error + byte list" where
  "lznt1_Decompress src limit = lznt1_Decompress_loop limit src []"

subsection \<open>Tokens\<close>

text \<open>
  The compressed form of a chunk between the two byte formats: literals and tuples, in groups of eight
  under one tag byte.
\<close>

datatype token = Lit byte | Tup u16

fun is_tup :: "token \<Rightarrow> bool" where
  "is_tup (Lit _) = False"
| "is_tup (Tup _) = True"

fun push :: "token \<Rightarrow> tagAccumulator \<times> byte list \<Rightarrow> tagAccumulator \<times> byte list" where
  "push (Lit b) = pushLiteral b"
| "push (Tup t) = pushTuple t"

fun tok_bytes :: "token \<Rightarrow> byte list" where
  "tok_bytes (Lit b) = [b]"
| "tok_bytes (Tup t) = [ucast t, ucast (drop_bit 8 t)]"

definition toks_bytes :: "token list \<Rightarrow> byte list" where
  "toks_bytes ts = concat (map tok_bytes ts)"

fun tag_from :: "nat \<Rightarrow> token list \<Rightarrow> byte" where
  "tag_from i [] = 0"
| "tag_from i (t # ts) = (if is_tup t then push_bit i 1 else 0) OR tag_from (Suc i) ts"

definition enc_group :: "token list \<Rightarrow> byte list" where
  "enc_group g = tag_from 0 g # toks_bytes g"

function enc_groups :: "token list \<Rightarrow> byte list" where
  "enc_groups [] = []"
| "enc_groups (t # ts) = enc_group (take 8 (t # ts)) @ enc_groups (drop 8 (t # ts))"
  by pat_completeness auto
termination by (relation "measure length") auto

declare enc_groups.simps(2) [simp del]

lemma toks_bytes_simps [simp]:
  "toks_bytes [] = []" "toks_bytes (t # ts) = tok_bytes t @ toks_bytes ts"
  "toks_bytes (xs @ ys) = toks_bytes xs @ toks_bytes ys"
  by (simp_all add: toks_bytes_def)

lemma tok_bytes_not_Nil [simp]: "tok_bytes t \<noteq> []"
  by (cases t) simp_all

lemma bit_tag_from:
  "bit (tag_from i ts) j \<longleftrightarrow> j < 8 \<and> i \<le> j \<and> j - i < length ts \<and> is_tup (ts ! (j - i))"
proof (induction ts arbitrary: i)
  case (Cons t ts)
  have "bit (push_bit i (1 :: byte)) j \<longleftrightarrow> j < 8 \<and> i = j" by (auto simp: bit_simps)
  then show ?case using Cons[of "Suc i"]
    by (cases "i = j"; cases "i < j") (auto simp: bit_simps nth_Cons')
qed simp

lemma tag_from_append: "tag_from i (xs @ [t]) = tag_from i xs OR (if is_tup t then push_bit (i + length xs) 1 else 0)"
  by (induction xs arbitrary: i) (simp_all add: or.assoc)

lemma tag_zero: "tag_from 0 g = 0 \<Longrightarrow> length g \<le> 8 \<Longrightarrow> k < length g \<Longrightarrow> \<not> is_tup (g ! k)"
  using bit_tag_from[of 0 g k] by auto

text \<open>Pushing a group into an empty accumulator.\<close>

lemma push_commit:
  "push t (ta, out) = commitItem (ta\<lparr>tagByte := tagByte ta OR (if is_tup t then push_bit (itemCount ta) 1 else 0),
     ta_buffer := ta_buffer ta @ tok_bytes t\<rparr>, out)"
  by (cases t) (simp_all add: pushLiteral_def pushTuple_def)

lemma push_partial:
  "length g < 8 \<Longrightarrow> fold push g (empty_ta, out) =
     (\<lparr>tagByte = tag_from 0 g, itemCount = length g, ta_buffer = toks_bytes g\<rparr>, out)"
proof (induction g rule: rev_induct)
  case (snoc t g)
  then show ?case by (simp add: push_commit commitItem_def tag_from_append)
qed (simp add: empty_ta_def)

lemma push_full:
  assumes "length g = 8"
  shows "fold push g (empty_ta, out) = (empty_ta, out @ enc_group g)"
proof -
  obtain h t where g: "g = h @ [t]" using assms by (cases g rule: rev_cases) auto
  with assms have "length h < 8" by simp
  then have "fold push h (empty_ta, out) =
      (\<lparr>tagByte = tag_from 0 h, itemCount = length h, ta_buffer = toks_bytes h\<rparr>, out)" by (rule push_partial)
  then show ?thesis
    using assms by (simp add: g push_commit commitItem_def ta_flush_def tag_from_append enc_group_def)
qed

lemma push_all: "snd (ta_flush (fold push ts (empty_ta, out))) = out @ enc_groups ts"
proof (induction ts arbitrary: out rule: enc_groups.induct)
  case 1
  then show ?case by (simp add: ta_flush_def empty_ta_def)
next
  case (2 t ts)
  show ?case
  proof (cases "length (t # ts) < 8")
    case True
    from push_partial[OF this, of out] have "snd (ta_flush (fold push (t # ts) (empty_ta, out))) =
        out @ enc_group (t # ts)"
      by (simp add: ta_flush_def enc_group_def del: fold.simps)
    then show ?thesis using True by (simp add: enc_groups.simps(2))
  next
    case False
    then have "fold push (take 8 (t # ts)) (empty_ta, out) = (empty_ta, out @ enc_group (take 8 (t # ts)))"
      by (intro push_full) simp
    then have "fold push (t # ts) (empty_ta, out) =
        fold push (drop 8 (t # ts)) (empty_ta, out @ enc_group (take 8 (t # ts)))"
      by (metis append_take_drop_id comp_apply fold_append)
    then show ?thesis using 2[of "out @ enc_group (take 8 (t # ts))"] by (simp add: enc_groups.simps(2))
  qed
qed

subsection \<open>The decompressor reads the tokens back\<close>

type_synonym adaptive = "nat \<times> nat \<times> nat"

text \<open>What the tokens stand for, under the adaptive state, with the bound on the output.\<close>

fun apply_toks :: "nat \<Rightarrow> int \<Rightarrow> token list \<Rightarrow> byte list \<Rightarrow> adaptive \<Rightarrow> (byte list \<times> adaptive) option" where
  "apply_toks start limit [] dst st = Some (dst, st)"
| "apply_toks start limit (Lit b # ts) dst st =
     apply_toks start limit ts (dst @ [b]) (updateAdaptiveState (length (dst @ [b]) - start) st)"
| "apply_toks start limit (Tup t # ts) dst st =
     (case applyMatch dst ((unat t AND snd (snd st)) + 3) (drop_bit (fst (snd st)) (unat t) + 1) of
        Inl _ \<Rightarrow> None
      | Inr dst' \<Rightarrow>
          (if limit > 0 \<and> int (length dst') > limit then None
           else apply_toks start limit ts dst' (updateAdaptiveState (length dst' - start) st)))"

lemma apply_toks_append:
  "apply_toks start limit (xs @ ys) dst st =
     (case apply_toks start limit xs dst st of None \<Rightarrow> None | Some (dst', st') \<Rightarrow> apply_toks start limit ys dst' st')"
proof (induction xs arbitrary: dst st)
  case (Cons t xs)
  then show ?case by (cases t) (simp_all split: sum.split)
qed simp

lemma u16_of_bytes [simp]: "u16_of (ucast t) (ucast (drop_bit 8 t)) = t"
  by (rule bit_word_eqI) (auto simp: bit_simps)

lemma group_items_tokens:
  assumes "apply_toks start limit g dst st = Some (dst', st')" "length g \<le> n" "n \<le> 8" "g \<noteq> []"
    and "\<And>k. k < length g \<Longrightarrow> bit tag (8 - n + k) = is_tup (g ! k)"
    and "rest \<noteq> [] \<Longrightarrow> length g = n"
  shows "group_items n tag start limit (toks_bytes g @ rest) dst st =
    (if rest = [] then Stop dst' else More rest dst' st')"
  using assms
proof (induction g arbitrary: n dst st)
  case (Cons t g)
  obtain m where n: "n = Suc m" using Cons.prems(2) by (cases n) auto
  have idx: "tagGroupSize - Suc m = 8 - n" by (simp add: tagGroupSize_def n)
  have tag: "bit tag (8 - n) = is_tup t" using Cons.prems(5)[of 0] by simp
  have rest_tags: "bit tag (8 - m + k) = is_tup (g ! k)" if "k < length g" for k
    using Cons.prems(5)[of "Suc k"] that Cons.prems(3) by (simp add: n Suc_diff_Suc[symmetric] Suc_diff_le)
  have last: "g = [] \<Longrightarrow> apply_toks start limit g d s = Some (dst', st') \<Longrightarrow> d = dst' \<and> s = st'" for d s by simp
  have more: "group_items m tag start limit (toks_bytes g @ rest) d s =
      (if rest = [] then Stop dst' else More rest dst' st')"
    if "apply_toks start limit g d s = Some (dst', st')" "g \<noteq> []" for d s
    using that Cons.prems(2,3,6) rest_tags by (intro Cons.IH) (auto simp: n)
  have done0: "group_items m tag start limit rest d s = More rest d s" if "g = []" "rest \<noteq> []" for d s
    using that Cons.prems(6) by (simp add: n)
  show ?case
  proof (cases t)
    case (Lit b)
    let ?d = "dst @ [b]" let ?s = "updateAdaptiveState (length (dst @ [b]) - start) st"
    have a: "apply_toks start limit g ?d ?s = Some (dst', st')" using Cons.prems(1) Lit by simp
    show ?thesis
      using Lit tag idx more[OF a] last[OF _ a] done0[of ?d ?s]
      by (cases "g = []") (auto simp: n Let_def neq_Nil_conv)
  next
    case (Tup u)
    obtain thr split msk where st: "st = (thr, split, msk)" by (cases st) auto
    obtain d where d: "applyMatch dst ((unat u AND msk) + 3) (drop_bit split (unat u) + 1) = Inr d"
      "\<not> (limit > 0 \<and> int (length d) > limit)"
      and a: "apply_toks start limit g d (updateAdaptiveState (length d - start) st) = Some (dst', st')"
      using Cons.prems(1) Tup st by (auto split: sum.splits if_splits)
    let ?s = "updateAdaptiveState (length d - start) st"
    show ?thesis
      using Tup tag idx d more[OF a] last[OF _ a] done0[of d ?s] st
      by (cases "g = []") (auto simp: n Let_def neq_Nil_conv simp del: u16_of.simps)
  qed
qed simp

text \<open>Eight literals at once leave the adaptive state eight literals one by one leave.\<close>

lemma updateAdaptiveState_absorb:
  "a \<le> b \<Longrightarrow> updateAdaptiveState b (updateAdaptiveState a st) = updateAdaptiveState b st"
proof (induction a st rule: updateAdaptiveState.induct)
  case (1 a thr split msk)
  show ?case
  proof (cases "a > thr \<and> thr > 0")
    case True
    with 1 have "updateAdaptiveState b (updateAdaptiveState a (thr, split, msk)) =
        updateAdaptiveState b (2 * thr, if split > 0 then split - 1 else split,
          if split > 0 then 2 ^ (split - 1) - 1 else msk)"
      by (simp add: updateAdaptiveState.simps[of a thr])
    also have "\<dots> = updateAdaptiveState b (thr, split, msk)"
      using True 1(2) by (simp add: updateAdaptiveState.simps[of b thr])
    finally show ?thesis .
  next
    case False
    then have "updateAdaptiveState a (thr, split, msk) = (thr, split, msk)"
      by (subst updateAdaptiveState.simps) auto
    then show ?thesis by simp
  qed
qed

lemma apply_literals:
  "bs \<noteq> [] \<Longrightarrow> apply_toks start limit (map Lit bs) dst st =
     Some (dst @ bs, updateAdaptiveState (length (dst @ bs) - start) st)"
proof (induction bs arbitrary: dst st)
  case (Cons b bs)
  show ?case
  proof (cases "bs = []")
    case False
    then show ?thesis
      using Cons.IH[OF False, of "dst @ [b]" "updateAdaptiveState (length (dst @ [b]) - start) st"]
      by (simp add: updateAdaptiveState_absorb)
  qed simp
qed simp

lemma literal_tokens: "\<forall>t \<in> set g. \<not> is_tup t \<Longrightarrow> g = map Lit (toks_bytes g)"
proof (induction g)
  case (Cons t g)
  then show ?case by (cases t) simp_all
qed simp

lemma length_literal_tokens: "\<forall>t \<in> set g. \<not> is_tup t \<Longrightarrow> length (toks_bytes g) = length g"
  using literal_tokens[of g] by (metis length_map)

lemma enc_groups_Nil [simp]: "enc_groups ts = [] \<longleftrightarrow> ts = []"
  by (cases ts) (simp_all add: enc_groups.simps(2) enc_group_def)

lemma block_loop_tokens:
  "apply_toks start limit ts dst st = Some (dst', st') \<Longrightarrow>
     block_loop start limit (enc_groups ts) dst st = Inr dst'"
proof (induction ts arbitrary: dst st rule: enc_groups.induct)
  case (2 t ts)
  define g where "g = take 8 (t # ts)"
  define r where "r = drop 8 (t # ts)"
  have ts: "t # ts = g @ r" by (simp add: g_def r_def)
  have g: "g \<noteq> []" "length g \<le> 8" and r8: "r \<noteq> [] \<Longrightarrow> length g = 8" by (auto simp: g_def r_def)
  obtain d s where gd: "apply_toks start limit g dst st = Some (d, s)"
    and rd: "apply_toks start limit r d s = Some (dst', st')"
    using 2(2) unfolding ts apply_toks_append by (auto split: option.splits)
  have IH: "block_loop start limit (enc_groups r) d s = Inr dst'" using 2(1)[of d s] rd by (simp add: r_def)
  have enc: "enc_groups (t # ts) = tag_from 0 g # (toks_bytes g @ enc_groups r)"
    by (simp add: enc_groups.simps(2) enc_group_def g_def r_def)
  show ?case
  proof (cases "tag_from 0 g = 0 \<and> length (toks_bytes g @ enc_groups r) \<ge> tagGroupSize")
    case True
    then have lits: "\<forall>t \<in> set g. \<not> is_tup t" using tag_zero[of g] g(2) by (metis in_set_conv_nth)
    have len: "length (toks_bytes g) = length g" by (rule length_literal_tokens[OF lits])
    have g8: "length g = 8" using True r8 len g(2) by (cases "r = []") (auto simp: tagGroupSize_def)
    have ds: "d = dst @ toks_bytes g" "s = updateAdaptiveState (length (dst @ toks_bytes g) - start) st"
      using gd apply_literals[of "toks_bytes g" start limit dst st] literal_tokens[OF lits] len g8
      by (metis (no_types) Pair_inject list.size(3) option.inject zero_neq_numeral)+
    show ?thesis
      unfolding enc block_loop.simps(2) using True IH len g8 ds by (simp add: tagGroupSize_def)
  next
    case False
    have items: "group_items 8 (tag_from 0 g) start limit (toks_bytes g @ enc_groups r) dst st =
        (if enc_groups r = [] then Stop d else More (enc_groups r) d s)"
      by (rule group_items_tokens[OF gd g(2) _ g(1)])
         (use g(2) r8 in \<open>auto simp: bit_tag_from\<close>)
    show ?thesis
      unfolding enc block_loop.simps(2) using False IH items rd by (auto simp: tagGroupSize_def)
  qed
qed simp

subsection \<open>The matches are real\<close>

lemma common_loop_le: "common_loop xs ys n \<le> n" "common_loop xs ys n \<le> length xs" "common_loop xs ys n \<le> length ys"
  by (induction xs ys n rule: common_loop.induct) auto

lemma common_loop_eq: "k < common_loop xs ys n \<Longrightarrow> xs ! k = ys ! k"
proof (induction xs ys n arbitrary: k rule: common_loop.induct)
  case (1 x xs y ys n)
  then show ?case by (cases k) (auto split: if_splits)
qed simp_all

definition valid_match :: "byte list \<Rightarrow> nat \<Rightarrow> nat \<Rightarrow> nat \<Rightarrow> nat \<Rightarrow> bool" where
  "valid_match chunk inIdx maxOffset len off \<longleftrightarrow> 1 \<le> off \<and> off \<le> inIdx \<and> off < maxOffset \<and>
     inIdx + len \<le> length chunk \<and> (\<forall>k < len. chunk ! (inIdx - off + k) = chunk ! (inIdx + k))"

lemma valid_match_less: "valid_match chunk i mo len off \<Longrightarrow> len' \<le> len \<Longrightarrow> valid_match chunk i mo len' off"
  by (auto simp: valid_match_def)

lemma valid_match_prefix:
  assumes "cand < i" "i - cand < mo" "i \<le> length chunk"
    "len \<le> commonPrefixLen (drop i chunk) (drop cand chunk) maxMatch"
  shows "valid_match chunk i mo len (i - cand)"
proof -
  let ?n = "commonPrefixLen (drop i chunk) (drop cand chunk) maxMatch"
  have "?n \<le> length (drop i chunk)" by (simp only: commonPrefixLen_def common_loop_le)
  moreover have "chunk ! (cand + k) = chunk ! (i + k)" if "k < ?n" for k
    using that common_loop_eq[of k "drop i chunk" "drop cand chunk" maxMatch] assms(1,3)
    by (simp add: commonPrefixLen_def)
  ultimately show ?thesis using assms by (auto simp: valid_match_def)
qed

lemma lz_search_valid:
  "i \<le> length chunk \<Longrightarrow> bestLen < minMatch \<or> valid_match chunk i mo bestLen bestOff \<Longrightarrow>
     lz_search chunk ctx i mo cand depth bestLen bestOff = (len, off) \<Longrightarrow>
     len < minMatch \<or> valid_match chunk i mo len off"
proof (induction chunk ctx i mo cand depth bestLen bestOff rule: lz_search.induct)
  case (1 chunk ctx i mo cand depth bestLen bestOff)
  let ?c = "unat cand" let ?n = "commonPrefixLen (drop i chunk) (drop ?c chunk) maxMatch"
  show ?case
  proof (cases "cand \<noteq> emptyEntry \<and> depth < maxSearchDepth \<and> ?c < i \<and> i - ?c < mo")
    case False
    then show ?thesis using 1(4,5) by (subst (asm) lz_search.simps) (auto simp: Let_def split: if_splits)
  next
    case True
    have v: "n \<le> ?n \<Longrightarrow> valid_match chunk i mo n (i - ?c)" for n
      using True 1(3) by (intro valid_match_prefix) auto
    show ?thesis
    proof (cases "i + bestLen < length chunk \<and> chunk ! (?c + bestLen) = chunk ! (i + bestLen) \<and>
        ?n \<ge> minMatch \<and> ?n > bestLen")
      case better: True
      show ?thesis
      proof (cases "?n \<ge> maxMatch")
        case big: True
        then show ?thesis using 1(5) True better v[OF big]
          by (subst (asm) lz_search.simps) (auto simp: Let_def)
      next
        case False
        with 1(5) True better have "lz_search chunk ctx i mo (ctx_next ctx ?c) (depth + 1) ?n (i - ?c) = (len, off)"
          by (subst (asm) lz_search.simps) (auto simp: Let_def)
        with 1(1)[OF _ refl _ refl _ refl better False 1(3)] True v show ?thesis by auto
      qed
    next
      case worse: False
      with 1(5) True have "lz_search chunk ctx i mo (ctx_next ctx ?c) (depth + 1) bestLen bestOff = (len, off)"
        by (subst (asm) lz_search.simps) (auto simp: Let_def)
      with 1(2)[OF _ refl _ refl _ refl worse 1(3,4)] True show ?thesis by auto
    qed
  qed
qed

lemma bestMatch_valid:
  assumes "bestMatch chunk ctx i mo = (len, off)" "len \<ge> minMatch"
  shows "valid_match chunk i mo len off"
  using assms lz_search_valid[of i chunk 0 mo 0 ctx _ 0 len off]
  by (auto simp: bestMatch_def minMatch_def split: if_splits)

text \<open>Copying a match that is real gives back what it stands for.\<close>

lemma length_copy_match: "length (copy_match sp k n dst) = length dst + n"
  by (induction sp k n dst rule: copy_match.induct) simp_all

lemma copy_match_take:
  assumes "sp < p" "p + k + n \<le> length D" "\<And>j. j < k + n \<Longrightarrow> D ! (sp + j) = D ! (p + j)"
  shows "copy_match sp k n (take (p + k) D) = take (p + k + n) D"
  using assms
proof (induction n arbitrary: k)
  case (Suc n)
  have "take (p + k) D ! (sp + k) = D ! (p + k)" using Suc.prems by simp
  then have "take (p + k) D @ [take (p + k) D ! (sp + k)] = take (p + (k + 1)) D"
    using Suc.prems(2) by (simp add: take_Suc_conv_app_nth)
  then show ?case using Suc.IH[of "k + 1"] Suc.prems by simp
qed simp

lemma copy_match_run:
  "dst \<noteq> [] \<Longrightarrow> sp + k = length dst - 1 \<Longrightarrow> copy_match sp k n dst = dst @ replicate n (last dst)"
proof (induction n arbitrary: k dst)
  case (Suc n)
  then have "dst ! (sp + k) = last dst" by (simp add: last_conv_nth)
  then show ?case using Suc.IH[of "dst @ [last dst]" "k + 1"] Suc.prems by (simp add: replicate_append_same)
qed simp

lemma applyMatch_valid:
  assumes "valid_match chunk i mo len off"
  shows "applyMatch (pre @ take i chunk) len off = Inr (pre @ take (i + len) chunk)"
proof -
  let ?D = "pre @ chunk" and ?p = "length pre + i"
  have b: "i \<le> length chunk" "1 \<le> off" "off \<le> i" "i + len \<le> length chunk" using assms by (auto simp: valid_match_def)
  have "?D ! (?p - off + j) = ?D ! (?p + j)" if "j < len" for j
    using that assms b by (auto simp: valid_match_def nth_append)
  then have "copy_match (?p - off) 0 len (take (?p + 0) ?D) = take (?p + 0 + len) ?D"
    using b by (intro copy_match_take) auto
  moreover have "length (pre @ take i chunk) = ?p" "take (?p + 0) ?D = pre @ take i chunk"
    "take (?p + 0 + len) ?D = pre @ take (i + len) chunk"
    using b by (simp_all add: add.assoc)
  ultimately have copy: "copy_match (length (pre @ take i chunk) - off) 0 len (pre @ take i chunk) =
      pre @ take (i + len) chunk" by metis
  show ?thesis
  proof (cases "off = 1")
    case True
    have "pre @ take i chunk \<noteq> []" using b by auto
    from copy_match_run[OF this, of "length (pre @ take i chunk) - 1" 0 len] copy True b
    show ?thesis by (simp add: applyMatch_def)
  next
    case False
    then show ?thesis using copy b by (simp add: applyMatch_def)
  qed
qed

subsection \<open>Tuples\<close>

lemma adapt_state:
  "updateAdaptiveState n (thr, split, 2 ^ split - 1) =
     (case adapt n thr split of (t, p) \<Rightarrow> (t, p, 2 ^ p - 1))"
proof (induction n thr split rule: adapt.induct)
  case (1 n thr split)
  show ?case
  proof (cases "n > thr \<and> thr > 0")
    case True
    then have "updateAdaptiveState n (thr, split, 2 ^ split - 1) =
        updateAdaptiveState n (2 * thr, if split > 0 then split - 1 else split,
          2 ^ (if split > 0 then split - 1 else split) - 1)"
      by (subst updateAdaptiveState.simps) auto
    with 1 True show ?thesis by (simp add: adapt.simps[of n thr split])
  next
    case False
    then show ?thesis by (subst updateAdaptiveState.simps, subst adapt.simps) auto
  qed
qed

lemma adapt_split_le: "adapt n thr split = (t, p) \<Longrightarrow> p \<le> split"
proof (induction n thr split rule: adapt.induct)
  case (1 n thr split)
  show ?case
  proof (cases "n > thr \<and> thr > 0")
    case True
    with 1 have "p \<le> (if split > 0 then split - 1 else split)" by (simp add: adapt.simps[of n thr split])
    then show ?thesis by (auto split: if_splits)
  next
    case False
    then have "adapt n thr split = (thr, split)" by (subst adapt.simps) auto
    with 1(2) show ?thesis by simp
  qed
qed

lemma and_mask_mod: "x AND (2 ^ n - 1) = x mod 2 ^ n" for x :: nat
  by (metis mask_eq_exp_minus_1 take_bit_eq_mask take_bit_eq_mod)

lemma mk_tuple_parts:
  assumes "split \<le> 16" "1 \<le> off" "off \<le> 2 ^ (16 - split)" "3 \<le> len" "len \<le> 2 ^ split + 2"
  shows "(unat (mk_tuple split off len) AND (2 ^ split - 1)) + 3 = len"
    and "drop_bit split (unat (mk_tuple split off len)) + 1 = off"
proof -
  let ?a = "off - 1" and ?b = "len - 3"
  have ab: "?a < 2 ^ (16 - split)" "?b < 2 ^ split" using assms by auto
  have "\<not> bit (push_bit split ?a) n \<or> \<not> bit ?b n" for n
  proof (cases "n < split")
    case False
    then have "take_bit n ?b = ?b" using ab(2)
      by (metis less_le_trans not_le one_less_numeral_iff power_increasing_iff semiring_norm(76) take_bit_nat_eq_self_iff)
    then have "\<not> bit ?b n" by (metis bit_take_bit_iff less_irrefl)
    then show ?thesis by simp
  qed (simp add: bit_simps)
  then have sum: "push_bit split ?a OR ?b = ?a * 2 ^ split + ?b"
    by (simp add: disjunctive_add[symmetric] push_bit_eq_mult)
  have "?a * 2 ^ split + ?b < 2 ^ 16"
  proof -
    have "?a * 2 ^ split + ?b < (?a + 1) * 2 ^ split" using ab(2) by simp
    also have "\<dots> \<le> 2 ^ (16 - split) * 2 ^ split" using ab(1) by (intro mult_right_mono) auto
    also have "\<dots> = 2 ^ 16" using assms(1) by (simp flip: power_add)
    finally show ?thesis .
  qed
  moreover have "unat (of_nat n :: u16) = n" if "n < 2 ^ 16" for n
    using that by (simp add: unat_of_nat)
  ultimately have u: "unat (mk_tuple split off len) = ?a * 2 ^ split + ?b"
    unfolding mk_tuple_def sum by blast
  have "(?a * 2 ^ split + ?b) AND (2 ^ split - 1) = ?b"
  proof -
    show ?thesis unfolding and_mask_mod using ab(2) by simp
  qed
  then show "(unat (mk_tuple split off len) AND (2 ^ split - 1)) + 3 = len"
    using assms(4) by (simp add: u)
  show "drop_bit split (unat (mk_tuple split off len)) + 1 = off"
    using ab(2) assms(2) by (simp add: u drop_bit_eq_div)
qed

subsection \<open>A chunk comes back\<close>

text \<open>
  The compressor emits tokens that stand for the chunk: from any position, with the chunk up to there
  decompressed, the tokens still to come bring back the rest.
\<close>

lemma compress_loop_tokens:
  assumes "inIdx \<le> length chunk" "split \<le> 16" "limit \<le> 0 \<or> int (length pre + length chunk) \<le> limit"
  shows "\<exists>ts st'. snd (compress_loop chunk inIdx inIdx thr split ctx acc) = fold push ts acc \<and>
    (inIdx < length chunk \<longrightarrow> ts \<noteq> []) \<and>
    apply_toks (length pre) limit ts (pre @ take inIdx chunk) (thr, split, 2 ^ split - 1) =
      Some (pre @ chunk, st')"
  using assms(1,2)
proof (induction "length chunk - inIdx" arbitrary: inIdx thr split ctx acc rule: less_induct)
  case less
  show ?case
  proof (cases "inIdx < length chunk")
    case False
    with less.prems have "snd (compress_loop chunk inIdx inIdx thr split ctx acc) = fold push [] acc"
      by (subst compress_loop.simps) simp
    moreover have "pre @ take inIdx chunk = pre @ chunk" using False by simp
    ultimately show ?thesis using False by (intro exI[of _ "[]"]) simp
  next
    case True
    obtain bl bo where m: "bestMatch chunk ctx inIdx (2 ^ (16 - split)) = (bl, bo)" by force
    show ?thesis
    proof (cases "bl \<ge> minMatch")
      case match: True
      define len where "len = clampLen split bl"
      obtain t' p' where ad: "adapt (inIdx + len) thr split = (t', p')" by force
      have len: "3 \<le> len" "len \<le> 2 ^ split + 2" "len \<le> bl"
        using match by (auto simp: len_def clampLen_def minMatch_def)
      have v: "valid_match chunk inIdx (2 ^ (16 - split)) len bo"
        by (rule valid_match_less[OF bestMatch_valid[OF m match] len(3)])
      then have vm: "1 \<le> bo" "bo < 2 ^ (16 - split)" "inIdx + len \<le> length chunk" by (auto simp: valid_match_def)
      have step: "compress_loop chunk inIdx inIdx thr split ctx acc =
          compress_loop chunk (inIdx + len) (inIdx + len) t' p' (update_range chunk inIdx len ctx)
            (pushTuple (mk_tuple split bo len) acc)"
        using True m match ad by (subst compress_loop.simps) (simp add: Let_def len_def)
      have p16: "p' \<le> 16" using adapt_split_le[OF ad] less.prems(2) by simp
      have lt: "length chunk - (inIdx + len) < length chunk - inIdx" using True len(1) by simp
      obtain ts st' where IH: "snd (compress_loop chunk (inIdx + len) (inIdx + len) t' p'
            (update_range chunk inIdx len ctx) (pushTuple (mk_tuple split bo len) acc)) =
            fold push ts (pushTuple (mk_tuple split bo len) acc)"
          "apply_toks (length pre) limit ts (pre @ take (inIdx + len) chunk) (t', p', 2 ^ p' - 1) =
            Some (pre @ chunk, st')"
        using less.hyps[OF lt vm(3) p16] by blast
      note parts = mk_tuple_parts[OF less.prems(2) vm(1) less_imp_le[OF vm(2)] len(1,2)]
      define d where "d = pre @ take (inIdx + len) chunk"
      have d: "length d - length pre = inIdx + len" "\<not> (limit > 0 \<and> int (length d) > limit)"
        "applyMatch (pre @ take inIdx chunk) len bo = Inr d"
        using vm(3) assms(3) applyMatch_valid[OF v, of pre] by (auto simp: d_def)
      have "updateAdaptiveState (inIdx + len) (thr, split, 2 ^ split - 1) = (t', p', 2 ^ p' - 1)"
        using ad by (simp only: adapt_state prod.case)
      then have "apply_toks (length pre) limit (Tup (mk_tuple split bo len) # ts) (pre @ take inIdx chunk)
          (thr, split, 2 ^ split - 1) = Some (pre @ chunk, st')"
        using parts d IH(2) by (simp flip: d_def)
      then show ?thesis
        using IH(1) step by (intro exI[of _ "Tup (mk_tuple split bo len) # ts"] exI[of _ st']) simp
    next
      case lit: False
      obtain t' p' where ad: "adapt (inIdx + 1) thr split = (t', p')" by force
      have step: "compress_loop chunk inIdx inIdx thr split ctx acc =
          compress_loop chunk (inIdx + 1) (inIdx + 1) t' p' (ctx_update chunk inIdx ctx)
            (pushLiteral (chunk ! inIdx) acc)"
        using True m lit ad by (subst compress_loop.simps) (simp add: Let_def)
      have p16: "p' \<le> 16" using adapt_split_le[OF ad] less.prems(2) by simp
      have lt: "length chunk - (inIdx + 1) < length chunk - inIdx" "inIdx + 1 \<le> length chunk" using True by simp_all
      obtain ts st' where IH: "snd (compress_loop chunk (inIdx + 1) (inIdx + 1) t' p'
            (ctx_update chunk inIdx ctx) (pushLiteral (chunk ! inIdx) acc)) =
            fold push ts (pushLiteral (chunk ! inIdx) acc)"
          "apply_toks (length pre) limit ts (pre @ take (inIdx + 1) chunk) (t', p', 2 ^ p' - 1) =
            Some (pre @ chunk, st')"
        using less.hyps[OF lt p16] by blast
      have "updateAdaptiveState (inIdx + 1) (thr, split, 2 ^ split - 1) = (t', p', 2 ^ p' - 1)"
        using ad by (simp only: adapt_state prod.case)
      then have "apply_toks (length pre) limit (Lit (chunk ! inIdx) # ts) (pre @ take inIdx chunk)
          (thr, split, 2 ^ split - 1) = Some (pre @ chunk, st')"
        using IH(2) True by (simp add: take_Suc_conv_app_nth)
      then show ?thesis
        using IH(1) step by (intro exI[of _ "Lit (chunk ! inIdx) # ts"] exI[of _ st']) simp
    qed
  qed
qed

lemma compressChunk_tokens:
  assumes "limit \<le> 0 \<or> int (length pre + length chunk) \<le> limit" "chunk \<noteq> []"
  obtains ctx' body where "compressChunk chunk out ctx = (ctx', out @ body)" "body \<noteq> []"
    "decompressBlock body pre limit = Inr (pre @ chunk)"
proof -
  obtain ts st' where ts: "snd (compress_loop chunk 0 0 16 12 (ctx_reset ctx) (empty_ta, out)) =
      fold push ts (empty_ta, out)" "ts \<noteq> []"
    "apply_toks (length pre) limit ts (pre @ take 0 chunk) (16, 12, 2 ^ 12 - 1) = Some (pre @ chunk, st')"
    using compress_loop_tokens[of 0 chunk 12 limit pre 16 "ctx_reset ctx" "(empty_ta, out)"] assms by auto
  obtain ctx' where "compressChunk chunk out ctx = (ctx', out @ enc_groups ts)"
    using ts(1) push_all[of ts out] by (simp add: compressChunk_def case_prod_beta)
  moreover have "decompressBlock (enc_groups ts) pre limit = Inr (pre @ chunk)"
    using ts(3) by (simp add: decompressBlock_def block_loop_tokens lznt1_consts)
  ultimately show ?thesis using that ts(2) by simp
qed

subsection \<open>Headers\<close>

lemma header_parts:
  assumes "1 \<le> n" "n \<le> 4096" "flag = headerCompressed \<or> flag = headerRaw"
  shows "(unat (encodeHeader flag n) AND hashMask) + 1 = n"
    and "encodeHeader flag n AND headerCompressedFlag \<noteq> 0 \<longleftrightarrow> flag = headerCompressed"
    and "encodeHeader flag n \<noteq> 0"
proof -
  let ?k = "of_nat (n - 1) :: u16"
  have dist: "(flag OR (?k AND 0xfff)) AND w = (flag AND w) OR (?k AND (0xfff AND w))" for w :: u16
    by (simp add: bit.conj_disj_distrib2 and.assoc)
  have h: "encodeHeader flag n = flag OR (?k AND 0xfff)" by (simp add: encodeHeader_def hashMask_def)
  have f: "flag AND 0xfff = 0" "flag AND 0x3000 = 0x3000" "flag AND 0x8000 \<noteq> 0 \<longleftrightarrow> flag = headerCompressed"
    using assms(3) by (auto simp: headerCompressed_def headerRaw_def)
  have "unat (encodeHeader flag n) AND hashMask = unat (encodeHeader flag n AND 0xfff)"
    by (simp add: unsigned_and_eq hashMask_def)
  also have "encodeHeader flag n AND 0xfff = ?k AND 0xfff" unfolding h dist by (simp add: f)
  also have "unat (?k AND 0xfff) = (n - 1) mod 4096"
  proof -
    have "unat (of_nat m :: u16) = m" if "m < 4096" for m using that by (simp add: unat_of_nat)
    from this[of "n - 1"] have "unat ?k = n - 1" using assms(1,2) by linarith
    then have "unat (?k AND 0xfff) = (n - 1) AND (2 ^ 12 - 1)" by (simp add: unsigned_and_eq)
    then show ?thesis using and_mask_mod[of "n - 1" 12] by simp
  qed
  finally show "(unat (encodeHeader flag n) AND hashMask) + 1 = n" using assms(1,2) by simp
  show "encodeHeader flag n AND headerCompressedFlag \<noteq> 0 \<longleftrightarrow> flag = headerCompressed"
    unfolding h headerCompressedFlag_def dist by (simp add: f)
  have "encodeHeader flag n AND 0x3000 = 0x3000" unfolding h dist by (simp add: f)
  then show "encodeHeader flag n \<noteq> 0" by auto
qed

subsection \<open>The stream comes back\<close>

text \<open>Reading one block back: the header names the size and the kind.\<close>

definition read_block :: "byte list \<Rightarrow> byte list \<Rightarrow> int \<Rightarrow> lznt1_error + byte list" where
  "read_block src dst limit =
     (let h = u16_of (src ! 0) (src ! 1); n = (unat h AND hashMask) + 1
      in if h AND headerCompressedFlag \<noteq> 0 then decompressBlock (take n (drop 2 src)) dst limit
         else Inr (dst @ take n (drop 2 src)))"

lemma Decompress_loop_block:
  assumes "2 \<le> length src" "u16_of (src ! 0) (src ! 1) = h" "h \<noteq> 0"
    "(unat h AND hashMask) + 1 = n" "n \<le> length (drop 2 src)"
  shows "lznt1_Decompress_loop limit src dst =
    (case read_block src dst limit of
       Inl err \<Rightarrow> Inl err
     | Inr dst' \<Rightarrow> (if limit > 0 \<and> int (length dst') > limit then Inl ErrOutputTooLong
                     else lznt1_Decompress_loop limit (drop n (drop 2 src)) dst'))"
proof -
  have "src \<noteq> []" "\<not> (length src = 1 \<and> hd src = 0)" "\<not> length src < 2" using assms(1) by auto
  then show ?thesis
    unfolding lznt1_Decompress_loop.simps[of limit src dst] read_block_def Let_def assms(2,4)
    using assms(3,5) by (simp only: if_False not_le if_not_P not_less)
qed

lemma Decompress_block:
  assumes "1 \<le> length body" "length body \<le> 4096" "flag = headerCompressed \<or> flag = headerRaw"
    and "(if flag = headerCompressed then decompressBlock body dst limit else Inr (dst @ body)) = Inr dst'"
    and "\<not> (limit > 0 \<and> int (length dst') > limit)"
  shows "lznt1_Decompress_loop limit (header_bytes (encodeHeader flag (length body)) @ body @ rest) dst =
    lznt1_Decompress_loop limit rest dst'"
proof -
  let ?h = "encodeHeader flag (length body)"
  let ?s = "header_bytes ?h @ body @ rest"
  note hp = header_parts[OF assms(1-3)]
  have s: "2 \<le> length ?s" "u16_of (?s ! 0) (?s ! 1) = ?h" "drop 2 ?s = body @ rest"
    "length body \<le> length (drop 2 ?s)" by (simp_all add: header_bytes_def del: u16_of.simps)
  have "read_block ?s dst limit = Inr dst'"
    unfolding read_block_def s(2,3) Let_def hp(1,2) using assms(4) by (auto split: if_splits)
  with Decompress_loop_block[OF s(1,2) hp(3,1) s(4), of limit dst] assms(5)
  show ?thesis unfolding s(3) by (simp only: sum.case if_False append_eq_conv_conj refl simp_thms) simp
qed

lemma Compress_loop_roundtrip:
  assumes "limit \<le> 0 \<or> int (length pre + length src) \<le> limit"
  shows "\<exists>enc. Compress_loop ctx src dst = dst @ enc \<and> lznt1_Decompress_loop limit enc pre = Inr (pre @ src)"
  using assms
proof (induction "length src" arbitrary: src ctx dst pre rule: less_induct)
  case less
  show ?case
  proof (cases "src = []")
    case True
    then show ?thesis by (subst Compress_loop.simps, subst lznt1_Decompress_loop.simps) simp
  next
    case False
    define chunk where "chunk = take chunkSize src"
    have chunk: "chunk \<noteq> []" "length chunk \<le> 4096" "length chunk \<le> length src" "chunk @ drop chunkSize src = src"
      using False by (auto simp: chunk_def chunkSize_def)
    have lim: "limit \<le> 0 \<or> int (length pre + length chunk) \<le> limit" using less.prems chunk(3) by auto
    obtain ctx' body where cc: "compressChunk chunk (dst @ [0, 0]) ctx = (ctx', (dst @ [0, 0]) @ body)"
      "body \<noteq> []" "decompressBlock body pre limit = Inr (pre @ chunk)"
      using compressChunk_tokens[OF lim chunk(1)] by metis
    define blk where "blk = (if length body < length chunk
      then header_bytes (encodeHeader headerCompressed (length body)) @ body
      else header_bytes (encodeHeader headerRaw (length chunk)) @ chunk)"
    have step: "Compress_loop ctx src dst = Compress_loop ctx' (drop chunkSize src) (dst @ blk)"
      using False cc(1) by (subst Compress_loop.simps) (simp add: Let_def blk_def flip: chunk_def)
    have lim': "limit \<le> 0 \<or> int (length (pre @ chunk) + length (drop chunkSize src)) \<le> limit"
      using less.prems chunk(4) by (metis length_append add.assoc)
    have "length (drop chunkSize src) < length src" using False by (simp add: chunkSize_def)
    from less.hyps[OF this lim'] obtain enc where enc:
      "Compress_loop ctx' (drop chunkSize src) (dst @ blk) = (dst @ blk) @ enc"
      "lznt1_Decompress_loop limit enc (pre @ chunk) = Inr ((pre @ chunk) @ drop chunkSize src)" by blast
    have nl: "\<not> (limit > 0 \<and> int (length (pre @ chunk)) > limit)" using lim by auto
    have ne: "headerRaw \<noteq> headerCompressed" by (simp add: headerRaw_def headerCompressed_def)
    have "lznt1_Decompress_loop limit (blk @ enc) pre = lznt1_Decompress_loop limit enc (pre @ chunk)"
    proof (cases "length body < length chunk")
      case True
      have "1 \<le> length body" using cc(2) by (cases body) auto
      with Decompress_block[of body headerCompressed pre limit "pre @ chunk" enc] True cc(3) nl chunk(2)
      show ?thesis by (simp add: blk_def)
    next
      case False
      have "1 \<le> length chunk" using chunk(1) by (cases chunk) auto
      with Decompress_block[of chunk headerRaw pre limit "pre @ chunk" enc] False nl chunk(2) ne
      show ?thesis by (simp add: blk_def)
    qed
    then show ?thesis using step enc chunk(4) by (intro exI[of _ "blk @ enc"]) simp
  qed
qed

lemma Compress_comes_back:
  assumes "limit \<le> 0 \<or> int (length src) \<le> limit"
  shows "lznt1_Decompress (lznt1_Compress src) limit = Inr src"
  using Compress_loop_roundtrip[of limit "[]" src newContext "[]"] assms
  by (auto simp: lznt1_Compress_def lznt1_Decompress_def)

text \<open>
  C10 (lznt1_roundtrip). Whatever is compressed comes back: for every input, with no bound or a bound the
  input fits in, decompressing what the compressor made of it succeeds and returns the input.
\<close>

theorem lznt1_roundtrip:
  assumes "limit \<le> 0 \<or> int (length src) \<le> limit"
  shows "lznt1_Decompress (lznt1_Compress src) limit = Inr src"
  by (rule Compress_comes_back[OF assms])

theorem lznt1_roundtrip_witness:
  "lznt1_Decompress (lznt1_Compress [1, 2, 3, 1, 2, 3, 1, 2]) 8 = Inr [1, 2, 3, 1, 2, 3, 1, 2]"
  by (rule lznt1_roundtrip) simp

lemma lznt1_Decompress_loop_bound:
  "limit > 0 \<Longrightarrow> int (length dst) \<le> limit \<Longrightarrow> lznt1_Decompress_loop limit src dst = Inr r \<Longrightarrow>
     int (length r) \<le> limit"
proof (induction "length src" arbitrary: src dst rule: less_induct)
  case less
  define h where "h = u16_of (src ! 0) (src ! 1)"
  define n where "n = (unat h AND hashMask) + 1"
  show ?case
  proof (cases "2 \<le> length src \<and> h \<noteq> 0 \<and> n \<le> length (drop 2 src)")
    case False
    have "lznt1_Decompress_loop limit src dst = Inr dst \<or> (\<exists>e. lznt1_Decompress_loop limit src dst = Inl e)"
      unfolding lznt1_Decompress_loop.simps[of limit src dst] Let_def h_def[symmetric] n_def[symmetric]
      using False by (simp only: not_less not_le de_Morgan_conj) (elim disjE; simp)
    then show ?thesis using less.prems by auto
  next
    case True
    note blk = Decompress_loop_block[of src h n limit dst]
    have eq: "lznt1_Decompress_loop limit src dst =
      (case read_block src dst limit of Inl err \<Rightarrow> Inl err
       | Inr dst' \<Rightarrow> (if limit > 0 \<and> int (length dst') > limit then Inl ErrOutputTooLong
                       else lznt1_Decompress_loop limit (drop n (drop 2 src)) dst'))"
      using True by (intro blk) (auto simp: h_def n_def simp del: u16_of.simps)
    then obtain d where d: "read_block src dst limit = Inr d" using less.prems(3)
      by (cases "read_block src dst limit") auto
    have "length (drop n (drop 2 src)) < length src" using True by auto
    moreover have "int (length d) \<le> limit" "lznt1_Decompress_loop limit (drop n (drop 2 src)) d = Inr r"
      using eq less.prems(1,3) unfolding d by (auto split: if_splits)
    ultimately show ?thesis using less.hyps less.prems(1) by blast
  qed
qed

text \<open>
  No stream, however it was made, decompresses to more than the bound: with a bound
  set, the result is an error or no longer than it.
\<close>

theorem lznt1_bounded:
  assumes "limit > 0" "lznt1_Decompress src limit = Inr dst"
  shows "int (length dst) \<le> limit"
  using assms lznt1_Decompress_loop_bound[of limit "[]" src dst] by (simp add: lznt1_Decompress_def)

theorem lznt1_bounded_witness: "int (length [7, 8 :: byte]) \<le> 2"
proof (rule lznt1_bounded)
  show "lznt1_Decompress (lznt1_Compress [7, 8]) 2 = Inr [7, 8]"
    by (rule Compress_comes_back) simp
qed simp

subsection \<open>What a compression has to do\<close>

text \<open>
  The contract the compressed messages rely on, kept by each of the algorithms: what was compressed comes back at its
  own length, and nothing comes out longer than the bound.
\<close>

locale block_codec =
  fixes comp :: "byte list \<Rightarrow> byte list option" and decomp :: "byte list \<Rightarrow> int \<Rightarrow> 'e + byte list"
  assumes comes_back: "comp src = Some b \<Longrightarrow> decomp b (int (length src)) = Inr src"
    and bounded: "decomp b limit = Inr d \<Longrightarrow> 0 < limit \<Longrightarrow> int (length d) \<le> limit"
begin

lemma injective: "comp src = Some b \<Longrightarrow> comp src' = Some b \<Longrightarrow> length src = length src' \<Longrightarrow> src = src'"
  by (metis comes_back sum.inject(2))

end

interpretation lznt1_codec: block_codec "\<lambda>src. Some (lznt1_Compress src)" lznt1_Decompress
proof
  show "lznt1_Decompress b (int (length src)) = Inr src" if "Some (lznt1_Compress src) = Some b" for src b
    using Compress_comes_back[of "int (length src)" src] that by simp
  show "int (length d) \<le> limit" if "lznt1_Decompress b limit = Inr d" "0 < limit" for b limit d
    using lznt1_bounded[OF that(2,1)] .
qed

end
