(* ===== verification/Utf16.thy ===== *)
theory Utf16
  imports Sombrero_Prelude
begin

section \<open>Strings on the wire: UTF-16LE\<close>

text \<open>
  \<^verbatim>\<open>src/utils/utf16le.go\<close>. Every name, path and password of the protocol crosses the wire as UTF-16 in
  little-endian order, while the program keeps Go strings, which are byte sequences read as UTF-8. A Go
  string is a \<open>string\<close> here, one character per byte. What the file uses of Go is modelled first: the
  conversion of a string to its runes and back (an ill-formed byte reads as U+FFFD, one byte at a time, and
  a rune that has no encoding is written as U+FFFD), and \<^verbatim>\<open>utf16.Encode\<close> and \<^verbatim>\<open>utf16.Decode\<close>.

  The properties: the length announced for a string is the number of bytes it is encoded to, for every
  string, and what is encoded decodes to the string it came from, for every well-formed string that does
  not end in a NUL (the decoder takes a final NUL for a terminator).
\<close>

subsection \<open>Runes of a Go string\<close>

type_synonym rune = nat

definition RuneError :: rune where "RuneError = 0xfffd"

definition contByte :: "nat \<Rightarrow> bool" where
  "contByte b \<longleftrightarrow> 0x80 \<le> b \<and> b \<le> 0xbf"

text \<open>What the second byte may be, after the first (Unicode, table 3-7).\<close>

definition secondByte :: "nat \<Rightarrow> nat \<Rightarrow> bool" where
  "secondByte b0 b \<longleftrightarrow>
     (if b0 = 0xe0 then 0xa0 \<le> b \<and> b \<le> 0xbf
      else if b0 = 0xed then 0x80 \<le> b \<and> b \<le> 0x9f
      else if b0 = 0xf0 then 0x90 \<le> b \<and> b \<le> 0xbf
      else if b0 = 0xf4 then 0x80 \<le> b \<and> b \<le> 0x8f
      else contByte b)"

text \<open>\<^verbatim>\<open>utf8.DecodeRune\<close>: the rune a sequence starts with and the bytes it takes.\<close>

fun decodeRune :: "nat list \<Rightarrow> rune \<times> nat" where
  "decodeRune [] = (RuneError, 0)"
| "decodeRune (b0 # bs) =
     (if b0 < 0x80 then (b0, 1)
      else if 0xc2 \<le> b0 \<and> b0 \<le> 0xdf then
        (case bs of b1 # _ \<Rightarrow>
           if secondByte b0 b1 then ((b0 - 0xc0) * 64 + (b1 - 0x80), 2) else (RuneError, 1)
         | _ \<Rightarrow> (RuneError, 1))
      else if 0xe0 \<le> b0 \<and> b0 \<le> 0xef then
        (case bs of b1 # b2 # _ \<Rightarrow>
           if secondByte b0 b1 \<and> contByte b2
           then ((b0 - 0xe0) * 4096 + (b1 - 0x80) * 64 + (b2 - 0x80), 3) else (RuneError, 1)
         | _ \<Rightarrow> (RuneError, 1))
      else if 0xf0 \<le> b0 \<and> b0 \<le> 0xf4 then
        (case bs of b1 # b2 # b3 # _ \<Rightarrow>
           if secondByte b0 b1 \<and> contByte b2 \<and> contByte b3
           then ((b0 - 0xf0) * 262144 + (b1 - 0x80) * 4096 + (b2 - 0x80) * 64 + (b3 - 0x80), 4)
           else (RuneError, 1)
         | _ \<Rightarrow> (RuneError, 1))
      else (RuneError, 1))"

function runes_of :: "nat list \<Rightarrow> rune list" where
  "runes_of [] = []"
| "runes_of (b # bs) = (case decodeRune (b # bs) of (r, n) \<Rightarrow> r # runes_of (drop (n - 1) bs))"
  by pat_completeness auto
termination by (relation "measure length") auto

text \<open>\<^verbatim>\<open>[]rune(s)\<close>, which is also what \<^verbatim>\<open>for _, r := range s\<close> goes through.\<close>

definition runes :: "string \<Rightarrow> rune list" where
  "runes s = runes_of (map of_char s)"

definition valid_rune :: "rune \<Rightarrow> bool" where
  "valid_rune r \<longleftrightarrow> r < 0xd800 \<or> (0xe000 \<le> r \<and> r \<le> 0x10ffff)"

text \<open>\<^verbatim>\<open>utf8.AppendRune\<close>, and \<^verbatim>\<open>string(rs)\<close>.\<close>

definition encodeRune :: "rune \<Rightarrow> nat list" where
  "encodeRune r =
     (let r = (if valid_rune r then r else RuneError)
      in if r < 0x80 then [r]
         else if r < 0x800 then [0xc0 + r div 64, 0x80 + r mod 64]
         else if r < 0x10000 then [0xe0 + r div 4096, 0x80 + r div 64 mod 64, 0x80 + r mod 64]
         else [0xf0 + r div 262144, 0x80 + r div 4096 mod 64, 0x80 + r div 64 mod 64, 0x80 + r mod 64])"

definition string_of :: "rune list \<Rightarrow> string" where
  "string_of rs = map char_of (concat (map encodeRune rs))"

subsection \<open>UTF-16\<close>

fun utf16_Encode :: "rune list \<Rightarrow> nat list" where
  "utf16_Encode [] = []"
| "utf16_Encode (v # s) =
     (if v < 0xd800 \<or> (0xe000 \<le> v \<and> v < 0x10000) then [v]
      else if 0x10000 \<le> v \<and> v \<le> 0x10ffff
      then [0xd800 + (v - 0x10000) div 1024, 0xdc00 + (v - 0x10000) mod 1024]
      else [RuneError]) @ utf16_Encode s"

fun utf16_Decode :: "nat list \<Rightarrow> rune list" where
  "utf16_Decode [] = []"
| "utf16_Decode (r # s) =
     (if r < 0xd800 \<or> 0xe000 \<le> r then r # utf16_Decode s
      else case s of
        [] \<Rightarrow> [RuneError]
      | r2 # s' \<Rightarrow> if r < 0xdc00 \<and> 0xdc00 \<le> r2 \<and> r2 < 0xe000
                    then ((r - 0xd800) * 1024 + (r2 - 0xdc00) + 0x10000) # utf16_Decode s'
                    else RuneError # utf16_Decode s)"

text \<open>\<^verbatim>\<open>binary.LittleEndian.PutUint16\<close> and \<^verbatim>\<open>Uint16\<close>.\<close>

definition PutUint16 :: "nat \<Rightarrow> byte list" where
  "PutUint16 w = [of_nat (w mod 256), of_nat (w div 256)]"

definition Uint16 :: "byte \<Rightarrow> byte \<Rightarrow> nat" where
  "Uint16 b0 b1 = unat b0 + 256 * unat b1"

subsection \<open>The operations of the file\<close>

definition EncodedStringLen :: "string \<Rightarrow> nat" where
  "EncodedStringLen s = foldl (\<lambda>l r. if 0x10000 \<le> r \<and> r \<le> 0x10ffff then l + 4 else l + 2) 0 (runes s)"

text \<open>The buffer after the call and the length written; \<open>None\<close> where the buffer is too short and Go panics.\<close>

definition EncodeString :: "byte list \<Rightarrow> string \<Rightarrow> (byte list \<times> nat) option" where
  "EncodeString dst src =
     (let ws = utf16_Encode (runes src)
      in if 2 * length ws \<le> length dst
         then Some (concat (map PutUint16 ws) @ drop (2 * length ws) dst, length ws * 2) else None)"

definition EncodeStringToBytes :: "string \<Rightarrow> byte list" where
  "EncodeStringToBytes s = (if s = [] then [] else concat (map PutUint16 (utf16_Encode (runes s))))"

text \<open>\<^verbatim>\<open>ws[i] = binary.LittleEndian.Uint16(bs[2*i : 2*i+2])\<close> for the \<^verbatim>\<open>len(bs)/2\<close> whole units.\<close>

fun units :: "byte list \<Rightarrow> nat list" where
  "units (b0 # b1 # bs) = Uint16 b0 b1 # units bs"
| "units _ = []"

definition DecodeToString :: "byte list \<Rightarrow> string" where
  "DecodeToString bs =
     (if bs = [] then []
      else let ws = units bs;
               ws' = (if ws \<noteq> [] \<and> last ws = 0 then butlast ws else ws)
           in string_of (utf16_Decode ws'))"

text \<open>
  The walk over a run of null-terminated strings. It consumes at least a byte each time round, so it ends
  on any input, which is what the comments of the source are about.
\<close>

function NullTerminatedToStrings :: "byte list \<Rightarrow> byte list list" where
  "NullTerminatedToStrings [] = []"
| "NullTerminatedToStrings (x # b) =
     (if x < 32 then NullTerminatedToStrings b
      else let s = takeWhile (\<lambda>c. c \<noteq> 0) (x # b); rest = dropWhile (\<lambda>c. c \<noteq> 0) (x # b)
           in if rest = [] then [x # b] else s # NullTerminatedToStrings (tl rest))"
  by pat_completeness auto
termination
proof (relation "measure length")
  fix x b s rest
  assume "\<not> x < (32 :: byte)" "rest = dropWhile (\<lambda>c. c \<noteq> (0 :: byte)) (x # b)" "rest \<noteq> []"
  then show "(tl rest, x # b) \<in> measure length"
    using length_dropWhile_le[of "\<lambda>c. c \<noteq> 0" "x # b"] by (cases rest) auto
qed auto

subsection \<open>What is encoded comes back\<close>

lemma secondByte_cont: "secondByte b0 b \<Longrightarrow> contByte b"
  by (auto simp: secondByte_def contByte_def split: if_splits)

lemma digits3: "r div 4096 * 4096 + r div 64 mod 64 * 64 + r mod 64 = r" for r :: nat
proof -
  have "r div 4096 = r div 64 div 64" using div_mult2_eq[of r 64 64] by simp
  then show ?thesis using div_mult_mod_eq[of r 64] div_mult_mod_eq[of "r div 64" 64] by linarith
qed

lemma digits4: "r div 262144 * 262144 + r div 4096 mod 64 * 4096 + r div 64 mod 64 * 64 + r mod 64 = r" for r :: nat
proof -
  have "r div 262144 = r div 4096 div 64" using div_mult2_eq[of r 4096 64] by simp
  then show ?thesis using digits3[of r] div_mult_mod_eq[of "r div 4096" 64] by linarith
qed

lemma decodeRune_encodeRune:
  assumes "valid_rune r"
  shows "decodeRune (encodeRune r @ bs) = (r, length (encodeRune r))" "encodeRune r \<noteq> []"
proof -
  have v: "r < 0xd800 \<or> (0xe000 \<le> r \<and> r \<le> 0x10ffff)" using assms by (simp add: valid_rune_def)
  consider "r < 0x80" | "0x80 \<le> r" "r < 0x800" | "0x800 \<le> r" "r < 0x10000" | "0x10000 \<le> r" by linarith
  then show "decodeRune (encodeRune r @ bs) = (r, length (encodeRune r))"
  proof cases
    case 1
    then show ?thesis using assms by (simp add: encodeRune_def)
  next
    case 2
    define q m where "q = r div 64" and "m = r mod 64"
    have r: "r = q * 64 + m" and "m < 64" by (simp_all add: q_def m_def)
    moreover from r 2 \<open>m < 64\<close> have "2 \<le> q" "q < 32" by linarith+
    ultimately show ?thesis using assms 2
      by (simp add: encodeRune_def secondByte_def contByte_def flip: q_def m_def)
  next
    case 3
    define a b m where "a = r div 4096" and "b = r div 64 mod 64" and "m = r mod 64"
    have r: "r = a * 4096 + b * 64 + m" and lt: "m < 64" "b < 64"
      using digits3[of r] by (simp_all add: a_def b_def m_def)
    then have a: "a < 16" using 3 by linarith
    have sb: "secondByte (0xe0 + a) (0x80 + b)"
    proof -
      have "a = 0 \<Longrightarrow> 32 \<le> b" using r lt 3 by linarith
      moreover have "a = 13 \<Longrightarrow> b < 32" using r lt v a 3(2) by linarith
      ultimately show ?thesis using a lt by (auto simp: secondByte_def contByte_def)
    qed
    have "encodeRune r = [0xe0 + a, 0x80 + b, 0x80 + m]"
      using assms 3 by (simp add: encodeRune_def a_def b_def m_def)
    then show ?thesis using sb a lt by (simp add: contByte_def r[symmetric])
  next
    case 4
    define a b c m where "a = r div 262144" and "b = r div 4096 mod 64" and "c = r div 64 mod 64"
      and "m = r mod 64"
    have r: "r = a * 262144 + b * 4096 + c * 64 + m" and lt: "m < 64" "b < 64" "c < 64"
      using digits4[of r] by (simp_all add: a_def b_def c_def m_def)
    then have a: "a \<le> 4" using v 4 by linarith
    have sb: "secondByte (0xf0 + a) (0x80 + b)"
    proof -
      have "a = 0 \<Longrightarrow> 16 \<le> b" using r lt 4 by linarith
      moreover have "a = 4 \<Longrightarrow> b < 16" using r lt v 4 by linarith
      ultimately show ?thesis using a lt by (auto simp: secondByte_def contByte_def)
    qed
    have "encodeRune r = [0xf0 + a, 0x80 + b, 0x80 + c, 0x80 + m]"
      using assms 4 by (simp add: encodeRune_def a_def b_def c_def m_def)
    then show ?thesis using sb a lt by (simp add: contByte_def r[symmetric])
  qed
  show "encodeRune r \<noteq> []" by (simp add: encodeRune_def Let_def)
qed

lemma runes_of_encode: "list_all valid_rune rs \<Longrightarrow> runes_of (concat (map encodeRune rs)) = rs"
proof (induction rs)
  case (Cons r rs)
  then obtain b bs where e: "encodeRune r = b # bs"
    using decodeRune_encodeRune(2)[of r] by (cases "encodeRune r") auto
  have "decodeRune (b # bs @ concat (map encodeRune rs)) = (r, Suc (length bs))"
    using decodeRune_encodeRune(1)[of r "concat (map encodeRune rs)"] Cons.prems e by simp
  then show ?case using Cons e by simp
qed simp

lemma encodeRune_bytes: "b \<in> set (encodeRune r) \<Longrightarrow> b < 256"
proof -
  define v where "v = (if valid_rune r then r else RuneError)"
  have v: "v \<le> 0x10ffff" by (auto simp: v_def valid_rune_def RuneError_def)
  have "v < 0x800 \<Longrightarrow> v div 64 < 32" "v < 0x10000 \<Longrightarrow> v div 4096 < 16" "v div 262144 \<le> 4" using v by linarith+
  moreover have "n mod 64 < 64" for n :: nat by simp
  ultimately show "b \<in> set (encodeRune r) \<Longrightarrow> b < 256"
    unfolding encodeRune_def Let_def v_def[symmetric]
    by (auto split: if_splits intro: less_trans[of _ 192])
qed

lemma runes_string_of: "list_all valid_rune rs \<Longrightarrow> runes (string_of rs) = rs"
proof -
  assume v: "list_all valid_rune rs"
  have "map (of_char \<circ> char_of) bs = bs" if "\<forall>b \<in> set bs. b < 256" for bs :: "nat list"
    using that by (induction bs) simp_all
  then have "map of_char (string_of rs) = concat (map encodeRune rs)"
    using encodeRune_bytes by (simp add: string_of_def)
  then show ?thesis by (simp add: runes_def runes_of_encode[OF v])
qed

lemma utf16_Decode_Encode: "list_all valid_rune rs \<Longrightarrow> utf16_Decode (utf16_Encode rs) = rs"
proof (induction rs)
  case (Cons r rs)
  show ?case
  proof (cases "r < 0x10000")
    case True
    then show ?thesis using Cons by (auto simp: valid_rune_def)
  next
    case False
    define v where "v = r - 0x10000"
    have "v < 0x100000" "r = v + 0x10000" using Cons.prems False by (auto simp: v_def valid_rune_def)
    moreover have "v div 1024 < 1024" "v mod 1024 < 1024" "v div 1024 * 1024 + v mod 1024 = v"
      using calculation(1) by simp_all
    ultimately show ?thesis using Cons by (simp add: valid_rune_def)
  qed
qed simp

lemma units_put: "\<forall>w \<in> set ws. w < 65536 \<Longrightarrow> units (concat (map PutUint16 ws)) = ws"
proof (induction ws)
  case (Cons w ws)
  then have "w < 65536" by simp
  then have "unat (of_nat (w mod 256) :: byte) = w mod 256" "unat (of_nat (w div 256) :: byte) = w div 256"
    by (simp_all add: unat_of_nat)
  then have "Uint16 (of_nat (w mod 256)) (of_nat (w div 256)) = w"
    unfolding Uint16_def by simp
  then show ?case using Cons by (simp add: PutUint16_def)
qed simp

lemma utf16_Encode_units: "w \<in> set (utf16_Encode rs) \<Longrightarrow> w < 65536"
  by (induction rs) (auto simp: RuneError_def split: if_splits)

lemma last_utf16_Encode:
  "rs \<noteq> [] \<Longrightarrow> utf16_Encode rs \<noteq> [] \<and> (last (utf16_Encode rs) = 0 \<longleftrightarrow> last rs = 0)"
proof (induction rs)
  case (Cons r rs)
  then show ?case by (cases "rs = []") (auto simp: RuneError_def)
qed simp

text \<open>
  What goes out on the wire reads back: a well-formed string, the encoding of a
  sequence of Unicode scalar values, that does not end in a NUL is decoded from its UTF-16 bytes to itself.
\<close>

theorem utf16_roundtrip:
  assumes "s = string_of rs" "list_all valid_rune rs" "rs \<noteq> [] \<longrightarrow> last rs \<noteq> 0"
  shows "DecodeToString (EncodeStringToBytes s) = s"
proof (cases "rs = []")
  case True
  then show ?thesis using assms(1) by (simp add: string_of_def EncodeStringToBytes_def DecodeToString_def)
next
  case False
  have rs: "runes s = rs" using assms(1,2) runes_string_of by simp
  then have "s \<noteq> []" using False by (auto simp: runes_def)
  moreover have "units (concat (map PutUint16 (utf16_Encode rs))) = utf16_Encode rs"
    using utf16_Encode_units by (intro units_put) blast
  moreover have "concat (map PutUint16 (utf16_Encode rs)) \<noteq> []"
    using last_utf16_Encode[OF False] by (auto simp: PutUint16_def)
  ultimately show ?thesis
    using False assms rs last_utf16_Encode[OF False] utf16_Decode_Encode[OF assms(2)]
    by (simp add: EncodeStringToBytes_def DecodeToString_def Let_def)
qed

theorem utf16_roundtrip_witness:
  "DecodeToString (EncodeStringToBytes (string_of [0x53, 0xed, 0x1f920])) = string_of [0x53, 0xed, 0x1f920]"
  by (rule utf16_roundtrip[of _ "[0x53, 0xed, 0x1f920]"]) (simp_all add: valid_rune_def)

text \<open>
  The length the program announces for a string is the number of bytes it writes for
  it, whatever the bytes of the string are.
\<close>

theorem encoded_length: "EncodedStringLen s = length (EncodeStringToBytes s)"
proof -
  have "foldl (\<lambda>l r. if 0x10000 \<le> r \<and> r \<le> 0x10ffff then l + 4 else l + 2) n rs =
      n + length (concat (map PutUint16 (utf16_Encode rs)))" for n rs
  proof (induction rs arbitrary: n)
    case (Cons r rs)
    then show ?case by (auto simp: PutUint16_def)
  qed simp
  from this[of 0 "runes s"] show ?thesis
    by (simp add: EncodedStringLen_def EncodeStringToBytes_def runes_def)
qed

lemma NullTerminated_roundtrip:
  "(\<And>s. s \<in> set ss \<Longrightarrow> s \<noteq> [] \<and> 0 \<notin> set s \<and> \<not> hd s < 32) \<Longrightarrow>
     NullTerminatedToStrings (concat (map (\<lambda>s. s @ [0]) ss)) = ss"
proof (induction ss)
  case (Cons s ss)
  from Cons.prems[of s] obtain x b where s: "s = x # b" "0 \<notin> set (x # b)" "\<not> x < 32" by (cases s) auto
  have nz: "\<forall>c \<in> set (x # b). c \<noteq> 0" using s(2) by auto
  have "takeWhile (\<lambda>c. c \<noteq> 0) (x # b @ 0 # r) = x # b \<and> dropWhile (\<lambda>c. c \<noteq> 0) (x # b @ 0 # r) = 0 # r" for r
    using nz takeWhile_append2[of "x # b" "\<lambda>c. c \<noteq> 0" "0 # r"] dropWhile_append2[of "x # b" "\<lambda>c. c \<noteq> 0" "0 # r"]
    by simp
  then show ?case using Cons s by (simp add: Let_def)
qed simp

end
