(* ===== verification/Json_Store.thy ===== *)
theory Json_Store
  imports Access_Rights Utf16 "HOL-Library.List_Lexorder" "HOL-Library.Char_ord"
begin

section \<open>The store of the Lite mode\<close>

text \<open>
  \<^verbatim>\<open>src/stores/jsonstore.go\<close>, with the data types of \<^verbatim>\<open>accounts.go\<close>, \<^verbatim>\<open>workgroups.go\<close>, \<^verbatim>\<open>shares.go\<close> and
  \<^verbatim>\<open>policy.go\<close> it keeps and the anonymous identity of \<^verbatim>\<open>anonymous.go\<close>: who may log in, what is shared, which
  workgroup is connected to which share, and what each account may do there. The whole store is one
  in-memory object (\<open>jsonData\<close>), written to a file after every change.

  Each mutating method hands a closure to \<^verbatim>\<open>update\<close>. The closures are the definitions named \<open>..._mut\<close>: they
  return an error, or the changed data together with the calls the method then makes on the share manager
  (the running server). \<open>update\<close> is in two halves, as the code is: under the mutex it runs the closure and
  saves; with the mutex released it makes the calls, and takes the mutex again to put the snapshot back if
  one of them fails. A method run alone is the two halves in sequence; the halves of several methods may
  interleave, and \<open>store_step\<close> lets them.

  What the store relies on outside the repository is in \<open>extlib\<close>: \<^verbatim>\<open>google/uuid\<close>, MD4, the JSON encoder and
  Go's Unicode case mapping. What the disk, the clock and the share manager answer is in \<open>outside\<close>.
\<close>

subsection \<open>Data\<close>

type_synonym uuid = "byte list"
type_synonym privateKey = "byte list"

record Share =
  sh_Name :: string
  sh_Type :: string
  sh_ServerName :: string
  sh_Password :: string
  sh_Bucket :: string
  sh_Remark :: string
  sh_CreatedAt :: int
  sh_DataShards :: u8
  sh_ParityShards :: u8
  sh_AllowGuest :: bool
  sh_AllowAnonymous :: bool
  sh_PublicDir :: string
  sh_SkipBackup :: bool

definition noShare :: Share where
  "noShare = \<lparr>sh_Name = [], sh_Type = [], sh_ServerName = [], sh_Password = [], sh_Bucket = [], sh_Remark = [],
     sh_CreatedAt = 0, sh_DataShards = 0, sh_ParityShards = 0, sh_AllowGuest = False, sh_AllowAnonymous = False,
     sh_PublicDir = [], sh_SkipBackup = False\<rparr>"

record PublicDir =
  pd_Path :: string
  pd_ReadOnly :: bool
  pd_CaseSensitive :: bool

record Workgroup =
  wg_ID :: int
  wg_UUID :: uuid
  wg_Name :: string
  wg_PublicDirs :: "PublicDir list"

definition noWorkgroup :: Workgroup where
  "noWorkgroup = \<lparr>wg_ID = 0, wg_UUID = replicate 16 0, wg_Name = [], wg_PublicDirs = []\<rparr>"

record Account =
  acc_ID :: int
  acc_Username :: string
  acc_Password :: string
  acc_NTHash :: "byte list"
  acc_Workgroup :: string

definition noAccount :: Account where
  "noAccount = \<lparr>acc_ID = 0, acc_Username = [], acc_Password = [], acc_NTHash = [], acc_Workgroup = []\<rparr>"

definition noRights :: AccessRights where
  "noRights = \<lparr>ShareName = [], AccountID = 0, ReadAccess = False, WriteAccess = False, DeleteAccess = False,
     ExecuteAccess = False\<rparr>"

record jsonAccount =
  ja_ID :: int
  ja_Username :: string
  ja_NTHash :: "byte list"
  ja_Workgroup :: string

record jsonPolicy =
  jp_ShareName :: string
  jp_AccountID :: int
  jp_Workgroup :: string
  jp_ReadAccess :: bool
  jp_WriteAccess :: bool
  jp_DeleteAccess :: bool
  jp_ExecuteAccess :: bool

record jsonConnection =
  jc_Workgroup :: string
  jc_ShareName :: string
  jc_AppKey :: privateKey

record jsonBan =
  jb_Host :: string
  jb_Reason :: string

record jsonData =
  Version :: int
  NextWorkgroupID :: int
  NextAccountID :: int
  Shares :: "Share list"
  Workgroups :: "Workgroup list"
  Accounts :: "jsonAccount list"
  Policies :: "jsonPolicy list"
  Connections :: "jsonConnection list"
  Bans :: "jsonBan list"

text \<open>
  Errors: the ones the callers recognize, the ones of the other stores, and those made by \<^verbatim>\<open>fmt.Errorf\<close>, with
  the error they wrap.
\<close>

datatype json_error =
    ErrLiteMode | ErrReservedWorkgroup | ErrAccountNotFound | ErrAccountExists | ErrWorkgroupExists
  | ErrShareExists | ErrShareInUse | ErrStore store_error | Errorf string "json_error option"

text \<open>The calls on the share manager (\<^verbatim>\<open>stores.Shares\<close>) this store makes.\<close>

datatype share_call =
    CallRegisterShare Share | CallUpdateShare Share | CallRemoveShare Share
  | CallUpdateAccessRights Share AccessRights | CallRemoveAccess Account
  | CallAddConnection Workgroup Share privateKey | CallRemoveConnection Workgroup Share

record JSONStore =
  js_file :: "string option"
  js_data :: jsonData

record extlib =
  uuid_Parse :: "string \<Rightarrow> json_error + uuid"
  uuid_String :: "uuid \<Rightarrow> string"
  strings_ToLower :: "string \<Rightarrow> string"
  strings_EqualFold :: "string \<Rightarrow> string \<Rightarrow> bool"
  md4_Sum :: "byte list \<Rightarrow> byte list"
  json_Marshal :: "jsonData \<Rightarrow> string"
  json_Unmarshal :: "string \<Rightarrow> jsonData \<Rightarrow> json_error + jsonData"

text \<open>The steps of a save, each of which may fail.\<close>

datatype save_step = SaveEncode | SaveCreate | SaveWrite | SaveSync | SaveClose | SaveRename

record outside =
  read_fails :: "json_error option"
  first_save :: "save_step \<Rightarrow> json_error option"
  second_save :: "save_step \<Rightarrow> json_error option"
  share_manager :: "share_call \<Rightarrow> json_error option"
  time_now :: int

subsection \<open>Small helpers\<close>

text \<open>The two loops over a slice that stop at the first match: dropping it, and changing it in place.\<close>

fun remove_first :: "('a \<Rightarrow> bool) \<Rightarrow> 'a list \<Rightarrow> 'a list" where
  "remove_first P [] = []"
| "remove_first P (x # xs) = (if P x then xs else x # remove_first P xs)"

fun update_first :: "('a \<Rightarrow> bool) \<Rightarrow> ('a \<Rightarrow> 'a) \<Rightarrow> 'a list \<Rightarrow> 'a list" where
  "update_first P f [] = []"
| "update_first P f (x # xs) = (if P x then f x # xs else x # update_first P f xs)"

definition Matches :: "extlib \<Rightarrow> PublicDir \<Rightarrow> string \<Rightarrow> bool" where
  "Matches E pd name = (if pd_CaseSensitive pd then pd_Path pd = name else strings_EqualFold E (pd_Path pd) name)"

definition FindPublicDir :: "extlib \<Rightarrow> Workgroup \<Rightarrow> string \<Rightarrow> PublicDir option" where
  "FindPublicDir E wg name = find (\<lambda>dir. Matches E dir name) (wg_PublicDirs wg)"

definition NormalizeWorkgroupName :: "extlib \<Rightarrow> string \<Rightarrow> string" where
  "NormalizeWorkgroupName E name = strings_ToLower E name"

fun normalizeDirs_loop :: "PublicDir list \<Rightarrow> string set \<Rightarrow> PublicDir list" where
  "normalizeDirs_loop [] seen = []"
| "normalizeDirs_loop (dir # dirs) seen =
     (if pd_Path dir = [] \<or> pd_Path dir \<in> seen then normalizeDirs_loop dirs seen
      else dir # normalizeDirs_loop dirs (insert (pd_Path dir) seen))"

definition normalizePublicDirs :: "PublicDir list \<Rightarrow> PublicDir list" where
  "normalizePublicDirs dirs = normalizeDirs_loop dirs {}"

definition ntHash :: "extlib \<Rightarrow> string \<Rightarrow> byte list" where
  "ntHash E password = md4_Sum E (EncodeStringToBytes password)"

text \<open>Comparing in constant time is comparing: the two hashes agree byte for byte.\<close>

definition CheckPassword :: "extlib \<Rightarrow> Account \<Rightarrow> string \<Rightarrow> bool" where
  "CheckPassword E acc password \<longleftrightarrow> ntHash E password = acc_NTHash acc"

definition Passwordless :: "extlib \<Rightarrow> Account \<Rightarrow> bool" where
  "Passwordless E acc \<longleftrightarrow> acc_NTHash acc = ntHash E []"

definition AnonymousWorkgroup :: uuid where
  "AnonymousWorkgroup = replicate 16 0"

definition AnonymousAccount :: string where
  "AnonymousAccount = ''anonymous''"

definition IsAnonymousWorkgroup :: "extlib \<Rightarrow> string \<Rightarrow> bool" where
  "IsAnonymousWorkgroup E wg =
     (case uuid_Parse E wg of Inl _ \<Rightarrow> False | Inr u \<Rightarrow> u = AnonymousWorkgroup)"

definition findWorkgroupByUUID :: "extlib \<Rightarrow> jsonData \<Rightarrow> string \<Rightarrow> Workgroup option" where
  "findWorkgroupByUUID E d u = find (\<lambda>w. uuid_String E (wg_UUID w) = u) (Workgroups d)"

definition removePolicies :: "jsonData \<Rightarrow> (jsonPolicy \<Rightarrow> bool) \<Rightarrow> jsonData" where
  "removePolicies d match = d\<lparr>Policies := filter (\<lambda>p. \<not> match p) (Policies d)\<rparr>"

definition accessRightsFromPolicy :: "jsonPolicy \<Rightarrow> AccessRights" where
  "accessRightsFromPolicy p = \<lparr>ShareName = jp_ShareName p, AccountID = jp_AccountID p,
     ReadAccess = jp_ReadAccess p, WriteAccess = jp_WriteAccess p, DeleteAccess = jp_DeleteAccess p,
     ExecuteAccess = jp_ExecuteAccess p\<rparr>"

definition accountOf :: "jsonAccount \<Rightarrow> Account" where
  "accountOf a = \<lparr>acc_ID = ja_ID a, acc_Username = ja_Username a, acc_Password = [], acc_NTHash = ja_NTHash a,
     acc_Workgroup = ja_Workgroup a\<rparr>"

subsection \<open>Saving and updating\<close>

definition save_error :: "(save_step \<Rightarrow> json_error option) \<Rightarrow> json_error option" where
  "save_error io =
     (case io SaveEncode of Some err \<Rightarrow> Some (Errorf ''failed to encode store file'' (Some err)) | None \<Rightarrow>
      case io SaveCreate of Some err \<Rightarrow> Some (Errorf ''failed to create store file'' (Some err)) | None \<Rightarrow>
      case io SaveWrite of Some err \<Rightarrow> Some (Errorf ''failed to write store file'' (Some err)) | None \<Rightarrow>
      case io SaveSync of Some err \<Rightarrow> Some (Errorf ''failed to sync store file'' (Some err)) | None \<Rightarrow>
      case io SaveClose of Some err \<Rightarrow> Some (Errorf ''failed to close store file'' (Some err)) | None \<Rightarrow>
      case io SaveRename of Some err \<Rightarrow> Some (Errorf ''failed to replace store file'' (Some err)) | None \<Rightarrow> None)"

text \<open>
  The file is replaced by a rename at the very end, so a save that fails leaves it as it was.
\<close>

definition save :: "extlib \<Rightarrow> (save_step \<Rightarrow> json_error option) \<Rightarrow> JSONStore \<Rightarrow> JSONStore \<times> json_error option" where
  "save E io js =
     (case save_error io of
        Some err \<Rightarrow> (js, Some err)
      | None \<Rightarrow> (js\<lparr>js_file := Some (json_Marshal E (js_data js))\<rparr>, None))"

type_synonym mutation = "jsonData \<Rightarrow> json_error + (jsonData \<times> share_call list)"

text \<open>The first half of \<^verbatim>\<open>update\<close>, under the mutex: run the closure, save, put the snapshot back on failure.\<close>

definition update_mutate ::
  "extlib \<Rightarrow> (save_step \<Rightarrow> json_error option) \<Rightarrow> mutation \<Rightarrow> JSONStore \<Rightarrow> JSONStore \<times> (json_error + share_call list)" where
  "update_mutate E io mutate js =
     (let snapshot = js_data js
      in case mutate (js_data js) of
           Inl err \<Rightarrow> (js\<lparr>js_data := snapshot\<rparr>, Inl err)
         | Inr (d, calls) \<Rightarrow>
             (case save E io (js\<lparr>js_data := d\<rparr>) of
                (js', Some err) \<Rightarrow> (js'\<lparr>js_data := snapshot\<rparr>, Inl err)
              | (js', None) \<Rightarrow> (js', Inr calls)))"

definition call_text :: "share_call \<Rightarrow> string" where
  "call_text c = (case c of
      CallRegisterShare _ \<Rightarrow> ''failed to add share''
    | CallUpdateShare _ \<Rightarrow> ''failed to apply the share settings''
    | CallRemoveShare _ \<Rightarrow> ''failed to close share''
    | CallUpdateAccessRights _ _ \<Rightarrow> ''failed to update access rights''
    | CallRemoveAccess _ \<Rightarrow> []
    | CallAddConnection _ _ _ \<Rightarrow> ''failed to connect share''
    | CallRemoveConnection _ _ \<Rightarrow> ''failed to disconnect share'')"

text \<open>The calls in their order, up to the first that fails; \<^verbatim>\<open>RemoveAccess\<close> cannot fail.\<close>

fun notify :: "(share_call \<Rightarrow> json_error option) \<Rightarrow> share_call list \<Rightarrow> json_error option" where
  "notify mgr [] = None"
| "notify mgr (c # cs) =
     (case c of
        CallRemoveAccess _ \<Rightarrow> notify mgr cs
      | _ \<Rightarrow> (case mgr c of Some err \<Rightarrow> Some (Errorf (call_text c) (Some err)) | None \<Rightarrow> notify mgr cs))"

text \<open>The second half: make the calls with the mutex free, and roll back under it if one of them fails.\<close>

definition update_notify ::
  "extlib \<Rightarrow> (save_step \<Rightarrow> json_error option) \<Rightarrow> (share_call \<Rightarrow> json_error option) \<Rightarrow> jsonData \<Rightarrow> share_call list \<Rightarrow>
   JSONStore \<Rightarrow> JSONStore \<times> json_error option" where
  "update_notify E io mgr snapshot calls js =
     (case notify mgr calls of
        None \<Rightarrow> (js, None)
      | Some err \<Rightarrow> (fst (save E io (js\<lparr>js_data := snapshot\<rparr>)), Some err))"

definition update :: "extlib \<Rightarrow> outside \<Rightarrow> mutation \<Rightarrow> JSONStore \<Rightarrow> JSONStore \<times> json_error option" where
  "update E W mutate js =
     (case update_mutate E (first_save W) mutate js of
        (js', Inl err) \<Rightarrow> (js', Some err)
      | (js', Inr calls) \<Rightarrow> update_notify E (second_save W) (share_manager W) (js_data js) calls js')"

definition initialData :: jsonData where
  "initialData = \<lparr>Version = 1, NextWorkgroupID = 1, NextAccountID = 1, Shares = [], Workgroups = [],
     Accounts = [], Policies = [], Connections = [], Bans = []\<rparr>"

text \<open>\<^verbatim>\<open>NewJSONStore\<close>, on what the directory holds: the store, or an error, and the file afterwards.\<close>

definition NewJSONStore :: "extlib \<Rightarrow> outside \<Rightarrow> string option \<Rightarrow> json_error + JSONStore" where
  "NewJSONStore E W file =
     (let js = \<lparr>js_file = file, js_data = initialData\<rparr>
      in case file of
           None \<Rightarrow> (case save E (first_save W) js of (js', Some err) \<Rightarrow> Inl err | (js', None) \<Rightarrow> Inr js')
         | Some b \<Rightarrow>
             (case read_fails W of
                Some err \<Rightarrow> Inl (Errorf ''failed to read store file'' (Some err))
              | None \<Rightarrow>
                  (case json_Unmarshal E b (js_data js) of
                     Inl err \<Rightarrow> Inl (Errorf ''failed to decode store file'' (Some err))
                   | Inr d \<Rightarrow>
                       (let d = (if NextWorkgroupID d < 1 then d\<lparr>NextWorkgroupID := 1\<rparr> else d);
                            d = (if NextAccountID d < 1 then d\<lparr>NextAccountID := 1\<rparr> else d)
                        in Inr (js\<lparr>js_data := d\<rparr>)))))"


subsection \<open>Bans\<close>

definition IsBanned :: "JSONStore \<Rightarrow> string \<Rightarrow> bool \<times> string" where
  "IsBanned js host =
     (case find (\<lambda>ban. jb_Host ban = host) (Bans (js_data js)) of
        Some ban \<Rightarrow> (True, jb_Reason ban) | None \<Rightarrow> (False, []))"

definition banHost_mut :: "string \<Rightarrow> string \<Rightarrow> mutation" where
  "banHost_mut host reason d =
     (if \<exists>ban \<in> set (Bans d). jb_Host ban = host then Inr (d, [])
      else Inr (d\<lparr>Bans := Bans d @ [\<lparr>jb_Host = host, jb_Reason = reason\<rparr>]\<rparr>, []))"

definition BanHost :: "extlib \<Rightarrow> outside \<Rightarrow> string \<Rightarrow> string \<Rightarrow> JSONStore \<Rightarrow> JSONStore \<times> json_error option" where
  "BanHost E W host reason = update E W (banHost_mut host reason)"

definition unbanHost_mut :: "string \<Rightarrow> mutation" where
  "unbanHost_mut host d = Inr (d\<lparr>Bans := remove_first (\<lambda>ban. jb_Host ban = host) (Bans d)\<rparr>, [])"

definition UnbanHost :: "extlib \<Rightarrow> outside \<Rightarrow> string \<Rightarrow> JSONStore \<Rightarrow> JSONStore \<times> json_error option" where
  "UnbanHost E W host = update E W (unbanHost_mut host)"

definition clearBans_mut :: mutation where
  "clearBans_mut d = Inr (d\<lparr>Bans := []\<rparr>, [])"

definition ClearBans :: "extlib \<Rightarrow> outside \<Rightarrow> JSONStore \<Rightarrow> JSONStore \<times> json_error option" where
  "ClearBans E W = update E W clearBans_mut"

subsection \<open>Accounts\<close>

definition invalid_uuid :: "json_error \<Rightarrow> json_error" where
  "invalid_uuid err = Errorf ''invalid workgroup UUID'' (Some err)"

definition GetAccountByID :: "JSONStore \<Rightarrow> int \<Rightarrow> json_error + Account" where
  "GetAccountByID js i =
     (case find (\<lambda>a. ja_ID a = i) (Accounts (js_data js)) of
        Some a \<Rightarrow> Inr (accountOf a) | None \<Rightarrow> Inl ErrAccountNotFound)"

definition FindAccount :: "extlib \<Rightarrow> JSONStore \<Rightarrow> string \<Rightarrow> string \<Rightarrow> json_error + Account" where
  "FindAccount E js username wg =
     (case uuid_Parse E wg of
        Inl err \<Rightarrow> Inl (invalid_uuid err)
      | Inr _ \<Rightarrow>
          (case find (\<lambda>a. ja_Username a = username \<and> ja_Workgroup a = wg) (Accounts (js_data js)) of
             Some a \<Rightarrow> Inr (accountOf a) | None \<Rightarrow> Inl ErrAccountNotFound))"

definition addAccount_mut :: "extlib \<Rightarrow> Account \<Rightarrow> mutation" where
  "addAccount_mut E acc d =
     (case findWorkgroupByUUID E d (acc_Workgroup acc) of
        None \<Rightarrow> Inl (Errorf ''failed to add account: workgroup not found'' None)
      | Some _ \<Rightarrow>
          (if \<exists>a \<in> set (Accounts d). ja_Username a = acc_Username acc \<and> ja_Workgroup a = acc_Workgroup acc
           then Inl ErrAccountExists
           else Inr (d\<lparr>Accounts := Accounts d @ [\<lparr>ja_ID = NextAccountID d, ja_Username = acc_Username acc,
                          ja_NTHash = ntHash E (acc_Password acc), ja_Workgroup = acc_Workgroup acc\<rparr>],
                       NextAccountID := NextAccountID d + 1\<rparr>, [])))"

definition AddAccount :: "extlib \<Rightarrow> outside \<Rightarrow> Account \<Rightarrow> JSONStore \<Rightarrow> JSONStore \<times> json_error option" where
  "AddAccount E W acc js =
     (if IsAnonymousWorkgroup E (acc_Workgroup acc) then (js, Some ErrReservedWorkgroup)
      else case uuid_Parse E (acc_Workgroup acc) of
             Inl err \<Rightarrow> (js, Some (invalid_uuid err))
           | Inr _ \<Rightarrow> update E W (addAccount_mut E acc) js)"

definition HasAccount :: "extlib \<Rightarrow> JSONStore \<Rightarrow> string \<Rightarrow> string \<Rightarrow> json_error + bool" where
  "HasAccount E js username wg =
     (case uuid_Parse E wg of
        Inl err \<Rightarrow> Inl (invalid_uuid err)
      | Inr _ \<Rightarrow> Inr (\<exists>a \<in> set (Accounts (js_data js)). ja_Username a = username \<and> ja_Workgroup a = wg))"

definition removeAccount_mut :: "string \<Rightarrow> string \<Rightarrow> mutation" where
  "removeAccount_mut username wg d =
     (let match = (\<lambda>a. ja_Username a = username \<and> ja_Workgroup a = wg);
          d' = (case find match (Accounts d) of
                  Some a \<Rightarrow> removePolicies (d\<lparr>Accounts := remove_first match (Accounts d)\<rparr>) (\<lambda>p. jp_AccountID p = ja_ID a)
                | None \<Rightarrow> d)
      in Inr (d', [CallRemoveAccess (noAccount\<lparr>acc_Username := username, acc_Workgroup := wg\<rparr>)]))"

definition RemoveAccount :: "extlib \<Rightarrow> outside \<Rightarrow> string \<Rightarrow> string \<Rightarrow> JSONStore \<Rightarrow> JSONStore \<times> json_error option" where
  "RemoveAccount E W username wg js =
     (case uuid_Parse E wg of
        Inl err \<Rightarrow> (js, Some (invalid_uuid err))
      | Inr _ \<Rightarrow> update E W (removeAccount_mut username wg) js)"

definition FindAccounts :: "extlib \<Rightarrow> JSONStore \<Rightarrow> string \<Rightarrow> json_error + Account list" where
  "FindAccounts E js wg =
     (case uuid_Parse E wg of
        Inl err \<Rightarrow> Inl (invalid_uuid err)
      | Inr _ \<Rightarrow> Inr (map accountOf (filter (\<lambda>a. ja_Workgroup a = wg) (Accounts (js_data js)))))"

text \<open>An account as the notifications name it, without the hash.\<close>

definition removedAcc :: "jsonAccount \<Rightarrow> Account" where
  "removedAcc a = noAccount\<lparr>acc_ID := ja_ID a, acc_Username := ja_Username a, acc_Workgroup := ja_Workgroup a\<rparr>"

definition removeAccounts_mut :: "string \<Rightarrow> mutation" where
  "removeAccounts_mut wg d =
     (let removed = filter (\<lambda>a. ja_Workgroup a = wg) (Accounts d)
      in Inr (removePolicies (d\<lparr>Accounts := filter (\<lambda>a. ja_Workgroup a \<noteq> wg) (Accounts d)\<rparr>)
                (\<lambda>p. jp_AccountID p \<in> set (map ja_ID removed)),
              map (\<lambda>a. CallRemoveAccess (removedAcc a)) removed))"

definition RemoveAccounts :: "extlib \<Rightarrow> outside \<Rightarrow> string \<Rightarrow> JSONStore \<Rightarrow> JSONStore \<times> json_error option" where
  "RemoveAccounts E W wg js =
     (case uuid_Parse E wg of
        Inl err \<Rightarrow> (js, Some (invalid_uuid err))
      | Inr _ \<Rightarrow> update E W (removeAccounts_mut wg) js)"

subsection \<open>Workgroups\<close>

definition GetWorkgroupByID :: "JSONStore \<Rightarrow> int \<Rightarrow> Workgroup" where
  "GetWorkgroupByID js i =
     (case find (\<lambda>w. wg_ID w = i) (Workgroups (js_data js)) of Some w \<Rightarrow> w | None \<Rightarrow> noWorkgroup)"

definition FindWorkgroup :: "extlib \<Rightarrow> JSONStore \<Rightarrow> uuid \<Rightarrow> Workgroup" where
  "FindWorkgroup E js u =
     (case findWorkgroupByUUID E (js_data js) (uuid_String E u) of Some w \<Rightarrow> w | None \<Rightarrow> noWorkgroup)"

definition FindWorkgroupByName :: "extlib \<Rightarrow> JSONStore \<Rightarrow> string \<Rightarrow> Workgroup" where
  "FindWorkgroupByName E js name0 =
     (let name = NormalizeWorkgroupName E name0
      in case find (\<lambda>w. wg_Name w \<noteq> [] \<and> wg_Name w = name) (Workgroups (js_data js)) of
           Some w \<Rightarrow> w | None \<Rightarrow> noWorkgroup)"

definition GetWorkgroups :: "JSONStore \<Rightarrow> Workgroup list" where
  "GetWorkgroups js = sort_key wg_ID (Workgroups (js_data js))"

text \<open>The loop over the workgroups stops at the first that has the UUID or the name.\<close>

fun workgroupTaken :: "Workgroup \<Rightarrow> Workgroup list \<Rightarrow> json_error option" where
  "workgroupTaken wg [] = None"
| "workgroupTaken wg (w # ws) =
     (if wg_UUID w = wg_UUID wg then Some (Errorf ''failed to add workgroup: workgroup already exists'' None)
      else if wg_Name wg \<noteq> [] \<and> wg_Name w = wg_Name wg then Some ErrWorkgroupExists
      else workgroupTaken wg ws)"

definition addWorkgroup_mut :: "Workgroup \<Rightarrow> mutation" where
  "addWorkgroup_mut wg d =
     (case workgroupTaken wg (Workgroups d) of
        Some err \<Rightarrow> Inl err
      | None \<Rightarrow> Inr (d\<lparr>Workgroups := Workgroups d @ [wg\<lparr>wg_ID := NextWorkgroupID d,
                          wg_PublicDirs := normalizePublicDirs (wg_PublicDirs wg)\<rparr>],
                      NextWorkgroupID := NextWorkgroupID d + 1\<rparr>, []))"

definition AddWorkgroup :: "extlib \<Rightarrow> outside \<Rightarrow> Workgroup \<Rightarrow> JSONStore \<Rightarrow> JSONStore \<times> json_error option" where
  "AddWorkgroup E W wg js =
     (if wg_UUID wg = AnonymousWorkgroup then (js, Some ErrReservedWorkgroup)
      else update E W (addWorkgroup_mut (wg\<lparr>wg_Name := NormalizeWorkgroupName E (wg_Name wg)\<rparr>)) js)"

definition updateWorkgroup_mut :: "Workgroup \<Rightarrow> mutation" where
  "updateWorkgroup_mut wg d =
     (if \<exists>w \<in> set (Workgroups d). wg_ID w = wg_ID wg
      then Inr (d\<lparr>Workgroups := update_first (\<lambda>w. wg_ID w = wg_ID wg)
                    (\<lambda>w. w\<lparr>wg_PublicDirs := normalizePublicDirs (wg_PublicDirs wg)\<rparr>) (Workgroups d)\<rparr>, [])
      else Inl (Errorf ''workgroup not found'' None))"

definition UpdateWorkgroup :: "extlib \<Rightarrow> outside \<Rightarrow> Workgroup \<Rightarrow> JSONStore \<Rightarrow> JSONStore \<times> json_error option" where
  "UpdateWorkgroup E W wg = update E W (updateWorkgroup_mut wg)"

definition removeWorkgroup_mut :: "extlib \<Rightarrow> Workgroup \<Rightarrow> mutation" where
  "removeWorkgroup_mut E wg d =
     (case find (\<lambda>w. wg_ID w = wg_ID wg) (Workgroups d) of
        None \<Rightarrow> Inr (d, [])
      | Some w \<Rightarrow>
          (let u = uuid_String E (wg_UUID w);
               accs = filter (\<lambda>a. ja_Workgroup a = u) (Accounts d);
               conns = filter (\<lambda>c. jc_Workgroup c = u) (Connections d)
           in Inr (removePolicies
                     (d\<lparr>Workgroups := remove_first (\<lambda>w. wg_ID w = wg_ID wg) (Workgroups d),
                        Accounts := filter (\<lambda>a. ja_Workgroup a \<noteq> u) (Accounts d),
                        Connections := filter (\<lambda>c. jc_Workgroup c \<noteq> u) (Connections d)\<rparr>)
                     (\<lambda>p. jp_Workgroup p = u),
                   map (\<lambda>c. CallRemoveConnection w (noShare\<lparr>sh_Name := jc_ShareName c\<rparr>)) conns @
                   map (\<lambda>a. CallRemoveAccess (removedAcc a)) accs)))"

definition RemoveWorkgroup :: "extlib \<Rightarrow> outside \<Rightarrow> Workgroup \<Rightarrow> JSONStore \<Rightarrow> JSONStore \<times> json_error option" where
  "RemoveWorkgroup E W wg = update E W (removeWorkgroup_mut E wg)"

text \<open>The anonymous identity: its workgroup and its account, made unless they are there.\<close>

definition ensureAnonymous_data :: "extlib \<Rightarrow> jsonData \<Rightarrow> jsonData \<times> Account" where
  "ensureAnonymous_data E d =
     (let wg = uuid_String E AnonymousWorkgroup;
          d = (if \<exists>w \<in> set (Workgroups d). wg_UUID w = AnonymousWorkgroup then d
               else d\<lparr>Workgroups := Workgroups d @ [noWorkgroup\<lparr>wg_ID := NextWorkgroupID d, wg_UUID := AnonymousWorkgroup\<rparr>],
                      NextWorkgroupID := NextWorkgroupID d + 1\<rparr>)
      in case find (\<lambda>a. ja_Username a = AnonymousAccount \<and> ja_Workgroup a = wg) (Accounts d) of
           Some a \<Rightarrow> (d, accountOf a)
         | None \<Rightarrow>
             (let a = \<lparr>ja_ID = NextAccountID d, ja_Username = AnonymousAccount, ja_NTHash = ntHash E [], ja_Workgroup = wg\<rparr>
              in (d\<lparr>Accounts := Accounts d @ [a], NextAccountID := NextAccountID d + 1\<rparr>, accountOf a)))"

definition ensureAnonymous_mut :: "extlib \<Rightarrow> mutation" where
  "ensureAnonymous_mut E d = Inr (fst (ensureAnonymous_data E d), [])"

definition EnsureAnonymous :: "extlib \<Rightarrow> outside \<Rightarrow> JSONStore \<Rightarrow> JSONStore \<times> Account \<times> json_error option" where
  "EnsureAnonymous E W js =
     (case update E W (ensureAnonymous_mut E) js of
        (js', err) \<Rightarrow> (js', snd (ensureAnonymous_data E (js_data js)), err))"


subsection \<open>Shares\<close>

definition GetShare :: "JSONStore \<Rightarrow> string \<Rightarrow> Share" where
  "GetShare js name =
     (if name = [] then noShare
      else case find (\<lambda>sh. sh_Name sh = name) (Shares (js_data js)) of Some sh \<Rightarrow> sh | None \<Rightarrow> noShare)"

definition registerShare_mut :: "Share \<Rightarrow> mutation" where
  "registerShare_mut s d =
     (if \<exists>sh \<in> set (Shares d). sh_Name sh = sh_Name s then Inl ErrShareExists
      else Inr (d\<lparr>Shares := Shares d @ [s]\<rparr>, [CallRegisterShare s]))"

definition RegisterShare :: "extlib \<Rightarrow> outside \<Rightarrow> Share \<Rightarrow> JSONStore \<Rightarrow> JSONStore \<times> json_error option" where
  "RegisterShare E W s js =
     (if sh_Type s \<noteq> ''renterd''
      then (js, Some (Errorf (''failed to register share: '' @ sh_Type s @ '' shares are'') (Some ErrLiteMode)))
      else update E W (registerShare_mut (s\<lparr>sh_CreatedAt := time_now W\<rparr>)) js)"

definition unregisterShare_mut :: "string \<Rightarrow> mutation" where
  "unregisterShare_mut name d =
     Inr (removePolicies
            (d\<lparr>Shares := remove_first (\<lambda>sh. sh_Name sh = name) (Shares d),
               Connections := filter (\<lambda>c. jc_ShareName c \<noteq> name) (Connections d)\<rparr>)
            (\<lambda>p. jp_ShareName p = name), [])"

definition UnregisterShare :: "extlib \<Rightarrow> outside \<Rightarrow> string \<Rightarrow> JSONStore \<Rightarrow> JSONStore \<times> json_error option" where
  "UnregisterShare E W name js =
     (if name = [] then (js, None)
      else let s = GetShare js name
           in if sh_Name s = [] then (js, None)
              else case share_manager W (CallRemoveShare s) of
                     Some err \<Rightarrow> (js, Some (Errorf (call_text (CallRemoveShare s)) (Some err)))
                   | None \<Rightarrow> update E W (unregisterShare_mut name) js)"

text \<open>What a share takes over from its new settings; its name, type and the rest stay.\<close>

definition shareSettings :: "Share \<Rightarrow> Share \<Rightarrow> Share" where
  "shareSettings s sh = sh\<lparr>sh_Remark := sh_Remark s, sh_AllowGuest := sh_AllowGuest s,
     sh_AllowAnonymous := sh_AllowAnonymous s, sh_PublicDir := sh_PublicDir s, sh_SkipBackup := sh_SkipBackup s,
     sh_ServerName := sh_ServerName s, sh_Bucket := sh_Bucket s\<rparr>"

definition updateShare_mut :: "Share \<Rightarrow> mutation" where
  "updateShare_mut s d =
     (if \<exists>sh \<in> set (Shares d). sh_Name sh = sh_Name s
      then Inr (d\<lparr>Shares := update_first (\<lambda>sh. sh_Name sh = sh_Name s) (shareSettings s) (Shares d)\<rparr>, [])
      else Inl (ErrStore ErrNotFound))"

definition UpdateShare :: "extlib \<Rightarrow> outside \<Rightarrow> Share \<Rightarrow> JSONStore \<Rightarrow> JSONStore \<times> json_error option" where
  "UpdateShare E W s js =
     (if sh_Name s = [] then (js, None)
      else case update E W (updateShare_mut s) js of
             (js', Some err) \<Rightarrow> (js', Some err)
           | (js', None) \<Rightarrow>
               (let updated = shareSettings s (the (find (\<lambda>sh. sh_Name sh = sh_Name s) (Shares (js_data js))))
                in case share_manager W (CallUpdateShare updated) of
                     Some err \<Rightarrow> (js', Some (Errorf (call_text (CallUpdateShare updated)) (Some err)))
                   | None \<Rightarrow> (js', None)))"

definition anyAccess :: "jsonPolicy \<Rightarrow> bool" where
  "anyAccess p \<longleftrightarrow> jp_ReadAccess p \<or> jp_WriteAccess p \<or> jp_DeleteAccess p \<or> jp_ExecuteAccess p"

definition GetShares :: "JSONStore \<Rightarrow> Account \<Rightarrow> Share list" where
  "GetShares js acc =
     (let names = map jp_ShareName (filter (\<lambda>p. jp_AccountID p = acc_ID acc \<and> anyAccess p) (Policies (js_data js)))
      in filter (\<lambda>sh. sh_Name sh \<in> set names) (Shares (js_data js)))"

definition GetAllShares :: "JSONStore \<Rightarrow> Share list" where
  "GetAllShares js = sort_key sh_Name (Shares (js_data js))"

definition GetAccounts :: "JSONStore \<Rightarrow> Share \<Rightarrow> AccessRights list" where
  "GetAccounts js sh =
     (if sh_Name sh = [] then []
      else map accessRightsFromPolicy (filter (\<lambda>p. jp_ShareName p = sh_Name sh) (Policies (js_data js))))"

subsection \<open>Access policies\<close>

definition GetAccessRights :: "JSONStore \<Rightarrow> Share \<Rightarrow> Account \<Rightarrow> AccessRights" where
  "GetAccessRights js share acc =
     (if sh_Name share = [] then noRights
      else case find (\<lambda>p. jp_ShareName p = sh_Name share \<and> jp_AccountID p = acc_ID acc) (Policies (js_data js)) of
             Some p \<Rightarrow> accessRightsFromPolicy p | None \<Rightarrow> noRights)"

definition setAccessRights_mut :: "Share \<Rightarrow> AccessRights \<Rightarrow> mutation" where
  "setAccessRights_mut sh ar d =
     (if sh_Name sh = [] then Inl (Errorf ''failed to update policy: share not found'' None)
      else let wg = (case find (\<lambda>a. ja_ID a = AccountID ar) (Accounts d) of Some a \<Rightarrow> ja_Workgroup a | None \<Rightarrow> [])
           in if wg = [] then Inl (Errorf ''failed to update policy: account not found'' None)
              else if \<not> (\<exists>c \<in> set (Connections d). jc_Workgroup c = wg \<and> jc_ShareName c = ShareName ar)
              then Inl (Errorf ''failed to update policy: no connection between the workgroup and the share'' None)
              else let policy = \<lparr>jp_ShareName = ShareName ar, jp_AccountID = AccountID ar, jp_Workgroup = wg,
                          jp_ReadAccess = ReadAccess ar, jp_WriteAccess = WriteAccess ar,
                          jp_DeleteAccess = DeleteAccess ar, jp_ExecuteAccess = ExecuteAccess ar\<rparr>;
                       match = (\<lambda>p. jp_ShareName p = ShareName ar \<and> jp_AccountID p = AccountID ar)
                   in Inr (d\<lparr>Policies := (if \<exists>p \<in> set (Policies d). match p
                                         then update_first match (\<lambda>_. policy) (Policies d)
                                         else Policies d @ [policy])\<rparr>,
                           [CallUpdateAccessRights sh ar]))"

definition SetAccessRights :: "extlib \<Rightarrow> outside \<Rightarrow> AccessRights \<Rightarrow> JSONStore \<Rightarrow> JSONStore \<times> json_error option" where
  "SetAccessRights E W ar js = update E W (setAccessRights_mut (GetShare js (ShareName ar)) ar) js"

definition removeAccessRights_mut :: "Share \<Rightarrow> Account \<Rightarrow> mutation" where
  "removeAccessRights_mut share acc d =
     Inr (removePolicies d (\<lambda>p. jp_ShareName p = sh_Name share \<and> jp_AccountID p = acc_ID acc),
          [CallUpdateAccessRights share (noRights\<lparr>AccountID := acc_ID acc\<rparr>)])"

definition RemoveAccessRights :: "extlib \<Rightarrow> outside \<Rightarrow> Share \<Rightarrow> Account \<Rightarrow> JSONStore \<Rightarrow> JSONStore \<times> json_error option" where
  "RemoveAccessRights E W share acc js =
     (if sh_Name share = [] then (js, None) else update E W (removeAccessRights_mut share acc) js)"

definition clearAccessRights_mut :: "Account \<Rightarrow> mutation" where
  "clearAccessRights_mut acc d = Inr (removePolicies d (\<lambda>p. jp_AccountID p = acc_ID acc), [CallRemoveAccess acc])"

definition ClearAccessRights :: "extlib \<Rightarrow> outside \<Rightarrow> Account \<Rightarrow> JSONStore \<Rightarrow> JSONStore \<times> json_error option" where
  "ClearAccessRights E W acc = update E W (clearAccessRights_mut acc)"

subsection \<open>Connections\<close>

definition connects :: "string \<Rightarrow> Share \<Rightarrow> jsonConnection \<Rightarrow> bool" where
  "connects u share c \<longleftrightarrow> jc_Workgroup c = u \<and> jc_ShareName c = sh_Name share"

definition addConnection_mut :: "extlib \<Rightarrow> Workgroup \<Rightarrow> Share \<Rightarrow> privateKey \<Rightarrow> mutation" where
  "addConnection_mut E wg share appKey d =
     (let u = uuid_String E (wg_UUID wg); calls = [CallAddConnection wg share appKey]
      in case findWorkgroupByUUID E d u of
           None \<Rightarrow> Inl (Errorf ''failed to add connection: workgroup not found'' None)
         | Some _ \<Rightarrow>
             (if \<not> (\<exists>sh \<in> set (Shares d). sh_Name sh = sh_Name share)
              then Inl (Errorf ''failed to add connection: share not found'' None)
              else if \<exists>c \<in> set (Connections d). connects u share c then Inr (d, calls)
              else Inr (d\<lparr>Connections := Connections d @
                            [\<lparr>jc_Workgroup = u, jc_ShareName = sh_Name share, jc_AppKey = appKey\<rparr>]\<rparr>, calls)))"

definition AddConnection ::
  "extlib \<Rightarrow> outside \<Rightarrow> Workgroup \<Rightarrow> Share \<Rightarrow> privateKey \<Rightarrow> JSONStore \<Rightarrow> JSONStore \<times> json_error option" where
  "AddConnection E W wg share appKey = update E W (addConnection_mut E wg share appKey)"

definition removeConnection_mut :: "extlib \<Rightarrow> Workgroup \<Rightarrow> Share \<Rightarrow> mutation" where
  "removeConnection_mut E wg share d =
     (let u = uuid_String E (wg_UUID wg)
      in Inr (removePolicies (d\<lparr>Connections := remove_first (connects u share) (Connections d)\<rparr>)
                (\<lambda>p. jp_Workgroup p = u \<and> jp_ShareName p = sh_Name share),
              [CallRemoveConnection wg share]))"

definition RemoveConnection ::
  "extlib \<Rightarrow> outside \<Rightarrow> Workgroup \<Rightarrow> Share \<Rightarrow> JSONStore \<Rightarrow> JSONStore \<times> json_error option" where
  "RemoveConnection E W wg share = update E W (removeConnection_mut E wg share)"

definition IsConnected :: "extlib \<Rightarrow> JSONStore \<Rightarrow> Workgroup \<Rightarrow> Share \<Rightarrow> bool \<times> privateKey" where
  "IsConnected E js wg share =
     (case find (connects (uuid_String E (wg_UUID wg)) share) (Connections (js_data js)) of
        Some c \<Rightarrow> (True, jc_AppKey c) | None \<Rightarrow> (False, []))"

definition setAppKey_mut :: "extlib \<Rightarrow> Workgroup \<Rightarrow> Share \<Rightarrow> privateKey \<Rightarrow> mutation" where
  "setAppKey_mut E wg share key d =
     Inr (d\<lparr>Connections := update_first (connects (uuid_String E (wg_UUID wg)) share)
               (\<lambda>c. c\<lparr>jc_AppKey := key\<rparr>) (Connections d)\<rparr>, [])"

definition SetAppKey ::
  "extlib \<Rightarrow> outside \<Rightarrow> Workgroup \<Rightarrow> Share \<Rightarrow> privateKey \<Rightarrow> JSONStore \<Rightarrow> JSONStore \<times> json_error option" where
  "SetAppKey E W wg share key = update E W (setAppKey_mut E wg share key)"

subsection \<open>Operations, alone and interleaved\<close>

text \<open>Every method that changes the store, with the arguments it may be called with.\<close>

inductive store_op :: "extlib \<Rightarrow> outside \<Rightarrow> (JSONStore \<Rightarrow> JSONStore \<times> json_error option) \<Rightarrow> bool" for E W where
  "store_op E W (BanHost E W host reason)"
| "store_op E W (UnbanHost E W host)"
| "store_op E W (ClearBans E W)"
| "store_op E W (AddAccount E W acc)"
| "store_op E W (RemoveAccount E W username wg)"
| "store_op E W (RemoveAccounts E W wg)"
| "store_op E W (AddWorkgroup E W w)"
| "store_op E W (UpdateWorkgroup E W w)"
| "store_op E W (RemoveWorkgroup E W w)"
| "store_op E W (\<lambda>js. case EnsureAnonymous E W js of (js', _, err) \<Rightarrow> (js', err))"
| "store_op E W (RegisterShare E W s)"
| "store_op E W (UnregisterShare E W name)"
| "store_op E W (SetAccessRights E W ar)"
| "store_op E W (RemoveAccessRights E W s acc)"
| "store_op E W (ClearAccessRights E W acc)"
| "store_op E W (AddConnection E W w s key)"
| "store_op E W (RemoveConnection E W w s)"
| "store_op E W (SetAppKey E W w s key)"

text \<open>The closures those methods hand to \<^verbatim>\<open>update\<close>. \<^verbatim>\<open>SetAccessRights\<close> reads the share before it takes the mutex, so its closure may hold any share.\<close>

inductive store_mutation :: "extlib \<Rightarrow> mutation \<Rightarrow> bool" for E where
  "store_mutation E (banHost_mut host reason)"
| "store_mutation E (unbanHost_mut host)"
| "store_mutation E clearBans_mut"
| "store_mutation E (addAccount_mut E acc)"
| "store_mutation E (removeAccount_mut username wg)"
| "store_mutation E (removeAccounts_mut wg)"
| "store_mutation E (addWorkgroup_mut w)"
| "store_mutation E (updateWorkgroup_mut w)"
| "store_mutation E (removeWorkgroup_mut E w)"
| "store_mutation E (ensureAnonymous_mut E)"
| "store_mutation E (registerShare_mut s)"
| "store_mutation E (unregisterShare_mut name)"
| "store_mutation E (updateShare_mut s)"
| "store_mutation E (setAccessRights_mut s ar)"
| "store_mutation E (removeAccessRights_mut s acc)"
| "store_mutation E (clearAccessRights_mut acc)"
| "store_mutation E (addConnection_mut E w s key)"
| "store_mutation E (removeConnection_mut E w s)"
| "store_mutation E (setAppKey_mut E w s key)"

text \<open>
  The store with the methods that have saved their change and are making their calls: for each, the
  snapshot it would put back and the calls.
\<close>

record storeSys =
  ss_store :: JSONStore
  ss_flight :: "(jsonData \<times> share_call list) list"

inductive store_step :: "extlib \<Rightarrow> storeSys \<Rightarrow> storeSys \<Rightarrow> bool" for E where
  begin_ok: "store_mutation E mutate \<Longrightarrow> update_mutate E io mutate (ss_store S) = (js', Inr calls) \<Longrightarrow>
    store_step E S \<lparr>ss_store = js', ss_flight = (js_data (ss_store S), calls) # ss_flight S\<rparr>"
| begin_err: "store_mutation E mutate \<Longrightarrow> update_mutate E io mutate (ss_store S) = (js', Inl err) \<Longrightarrow>
    store_step E S (S\<lparr>ss_store := js'\<rparr>)"
| finish: "ss_flight S = xs @ (snapshot, calls) # ys \<Longrightarrow>
    update_notify E io mgr snapshot calls (ss_store S) = (js', err) \<Longrightarrow>
    store_step E S \<lparr>ss_store = js', ss_flight = xs @ ys\<rparr>"

definition store_start :: "extlib \<Rightarrow> storeSys \<Rightarrow> bool" where
  "store_start E S \<longleftrightarrow> ss_flight S = [] \<and> (\<exists>W. NewJSONStore E W None = Inr (ss_store S))"

end
