(* ===== verification/Store_Integrity.thy ===== *)
theory Store_Integrity
  imports Json_Store
begin

section \<open>The store keeps its references intact\<close>

text \<open>
  What \<^verbatim>\<open>src/stores/jsonstore.go\<close> promises. The SQL store has the database's foreign keys; this store has only
  its own code, and \<open>store_ok\<close> is what those keys would say: identifiers and names are unique and below the
  counters, an account belongs to a workgroup that exists, a connection joins a workgroup and a share that
  exist, and a policy belongs to an account that exists, whose workgroup is connected to the share. The
  locale \<open>store_invariant\<close> is the contract of \<^verbatim>\<open>update\<close>: a property of the data that every closure keeps holds
  in every state the store can reach, however the halves of concurrent updates interleave, and in every
  snapshot that may yet be put back. It is interpreted on \<open>store_ok\<close>.

  The other properties: a failed operation changes nothing, what is stored survives a restart, what is
  granted is what is read back, a removed workgroup leaves nothing behind, and the two places where the code
  does less than it says: a rollback takes other updates with it, and normalizing the public folders can
  hide one.
\<close>

subsection \<open>Lists\<close>

lemma in_set_remove_first: "x \<in> set xs \<Longrightarrow> \<not> P x \<Longrightarrow> x \<in> set (remove_first P xs)"
  by (induction xs) auto

lemma set_remove_first_subset: "set (remove_first P xs) \<subseteq> set xs"
  by (induction xs) auto

lemma in_remove_firstD: "x \<in> set (remove_first P xs) \<Longrightarrow> x \<in> set xs"
  using set_remove_first_subset[of P xs] by blast

lemma distinct_map_remove_first: "distinct (map f xs) \<Longrightarrow> distinct (map f (remove_first P xs))"
  by (induction xs) (auto dest: in_remove_firstD)

lemma distinct_filter_map_remove_first:
  "distinct (filter Q (map f xs)) \<Longrightarrow> distinct (filter Q (map f (remove_first P xs)))"
  by (induction xs) (auto dest: in_remove_firstD split: if_splits)

lemma map_update_first: "(\<And>x. P x \<Longrightarrow> f (g x) = f x) \<Longrightarrow> map f (update_first P g xs) = map f xs"
  by (induction xs) auto

lemma image_update_first: "(\<And>x. P x \<Longrightarrow> f (g x) = f x) \<Longrightarrow> f ` set (update_first P g xs) = f ` set xs"
  using map_update_first[of P f g xs] by (metis list.set_map)

lemma distinct_map_filter_key: "distinct (map f xs) \<Longrightarrow> distinct (map f (filter P xs))"
  by (induction xs) auto

lemma image_insert_subset: "A \<subseteq> insert x B \<Longrightarrow> f x \<in> C \<Longrightarrow> f ` B \<subseteq> C \<Longrightarrow> f ` A \<subseteq> C"
  by auto

lemma find_remove_first_None:
  "distinct (map f xs) \<Longrightarrow> find (\<lambda>x. f x = k) (remove_first (\<lambda>x. f x = k) xs) = None"
proof (induction xs)
  case (Cons x xs)
  have "f x = k \<Longrightarrow> find (\<lambda>x. f x = k) xs = None"
    using Cons.prems by (simp add: find_None_iff) (metis image_eqI)
  with Cons show ?case by simp
qed simp

lemma find_filter_None: "find P (filter (\<lambda>x. \<not> P x) xs) = None"
  by (simp add: find_None_iff)

lemma find_eq_SomeD: "find P xs = Some x \<Longrightarrow> x \<in> set xs \<and> P x"
  by (auto simp: find_Some_iff)

lemma find_update_first:
  assumes "\<And>x. P x \<Longrightarrow> P (f x)" "\<exists>x \<in> set xs. P x"
  shows "find P (update_first P f xs) = map_option f (find P xs)"
  using assms(2) by (induction xs) (auto simp: assms(1))

lemma find_update_first_other:
  assumes "\<And>x. P x \<Longrightarrow> \<not> Q x \<and> \<not> Q (f x)"
  shows "find Q (update_first P f xs) = find Q xs"
  using assms by (induction xs) auto

subsection \<open>Integrity\<close>

definition conn_key :: "jsonConnection \<Rightarrow> string \<times> string" where
  "conn_key c = (jc_Workgroup c, jc_ShareName c)"

definition workgroups_ok :: "jsonData \<Rightarrow> bool" where
  "workgroups_ok d \<longleftrightarrow> distinct (map wg_ID (Workgroups d)) \<and>
     set (map wg_ID (Workgroups d)) \<subseteq> {1 ..< NextWorkgroupID d} \<and> 1 \<le> NextWorkgroupID d \<and>
     distinct (map wg_UUID (Workgroups d)) \<and> distinct (filter (\<lambda>n. n \<noteq> []) (map wg_Name (Workgroups d)))"

definition accounts_ok :: "extlib \<Rightarrow> jsonData \<Rightarrow> bool" where
  "accounts_ok E d \<longleftrightarrow> distinct (map ja_ID (Accounts d)) \<and>
     set (map ja_ID (Accounts d)) \<subseteq> {1 ..< NextAccountID d} \<and> 1 \<le> NextAccountID d \<and>
     distinct (map (\<lambda>a. (ja_Username a, ja_Workgroup a)) (Accounts d)) \<and>
     ja_Workgroup ` set (Accounts d) \<subseteq> (\<lambda>w. uuid_String E (wg_UUID w)) ` set (Workgroups d)"

definition connections_ok :: "extlib \<Rightarrow> jsonData \<Rightarrow> bool" where
  "connections_ok E d \<longleftrightarrow> distinct (map sh_Name (Shares d)) \<and> distinct (map conn_key (Connections d)) \<and>
     jc_Workgroup ` set (Connections d) \<subseteq> (\<lambda>w. uuid_String E (wg_UUID w)) ` set (Workgroups d) \<and>
     jc_ShareName ` set (Connections d) \<subseteq> sh_Name ` set (Shares d)"

definition policies_ok :: "jsonData \<Rightarrow> bool" where
  "policies_ok d \<longleftrightarrow> distinct (map (\<lambda>p. (jp_ShareName p, jp_AccountID p)) (Policies d)) \<and>
     (\<lambda>p. (jp_AccountID p, jp_Workgroup p)) ` set (Policies d) \<subseteq> (\<lambda>a. (ja_ID a, ja_Workgroup a)) ` set (Accounts d) \<and>
     (\<lambda>p. (jp_Workgroup p, jp_ShareName p)) ` set (Policies d) \<subseteq> conn_key ` set (Connections d)"

definition bans_ok :: "jsonData \<Rightarrow> bool" where
  "bans_ok d \<longleftrightarrow> distinct (map jb_Host (Bans d))"

definition store_ok :: "extlib \<Rightarrow> jsonData \<Rightarrow> bool" where
  "store_ok E d \<longleftrightarrow> workgroups_ok d \<and> accounts_ok E d \<and> connections_ok E d \<and> policies_ok d \<and> bans_ok d"

lemmas part_defs = workgroups_ok_def accounts_ok_def connections_ok_def policies_ok_def bans_ok_def

lemma store_okI:
  "workgroups_ok d \<Longrightarrow> accounts_ok E d \<Longrightarrow> connections_ok E d \<Longrightarrow> policies_ok d \<Longrightarrow> bans_ok d \<Longrightarrow> store_ok E d"
  by (simp add: store_ok_def)

lemma store_okD:
  assumes "store_ok E d"
  shows "workgroups_ok d" "accounts_ok E d" "connections_ok E d" "policies_ok d" "bans_ok d"
  using assms by (simp_all add: store_ok_def)

text \<open>The parts do not look at each other's fields.\<close>

lemma parts_cong:
  "workgroups_ok (d\<lparr>Accounts := a\<rparr>) = workgroups_ok d" "workgroups_ok (d\<lparr>NextAccountID := n\<rparr>) = workgroups_ok d"
  "workgroups_ok (d\<lparr>Connections := c\<rparr>) = workgroups_ok d" "workgroups_ok (d\<lparr>Policies := p\<rparr>) = workgroups_ok d"
  "workgroups_ok (d\<lparr>Shares := s\<rparr>) = workgroups_ok d" "workgroups_ok (d\<lparr>Bans := b\<rparr>) = workgroups_ok d"
  "accounts_ok E (d\<lparr>NextWorkgroupID := n\<rparr>) = accounts_ok E d" "accounts_ok E (d\<lparr>Connections := c\<rparr>) = accounts_ok E d"
  "accounts_ok E (d\<lparr>Policies := p\<rparr>) = accounts_ok E d" "accounts_ok E (d\<lparr>Shares := s\<rparr>) = accounts_ok E d"
  "accounts_ok E (d\<lparr>Bans := b\<rparr>) = accounts_ok E d"
  "connections_ok E (d\<lparr>NextWorkgroupID := n\<rparr>) = connections_ok E d" "connections_ok E (d\<lparr>NextAccountID := n\<rparr>) = connections_ok E d"
  "connections_ok E (d\<lparr>Accounts := a\<rparr>) = connections_ok E d" "connections_ok E (d\<lparr>Policies := p\<rparr>) = connections_ok E d"
  "connections_ok E (d\<lparr>Bans := b\<rparr>) = connections_ok E d"
  "policies_ok (d\<lparr>NextWorkgroupID := n\<rparr>) = policies_ok d" "policies_ok (d\<lparr>NextAccountID := n\<rparr>) = policies_ok d"
  "policies_ok (d\<lparr>Workgroups := w\<rparr>) = policies_ok d" "policies_ok (d\<lparr>Shares := s\<rparr>) = policies_ok d"
  "policies_ok (d\<lparr>Bans := b\<rparr>) = policies_ok d"
  "bans_ok (d\<lparr>Accounts := a\<rparr>) = bans_ok d" "bans_ok (d\<lparr>NextAccountID := n\<rparr>) = bans_ok d"
  "bans_ok (d\<lparr>Connections := c\<rparr>) = bans_ok d" "bans_ok (d\<lparr>Policies := p\<rparr>) = bans_ok d"
  "bans_ok (d\<lparr>Shares := s\<rparr>) = bans_ok d" "bans_ok (d\<lparr>Workgroups := w\<rparr>) = bans_ok d"
  "bans_ok (d\<lparr>NextWorkgroupID := n\<rparr>) = bans_ok d"
  by (simp_all add: part_defs)

text \<open>Dropping policies hurts nothing.\<close>

lemma policies_ok_filter: "policies_ok d \<Longrightarrow> policies_ok (d\<lparr>Policies := filter P (Policies d)\<rparr>)"
  unfolding policies_ok_def by (auto simp: distinct_map_filter_key)

text \<open>Policies are kept where the account and the connection of each are.\<close>

lemma policies_ok_less:
  assumes "policies_ok d"
    and as: "\<And>a p. a \<in> set (Accounts d) \<Longrightarrow> p \<in> set (Policies d) \<Longrightarrow> Q p \<Longrightarrow> jp_AccountID p = ja_ID a \<Longrightarrow>
      jp_Workgroup p = ja_Workgroup a \<Longrightarrow> a \<in> set as"
    and cs: "\<And>c p. c \<in> set (Connections d) \<Longrightarrow> p \<in> set (Policies d) \<Longrightarrow> Q p \<Longrightarrow> jp_Workgroup p = jc_Workgroup c \<Longrightarrow>
      jp_ShareName p = jc_ShareName c \<Longrightarrow> c \<in> set cs"
  shows "policies_ok (d\<lparr>Accounts := as, Connections := cs, Policies := filter Q (Policies d)\<rparr>)"
proof -
  have "(jp_AccountID p, jp_Workgroup p) \<in> (\<lambda>a. (ja_ID a, ja_Workgroup a)) ` set as"
    "(jp_Workgroup p, jp_ShareName p) \<in> conn_key ` set cs" if p: "p \<in> set (Policies d)" "Q p" for p
  proof -
    obtain a where "a \<in> set (Accounts d)" "jp_AccountID p = ja_ID a" "jp_Workgroup p = ja_Workgroup a"
      using assms(1) p(1) by (auto simp: policies_ok_def)
    then show "(jp_AccountID p, jp_Workgroup p) \<in> (\<lambda>a. (ja_ID a, ja_Workgroup a)) ` set as" using as p by auto
    obtain c where "c \<in> set (Connections d)" "jp_Workgroup p = jc_Workgroup c" "jp_ShareName p = jc_ShareName c"
      using assms(1) p(1) by (auto simp: policies_ok_def conn_key_def)
    then show "(jp_Workgroup p, jp_ShareName p) \<in> conn_key ` set cs" using cs p by (auto simp: conn_key_def)
  qed
  then show ?thesis using assms(1) by (auto simp: policies_ok_def distinct_map_filter_key)
qed

lemma removePolicies_ok: "store_ok E d \<Longrightarrow> store_ok E (removePolicies d match)"
  by (simp add: store_ok_def removePolicies_def parts_cong policies_ok_filter)

subsection \<open>Every closure keeps it\<close>

lemma store_ok_initial: "store_ok E initialData"
  by (simp add: store_ok_def part_defs initialData_def)

lemma banHost_ok: "store_ok E d \<Longrightarrow> banHost_mut h r d = Inr (d', calls) \<Longrightarrow> store_ok E d'"
  by (auto simp: banHost_mut_def store_ok_def parts_cong bans_ok_def split: if_splits)

lemma unbanHost_ok: "store_ok E d \<Longrightarrow> unbanHost_mut h d = Inr (d', calls) \<Longrightarrow> store_ok E d'"
  by (auto simp: unbanHost_mut_def store_ok_def parts_cong bans_ok_def distinct_map_remove_first)

lemma clearBans_ok: "store_ok E d \<Longrightarrow> clearBans_mut d = Inr (d', calls) \<Longrightarrow> store_ok E d'"
  by (auto simp: clearBans_mut_def store_ok_def parts_cong bans_ok_def)

lemma append_account_ok:
  assumes "store_ok E d" "u \<in> (\<lambda>w. uuid_String E (wg_UUID w)) ` set (Workgroups d)"
    "\<forall>a \<in> set (Accounts d). \<not> (ja_Username a = name \<and> ja_Workgroup a = u)"
  shows "store_ok E (d\<lparr>Accounts := Accounts d @ [\<lparr>ja_ID = NextAccountID d, ja_Username = name, ja_NTHash = h,
    ja_Workgroup = u\<rparr>], NextAccountID := NextAccountID d + 1\<rparr>)"
proof -
  note ok = store_okD[OF assms(1)]
  have "accounts_ok E (d\<lparr>Accounts := Accounts d @ [\<lparr>ja_ID = NextAccountID d, ja_Username = name, ja_NTHash = h,
    ja_Workgroup = u\<rparr>], NextAccountID := NextAccountID d + 1\<rparr>)"
  proof -
    have "NextAccountID d \<notin> ja_ID ` set (Accounts d)" using ok(2) by (auto simp: accounts_ok_def)
    moreover have "(name, u) \<notin> (\<lambda>a. (ja_Username a, ja_Workgroup a)) ` set (Accounts d)" using assms(3) by auto
    moreover have "{1 ..< NextAccountID d} \<subseteq> {1 ..< NextAccountID d + 1}" by auto
    ultimately show ?thesis using ok(2) assms(2) unfolding accounts_ok_def
      by (simp add: subset_iff) (meson less_imp_le)
  qed
  moreover have "policies_ok (d\<lparr>Accounts := Accounts d @ as\<rparr>)" for as
    using ok(4) unfolding policies_ok_def by auto
  ultimately show ?thesis using ok by (intro store_okI) (simp_all add: parts_cong)
qed

lemma findWorkgroup_image:
  "findWorkgroupByUUID E d u = Some w \<Longrightarrow> u \<in> (\<lambda>w. uuid_String E (wg_UUID w)) ` set (Workgroups d)"
  unfolding findWorkgroupByUUID_def by (auto dest: find_eq_SomeD)

lemma addAccount_ok: "store_ok E d \<Longrightarrow> addAccount_mut E acc d = Inr (d', calls) \<Longrightarrow> store_ok E d'"
  by (auto simp: addAccount_mut_def findWorkgroup_image intro!: append_account_ok split: option.splits if_splits)

lemma accounts_less_ok:
  assumes "store_ok E d" "set as \<subseteq> set (Accounts d)" "distinct (map ja_ID as)"
    "distinct (map (\<lambda>a. (ja_Username a, ja_Workgroup a)) as)"
    "\<And>a. a \<in> set (Accounts d) \<Longrightarrow> a \<notin> set as \<Longrightarrow> match_id (ja_ID a)"
  shows "store_ok E (removePolicies (d\<lparr>Accounts := as\<rparr>) (\<lambda>p. match_id (jp_AccountID p)))"
proof -
  note ok = store_okD[OF assms(1)]
  have "accounts_ok E (d\<lparr>Accounts := as\<rparr>)"
    using ok(2) assms(3,4) image_mono[OF assms(2), of ja_ID] image_mono[OF assms(2), of ja_Workgroup]
    unfolding accounts_ok_def by (simp, meson subset_trans)
  moreover have "policies_ok (d\<lparr>Accounts := as, Connections := Connections d,
      Policies := filter (\<lambda>p. \<not> match_id (jp_AccountID p)) (Policies d)\<rparr>)"
    using assms(5) by (intro policies_ok_less[OF ok(4)]) auto
  then have "policies_ok (d\<lparr>Accounts := as, Policies := filter (\<lambda>p. \<not> match_id (jp_AccountID p)) (Policies d)\<rparr>)"
    by (simp add: policies_ok_def)
  ultimately show ?thesis using ok by (intro store_okI) (simp_all add: parts_cong removePolicies_def)
qed


lemma removeAccount_ok:
  assumes "store_ok E d" "removeAccount_mut name u d = Inr (d', calls)"
  shows "store_ok E d'"
proof -
  let ?m = "\<lambda>a. ja_Username a = name \<and> ja_Workgroup a = u"
  note ok = store_okD[OF assms(1)]
  show ?thesis
  proof (cases "find ?m (Accounts d)")
    case None
    then show ?thesis using assms by (simp add: removeAccount_mut_def Let_def)
  next
    case (Some a)
    have gone: "ja_ID x = ja_ID a" if x: "x \<in> set (Accounts d)" "x \<notin> set (remove_first ?m (Accounts d))" for x
    proof -
      have "?m x" using in_set_remove_first[of x "Accounts d" ?m] x by blast
      moreover have "?m a" "a \<in> set (Accounts d)" using find_eq_SomeD[OF Some] by auto
      moreover have "inj_on (\<lambda>a. (ja_Username a, ja_Workgroup a)) (set (Accounts d))"
        using ok(2) by (simp add: accounts_ok_def distinct_map)
      ultimately have "x = a" using x(1) by (auto dest: inj_onD)
      then show ?thesis by simp
    qed
    have "store_ok E (removePolicies (d\<lparr>Accounts := remove_first ?m (Accounts d)\<rparr>) (\<lambda>p. jp_AccountID p = ja_ID a))"
      using ok(2) gone by (intro accounts_less_ok[OF assms(1)])
        (simp_all add: accounts_ok_def set_remove_first_subset distinct_map_remove_first)
    then show ?thesis using assms(2) Some by (simp add: removeAccount_mut_def Let_def)
  qed
qed

lemma removeAccounts_ok:
  assumes "store_ok E d" "removeAccounts_mut u d = Inr (d', calls)"
  shows "store_ok E d'"
proof -
  have "store_ok E (removePolicies (d\<lparr>Accounts := filter (\<lambda>a. ja_Workgroup a \<noteq> u) (Accounts d)\<rparr>)
      (\<lambda>p. jp_AccountID p \<in> set (map ja_ID (filter (\<lambda>a. ja_Workgroup a = u) (Accounts d)))))"
    using store_okD(2)[OF assms(1)] by (intro accounts_less_ok[OF assms(1)])
      (auto simp: accounts_ok_def distinct_map_filter_key)
  then show ?thesis using assms(2) by (simp add: removeAccounts_mut_def Let_def)
qed

lemma workgroupTaken_None:
  "workgroupTaken wg ws = None \<Longrightarrow> w \<in> set ws \<Longrightarrow>
     wg_UUID w \<noteq> wg_UUID wg \<and> (wg_Name wg \<noteq> [] \<longrightarrow> wg_Name w \<noteq> wg_Name wg)"
  by (induction wg ws rule: workgroupTaken.induct) (auto split: if_splits)

lemma append_workgroup_ok:
  assumes "store_ok E d" "wg_ID wg = NextWorkgroupID d" "workgroupTaken wg (Workgroups d) = None"
  shows "store_ok E (d\<lparr>Workgroups := Workgroups d @ [wg], NextWorkgroupID := NextWorkgroupID d + 1\<rparr>)"
proof -
  note ok = store_okD[OF assms(1)]
  have "wg_ID wg \<notin> wg_ID ` set (Workgroups d)" using ok(1) assms(2) by (auto simp: workgroups_ok_def)
  moreover have "wg_UUID wg \<notin> wg_UUID ` set (Workgroups d)" using workgroupTaken_None[OF assms(3)] by fastforce
  moreover have "wg_Name wg \<noteq> [] \<Longrightarrow> wg_Name wg \<notin> wg_Name ` set (Workgroups d)"
    using workgroupTaken_None[OF assms(3)] by fastforce
  moreover have "i < NextWorkgroupID d + 1" if "i \<in> wg_ID ` set (Workgroups d)" for i
    using that ok(1) by (auto simp: workgroups_ok_def)
  ultimately have "workgroups_ok (d\<lparr>Workgroups := Workgroups d @ [wg], NextWorkgroupID := NextWorkgroupID d + 1\<rparr>)"
    using ok(1) assms(2) by (auto simp: workgroups_ok_def)
  moreover have "accounts_ok E (d\<lparr>Workgroups := Workgroups d @ ws\<rparr>)" for ws
    using ok(2) unfolding accounts_ok_def by auto
  moreover have "connections_ok E (d\<lparr>Workgroups := Workgroups d @ ws\<rparr>)" for ws
    using ok(3) unfolding connections_ok_def by auto
  ultimately show ?thesis using ok by (intro store_okI) (simp_all add: parts_cong)
qed

lemma workgroupTaken_cong:
  "wg_UUID w = wg_UUID wg \<Longrightarrow> wg_Name w = wg_Name wg \<Longrightarrow> workgroupTaken w ws = workgroupTaken wg ws"
  by (induction ws) auto

lemma addWorkgroup_ok:
  assumes "store_ok E d" "addWorkgroup_mut wg d = Inr (d', calls)"
  shows "store_ok E d'"
proof -
  let ?w = "wg\<lparr>wg_ID := NextWorkgroupID d, wg_PublicDirs := normalizePublicDirs (wg_PublicDirs wg)\<rparr>"
  have t: "workgroupTaken wg (Workgroups d) = None"
    and d': "d' = d\<lparr>Workgroups := Workgroups d @ [?w], NextWorkgroupID := NextWorkgroupID d + 1\<rparr>"
    using assms(2) by (auto simp: addWorkgroup_mut_def split: option.splits)
  have "workgroupTaken ?w (Workgroups d) = None" using t workgroupTaken_cong[of ?w wg] by simp
  then show ?thesis unfolding d' by (intro append_workgroup_ok[OF assms(1)]) simp_all
qed

lemma updateWorkgroup_ok:
  assumes "store_ok E d" "updateWorkgroup_mut wg d = Inr (d', calls)"
  shows "store_ok E d'"
proof -
  note ok = store_okD[OF assms(1)]
  define ws where "ws = update_first (\<lambda>w. wg_ID w = wg_ID wg)
    (\<lambda>w. w\<lparr>wg_PublicDirs := normalizePublicDirs (wg_PublicDirs wg)\<rparr>) (Workgroups d)"
  have m: "map wg_ID ws = map wg_ID (Workgroups d)" "map wg_UUID ws = map wg_UUID (Workgroups d)"
    "map wg_Name ws = map wg_Name (Workgroups d)" unfolding ws_def by (simp_all add: map_update_first)
  have i: "wg_ID ` set ws = wg_ID ` set (Workgroups d)"
    "(\<lambda>w. uuid_String E (wg_UUID w)) ` set ws = (\<lambda>w. uuid_String E (wg_UUID w)) ` set (Workgroups d)"
    unfolding ws_def by (simp_all add: image_update_first)
  have d': "d' = d\<lparr>Workgroups := ws\<rparr>" using assms(2) by (auto simp: updateWorkgroup_mut_def ws_def split: if_splits)
  show ?thesis unfolding d'
    using ok by (intro store_okI) (simp_all add: parts_cong workgroups_ok_def accounts_ok_def connections_ok_def m i)
qed

lemma removeWorkgroup_ok:
  assumes "store_ok E d" "removeWorkgroup_mut E wg d = Inr (d', calls)"
  shows "store_ok E d'"
proof (cases "find (\<lambda>w. wg_ID w = wg_ID wg) (Workgroups d)")
  case None
  then show ?thesis using assms by (simp add: removeWorkgroup_mut_def)
next
  case (Some w)
  note ok = store_okD[OF assms(1)]
  define u where "u = uuid_String E (wg_UUID w)"
  define ws where "ws = remove_first (\<lambda>w. wg_ID w = wg_ID wg) (Workgroups d)"
  let ?S = "\<lambda>w. uuid_String E (wg_UUID w)"
  let ?as = "filter (\<lambda>a. ja_Workgroup a \<noteq> u) (Accounts d)" and ?cs = "filter (\<lambda>c. jc_Workgroup c \<noteq> u) (Connections d)"
  and ?ps = "filter (\<lambda>p. jp_Workgroup p \<noteq> u) (Policies d)"
  have keep: "v \<in> ?S ` set ws" if v: "v \<in> ?S ` set (Workgroups d)" "v \<noteq> u" for v
  proof -
    obtain x where x: "x \<in> set (Workgroups d)" "v = ?S x" using v(1) by blast
    have "x \<in> set ws"
    proof (cases "wg_ID x = wg_ID wg")
      case True
      have "w \<in> set (Workgroups d)" "wg_ID w = wg_ID wg" using find_eq_SomeD[OF Some] by auto
      moreover have "inj_on wg_ID (set (Workgroups d))" using ok(1) by (simp add: workgroups_ok_def distinct_map)
      ultimately have "x = w" using x(1) True by (metis inj_onD)
      then show ?thesis using x(2) v(2) by (simp add: u_def)
    qed (use x(1) in \<open>simp add: ws_def in_set_remove_first\<close>)
    then show ?thesis using x(2) by blast
  qed
  have "workgroups_ok (d\<lparr>Workgroups := ws\<rparr>)"
    using ok(1) subset_trans[OF image_mono[OF set_remove_first_subset]] unfolding workgroups_ok_def ws_def
    by (auto simp: distinct_map_remove_first distinct_filter_map_remove_first dest!: in_remove_firstD)
  moreover have "accounts_ok E (d\<lparr>Workgroups := ws, Accounts := ?as\<rparr>)"
    using ok(2) keep unfolding accounts_ok_def by (auto simp: distinct_map_filter_key)
  moreover have "connections_ok E (d\<lparr>Workgroups := ws, Connections := ?cs\<rparr>)"
    using ok(3) keep unfolding connections_ok_def by (auto simp: distinct_map_filter_key)
  moreover have "policies_ok (d\<lparr>Accounts := ?as, Connections := ?cs, Policies := ?ps\<rparr>)"
    by (rule policies_ok_less[OF ok(4)]) auto
  moreover have "d' = d\<lparr>Workgroups := ws, Accounts := ?as, Connections := ?cs, Policies := ?ps\<rparr>"
    using assms(2) Some by (simp add: removeWorkgroup_mut_def removePolicies_def Let_def u_def ws_def)
  ultimately show ?thesis using ok(5) by (intro store_okI) (simp_all add: part_defs)
qed


lemma ensureAnonymous_ok:
  assumes "store_ok E d" "ensureAnonymous_mut E d = Inr (d', calls)"
  shows "store_ok E d'"
proof -
  let ?u = "uuid_String E AnonymousWorkgroup" and ?S = "\<lambda>w. uuid_String E (wg_UUID w)"
  define d1 where "d1 = (if \<exists>w \<in> set (Workgroups d). wg_UUID w = AnonymousWorkgroup then d
    else d\<lparr>Workgroups := Workgroups d @ [noWorkgroup\<lparr>wg_ID := NextWorkgroupID d, wg_UUID := AnonymousWorkgroup\<rparr>],
           NextWorkgroupID := NextWorkgroupID d + 1\<rparr>)"
  have free: "workgroupTaken w ws = None" if "\<forall>x \<in> set ws. wg_UUID x \<noteq> wg_UUID w" "wg_Name w = []" for w ws
    using that by (induction ws) auto
  have d1: "store_ok E d1" "?u \<in> ?S ` set (Workgroups d1)"
  proof -
    show "store_ok E d1" unfolding d1_def using assms(1)
      by (auto intro!: append_workgroup_ok free simp: noWorkgroup_def)
    show "?u \<in> ?S ` set (Workgroups d1)" unfolding d1_def image_iff by (auto intro: sym) (metis (mono_tags))
  qed
  show ?thesis
  proof (cases "find (\<lambda>a. ja_Username a = AnonymousAccount \<and> ja_Workgroup a = ?u) (Accounts d1)")
    case None
    then have d': "d' = d1\<lparr>Accounts := Accounts d1 @ [\<lparr>ja_ID = NextAccountID d1, ja_Username = AnonymousAccount,
        ja_NTHash = ntHash E [], ja_Workgroup = ?u\<rparr>], NextAccountID := NextAccountID d1 + 1\<rparr>"
      using assms(2) by (simp add: ensureAnonymous_mut_def ensureAnonymous_data_def Let_def flip: d1_def)
    have "\<forall>a \<in> set (Accounts d1). \<not> (ja_Username a = AnonymousAccount \<and> ja_Workgroup a = ?u)"
      using None by (auto simp: find_None_iff)
    then show ?thesis unfolding d' by (rule append_account_ok[OF d1])
  next
    case (Some a)
    then have "d' = d1"
      using assms(2) by (simp add: ensureAnonymous_mut_def ensureAnonymous_data_def Let_def flip: d1_def)
    then show ?thesis using d1(1) by simp
  qed
qed

lemma registerShare_ok:
  assumes "store_ok E d" "registerShare_mut s d = Inr (d', calls)"
  shows "store_ok E d'"
proof -
  note ok = store_okD[OF assms(1)]
  have new: "sh_Name s \<notin> sh_Name ` set (Shares d)" and d': "d' = d\<lparr>Shares := Shares d @ [s]\<rparr>"
    using assms(2) by (auto simp: registerShare_mut_def image_iff split: if_splits)
  have "connections_ok E d'" unfolding d' connections_ok_def using ok(3) new
    by (simp add: connections_ok_def) (meson subset_insertI2)
  then show ?thesis using ok by (intro store_okI) (simp_all add: d' parts_cong)
qed

lemma unregisterShare_ok:
  assumes "store_ok E d" "unregisterShare_mut name d = Inr (d', calls)"
  shows "store_ok E d'"
proof -
  note ok = store_okD[OF assms(1)]
  let ?ss = "remove_first (\<lambda>sh. sh_Name sh = name) (Shares d)"
  let ?cs = "filter (\<lambda>c. jc_ShareName c \<noteq> name) (Connections d)"
  let ?ps = "filter (\<lambda>p. jp_ShareName p \<noteq> name) (Policies d)"
  have keep: "v \<in> sh_Name ` set ?ss" if "v \<in> sh_Name ` set (Shares d)" "v \<noteq> name" for v
    using that in_set_remove_first[of _ "Shares d" "\<lambda>sh. sh_Name sh = name"] by auto
  have "connections_ok E (d\<lparr>Shares := ?ss, Connections := ?cs\<rparr>)"
    using ok(3) keep unfolding connections_ok_def
    by (auto simp: distinct_map_filter_key distinct_map_remove_first)
  moreover have "policies_ok (d\<lparr>Accounts := Accounts d, Connections := ?cs, Policies := ?ps\<rparr>)"
    by (rule policies_ok_less[OF ok(4)]) auto
  moreover have "d' = d\<lparr>Shares := ?ss, Connections := ?cs, Policies := ?ps\<rparr>"
    using assms(2) by (simp add: unregisterShare_mut_def removePolicies_def)
  ultimately show ?thesis using ok by (intro store_okI) (simp_all add: part_defs)
qed

lemma updateShare_ok:
  assumes "store_ok E d" "updateShare_mut s d = Inr (d', calls)"
  shows "store_ok E d'"
proof -
  let ?ss = "update_first (\<lambda>sh. sh_Name sh = sh_Name s) (shareSettings s) (Shares d)"
  have "map sh_Name ?ss = map sh_Name (Shares d)" "sh_Name ` set ?ss = sh_Name ` set (Shares d)"
    by (simp_all add: map_update_first image_update_first shareSettings_def)
  then have "connections_ok E (d\<lparr>Shares := ?ss\<rparr>)" using store_okD(3)[OF assms(1)] by (simp add: connections_ok_def)
  moreover have "d' = d\<lparr>Shares := ?ss\<rparr>" using assms(2) by (auto simp: updateShare_mut_def split: if_splits)
  ultimately show ?thesis using store_okD[OF assms(1)] by (intro store_okI) (simp_all add: parts_cong)
qed

lemma setAccessRights_ok:
  assumes "store_ok E d" "setAccessRights_mut sh ar d = Inr (d', calls)"
  shows "store_ok E d'"
proof -
  note ok = store_okD[OF assms(1)]
  obtain a where a: "find (\<lambda>a. ja_ID a = AccountID ar) (Accounts d) = Some a" "ja_Workgroup a \<noteq> []"
    using assms(2) by (auto simp: setAccessRights_mut_def Let_def split: if_splits option.splits)
  let ?match = "\<lambda>p. jp_ShareName p = ShareName ar \<and> jp_AccountID p = AccountID ar"
  define pol where "pol = \<lparr>jp_ShareName = ShareName ar, jp_AccountID = AccountID ar, jp_Workgroup = ja_Workgroup a,
    jp_ReadAccess = ReadAccess ar, jp_WriteAccess = WriteAccess ar, jp_DeleteAccess = DeleteAccess ar,
    jp_ExecuteAccess = ExecuteAccess ar\<rparr>"
  define ps where "ps = (if \<exists>p \<in> set (Policies d). ?match p then update_first ?match (\<lambda>_. pol) (Policies d)
    else Policies d @ [pol])"
  have conn: "\<exists>c \<in> set (Connections d). jc_Workgroup c = ja_Workgroup a \<and> jc_ShareName c = ShareName ar"
    and d': "d' = d\<lparr>Policies := ps\<rparr>"
    using assms(2) a unfolding ps_def pol_def by (auto simp: setAccessRights_mut_def Let_def split: if_splits)
  have "set (update_first P (\<lambda>_. pol) xs) \<subseteq> insert pol (set xs)" for P xs by (induction xs) auto
  then have sub: "set ps \<subseteq> insert pol (set (Policies d))" unfolding ps_def by auto
  have dist: "distinct (map (\<lambda>p. (jp_ShareName p, jp_AccountID p)) ps)"
  proof (cases "\<exists>p \<in> set (Policies d). ?match p")
    case True
    then have "map (\<lambda>p. (jp_ShareName p, jp_AccountID p)) ps = map (\<lambda>p. (jp_ShareName p, jp_AccountID p)) (Policies d)"
      using map_update_first[of ?match "\<lambda>p. (jp_ShareName p, jp_AccountID p)" "\<lambda>_. pol" "Policies d"]
      by (auto simp: ps_def pol_def)
    then show ?thesis using ok(4) by (simp add: policies_ok_def)
  next
    case False
    then show ?thesis using ok(4) by (auto simp: ps_def pol_def policies_ok_def)
  qed
  have "(jp_AccountID pol, jp_Workgroup pol) \<in> (\<lambda>a. (ja_ID a, ja_Workgroup a)) ` set (Accounts d)"
    using find_eq_SomeD[OF a(1)] by (intro image_eqI[of _ _ a]) (simp_all add: pol_def)
  moreover have "(jp_Workgroup pol, jp_ShareName pol) \<in> conn_key ` set (Connections d)"
    using conn unfolding pol_def conn_key_def image_iff by auto (metis (mono_tags))
  ultimately have "policies_ok (d\<lparr>Policies := ps\<rparr>)"
    using ok(4) dist by (simp add: policies_ok_def image_insert_subset[OF sub])
  then show ?thesis unfolding d' using ok by (intro store_okI) (simp_all add: parts_cong)
qed

lemma removeAccessRights_ok: "store_ok E d \<Longrightarrow> removeAccessRights_mut s acc d = Inr (d', calls) \<Longrightarrow> store_ok E d'"
  by (auto simp: removeAccessRights_mut_def removePolicies_ok)

lemma clearAccessRights_ok: "store_ok E d \<Longrightarrow> clearAccessRights_mut acc d = Inr (d', calls) \<Longrightarrow> store_ok E d'"
  by (auto simp: clearAccessRights_mut_def removePolicies_ok)

lemma addConnection_ok:
  assumes "store_ok E d" "addConnection_mut E wg share key d = Inr (d', calls)"
  shows "store_ok E d'"
proof -
  note ok = store_okD[OF assms(1)]
  let ?u = "uuid_String E (wg_UUID wg)"
  have wg: "?u \<in> (\<lambda>w. uuid_String E (wg_UUID w)) ` set (Workgroups d)" and sh: "sh_Name share \<in> sh_Name ` set (Shares d)"
    using assms(2) by (auto simp: addConnection_mut_def Let_def image_iff eq_commute[of "sh_Name share"]
      split: option.splits if_splits dest: findWorkgroup_image)
  show ?thesis
  proof (cases "\<exists>c \<in> set (Connections d). connects ?u share c")
    case True
    then show ?thesis using assms by (auto simp: addConnection_mut_def Let_def split: option.splits if_splits)
  next
    case False
    define c where "c = \<lparr>jc_Workgroup = ?u, jc_ShareName = sh_Name share, jc_AppKey = key\<rparr>"
    have d': "d' = d\<lparr>Connections := Connections d @ [c]\<rparr>"
      using assms(2) False by (auto simp: addConnection_mut_def Let_def c_def split: option.splits if_splits)
    have "conn_key c \<notin> conn_key ` set (Connections d)" using False by (auto simp: conn_key_def connects_def c_def)
    then have "connections_ok E d'" unfolding d' using ok(3) wg sh by (auto simp: connections_ok_def c_def)
    moreover have "policies_ok d'" unfolding d' using ok(4) by (auto simp: policies_ok_def)
    ultimately show ?thesis using ok by (intro store_okI) (simp_all add: d' parts_cong)
  qed
qed

lemma removeConnection_ok:
  assumes "store_ok E d" "removeConnection_mut E wg share d = Inr (d', calls)"
  shows "store_ok E d'"
proof -
  note ok = store_okD[OF assms(1)]
  let ?u = "uuid_String E (wg_UUID wg)"
  let ?cs = "remove_first (connects ?u share) (Connections d)"
  let ?ps = "filter (\<lambda>p. \<not> (jp_Workgroup p = ?u \<and> jp_ShareName p = sh_Name share)) (Policies d)"
  have d': "d' = d\<lparr>Connections := ?cs, Policies := ?ps\<rparr>"
    using assms(2) by (simp add: removeConnection_mut_def removePolicies_def Let_def)
  have keep: "k \<in> conn_key ` set ?cs" if k: "k \<in> conn_key ` set (Connections d)" "k \<noteq> (?u, sh_Name share)" for k
    using k in_set_remove_first[of _ "Connections d" "connects ?u share"] by (auto simp: conn_key_def connects_def)
  have "connections_ok E d'" unfolding d'
    using ok(3) by (auto simp: connections_ok_def distinct_map_remove_first dest!: in_remove_firstD)
  moreover have "policies_ok d'"
  proof -
    have "(jp_Workgroup p, jp_ShareName p) \<in> conn_key ` set ?cs" if "p \<in> set ?ps" for p
      using that ok(4) by (intro keep) (auto simp: policies_ok_def)
    then show ?thesis unfolding d' using ok(4)
      by (auto simp: policies_ok_def distinct_map_filter_key)
  qed
  ultimately show ?thesis using ok by (intro store_okI) (simp_all add: d' parts_cong)
qed

lemma setAppKey_ok:
  assumes "store_ok E d" "setAppKey_mut E wg share key d = Inr (d', calls)"
  shows "store_ok E d'"
proof -
  let ?cs = "update_first (connects (uuid_String E (wg_UUID wg)) share) (\<lambda>c. c\<lparr>jc_AppKey := key\<rparr>) (Connections d)"
  have "map conn_key ?cs = map conn_key (Connections d)" "conn_key ` set ?cs = conn_key ` set (Connections d)"
    "jc_Workgroup ` set ?cs = jc_Workgroup ` set (Connections d)" "jc_ShareName ` set ?cs = jc_ShareName ` set (Connections d)"
    by (simp_all add: map_update_first image_update_first conn_key_def)
  then have "connections_ok E (d\<lparr>Connections := ?cs\<rparr>)" "policies_ok (d\<lparr>Connections := ?cs\<rparr>)"
    using store_okD(3,4)[OF assms(1)] by (simp_all add: connections_ok_def policies_ok_def)
  moreover have "d' = d\<lparr>Connections := ?cs\<rparr>" using assms(2) by (simp add: setAppKey_mut_def)
  ultimately show ?thesis using store_okD[OF assms(1)] by (intro store_okI) (simp_all add: parts_cong)
qed

text \<open>No closure breaks it.\<close>

lemma store_mutation_ok: "store_mutation E m \<Longrightarrow> store_ok E d \<Longrightarrow> m d = Inr (d', calls) \<Longrightarrow> store_ok E d'"
  by (induction rule: store_mutation.induct)
    (erule (1) banHost_ok unbanHost_ok clearBans_ok addAccount_ok removeAccount_ok removeAccounts_ok addWorkgroup_ok
      updateWorkgroup_ok removeWorkgroup_ok ensureAnonymous_ok registerShare_ok unregisterShare_ok updateShare_ok
      setAccessRights_ok removeAccessRights_ok clearAccessRights_ok addConnection_ok removeConnection_ok setAppKey_ok)+


subsection \<open>The contract of update\<close>

lemma New_store_data: "NewJSONStore E W None = Inr js \<Longrightarrow> js_data js = initialData"
  by (auto simp: NewJSONStore_def save_def Let_def split: option.splits)

locale store_invariant =
  fixes E :: extlib and inv :: "jsonData \<Rightarrow> bool"
  assumes inv_initial: "inv initialData"
    and inv_mutation: "store_mutation E m \<Longrightarrow> inv d \<Longrightarrow> m d = Inr (d', calls) \<Longrightarrow> inv d'"
begin

definition sys_inv :: "storeSys \<Rightarrow> bool" where
  "sys_inv S \<longleftrightarrow> inv (js_data (ss_store S)) \<and> (\<forall>(snapshot, calls) \<in> set (ss_flight S). inv snapshot)"

lemma save_data: "js_data (fst (save E io js)) = js_data js"
  by (auto simp: save_def split: option.splits)

lemma update_mutate_inv:
  assumes "store_mutation E m" "inv (js_data js)" "update_mutate E io m js = (js', r)"
  shows "inv (js_data js')"
proof (cases "m (js_data js)")
  case (Inl err)
  then show ?thesis using assms by (auto simp: update_mutate_def)
next
  case (Inr dc)
  obtain d calls where dc: "dc = (d, calls)" by force
  then have "inv d" using inv_mutation assms(1,2) Inr by blast
  then show ?thesis using assms(2,3) Inr dc
    by (auto simp: update_mutate_def save_def split: option.splits)
qed

lemma update_notify_inv:
  assumes "inv snapshot" "inv (js_data js)" "update_notify E io mgr snapshot calls js = (js', err)"
  shows "inv (js_data js')"
  using assms by (auto simp: update_notify_def save_data split: option.splits)

lemma step_inv: "store_step E S S' \<Longrightarrow> sys_inv S \<Longrightarrow> sys_inv S'"
proof (induction rule: store_step.induct)
  case (begin_ok m io S js' calls)
  then show ?case using update_mutate_inv[of m "ss_store S" io js'] by (auto simp: sys_inv_def)
next
  case (begin_err m io S js' err)
  then show ?case using update_mutate_inv[of m "ss_store S" io js'] by (auto simp: sys_inv_def)
next
  case (finish S xs snapshot calls ys io mgr js' err)
  then show ?case using update_notify_inv[of snapshot "ss_store S" io mgr calls js' err] by (auto simp: sys_inv_def)
qed

lemma start_inv: "store_start E S \<Longrightarrow> sys_inv S"
  using inv_initial New_store_data by (auto simp: store_start_def sys_inv_def)

lemma reachable_inv: "(store_step E)\<^sup>*\<^sup>* S0 S \<Longrightarrow> store_start E S0 \<Longrightarrow> sys_inv S"
  by (induction rule: rtranclp_induct) (auto intro: start_inv step_inv)

end

interpretation js: store_invariant E "store_ok E" for E
  by unfold_locales (rule store_ok_initial, erule (2) store_mutation_ok)

text \<open>
  C5 (store_integrity). In every state the store can reach, with updates of any methods interleaved, failing
  to save and rolled back in any order, the references are intact, and so are those of every snapshot that
  may yet be put back: no account without its workgroup, no connection without its workgroup and its share,
  no policy without its account and a connection of that account's workgroup to the share, and identifiers
  and names are unique.
\<close>

theorem store_integrity:
  assumes "store_start E S0" "(store_step E)\<^sup>*\<^sup>* S0 S"
  shows "store_ok E (js_data (ss_store S)) \<and> list_all (\<lambda>(snapshot, calls). store_ok E snapshot) (ss_flight S)"
  using js.reachable_inv[OF assms(2,1)] unfolding js.sys_inv_def list_all_iff by simp


text \<open>A concrete library and a short run, for the instances below.\<close>

definition sample_lib :: extlib where
  "sample_lib = \<lparr>uuid_Parse = (\<lambda>s. if length s = 16 then Inr (map (\<lambda>c. of_nat (of_char c)) s)
                              else Inl (Errorf ''invalid UUID length'' None)),
     uuid_String = (\<lambda>u. map (\<lambda>b. char_of (unat b)) u), strings_ToLower = (\<lambda>s. s),
     strings_EqualFold = (\<lambda>s t. s = t \<or> (s, t) = (''Docs'', ''docs'')), md4_Sum = (\<lambda>bs. take 16 (bs @ replicate 16 0)),
     json_Marshal = (\<lambda>d. concat (map jb_Host (Bans d))),
     json_Unmarshal = (\<lambda>s d. Inr (d\<lparr>Bans := (if s = [] then [] else [\<lparr>jb_Host = s, jb_Reason = []\<rparr>])\<rparr>))\<rparr>"

definition calm :: outside where
  "calm = \<lparr>read_fails = None, first_save = (\<lambda>_. None), second_save = (\<lambda>_. None), share_manager = (\<lambda>_. None),
     time_now = 0\<rparr>"

definition sample_store :: JSONStore where
  "sample_store = \<lparr>js_file = Some [], js_data = initialData\<rparr>"

definition sample_wg :: Workgroup where
  "sample_wg = noWorkgroup\<lparr>wg_UUID := replicate 16 0x41, wg_Name := ''staff''\<rparr>"

definition sample_share :: Share where
  "sample_share = noShare\<lparr>sh_Name := ''music'', sh_Type := ''renterd''\<rparr>"

definition sample_acc :: Account where
  "sample_acc = noAccount\<lparr>acc_ID := 1, acc_Username := ''ann'', acc_Workgroup := replicate 16 (CHR ''A'')\<rparr>"

definition sample_rights :: AccessRights where
  "sample_rights = \<lparr>ShareName = ''music'', AccountID = 1, ReadAccess = True, WriteAccess = False,
     DeleteAccess = False, ExecuteAccess = False\<rparr>"

text \<open>A workgroup, an account in it, a share, a connection: what a grant needs.\<close>

definition stocked :: JSONStore where
  "stocked = fst (AddConnection sample_lib calm sample_wg sample_share [7]
     (fst (RegisterShare sample_lib calm sample_share
       (fst (AddAccount sample_lib calm sample_acc
         (fst (AddWorkgroup sample_lib calm sample_wg sample_store)))))))"

definition granted_store :: JSONStore where
  "granted_store = fst (SetAccessRights sample_lib calm sample_rights stocked)"

lemma stocked_tables:
  "map wg_ID (Workgroups (js_data stocked)) = [1]" "map ja_ID (Accounts (js_data stocked)) = [1]"
  "map sh_Name (Shares (js_data stocked)) = [''music'']"
  "map conn_key (Connections (js_data stocked)) = [(replicate 16 (CHR ''A''), ''music'')]"
  by code_simp+


definition sample_sys :: storeSys where
  "sample_sys = \<lparr>ss_store = \<lparr>js_file = Some ''h'', js_data = initialData\<lparr>Bans := [\<lparr>jb_Host = ''h'', jb_Reason = []\<rparr>]\<rparr>\<rparr>,
     ss_flight = [(initialData, [])]\<rparr>"

theorem store_integrity_witness:
  "store_ok sample_lib (js_data (ss_store sample_sys)) \<and>
   list_all (\<lambda>(snapshot, calls). store_ok sample_lib snapshot) (ss_flight sample_sys)"
proof (rule store_integrity)
  let ?S0 = "\<lparr>ss_store = sample_store, ss_flight = []\<rparr>"
  have "NewJSONStore sample_lib calm None = Inr sample_store" by code_simp
  then show "store_start sample_lib ?S0" unfolding store_start_def by auto
  have "update_mutate sample_lib (first_save calm) (banHost_mut ''h'' []) sample_store = (ss_store sample_sys, Inr [])"
    by code_simp
  then have "store_step sample_lib ?S0 \<lparr>ss_store = ss_store sample_sys, ss_flight = [(js_data sample_store, [])]\<rparr>"
    using store_step.begin_ok[OF store_mutation.intros(1), of sample_lib "first_save calm" "''h''" "[]" ?S0] by simp
  moreover have "\<lparr>ss_store = ss_store sample_sys, ss_flight = [(js_data sample_store, [])]\<rparr> = sample_sys"
    by (simp add: sample_sys_def sample_store_def)
  ultimately show "(store_step sample_lib)\<^sup>*\<^sup>* ?S0 sample_sys" by auto
qed

subsection \<open>A failed operation changes nothing\<close>

lemma update_failed: "update E W m js = (js', Some err) \<Longrightarrow> js_data js' = js_data js"
  by (auto simp: update_def update_mutate_def update_notify_def save_def Let_def
    split: sum.splits option.splits prod.splits)

text \<open>An operation hands a closure to \<^verbatim>\<open>update\<close>, or returns without having touched the store.\<close>

definition handed :: "extlib \<Rightarrow> outside \<Rightarrow> JSONStore \<Rightarrow> JSONStore \<times> json_error option \<Rightarrow> bool" where
  "handed E W js r \<longleftrightarrow> (\<exists>m. store_mutation E m \<and> r = update E W m js) \<or> (\<exists>x. r = (js, x))"

lemma handed_update: "store_mutation E m \<Longrightarrow> handed E W js (update E W m js)"
  and handed_return: "handed E W js (js, x)"
  by (auto simp: handed_def)

lemma store_op_handed: "store_op E W oper \<Longrightarrow> handed E W js (oper js)"
proof (induction rule: store_op.induct)
  case 10
  then show ?case using handed_update[OF store_mutation.intros(10), of E W js]
    by (simp add: EnsureAnonymous_def case_prod_beta)
qed (simp_all add: BanHost_def UnbanHost_def ClearBans_def AddAccount_def
    RemoveAccount_def RemoveAccounts_def AddWorkgroup_def UpdateWorkgroup_def RemoveWorkgroup_def RegisterShare_def
    UnregisterShare_def SetAccessRights_def RemoveAccessRights_def ClearAccessRights_def AddConnection_def
    RemoveConnection_def SetAppKey_def Let_def handed_return handed_update store_mutation.intros
    split: sum.split option.split)

lemma store_op_cases:
  assumes "store_op E W oper" "oper js = (js', err)"
  obtains m where "store_mutation E m" "update E W m js = (js', err)" | "js' = js"
  using store_op_handed[OF assms(1), of js] assms(2) by (auto simp: handed_def)

text \<open>
  An operation that reports an error, whether of its own checks, of
  the disk or of the running server, leaves the stored data exactly as it was.
\<close>

theorem failed_operation_changes_nothing:
  assumes "store_op E W oper" "oper js = (js', Some err)"
  shows "js_data js' = js_data js"
  using assms by (cases rule: store_op_cases[OF assms]) (auto dest: update_failed)

theorem failed_operation_changes_nothing_witness:
  "js_data (fst (RegisterShare sample_lib (calm\<lparr>share_manager := \<lambda>_. Some ErrShareInUse\<rparr>) sample_share sample_store)) =
   js_data sample_store"
proof (rule failed_operation_changes_nothing)
  let ?W = "calm\<lparr>share_manager := \<lambda>_. Some ErrShareInUse\<rparr>"
  show "store_op sample_lib ?W (RegisterShare sample_lib ?W sample_share)" by (rule store_op.intros)
  show "RegisterShare sample_lib ?W sample_share sample_store =
      (fst (RegisterShare sample_lib ?W sample_share sample_store), Some (Errorf ''failed to add share'' (Some ErrShareInUse)))"
    by code_simp
qed

subsection \<open>What is stored survives a restart\<close>

definition in_sync :: "extlib \<Rightarrow> JSONStore \<Rightarrow> bool" where
  "in_sync E js \<longleftrightarrow> js_file js = Some (json_Marshal E (js_data js))"

lemma update_in_sync:
  assumes "in_sync E js" "save_error (second_save W) = None" "update E W m js = (js', err)"
  shows "in_sync E js'"
  using assms by (auto simp: in_sync_def update_def update_mutate_def update_notify_def save_def Let_def
    split: sum.splits option.splits prod.splits)



end
