(* ===== verification/Store_Access.thy ===== *)
theory Store_Access
  imports Store_Integrity
begin

section \<open>What the store answers\<close>

text \<open>
  The lookups of \<^verbatim>\<open>src/stores/jsonstore.go\<close> after its updates: a grant reads back as it was made and touches no
  other, a right on a share means an account, its workgroup and a live connection, and removing a workgroup
  takes its accounts, connections and rights with it. Two places do less than their comments say: a rollback
  takes concurrent updates with it, and normalizing the public folders of a workgroup can hide one of them.
\<close>

subsection \<open>Grants read back\<close>

lemma update_ok:
  assumes "update E W m js = (js', None)"
  obtains d calls where "m (js_data js) = Inr (d, calls)" "js_data js' = d"
proof (cases "m (js_data js)")
  case (Inl err)
  then show ?thesis using assms by (simp add: update_def update_mutate_def)
next
  case (Inr dc)
  then show ?thesis using assms that
    by (cases dc) (auto simp: update_def update_mutate_def update_notify_def save_def Let_def split: option.splits)
qed

lemma find_app_not: "\<not> Q x \<Longrightarrow> find Q (xs @ [x]) = find Q xs"
  by (induction xs) auto

lemma find_append_match: "\<not> (\<exists>y \<in> set xs. Q y) \<Longrightarrow> Q x \<Longrightarrow> find Q (xs @ [x]) = Some x"
  by (induction xs) auto

lemma find_update_match: "\<exists>y \<in> set xs. Q y \<Longrightarrow> Q x \<Longrightarrow> find Q (update_first Q (\<lambda>_. x) xs) = Some x"
  by (induction xs) auto

lemma find_update_const_other:
  "(\<And>y. P y \<Longrightarrow> \<not> Q y) \<Longrightarrow> \<not> Q x \<Longrightarrow> find Q (update_first P (\<lambda>_. x) xs) = find Q xs"
  by (rule find_update_first_other) auto

lemma setAccessRights_find:
  fixes P :: "string \<Rightarrow> int \<Rightarrow> jsonPolicy \<Rightarrow> bool"
  assumes "setAccessRights_mut sh ar d = Inr (d', calls)"
  defines "P n i p \<equiv> jp_ShareName p = n \<and> jp_AccountID p = i"
  obtains pol where "accessRightsFromPolicy pol = ar" "sh_Name sh \<noteq> []"
    "find (P (ShareName ar) (AccountID ar)) (Policies d') = Some pol"
    "\<And>n i. (n, i) \<noteq> (ShareName ar, AccountID ar) \<Longrightarrow> find (P n i) (Policies d') = find (P n i) (Policies d)"
proof -
  define wg where "wg = (case find (\<lambda>a. ja_ID a = AccountID ar) (Accounts d) of Some a \<Rightarrow> ja_Workgroup a | None \<Rightarrow> [])"
  define pol where "pol = \<lparr>jp_ShareName = ShareName ar, jp_AccountID = AccountID ar, jp_Workgroup = wg,
    jp_ReadAccess = ReadAccess ar, jp_WriteAccess = WriteAccess ar, jp_DeleteAccess = DeleteAccess ar,
    jp_ExecuteAccess = ExecuteAccess ar\<rparr>"
  let ?Q = "P (ShareName ar) (AccountID ar)"
  have Q: "?Q = (\<lambda>p. jp_ShareName p = ShareName ar \<and> jp_AccountID p = AccountID ar)"
    by (intro ext) (simp add: P_def)
  have ps: "Policies d' = (if \<exists>p \<in> set (Policies d). ?Q p then update_first ?Q (\<lambda>_. pol) (Policies d)
      else Policies d @ [pol])" and sh: "sh_Name sh \<noteq> []"
    using assms(1) unfolding Q
    by (auto simp: setAccessRights_mut_def Let_def wg_def[symmetric] pol_def[symmetric] split: if_splits)
  have qp: "?Q pol" by (simp add: P_def pol_def)
  have "find ?Q (Policies d') = Some pol"
    using qp unfolding ps by (simp add: find_update_match find_append_match)
  moreover have "find (P n i) (Policies d') = find (P n i) (Policies d)"
    if "(n, i) \<noteq> (ShareName ar, AccountID ar)" for n i
  proof -
    have "\<not> P n i pol" "\<And>y. ?Q y \<Longrightarrow> \<not> P n i y" using that by (auto simp: P_def pol_def)
    then show ?thesis unfolding ps by (simp add: find_update_const_other find_app_not)
  qed
  moreover have "accessRightsFromPolicy pol = ar" by (simp add: accessRightsFromPolicy_def pol_def)
  ultimately show ?thesis using that sh by blast
qed

text \<open>
  A grant that was accepted reads back exactly as it was made, and the rights of
  every other account and on every other share read as they did before.
\<close>

theorem granted_is_read_back:
  assumes "SetAccessRights E W ar js = (js', None)"
  shows "GetAccessRights js' share acc =
    (if sh_Name share = ShareName ar \<and> acc_ID acc = AccountID ar then ar else GetAccessRights js share acc)"
proof -
  obtain d calls where m: "setAccessRights_mut (GetShare js (ShareName ar)) ar (js_data js) = Inr (d, calls)" "js_data js' = d"
    using assms update_ok[of E W "setAccessRights_mut (GetShare js (ShareName ar)) ar" js js']
    by (auto simp: SetAccessRights_def)
  obtain pol where pol: "accessRightsFromPolicy pol = ar" "sh_Name (GetShare js (ShareName ar)) \<noteq> []"
    "find (\<lambda>p. jp_ShareName p = ShareName ar \<and> jp_AccountID p = AccountID ar) (Policies d) = Some pol"
    "\<And>n i. (n, i) \<noteq> (ShareName ar, AccountID ar) \<Longrightarrow>
      find (\<lambda>p. jp_ShareName p = n \<and> jp_AccountID p = i) (Policies d) =
      find (\<lambda>p. jp_ShareName p = n \<and> jp_AccountID p = i) (Policies (js_data js))"
    using setAccessRights_find[OF m(1)] by blast
  have "ShareName ar \<noteq> []" using pol(2) by (auto simp: GetShare_def noShare_def)
  then show ?thesis using pol(1,3,4) by (auto simp: GetAccessRights_def m(2))
qed

theorem granted_is_read_back_witness:
  "GetAccessRights granted_store sample_share sample_acc = sample_rights"
proof -
  have "SetAccessRights sample_lib calm sample_rights stocked = (granted_store, None)" by code_simp
  from granted_is_read_back[OF this, of sample_share sample_acc]
  show ?thesis by (simp add: sample_share_def sample_acc_def sample_rights_def)
qed

subsection \<open>A right means a live connection\<close>

lemma find_key_unique:
  assumes "inj_on f (set xs)" "x \<in> set xs"
  shows "find (\<lambda>y. f y = f x) xs = Some x"
proof (cases "find (\<lambda>y. f y = f x) xs")
  case None
  then show ?thesis using assms(2) by (auto simp: find_None_iff)
next
  case (Some y)
  then show ?thesis using find_eq_SomeD[OF Some] assms by (auto dest: inj_onD)
qed

text \<open>
  In a store whose references are intact, an account that is answered any
  policy on a share is an account of the store, its workgroup is in the store and connected to the share,
  and the share is registered.
\<close>

theorem access_needs_connection:
  assumes "store_ok E (js_data js)" "GetAccessRights js share acc \<noteq> noRights"
  shows "\<exists>a w. GetAccountByID js (acc_ID acc) = Inr a \<and> w \<in> set (GetWorkgroups js) \<and>
    uuid_String E (wg_UUID w) = acc_Workgroup a \<and> fst (IsConnected E js w share) \<and>
    sh_Name (GetShare js (sh_Name share)) = sh_Name share"
proof -
  note ok = store_okD[OF assms(1)]
  let ?d = "js_data js"
  obtain p where p: "find (\<lambda>p. jp_ShareName p = sh_Name share \<and> jp_AccountID p = acc_ID acc) (Policies ?d) = Some p"
    and named: "sh_Name share \<noteq> []"
    using assms(2) by (auto simp: GetAccessRights_def split: if_splits option.splits)
  have pp: "p \<in> set (Policies ?d)" "jp_ShareName p = sh_Name share" "jp_AccountID p = acc_ID acc"
    using find_eq_SomeD[OF p] by auto
  obtain a where a: "a \<in> set (Accounts ?d)" "ja_ID a = acc_ID acc" "ja_Workgroup a = jp_Workgroup p"
    using ok(4) pp by (auto simp: policies_ok_def)
  obtain c where c: "c \<in> set (Connections ?d)" "jc_Workgroup c = jp_Workgroup p" "jc_ShareName c = sh_Name share"
    using ok(4) pp by (auto simp: policies_ok_def conn_key_def)
  obtain w where w: "w \<in> set (Workgroups ?d)" "uuid_String E (wg_UUID w) = ja_Workgroup a"
    using ok(2) a(1) by (auto simp: accounts_ok_def)
  have "find (\<lambda>x. ja_ID x = ja_ID a) (Accounts ?d) = Some a"
    using ok(2) a(1) by (intro find_key_unique) (simp_all add: accounts_ok_def distinct_map)
  then have "GetAccountByID js (acc_ID acc) = Inr (accountOf a)" using a(2) by (simp add: GetAccountByID_def)
  moreover have "fst (IsConnected E js w share)"
  proof -
    have "connects (uuid_String E (wg_UUID w)) share c" using c a(3) w(2) by (simp add: connects_def)
    then show ?thesis using c(1) by (auto simp: IsConnected_def find_None_iff split: option.split)
  qed
  moreover have "sh_Name (GetShare js (sh_Name share)) = sh_Name share"
  proof -
    obtain s where "s \<in> set (Shares ?d)" "sh_Name s = sh_Name share" using ok(3) c by (auto simp: connections_ok_def)
    then show ?thesis using named
      by (auto simp: GetShare_def find_None_iff split: option.split dest: find_eq_SomeD)
  qed
  ultimately show ?thesis using w by (intro exI[of _ "accountOf a"] exI[of _ w]) (simp add: GetWorkgroups_def accountOf_def)
qed

lemma granted_store_ok: "store_ok sample_lib (js_data granted_store)"
proof -
  have run: "update sample_lib calm (setAccessRights_mut (GetShare stocked ''music'') sample_rights) stocked = (granted_store, None)"
    "update sample_lib calm (addConnection_mut sample_lib sample_wg sample_share [7])
      (fst (RegisterShare sample_lib calm sample_share (fst (AddAccount sample_lib calm sample_acc
        (fst (AddWorkgroup sample_lib calm sample_wg sample_store)))))) = (stocked, None)"
    "update sample_lib calm (registerShare_mut sample_share) (fst (AddAccount sample_lib calm sample_acc
        (fst (AddWorkgroup sample_lib calm sample_wg sample_store)))) =
      (fst (RegisterShare sample_lib calm sample_share (fst (AddAccount sample_lib calm sample_acc
        (fst (AddWorkgroup sample_lib calm sample_wg sample_store))))), None)"
    "update sample_lib calm (addAccount_mut sample_lib sample_acc) (fst (AddWorkgroup sample_lib calm sample_wg sample_store)) =
      (fst (AddAccount sample_lib calm sample_acc (fst (AddWorkgroup sample_lib calm sample_wg sample_store))), None)"
    "update sample_lib calm (addWorkgroup_mut sample_wg) sample_store = (fst (AddWorkgroup sample_lib calm sample_wg sample_store), None)"
    by code_simp+
  have keep: "store_ok E (js_data js')" if "store_mutation E m" "update E W m js = (js', None)" "store_ok E (js_data js)" for E W m js js'
    using that by (metis store_mutation_ok update_ok)
  have "store_ok sample_lib (js_data sample_store)" by (simp add: sample_store_def store_ok_initial)
  then show ?thesis
    by (intro keep[OF _ run(1)] keep[OF _ run(2)] keep[OF _ run(3)] keep[OF _ run(4)] keep[OF _ run(5)] store_mutation.intros)
qed

theorem access_needs_connection_witness:
  "\<exists>a w. GetAccountByID granted_store (acc_ID sample_acc) = Inr a \<and> w \<in> set (GetWorkgroups granted_store) \<and>
    uuid_String sample_lib (wg_UUID w) = acc_Workgroup a \<and> fst (IsConnected sample_lib granted_store w sample_share) \<and>
    sh_Name (GetShare granted_store (sh_Name sample_share)) = sh_Name sample_share"
proof (rule access_needs_connection[OF granted_store_ok])
  have "ReadAccess (GetAccessRights granted_store sample_share sample_acc)" by code_simp
  then show "GetAccessRights granted_store sample_share sample_acc \<noteq> noRights" by (auto simp: noRights_def)
qed


subsection \<open>A removed workgroup leaves nothing behind\<close>

text \<open>
  After a workgroup of the store was removed, it is not found by its
  identifier, no account, no connection and no policy names it, and nothing it did not own was touched: the
  accounts of the other workgroups, their connections and their policies are those there were.
\<close>

theorem removed_workgroup_leaves_nothing:
  assumes "store_ok E (js_data js)" "RemoveWorkgroup E W wg js = (js', None)"
    and "find (\<lambda>w. wg_ID w = wg_ID wg) (Workgroups (js_data js)) = Some w" "uuid_String E (wg_UUID w) = u"
  shows "GetWorkgroupByID js' (wg_ID wg) = noWorkgroup \<and>
    Accounts (js_data js') = filter (\<lambda>a. ja_Workgroup a \<noteq> u) (Accounts (js_data js)) \<and>
    Connections (js_data js') = filter (\<lambda>c. jc_Workgroup c \<noteq> u) (Connections (js_data js)) \<and>
    Policies (js_data js') = filter (\<lambda>p. jp_Workgroup p \<noteq> u) (Policies (js_data js)) \<and>
    Shares (js_data js') = Shares (js_data js) \<and> \<not> fst (IsConnected E js' w share)"
proof -
  obtain d calls where d: "removeWorkgroup_mut E wg (js_data js) = Inr (d, calls)" "js_data js' = d"
    using assms(2) update_ok[of E W "removeWorkgroup_mut E wg" js js'] by (auto simp: RemoveWorkgroup_def)
  have "d = removePolicies (js_data js\<lparr>Workgroups := remove_first (\<lambda>w. wg_ID w = wg_ID wg) (Workgroups (js_data js)),
      Accounts := filter (\<lambda>a. ja_Workgroup a \<noteq> u) (Accounts (js_data js)),
      Connections := filter (\<lambda>c. jc_Workgroup c \<noteq> u) (Connections (js_data js))\<rparr>) (\<lambda>p. jp_Workgroup p = u)"
    using d(1) assms(3,4) by (simp add: removeWorkgroup_mut_def Let_def)
  then have ws: "Workgroups d = remove_first (\<lambda>w. wg_ID w = wg_ID wg) (Workgroups (js_data js))"
    and rest: "Accounts d = filter (\<lambda>a. ja_Workgroup a \<noteq> u) (Accounts (js_data js))"
    "Connections d = filter (\<lambda>c. jc_Workgroup c \<noteq> u) (Connections (js_data js))"
    "Policies d = filter (\<lambda>p. jp_Workgroup p \<noteq> u) (Policies (js_data js))" "Shares d = Shares (js_data js)"
    by (simp_all add: removePolicies_def)
  have "find (\<lambda>w. wg_ID w = wg_ID wg) (Workgroups d) = None"
    using store_okD(1)[OF assms(1)] find_remove_first_None[of wg_ID "Workgroups (js_data js)" "wg_ID wg"]
    by (simp add: ws workgroups_ok_def)
  moreover have "find (connects u share) (Connections d) = None"
    unfolding rest(2) by (auto simp: find_None_iff connects_def)
  ultimately show ?thesis using rest assms(4) by (simp add: GetWorkgroupByID_def IsConnected_def d(2))
qed

theorem removed_workgroup_leaves_nothing_witness:
  "GetWorkgroupByID (fst (RemoveWorkgroup sample_lib calm (sample_wg\<lparr>wg_ID := 1\<rparr>) granted_store)) 1 = noWorkgroup \<and>
   \<not> fst (IsConnected sample_lib (fst (RemoveWorkgroup sample_lib calm (sample_wg\<lparr>wg_ID := 1\<rparr>) granted_store))
       (sample_wg\<lparr>wg_ID := 1\<rparr>) sample_share)"
proof -
  let ?wg = "sample_wg\<lparr>wg_ID := 1\<rparr>" and ?js = "fst (RemoveWorkgroup sample_lib calm (sample_wg\<lparr>wg_ID := 1\<rparr>) granted_store)"
  have "RemoveWorkgroup sample_lib calm ?wg granted_store = (?js, None)"
    "find (\<lambda>w. wg_ID w = wg_ID ?wg) (Workgroups (js_data granted_store)) = Some ?wg"
    by code_simp+
  from removed_workgroup_leaves_nothing[OF granted_store_ok this refl, of sample_share] show ?thesis by simp
qed

subsection \<open>A rollback takes other updates with it\<close>

text \<open>
  While an operation waits for the running server, the mutex is free. If another
  update is saved and acknowledged meanwhile and the server then refuses the first, putting the first one's
  snapshot back undoes the second as well, in memory and on disk: here a registered share whose bucket
  cannot be reached takes with it a ban that was acknowledged.
\<close>

theorem rollback_loses_update:
  assumes "save_error io = None" "save_error (first_save W) = None" "mgr (CallRegisterShare s) = Some e"
    and "\<not> (\<exists>sh \<in> set (Shares (js_data js)). sh_Name sh = sh_Name s)" "\<not> fst (IsBanned js host)"
  shows "\<exists>js1 js2 js3 err. update_mutate E io (registerShare_mut s) js = (js1, Inr [CallRegisterShare s]) \<and>
    BanHost E W host reason js1 = (js2, None) \<and> IsBanned js2 host = (True, reason) \<and>
    update_notify E io mgr (js_data js) [CallRegisterShare s] js2 = (js3, Some err) \<and>
    \<not> fst (IsBanned js3 host) \<and> js_data js3 = js_data js \<and> js_file js3 = Some (json_Marshal E (js_data js))"
proof -
  define js1 where "js1 = \<lparr>js_file = Some (json_Marshal E (js_data js\<lparr>Shares := Shares (js_data js) @ [s]\<rparr>)),
    js_data = js_data js\<lparr>Shares := Shares (js_data js) @ [s]\<rparr>\<rparr>"
  define d2 where "d2 = js_data js1\<lparr>Bans := Bans (js_data js1) @ [\<lparr>jb_Host = host, jb_Reason = reason\<rparr>]\<rparr>"
  define js2 where "js2 = \<lparr>js_file = Some (json_Marshal E d2), js_data = d2\<rparr>"
  define js3 where "js3 = \<lparr>js_file = Some (json_Marshal E (js_data js)), js_data = js_data js\<rparr>"
  have free: "find (\<lambda>b. jb_Host b = host) (Bans (js_data js)) = None"
    using assms(5) by (auto simp: IsBanned_def split: option.splits)
  have 1: "update_mutate E io (registerShare_mut s) js = (js1, Inr [CallRegisterShare s])"
    using assms(1,4) by (simp add: update_mutate_def registerShare_mut_def save_def js1_def)
  have 2: "BanHost E W host reason js1 = (js2, None)"
    using assms(2) free by (auto simp: BanHost_def update_def update_mutate_def update_notify_def banHost_mut_def save_def
      js1_def js2_def d2_def find_None_iff)
  have 3: "IsBanned js2 host = (True, reason)"
    using free find_append_match[of "Bans (js_data js)" "\<lambda>b. jb_Host b = host" "\<lparr>jb_Host = host, jb_Reason = reason\<rparr>"]
    by (simp add: IsBanned_def js2_def d2_def js1_def find_None_iff)
  have 4: "update_notify E io mgr (js_data js) [CallRegisterShare s] js2 = (js3, Some (Errorf (call_text (CallRegisterShare s)) (Some e)))"
    using assms(1,3) by (simp add: update_notify_def save_def js2_def js3_def)
  have 5: "\<not> fst (IsBanned js3 host)" "js_data js3 = js_data js" "js_file js3 = Some (json_Marshal E (js_data js))"
    using assms(5) by (simp_all add: js3_def IsBanned_def)
  show ?thesis using 1 2 3 4 5 by blast
qed

theorem rollback_loses_update_witness:
  "\<exists>js1 js2 js3 err. update_mutate sample_lib (\<lambda>_. None) (registerShare_mut sample_share) sample_store =
      (js1, Inr [CallRegisterShare sample_share]) \<and>
    BanHost sample_lib calm ''h'' ''spam'' js1 = (js2, None) \<and> IsBanned js2 ''h'' = (True, ''spam'') \<and>
    update_notify sample_lib (\<lambda>_. None) (\<lambda>_. Some ErrShareExists) (js_data sample_store) [CallRegisterShare sample_share] js2 =
      (js3, Some err) \<and>
    \<not> fst (IsBanned js3 ''h'') \<and> js_data js3 = js_data sample_store \<and>
    js_file js3 = Some (json_Marshal sample_lib (js_data sample_store))"
  by (rule rollback_loses_update[where e = ErrShareExists])
     (simp_all add: save_error_def calm_def sample_store_def initialData_def IsBanned_def)

subsection \<open>Public folders\<close>

text \<open>
  The first entry for each path is kept when the public folders of a workgroup
  are stored, but the lookup takes the first entry that matches a name, and whether an entry matches depends
  on its case sensitivity too: an entry found before is not found any more when an earlier one has the same
  path and is case-sensitive.
\<close>

theorem normalizing_hides_folder:
  assumes "strings_EqualFold E path name" "path \<noteq> name" "path \<noteq> []"
    and "dirs = [\<lparr>pd_Path = path, pd_ReadOnly = r, pd_CaseSensitive = True\<rparr>,
                 \<lparr>pd_Path = path, pd_ReadOnly = r, pd_CaseSensitive = False\<rparr>]"
  shows "FindPublicDir E (wg\<lparr>wg_PublicDirs := dirs\<rparr>) name \<noteq> None \<and>
    FindPublicDir E (wg\<lparr>wg_PublicDirs := normalizePublicDirs dirs\<rparr>) name = None"
  using assms by (simp add: FindPublicDir_def Matches_def normalizePublicDirs_def)

theorem normalizing_hides_folder_witness:
  "FindPublicDir sample_lib (sample_wg\<lparr>wg_PublicDirs := [\<lparr>pd_Path = ''Docs'', pd_ReadOnly = False, pd_CaseSensitive = True\<rparr>,
      \<lparr>pd_Path = ''Docs'', pd_ReadOnly = False, pd_CaseSensitive = False\<rparr>]\<rparr>) ''docs'' \<noteq> None"
proof -
  have "strings_EqualFold sample_lib ''Docs'' ''docs''" by code_simp
  from normalizing_hides_folder[OF this _ _ refl] show ?thesis by simp
qed

text \<open>Where the entries for one path agree on case, the lookup finds what it found before.\<close>

lemma normalizeDirs_find:
  assumes "\<And>d d'. d \<in> set ds \<Longrightarrow> d' \<in> set ds \<Longrightarrow> pd_Path d = pd_Path d' \<Longrightarrow> Q d = Q d'"
    and "\<And>d. d \<in> set ds \<Longrightarrow> pd_Path d = [] \<Longrightarrow> \<not> Q d" "\<And>d. d \<in> set ds \<Longrightarrow> pd_Path d \<in> seen \<Longrightarrow> \<not> Q d"
  shows "find Q (normalizeDirs_loop ds seen) = find Q ds"
  using assms
proof (induction ds arbitrary: seen)
  case (Cons d ds)
  show ?case
  proof (cases "pd_Path d = [] \<or> pd_Path d \<in> seen")
    case True
    then have "\<not> Q d" using Cons.prems(2,3)[of d] by auto
    moreover have "find Q (normalizeDirs_loop ds seen) = find Q ds"
    proof (rule Cons.IH)
      show "Q x = Q y" if "x \<in> set ds" "y \<in> set ds" "pd_Path x = pd_Path y" for x y
        using that by (intro Cons.prems(1)) auto
    qed (use Cons.prems(2,3) in simp_all)
    ultimately show ?thesis using True by simp
  next
    case False
    show ?thesis
    proof (cases "Q d")
      case nq: False
      have "find Q (normalizeDirs_loop ds (insert (pd_Path d) seen)) = find Q ds"
      proof (rule Cons.IH)
        fix x assume "x \<in> set ds" "pd_Path x \<in> insert (pd_Path d) seen"
        then show "\<not> Q x" using nq Cons.prems(1)[of x d] Cons.prems(3)[of x] by auto
      next
        show "Q x = Q y" if "x \<in> set ds" "y \<in> set ds" "pd_Path x = pd_Path y" for x y
          using that by (intro Cons.prems(1)) auto
      qed (use Cons.prems(2) in simp)
      then show ?thesis using False nq by simp
    qed (use False in simp)
  qed
qed simp

end
