(* ===== verification/Wildcard.thy ===== *)
theory Wildcard
  imports Utf16
begin

section \<open>The search patterns of a directory query\<close>

text \<open>
  \<^verbatim>\<open>src/utils/wildcard.go\<close>. A directory query names the files it wants by a pattern with the five wildcards of
  [MS-FSA] 2.1.4.4. \<^verbatim>\<open>MatchPattern\<close> fills a table, one row for each character of the pattern, last to first,
  and one cell for each position of the name, last to first, and keeps only two rows. The model builds a row
  from its end as the loop does: a row is a list, the cell at a position is the head of what is left of it.

  What the wildcards mean is stated apart, as an inductive relation that splits the name at every wildcard
  (\<open>pat_matches\<close>), and the table is proved to decide it for every pattern and every name.
\<close>

subsection \<open>The table\<close>

definition wildStar :: rune where "wildStar = 42"
definition wildQM :: rune where "wildQM = 63"
definition wildDOSDot :: rune where "wildDOSDot = 34"
definition wildDOSQM :: rune where "wildDOSQM = 62"
definition wildDOSStr :: rune where "wildDOSStr = 60"

definition dot :: rune where "dot = 46"

definition MaxPatternLength :: nat where "MaxPatternLength = 255"

lemmas wild_defs = wildStar_def wildQM_def wildDOSDot_def wildDOSQM_def wildDOSStr_def

text \<open>\<^verbatim>\<open>lastDot[j]\<close>, from position \<open>j\<close> on: the position of the final period, or -1.\<close>

fun lastDot_from :: "nat \<Rightarrow> rune list \<Rightarrow> int list" where
  "lastDot_from j [] = [-1]"
| "lastDot_from j (c # n) =
     (let rest = lastDot_from (Suc j) n
      in (if hd rest \<ge> 0 then hd rest else if c = dot then int j else -1) # rest)"

text \<open>
  One cell: the character of the pattern, the position, the character of the name there (\<open>None\<close> past its
  end), the last period, and the three cells it may read.
\<close>

definition cell :: "rune \<Rightarrow> nat \<Rightarrow> rune option \<Rightarrow> int \<Rightarrow> bool \<Rightarrow> bool \<Rightarrow> bool \<Rightarrow> bool" where
  "cell p j c lastDot next_j next_j1 cur_j1 =
     (if p = wildStar then next_j \<or> (c \<noteq> None \<and> cur_j1)
      else if p = wildDOSStr then next_j \<or> (c \<noteq> None \<and> (lastDot < 0 \<or> int j < lastDot) \<and> cur_j1)
      else if p = wildQM then c \<noteq> None \<and> next_j1
      else if p = wildDOSQM then (if c \<noteq> None \<and> c \<noteq> Some dot then next_j1 else next_j)
      else if p = wildDOSDot then (if c \<noteq> None then c = Some dot \<and> next_j1 else next_j)
      else c = Some p \<and> next_j1)"

text \<open>One row, from position \<open>j\<close> on: the cells of the name, of \<^verbatim>\<open>lastDot\<close> and of the row behind from there.\<close>

fun row :: "rune \<Rightarrow> nat \<Rightarrow> rune list \<Rightarrow> int list \<Rightarrow> bool list \<Rightarrow> bool list" where
  "row p j [] lastDot next = [cell p j None (hd lastDot) (hd next) False False]"
| "row p j (c # n) lastDot next =
     (let cur = row p (Suc j) n (tl lastDot) (tl next)
      in cell p j (Some c) (hd lastDot) (hd next) (hd (tl next)) (hd cur) # cur)"

text \<open>The row for the empty pattern: only the end of the name matches it.\<close>

definition first_row :: "rune list \<Rightarrow> bool list" where
  "first_row n = replicate (length n) False @ [True]"

definition MatchPattern :: "string \<Rightarrow> string \<Rightarrow> bool" where
  "MatchPattern pattern name =
     (let p = runes pattern; n = runes name; lastDot = lastDot_from 0 n
      in hd (foldr (\<lambda>c next. row c 0 n lastDot next) p (first_row n)))"

subsection \<open>What the wildcards mean\<close>

definition literal :: "rune \<Rightarrow> bool" where
  "literal c \<longleftrightarrow> c \<notin> {wildStar, wildQM, wildDOSDot, wildDOSQM, wildDOSStr}"

inductive pat_matches :: "rune list \<Rightarrow> rune list \<Rightarrow> bool" where
  finish: "pat_matches [] []"
| literal: "literal c \<Longrightarrow> pat_matches p n \<Longrightarrow> pat_matches (c # p) (c # n)"
| qm: "pat_matches p n \<Longrightarrow> pat_matches (wildQM # p) (c # n)"
| star: "pat_matches p n \<Longrightarrow> pat_matches (wildStar # p) (xs @ n)"
| dos_star: "pat_matches p n \<Longrightarrow> dot \<notin> set xs \<or> dot \<in> set n \<Longrightarrow> pat_matches (wildDOSStr # p) (xs @ n)"
| dos_qm_one: "pat_matches p n \<Longrightarrow> c \<noteq> dot \<Longrightarrow> pat_matches (wildDOSQM # p) (c # n)"
| dos_qm_none: "pat_matches p n \<Longrightarrow> n = [] \<or> hd n = dot \<Longrightarrow> pat_matches (wildDOSQM # p) n"
| dos_dot_one: "pat_matches p n \<Longrightarrow> pat_matches (wildDOSDot # p) (dot # n)"
| dos_dot_end: "pat_matches p [] \<Longrightarrow> pat_matches (wildDOSDot # p) []"

inductive_cases pat_matches_NilE: "pat_matches [] n"
inductive_cases pat_matches_ConsE: "pat_matches (c # p) n"

lemma pat_matches_Nil [simp]: "pat_matches [] n \<longleftrightarrow> n = []"
  by (auto elim: pat_matches_NilE intro: pat_matches.finish)

lemma wild_distinct [simp]:
  "wildStar \<noteq> wildQM" "wildStar \<noteq> wildDOSDot" "wildStar \<noteq> wildDOSQM" "wildStar \<noteq> wildDOSStr"
  "wildQM \<noteq> wildDOSDot" "wildQM \<noteq> wildDOSQM" "wildQM \<noteq> wildDOSStr" "wildDOSDot \<noteq> wildDOSQM"
  "wildDOSDot \<noteq> wildDOSStr" "wildDOSQM \<noteq> wildDOSStr"
  by (simp_all add: wild_defs)

lemmas wild_distinct' [simp] = wild_distinct [symmetric]

lemma pat_matches_star_iff:
  "pat_matches (wildStar # p) n \<longleftrightarrow> pat_matches p n \<or> (n \<noteq> [] \<and> pat_matches (wildStar # p) (tl n))"
proof
  assume "pat_matches (wildStar # p) n"
  then obtain xs m where n: "n = xs @ m" "pat_matches p m"
    by (cases rule: pat_matches.cases) (auto simp: literal_def)
  then show "pat_matches p n \<or> (n \<noteq> [] \<and> pat_matches (wildStar # p) (tl n))"
    by (cases xs) (auto intro: pat_matches.star)
next
  assume "pat_matches p n \<or> (n \<noteq> [] \<and> pat_matches (wildStar # p) (tl n))"
  then show "pat_matches (wildStar # p) n"
  proof
    assume "pat_matches p n"
    then show ?thesis using pat_matches.star[of p n "[]"] by simp
  next
    assume "n \<noteq> [] \<and> pat_matches (wildStar # p) (tl n)"
    then obtain xs m where "tl n = xs @ m" "pat_matches p m" "n \<noteq> []"
      by (auto elim!: pat_matches_ConsE simp: literal_def)
    then show ?thesis using pat_matches.star[of p m "hd n # xs"] by (metis append_Cons list.collapse)
  qed
qed

lemma pat_matches_dos_star_iff:
  "pat_matches (wildDOSStr # p) n \<longleftrightarrow> pat_matches p n \<or>
     (n \<noteq> [] \<and> (dot \<notin> set n \<or> dot \<in> set (tl n)) \<and> pat_matches (wildDOSStr # p) (tl n))"
proof
  assume "pat_matches (wildDOSStr # p) n"
  then obtain xs m where n: "n = xs @ m" "pat_matches p m" "dot \<notin> set xs \<or> dot \<in> set m"
    by (cases rule: pat_matches.cases) (auto simp: literal_def)
  then show "pat_matches p n \<or>
      (n \<noteq> [] \<and> (dot \<notin> set n \<or> dot \<in> set (tl n)) \<and> pat_matches (wildDOSStr # p) (tl n))"
    by (cases xs) (auto intro: pat_matches.dos_star)
next
  assume "pat_matches p n \<or>
    (n \<noteq> [] \<and> (dot \<notin> set n \<or> dot \<in> set (tl n)) \<and> pat_matches (wildDOSStr # p) (tl n))"
  then show "pat_matches (wildDOSStr # p) n"
  proof
    assume "pat_matches p n"
    then show ?thesis using pat_matches.dos_star[of p n "[]"] by simp
  next
    assume r: "n \<noteq> [] \<and> (dot \<notin> set n \<or> dot \<in> set (tl n)) \<and> pat_matches (wildDOSStr # p) (tl n)"
    then obtain xs m where xm: "tl n = xs @ m" "pat_matches p m" "dot \<notin> set xs \<or> dot \<in> set m"
      by (auto elim!: pat_matches_ConsE simp: literal_def)
    have n: "n = (hd n # xs) @ m" using r xm(1) by (metis append_Cons list.collapse)
    have "dot \<notin> set (hd n # xs) \<or> dot \<in> set m"
      using r xm by (metis Un_iff list.set_intros(1) n set_ConsD set_append)
    from pat_matches.dos_star[OF xm(2) this] n show ?thesis by simp
  qed
qed

text \<open>The rules as equations, one wildcard each.\<close>

lemma pat_matches_qm_iff: "pat_matches (wildQM # p) n \<longleftrightarrow> n \<noteq> [] \<and> pat_matches p (tl n)"
  by (cases n) (auto elim!: pat_matches_ConsE simp: literal_def intro: pat_matches.qm)

lemma pat_matches_dos_qm_iff:
  "pat_matches (wildDOSQM # p) n \<longleftrightarrow> (if n \<noteq> [] \<and> hd n \<noteq> dot then pat_matches p (tl n) else pat_matches p n)"
  by (cases n) (auto elim!: pat_matches_ConsE simp: literal_def intro: pat_matches.intros)

lemma pat_matches_dos_dot_iff:
  "pat_matches (wildDOSDot # p) n \<longleftrightarrow> (if n \<noteq> [] then hd n = dot \<and> pat_matches p (tl n) else pat_matches p [])"
  by (cases n) (auto elim!: pat_matches_ConsE simp: literal_def intro: pat_matches.intros)

lemma pat_matches_literal_iff:
  "literal c \<Longrightarrow> pat_matches (c # p) n \<longleftrightarrow> n \<noteq> [] \<and> hd n = c \<and> pat_matches p (tl n)"
  by (cases n) (auto elim!: pat_matches_ConsE simp: literal_def intro: pat_matches.intros)

subsection \<open>The table decides it\<close>

text \<open>The row of a pattern from a position of the name on: one cell for each end of the name.\<close>

fun row_of :: "rune list \<Rightarrow> rune list \<Rightarrow> bool list" where
  "row_of p [] = [pat_matches p []]"
| "row_of p (c # n) = pat_matches p (c # n) # row_of p n"

lemma hd_row_of [simp]: "hd (row_of p n) = pat_matches p n"
  by (cases n) simp_all

lemma lastDot_from_hd:
  "(hd (lastDot_from j n) < 0 \<longleftrightarrow> dot \<notin> set n) \<and> (dot \<in> set n \<longrightarrow> int j \<le> hd (lastDot_from j n))"
proof (induction n arbitrary: j)
  case (Cons c n)
  from Cons[of "Suc j"] show ?case by (auto simp: Let_def)
qed simp

text \<open>A period is passed exactly where there is another one behind it.\<close>

lemma lastDot_from_pass:
  "n \<noteq> [] \<Longrightarrow> (hd (lastDot_from j n) < 0 \<or> int j < hd (lastDot_from j n)) \<longleftrightarrow> dot \<notin> set n \<or> dot \<in> set (tl n)"
  using lastDot_from_hd[of j n] lastDot_from_hd[of "Suc j" "tl n"] by (cases n) (auto simp: Let_def)

lemma tl_lastDot_from: "tl (lastDot_from j (c # n)) = lastDot_from (Suc j) n"
  by (simp add: Let_def)

lemma cell_matches:
  assumes "c = (case n of [] \<Rightarrow> None | x # _ \<Rightarrow> Some x)"
    and "n \<noteq> [] \<Longrightarrow> next_j1 = pat_matches p (tl n)" "n \<noteq> [] \<Longrightarrow> cur_j1 = pat_matches (q # p) (tl n)"
  shows "cell q j c (hd (lastDot_from j n)) (pat_matches p n) next_j1 cur_j1 = pat_matches (q # p) n"
proof -
  have c: "c \<noteq> None \<longleftrightarrow> n \<noteq> []" "\<And>x. c = Some x \<longleftrightarrow> n \<noteq> [] \<and> hd n = x"
    using assms(1) by (auto split: list.splits)
  consider "q = wildStar" | "q = wildDOSStr" | "q = wildQM" | "q = wildDOSQM" | "q = wildDOSDot" | "literal q"
    by (auto simp: literal_def)
  then show ?thesis
  proof cases
    case 1
    then show ?thesis using assms(3) c by (auto simp: cell_def pat_matches_star_iff[of p n])
  next
    case 2
    then show ?thesis using assms(3) c lastDot_from_pass[of n j]
      by (auto simp: cell_def pat_matches_dos_star_iff[of p n])
  next
    case 3
    then show ?thesis using assms(2) c by (auto simp: cell_def pat_matches_qm_iff)
  next
    case 4
    then show ?thesis using assms(2) c by (auto simp: cell_def pat_matches_dos_qm_iff)
  next
    case 5
    then show ?thesis using assms(2) c by (auto simp: cell_def pat_matches_dos_dot_iff)
  next
    case 6
    then show ?thesis using assms(2) c by (auto simp: cell_def literal_def pat_matches_literal_iff)
  qed
qed

lemma row_matches: "row q j n (lastDot_from j n) (row_of p n) = row_of (q # p) n"
proof (induction n arbitrary: j)
  case Nil
  then show ?case using cell_matches[of None "[]" False p False q j] by simp
next
  case (Cons c n)
  have "row q (Suc j) n (lastDot_from (Suc j) n) (row_of p n) = row_of (q # p) n" by (rule Cons)
  moreover have "cell q j (Some c) (hd (lastDot_from j (c # n))) (pat_matches p (c # n)) (pat_matches p n)
      (pat_matches (q # p) n) = pat_matches (q # p) (c # n)"
    by (rule cell_matches) simp_all
  ultimately show ?case by (simp only: row.simps tl_lastDot_from row_of.simps list.sel hd_row_of Let_def)
qed

lemma first_row_matches: "first_row n = row_of [] n"
  by (induction n) (simp_all add: first_row_def)

lemma table_matches:
  "foldr (\<lambda>c next. row c 0 n (lastDot_from 0 n) next) p (first_row n) = row_of p n"
  by (induction p) (simp_all add: first_row_matches row_matches)

lemma MatchPattern_table: "MatchPattern pattern name \<longleftrightarrow> pat_matches (runes pattern) (runes name)"
  by (simp add: MatchPattern_def Let_def table_matches)

text \<open>
  C28 (MatchPattern_decides). The table gives the answer the wildcards stand for: a name matches a pattern
  exactly when the name can be split so that every literal meets itself and every wildcard what it may
  stand for, \<open><\<close> never passing the last period of what is left to it.
\<close>

theorem MatchPattern_decides: "MatchPattern pattern name \<longleftrightarrow> pat_matches (runes pattern) (runes name)"
  by (rule MatchPattern_table)

text \<open>A pattern of one star matches every name, and a pattern without wildcards only itself.\<close>

lemma MatchPattern_star: "runes pattern = [wildStar] \<Longrightarrow> MatchPattern pattern name"
  using pat_matches.star[OF pat_matches.finish, of "runes name"] by (simp add: MatchPattern_table)

lemma pat_matches_literals: "list_all literal p \<Longrightarrow> pat_matches p n \<longleftrightarrow> n = p"
proof (induction p arbitrary: n)
  case (Cons c p)
  then show ?case by (cases n) (auto simp: pat_matches_literal_iff)
qed simp

end
