(* ===== verification/Requests.thy ===== *)
theory Requests
  imports Slices
begin

section \<open>The requests of a connection\<close>

text \<open>
  The part of \<^verbatim>\<open>src/conn.go\<close> that decides which requests of a client are taken on and who answers them: the
  window of message IDs and the credits that open it (\<^verbatim>\<open>grantCredits\<close>, \<^verbatim>\<open>retireMessageID\<close>, \<^verbatim>\<open>acceptRequest\<close>,
  \<^verbatim>\<open>grantOnResponse\<close> of \<^verbatim>\<open>server.go\<close>), compound chains (\<^verbatim>\<open>chainMemberDone\<close>), asynchronous requests and their
  cancelling (\<^verbatim>\<open>claimAnswer\<close>, \<^verbatim>\<open>findCancelTarget\<close>, \<^verbatim>\<open>cancelRequest\<close>, \<^verbatim>\<open>completeWatches\<close>), and the channel sequence
  of an open (\<^verbatim>\<open>verifyChannelSequence\<close>, \<^verbatim>\<open>releaseOpen\<close>).

  A request is the header fields these functions read. What decoding, decrypting and the signature check
  say of it are arguments. The messages the connection writes are collected in \<open>sent\<close>, each a chain of
  responses.
\<close>

subsection \<open>Requests, responses and the connection\<close>

record request =
  rq_isSmb :: bool
  rq_command :: u16
  rq_len :: nat
  rq_mid :: u64
  rq_charge :: u16
  rq_credits :: u16
  rq_group :: u64
  rq_async :: bool
  rq_aid :: u64
  rq_cancelID :: u64
  rq_sequence :: u16
  rq_replay :: bool
  rq_openID :: "byte list"

record response =
  rs_command :: u16
  rs_mid :: u64
  rs_group :: u64
  rs_status :: u32
  rs_credit :: u16
  rs_aid :: "u64 option"

record openCounters =
  channelSequence :: u16
  outstandingRequestCount :: u32
  outstandingPreviousRequestCount :: u32

record connection =
  commandSequenceWindow :: "u64 set"
  creditsGranted :: "u64 \<rightharpoonup> u16"
  requestList :: "u64 \<rightharpoonup> request"
  pendingResponses :: "u64 \<rightharpoonup> response list"
  chainRemaining :: "u64 \<rightharpoonup> int"
  asyncCommandList :: "u64 \<rightharpoonup> request"
  stopChans :: "u64 set"
  stopped :: "u64 set"
  requestOpens :: "u64 \<rightharpoonup> oid"
  counters :: "oid \<Rightarrow> openCounters"
  interimSent :: "u64 set"
  closeChan :: bool
  negotiateDialect :: u16
  supportsMultiCredit :: bool
  sent :: "response list list"

definition SMB2_READ :: u16 where "SMB2_READ = 0x0008"
definition SMB2_WRITE :: u16 where "SMB2_WRITE = 0x0009"
definition SMB2_IOCTL :: u16 where "SMB2_IOCTL = 0x000b"
definition SMB2_CANCEL :: u16 where "SMB2_CANCEL = 0x000c"
definition SMB2_QUERY_DIRECTORY :: u16 where "SMB2_QUERY_DIRECTORY = 0x000e"
definition SMB2_CHANGE_NOTIFY :: u16 where "SMB2_CHANGE_NOTIFY = 0x000f"
definition SMB2_QUERY_INFO :: u16 where "SMB2_QUERY_INFO = 0x0010"
definition SMB2_SET_INFO :: u16 where "SMB2_SET_INFO = 0x0011"
definition SMB2_OPLOCK_BREAK :: u16 where "SMB2_OPLOCK_BREAK = 0x0012"
definition SMB_DIALECT_202 :: u16 where "SMB_DIALECT_202 = 0x0202"
definition SMB_DIALECT_30 :: u16 where "SMB_DIALECT_30 = 0x0300"
definition SMB_DIALECT_UNKNOWN :: u16 where "SMB_DIALECT_UNKNOWN = 0xffff"
definition STATUS_PENDING :: u32 where "STATUS_PENDING = 0x00000103"
definition STATUS_NOT_SUPPORTED :: u32 where "STATUS_NOT_SUPPORTED = 0xc00000bb"
definition STATUS_ACCESS_DENIED :: u32 where "STATUS_ACCESS_DENIED = 0xc0000022"
definition STATUS_NOTIFY_CLEANUP :: u32 where "STATUS_NOTIFY_CLEANUP = 0x0000010b"
definition STATUS_FILE_NOT_AVAILABLE :: u32 where "STATUS_FILE_NOT_AVAILABLE = 0xc0000467"

lemmas command_defs = SMB2_READ_def SMB2_WRITE_def SMB2_IOCTL_def SMB2_CANCEL_def SMB2_QUERY_DIRECTORY_def
  SMB2_CHANGE_NOTIFY_def SMB2_QUERY_INFO_def SMB2_SET_INFO_def SMB2_OPLOCK_BREAK_def

definition Is3X :: "u16 \<Rightarrow> bool" where
  "Is3X dialect \<longleftrightarrow> dialect \<noteq> SMB_DIALECT_UNKNOWN \<and> dialect \<ge> SMB_DIALECT_30"

text \<open>\<^verbatim>\<open>NewErrorResponse\<close>: the header of the request, the status, and the credits an interim carries.\<close>

definition NewErrorResponse :: "request \<Rightarrow> u32 \<Rightarrow> response" where
  "NewErrorResponse req status = \<lparr>rs_command = rq_command req, rs_mid = rq_mid req, rs_group = rq_group req,
     rs_status = status,
     rs_credit = (if status = STATUS_PENDING then max (rq_charge req) (rq_credits req)
                  else if rq_async req then 0 else rq_credits req),
     rs_aid = (if rq_async req then Some (rq_aid req) else None)\<rparr>"

definition writeResponse :: "response list \<Rightarrow> connection \<Rightarrow> connection" where
  "writeResponse msg c = c\<lparr>sent := sent c @ [msg]\<rparr>"

definition newConnectionState :: connection where
  "newConnectionState = \<lparr>commandSequenceWindow = {0}, creditsGranted = (\<lambda>_. None), requestList = (\<lambda>_. None),
     pendingResponses = (\<lambda>_. None), chainRemaining = (\<lambda>_. None), asyncCommandList = (\<lambda>_. None), stopChans = {},
     stopped = {}, requestOpens = (\<lambda>_. None),
     counters = (\<lambda>_. \<lparr>channelSequence = 0, outstandingRequestCount = 0, outstandingPreviousRequestCount = 0\<rparr>),
     interimSent = {}, closeChan = False, negotiateDialect = SMB_DIALECT_UNKNOWN, supportsMultiCredit = False, sent = []\<rparr>"

subsection \<open>Credits and the window\<close>

definition maxSequenceWindow :: nat where "maxSequenceWindow = 65536"

text \<open>\<^verbatim>\<open>utils.FindMaxKey\<close> on the window, whose keys it walks in any order.\<close>

definition maxKey :: "u64 set \<Rightarrow> u64" where
  "maxKey W = (if W = {} then 0 else Max W)"

lemma FindMaxKey_maxKey: "fst (FindMaxKey zero kvs) = maxKey (fst ` set kvs)"
proof (cases "kvs = []")
  case True
  then show ?thesis by (simp add: FindMaxKey_def maxKey_def)
next
  case False
  obtain k v where kv: "FindMaxKey zero kvs = (k, v)" by force
  from FindMaxKey_loop_correct[of 0 zero False kvs k v] kv False
  have "(k, v) \<in> set kvs" "\<forall>k' \<in> fst ` set kvs. k' \<le> k" by (auto simp: FindMaxKey_def)
  then have "Max (fst ` set kvs) = k" by (intro Max_eqI) force+
  then show ?thesis using False by (simp add: kv maxKey_def)
qed

text \<open>How many credits: what was asked for, cut to the room there is, but never below the charge.\<close>

definition credits_of :: "u64 set \<Rightarrow> u16 \<Rightarrow> u16 \<Rightarrow> u16" where
  "credits_of W numCredits charge =
     (let room = int maxSequenceWindow - int (card W);
          numCredits = (if room < int (unat numCredits) then of_int (max room 0) else numCredits)
      in if numCredits < charge then charge else numCredits)"

text \<open>The window afterwards and what was granted; \<open>None\<close> is \<^verbatim>\<open>errCommandSecuenceWindowExceeded\<close>.\<close>

definition grantCredits :: "u64 \<Rightarrow> u16 \<Rightarrow> u16 \<Rightarrow> u64 set \<Rightarrow> u64 set \<times> u16 option" where
  "grantCredits mid numCredits charge0 W =
     (let charge = (if charge0 = 0 then 1 else charge0);
          n = credits_of W numCredits charge;
          mx = (if maxKey W = 0 then mid else maxKey W)
      in if ucast n > 0xffffffffffffffff - mx then (W, None)
         else (W \<union> set (map (\<lambda>i. mx + of_nat i + 1) [0..<unat n]), Some n))"

text \<open>
  The loop of \<^verbatim>\<open>retireMessageID\<close>. Its counter wraps, and with the greatest ID of all in the window the
  condition on it never fails, so whether it ends is a matter of what is in the window.
\<close>

partial_function (option) retire_loop :: "u64 \<Rightarrow> u64 \<Rightarrow> u16 \<Rightarrow> u16 \<Rightarrow> u64 set \<Rightarrow> u64 set option" where
  "retire_loop i m cnt charge W =
     (if i \<le> m \<and> cnt < charge
      then if i \<in> W then retire_loop (i + 1) m (cnt + 1) charge (W - {i})
           else retire_loop (i + 1) m cnt charge W
      else Some W)"

declare retire_loop.simps [code]

definition retireMessageID :: "u64 \<Rightarrow> u16 \<Rightarrow> connection \<Rightarrow> u64 set option" where
  "retireMessageID mid charge c =
     (let W = commandSequenceWindow c
      in if negotiateDialect c = SMB_DIALECT_202 \<or> \<not> supportsMultiCredit c then Some (W - {mid})
         else retire_loop mid (maxKey W) 0 (max charge 1) W)"

definition grantOnResponse :: "response \<Rightarrow> connection \<Rightarrow> connection \<times> response" where
  "grantOnResponse resp c =
     (if rs_command resp = SMB2_OPLOCK_BREAK \<and> rs_status resp = STATUS_OK then (c, resp)
      else case creditsGranted c (rs_mid resp) of
             None \<Rightarrow> (c, resp)
           | Some granted \<Rightarrow>
               (c\<lparr>creditsGranted := (creditsGranted c)(rs_mid resp := None)\<rparr>,
                resp\<lparr>rs_credit := (if rs_credit resp < granted then rs_credit resp else granted)\<rparr>))"

text \<open>An asynchronous answer or a notification: not queued once the connection has closed.\<close>

definition trySendResponse :: "response \<Rightarrow> connection \<Rightarrow> connection" where
  "trySendResponse resp c =
     (if closeChan c then c else case grantOnResponse resp c of (c1, resp1) \<Rightarrow> writeResponse [resp1] c1)"

definition creditsToGrant :: "u16 \<Rightarrow> u16 \<Rightarrow> u64 \<Rightarrow> u64 \<Rightarrow> u16" where
  "creditsToGrant charge request waiting capacity =
     (let spent = max charge 1
      in if capacity = 0 then max spent request
         else if waiting \<ge> capacity div 2 then spent
         else max spent request)"

subsection \<open>Chains\<close>

definition chainMemberDone :: "u64 \<Rightarrow> connection \<Rightarrow> connection \<times> response list option" where
  "chainMemberDone gid c =
     (if gid = 0 then (c, None)
      else let n = (case chainRemaining c gid of None \<Rightarrow> 0 | Some n \<Rightarrow> n) - 1
           in if n > 0 then (c\<lparr>chainRemaining := (chainRemaining c)(gid \<mapsto> n)\<rparr>, None)
              else (c\<lparr>chainRemaining := (chainRemaining c)(gid := None),
                      pendingResponses := (pendingResponses c)(gid := None)\<rparr>,
                    pendingResponses c gid))"

definition sendChain :: "response list option \<Rightarrow> connection \<Rightarrow> connection" where
  "sendChain chain c = (case chain of None \<Rightarrow> c | Some msg \<Rightarrow> writeResponse msg c)"

subsection \<open>The channel sequence of an open\<close>

text \<open>What \<^verbatim>\<open>verifyChannelSequence\<close> does to the counters of the open, and whether it counts the request.\<close>

definition count_request :: "u16 \<Rightarrow> bool \<Rightarrow> openCounters \<Rightarrow> openCounters \<times> bool" where
  "count_request cs replay op =
     (let diff = cs - channelSequence op
      in if diff = 0 then
           (if \<not> replay \<or> outstandingPreviousRequestCount op = 0
            then (op\<lparr>outstandingRequestCount := outstandingRequestCount op + 1\<rparr>, True) else (op, False))
         else if diff \<le> 0x7fff then
           (let op1 = op\<lparr>outstandingPreviousRequestCount := outstandingPreviousRequestCount op + outstandingRequestCount op,
                        channelSequence := cs\<rparr>
            in if \<not> replay \<or> outstandingPreviousRequestCount op1 = 0
               then (op1\<lparr>outstandingRequestCount := 1\<rparr>, True)
               else (op1\<lparr>outstandingRequestCount := 0\<rparr>, False))
         else (op, False))"

definition verifyChannelSequence :: "oid \<Rightarrow> request \<Rightarrow> connection \<Rightarrow> connection \<times> u32" where
  "verifyChannelSequence op req c =
     (if \<not> Is3X (negotiateDialect c) then (c, STATUS_OK)
      else case count_request (rq_sequence req) (rq_replay req) (counters c op) of
             (oc, counted) \<Rightarrow>
               (let c1 = c\<lparr>counters := (counters c)(op := oc)\<rparr>
                in if counted then (c1\<lparr>requestOpens := (requestOpens c1)(rq_mid req \<mapsto> op)\<rparr>, STATUS_OK)
                   else if rq_command req = SMB2_WRITE \<or> rq_command req = SMB2_SET_INFO \<or> rq_command req = SMB2_IOCTL
                   then (c1, STATUS_FILE_NOT_AVAILABLE) else (c1, STATUS_OK)))"

definition uncount_request :: "bool \<Rightarrow> openCounters \<Rightarrow> openCounters" where
  "uncount_request current op =
     (if current then
        (if outstandingRequestCount op > 0 then op\<lparr>outstandingRequestCount := outstandingRequestCount op - 1\<rparr> else op)
      else if outstandingPreviousRequestCount op > 0
      then op\<lparr>outstandingPreviousRequestCount := outstandingPreviousRequestCount op - 1\<rparr> else op)"

definition releaseOpen :: "request \<Rightarrow> connection \<Rightarrow> connection" where
  "releaseOpen req c =
     (case requestOpens c (rq_mid req) of
        None \<Rightarrow> c
      | Some op \<Rightarrow>
          (let current = (Is3X (negotiateDialect c) \<and> rq_sequence req = channelSequence (counters c op))
           in c\<lparr>requestOpens := (requestOpens c)(rq_mid req := None),
                counters := (counters c)(op := uncount_request current (counters c op))\<rparr>))"

subsection \<open>Asynchronous requests\<close>

text \<open>A request taken on asynchronously: marked with its ID and put in the list.\<close>

definition takeOn :: "u64 \<Rightarrow> request \<Rightarrow> connection \<Rightarrow> connection" where
  "takeOn aid req c = c\<lparr>asyncCommandList := (asyncCommandList c)(aid \<mapsto> req\<lparr>rq_aid := aid, rq_async := True\<rparr>)\<rparr>"

definition claimAnswer :: "u64 \<Rightarrow> u64 \<Rightarrow> connection \<Rightarrow> connection \<times> bool" where
  "claimAnswer asyncID mid c =
     (let c1 = c\<lparr>requestList := (requestList c)(mid := None)\<rparr>
      in case asyncCommandList c1 asyncID of
           None \<Rightarrow> (c1, False)
         | Some _ \<Rightarrow> (c1\<lparr>asyncCommandList := (asyncCommandList c1)(asyncID := None)\<rparr>, True))"

definition finalAsync :: "response \<Rightarrow> u64 \<Rightarrow> response" where
  "finalAsync resp asyncID = resp\<lparr>rs_aid := Some asyncID, rs_credit := 0\<rparr>"

definition expectInterim :: "u64 \<Rightarrow> connection \<Rightarrow> connection" where
  "expectInterim mid c = c\<lparr>interimSent := insert mid (interimSent c)\<rparr>"

definition interimQueued :: "u64 \<Rightarrow> connection \<Rightarrow> connection" where
  "interimQueued mid c = c\<lparr>interimSent := interimSent c - {mid}\<rparr>"

text \<open>Whether \<^verbatim>\<open>awaitInterim\<close> returns: the interim response has been queued, or the connection has gone.\<close>

definition awaitInterim :: "u64 \<Rightarrow> connection \<Rightarrow> bool" where
  "awaitInterim mid c \<longleftrightarrow> mid \<notin> interimSent c \<or> closeChan c"

text \<open>
  How the work behind an asynchronous lock ends once it has claimed the answer and the interim response is
  queued: the channel that stops it is dropped, the open released and the final response sent.
\<close>

definition finishAsync :: "u64 \<Rightarrow> request \<Rightarrow> response \<Rightarrow> connection \<Rightarrow> connection" where
  "finishAsync asyncID req resp c =
     trySendResponse (finalAsync resp asyncID)
       (releaseOpen req (c\<lparr>stopChans := stopChans c - {rq_cancelID req}\<rparr>))"

text \<open>
  \<^verbatim>\<open>findCancelTarget\<close> on the connection the cancel came in on. The request in the async list with the message ID
  of the cancel is an argument, as Go picks it while walking the map in any order.
\<close>

definition findCancelTarget :: "request \<Rightarrow> request option \<Rightarrow> connection \<Rightarrow> connection \<times> request option" where
  "findCancelTarget cr byMid c =
     (if \<not> rq_async cr then
        (case byMid of
           Some r \<Rightarrow> (c, Some r)
         | None \<Rightarrow>
             (case requestList c (rq_mid cr) of
                Some r \<Rightarrow> (if rq_group r = 0 then (c\<lparr>requestList := (requestList c)(rq_mid cr := None)\<rparr>, Some r)
                           else (c, None))
              | None \<Rightarrow> (c, None)))
      else (c, asyncCommandList c (rq_aid cr)))"

text \<open>What \<^verbatim>\<open>cancelRequest\<close> does with the target, from the building of the response on.\<close>

definition cancelTarget :: "request \<Rightarrow> connection \<Rightarrow> connection" where
  "cancelTarget target c =
     (let resp = NewErrorResponse target STATUS_CANCELLED;
          (c, resp) = (if rq_async target then (c, resp\<lparr>rs_credit := 0\<rparr>) else grantOnResponse resp c);
          owed = (\<not> rq_async target \<or> asyncCommandList c (rq_aid target) \<noteq> None)
      in if \<not> owed then c
         else let c = (if rq_async target
                       then c\<lparr>asyncCommandList := (asyncCommandList c)(rq_aid target := None)\<rparr> else c);
                  c = (if rq_cancelID target \<in> stopChans c
                       then c\<lparr>stopChans := stopChans c - {rq_cancelID target},
                              stopped := insert (rq_cancelID target) (stopped c)\<rparr> else c)
              in writeResponse [resp] (releaseOpen target c))"

text \<open>The requests found are the watches the open holds, in the order Go walks the map.\<close>

fun completeWatches_send :: "(u64 \<times> request) list \<Rightarrow> connection \<Rightarrow> connection" where
  "completeWatches_send [] c = c"
| "completeWatches_send ((aid, r) # rs) c =
     completeWatches_send rs
       (trySendResponse ((NewErrorResponse r STATUS_NOTIFY_CLEANUP)\<lparr>rs_aid := Some aid\<rparr>) (releaseOpen r c))"

definition watch_of :: "byte list \<Rightarrow> request \<Rightarrow> bool" where
  "watch_of oid r \<longleftrightarrow> rq_command r = SMB2_CHANGE_NOTIFY \<and> rq_openID r = oid"

definition completeWatches :: "byte list \<Rightarrow> (u64 \<times> request) list \<Rightarrow> connection \<Rightarrow> connection" where
  "completeWatches oid found c =
     completeWatches_send found (c\<lparr>asyncCommandList :=
       (\<lambda>aid. case asyncCommandList c aid of
                Some r \<Rightarrow> (if watch_of oid r then None else Some r) | None \<Rightarrow> None)\<rparr>)"

subsection \<open>Answering a request\<close>

text \<open>The header of a chain is the one of its first response.\<close>

fun set_chain_credit :: "response list \<Rightarrow> response list" where
  "set_chain_credit [] = []"
| "set_chain_credit (r # rs) = r\<lparr>rs_credit := 1\<rparr> # rs"

text \<open>
  What \<^verbatim>\<open>processRequests\<close> does with the response to the request it has picked up: a change notify goes out on its
  own, after the chain when it was the last of it; any other response joins the chain of its group.
\<close>

definition answerRequest :: "request \<Rightarrow> response \<Rightarrow> connection \<Rightarrow> connection" where
  "answerRequest req resp0 c0 =
     (let (c, resp) = grantOnResponse resp0 c0;
          gid = rs_group resp;
          pendingResp = (if gid > 0 then pendingResponses c gid else None);
          c = (if rs_command resp = SMB2_CHANGE_NOTIFY then
                 let (c, chain) = chainMemberDone gid c
                 in writeResponse [resp] (sendChain (map_option set_chain_credit chain) c)
               else case pendingResp of
                 Some msg \<Rightarrow>
                   (let (c, chain) = chainMemberDone gid (c\<lparr>pendingResponses := (pendingResponses c)(gid \<mapsto> msg @ [resp])\<rparr>)
                    in sendChain chain c)
               | None \<Rightarrow>
                   (if gid = 0 then writeResponse [resp] c
                    else let (c, chain) = chainMemberDone gid (c\<lparr>pendingResponses := (pendingResponses c)(gid \<mapsto> [resp])\<rparr>)
                         in sendChain chain c));
          c = interimQueued (rs_mid resp) c
      in if rs_status resp \<noteq> STATUS_PENDING then releaseOpen req c else c)"

subsection \<open>Taking requests in\<close>

datatype accept_error = ErrWrongProtocol | errLongRequest | errRequestNotWithinWindow
  | errCommandSequenceWindowExceeded | ErrHeader | errSignature | Hangs

text \<open>What the signature check of the session says; \<open>NoSession\<close> where there is none to ask.\<close>

datatype verdict = NoSession | Verified | NoSigningKey | UnsignedRequest | BadSignature

definition mayBeLong :: "u16 \<Rightarrow> bool" where
  "mayBeLong cmd \<longleftrightarrow> cmd \<in> {SMB2_READ, SMB2_WRITE, SMB2_IOCTL, SMB2_QUERY_DIRECTORY, SMB2_CHANGE_NOTIFY,
     SMB2_QUERY_INFO, SMB2_SET_INFO}"

definition tooLong :: "request \<Rightarrow> connection \<Rightarrow> bool" where
  "tooLong req c \<longleftrightarrow> rq_len req > 68 * 1024 \<and> (supportsMultiCredit c \<longrightarrow> \<not> mayBeLong (rq_command req))"

text \<open>Granting, for an SMB2 request: what it charges or asks for, whichever is more, and at least one.\<close>

definition grantFor :: "request \<Rightarrow> connection \<Rightarrow> connection" where
  "grantFor req c =
     (let credits = max (rq_charge req) (rq_credits req); credits = (if credits = 0 then 1 else credits)
      in case grantCredits (rq_mid req) credits (rq_charge req) (commandSequenceWindow c) of
           (W, granted) \<Rightarrow> c\<lparr>commandSequenceWindow := W,
             creditsGranted := (creditsGranted c)(rq_mid req \<mapsto> (case granted of Some n \<Rightarrow> n | None \<Rightarrow> 0))\<rparr>)"

text \<open>
  From the check of the window on: the verdict on the signature, retiring the ID, and the queue. A retiring
  loop that does not end would be \<open>Hangs\<close>.
\<close>

definition acceptInWindow :: "u64 \<Rightarrow> request \<Rightarrow> verdict \<Rightarrow> connection \<Rightarrow> accept_error + connection" where
  "acceptInWindow mid req v c =
     (if mid \<notin> commandSequenceWindow c then Inl errRequestNotWithinWindow
      else if mid = 0xffffffffffffffff then Inl errCommandSequenceWindowExceeded
      else if v = BadSignature then Inl errSignature
      else case retireMessageID mid (rq_charge req) c of
             None \<Rightarrow> Inl Hangs
           | Some W \<Rightarrow>
               (let c1 = c\<lparr>commandSequenceWindow := W\<rparr>
                in if v = NoSigningKey \<or> v = UnsignedRequest
                   then let status = (if v = NoSigningKey then STATUS_NOT_SUPPORTED else STATUS_ACCESS_DENIED);
                            c2 = writeResponse [NewErrorResponse req status] c1;
                            (c3, chain) = chainMemberDone (rq_group req) c2
                        in Inr (sendChain chain c3)
                   else Inr (c1\<lparr>requestList := (requestList c1)(mid \<mapsto> req)\<rparr>)))"

text \<open>
  One turn of the loop of \<^verbatim>\<open>acceptRequest\<close>: \<open>alone\<close> says the message holds this request only, \<open>headerErr\<close> is the
  answer of the header check, \<open>cancelled\<close> the target a cancel that passed its own checks has found.
\<close>

definition accept_one ::
  "bool \<Rightarrow> bool \<Rightarrow> verdict \<Rightarrow> (connection \<times> request option) option \<Rightarrow> request \<Rightarrow> connection \<Rightarrow> accept_error + connection" where
  "accept_one alone headerErr v cancelled req c =
     (if headerErr then Inl ErrHeader
      else if rq_isSmb req then
        (if negotiateDialect c \<noteq> SMB_DIALECT_UNKNOWN \<or> \<not> alone then Inl ErrWrongProtocol
         else acceptInWindow 0 req v
                (c\<lparr>commandSequenceWindow := fst (grantCredits 0 1 1 (commandSequenceWindow c))\<rparr>))
      else if tooLong req c then Inl errLongRequest
      else if rq_command req = SMB2_CANCEL then
        (let c1 = (case cancelled of
                     None \<Rightarrow> c
                   | Some (c', None) \<Rightarrow> c'
                   | Some (c', Some target) \<Rightarrow> cancelTarget target c');
             (c2, chain) = chainMemberDone (rq_group req) c1
         in Inr (sendChain chain c2))
      else acceptInWindow (rq_mid req) req v (grantFor req c))"

text \<open>The whole of a chain is counted before any of it is dealt with.\<close>

fun count_chain :: "request list \<Rightarrow> connection \<Rightarrow> connection" where
  "count_chain [] c = c"
| "count_chain (req # reqs) c =
     count_chain reqs (if rq_group req > 0
       then c\<lparr>chainRemaining := (chainRemaining c)(rq_group req \<mapsto>
              (case chainRemaining c (rq_group req) of None \<Rightarrow> 0 | Some n \<Rightarrow> n) + 1)\<rparr> else c)"

end
