(* ===== verification/Request_Window.thy ===== *)
theory Request_Window
  imports Requests
begin

section \<open>What the window of message IDs protects\<close>

text \<open>
  Every message ID is taken at most once from a client that stays inside its window, the window never
  outgrows its bound and retiring IDs comes to an end. The last part is where that stops holding: the
  credits of a request are granted before its ID is looked up.
\<close>

subsection \<open>Retiring\<close>

definition since :: "u64 \<Rightarrow> u64 set \<Rightarrow> u64 set" where
  "since i W = {x \<in> W. i \<le> x}"

lemma finite_since [simp]: "finite (W :: u64 set) \<Longrightarrow> finite (since i W)"
  by (simp add: since_def)

lemma unat_succ: "(i :: 'a :: len word) \<noteq> - 1 \<Longrightarrow> unat (i + 1) = unat i + 1"
proof -
  assume "i \<noteq> - 1"
  then have "1 + i \<noteq> 0" by (metis add.commute add_eq_0_iff)
  then show ?thesis by (simp add: unatSuc add.commute)
qed

lemma le_succ_iff: "(i :: 'a :: len word) \<noteq> - 1 \<Longrightarrow> i + 1 \<le> x \<longleftrightarrow> i < x"
  by (simp add: word_le_nat_alt word_less_nat_alt unat_succ Suc_le_eq)

lemma since_step: "i \<noteq> - 1 \<Longrightarrow> since i W = (if i \<in> W then insert i (since (i + 1) W) else since (i + 1) W)"
  by (rule set_eqI) (simp add: since_def le_succ_iff, metis order_le_less)

text \<open>
  The loop takes the charge out of the IDs from \<open>i\<close> on, the smallest first, and all of them where there
  are fewer.
\<close>

lemma retire_loop_returns:
  assumes "finite W" "\<forall>x \<in> W. x \<le> m" "m \<noteq> - 1" "cnt \<le> charge"
  shows "\<exists>W'. retire_loop i m cnt charge W = Some W' \<and> W' \<subseteq> W \<and> W - W' \<subseteq> since i W
     \<and> card (W - W') = min (unat charge - unat cnt) (card (since i W))
     \<and> (\<forall>x \<in> W - W'. \<forall>y \<in> W'. i \<le> y \<longrightarrow> x < y)"
  using assms
proof (induction "unat m + 1 - unat i" arbitrary: i cnt W rule: less_induct)
  case less
  show ?case
  proof (cases "i \<le> m \<and> cnt < charge")
    case False
    then have "unat charge - unat cnt = 0 \<or> since i W = {}"
      using less.prems by (auto simp: since_def word_le_nat_alt word_less_nat_alt)
    then have "min (unat charge - unat cnt) (card (since i W)) = 0" by auto
    moreover have "retire_loop i m cnt charge W = Some W"
      using False by (subst retire_loop.simps) auto
    ultimately show ?thesis by auto
  next
    case True
    then have i: "i \<noteq> - 1" using less.prems(3) by (metis word_order.extremum_unique)
    note ui = unat_succ[OF i]
    have smaller: "unat m + 1 - unat (i + 1) < unat m + 1 - unat i"
      using True ui by (auto simp: word_le_nat_alt)
    show ?thesis
    proof (cases "i \<in> W")
      case notin: False
      obtain W' where "retire_loop (i + 1) m cnt charge W = Some W'" "W' \<subseteq> W" "W - W' \<subseteq> since (i + 1) W"
        "card (W - W') = min (unat charge - unat cnt) (card (since (i + 1) W))"
        "\<forall>x \<in> W - W'. \<forall>y \<in> W'. i + 1 \<le> y \<longrightarrow> x < y"
        using less.hyps[OF smaller less.prems] by blast
      moreover have "i \<le> y \<Longrightarrow> i + 1 \<le> y" if "y \<in> W" for y
        using that notin since_step[OF i, of W] by (auto simp: since_def)
      ultimately show ?thesis
        using True notin since_step[OF i, of W] by (subst retire_loop.simps) (auto 0 4)
    next
      case isin: True
      let ?W = "W - {i}"
      have "cnt \<noteq> - 1" using True word_order.extremum_strict by metis
      then have cnt: "unat (cnt + 1) = unat cnt + 1" "cnt + 1 \<le> charge"
        using True by (auto simp: inc_le unat_succ)
      obtain W' where W': "retire_loop (i + 1) m (cnt + 1) charge ?W = Some W'" "W' \<subseteq> ?W"
        "?W - W' \<subseteq> since (i + 1) ?W"
        "card (?W - W') = min (unat charge - unat (cnt + 1)) (card (since (i + 1) ?W))"
        "\<forall>x \<in> ?W - W'. \<forall>y \<in> W'. i + 1 \<le> y \<longrightarrow> x < y"
        using less.hyps[OF smaller, of ?W "cnt + 1"] less.prems cnt by auto
      have ins: "W - W' = insert i (?W - W')" using isin W'(2) by auto
      have fr: "since i W = insert i (since (i + 1) ?W)" "i \<notin> since (i + 1) ?W"
        using isin since_step[OF i, of W] by (auto simp: since_def)
      have "card (W - W') = Suc (card (?W - W'))" using ins less.prems by (metis DiffD1 DiffD2 card_insert_disjoint finite_Diff insertI1)
      then have c: "card (W - W') = min (unat charge - unat cnt) (card (since i W))"
        using W'(4) fr cnt True less.prems by (auto simp: word_less_nat_alt)
      have o: "\<forall>x \<in> W - W'. \<forall>y \<in> W'. i \<le> y \<longrightarrow> x < y"
      proof (intro ballI impI)
        fix x y assume x: "x \<in> W - W'" and y: "y \<in> W'" "i \<le> y"
        have "y \<noteq> i" using y W'(2) by auto
        then have "i < y" "i + 1 \<le> y" using y by (auto intro: inc_le)
        then show "x < y" using x y W'(5) ins by auto
      qed
      show ?thesis using True isin W' ins fr c o by (subst retire_loop.simps) auto
    qed
  qed
qed

lemma maxKey_ge: "finite W \<Longrightarrow> x \<in> W \<Longrightarrow> x \<le> maxKey W"
  by (auto simp: maxKey_def)

lemma maxKey_in: "finite W \<Longrightarrow> W \<noteq> {} \<Longrightarrow> maxKey W \<in> W"
  by (simp add: maxKey_def)

lemma maxKey_eqI: "finite W \<Longrightarrow> m \<in> W \<Longrightarrow> (\<And>x. x \<in> W \<Longrightarrow> x \<le> m) \<Longrightarrow> maxKey W = m"
  by (auto simp: maxKey_def intro: Max_eqI)

text \<open>How many IDs a request costs.\<close>

definition cost :: "u16 \<Rightarrow> connection \<Rightarrow> nat" where
  "cost charge c = (if negotiateDialect c = SMB_DIALECT_202 \<or> \<not> supportsMultiCredit c then 1 else max (unat charge) 1)"

lemma unat_max_1: "unat (max charge 1) = max (unat charge) 1"
  by (simp add: max_def word_le_nat_alt)

lemma retireMessageID_correct:
  assumes "finite (commandSequenceWindow c)" "maxKey (commandSequenceWindow c) \<noteq> - 1"
    "mid \<in> commandSequenceWindow c"
  shows "\<exists>R. retireMessageID mid charge c = Some (commandSequenceWindow c - R)
     \<and> R \<subseteq> since mid (commandSequenceWindow c) \<and> mid \<in> R
     \<and> card R = min (cost charge c) (card (since mid (commandSequenceWindow c)))
     \<and> (\<forall>x \<in> R. \<forall>y \<in> commandSequenceWindow c - R. mid \<le> y \<longrightarrow> x < y)"
proof (cases "negotiateDialect c = SMB_DIALECT_202 \<or> \<not> supportsMultiCredit c")
  case True
  have "mid \<in> since mid (commandSequenceWindow c)" using assms by (simp add: since_def)
  then have "card (since mid (commandSequenceWindow c)) \<ge> 1"
    using assms(1) by (metis One_nat_def Suc_leI card_gt_0_iff empty_iff finite_since)
  then show ?thesis
    using True assms by (intro exI[of _ "{mid}"]) (auto simp: retireMessageID_def cost_def since_def)
next
  case False
  let ?W = "commandSequenceWindow c"
  obtain W' where W': "retire_loop mid (maxKey ?W) 0 (max charge 1) ?W = Some W'" "W' \<subseteq> ?W" "?W - W' \<subseteq> since mid ?W"
    "card (?W - W') = min (unat (max charge 1)) (card (since mid ?W))"
    "\<forall>x \<in> ?W - W'. \<forall>y \<in> W'. mid \<le> y \<longrightarrow> x < y"
    using retire_loop_returns[of ?W "maxKey ?W" 0 "max charge 1" mid] assms maxKey_ge by auto
  have mid: "mid \<in> since mid ?W" using assms by (simp add: since_def)
  then have "card (since mid ?W) > 0" using assms(1) by (metis card_gt_0_iff empty_iff finite_since)
  then have "card (?W - W') > 0" using W'(4) by (simp add: unat_max_1)
  then obtain x where x: "x \<in> ?W - W'" by (metis card.empty equals0I less_irrefl)
  then have "mid \<le> x" using W'(3) by (auto simp: since_def)
  then have "mid \<notin> W'" using W'(5) x by (meson leD order.refl)
  moreover have "?W - (?W - W') = W'" using W'(2) by auto
  ultimately show ?thesis
    using W' False assms unfolding cost_def
    by (intro exI[of _ "?W - W'"]) (auto simp: retireMessageID_def unat_max_1)
qed

subsection \<open>Granting\<close>

lemma credits_of_ge: "charge \<le> credits_of W numCredits charge"
  by (auto simp: credits_of_def Let_def not_less)

lemma unat_of_int_room: "int (unat (n :: u16)) > r \<Longrightarrow> unat (of_int (max r 0) :: u16) = nat (max r 0)"
proof -
  assume "int (unat n) > r"
  moreover have "uint n < 65536" using unsigned_less[of n] by simp
  ultimately have r: "max r 0 < 65536" by simp
  then show ?thesis by (simp add: unat_eq_nat_uint uint_word_of_int)
qed

lemma credits_of_cases:
  assumes "card W \<le> maxSequenceWindow"
  shows "credits_of W numCredits charge = charge \<or> card W + unat (credits_of W numCredits charge) \<le> maxSequenceWindow"
  using assms unat_of_int_room[of "int maxSequenceWindow - int (card W)" numCredits]
  by (auto simp: credits_of_def Let_def uint_nat simp del: of_nat_unat)

definition granted_ids :: "u64 \<Rightarrow> u16 \<Rightarrow> u64 set" where
  "granted_ids mx n = {x. mx < x \<and> unat x \<le> unat mx + unat n}"

lemma granted_ids_list:
  assumes "unat mx + unat n \<le> 2 ^ 64 - 1"
  shows "set (map (\<lambda>i. mx + of_nat i + 1) [0..<unat n]) = granted_ids mx n"
proof -
  have u: "unat (mx + of_nat i + 1) = unat mx + i + 1" if "i < unat n" for i
  proof -
    have "unat mx + (i + 1) < 2 ^ 64" using assms that by simp
    then have "unat (mx + of_nat (i + 1)) = unat mx + (i + 1)"
      by (simp add: unat_word_ariths unat_of_nat)
    then show ?thesis by (simp add: ac_simps)
  qed
  show ?thesis
  proof (intro set_eqI iffI)
    fix x assume "x \<in> set (map (\<lambda>i. mx + of_nat i + 1) [0..<unat n])"
    then show "x \<in> granted_ids mx n" using u by (auto simp: granted_ids_def word_less_nat_alt)
  next
    fix x assume "x \<in> granted_ids mx n"
    then have "unat mx < unat x" "unat x \<le> unat mx + unat n"
      by (auto simp: granted_ids_def word_less_nat_alt)
    then have "unat x - unat mx - 1 < unat n" "x = mx + of_nat (unat x - unat mx - 1) + 1"
      using u[of "unat x - unat mx - 1"] by (auto simp: word_unat_eq_iff)
    then show "x \<in> set (map (\<lambda>i. mx + of_nat i + 1) [0..<unat n])"
      by (metis (mono_tags, lifting) atLeastLessThan_iff image_eqI le0 list.set_map set_upt)
  qed
qed

lemma granted_ids_above: "x \<in> granted_ids mx n \<Longrightarrow> mx < x"
  by (simp add: granted_ids_def)

lemma finite_granted_ids [simp]: "finite (granted_ids mx n)"
  by simp

lemma card_granted_ids:
  assumes "unat mx + unat n \<le> 2 ^ 64 - 1"
  shows "card (granted_ids mx n) = unat n"
proof -
  have "bij_betw unat (granted_ids mx n) {unat mx <.. unat mx + unat n}"
  proof (rule bij_betw_imageI)
    show "inj_on unat (granted_ids mx n)" by (rule inj_onI) (simp add: word_unat_eq_iff)
    have "k \<in> unat ` granted_ids mx n" if "unat mx < k" "k \<le> unat mx + unat n" for k
    proof -
      have "unat (of_nat k :: u64) = k" using that assms by (simp add: unat_of_nat)
      then show ?thesis using that by (intro image_eqI[of _ _ "of_nat k"]) (auto simp: granted_ids_def word_less_nat_alt)
    qed
    then show "unat ` granted_ids mx n = {unat mx <.. unat mx + unat n}"
      by (auto simp: granted_ids_def word_less_nat_alt)
  qed
  then show ?thesis using bij_betw_same_card by force
qed

lemma unat_ucast_16_64 [simp]: "unat (ucast (n :: u16) :: u64) = unat n"
  using unsigned_less[of n, where 'a = nat] by (simp add: unsigned_ucast_eq take_bit_nat_eq_self_iff)

lemma unat_last_id: "unat (- 1 :: u64) = 2 ^ 64 - 1"
  by (simp add: unsigned_minus_1_eq_mask mask_eq_exp_minus_1)

lemma last_id_numeral: "(0xffffffffffffffff :: u64) = - 1"
  by (simp add: word_unat_eq_iff unat_last_id)

lemma ids_left: "ucast (n :: u16) > 0xffffffffffffffff - (mx :: u64) \<longleftrightarrow> unat mx + unat n > 2 ^ 64 - 1"
proof -
  have "mx \<le> - 1" by simp
  then have "unat (0xffffffffffffffff - mx) = 2 ^ 64 - 1 - unat mx"
    unfolding last_id_numeral by (simp only: unat_sub unat_last_id)
  moreover have "unat mx \<le> 2 ^ 64 - 1" using unsigned_less[of mx, where 'a = nat] by simp
  ultimately show ?thesis by (auto simp: word_less_nat_alt)
qed

lemma grantCredits_eq:
  assumes "finite W" "mid \<in> W \<or> maxKey W \<noteq> 0"
    and "n = credits_of W numCredits (if charge = 0 then 1 else charge)"
  shows "grantCredits mid numCredits charge W =
    (if unat (maxKey W) + unat n > 2 ^ 64 - 1 then (W, None) else (W \<union> granted_ids (maxKey W) n, Some n))"
proof -
  have "maxKey W = 0 \<Longrightarrow> mid \<in> W \<Longrightarrow> mid = 0" using maxKey_ge[OF assms(1), of mid] by simp
  then have mx: "(if maxKey W = 0 then mid else maxKey W) = maxKey W" using assms(2) by auto
  show ?thesis using granted_ids_list[of "maxKey W" n]
    unfolding grantCredits_def Let_def mx assms(3)[symmetric] ids_left by simp
qed

subsection \<open>One request from inside the window\<close>

definition request_id :: "request \<Rightarrow> u64" where
  "request_id req = (if rq_isSmb req then 0 else rq_mid req)"

definition is_cancel :: "request \<Rightarrow> bool" where
  "is_cancel req \<longleftrightarrow> \<not> rq_isSmb req \<and> rq_command req = SMB2_CANCEL"

text \<open>Before a dialect is negotiated there is no multi-credit.\<close>

definition negotiated_first :: "connection \<Rightarrow> bool" where
  "negotiated_first c \<longleftrightarrow> (negotiateDialect c = SMB_DIALECT_UNKNOWN \<longrightarrow> \<not> supportsMultiCredit c)"

lemma chainMemberDone_frame:
  assumes "chainMemberDone gid c = (c', chain)"
  shows "commandSequenceWindow c' = commandSequenceWindow c" "negotiateDialect c' = negotiateDialect c"
    "supportsMultiCredit c' = supportsMultiCredit c" "requestList c' = requestList c" "sent c' = sent c"
  using assms by (auto simp: chainMemberDone_def Let_def split: if_splits)

lemma sendChain_frame [simp]:
  "commandSequenceWindow (sendChain chain c) = commandSequenceWindow c"
  "negotiateDialect (sendChain chain c) = negotiateDialect c"
  "supportsMultiCredit (sendChain chain c) = supportsMultiCredit c"
  "requestList (sendChain chain c) = requestList c"
  by (cases chain; simp add: sendChain_def writeResponse_def)+

lemma writeResponse_frame [simp]:
  "commandSequenceWindow (writeResponse msg c) = commandSequenceWindow c"
  "negotiateDialect (writeResponse msg c) = negotiateDialect c"
  "supportsMultiCredit (writeResponse msg c) = supportsMultiCredit c"
  "requestList (writeResponse msg c) = requestList c"
  by (simp_all add: writeResponse_def)

lemma acceptInWindow_window:
  assumes "acceptInWindow mid req v c = Inr c'"
  shows "mid \<in> commandSequenceWindow c"
    and "retireMessageID mid (rq_charge req) c = Some (commandSequenceWindow c')"
    and "negotiateDialect c' = negotiateDialect c" "supportsMultiCredit c' = supportsMultiCredit c"
  using assms
  by (auto simp: acceptInWindow_def Let_def chainMemberDone_frame split: if_splits option.splits prod.splits
      dest: chainMemberDone_frame)

lemma window_step:
  assumes W: "finite W" "mid \<in> W" and room: "unat (maxKey W) + 65535 < 2 ^ 64 - 1"
    and c: "commandSequenceWindow c = W \<union> granted_ids (maxKey W) n" "cost charge c \<le> unat n"
    and r: "retireMessageID mid charge c = Some W'"
  shows "W' \<subseteq> W \<union> granted_ids (maxKey W) n" "mid \<notin> W'" "maxKey W' = maxKey W + ucast n"
    "unat (maxKey W') = unat (maxKey W) + unat n" "card W' + cost charge c = card W + unat n"
proof -
  let ?G = "granted_ids (maxKey W) n" and ?W1 = "W \<union> granted_ids (maxKey W) n"
  let ?m = "maxKey W + ucast n :: u64"
  have n: "unat n < 65536" using unsigned_less[of n] by simp
  then have m: "unat ?m = unat (maxKey W) + unat n" using room by (simp add: unat_word_ariths)
  have "1 \<le> cost charge c" by (simp add: cost_def)
  then have n1: "1 \<le> unat n" using c(2) by simp
  have mG: "?m \<in> ?G" using m n1 by (simp add: granted_ids_def word_less_nat_alt)
  have max1: "maxKey ?W1 = ?m"
  proof (rule maxKey_eqI)
    fix x assume "x \<in> ?W1"
    then show "x \<le> ?m" using maxKey_ge[OF W(1), of x] m
      by (auto simp: granted_ids_def word_le_nat_alt)
  qed (use W mG in auto)
  have mid: "mid \<le> maxKey W" by (rule maxKey_ge[OF W])
  have disj: "W \<inter> ?G = {}" using maxKey_ge[OF W(1)] by (auto simp: granted_ids_def leD)
  have cardG: "card ?G = unat n" using room n by (intro card_granted_ids) simp
  have card1: "card ?W1 = card W + unat n" using W disj cardG by (simp add: card_Un_disjoint)
  have "insert mid ?G \<subseteq> since mid ?W1" using W mid granted_ids_above by (force simp: since_def)
  moreover have "mid \<notin> ?G" using W disj by auto
  ultimately have many: "Suc (unat n) \<le> card (since mid ?W1)"
    using cardG by (metis card_insert_disjoint card_mono finite finite_granted_ids)
  obtain R where R: "W' = ?W1 - R" "R \<subseteq> since mid ?W1" "mid \<in> R" "card R = cost charge c"
    "\<forall>x \<in> R. \<forall>y \<in> ?W1 - R. mid \<le> y \<longrightarrow> x < y"
    using retireMessageID_correct[of c mid charge] c W r max1 m room n many
    by (auto simp: word_unat_eq_iff unat_last_id)
  obtain y where y: "y \<in> since mid ?W1" "y \<notin> R"
    using R(2,4) many c(2) by (metis Suc_n_not_le_n card_mono finite le_trans subsetI)
  have "?m \<notin> R"
  proof
    assume "?m \<in> R"
    moreover have "y \<in> ?W1 - R" "mid \<le> y" using y by (auto simp: since_def)
    ultimately have "?m < y" using R(5) by blast
    moreover have "y \<le> ?m" using y W maxKey_ge[of ?W1 y] max1 by (simp add: since_def)
    ultimately show False by simp
  qed
  then have mW: "?m \<in> W'" using R(1) mG by simp
  show "maxKey W' = ?m"
  proof (rule maxKey_eqI[OF _ mW])
    fix x assume "x \<in> W'"
    then show "x \<le> ?m" using R(1) maxKey_ge[of ?W1 x] max1 W by auto
  qed simp
  with m show "unat (maxKey W') = unat (maxKey W) + unat n" by simp
  show "W' \<subseteq> ?W1" "mid \<notin> W'" using R by auto
  have "R \<subseteq> ?W1" using R(2) by (auto simp: since_def)
  then have "card W' = card ?W1 - card R" "card R \<le> card ?W1"
    using R(1) by (auto simp: card_Diff_subset intro: card_mono)
  then show "card W' + cost charge c = card W + unat n" using R(4) card1 by simp
qed

text \<open>A request that gives back all it charges for: multi-credit is on, or the charge is a single credit.\<close>

definition pays_charge :: "request \<Rightarrow> connection \<Rightarrow> bool" where
  "pays_charge req c \<longleftrightarrow> rq_isSmb req \<or> rq_charge req \<le> 1
     \<or> (negotiateDialect c \<noteq> SMB_DIALECT_202 \<and> supportsMultiCredit c)"

lemma cost_le: "cost charge c \<le> unat (if charge = 0 then 1 else charge)"
  using word_neq_0_conv[of charge] by (auto simp: cost_def word_less_nat_alt)

lemma cost_pays:
  "pays_charge req c \<Longrightarrow> \<not> rq_isSmb req \<Longrightarrow>
   cost (rq_charge req) c = unat (if rq_charge req = 0 then 1 else rq_charge req)"
  using word_neq_0_conv[of "rq_charge req"]
  by (auto simp: cost_def pays_charge_def word_less_nat_alt word_le_nat_alt)

lemma cost_unnegotiated: "\<not> supportsMultiCredit c \<Longrightarrow> cost charge c = 1"
  by (simp add: cost_def)

lemma accept_one_window:
  assumes "accept_one al he v ca req c = Inr c'" "\<not> is_cancel req" "negotiated_first c"
    and "finite (commandSequenceWindow c)" "request_id req \<in> commandSequenceWindow c"
    and "unat (maxKey (commandSequenceWindow c)) + 65535 < 2 ^ 64 - 1"
  obtains n c1 where "commandSequenceWindow c1 = commandSequenceWindow c \<union> granted_ids (maxKey (commandSequenceWindow c)) n"
    "cost (rq_charge req) c1 \<le> unat n"
    "retireMessageID (request_id req) (rq_charge req) c1 = Some (commandSequenceWindow c')" "negotiated_first c'"
    "pays_charge req c \<Longrightarrow> card (commandSequenceWindow c) \<le> maxSequenceWindow \<Longrightarrow>
       unat n = cost (rq_charge req) c1 \<or> card (commandSequenceWindow c) + unat n \<le> maxSequenceWindow"
proof -
  let ?W = "commandSequenceWindow c"
  define charge where "charge = (if rq_isSmb req \<or> rq_charge req = 0 then 1 else rq_charge req)"
  define asked where "asked = (let k = max (rq_charge req) (rq_credits req) in if rq_isSmb req \<or> k = 0 then 1 else k)"
  define n where "n = credits_of ?W asked charge"
  have nn: "unat n < 65536" using unsigned_less[of n, where 'a = nat] by simp
  have one: "(if charge = 0 then 1 else charge) = charge" by (auto simp: charge_def)
  have g: "grantCredits (request_id req) asked charge ?W = (?W \<union> granted_ids (maxKey ?W) n, Some n)"
    using grantCredits_eq[of ?W "request_id req" n asked charge] assms(4-6) nn one by (simp add: n_def)
  have same: "grantCredits (rq_mid req) asked (rq_charge req) ?W = grantCredits (request_id req) asked charge ?W"
    if "\<not> rq_isSmb req" using that by (simp add: grantCredits_def charge_def request_id_def)
  define c1 where "c1 = (if rq_isSmb req then c\<lparr>commandSequenceWindow := ?W \<union> granted_ids (maxKey ?W) n\<rparr> else grantFor req c)"
  have c1: "commandSequenceWindow c1 = ?W \<union> granted_ids (maxKey ?W) n" "negotiateDialect c1 = negotiateDialect c"
    "supportsMultiCredit c1 = supportsMultiCredit c"
    using g same by (auto simp: c1_def grantFor_def asked_def Let_def)
  have acc: "acceptInWindow (request_id req) req v c1 = Inr c'"
    using assms(1,2) g
    by (auto simp: accept_one_def is_cancel_def request_id_def c1_def charge_def asked_def Let_def split: if_splits)
  have smb: "rq_isSmb req \<Longrightarrow> \<not> supportsMultiCredit c"
    using assms(1,3) by (auto simp: accept_one_def negotiated_first_def split: if_splits)
  have cost: "cost (rq_charge req) c1 \<le> unat charge"
    using smb c1(3) cost_unnegotiated[of c1] cost_le[of "rq_charge req" c1] by (auto simp: charge_def split: if_splits)
  have "charge \<le> n" unfolding n_def by (rule credits_of_ge)
  then have "cost (rq_charge req) c1 \<le> unat n" using cost by (simp add: word_le_nat_alt)
  moreover have "unat n = cost (rq_charge req) c1 \<or> card ?W + unat n \<le> maxSequenceWindow"
    if "pays_charge req c" "card ?W \<le> maxSequenceWindow"
  proof -
    have "pays_charge req c1" using that(1) c1 by (simp add: pays_charge_def)
    then have "cost (rq_charge req) c1 = unat charge"
      using smb c1(3) cost_unnegotiated[of c1] cost_pays[of req c1] by (cases "rq_isSmb req") (auto simp: charge_def)
    then show ?thesis using credits_of_cases[OF that(2), of asked charge] unfolding n_def by auto
  qed
  moreover have "negotiated_first c'"
    using acceptInWindow_window[OF acc] assms(3) c1 by (simp add: negotiated_first_def)
  ultimately show thesis using that c1(1) acceptInWindow_window(2)[OF acc] by blast
qed

subsection \<open>A run of requests\<close>

text \<open>
  The message IDs a connection has taken, the latest first, while its client sends only IDs that are in
  the window. Whatever else the connection does, such as negotiating or answering, leaves the window alone.
\<close>

inductive served :: "u64 list \<Rightarrow> connection \<Rightarrow> bool" where
  served_new: "served [] newConnectionState"
| served_took: "served ids c \<Longrightarrow> \<not> is_cancel req \<Longrightarrow> request_id req \<in> commandSequenceWindow c \<Longrightarrow>
    accept_one al he v ca req c = Inr c' \<Longrightarrow> served (request_id req # ids) c'"
| served_cancel: "served ids c \<Longrightarrow> is_cancel req \<Longrightarrow> ca = None \<or> ca = Some (findCancelTarget cr byMid c) \<Longrightarrow>
    accept_one al he v ca req c = Inr c' \<Longrightarrow> served ids c'"
| served_other: "served ids c \<Longrightarrow> commandSequenceWindow c' = commandSequenceWindow c \<Longrightarrow> negotiated_first c' \<Longrightarrow>
    served ids c'"

lemma grantOnResponse_frame:
  "commandSequenceWindow (fst (grantOnResponse resp c)) = commandSequenceWindow c"
  "negotiateDialect (fst (grantOnResponse resp c)) = negotiateDialect c"
  "supportsMultiCredit (fst (grantOnResponse resp c)) = supportsMultiCredit c"
  by (auto simp: grantOnResponse_def split: option.splits)

lemma releaseOpen_frame [simp]:
  "commandSequenceWindow (releaseOpen req c) = commandSequenceWindow c"
  "negotiateDialect (releaseOpen req c) = negotiateDialect c"
  "supportsMultiCredit (releaseOpen req c) = supportsMultiCredit c"
  by (auto simp: releaseOpen_def Let_def split: option.splits)

lemma cancelTarget_frame:
  "commandSequenceWindow (cancelTarget target c) = commandSequenceWindow c"
  "negotiateDialect (cancelTarget target c) = negotiateDialect c"
  "supportsMultiCredit (cancelTarget target c) = supportsMultiCredit c"
  using grantOnResponse_frame[of "NewErrorResponse target STATUS_CANCELLED" c]
  by (cases "rq_async target"; cases "grantOnResponse (NewErrorResponse target STATUS_CANCELLED) c";
      simp add: cancelTarget_def Let_def)+

lemma findCancelTarget_frame:
  assumes "findCancelTarget cr byMid c = (c', target)"
  shows "commandSequenceWindow c' = commandSequenceWindow c" "negotiateDialect c' = negotiateDialect c"
    "supportsMultiCredit c' = supportsMultiCredit c"
  using assms by (auto simp: findCancelTarget_def split: if_splits option.splits)

lemma cancel_frame:
  assumes "accept_one al he v ca req c = Inr c'" "is_cancel req"
    and "ca = None \<or> ca = Some (findCancelTarget cr byMid c)"
  shows "commandSequenceWindow c' = commandSequenceWindow c" "negotiateDialect c' = negotiateDialect c"
    "supportsMultiCredit c' = supportsMultiCredit c"
proof -
  obtain c1 t where f: "findCancelTarget cr byMid c = (c1, t)" by force
  define d where "d = (case ca of None \<Rightarrow> c | Some (c', None) \<Rightarrow> c' | Some (c', Some target) \<Rightarrow> cancelTarget target c')"
  have d: "commandSequenceWindow d = commandSequenceWindow c" "negotiateDialect d = negotiateDialect c"
    "supportsMultiCredit d = supportsMultiCredit c"
    using assms(3) f findCancelTarget_frame[OF f] cancelTarget_frame
    by (auto simp: d_def split: option.splits)
  obtain c2 chain where c2: "chainMemberDone (rq_group req) d = (c2, chain)" by force
  have "c' = sendChain chain c2"
    using assms(1,2) c2 by (auto simp: accept_one_def is_cancel_def d_def[symmetric] Let_def split: if_splits)
  then show "commandSequenceWindow c' = commandSequenceWindow c" "negotiateDialect c' = negotiateDialect c"
    "supportsMultiCredit c' = supportsMultiCredit c"
    using chainMemberDone_frame[OF c2] d by simp_all
qed

definition window_inv :: "u64 list \<Rightarrow> connection \<Rightarrow> bool" where
  "window_inv ids c \<longleftrightarrow> negotiated_first c
     \<and> unat (maxKey (commandSequenceWindow c)) \<le> 65535 * length ids \<and> distinct ids
     \<and> (\<forall>i \<in> set ids. i \<notin> commandSequenceWindow c \<and> i < maxKey (commandSequenceWindow c))"

lemma maxKey_bound_room: "unat (m :: u64) \<le> 65535 * k \<Longrightarrow> k < 2 ^ 47 \<Longrightarrow> unat m + 65535 < 2 ^ 64 - 1"
  by simp

lemma window_inv_took:
  assumes inv: "window_inv ids c" and k: "length ids < 2 ^ 47"
    and took: "\<not> is_cancel req" "request_id req \<in> commandSequenceWindow c" "accept_one al he v ca req c = Inr c'"
  shows "window_inv (request_id req # ids) c'"
proof -
  let ?W = "commandSequenceWindow c"
  have room: "unat (maxKey ?W) + 65535 < 2 ^ 64 - 1"
    using inv k by (intro maxKey_bound_room[of _ "length ids"]) (simp_all add: window_inv_def)
  obtain n c1 where c1: "commandSequenceWindow c1 = ?W \<union> granted_ids (maxKey ?W) n"
    "cost (rq_charge req) c1 \<le> unat n"
    "retireMessageID (request_id req) (rq_charge req) c1 = Some (commandSequenceWindow c')" "negotiated_first c'"
    using accept_one_window[OF took(3,1)] inv took(2) room finite by (metis window_inv_def)
  note ws = window_step[OF finite took(2) room c1(1-3)]
  have n: "unat n < 65536" using unsigned_less[of n, where 'a = nat] by simp
  have "1 \<le> cost (rq_charge req) c1" by (simp add: cost_def)
  then have "maxKey ?W < maxKey (commandSequenceWindow c')" using ws(4) c1(2) by (simp add: word_less_nat_alt)
  moreover have "request_id req \<le> maxKey ?W" using took(2) by (intro maxKey_ge) simp_all
  moreover have "i \<notin> commandSequenceWindow c'" if "i \<in> set ids" for i
    using inv that ws(1) granted_ids_above[of i "maxKey ?W" n] less_asym[of i "maxKey ?W"]
    by (auto simp: window_inv_def)
  ultimately show ?thesis
    using inv took(2) ws(2,4) n c1(4) by (auto simp: window_inv_def)
qed

lemma served_inv: "served ids c \<Longrightarrow> length ids \<le> 2 ^ 47 \<Longrightarrow> window_inv ids c"
proof (induction rule: served.induct)
  case served_new
  show ?case by (simp add: window_inv_def newConnectionState_def negotiated_first_def maxKey_def)
next
  case (served_took ids c req al he v ca c')
  then show ?case by (intro window_inv_took) simp_all
next
  case (served_cancel ids c req ca cr byMid al he v c')
  then show ?case using cancel_frame[of al he v ca req c c'] by (simp add: window_inv_def negotiated_first_def)
next
  case (served_other ids c c')
  then show ?case by (simp add: window_inv_def)
qed

subsection \<open>What holds\<close>

text \<open>A request with one credit, for the examples.\<close>

definition sample_request :: "u64 \<Rightarrow> u16 \<Rightarrow> request" where
  "sample_request mid charge = \<lparr>rq_isSmb = False, rq_command = 0, rq_len = 100, rq_mid = mid, rq_charge = charge,
     rq_credits = 1, rq_group = 0, rq_async = False, rq_aid = 0, rq_cancelID = 0, rq_sequence = 0,
     rq_replay = False, rq_openID = []\<rparr>"

definition sample_window :: "u64 set \<Rightarrow> connection" where
  "sample_window W = newConnectionState\<lparr>commandSequenceWindow := W\<rparr>"

definition accepted :: "accept_error + connection \<Rightarrow> connection" where
  "accepted r = (case r of Inr c \<Rightarrow> c | Inl _ \<Rightarrow> newConnectionState)"


lemma acceptedI: "\<not> isl r \<Longrightarrow> r = Inr (accepted r)"
  by (cases r) (simp_all add: accepted_def)

lemma sample_accepts:
  "\<not> isl (accept_one True False NoSession None (sample_request 0 1) newConnectionState)"
  "0 \<in> commandSequenceWindow newConnectionState"
  by (simp_all add: accept_one_def sample_request_def newConnectionState_def grantFor_def grantCredits_def
      credits_of_def maxKey_def maxSequenceWindow_def acceptInWindow_def retireMessageID_def tooLong_def Let_def
      SMB2_CANCEL_def)




text \<open>Taking the IDs of a request out of the window always comes to an end while the last
  ID of all has not been granted, and takes out what the request costs: its own ID and, with multi-credit, the
  next ones that are still in the window, the smallest first, as many as it charges or as there are.\<close>

theorem retireMessageID_returns:
  assumes "maxKey (commandSequenceWindow c) \<noteq> 0xffffffffffffffff" "mid \<in> commandSequenceWindow c"
  shows "\<exists>R. retireMessageID mid charge c = Some (commandSequenceWindow c - R)
     \<and> R \<subseteq> commandSequenceWindow c \<and> mid \<in> R
     \<and> card R = min (cost charge c) (card {x \<in> commandSequenceWindow c. mid \<le> x})
     \<and> (\<forall>x \<in> R. mid \<le> x \<and> (\<forall>y \<in> commandSequenceWindow c - R. mid \<le> y \<longrightarrow> x < y))"
proof -
  have "maxKey (commandSequenceWindow c) \<noteq> - 1" using assms(1) unfolding last_id_numeral .
  from retireMessageID_correct[OF finite this assms(2), of charge]
  show ?thesis unfolding since_def by blast
qed

theorem retireMessageID_returns_witness:
  "\<exists>W'. retireMessageID 3 2 (sample_window {1, 3, 4, 7}\<lparr>supportsMultiCredit := True\<rparr>) = Some W'"
  using retireMessageID_returns[of "sample_window {1, 3, 4, 7}\<lparr>supportsMultiCredit := True\<rparr>" 3 2]
  by (auto simp: sample_window_def maxKey_def)

subsection \<open>Where it stops holding\<close>

text \<open>
  Credits are granted before the ID is looked up, and above the greatest ID of the window: the ID that
  comes right after the window is put into it by the very request that carries it.
\<close>

lemma credits_of_one: "credits_of W 1 1 = 1"
  by (auto simp: credits_of_def Let_def max_def)

lemma credits_of_asked: "credits_of W charge charge = charge"
proof (cases "maxSequenceWindow < card W + unat charge")
  case True
  have "(of_int (max (int maxSequenceWindow - int (card W)) 0) :: u16) < charge \<or> charge = 0"
  proof (cases "charge = 0")
    case False
    then have "unat charge > 0" by (simp add: unat_gt_0)
    moreover have r: "int (unat charge) > int maxSequenceWindow - int (card W)" using True by linarith
    ultimately show ?thesis using unat_of_int_room[OF r] by (simp add: word_less_nat_alt nat_less_iff uint_nat del: of_nat_unat)
  qed simp
  with True show ?thesis by (auto simp: credits_of_def Let_def max_def)
next
  case False
  then have "\<not> int maxSequenceWindow - int (card W) < int (unat charge)" by linarith
  then show ?thesis unfolding credits_of_def Let_def by (simp only: if_False less_irrefl)
qed

lemma granted_one: "unat mx + 1 < 2 ^ 64 \<Longrightarrow> granted_ids mx 1 = {mx + 1}"
  by (auto simp: granted_ids_def word_less_nat_alt word_unat_eq_iff unat_word_ariths)

text \<open>The ID right after the window, which the client was never granted, is accepted
  although it is not in the window, queued for processing, and the window is left exactly as it was: the same
  message is accepted again as often as it is sent. The window does not protect against replaying it.\<close>

theorem id_beyond_window_replayable:
  assumes "maxKey (commandSequenceWindow c) \<noteq> 0" "unat (maxKey (commandSequenceWindow c)) + 1 < 2 ^ 64 - 1"
    and "\<not> rq_isSmb req" "rq_command req \<noteq> SMB2_CANCEL" "rq_mid req = maxKey (commandSequenceWindow c) + 1"
    and "rq_charge req = 1" "rq_credits req \<le> 1" "rq_len req \<le> 68 * 1024" "v = NoSession \<or> v = Verified"
  shows "rq_mid req \<notin> commandSequenceWindow c \<and>
    (\<exists>c'. accept_one True False v None req c = Inr c' \<and> requestList c' (rq_mid req) = Some req
       \<and> commandSequenceWindow c' = commandSequenceWindow c)"
proof -
  let ?W = "commandSequenceWindow c" and ?mid = "rq_mid req"
  have u: "unat ?mid = unat (maxKey ?W) + 1" using assms(2,5) by (simp add: unat_word_ariths)
  have notin: "?mid \<notin> ?W" using maxKey_ge[of ?W ?mid] u by (auto simp: word_le_nat_alt)
  have "grantCredits ?mid 1 1 ?W = (?W \<union> granted_ids (maxKey ?W) 1, Some 1)"
    using grantCredits_eq[of ?W ?mid 1 1 1] assms(1,2) by (simp add: credits_of_one)
  then have g: "grantCredits ?mid 1 1 ?W = (insert ?mid ?W, Some 1)"
    using granted_one[of "maxKey ?W"] assms(2,5) by simp
  have asked: "max (rq_charge req) (rq_credits req) = 1" using assms(6,7) by (simp add: max_def)
  define c1 where "c1 = grantFor req c"
  have c1: "commandSequenceWindow c1 = insert ?mid ?W"
    using g assms(6) asked by (simp add: c1_def grantFor_def Let_def)
  have above: "x \<le> ?mid" if "x \<in> insert ?mid ?W" for x
    using that maxKey_ge[of ?W x] u by (auto simp: word_le_nat_alt)
  then have m1: "maxKey (insert ?mid ?W) = ?mid" by (intro maxKey_eqI) auto
  have notlast: "?mid \<noteq> - 1" using u assms(2) unat_last_id by auto
  obtain R where R: "retireMessageID ?mid (rq_charge req) c1 = Some (insert ?mid ?W - R)"
    "R \<subseteq> since ?mid (insert ?mid ?W)" "?mid \<in> R"
    using retireMessageID_correct[of c1 ?mid "rq_charge req"] c1 m1 notlast by auto
  have "since ?mid (insert ?mid ?W) \<subseteq> {?mid}" using above by (auto simp: since_def intro: order.antisym)
  with R(2,3) have "R = {?mid}" by auto
  with R(1) notin have ret: "retireMessageID ?mid (rq_charge req) c1 = Some ?W" by simp
  have "accept_one True False v None req c = acceptInWindow ?mid req v c1"
    using assms(3,4,8) by (simp add: accept_one_def tooLong_def c1_def)
  also have "\<dots> = Inr (c1\<lparr>commandSequenceWindow := ?W, requestList := (requestList c1)(?mid \<mapsto> req)\<rparr>)"
    using assms(9) c1 ret notlast unfolding acceptInWindow_def last_id_numeral by (auto simp: Let_def)
  finally show ?thesis using notin by auto
qed

theorem id_beyond_window_replayable_witness:
  "\<exists>c'. accept_one True False Verified None (sample_request 3 1) (sample_window {1, 2}) = Inr c'
     \<and> commandSequenceWindow c' = {1, 2}"
  using id_beyond_window_replayable[of "sample_window {1, 2}" "sample_request 3 1" Verified]
  by (auto simp: sample_window_def sample_request_def maxKey_def SMB2_CANCEL_def)

text \<open>Without multi-credit the charge of a request is granted in full but only one ID is
  taken back, so a request that charges for \<open>k\<close> credits leaves the window \<open>k - 1\<close> IDs larger, also when it
  already holds \<open>maxSequenceWindow\<close> of them.\<close>

theorem window_outgrows_bound:
  assumes "accept_one al he v ca req c = Inr c'" "\<not> is_cancel req" "\<not> rq_isSmb req" "\<not> supportsMultiCredit c"
    and "rq_mid req \<in> commandSequenceWindow c" "unat (maxKey (commandSequenceWindow c)) + 65535 < 2 ^ 64 - 1"
    and "1 \<le> rq_charge req" "rq_credits req \<le> rq_charge req"
  shows "card (commandSequenceWindow c') = card (commandSequenceWindow c) + unat (rq_charge req) - 1"
proof -
  let ?W = "commandSequenceWindow c" and ?n = "rq_charge req"
  have n: "unat ?n < 65536" "?n \<noteq> 0" using unsigned_less[of ?n, where 'a = nat] assms(7) by auto
  have asked: "max ?n (rq_credits req) = ?n" using assms(8) by (simp add: max_def)
  define c1 where "c1 = grantFor req c"
  have "grantCredits (rq_mid req) ?n ?n ?W = (?W \<union> granted_ids (maxKey ?W) ?n, Some ?n)"
    using grantCredits_eq[of ?W "rq_mid req" ?n ?n ?n] assms(5,6) n by (simp add: credits_of_asked)
  then have c1: "commandSequenceWindow c1 = ?W \<union> granted_ids (maxKey ?W) ?n" "supportsMultiCredit c1 = supportsMultiCredit c"
    using asked n by (simp_all add: c1_def grantFor_def Let_def)
  have acc: "acceptInWindow (rq_mid req) req v c1 = Inr c'"
    using assms(1-3) by (auto simp: accept_one_def is_cancel_def c1_def split: if_splits)
  have k: "cost ?n c1 = 1" using c1(2) assms(4) by (simp add: cost_unnegotiated)
  have "1 \<le> unat ?n" using assms(7) by (simp add: word_le_nat_alt)
  then show ?thesis
    using window_step(5)[OF finite assms(5,6) c1(1) _ acceptInWindow_window(2)[OF acc]] k by simp
qed

theorem window_outgrows_bound_witness:
  "card (commandSequenceWindow (accepted (accept_one True False NoSession None (sample_request 2 5) (sample_window {1, 2})))) = 6"
proof -
  have ok: "\<not> isl (accept_one True False NoSession None (sample_request 2 5) (sample_window {1, 2}))"
    by (simp add: accept_one_def sample_request_def sample_window_def newConnectionState_def grantFor_def grantCredits_def
      credits_of_def maxKey_def maxSequenceWindow_def acceptInWindow_def retireMessageID_def tooLong_def Let_def
      SMB2_CANCEL_def)
  show ?thesis
    using window_outgrows_bound[OF acceptedI[OF ok]]
    by (simp add: sample_request_def sample_window_def newConnectionState_def maxKey_def is_cancel_def SMB2_CANCEL_def)
qed

end
