(* ===== verification/Request_Answers.thy ===== *)
theory Request_Answers
  imports Request_Window
begin

section \<open>Who answers a request\<close>

text \<open>
  An asynchronous request may be answered by the work behind it, by a cancel, or by the close of its open,
  each from a goroutine of its own. A run below is any interleaving of them with the read loop and the
  dispatcher; every step is what one of them does while it holds the lock, or does on its own. The second
  part is about compound chains, which are answered as one message, and the last about what overtakes what.
\<close>

subsection \<open>Final answers\<close>

definition final_of :: "u64 \<Rightarrow> response \<Rightarrow> bool" where
  "final_of aid r \<longleftrightarrow> rs_aid r = Some aid \<and> rs_status r \<noteq> STATUS_PENDING"

definition finals :: "u64 \<Rightarrow> connection \<Rightarrow> nat" where
  "finals aid c = length (filter (final_of aid) (concat (sent c)))"

definition no_finals :: "response list \<Rightarrow> bool" where
  "no_finals msg \<longleftrightarrow> (\<forall>r \<in> set msg. \<forall>aid. \<not> final_of aid r)"

definition clean :: "connection \<Rightarrow> bool" where
  "clean c \<longleftrightarrow> (\<forall>g msg. pendingResponses c g = Some msg \<longrightarrow> no_finals msg)"

lemma finals_writeResponse [simp]:
  "finals aid (writeResponse msg c) = finals aid c + length (filter (final_of aid) msg)"
  by (simp add: finals_def writeResponse_def)

lemma no_finals_filter: "no_finals msg \<Longrightarrow> filter (final_of aid) msg = []"
  by (simp add: no_finals_def filter_empty_conv)

lemma writeResponse_async [simp]:
  "asyncCommandList (writeResponse msg c) = asyncCommandList c"
  "pendingResponses (writeResponse msg c) = pendingResponses c"
  "closeChan (writeResponse msg c) = closeChan c"
  by (simp_all add: writeResponse_def)

lemma releaseOpen_async [simp]:
  "asyncCommandList (releaseOpen req c) = asyncCommandList c"
  "pendingResponses (releaseOpen req c) = pendingResponses c"
  "closeChan (releaseOpen req c) = closeChan c"
  "finals aid (releaseOpen req c) = finals aid c"
  by (auto simp: releaseOpen_def Let_def finals_def split: option.splits)

lemma grantOnResponse_async:
  assumes "grantOnResponse resp c = (c', resp')"
  shows "asyncCommandList c' = asyncCommandList c" "pendingResponses c' = pendingResponses c"
    "closeChan c' = closeChan c" "sent c' = sent c" "final_of aid resp' \<longleftrightarrow> final_of aid resp"
    "rs_group resp' = rs_group resp" "rs_status resp' = rs_status resp" "rs_command resp' = rs_command resp"
    "rs_mid resp' = rs_mid resp"
  using assms by (auto simp: grantOnResponse_def final_of_def split: if_splits option.splits)

lemma trySendResponse_async [simp]:
  "asyncCommandList (trySendResponse resp c) = asyncCommandList c"
  "pendingResponses (trySendResponse resp c) = pendingResponses c"
  "closeChan (trySendResponse resp c) = closeChan c"
  by (auto simp: trySendResponse_def grantOnResponse_async split: prod.splits)

lemma finals_trySendResponse:
  "finals aid (trySendResponse resp c) =
     finals aid c + (if \<not> closeChan c \<and> final_of aid resp then 1 else 0)"
proof -
  obtain c1 resp1 where g: "grantOnResponse resp c = (c1, resp1)" by force
  then show ?thesis using grantOnResponse_async[OF g]
    by (auto simp: trySendResponse_def finals_def writeResponse_def)
qed

lemma chainMemberDone_async:
  assumes "chainMemberDone gid c = (c', chain)" "clean c"
  shows "asyncCommandList c' = asyncCommandList c" "closeChan c' = closeChan c" "clean c'"
    "chain = Some msg \<Longrightarrow> no_finals msg" "finals aid c' = finals aid c"
  using assms by (auto simp: chainMemberDone_def Let_def clean_def finals_def split: if_splits)

lemma interimQueued_async [simp]:
  "asyncCommandList (interimQueued mid c) = asyncCommandList c" "clean (interimQueued mid c) = clean c"
  "closeChan (interimQueued mid c) = closeChan c" "finals aid (interimQueued mid c) = finals aid c"
  by (simp_all add: interimQueued_def clean_def finals_def)

lemma clean_releaseOpen [simp]: "clean (releaseOpen req c) = clean c"
  by (simp add: clean_def)

lemma clean_writeResponse [simp]: "clean (writeResponse msg c) = clean c"
  by (simp add: clean_def)

lemma clean_trySendResponse [simp]: "clean (trySendResponse resp c) = clean c"
  by (simp add: clean_def)

text \<open>What every step but the taking on and the answering of an asynchronous request keeps.\<close>

definition same_async :: "connection \<Rightarrow> connection \<Rightarrow> bool" where
  "same_async c c' \<longleftrightarrow> asyncCommandList c' = asyncCommandList c \<and> closeChan c' = closeChan c
     \<and> (clean c \<longrightarrow> clean c') \<and> (\<forall>aid. finals aid c' = finals aid c)"

lemma same_async_refl [simp]: "same_async c c"
  by (simp add: same_async_def)

lemma same_async_trans: "same_async c c' \<Longrightarrow> same_async c' c'' \<Longrightarrow> same_async c c''"
  by (auto simp: same_async_def)

lemma same_async_release [simp]: "same_async c (releaseOpen req c)"
  by (simp add: same_async_def)

lemma same_async_interim [simp]: "same_async c (interimQueued mid c)" "same_async c (expectInterim mid c)"
  by (simp_all add: same_async_def expectInterim_def interimQueued_def clean_def finals_def)

lemma same_async_write: "no_finals msg \<Longrightarrow> same_async c (writeResponse msg c)"
  by (simp add: same_async_def no_finals_filter)

lemma no_finals_set_credit: "no_finals msg \<Longrightarrow> no_finals (set_chain_credit msg)"
  by (cases msg) (auto simp: no_finals_def final_of_def)

lemma same_async_grant: "grantOnResponse resp c = (c', resp') \<Longrightarrow> same_async c c'"
  using grantOnResponse_async[of resp c c' resp'] by (simp add: same_async_def clean_def finals_def)

lemma same_async_send:
  assumes "\<forall>msg. chain = Some msg \<longrightarrow> no_finals msg"
  shows "same_async c (sendChain chain c)"
  using assms by (cases chain) (simp_all add: sendChain_def same_async_write)

lemma same_async_done: "chainMemberDone gid c = (c', chain) \<Longrightarrow> clean c \<Longrightarrow> same_async c c'"
  using chainMemberDone_async[of gid c c' chain] by (simp add: same_async_def)

lemma same_async_chain:
  assumes "chainMemberDone gid c = (c', chain)" "clean c"
  shows "same_async c (sendChain chain c')" "same_async c (sendChain (map_option set_chain_credit chain) c')"
proof -
  have "\<forall>msg. chain = Some msg \<longrightarrow> no_finals msg" using chainMemberDone_async(4)[OF assms] by blast
  then have "same_async c' (sendChain chain c')" "same_async c' (sendChain (map_option set_chain_credit chain) c')"
    using no_finals_set_credit by (intro same_async_send; force)+
  then show "same_async c (sendChain chain c')" "same_async c (sendChain (map_option set_chain_credit chain) c')"
    using same_async_done[OF assms] same_async_trans by blast+
qed

lemma same_async_join:
  assumes "clean c" "no_finals msg"
    and "chainMemberDone gid (c\<lparr>pendingResponses := (pendingResponses c)(gid \<mapsto> msg)\<rparr>) = (c', chain)"
  shows "same_async c (sendChain chain c')"
proof -
  let ?c = "c\<lparr>pendingResponses := (pendingResponses c)(gid \<mapsto> msg)\<rparr>"
  have "clean ?c" using assms(1,2) by (simp add: clean_def)
  moreover have "same_async c ?c" using assms(1,2) by (simp add: same_async_def clean_def finals_def)
  ultimately show ?thesis using same_async_chain(1)[OF assms(3)] same_async_trans by blast
qed

lemma answerRequest_async:
  assumes "clean c" "no_finals [resp]"
  shows "same_async c (answerRequest req resp c)"
proof -
  obtain c1 resp1 where g: "grantOnResponse resp c = (c1, resp1)" by force
  have nf: "no_finals [resp1]" using grantOnResponse_async(5)[OF g] assms(2) by (simp add: no_finals_def)
  note s1 = same_async_grant[OF g]
  then have cl1: "clean c1" using assms(1) by (simp add: same_async_def)
  let ?gid = "rs_group resp1"
  let ?msg = "case pendingResponses c1 ?gid of None \<Rightarrow> [] | Some m \<Rightarrow> m"
  obtain c2 chain2 where d2: "chainMemberDone ?gid c1 = (c2, chain2)" by force
  obtain c3 chain3 where
    d3: "chainMemberDone ?gid (c1\<lparr>pendingResponses := (pendingResponses c1)(?gid \<mapsto> ?msg @ [resp1])\<rparr>) = (c3, chain3)" by force
  have "no_finals (?msg @ [resp1])" using cl1 nf by (cases "pendingResponses c1 ?gid") (auto simp: clean_def no_finals_def)
  note j = same_async_join[OF cl1 this d3]
  define r where "r = (if rs_command resp1 = SMB2_CHANGE_NOTIFY then writeResponse [resp1] (sendChain (map_option set_chain_credit chain2) c2)
    else if ?gid = 0 then writeResponse [resp1] c1 else sendChain chain3 c3)"
  have "same_async c1 r"
    using same_async_trans[OF same_async_chain(2)[OF d2 cl1] same_async_write[OF nf]] same_async_write[OF nf] j
    by (simp add: r_def)
  moreover have "answerRequest req resp c = (if rs_status resp1 \<noteq> STATUS_PENDING
      then releaseOpen req (interimQueued (rs_mid resp1) r) else interimQueued (rs_mid resp1) r)"
    using g d2 d3 by (auto simp: answerRequest_def r_def Let_def word_neq_0_conv split: option.splits)
  ultimately show ?thesis using s1 same_async_trans same_async_interim(1) same_async_release by metis
qed

subsection \<open>Runs\<close>

text \<open>
  The IDs taken on so far, the ones whose work has claimed the answer and not sent it yet, and the
  connection. IDs are random, and a run in which no ID comes up twice is what is considered. A refused
  request is answered under the header of the request, which from a client carries no async ID.
\<close>

inductive async_run :: "u64 set \<Rightarrow> u64 set \<Rightarrow> connection \<Rightarrow> bool" where
  run_new: "async_run {} {} newConnectionState"
| run_take: "async_run T K c \<Longrightarrow> aid \<notin> T \<Longrightarrow> async_run (insert aid T) K (expectInterim (rq_mid req) (takeOn aid req c))"
| run_claim: "async_run T K c \<Longrightarrow> claimAnswer aid mid c = (c', True) \<Longrightarrow> async_run T (insert aid K) c'"
| run_lost: "async_run T K c \<Longrightarrow> claimAnswer aid mid c = (c', False) \<Longrightarrow> async_run T K (releaseOpen req c')"
| run_finish: "async_run T K c \<Longrightarrow> aid \<in> K \<Longrightarrow> awaitInterim (rq_mid req) c \<Longrightarrow> rs_status resp \<noteq> STATUS_PENDING \<Longrightarrow>
    async_run T (K - {aid}) (finishAsync aid req resp c)"
| run_cancel: "async_run T K c \<Longrightarrow> async_run T K (cancelTarget target c)"
| run_watches: "async_run T K c \<Longrightarrow> distinct (map fst found) \<Longrightarrow>
    set found = {(aid, r). asyncCommandList c aid = Some r \<and> watch_of oid r} \<Longrightarrow>
    async_run T K (completeWatches oid found c)"
| run_answer: "async_run T K c \<Longrightarrow> no_finals [resp] \<Longrightarrow> async_run T K (answerRequest req resp c)"
| run_accept: "async_run T K c \<Longrightarrow> \<not> is_cancel req \<Longrightarrow> \<not> rq_async req \<Longrightarrow> accept_one al he v ca req c = Inr c' \<Longrightarrow>
    async_run T K c'"
| run_close: "async_run T K c \<Longrightarrow> async_run T K (c\<lparr>closeChan := True\<rparr>)"

definition owed :: "u64 set \<Rightarrow> connection \<Rightarrow> u64 \<Rightarrow> nat" where
  "owed K c aid = (if asyncCommandList c aid \<noteq> None then 1 else 0) + (if aid \<in> K then 1 else 0)"

definition async_inv :: "u64 set \<Rightarrow> u64 set \<Rightarrow> connection \<Rightarrow> bool" where
  "async_inv T K c \<longleftrightarrow> clean c \<and> (\<forall>aid. finals aid c + owed K c aid \<le> 1)
     \<and> (\<forall>aid. aid \<notin> T \<longrightarrow> finals aid c + owed K c aid = 0)
     \<and> (\<not> closeChan c \<longrightarrow> (\<forall>aid \<in> T. finals aid c + owed K c aid = 1))"

lemma async_inv_same: "async_inv T K c \<Longrightarrow> same_async c c' \<Longrightarrow> async_inv T K c'"
  by (simp add: async_inv_def same_async_def owed_def)

lemma async_inv_closed: "async_inv T K c \<Longrightarrow> async_inv T K (c\<lparr>closeChan := True\<rparr>)"
  by (simp add: async_inv_def owed_def clean_def finals_def)

text \<open>The steps that change who owes an answer: each moves it from one holder to the next.\<close>

lemma async_inv_move:
  assumes "async_inv T K c" "closeChan c' = closeChan c" "clean c'"
    and "\<And>aid. finals aid c' + owed K' c' aid \<le> finals aid c + owed K c aid"
    and "\<And>aid. \<not> closeChan c \<Longrightarrow> finals aid c' + owed K' c' aid = finals aid c + owed K c aid"
  shows "async_inv T K' c'"
  using assms unfolding async_inv_def by (metis le_trans le_zero_eq)

lemma async_inv_take:
  assumes "async_inv T K c" "aid \<notin> T"
  shows "async_inv (insert aid T) K (takeOn aid req c)"
proof -
  have "finals aid c + owed K c aid = 0" using assms by (simp add: async_inv_def)
  then have "finals a (takeOn aid req c) + owed K (takeOn aid req c) a = (if a = aid then 1 else finals a c + owed K c a)" for a
    by (auto simp: owed_def takeOn_def finals_def)
  moreover have "closeChan (takeOn aid req c) = closeChan c" "clean (takeOn aid req c) = clean c"
    by (simp_all add: takeOn_def clean_def)
  ultimately show ?thesis using assms by (simp add: async_inv_def)
qed

lemma claimAnswer_frame:
  assumes "claimAnswer aid mid c = (c', ok)"
  shows "closeChan c' = closeChan c" "clean c' = clean c" "finals a c' = finals a c"
    "ok \<longleftrightarrow> asyncCommandList c aid \<noteq> None" "asyncCommandList c' = (asyncCommandList c)(aid := None)"
  using assms by (auto simp: claimAnswer_def Let_def clean_def finals_def fun_upd_idem split: option.splits)

lemma async_inv_claim:
  assumes "async_inv T K c" "claimAnswer aid mid c = (c', True)"
  shows "async_inv T (insert aid K) c'"
proof (rule async_inv_move[OF assms(1)])
  note f = claimAnswer_frame[OF assms(2)]
  have "finals aid c + owed K c aid \<le> 1" using assms(1) by (simp add: async_inv_def)
  then have "aid \<notin> K" using f(4) by (auto simp: owed_def)
  then show "finals a c' + owed (insert aid K) c' a \<le> finals a c + owed K c a" for a
    using f by (auto simp: owed_def)
  show "finals a c' + owed (insert aid K) c' a = finals a c + owed K c a" for a
    using f \<open>aid \<notin> K\<close> by (auto simp: owed_def)
qed (use assms claimAnswer_frame[OF assms(2)] in \<open>auto simp: async_inv_def\<close>)

lemma async_inv_lost: "async_inv T K c \<Longrightarrow> claimAnswer aid mid c = (c', False) \<Longrightarrow> async_inv T K c'"
  using claimAnswer_frame[of aid mid c c' False] by (auto simp: async_inv_def owed_def fun_upd_idem)

lemma finals_finishAsync:
  assumes "rs_status resp \<noteq> STATUS_PENDING"
  shows "finals a (finishAsync aid req resp c) = finals a c + (if \<not> closeChan c \<and> a = aid then 1 else 0)"
    "asyncCommandList (finishAsync aid req resp c) = asyncCommandList c"
    "closeChan (finishAsync aid req resp c) = closeChan c" "clean (finishAsync aid req resp c) = clean c"
  using assms
  by (auto simp: finishAsync_def finals_trySendResponse finalAsync_def final_of_def finals_def[of _ "c\<lparr>stopChans := _\<rparr>"]
      finals_def[of _ c] clean_def)

lemma async_inv_finish:
  assumes "async_inv T K c" "aid \<in> K" "rs_status resp \<noteq> STATUS_PENDING"
  shows "async_inv T (K - {aid}) (finishAsync aid req resp c)"
  by (rule async_inv_move[OF assms(1)])
    (use assms in \<open>auto simp: finals_finishAsync owed_def async_inv_def\<close>)

lemma cancel_sync:
  assumes "\<not> rq_async target"
  shows "same_async c (cancelTarget target c)"
proof -
  obtain c1 resp where g: "grantOnResponse (NewErrorResponse target STATUS_CANCELLED) c = (c1, resp)" by force
  define c2 where "c2 = (if rq_cancelID target \<in> stopChans c1 then c1\<lparr>stopChans := stopChans c1 - {rq_cancelID target},
    stopped := insert (rq_cancelID target) (stopped c1)\<rparr> else c1)"
  have "no_finals [resp]" using grantOnResponse_async(5)[OF g] assms
    by (simp add: no_finals_def final_of_def NewErrorResponse_def)
  moreover have "same_async c1 c2" by (simp add: c2_def same_async_def clean_def finals_def)
  moreover have "cancelTarget target c = writeResponse [resp] (releaseOpen target c2)"
    using g assms by (simp add: cancelTarget_def c2_def Let_def)
  ultimately show ?thesis
    using same_async_trans[OF same_async_trans[OF same_async_trans[OF same_async_grant[OF g]] same_async_release]
      same_async_write] by simp
qed

lemma cancel_async:
  assumes "rq_async target"
  shows "asyncCommandList (cancelTarget target c) = (asyncCommandList c)(rq_aid target := None)"
    "closeChan (cancelTarget target c) = closeChan c" "clean (cancelTarget target c) = clean c"
    "finals a (cancelTarget target c) =
       finals a c + (if asyncCommandList c (rq_aid target) \<noteq> None \<and> a = rq_aid target then 1 else 0)"
proof -
  let ?aid = "rq_aid target"
  let ?resp = "(NewErrorResponse target STATUS_CANCELLED)\<lparr>rs_credit := 0\<rparr>"
  let ?c1 = "c\<lparr>asyncCommandList := (asyncCommandList c)(?aid := None)\<rparr>"
  define c2 where "c2 = (if rq_cancelID target \<in> stopChans ?c1 then ?c1\<lparr>stopChans := stopChans ?c1 - {rq_cancelID target},
    stopped := insert (rq_cancelID target) (stopped ?c1)\<rparr> else ?c1)"
  have eq: "cancelTarget target c =
      (if asyncCommandList c ?aid = None then c else writeResponse [?resp] (releaseOpen target c2))"
    using assms by (simp add: cancelTarget_def c2_def Let_def)
  have fin: "final_of a ?resp \<longleftrightarrow> a = ?aid" for a
    using assms by (auto simp: final_of_def NewErrorResponse_def STATUS_CANCELLED_def STATUS_PENDING_def)
  have f2: "asyncCommandList c2 = (asyncCommandList c)(?aid := None)" "closeChan c2 = closeChan c"
    "clean c2 = clean c" "finals a c2 = finals a c" for a
    by (simp_all add: c2_def clean_def finals_def)
  show "asyncCommandList (cancelTarget target c) = (asyncCommandList c)(?aid := None)"
    "closeChan (cancelTarget target c) = closeChan c" "clean (cancelTarget target c) = clean c"
    using f2 by (auto simp: eq fun_upd_idem)
  show "finals a (cancelTarget target c) = finals a c + (if asyncCommandList c ?aid \<noteq> None \<and> a = ?aid then 1 else 0)"
    by (simp add: eq f2 fin)
qed

lemma async_inv_cancel:
  assumes "async_inv T K c"
  shows "async_inv T K (cancelTarget target c)"
proof (cases "rq_async target")
  case True
  show ?thesis
    by (rule async_inv_move[OF assms]) (use assms in \<open>auto simp: cancel_async[OF True] owed_def async_inv_def\<close>)
qed (use assms cancel_sync async_inv_same in blast)

lemma completeWatches_send_effect:
  "asyncCommandList (completeWatches_send found c) = asyncCommandList c"
  "closeChan (completeWatches_send found c) = closeChan c" "clean (completeWatches_send found c) = clean c"
  "distinct (map fst found) \<Longrightarrow> finals a (completeWatches_send found c) =
     finals a c + (if \<not> closeChan c \<and> a \<in> fst ` set found then 1 else 0)"
proof (induction found c rule: completeWatches_send.induct)
  case (2 aid r rs c)
  have f: "final_of a ((NewErrorResponse r STATUS_NOTIFY_CLEANUP)\<lparr>rs_aid := Some aid\<rparr>) \<longleftrightarrow> a = aid"
    by (auto simp: final_of_def NewErrorResponse_def STATUS_NOTIFY_CLEANUP_def STATUS_PENDING_def)
  note IH = 2
  { case 1 show ?case using IH by simp }
  { case 2 show ?case using IH by simp }
  { case 3 show ?case using IH by simp }
  { case 4 then show ?case using IH(4) f by (auto simp: finals_trySendResponse) }
qed simp_all

lemma async_inv_watches:
  assumes "async_inv T K c" "distinct (map fst found)"
    and "set found = {(aid, r). asyncCommandList c aid = Some r \<and> watch_of oid r}"
  shows "async_inv T K (completeWatches oid found c)"
proof -
  let ?l = "\<lambda>aid. case asyncCommandList c aid of Some r \<Rightarrow> (if watch_of oid r then None else Some r) | None \<Rightarrow> None"
  have c1: "closeChan (c\<lparr>asyncCommandList := ?l\<rparr>) = closeChan c" "clean (c\<lparr>asyncCommandList := ?l\<rparr>) = clean c"
    "finals a (c\<lparr>asyncCommandList := ?l\<rparr>) = finals a c" for a
    by (simp_all add: clean_def finals_def)
  have e: "completeWatches oid found c = completeWatches_send found (c\<lparr>asyncCommandList := ?l\<rparr>)"
    by (simp add: completeWatches_def)
  have "a \<in> fst ` set found \<longleftrightarrow> (\<exists>r. asyncCommandList c a = Some r \<and> watch_of oid r)" for a
    using assms(3) by force
  then have o: "(if a \<in> fst ` set found then 1 else 0) + owed K (completeWatches oid found c) a = owed K c a" for a
    by (auto simp: owed_def e completeWatches_send_effect(1) split: option.splits)
  show ?thesis
  proof (rule async_inv_move[OF assms(1)])
    show "finals a (completeWatches oid found c) + owed K (completeWatches oid found c) a \<le> finals a c + owed K c a" for a
      using o[of a] by (auto simp: e completeWatches_send_effect(4)[OF assms(2)] c1 split: if_splits)
    show "finals a (completeWatches oid found c) + owed K (completeWatches oid found c) a = finals a c + owed K c a"
      if "\<not> closeChan c" for a
      using o[of a] that by (simp add: e completeWatches_send_effect(4)[OF assms(2)] c1)
  qed (use assms(1) in \<open>simp_all add: e completeWatches_send_effect c1 async_inv_def\<close>)
qed

lemma same_async_accept:
  assumes "accept_one al he v ca req c = Inr c'" "\<not> is_cancel req" "\<not> rq_async req" "clean c"
  shows "same_async c c'"
proof -
  obtain c1 mid where c1: "same_async c c1" "acceptInWindow mid req v c1 = Inr c'"
  proof (cases "rq_isSmb req")
    case True
    let ?c1 = "c\<lparr>commandSequenceWindow := fst (grantCredits 0 1 1 (commandSequenceWindow c))\<rparr>"
    have "same_async c ?c1" by (simp add: same_async_def clean_def finals_def)
    then show thesis using that[of ?c1 0] assms(1) True by (auto simp: accept_one_def split: if_splits)
  next
    case False
    have "same_async c (grantFor req c)"
      by (auto simp: grantFor_def Let_def same_async_def clean_def finals_def split: prod.splits)
    then show thesis
      using that[of "grantFor req c" "rq_mid req"] assms(1,2) False by (auto simp: accept_one_def is_cancel_def split: if_splits)
  qed
  have nf: "no_finals [NewErrorResponse req st]" for st
    using assms(3) by (simp add: no_finals_def final_of_def NewErrorResponse_def)
  obtain W where "retireMessageID mid (rq_charge req) c1 = Some W" using acceptInWindow_window(2)[OF c1(2)] by blast
  moreover have "same_async c1 (c1\<lparr>commandSequenceWindow := W\<rparr>)" "same_async c1 (c1\<lparr>commandSequenceWindow := W, requestList := l\<rparr>)" for W l
    by (simp_all add: same_async_def clean_def finals_def)
  moreover have "same_async c1 (sendChain chain c3)"
    if d: "chainMemberDone gid (writeResponse [NewErrorResponse req st] (c1\<lparr>commandSequenceWindow := W\<rparr>)) = (c3, chain)" for gid st c3 chain W
  proof -
    let ?c = "writeResponse [NewErrorResponse req st] (c1\<lparr>commandSequenceWindow := W\<rparr>)"
    have w: "same_async c1 ?c" by (rule same_async_trans[OF calculation(2) same_async_write[OF nf]])
    then have "clean ?c" using c1(1) assms(4) by (simp add: same_async_def)
    from same_async_trans[OF w same_async_chain(1)[OF d this]] show ?thesis .
  qed
  ultimately have "same_async c1 c'"
    using c1(2) by (auto simp: acceptInWindow_def Let_def split: if_splits prod.splits)
  with c1(1) show ?thesis by (rule same_async_trans)
qed

lemma async_run_inv: "async_run T K c \<Longrightarrow> async_inv T K c"
proof (induction rule: async_run.induct)
  case run_new
  show ?case by (simp add: async_inv_def newConnectionState_def owed_def finals_def clean_def)
next
  case (run_take T K c aid req)
  then show ?case using async_inv_take async_inv_same same_async_interim(2) by blast
next
  case (run_lost T K c aid mid c' req)
  then show ?case using async_inv_lost async_inv_same same_async_release by blast
next
  case (run_answer T K c resp req)
  then have "clean c" by (simp add: async_inv_def)
  then show ?case by (rule async_inv_same[OF run_answer.IH answerRequest_async[OF _ run_answer.hyps(2)]])
next
  case (run_accept T K c req al he v ca c')
  then have "same_async c c'" by (intro same_async_accept) (simp_all add: async_inv_def)
  then show ?case by (rule async_inv_same[OF run_accept.IH])
qed (simp_all add: async_inv_claim async_inv_finish async_inv_cancel async_inv_watches async_inv_closed)

text \<open>C4 (answered_exactly_once). Whatever the work behind asynchronous requests, cancels, closes and the dispatcher do
  and in whatever order, no asynchronous request is ever sent two final responses, and as long as the
  connection is open every one that has been taken on is either still owed its answer - in the list, or
  claimed by its work - or has been sent exactly one.\<close>

theorem answered_exactly_once:
  assumes "async_run T K c" "aid \<in> T"
  shows "finals aid c \<le> 1 \<and>
    (\<not> closeChan c \<longrightarrow> (finals aid c = 1 \<longleftrightarrow> asyncCommandList c aid = None \<and> aid \<notin> K))"
proof -
  have "finals aid c + owed K c aid \<le> 1" "\<not> closeChan c \<Longrightarrow> finals aid c + owed K c aid = 1"
    using async_run_inv[OF assms(1)] assms(2) by (simp_all add: async_inv_def)
  then show ?thesis by (auto simp: owed_def split: if_splits)
qed

definition sample_watch :: request where
  "sample_watch = (sample_request 5 1)\<lparr>rq_command := SMB2_CHANGE_NOTIFY, rq_openID := [1]\<rparr>"

theorem answered_exactly_once_witness:
  "\<exists>c. async_run {7} {} c \<and> \<not> closeChan c \<and> finals 7 c = 1"
proof -
  let ?c = "cancelTarget (sample_watch\<lparr>rq_aid := 7, rq_async := True\<rparr>) (expectInterim (rq_mid sample_watch) (takeOn 7 sample_watch newConnectionState))"
  have r: "async_run {7} {} ?c" by (rule run_cancel[OF run_take[OF run_new]]) simp
  have o: "\<not> closeChan ?c" "asyncCommandList ?c 7 = None"
    by (simp_all add: cancel_async expectInterim_def takeOn_def newConnectionState_def)
  have "finals 7 ?c = 1" using answered_exactly_once[OF r, of 7] o by simp
  then show ?thesis using r o(1) by blast
qed

subsection \<open>Compound chains\<close>

text \<open>
  What becomes of a member of a chain: the dispatcher answers it, or it never gets that far - a cancel, or a
  request refused for its signature.
\<close>

datatype member = Answered request response | Dropped

fun deal :: "u64 \<Rightarrow> member \<Rightarrow> connection \<Rightarrow> connection" where
  "deal gid (Answered req resp) c = answerRequest req resp c"
| "deal gid Dropped c = (let (c, chain) = chainMemberDone gid c in sendChain chain c)"

fun answers :: "member list \<Rightarrow> response list" where
  "answers [] = []"
| "answers (Answered req resp # ms) = resp # answers ms"
| "answers (Dropped # ms) = answers ms"

definition joins :: "u64 \<Rightarrow> member \<Rightarrow> bool" where
  "joins gid mb \<longleftrightarrow> (case mb of Answered req resp \<Rightarrow> rs_group resp = gid \<and> rs_command resp \<noteq> SMB2_CHANGE_NOTIFY | Dropped \<Rightarrow> True)"

text \<open>Responses up to the credits they carry, which are settled as they are sent.\<close>

definition uncredited :: "response list \<Rightarrow> response list" where
  "uncredited = map (\<lambda>r. r\<lparr>rs_credit := 0\<rparr>)"

definition assembled :: "response list \<Rightarrow> response list option" where
  "assembled msg = (if msg = [] then None else Some msg)"

definition waiting :: "u64 \<Rightarrow> nat \<Rightarrow> response list \<Rightarrow> connection \<Rightarrow> bool" where
  "waiting gid n msg c \<longleftrightarrow> chainRemaining c gid = (if n = 0 then None else Some (int n))
     \<and> pendingResponses c gid = (if n = 0 then None else assembled msg)"

lemma releaseOpen_chain [simp]:
  "chainRemaining (releaseOpen req c) = chainRemaining c" "sent (releaseOpen req c) = sent c"
  by (auto simp: releaseOpen_def Let_def split: option.splits)

lemma waiting_releaseOpen [simp]: "waiting gid n msg (releaseOpen req c) = waiting gid n msg c"
  by (simp add: waiting_def)

lemma waiting_interimQueued [simp]:
  "waiting gid n msg (interimQueued mid c) = waiting gid n msg c" "sent (interimQueued mid c) = sent c"
  by (simp_all add: waiting_def interimQueued_def)

lemma chainMemberDone_more:
  "gid \<noteq> 0 \<Longrightarrow> chainRemaining c gid = Some (int (Suc (Suc n))) \<Longrightarrow>
   chainMemberDone gid c = (c\<lparr>chainRemaining := (chainRemaining c)(gid \<mapsto> int (Suc n))\<rparr>, None)"
  by (simp add: chainMemberDone_def Let_def)

lemma chainMemberDone_last:
  "gid \<noteq> 0 \<Longrightarrow> chainRemaining c gid = Some (int (Suc 0)) \<Longrightarrow>
   chainMemberDone gid c = (c\<lparr>chainRemaining := (chainRemaining c)(gid := None),
     pendingResponses := (pendingResponses c)(gid := None)\<rparr>, pendingResponses c gid)"
  by (simp add: chainMemberDone_def Let_def)

lemma chain_step:
  assumes "gid \<noteq> 0" "chainRemaining c gid = Some (int (Suc n))" "pendingResponses c gid = assembled msg"
    and "chainMemberDone gid c = (c', chain)"
  shows "waiting gid n msg (sendChain chain c') \<and>
    sent (sendChain chain c') = (if n = 0 \<and> msg \<noteq> [] then sent c @ [msg] else sent c)"
proof (cases n)
  case 0
  then have "chain = assembled msg" "c' = c\<lparr>chainRemaining := (chainRemaining c)(gid := None),
     pendingResponses := (pendingResponses c)(gid := None)\<rparr>"
    using assms chainMemberDone_last[of gid c] by simp_all
  with 0 show ?thesis
    by (cases "msg = []") (simp_all add: waiting_def sendChain_def assembled_def writeResponse_def)
next
  case (Suc k)
  then show ?thesis using assms chainMemberDone_more[of gid c k]
    by (auto simp: waiting_def sendChain_def)
qed

lemma grantOnResponse_uncredited:
  "grantOnResponse resp c = (c', resp') \<Longrightarrow> resp'\<lparr>rs_credit := 0\<rparr> = resp\<lparr>rs_credit := 0\<rparr>"
  "grantOnResponse resp c = (c', resp') \<Longrightarrow> chainRemaining c' = chainRemaining c"
  by (auto simp: grantOnResponse_def split: if_splits option.splits)

lemma deal_step:
  assumes "gid \<noteq> 0" "joins gid mb" "waiting gid (Suc n) msg c"
  obtains msg' where "waiting gid n msg' (deal gid mb c)" "uncredited msg' = uncredited msg @ uncredited (answers [mb])"
    "sent (deal gid mb c) = (if n = 0 \<and> msg' \<noteq> [] then sent c @ [msg'] else sent c)"
proof (cases mb)
  case Dropped
  obtain c' chain where d: "chainMemberDone gid c = (c', chain)" by force
  show thesis using that[of msg] chain_step[OF assms(1) _ _ d] assms(3) d Dropped
    by (simp add: waiting_def uncredited_def)
next
  case (Answered req resp)
  obtain c1 resp1 where g: "grantOnResponse resp c = (c1, resp1)" by force
  have fit: "rs_group resp1 = gid" "rs_command resp1 \<noteq> SMB2_CHANGE_NOTIFY"
    using grantOnResponse_async[OF g] assms(2) Answered by (simp_all add: joins_def)
  let ?c2 = "c1\<lparr>pendingResponses := (pendingResponses c1)(gid \<mapsto> msg @ [resp1])\<rparr>"
  obtain c' chain where d: "chainMemberDone gid ?c2 = (c', chain)" by force
  have p: "pendingResponses c1 gid = assembled msg" using assms(3) grantOnResponse_async(2)[OF g] by (simp add: waiting_def)
  have "chainRemaining ?c2 gid = Some (int (Suc n))"
    using assms(3) grantOnResponse_uncredited(2)[OF g] by (simp add: waiting_def)
  note st = chain_step[OF assms(1) this _ d, of "msg @ [resp1]"]
  have eq: "deal gid mb c = (if rs_status resp1 \<noteq> STATUS_PENDING
      then releaseOpen req (interimQueued (rs_mid resp1) (sendChain chain c')) else interimQueued (rs_mid resp1) (sendChain chain c'))"
    using Answered g fit p d assms(1)
    by (cases "msg = []") (simp_all add: answerRequest_def Let_def assembled_def word_neq_0_conv)
  have "uncredited [resp1] = uncredited [resp]" using grantOnResponse_uncredited(1)[OF g] by (simp add: uncredited_def)
  moreover have "answers [mb] = [resp]" using Answered by simp
  ultimately show thesis using that[of "msg @ [resp1]"] st grantOnResponse_async(4)[OF g]
    by (simp add: eq assembled_def uncredited_def)
qed

lemma chain_dealt:
  assumes "gid \<noteq> 0" "\<forall>mb \<in> set ms. joins gid mb" "waiting gid (length ms) msg c" "ms \<noteq> []"
  shows "\<exists>msg'. uncredited msg' = uncredited msg @ uncredited (answers ms) \<and> waiting gid 0 msg' (fold (deal gid) ms c)
    \<and> sent (fold (deal gid) ms c) = (if msg' = [] then sent c else sent c @ [msg'])"
  using assms(2-)
proof (induction ms arbitrary: msg c)
  case (Cons mb ms)
  have a: "answers (mb # ms) = answers [mb] @ answers ms" by (cases mb) simp_all
  obtain msg1 where m: "waiting gid (length ms) msg1 (deal gid mb c)" "uncredited msg1 = uncredited msg @ uncredited (answers [mb])"
    "sent (deal gid mb c) = (if length ms = 0 \<and> msg1 \<noteq> [] then sent c @ [msg1] else sent c)"
    using deal_step[OF assms(1), of mb "length ms" msg c] Cons.prems by auto
  show ?case
  proof (cases "ms = []")
    case True
    then show ?thesis using m by (intro exI[of _ msg1]) simp
  next
    case False
    then obtain msg' where "uncredited msg' = uncredited msg1 @ uncredited (answers ms)"
      "waiting gid 0 msg' (fold (deal gid) ms (deal gid mb c))"
      "sent (fold (deal gid) ms (deal gid mb c)) = (if msg' = [] then sent (deal gid mb c) else sent (deal gid mb c) @ [msg'])"
      using Cons.IH[OF _ m(1)] Cons.prems by auto
    then show ?thesis using m(2,3) a False by (intro exI[of _ msg']) (simp add: uncredited_def)
  qed
qed simp

lemma count_chain_group:
  assumes "\<forall>r \<in> set reqs. rq_group r = gid" "gid \<noteq> 0"
  shows "chainRemaining (count_chain reqs c) gid = (if reqs = [] then chainRemaining c gid
      else Some ((case chainRemaining c gid of None \<Rightarrow> 0 | Some n \<Rightarrow> n) + int (length reqs)))"
    "pendingResponses (count_chain reqs c) = pendingResponses c" "sent (count_chain reqs c) = sent c"
  using assms
  by (induction reqs c rule: count_chain.induct) (auto simp: word_neq_0_conv)

text \<open>However the members of a compound chain fare - answered by the dispatcher, cancelled or
  refused before they reach it - nothing of the chain goes out before its last member is dealt with, and
  then all the responses go out as one message in the order they were made, the members that were not answered
  left out. The chain is forgotten with it.\<close>

theorem chain_answered_whole:
  assumes "gid \<noteq> 0" "reqs \<noteq> []" "\<forall>r \<in> set reqs. rq_group r = gid" "length ms = length reqs"
    and "\<forall>mb \<in> set ms. joins gid mb" "chainRemaining c gid = None" "pendingResponses c gid = None"
  shows "\<exists>msg. uncredited msg = uncredited (answers ms)
    \<and> sent (fold (deal gid) ms (count_chain reqs c)) = sent c @ (if msg = [] then [] else [msg])
    \<and> chainRemaining (fold (deal gid) ms (count_chain reqs c)) gid = None
    \<and> pendingResponses (fold (deal gid) ms (count_chain reqs c)) gid = None"
proof -
  note cc = count_chain_group[OF assms(3,1)]
  have "waiting gid (length ms) [] (count_chain reqs c)"
    using assms(2,4,6,7) by (auto simp: waiting_def cc assembled_def)
  from chain_dealt[OF assms(1,5) this] assms(2,4) obtain msg where
    "uncredited msg = uncredited [] @ uncredited (answers ms)" "waiting gid 0 msg (fold (deal gid) ms (count_chain reqs c))"
    "sent (fold (deal gid) ms (count_chain reqs c)) = (if msg = [] then sent (count_chain reqs c) else sent (count_chain reqs c) @ [msg])"
    by force
  then show ?thesis by (intro exI[of _ msg]) (simp add: cc waiting_def uncredited_def)
qed

definition sample_answer :: "u64 \<Rightarrow> response" where
  "sample_answer mid = (NewErrorResponse (sample_request mid 1) STATUS_OK)\<lparr>rs_group := 9\<rparr>"

theorem chain_answered_whole_witness:
  "\<exists>msg. uncredited msg = uncredited [sample_answer 1, sample_answer 3]
    \<and> sent (fold (deal 9) [Answered (sample_request 1 1) (sample_answer 1), Dropped, Answered (sample_request 3 1) (sample_answer 3)]
        (count_chain [(sample_request 1 1)\<lparr>rq_group := 9\<rparr>, (sample_request 2 1)\<lparr>rq_group := 9\<rparr>, (sample_request 3 1)\<lparr>rq_group := 9\<rparr>]
          newConnectionState)) = [msg]"
  using chain_answered_whole[of 9 "[(sample_request 1 1)\<lparr>rq_group := 9\<rparr>, (sample_request 2 1)\<lparr>rq_group := 9\<rparr>, (sample_request 3 1)\<lparr>rq_group := 9\<rparr>]"
      "[Answered (sample_request 1 1) (sample_answer 1), Dropped, Answered (sample_request 3 1) (sample_answer 3)]" newConnectionState]
  by (auto simp: joins_def sample_answer_def NewErrorResponse_def sample_request_def SMB2_CHANGE_NOTIFY_def newConnectionState_def
      uncredited_def)

subsection \<open>What a cancel overtakes\<close>

text \<open>The work behind an asynchronous request waits for the interim response to be queued
  before it answers, but a cancel does not: one that arrives while the dispatcher is still about to queue the
  interim response puts the final answer on the wire first and the interim response after it, for the same
  message and async ID.\<close>

theorem cancel_overtakes_interim:
  assumes "rq_group req = 0"
  shows "\<exists>final interim. sent (answerRequest req (NewErrorResponse (req\<lparr>rq_aid := aid, rq_async := True\<rparr>) STATUS_PENDING)
      (cancelTarget (req\<lparr>rq_aid := aid, rq_async := True\<rparr>) (expectInterim (rq_mid req) (takeOn aid req c))))
        = sent c @ [[final], [interim]]
    \<and> rs_status final = STATUS_CANCELLED \<and> rs_status interim = STATUS_PENDING
    \<and> rs_aid final = Some aid \<and> rs_aid interim = Some aid \<and> rs_mid final = rs_mid interim"
proof -
  let ?r = "req\<lparr>rq_aid := aid, rq_async := True\<rparr>"
  let ?f = "(NewErrorResponse ?r STATUS_CANCELLED)\<lparr>rs_credit := 0\<rparr>"
  define c1 where "c1 = expectInterim (rq_mid req) (takeOn aid req c)"
  have s: "sent (cancelTarget ?r c1) = sent c @ [[?f]]"
    by (simp add: cancelTarget_def c1_def expectInterim_def takeOn_def Let_def writeResponse_def)
  obtain c2 i where g: "grantOnResponse (NewErrorResponse ?r STATUS_PENDING) (cancelTarget ?r c1) = (c2, i)" by force
  note gi = grantOnResponse_async[OF g] grantOnResponse_uncredited(1)[OF g]
  have i: "rs_group i = 0" "rs_status i = STATUS_PENDING" "rs_mid i = rq_mid req"
    using gi assms by (simp_all add: NewErrorResponse_def)
  have "rs_aid i = rs_aid (i\<lparr>rs_credit := 0\<rparr>)" by simp
  then have ia: "rs_aid i = Some aid" using gi(10) by (simp add: NewErrorResponse_def)
  have "sent (answerRequest req (NewErrorResponse ?r STATUS_PENDING) (cancelTarget ?r c1)) = sent c2 @ [[i]]"
    using g i by (simp add: answerRequest_def Let_def chainMemberDone_def sendChain_def writeResponse_def interimQueued_def)
  then show ?thesis using s gi(4) i ia
    by (intro exI[of _ ?f] exI[of _ i]) (simp add: c1_def[symmetric] NewErrorResponse_def)
qed

theorem cancel_overtakes_interim_witness:
  "\<exists>final interim. sent (answerRequest sample_watch (NewErrorResponse (sample_watch\<lparr>rq_aid := 7, rq_async := True\<rparr>) STATUS_PENDING)
      (cancelTarget (sample_watch\<lparr>rq_aid := 7, rq_async := True\<rparr>) (expectInterim (rq_mid sample_watch) (takeOn 7 sample_watch newConnectionState))))
        = [[final], [interim]] \<and> rs_status interim = STATUS_PENDING"
  using cancel_overtakes_interim[of sample_watch 7 newConnectionState]
  by (auto simp: sample_watch_def sample_request_def newConnectionState_def)

end
