(* ===== verification/Send_Queue.thy ===== *)
theory Send_Queue
  imports Requests
begin

section \<open>The send queue\<close>

text \<open>
  \<^verbatim>\<open>src/sendqueue.go\<close>: the outgoing messages of a connection in two lanes, and the goroutine that delivers them.
  Pushing appends under the lock and signals afterwards; the goroutine looks, and waits for the signal when
  there is nothing. A step below is one of those pieces, in any order. The specification keeps only what was
  pushed and what was delivered: whatever the pieces do refines it.
\<close>

subsection \<open>The queue\<close>

record 'm sendQueue =
  control :: "'m list"
  bulk :: "'m list"
  ready :: bool

definition newSendQueue :: "'m sendQueue" where
  "newSendQueue = \<lparr>control = [], bulk = [], ready = False\<rparr>"

text \<open>The two halves of \<^verbatim>\<open>push\<close>: what it does under the lock, and the signal.\<close>

definition push_append :: "'m \<Rightarrow> bool \<Rightarrow> 'm sendQueue \<Rightarrow> 'm sendQueue" where
  "push_append msg isBulk q = (if isBulk then q\<lparr>bulk := bulk q @ [msg]\<rparr> else q\<lparr>control := control q @ [msg]\<rparr>)"

definition push_signal :: "'m sendQueue \<Rightarrow> 'm sendQueue" where
  "push_signal q = q\<lparr>ready := True\<rparr>"

definition push :: "'m \<Rightarrow> bool \<Rightarrow> 'm sendQueue \<Rightarrow> 'm sendQueue" where
  "push msg isBulk q = push_signal (push_append msg isBulk q)"

text \<open>The first message of the first lane that has one, and the lanes without it.\<close>

fun popFront :: "'m list list \<Rightarrow> 'm list list \<times> 'm option" where
  "popFront [] = ([], None)"
| "popFront ([] # lanes) = (case popFront lanes of (lanes', m) \<Rightarrow> ([] # lanes', m))"
| "popFront ((msg # lane) # lanes) = (lane # lanes, Some msg)"

definition pop :: "'m sendQueue \<Rightarrow> 'm sendQueue \<times> 'm option" where
  "pop q = (case popFront [control q, bulk q] of
      (lanes, m) \<Rightarrow> (q\<lparr>control := lanes ! 0, bulk := lanes ! 1\<rparr>, m))"

definition carriesFileData :: "response \<Rightarrow> bool" where
  "carriesFileData resp \<longleftrightarrow> rs_command resp = SMB2_READ \<and> rs_status resp = STATUS_OK"

lemma pop_eq:
  "pop q = (case control q of
      msg # lane \<Rightarrow> (q\<lparr>control := lane\<rparr>, Some msg)
    | [] \<Rightarrow> (case bulk q of msg # lane \<Rightarrow> (q\<lparr>bulk := lane\<rparr>, Some msg) | [] \<Rightarrow> (q, None)))"
  by (cases q; cases "control q"; cases "bulk q") (simp_all add: pop_def)

lemma pop_none: "snd (pop q) = None \<longleftrightarrow> control q = [] \<and> bulk q = []"
  by (simp add: pop_eq split: list.splits)

subsection \<open>The goroutine\<close>

text \<open>Where \<^verbatim>\<open>drainSendQueue\<close> is: looking at the queue, waiting for a signal, or back out.\<close>

datatype sender = Looking | Waiting | Stopped

text \<open>
  The state of a run: the queue, the goroutine, how many pushes have still to signal, whether the connection
  has closed, and everything pushed and delivered, with the lane.
\<close>

record 'm sending =
  queue :: "'m sendQueue"
  at :: sender
  signals :: nat
  closed :: bool
  pushed :: "(bool \<times> 'm) list"
  delivered :: "(bool \<times> 'm) list"

definition sending0 :: "'m sending" where
  "sending0 = \<lparr>queue = newSendQueue, at = Looking, signals = 0, closed = False, pushed = [], delivered = []\<rparr>"

text \<open>One turn of the loop of \<^verbatim>\<open>drainSendQueue\<close> from the look at the queue on; \<open>ok\<close> is what \<^verbatim>\<open>deliver\<close> says.\<close>

definition drainSendQueue_look :: "bool \<Rightarrow> 'm sending \<Rightarrow> 'm sending" where
  "drainSendQueue_look ok s =
     (case pop (queue s) of
        (q, Some msg) \<Rightarrow> (let s1 = s\<lparr>queue := q, delivered := delivered s @ [(control (queue s) = [], msg)]\<rparr>
                          in if ok then s1 else s1\<lparr>at := Stopped\<rparr>)
      | (q, None) \<Rightarrow> s\<lparr>queue := q, at := Waiting\<rparr>)"

inductive send_step :: "'m sending \<Rightarrow> 'm sending \<Rightarrow> bool" where
  step_append: "send_step s (s\<lparr>queue := push_append msg b (queue s), signals := signals s + 1, pushed := pushed s @ [(b, msg)]\<rparr>)"
| step_signal: "signals s > 0 \<Longrightarrow> send_step s (s\<lparr>queue := push_signal (queue s), signals := signals s - 1\<rparr>)"
| step_look: "at s = Looking \<Longrightarrow> send_step s (drainSendQueue_look ok s)"
| step_wake: "at s = Waiting \<Longrightarrow> ready (queue s) \<Longrightarrow> send_step s (s\<lparr>queue := (queue s)\<lparr>ready := False\<rparr>, at := Looking\<rparr>)"
| step_stop: "at s = Waiting \<Longrightarrow> closed s \<Longrightarrow> send_step s (s\<lparr>at := Stopped\<rparr>)"
| step_close: "send_step s (s\<lparr>closed := True\<rparr>)"

inductive_cases send_stepE: "send_step s s'"

definition send_run :: "'m sending \<Rightarrow> bool" where
  "send_run s \<longleftrightarrow> send_step\<^sup>*\<^sup>* sending0 s"

subsection \<open>The specification\<close>

text \<open>
  What was pushed and what was delivered. A message is delivered when it is the next of its lane, and from
  the lane of file data only when nothing else is left.
\<close>

record 'm sendSpec =
  taken :: "(bool \<times> 'm) list"
  out :: "(bool \<times> 'm) list"

definition lane :: "bool \<Rightarrow> (bool \<times> 'm) list \<Rightarrow> 'm list" where
  "lane b xs = map snd (filter (\<lambda>(b', _). b' = b) xs)"

definition left :: "bool \<Rightarrow> 'm sendSpec \<Rightarrow> 'm list" where
  "left b s = drop (length (lane b (out s))) (lane b (taken s))"

inductive spec_step :: "'m sendSpec \<Rightarrow> 'm sendSpec \<Rightarrow> bool" where
  spec_take: "spec_step s (s\<lparr>taken := taken s @ [(b, msg)]\<rparr>)"
| spec_small: "left False s = msg # rest \<Longrightarrow> spec_step s (s\<lparr>out := out s @ [(False, msg)]\<rparr>)"
| spec_data: "left False s = [] \<Longrightarrow> left True s = msg # rest \<Longrightarrow> spec_step s (s\<lparr>out := out s @ [(True, msg)]\<rparr>)"

definition abstract :: "'m sending \<Rightarrow> 'm sendSpec" where
  "abstract s = \<lparr>taken = pushed s, out = delivered s\<rparr>"

lemma lane_append [simp]: "lane b (xs @ ys) = lane b xs @ lane b ys"
  by (simp add: lane_def)

lemma lane_Cons [simp]: "lane b ((b', m) # xs) = (if b' = b then m # lane b xs else lane b xs)"
  by (simp add: lane_def)

lemma lane_Nil [simp]: "lane b [] = []"
  by (simp add: lane_def)

subsection \<open>The refinement\<close>

definition send_inv :: "'m sending \<Rightarrow> bool" where
  "send_inv s \<longleftrightarrow> lane False (pushed s) = lane False (delivered s) @ control (queue s)
     \<and> lane True (pushed s) = lane True (delivered s) @ bulk (queue s)
     \<and> (at s = Waiting \<and> \<not> ready (queue s) \<and> signals s = 0 \<longrightarrow> control (queue s) = [] \<and> bulk (queue s) = [])"

lemma push_append_lanes [simp]:
  "control (push_append msg b q) = (if b then control q else control q @ [msg])"
  "bulk (push_append msg b q) = (if b then bulk q @ [msg] else bulk q)"
  "ready (push_append msg b q) = ready q"
  by (simp_all add: push_append_def)

lemma push_signal_lanes [simp]:
  "control (push_signal q) = control q" "bulk (push_signal q) = bulk q" "ready (push_signal q)"
  by (simp_all add: push_signal_def)

lemma look_inv: "send_inv s \<Longrightarrow> send_inv (drainSendQueue_look ok s)"
  by (auto simp: send_inv_def drainSendQueue_look_def pop_eq Let_def split: list.splits)

lemma send_step_inv: "send_step s s' \<Longrightarrow> send_inv s \<Longrightarrow> send_inv s'"
  by (erule send_stepE) (auto simp: look_inv, auto simp: send_inv_def)

lemma send_run_inv: "send_run s \<Longrightarrow> send_inv s"
  unfolding send_run_def
  by (induction rule: rtranclp_induct)
    (auto simp: send_step_inv, simp add: send_inv_def sending0_def newSendQueue_def)

lemma left_abstract:
  assumes "send_inv s"
  shows "left False (abstract s) = control (queue s)" "left True (abstract s) = bulk (queue s)"
  using assms by (simp_all add: left_def abstract_def send_inv_def)

lemma look_refines:
  assumes "send_inv s"
  shows "abstract (drainSendQueue_look ok s) = abstract s \<or> spec_step (abstract s) (abstract (drainSendQueue_look ok s))"
proof (cases "control (queue s)")
  case (Cons msg rest)
  have "left False (abstract s) = msg # rest" using left_abstract[OF assms] Cons by simp
  from spec_small[OF this] Cons show ?thesis
    by (auto simp: drainSendQueue_look_def pop_eq Let_def abstract_def)
next
  case Nil
  show ?thesis
  proof (cases "bulk (queue s)")
    case (Cons msg rest)
    have "left False (abstract s) = []" "left True (abstract s) = msg # rest"
      using left_abstract[OF assms] Cons Nil by simp_all
    from spec_data[OF this] Cons Nil show ?thesis
      by (auto simp: drainSendQueue_look_def pop_eq Let_def abstract_def)
  qed (simp add: Nil drainSendQueue_look_def pop_eq abstract_def)
qed

text \<open>C25 (send_queue_refines). In every run of pushes, signals and the delivering goroutine, each step is one of the
  specification or one that it does not see: a message pushed is delivered at most once and never lost, the
  messages of a lane go out in the order they were pushed, and file data goes out only when no other message is
  waiting.\<close>

theorem send_queue_refines:
  assumes "send_run s" "send_step s s'"
  shows "abstract s' = abstract s \<or> spec_step (abstract s) (abstract s')"
  using assms(2)
proof cases
  case (step_append b msg)
  have "abstract s' = (abstract s)\<lparr>taken := taken (abstract s) @ [(b, msg)]\<rparr>"
    using step_append by (simp add: abstract_def)
  then show ?thesis by (metis spec_take)
next
  case (step_look ok)
  then show ?thesis using look_refines[OF send_run_inv[OF assms(1)]] by simp
qed (simp_all add: abstract_def)

definition sample_push :: "byte list sending" where
  "sample_push = (let s = sending0 in
     s\<lparr>queue := push_append [1] True (queue s), signals := signals s + 1, pushed := pushed s @ [(True, [1])]\<rparr>)"

lemma sample_push_run: "send_run sample_push"
  unfolding send_run_def sample_push_def Let_def by (rule r_into_rtranclp) (rule step_append)

theorem send_queue_refines_witness:
  "abstract (drainSendQueue_look True sample_push) = abstract sample_push
     \<or> spec_step (abstract sample_push) (abstract (drainSendQueue_look True sample_push))"
  by (rule send_queue_refines[OF sample_push_run step_look]) (simp add: sample_push_def sending0_def Let_def)

subsection \<open>No message is left behind\<close>

lemma look_delivers:
  assumes "at s = Looking" "send_inv s"
  shows "\<exists>s'. send_step\<^sup>*\<^sup>* s s' \<and> pushed s' = pushed s \<and> (\<forall>b. lane b (delivered s') = lane b (pushed s))"
  using assms
proof (induction "length (control (queue s)) + length (bulk (queue s))" arbitrary: s)
  case 0
  then have "lane b (delivered s) = lane b (pushed s)" for b by (cases b) (simp_all add: send_inv_def)
  then show ?case by blast
next
  case (Suc n)
  let ?s = "drainSendQueue_look True s"
  have s1: "length (control (queue ?s)) + length (bulk (queue ?s)) = n" "at ?s = Looking" "pushed ?s = pushed s"
    using Suc.hyps(2) Suc.prems(1) by (auto simp: drainSendQueue_look_def pop_eq Let_def split: list.splits)
  obtain s' where "send_step\<^sup>*\<^sup>* ?s s'" "pushed s' = pushed ?s" "\<forall>b. lane b (delivered s') = lane b (pushed ?s)"
    using Suc.hyps(1)[of ?s] s1 look_inv[OF Suc.prems(2)] by blast
  then show ?case using step_look[OF Suc.prems(1), of True] s1(3) by (metis converse_rtranclp_into_rtranclp)
qed

lemma waiting_wakes:
  assumes "at s = Waiting" "ready (queue s) \<or> signals s > 0"
  shows "\<exists>s'. send_step\<^sup>*\<^sup>* s s' \<and> pushed s' = pushed s \<and> at s' = Looking"
proof -
  define s1 where "s1 = (if ready (queue s) then s else s\<lparr>queue := push_signal (queue s), signals := signals s - 1\<rparr>)"
  have "send_step\<^sup>*\<^sup>* s s1" using assms(2) step_signal[of s] by (auto simp: s1_def)
  moreover have "at s1 = Waiting" "ready (queue s1)" "pushed s1 = pushed s" using assms(1) by (simp_all add: s1_def)
  ultimately show ?thesis using step_wake[of s1] by (intro exI[of _ "s1\<lparr>queue := (queue s1)\<lparr>ready := False\<rparr>, at := Looking\<rparr>"]) auto
qed

text \<open>C36 (send_queue_drains). No wake-up is lost: at any moment of any run in which the goroutine has not stopped, going
  on with what is under way, with nothing more pushed and every delivery successful, gets every message that was
  pushed delivered, in order in each lane.\<close>

theorem send_queue_drains:
  assumes "send_run s" "at s \<noteq> Stopped"
  shows "\<exists>s'. send_step\<^sup>*\<^sup>* s s' \<and> pushed s' = pushed s \<and> (\<forall>b. lane b (delivered s') = lane b (pushed s))"
proof (cases "at s")
  case Looking
  then show ?thesis using look_delivers send_run_inv[OF assms(1)] by blast
next
  case Waiting
  show ?thesis
  proof (cases "ready (queue s) \<or> signals s > 0")
    case True
    then obtain s1 where s1: "send_step\<^sup>*\<^sup>* s s1" "pushed s1 = pushed s" "at s1 = Looking"
      using waiting_wakes[OF Waiting] by blast
    then have "send_inv s1" using assms(1) by (intro send_run_inv) (simp add: send_run_def)
    then show ?thesis using look_delivers[OF s1(3)] s1 by (metis rtranclp_trans)
  next
    case False
    then have "lane b (delivered s) = lane b (pushed s)" for b
      using send_run_inv[OF assms(1)] Waiting by (cases b) (simp_all add: send_inv_def)
    then show ?thesis by blast
  qed
qed (use assms in simp)

theorem send_queue_drains_witness:
  "\<exists>s'. send_step\<^sup>*\<^sup>* sample_push s' \<and> lane True (delivered s') = [[1]]"
proof -
  have "at sample_push \<noteq> Stopped" "lane True (pushed sample_push) = [[1]]"
    by (simp_all add: sample_push_def sending0_def Let_def)
  then show ?thesis using send_queue_drains[OF sample_push_run] by metis
qed

end
