(* ===== verification/Wire.thy ===== *)
theory Wire
  imports Utf16 "HOL-Library.Monad_Syntax"
begin

section \<open>Messages on the wire: bytes and the header\<close>

text \<open>
  \<^verbatim>\<open>src/smb2/header.go\<close>: the fixed header of every message, read and written in place. A message is a list of
  bytes. A Go expression that can panic, as every slice or index into a message can, is an option here, and
  \<open>None\<close> is the panic: the server would lose the connection to it, so that none is reached is what the theories
  of the wire show. Slicing is held to the length of the message, which is stricter than Go, where a slice may reach
  into the capacity behind it.
\<close>

type_synonym bytes = "byte list"
type_synonym 'a go = "'a option"

subsection \<open>Little-endian integers in a message\<close>

fun of_le :: "bytes \<Rightarrow> int" where
  "of_le [] = 0"
| "of_le (b # bs) = uint b + 256 * of_le bs"

fun to_le :: "nat \<Rightarrow> int \<Rightarrow> bytes" where
  "to_le 0 n = []"
| "to_le (Suc k) n = of_int n # to_le k (n div 256)"

text \<open>The slice from \<open>a\<close> up to \<open>b\<close>, and copying over it.\<close>

definition slice :: "nat \<Rightarrow> nat \<Rightarrow> 'a list \<Rightarrow> 'a list go" where
  "slice a b xs = (if a \<le> b \<and> b \<le> length xs then Some (take (b - a) (drop a xs)) else None)"

definition byte_at :: "nat \<Rightarrow> bytes \<Rightarrow> byte go" where
  "byte_at i d = (if i < length d then Some (d ! i) else None)"

definition put_at :: "nat \<Rightarrow> bytes \<Rightarrow> bytes \<Rightarrow> bytes go" where
  "put_at off bs d = (if off + length bs \<le> length d then Some (take off d @ bs @ drop (off + length bs) d) else None)"

definition word_at :: "nat \<Rightarrow> nat \<Rightarrow> bytes \<Rightarrow> ('a :: len) word go" where
  "word_at k off d = map_option (\<lambda>bs. of_int (of_le bs)) (slice off (off + k) d)"

definition put_word :: "nat \<Rightarrow> nat \<Rightarrow> ('a :: len) word \<Rightarrow> bytes \<Rightarrow> bytes go" where
  "put_word k off v d = put_at off (to_le k (uint v)) d"

definition Uint16_at :: "nat \<Rightarrow> bytes \<Rightarrow> u16 go" where "Uint16_at = word_at 2"
definition Uint32_at :: "nat \<Rightarrow> bytes \<Rightarrow> u32 go" where "Uint32_at = word_at 4"
definition Uint64_at :: "nat \<Rightarrow> bytes \<Rightarrow> u64 go" where "Uint64_at = word_at 8"
definition PutUint16_at :: "nat \<Rightarrow> u16 \<Rightarrow> bytes \<Rightarrow> bytes go" where "PutUint16_at = put_word 2"
definition PutUint32_at :: "nat \<Rightarrow> u32 \<Rightarrow> bytes \<Rightarrow> bytes go" where "PutUint32_at = put_word 4"
definition PutUint64_at :: "nat \<Rightarrow> u64 \<Rightarrow> bytes \<Rightarrow> bytes go" where "PutUint64_at = put_word 8"

lemmas uint_at_defs = Uint16_at_def Uint32_at_def Uint64_at_def PutUint16_at_def PutUint32_at_def PutUint64_at_def

lemma length_to_le [simp]: "length (to_le k n) = k"
  by (induction k arbitrary: n) auto

lemma of_le_to_le: "0 \<le> n \<Longrightarrow> n < 256 ^ k \<Longrightarrow> of_le (to_le k n) = n"
proof (induction k arbitrary: n)
  case (Suc k)
  then have "n div 256 < 256 ^ k" by (simp add: div_less_iff_less_mult mult.commute)
  with Suc show ?case by (simp add: uint_word_of_int)
qed simp

lemma slice_Some: "slice a b xs = Some ys \<longleftrightarrow> a \<le> b \<and> b \<le> length xs \<and> ys = take (b - a) (drop a xs)"
  by (auto simp: slice_def)

lemma slice_defined [simp]: "slice a b xs = None \<longleftrightarrow> \<not> (a \<le> b \<and> b \<le> length xs)"
  by (simp add: slice_def)

lemma length_slice: "slice a b xs = Some ys \<Longrightarrow> length ys = b - a"
  by (auto simp: slice_Some)

lemma word_at_defined [simp]: "word_at k off d = None \<longleftrightarrow> length d < off + k"
  by (auto simp: word_at_def)

lemma byte_at_defined [simp]: "byte_at i d = None \<longleftrightarrow> length d \<le> i"
  by (auto simp: byte_at_def)

lemma put_at_defined [simp]: "put_at off bs d = None \<longleftrightarrow> length d < off + length bs"
  by (auto simp: put_at_def)

lemma put_word_defined [simp]: "put_word k off v d = None \<longleftrightarrow> length d < off + k"
  by (simp add: put_word_def)

lemma put_at_length: "put_at off bs d = Some d' \<Longrightarrow> length d' = length d"
  by (auto simp: put_at_def split: if_splits)

lemma put_word_length: "put_word k off v d = Some d' \<Longrightarrow> length d' = length d"
  by (auto simp: put_word_def put_at_length)

text \<open>An expression that does not panic.\<close>

definition safe :: "'a go \<Rightarrow> bool" where
  "safe m \<longleftrightarrow> m \<noteq> None"

lemma safe_Some [simp]: "safe (Some x)"
  by (simp add: safe_def)

lemma safe_None [simp]: "\<not> safe None"
  by (simp add: safe_def)

lemma safe_bind [simp]: "safe (m \<bind> f) \<longleftrightarrow> safe m \<and> (\<forall>x. m = Some x \<longrightarrow> safe (f x))"
  by (cases m) (simp_all add: safe_def)

lemma safe_map_option [simp]: "safe (map_option f m) \<longleftrightarrow> safe m"
  by (simp add: safe_def)

lemma safe_accesses [simp]:
  "safe (slice a b xs) \<longleftrightarrow> a \<le> b \<and> b \<le> length xs"
  "safe (word_at k off d :: 'w :: len word go) \<longleftrightarrow> off + k \<le> length d"
  "safe (byte_at i d) \<longleftrightarrow> i < length d"
  "safe (put_at off bs d) \<longleftrightarrow> off + length bs \<le> length d"
  "safe (put_word k off (v :: 'w word) d) \<longleftrightarrow> off + k \<le> length d"
  by (auto simp: safe_def not_less not_le simp del: not_None_eq)

lemma safe_uint_at [simp]:
  "safe (Uint16_at off d) \<longleftrightarrow> off + 2 \<le> length d" "safe (Uint32_at off d) \<longleftrightarrow> off + 4 \<le> length d"
  "safe (Uint64_at off d) \<longleftrightarrow> off + 8 \<le> length d" "safe (PutUint16_at off v16 d) \<longleftrightarrow> off + 2 \<le> length d"
  "safe (PutUint32_at off v32 d) \<longleftrightarrow> off + 4 \<le> length d" "safe (PutUint64_at off v64 d) \<longleftrightarrow> off + 8 \<le> length d"
  by (simp_all add: uint_at_defs)

lemma safeE: "safe m \<Longrightarrow> (\<And>x. m = Some x \<Longrightarrow> P) \<Longrightarrow> P"
  by (auto simp: safe_def)

text \<open>Reading back what was written, and reading elsewhere.\<close>

lemma slice_put_same: "put_at off bs d = Some d' \<Longrightarrow> slice off (off + length bs) d' = Some bs"
  by (auto simp: put_at_def slice_def split: if_splits)

lemma slice_put_other:
  assumes "put_at off bs d = Some d'" "b \<le> off \<or> off + length bs \<le> a"
  shows "slice a b d' = slice a b d"
proof -
  have d': "d' = take off d @ bs @ drop (off + length bs) d" "off + length bs \<le> length d"
    using assms(1) by (auto simp: put_at_def split: if_splits)
  have l: "length d' = length d" by (rule put_at_length[OF assms(1)])
  show ?thesis
  proof (cases "a \<le> b \<and> b \<le> length d")
    case True
    have "take (b - a) (drop a d') = take (b - a) (drop a d)"
    proof (rule nth_equalityI)
      fix i assume "i < length (take (b - a) (drop a d'))"
      then have "a + i < b" "a + i < length d" using l by auto
      then show "take (b - a) (drop a d') ! i = take (b - a) (drop a d) ! i"
        using assms(2) d' l by (auto simp: nth_append)
    qed (simp add: l)
    with True l show ?thesis by (simp add: slice_def)
  qed (auto simp: slice_def l)
qed

lemma word_at_put:
  assumes "put_word k off (v :: 'a :: len word) d = Some d'" "LENGTH('a) = 8 * k"
  shows "word_at k off d' = Some v"
proof -
  have s: "slice off (off + k) d' = Some (to_le k (uint v))"
    using slice_put_same[of off "to_le k (uint v)" d d'] assms(1) by (simp add: put_word_def)
  have "(256 :: int) ^ k = 2 ^ LENGTH('a)" by (simp add: assms(2) power_mult)
  then have "of_le (to_le k (uint v)) = uint v" by (intro of_le_to_le) (simp_all add: uint_lt2p)
  then show ?thesis using s by (simp add: word_at_def)
qed

lemma word_at_put_other:
  "put_word k off v d = Some d' \<Longrightarrow> off' + k' \<le> off \<or> off + k \<le> off' \<Longrightarrow> word_at k' off' d' = word_at k' off' d"
  by (auto simp: put_word_def word_at_def slice_put_other)

lemma word_at_put_at_other:
  "put_at off bs d = Some d' \<Longrightarrow> off' + k' \<le> off \<or> off + length bs \<le> off' \<Longrightarrow> word_at k' off' d' = word_at k' off' d"
  by (auto simp: word_at_def slice_put_other)

text \<open>Pieces of a message that is put together.\<close>

lemma put_at_mid: "length x = length b \<Longrightarrow> off = length a \<Longrightarrow> put_at off b (a @ x @ r) = Some (a @ b @ r)"
  by (simp add: put_at_def)

lemma slice_piece: "a = length x \<Longrightarrow> b = a + length y \<Longrightarrow> slice a b (x @ y @ z) = Some y"
  by (simp add: slice_def)

lemma word_in_bytes:
  assumes "off = length x" "LENGTH('w) = 8 * j"
  shows "word_at j off (x @ to_le j (uint (v :: 'w :: len word)) @ r) = Some v"
proof -
  have "(256 :: int) ^ j = 2 ^ LENGTH('w)" by (simp add: assms(2) power_mult)
  then have "of_le (to_le j (uint v)) = uint v" by (intro of_le_to_le) (simp_all add: uint_lt2p)
  then show ?thesis using slice_piece[of off x "off + j" "to_le j (uint v)" r] assms(1) by (simp add: word_at_def)
qed

subsection \<open>The SMB2 header\<close>

definition PROTOCOL_SMB :: u32 where "PROTOCOL_SMB = 0x424d53ff"
definition PROTOCOL_SMB2 :: u32 where "PROTOCOL_SMB2 = 0x424d53fe"
definition PROTOCOL_SMB2_ENCRYPTED :: u32 where "PROTOCOL_SMB2_ENCRYPTED = 0x424d53fd"
definition PROTOCOL_SMB2_COMPRESSED :: u32 where "PROTOCOL_SMB2_COMPRESSED = 0x424d53fc"
definition SMB_COM_NEGOTIATE :: u8 where "SMB_COM_NEGOTIATE = 0x72"
definition SMBHeaderSize :: nat where "SMBHeaderSize = 32"
definition SMB2HeaderSize :: nat where "SMB2HeaderSize = 64"
definition SMB2HeaderStructureSize :: u16 where "SMB2HeaderStructureSize = 64"
definition FLAGS_SERVER_TO_REDIR :: u32 where "FLAGS_SERVER_TO_REDIR = 0x00000001"
definition FLAGS_ASYNC_COMMAND :: u32 where "FLAGS_ASYNC_COMMAND = 0x00000002"
definition FLAGS_RELATED_OPERATIONS :: u32 where "FLAGS_RELATED_OPERATIONS = 0x00000004"
definition FLAGS_SIGNED :: u32 where "FLAGS_SIGNED = 0x00000008"

lemmas protocol_defs = PROTOCOL_SMB_def PROTOCOL_SMB2_def PROTOCOL_SMB2_ENCRYPTED_def PROTOCOL_SMB2_COMPRESSED_def

datatype wire_error = ErrWrongLength | ErrWrongFormat | WrongProtocol | ErrEncryptedMessage | ErrCompressedMessage
  | ErrInvalidParameter | ErrNotSupported | ErrUnalignedRequests | ErrRelatedRequests | ErrMixedRequests

text \<open>What a check says: \<open>None\<close> is Go's \<^verbatim>\<open>nil\<close>.\<close>

type_synonym check = "wire_error option"

definition Header_ProtocolID :: "bytes \<Rightarrow> u32 go" where "Header_ProtocolID = Uint32_at 0"
definition Header_CreditCharge :: "bytes \<Rightarrow> u16 go" where "Header_CreditCharge = Uint16_at 6"
definition Header_Status :: "bytes \<Rightarrow> u32 go" where "Header_Status = Uint32_at 8"
definition Header_ChannelSequence :: "bytes \<Rightarrow> u16 go" where "Header_ChannelSequence = Uint16_at 8"
definition Header_Command :: "bytes \<Rightarrow> u16 go" where "Header_Command = Uint16_at 12"
definition Header_CreditRequest :: "bytes \<Rightarrow> u16 go" where "Header_CreditRequest = Uint16_at 14"
definition Header_Flags :: "bytes \<Rightarrow> u32 go" where "Header_Flags = Uint32_at 16"
definition Header_NextCommand :: "bytes \<Rightarrow> u32 go" where "Header_NextCommand = Uint32_at 20"
definition Header_MessageID :: "bytes \<Rightarrow> u64 go" where "Header_MessageID = Uint64_at 24"
definition Header_AsyncID :: "bytes \<Rightarrow> u64 go" where "Header_AsyncID = Uint64_at 32"
definition Header_TreeID :: "bytes \<Rightarrow> u32 go" where "Header_TreeID = Uint32_at 36"
definition Header_SessionID :: "bytes \<Rightarrow> u64 go" where "Header_SessionID = Uint64_at 40"
definition Header_OriginalMessageSize :: "bytes \<Rightarrow> u32 go" where "Header_OriginalMessageSize = Uint32_at 36"
definition Header_EncryptionFlags :: "bytes \<Rightarrow> u16 go" where "Header_EncryptionFlags = Uint16_at 42"
definition Header_TransformSessionID :: "bytes \<Rightarrow> u64 go" where "Header_TransformSessionID = Uint64_at 44"
definition Header_OriginalCompressedSegmentSize :: "bytes \<Rightarrow> u32 go" where "Header_OriginalCompressedSegmentSize = Uint32_at 4"
definition Header_CompressionAlgorithm :: "bytes \<Rightarrow> u16 go" where "Header_CompressionAlgorithm = Uint16_at 8"
definition Header_CompressionFlags :: "bytes \<Rightarrow> u16 go" where "Header_CompressionFlags = Uint16_at 10"
definition Header_Offset :: "bytes \<Rightarrow> u32 go" where "Header_Offset = Uint32_at 12"

definition Header_SetProtocolID :: "u32 \<Rightarrow> bytes \<Rightarrow> bytes go" where "Header_SetProtocolID = PutUint32_at 0"
definition Header_SetCreditCharge :: "u16 \<Rightarrow> bytes \<Rightarrow> bytes go" where "Header_SetCreditCharge = PutUint16_at 6"
definition Header_SetStatus :: "u32 \<Rightarrow> bytes \<Rightarrow> bytes go" where "Header_SetStatus = PutUint32_at 8"
definition Header_SetCommand :: "u16 \<Rightarrow> bytes \<Rightarrow> bytes go" where "Header_SetCommand = PutUint16_at 12"
definition Header_SetCreditResponse :: "u16 \<Rightarrow> bytes \<Rightarrow> bytes go" where "Header_SetCreditResponse = PutUint16_at 14"
definition Header_SetFlags :: "u32 \<Rightarrow> bytes \<Rightarrow> bytes go" where "Header_SetFlags = PutUint32_at 16"
definition Header_SetNextCommand :: "u32 \<Rightarrow> bytes \<Rightarrow> bytes go" where "Header_SetNextCommand = PutUint32_at 20"
definition Header_SetMessageID :: "u64 \<Rightarrow> bytes \<Rightarrow> bytes go" where "Header_SetMessageID = PutUint64_at 24"
definition Header_SetAsyncID :: "u64 \<Rightarrow> bytes \<Rightarrow> bytes go" where "Header_SetAsyncID = PutUint64_at 32"
definition Header_SetTreeID :: "u32 \<Rightarrow> bytes \<Rightarrow> bytes go" where "Header_SetTreeID = PutUint32_at 36"
definition Header_SetSessionID :: "u64 \<Rightarrow> bytes \<Rightarrow> bytes go" where "Header_SetSessionID = PutUint64_at 40"
definition Header_SetOriginalMessageSize :: "u32 \<Rightarrow> bytes \<Rightarrow> bytes go" where "Header_SetOriginalMessageSize = PutUint32_at 36"
definition Header_SetEncryptionFlags :: "u16 \<Rightarrow> bytes \<Rightarrow> bytes go" where "Header_SetEncryptionFlags = PutUint16_at 42"
definition Header_SetTransformSessionID :: "u64 \<Rightarrow> bytes \<Rightarrow> bytes go" where "Header_SetTransformSessionID = PutUint64_at 44"
definition Header_SetOriginalCompressedSegmentSize :: "u32 \<Rightarrow> bytes \<Rightarrow> bytes go" where "Header_SetOriginalCompressedSegmentSize = PutUint32_at 4"
definition Header_SetCompressionAlgorithm :: "u16 \<Rightarrow> bytes \<Rightarrow> bytes go" where "Header_SetCompressionAlgorithm = PutUint16_at 8"
definition Header_SetCompressionFlags :: "u16 \<Rightarrow> bytes \<Rightarrow> bytes go" where "Header_SetCompressionFlags = PutUint16_at 10"
definition Header_SetOffset :: "u32 \<Rightarrow> bytes \<Rightarrow> bytes go" where "Header_SetOffset = PutUint32_at 12"

lemmas header_get_defs =
  Header_ProtocolID_def Header_CreditCharge_def Header_Status_def Header_ChannelSequence_def Header_Command_def Header_CreditRequest_def Header_Flags_def Header_NextCommand_def Header_MessageID_def Header_AsyncID_def Header_TreeID_def Header_SessionID_def Header_OriginalMessageSize_def Header_EncryptionFlags_def Header_TransformSessionID_def Header_OriginalCompressedSegmentSize_def Header_CompressionAlgorithm_def Header_CompressionFlags_def Header_Offset_def

lemmas header_set_defs =
  Header_SetProtocolID_def Header_SetCreditCharge_def Header_SetStatus_def Header_SetCommand_def Header_SetCreditResponse_def Header_SetFlags_def Header_SetNextCommand_def Header_SetMessageID_def Header_SetAsyncID_def Header_SetTreeID_def Header_SetSessionID_def Header_SetOriginalMessageSize_def Header_SetEncryptionFlags_def Header_SetTransformSessionID_def Header_SetOriginalCompressedSegmentSize_def Header_SetCompressionAlgorithm_def Header_SetCompressionFlags_def Header_SetOffset_def

definition Header_LegacyCommand :: "bytes \<Rightarrow> u8 go" where "Header_LegacyCommand = byte_at 4"

definition Header_CopyFrom :: "bytes \<Rightarrow> bytes \<Rightarrow> bytes go" where
  "Header_CopyFrom src h = do { b \<leftarrow> slice 0 SMB2HeaderSize src; put_at 0 b h }"

definition NewHeader :: "bytes \<Rightarrow> bytes go" where
  "NewHeader data = do { data \<leftarrow> PutUint32_at 0 PROTOCOL_SMB2 data; PutUint16_at 4 SMB2HeaderStructureSize data }"

definition Header_IsSmb :: "bytes \<Rightarrow> bool go" where
  "Header_IsSmb h = do { id \<leftarrow> Header_ProtocolID h; Some (id = PROTOCOL_SMB) }"

definition Header_IsSmb2 :: "bytes \<Rightarrow> bool go" where
  "Header_IsSmb2 h = do { id \<leftarrow> Header_ProtocolID h;
     Some (id = PROTOCOL_SMB2 \<or> id = PROTOCOL_SMB2_ENCRYPTED \<or> id = PROTOCOL_SMB2_COMPRESSED) }"

definition Header_IsFlagSet :: "u32 \<Rightarrow> bytes \<Rightarrow> bool go" where
  "Header_IsFlagSet flag h = do { flags \<leftarrow> Header_Flags h; Some (flags AND flag > 0) }"

definition Header_SetFlag :: "u32 \<Rightarrow> bytes \<Rightarrow> bytes go" where
  "Header_SetFlag flag h = do { flags \<leftarrow> Header_Flags h; Header_SetFlags (flags OR flag) h }"

definition Header_ClearFlag :: "u32 \<Rightarrow> bytes \<Rightarrow> bytes go" where
  "Header_ClearFlag flag h = do { flags \<leftarrow> Header_Flags h; Header_SetFlags (flags AND NOT flag) h }"

text \<open>Go's \<^verbatim>\<open>copy\<close> into a field: as much as there is, and no more than the field holds.\<close>

definition copy_at :: "nat \<Rightarrow> nat \<Rightarrow> bytes \<Rightarrow> bytes \<Rightarrow> bytes go" where
  "copy_at off k src h = do { _ \<leftarrow> slice off (off + k) h; put_at off (take k src) h }"

definition Header_Signature :: "bytes \<Rightarrow> bytes go" where "Header_Signature h = slice 48 64 h"
definition Header_SetSignature :: "bytes \<Rightarrow> bytes \<Rightarrow> bytes go" where "Header_SetSignature = copy_at 48 16"
definition Header_WipeSignature :: "bytes \<Rightarrow> bytes go" where "Header_WipeSignature = Header_SetSignature (replicate 16 0)"
definition Header_EncryptionSignature :: "bytes \<Rightarrow> bytes go" where "Header_EncryptionSignature h = slice 4 20 h"
definition Header_SetEncryptionSignature :: "bytes \<Rightarrow> bytes \<Rightarrow> bytes go" where "Header_SetEncryptionSignature = copy_at 4 16"
definition Header_WipeEncryptionSignature :: "bytes \<Rightarrow> bytes go" where
  "Header_WipeEncryptionSignature = Header_SetEncryptionSignature (replicate 16 0)"
definition Header_Nonce :: "bytes \<Rightarrow> bytes go" where "Header_Nonce h = slice 20 36 h"
definition Header_SetNonce :: "bytes \<Rightarrow> bytes \<Rightarrow> bytes go" where
  "Header_SetNonce nonce = copy_at 20 16 (take 16 nonce @ replicate (16 - length nonce) 0)"
definition Header_AssociatedData :: "bytes \<Rightarrow> bytes go" where "Header_AssociatedData h = slice 20 52 h"

definition Header_Validate :: "bytes \<Rightarrow> check go" where
  "Header_Validate h =
     (if length h < 4 then Some (Some ErrWrongLength)
      else do {
        smb \<leftarrow> Header_IsSmb h;
        if smb then
          (if length h < SMBHeaderSize then Some (Some ErrWrongLength)
           else do { cmd \<leftarrow> Header_LegacyCommand h;
                     Some (if cmd \<noteq> SMB_COM_NEGOTIATE then Some WrongProtocol else None) })
        else do {
          smb2 \<leftarrow> Header_IsSmb2 h;
          if smb2 then
            (if length h < SMB2HeaderSize then Some (Some ErrWrongLength)
             else do {
               id \<leftarrow> Header_ProtocolID h;
               if id = PROTOCOL_SMB2_ENCRYPTED then Some (Some ErrEncryptedMessage)
               else if id = PROTOCOL_SMB2_COMPRESSED then Some (Some ErrCompressedMessage)
               else do { n \<leftarrow> Uint16_at 4 h;
                         Some (if n \<noteq> SMB2HeaderStructureSize then Some ErrWrongFormat else None) } })
          else Some (Some WrongProtocol) } })"

subsubsection \<open>The headers of a compressed payload and a pattern\<close>

definition PayloadHeader_CompressionAlgorithm :: "bytes \<Rightarrow> u16 go" where "PayloadHeader_CompressionAlgorithm = Uint16_at 0"
definition PayloadHeader_SetCompressionAlgorithm :: "u16 \<Rightarrow> bytes \<Rightarrow> bytes go" where "PayloadHeader_SetCompressionAlgorithm = PutUint16_at 0"
definition PayloadHeader_Flags :: "bytes \<Rightarrow> u16 go" where "PayloadHeader_Flags = Uint16_at 2"
definition PayloadHeader_SetFlags :: "u16 \<Rightarrow> bytes \<Rightarrow> bytes go" where "PayloadHeader_SetFlags = PutUint16_at 2"
definition PayloadHeader_Length :: "bytes \<Rightarrow> u32 go" where "PayloadHeader_Length = Uint32_at 4"
definition PayloadHeader_SetLength :: "u32 \<Rightarrow> bytes \<Rightarrow> bytes go" where "PayloadHeader_SetLength = PutUint32_at 4"

record PatternV1 =
  Pattern :: u8
  Repetitions :: u32

definition PatternV1_Marshal :: "PatternV1 \<Rightarrow> bytes go" where
  "PatternV1_Marshal p = do { b \<leftarrow> put_at 0 [Pattern p] (replicate 8 0); PutUint32_at 4 (Repetitions p) b }"

definition PatternV1_Unmarshal :: "bytes \<Rightarrow> (wire_error + PatternV1) go" where
  "PatternV1_Unmarshal b =
     (if length b < 8 then Some (Inl ErrWrongLength)
      else do { p \<leftarrow> byte_at 0 b; n \<leftarrow> Uint32_at 4 b; Some (Inr \<lparr>Pattern = p, Repetitions = n\<rparr>) })"

subsection \<open>What the header check gives\<close>

text \<open>The check of a header never panics, and a message that passes is an SMB2 header in full or a legacy negotiate.\<close>

definition legacy_negotiate :: "bytes \<Rightarrow> bool" where
  "legacy_negotiate h \<longleftrightarrow> SMBHeaderSize \<le> length h \<and> Header_IsSmb h = Some True"

lemma Header_Validate_safe [simp]: "safe (Header_Validate h)"
  by (auto simp: Header_Validate_def Header_IsSmb_def Header_IsSmb2_def Header_ProtocolID_def Header_LegacyCommand_def
      SMBHeaderSize_def SMB2HeaderSize_def)

lemma Header_Validate_ok:
  assumes "Header_Validate h = Some None"
  shows "legacy_negotiate h \<or> SMB2HeaderSize \<le> length h \<and> Header_ProtocolID h = Some PROTOCOL_SMB2 \<and> Header_IsSmb h = Some False"
  using assms
  by (auto simp: Header_Validate_def Header_IsSmb2_def legacy_negotiate_def Header_IsSmb_def bind_eq_Some_conv
      protocol_defs split: if_splits)

lemma Header_Validate_length: "Header_Validate h = Some None \<Longrightarrow> 32 \<le> length h"
  using Header_Validate_ok[of h] by (auto simp: legacy_negotiate_def SMBHeaderSize_def SMB2HeaderSize_def)

subsection \<open>A message to try things on\<close>

text \<open>A request for the examples: an SMB2 header with the given flags and next command, and a body.\<close>

definition sample_message :: "u32 \<Rightarrow> u32 \<Rightarrow> bytes \<Rightarrow> bytes" where
  "sample_message flags nxt body =
     [0xfe, 0x53, 0x4d, 0x42, 64, 0] @ replicate 10 0 @ to_le 4 (uint flags) @ to_le 4 (uint nxt) @ replicate 40 0 @ body"

end
