(* ===== verification/Wire_Requests.thy ===== *)
theory Wire_Requests
  imports Wire
begin

section \<open>Messages on the wire: requests\<close>

text \<open>
  The requests a client sends, one file of \<^verbatim>\<open>src/smb2\<close> each: the check a handler calls before anything else
  (\<^verbatim>\<open>Validate\<close>) and the fields it reads afterwards. All of it is what the client put on the wire, so every offset and
  length is suspect. The property: the check itself never panics, and a request that passes it has every field
  its accessors read - nothing a client sends makes the reading of a field panic.
\<close>

subsection \<open>Checks\<close>

definition fits :: "u64 \<Rightarrow> u64 \<Rightarrow> u64 \<Rightarrow> bool" where
  "fits off len sz \<longleftrightarrow> off + len \<le> sz"

definition structureSize :: "bytes \<Rightarrow> u16 go" where
  "structureSize data = do { smb \<leftarrow> Header_IsSmb data; if smb then Some 0 else Uint16_at SMB2HeaderSize data }"

text \<open>One check after another: the first error stands.\<close>

definition and_then :: "check go \<Rightarrow> check go \<Rightarrow> check go" where
  "and_then a b = do { e \<leftarrow> a; case e of None \<Rightarrow> b | Some err \<Rightarrow> Some (Some err) }"

definition require :: "bool \<Rightarrow> wire_error \<Rightarrow> check go" where
  "require ok e = Some (if ok then None else Some e)"

text \<open>What every \<^verbatim>\<open>Validate\<close> begins with: the header, the least length, and the structure size.\<close>

definition fixed_part :: "nat \<Rightarrow> u16 \<Rightarrow> bytes \<Rightarrow> check go" where
  "fixed_part minSize sz data =
     and_then (Header_Validate data)
       (if length data < SMB2HeaderSize + minSize then Some (Some ErrWrongLength)
        else do { n \<leftarrow> structureSize data; require (n = sz) ErrWrongFormat })"

text \<open>And what those of a request with a payload end with: does the charge cover what is sent and asked for?\<close>

definition credit_ok :: "u16 \<Rightarrow> u32 \<Rightarrow> u32 \<Rightarrow> bool" where
  "credit_ok charge sps ers =
     (if charge = 0 then \<not> (sps > 65536 \<or> ers > 65536)
      else \<not> charge < ucast ((max sps ers - 1) div 65536) + 1)"

definition credit_check :: "bool \<Rightarrow> bytes \<Rightarrow> u32 \<Rightarrow> u32 \<Rightarrow> check go" where
  "credit_check supportsMultiCredit data sps ers =
     (if supportsMultiCredit
      then do { charge \<leftarrow> Header_CreditCharge data; require (credit_ok charge sps ers) ErrInvalidParameter }
      else Some None)"

definition payload :: "nat \<Rightarrow> bytes \<Rightarrow> u32" where
  "payload minSize data = of_nat (length data - SMB2HeaderSize - minSize)"

subsection \<open>The requests\<close>

definition CancelRequest_Validate :: "bytes \<Rightarrow> check go" where "CancelRequest_Validate = fixed_part 4 4"
definition EchoRequest_Validate :: "bytes \<Rightarrow> check go" where "EchoRequest_Validate = fixed_part 4 4"
definition LogoffRequest_Validate :: "bytes \<Rightarrow> check go" where "LogoffRequest_Validate = fixed_part 4 4"
definition TreeDisconnectRequest_Validate :: "bytes \<Rightarrow> check go" where "TreeDisconnectRequest_Validate = fixed_part 4 4"

definition CloseRequest_Validate :: "bytes \<Rightarrow> check go" where "CloseRequest_Validate = fixed_part 24 24"
definition CloseRequest_Flags :: "bytes \<Rightarrow> u16 go" where "CloseRequest_Flags = Uint16_at (SMB2HeaderSize + 2)"
definition CloseRequest_FileID :: "bytes \<Rightarrow> bytes go" where "CloseRequest_FileID data = slice (SMB2HeaderSize + 8) (SMB2HeaderSize + 24) data"

definition FlushRequest_Validate :: "bytes \<Rightarrow> check go" where "FlushRequest_Validate = fixed_part 24 24"
definition FlushRequest_FileID :: "bytes \<Rightarrow> bytes go" where "FlushRequest_FileID data = slice (SMB2HeaderSize + 8) (SMB2HeaderSize + 24) data"

definition OplockBreakRequest_Validate :: "bytes \<Rightarrow> check go" where "OplockBreakRequest_Validate = fixed_part 24 24"
definition OplockBreakRequest_OplockLevel :: "bytes \<Rightarrow> u8 go" where "OplockBreakRequest_OplockLevel = byte_at (SMB2HeaderSize + 2)"
definition OplockBreakRequest_FileID :: "bytes \<Rightarrow> bytes go" where "OplockBreakRequest_FileID data = slice (SMB2HeaderSize + 8) (SMB2HeaderSize + 24) data"

definition LeaseBreakRequest_Validate :: "bytes \<Rightarrow> check go" where "LeaseBreakRequest_Validate = fixed_part 36 36"
definition LeaseBreakRequest_LeaseKey :: "bytes \<Rightarrow> bytes go" where "LeaseBreakRequest_LeaseKey data = slice (SMB2HeaderSize + 8) (SMB2HeaderSize + 24) data"
definition LeaseBreakRequest_LeaseState :: "bytes \<Rightarrow> u32 go" where "LeaseBreakRequest_LeaseState = Uint32_at (SMB2HeaderSize + 24)"

subsubsection \<open>Lock\<close>

record Lock =
  Lock_Offset :: u64
  Lock_Length :: u64
  Lock_Flags :: u32

definition LockRequest_Validate :: "bool \<Rightarrow> bytes \<Rightarrow> check go" where
  "LockRequest_Validate mc data =
     and_then (fixed_part 24 48 data)
       (do { lockCount \<leftarrow> Uint16_at (SMB2HeaderSize + 2) data;
             if lockCount = 0 then Some (Some ErrInvalidParameter)
             else if length data \<noteq> SMB2HeaderSize + 24 + 24 * unat lockCount then Some (Some ErrWrongLength)
             else credit_check mc data (payload 24 data) 0 })"

definition LockRequest_LockSequenceNumber :: "bytes \<Rightarrow> u8 go" where
  "LockRequest_LockSequenceNumber data = do { b \<leftarrow> byte_at (SMB2HeaderSize + 4) data; Some (b AND 0x0f) }"

definition LockRequest_LockSequenceIndex :: "bytes \<Rightarrow> u32 go" where
  "LockRequest_LockSequenceIndex data = do { w \<leftarrow> Uint32_at (SMB2HeaderSize + 4) data; Some (drop_bit 4 w) }"

definition LockRequest_FileID :: "bytes \<Rightarrow> bytes go" where "LockRequest_FileID data = slice (SMB2HeaderSize + 8) (SMB2HeaderSize + 24) data"

fun LockRequest_Locks_loop :: "nat \<Rightarrow> nat \<Rightarrow> bytes \<Rightarrow> Lock list go" where
  "LockRequest_Locks_loop 0 off data = Some []"
| "LockRequest_Locks_loop (Suc n) off data =
     do { o' \<leftarrow> Uint64_at off data; l \<leftarrow> Uint64_at (off + 8) data; f \<leftarrow> Uint32_at (off + 16) data;
          ls \<leftarrow> LockRequest_Locks_loop n (off + 24) data;
          Some (\<lparr>Lock_Offset = o', Lock_Length = l, Lock_Flags = f\<rparr> # ls) }"

definition LockRequest_Locks :: "bytes \<Rightarrow> Lock list go" where
  "LockRequest_Locks data =
     do { lockCount \<leftarrow> Uint16_at (SMB2HeaderSize + 2) data;
          LockRequest_Locks_loop (unat lockCount) (SMB2HeaderSize + 24) data }"

subsubsection \<open>Read, write and change notify\<close>

definition ReadRequest_Padding :: "bytes \<Rightarrow> u8 go" where "ReadRequest_Padding = byte_at (SMB2HeaderSize + 2)"
definition ReadRequest_Flags :: "bytes \<Rightarrow> u8 go" where "ReadRequest_Flags = byte_at (SMB2HeaderSize + 3)"
definition ReadRequest_Length :: "bytes \<Rightarrow> u32 go" where "ReadRequest_Length = Uint32_at (SMB2HeaderSize + 4)"
definition ReadRequest_Offset :: "bytes \<Rightarrow> u64 go" where "ReadRequest_Offset = Uint64_at (SMB2HeaderSize + 8)"
definition ReadRequest_FileID :: "bytes \<Rightarrow> bytes go" where "ReadRequest_FileID data = slice (SMB2HeaderSize + 16) (SMB2HeaderSize + 32) data"
definition ReadRequest_MinimumCount :: "bytes \<Rightarrow> u32 go" where "ReadRequest_MinimumCount = Uint32_at (SMB2HeaderSize + 32)"
definition ReadRequest_Channel :: "bytes \<Rightarrow> u32 go" where "ReadRequest_Channel = Uint32_at (SMB2HeaderSize + 36)"

definition ReadRequest_Validate :: "bool \<Rightarrow> bytes \<Rightarrow> check go" where
  "ReadRequest_Validate mc data =
     and_then (fixed_part 48 49 data)
       (do { ers \<leftarrow> ReadRequest_Length data; credit_check mc data (payload 48 data) ers })"

definition WriteRequest_DataOffset :: "bytes \<Rightarrow> u16 go" where "WriteRequest_DataOffset = Uint16_at (SMB2HeaderSize + 2)"
definition WriteRequest_Offset :: "bytes \<Rightarrow> u64 go" where "WriteRequest_Offset = Uint64_at (SMB2HeaderSize + 8)"
definition WriteRequest_FileID :: "bytes \<Rightarrow> bytes go" where "WriteRequest_FileID data = slice (SMB2HeaderSize + 16) (SMB2HeaderSize + 32) data"
definition WriteRequest_Channel :: "bytes \<Rightarrow> u32 go" where "WriteRequest_Channel = Uint32_at (SMB2HeaderSize + 32)"
definition WriteRequest_Flags :: "bytes \<Rightarrow> u32 go" where "WriteRequest_Flags = Uint32_at (SMB2HeaderSize + 44)"

definition WriteRequest_Validate :: "bool \<Rightarrow> bytes \<Rightarrow> check go" where
  "WriteRequest_Validate mc data =
     and_then (fixed_part 48 49 data)
       (do { len \<leftarrow> Uint32_at (SMB2HeaderSize + 4) data; off \<leftarrow> WriteRequest_DataOffset data;
             and_then (require (fits (ucast off) (ucast len) (of_nat (length data))) ErrInvalidParameter)
               (credit_check mc data (payload 48 data) 0) })"

text \<open>A buffer a request names by offset and length: \<open>[]\<close> stands for Go's \<^verbatim>\<open>nil\<close>.\<close>

definition buffer :: "u32 \<Rightarrow> u32 \<Rightarrow> bytes \<Rightarrow> bytes go" where
  "buffer off len data =
     (if \<not> fits (ucast off) (ucast len) (of_nat (length data)) then Some []
      else slice (unat off) (unat (off + len)) data)"

definition WriteRequest_Buffer :: "bytes \<Rightarrow> bytes go" where
  "WriteRequest_Buffer data =
     do { off \<leftarrow> WriteRequest_DataOffset data; len \<leftarrow> Uint32_at (SMB2HeaderSize + 4) data; buffer (ucast off) len data }"

definition ChangeNotifyRequest_Flags :: "bytes \<Rightarrow> u16 go" where "ChangeNotifyRequest_Flags = Uint16_at (SMB2HeaderSize + 2)"
definition ChangeNotifyRequest_OutputBufferLength :: "bytes \<Rightarrow> u32 go" where "ChangeNotifyRequest_OutputBufferLength = Uint32_at (SMB2HeaderSize + 4)"
definition ChangeNotifyRequest_FileID :: "bytes \<Rightarrow> bytes go" where "ChangeNotifyRequest_FileID data = slice (SMB2HeaderSize + 8) (SMB2HeaderSize + 24) data"
definition ChangeNotifyRequest_CompletionFilter :: "bytes \<Rightarrow> u32 go" where "ChangeNotifyRequest_CompletionFilter = Uint32_at (SMB2HeaderSize + 24)"

definition ChangeNotifyRequest_Validate :: "bool \<Rightarrow> bytes \<Rightarrow> check go" where
  "ChangeNotifyRequest_Validate mc data =
     and_then (fixed_part 32 32 data)
       (do { ers \<leftarrow> ChangeNotifyRequest_OutputBufferLength data; credit_check mc data 0 ers })"

subsubsection \<open>Session setup and tree connect\<close>

definition SessionSetupRequest_Validate :: "bool \<Rightarrow> bytes \<Rightarrow> check go" where
  "SessionSetupRequest_Validate mc data = and_then (fixed_part 24 25 data) (credit_check mc data (payload 24 data) 207)"

definition SessionSetupRequest_Flags :: "bytes \<Rightarrow> u8 go" where
  "SessionSetupRequest_Flags data = (if length data < SMB2HeaderSize + 24 then Some 0 else byte_at (SMB2HeaderSize + 2) data)"

definition SessionSetupRequest_SecurityMode :: "bytes \<Rightarrow> u16 go" where
  "SessionSetupRequest_SecurityMode data = do { b \<leftarrow> byte_at (SMB2HeaderSize + 3) data; Some (ucast b) }"

definition SessionSetupRequest_Capabilities :: "bytes \<Rightarrow> u32 go" where "SessionSetupRequest_Capabilities = Uint32_at (SMB2HeaderSize + 4)"
definition SessionSetupRequest_PreviousSessionID :: "bytes \<Rightarrow> u64 go" where "SessionSetupRequest_PreviousSessionID = Uint64_at (SMB2HeaderSize + 16)"

definition SessionSetupRequest_SecurityBuffer :: "bytes \<Rightarrow> bytes go" where
  "SessionSetupRequest_SecurityBuffer data =
     do { off \<leftarrow> Uint16_at (SMB2HeaderSize + 12) data; len \<leftarrow> Uint16_at (SMB2HeaderSize + 14) data;
          buffer (ucast off) (ucast len) data }"

definition TreeConnectRequest_Validate :: "bool \<Rightarrow> bytes \<Rightarrow> check go" where
  "TreeConnectRequest_Validate mc data = and_then (fixed_part 8 9 data) (credit_check mc data (payload 8 data) 0)"

definition TreeConnectRequest_PathName :: "bytes \<Rightarrow> string go" where
  "TreeConnectRequest_PathName data =
     do { off \<leftarrow> Uint16_at (SMB2HeaderSize + 4) data; len \<leftarrow> Uint16_at (SMB2HeaderSize + 6) data;
          b \<leftarrow> buffer (ucast off) (ucast len) data; Some (DecodeToString b) }"

subsubsection \<open>I/O control\<close>

definition IoctlRequest_CtlCode :: "bytes \<Rightarrow> u32 go" where "IoctlRequest_CtlCode = Uint32_at (SMB2HeaderSize + 4)"
definition IoctlRequest_FileID :: "bytes \<Rightarrow> bytes go" where "IoctlRequest_FileID data = slice (SMB2HeaderSize + 8) (SMB2HeaderSize + 24) data"
definition IoctlRequest_MaxInputResponse :: "bytes \<Rightarrow> u32 go" where "IoctlRequest_MaxInputResponse = Uint32_at (SMB2HeaderSize + 32)"
definition IoctlRequest_MaxOutputResponse :: "bytes \<Rightarrow> u32 go" where "IoctlRequest_MaxOutputResponse = Uint32_at (SMB2HeaderSize + 44)"
definition IoctlRequest_Flags :: "bytes \<Rightarrow> u32 go" where "IoctlRequest_Flags = Uint32_at (SMB2HeaderSize + 48)"

definition IoctlRequest_Validate :: "bool \<Rightarrow> bytes \<Rightarrow> check go" where
  "IoctlRequest_Validate mc data =
     and_then (fixed_part 56 57 data)
       (do { off \<leftarrow> Uint32_at (SMB2HeaderSize + 24) data; len \<leftarrow> Uint32_at (SMB2HeaderSize + 28) data;
             if len > 0 \<and> ((off > 0 \<and> unat off < SMB2HeaderSize + 56) \<or> off mod 8 > 0
                             \<or> \<not> fits (ucast off) (ucast len) (of_nat (length data)))
             then Some (Some ErrInvalidParameter)
             else do { mi \<leftarrow> IoctlRequest_MaxInputResponse data; mo \<leftarrow> IoctlRequest_MaxOutputResponse data;
                       credit_check mc data (payload 56 data) (mi + mo) } })"

definition IoctlRequest_InputBuffer :: "bytes \<Rightarrow> bytes go" where
  "IoctlRequest_InputBuffer data =
     do { off \<leftarrow> Uint32_at (SMB2HeaderSize + 24) data; len \<leftarrow> Uint32_at (SMB2HeaderSize + 28) data; buffer off len data }"

fun dialects_loop :: "nat \<Rightarrow> nat \<Rightarrow> bytes \<Rightarrow> u16 list go" where
  "dialects_loop 0 off buf = Some []"
| "dialects_loop (Suc n) off buf =
     do { d \<leftarrow> Uint16_at off buf; ds \<leftarrow> dialects_loop n (off + 2) buf; Some (d # ds) }"

definition IoctlRequest_ValidateNegotiateInfo :: "bytes \<Rightarrow> (wire_error + u32 \<times> bytes \<times> u16 \<times> u16 list) go" where
  "IoctlRequest_ValidateNegotiateInfo data =
     do { buf \<leftarrow> IoctlRequest_InputBuffer data;
          if length buf < 24 then Some (Inl ErrWrongLength)
          else do { caps \<leftarrow> Uint32_at 0 buf; guid \<leftarrow> slice 4 20 buf; sm \<leftarrow> Uint16_at 20 buf; n \<leftarrow> Uint16_at 22 buf;
                    if length buf < 24 + unat n * 2 then Some (Inl ErrInvalidParameter)
                    else do { ds \<leftarrow> dialects_loop (unat n) 24 buf; Some (Inr (caps, guid, sm, ds)) } } }"

subsubsection \<open>Set info\<close>

definition SetInfoRequest_InfoType :: "bytes \<Rightarrow> u8 go" where "SetInfoRequest_InfoType = byte_at (SMB2HeaderSize + 2)"
definition SetInfoRequest_FileInfoClass :: "bytes \<Rightarrow> u8 go" where "SetInfoRequest_FileInfoClass = byte_at (SMB2HeaderSize + 3)"
definition SetInfoRequest_AdditionalInformation :: "bytes \<Rightarrow> u32 go" where "SetInfoRequest_AdditionalInformation = Uint32_at (SMB2HeaderSize + 12)"
definition SetInfoRequest_FileID :: "bytes \<Rightarrow> bytes go" where "SetInfoRequest_FileID data = slice (SMB2HeaderSize + 16) (SMB2HeaderSize + 32) data"

definition SetInfoRequest_Validate :: "bool \<Rightarrow> bytes \<Rightarrow> check go" where
  "SetInfoRequest_Validate mc data =
     and_then (fixed_part 32 33 data)
       (do { off \<leftarrow> Uint16_at (SMB2HeaderSize + 8) data; len \<leftarrow> Uint32_at (SMB2HeaderSize + 4) data;
             and_then (require (fits (ucast off) (ucast len) (of_nat (length data))) ErrInvalidParameter)
               (credit_check mc data (payload 32 data) 0) })"

definition SetInfoRequest_Buffer :: "bytes \<Rightarrow> bytes go" where
  "SetInfoRequest_Buffer data =
     do { off \<leftarrow> Uint16_at (SMB2HeaderSize + 8) data; len \<leftarrow> Uint32_at (SMB2HeaderSize + 4) data; buffer (ucast off) len data }"

record FileRenameInfo =
  ReplaceIfExists :: bool
  RootDirectory :: u64
  FileName :: string

definition FileRenameInfo_Decode :: "bytes \<Rightarrow> (wire_error + FileRenameInfo) go" where
  "FileRenameInfo_Decode buf =
     (if length buf < 20 then Some (Inl ErrInvalidParameter)
      else do { b \<leftarrow> byte_at 0 buf; root \<leftarrow> Uint64_at 8 buf; len \<leftarrow> Uint32_at 16 buf;
                if length buf < 20 + unat len then Some (Inl ErrInvalidParameter)
                else do { name \<leftarrow> slice 20 (unat (20 + len)) buf;
                          Some (Inr \<lparr>ReplaceIfExists = (b > 0), RootDirectory = root,
                            FileName = map (\<lambda>ch. if ch = CHR 0x5c then CHR ''/'' else ch) (DecodeToString name)\<rparr>) } })"


subsubsection \<open>Create and its contexts\<close>

definition CREATE_DURABLE_HANDLE_REQUEST :: u32 where "CREATE_DURABLE_HANDLE_REQUEST = 0x44486e51"
definition CREATE_DURABLE_HANDLE_RECONNECT :: u32 where "CREATE_DURABLE_HANDLE_RECONNECT = 0x44486e43"
definition SMB2_CREATE_DURABLE_HANDLE_REQUEST_V2 :: u32 where "SMB2_CREATE_DURABLE_HANDLE_REQUEST_V2 = 0x44483251"
definition CREATE_QUERY_MAXIMAL_ACCESS_REQUEST :: u32 where "CREATE_QUERY_MAXIMAL_ACCESS_REQUEST = 0x4d784163"
definition CREATE_QUERY_ON_DISK_ID :: u32 where "CREATE_QUERY_ON_DISK_ID = 0x51466964"
definition CREATE_REQUEST_LEASE :: u32 where "CREATE_REQUEST_LEASE = 0x52714c73"
definition FILE_DIRECTORY_FILE :: u32 where "FILE_DIRECTORY_FILE = 0x00000001"
definition FILE_OPEN_BY_FILE_ID :: u32 where "FILE_OPEN_BY_FILE_ID = 0x00002000"
definition FILE_RESERVE_OPFILTER :: u32 where "FILE_RESERVE_OPFILTER = 0x00100000"

text \<open>\<^verbatim>\<open>binary.BigEndian.Uint32\<close>.\<close>

definition BigUint32_at :: "nat \<Rightarrow> bytes \<Rightarrow> u32 go" where
  "BigUint32_at off d = map_option (\<lambda>bs. of_int (of_le (rev bs))) (slice off (off + 4) d)"

definition CreateRequest_RequestedOplockLevel :: "bytes \<Rightarrow> u8 go" where "CreateRequest_RequestedOplockLevel = byte_at (SMB2HeaderSize + 3)"
definition CreateRequest_ImpersonationLevel :: "bytes \<Rightarrow> u32 go" where "CreateRequest_ImpersonationLevel = Uint32_at (SMB2HeaderSize + 4)"
definition CreateRequest_DesiredAccess :: "bytes \<Rightarrow> u32 go" where "CreateRequest_DesiredAccess = Uint32_at (SMB2HeaderSize + 24)"
definition CreateRequest_FileAttributes :: "bytes \<Rightarrow> u32 go" where "CreateRequest_FileAttributes = Uint32_at (SMB2HeaderSize + 28)"
definition CreateRequest_ShareAccess :: "bytes \<Rightarrow> u32 go" where "CreateRequest_ShareAccess = Uint32_at (SMB2HeaderSize + 32)"
definition CreateRequest_CreateDisposition :: "bytes \<Rightarrow> u32 go" where "CreateRequest_CreateDisposition = Uint32_at (SMB2HeaderSize + 36)"
definition CreateRequest_CreateOptions :: "bytes \<Rightarrow> u32 go" where "CreateRequest_CreateOptions = Uint32_at (SMB2HeaderSize + 40)"

definition CreateRequest_SetDesiredAccess :: "u32 \<Rightarrow> bytes \<Rightarrow> bytes go" where
  "CreateRequest_SetDesiredAccess = PutUint32_at (SMB2HeaderSize + 24)"
definition CreateRequest_SetCreateOptions :: "u32 \<Rightarrow> bytes \<Rightarrow> bytes go" where
  "CreateRequest_SetCreateOptions = PutUint32_at (SMB2HeaderSize + 40)"

definition CreateRequest_CreateOptionSelected :: "u32 \<Rightarrow> bytes \<Rightarrow> bool go" where
  "CreateRequest_CreateOptionSelected option data = do { co \<leftarrow> CreateRequest_CreateOptions data; Some (co AND option > 0) }"

definition CreateRequest_Filename :: "bytes \<Rightarrow> string go" where
  "CreateRequest_Filename data =
     do { off \<leftarrow> Uint16_at (SMB2HeaderSize + 44) data; len \<leftarrow> Uint16_at (SMB2HeaderSize + 46) data;
          b \<leftarrow> buffer (ucast off) (ucast len) data; Some (DecodeToString b) }"

text \<open>
  The walk over the chain of contexts. Positions are counted in 64 bits in Go and stay below the size of the
  message plus what a 32-bit field adds, so they are natural numbers here; \<open>fits_at\<close> keeps the 64-bit sum.
\<close>

definition fits_at :: "nat \<Rightarrow> nat \<Rightarrow> bytes \<Rightarrow> bool" where
  "fits_at off len data \<longleftrightarrow> fits (of_nat off) (of_nat len) (of_nat (length data))"

function contexts_walk :: "bytes \<Rightarrow> nat \<Rightarrow> (u32 \<rightharpoonup> bytes) \<Rightarrow> (wire_error + (u32 \<rightharpoonup> bytes)) go" where
  "contexts_walk data pos contexts =
     (if pos < length data then
        (if \<not> fits_at pos 16 data then Some (Inl ErrInvalidParameter)
         else do {
           nxt \<leftarrow> Uint32_at pos data;
           if nxt \<noteq> 0 \<and> nxt < 16 then Some (Inl ErrInvalidParameter)
           else do {
             nameOff \<leftarrow> Uint16_at (pos + 4) data;
             nameLen \<leftarrow> Uint16_at (pos + 6) data;
             if nameLen > 4 then
               (if nxt = 0 then Some (Inr contexts) else contexts_walk data (pos + unat nxt) contexts)
             else if nameLen < 4 then Some (Inl ErrInvalidParameter)
             else if \<not> fits_at (pos + unat nameOff) 4 data then Some (Inl ErrInvalidParameter)
             else do {
               name \<leftarrow> BigUint32_at (pos + unat nameOff) data;
               dataOff \<leftarrow> Uint16_at (pos + 10) data;
               dataLen \<leftarrow> Uint32_at (pos + 12) data;
               if \<not> fits_at (pos + unat dataOff) (unat dataLen) data then Some (Inl ErrInvalidParameter)
               else do {
                 ctx \<leftarrow> slice (pos + unat dataOff) (pos + unat dataOff + unat dataLen) data;
                 if nxt = 0 then Some (Inr (contexts(name \<mapsto> ctx)))
                 else contexts_walk data (pos + unat nxt) (contexts(name \<mapsto> ctx)) } } } })
      else Some (Inr contexts))"
  by pat_completeness auto
termination
  by (relation "measure (\<lambda>(data, pos, _). length data - pos)") (auto simp: unat_gt_0 intro!: diff_less_mono2)

declare contexts_walk.simps [simp del]

definition CreateRequest_CreateContexts :: "bytes \<Rightarrow> (wire_error + (u32 \<rightharpoonup> bytes)) go" where
  "CreateRequest_CreateContexts data =
     do { off \<leftarrow> Uint32_at (SMB2HeaderSize + 48) data; len \<leftarrow> Uint32_at (SMB2HeaderSize + 52) data;
          if len < 4 then Some (Inr (\<lambda>_. None))
          else if \<not> fits (ucast off) (ucast len) (of_nat (length data)) then Some (Inl ErrInvalidParameter)
          else contexts_walk data (unat off) (\<lambda>_. None) }"

text \<open>What the answer to the contexts will take: the sum over the map, whose order does not matter.\<close>

definition contexts_size :: "(u32 \<rightharpoonup> bytes) \<Rightarrow> u32" where
  "contexts_size contexts =
     sum_list (map (\<lambda>(ctx, n). if contexts ctx = None then 0 else n)
       [(CREATE_DURABLE_HANDLE_REQUEST, 8), (CREATE_DURABLE_HANDLE_RECONNECT, 8), (SMB2_CREATE_DURABLE_HANDLE_REQUEST_V2, 8),
        (CREATE_QUERY_MAXIMAL_ACCESS_REQUEST, 8), (CREATE_QUERY_ON_DISK_ID, 32), (CREATE_REQUEST_LEASE, 32)])"

definition directory_check :: "u32 \<Rightarrow> u32 \<Rightarrow> check go" where
  "directory_check cd co =
     (if co AND FILE_DIRECTORY_FILE > 0
      then and_then (require (cd = 2 \<or> cd = 1 \<or> cd = 3) ErrInvalidParameter)
             (require (\<not> (co AND FILE_OPEN_BY_FILE_ID > 0 \<or> co AND FILE_RESERVE_OPFILTER > 0)) ErrNotSupported)
      else Some None)"

definition CreateRequest_Validate :: "bool \<Rightarrow> bytes \<Rightarrow> check go" where
  "CreateRequest_Validate mc data =
     and_then (fixed_part 57 57 data)
       (do { cd \<leftarrow> CreateRequest_CreateDisposition data; co \<leftarrow> CreateRequest_CreateOptions data;
             and_then (directory_check cd co)
               (do { off \<leftarrow> Uint16_at (SMB2HeaderSize + 44) data; len \<leftarrow> Uint16_at (SMB2HeaderSize + 46) data;
                     and_then (require (\<not> (off mod 8 > 0 \<or> len mod 2 > 0
                                 \<or> \<not> fits (ucast off) (ucast len) (of_nat (length data)))) ErrInvalidParameter)
                       (do { cOff \<leftarrow> Uint32_at (SMB2HeaderSize + 48) data; cLength \<leftarrow> Uint32_at (SMB2HeaderSize + 52) data;
                             and_then (require (fits (ucast cOff) (ucast cLength) (of_nat (length data))) ErrInvalidParameter)
                               (if mc then do { r \<leftarrow> CreateRequest_CreateContexts data;
                                  case r of Inl _ \<Rightarrow> Some (Some ErrInvalidParameter)
                                  | Inr contexts \<Rightarrow> credit_check mc data (payload 57 data) (contexts_size contexts) }
                                else Some None) }) }) })"

subsection \<open>Every request together\<close>

text \<open>The kinds of request, the check of each, and that none of the fields of each makes its accessor panic.\<close>

datatype kind = Cancel | Echo | Logoff | TreeDisconnect | Close | Flush | OplockBreak | LeaseBreak | LockK | Read | Write | ChangeNotify | SessionSetup | TreeConnect | Ioctl | SetInfo | Create

fun Validate :: "kind \<Rightarrow> bool \<Rightarrow> bytes \<Rightarrow> check go" where
  "Validate Cancel mc data = CancelRequest_Validate data"
| "Validate Echo mc data = EchoRequest_Validate data"
| "Validate Logoff mc data = LogoffRequest_Validate data"
| "Validate TreeDisconnect mc data = TreeDisconnectRequest_Validate data"
| "Validate Close mc data = CloseRequest_Validate data"
| "Validate Flush mc data = FlushRequest_Validate data"
| "Validate OplockBreak mc data = OplockBreakRequest_Validate data"
| "Validate LeaseBreak mc data = LeaseBreakRequest_Validate data"
| "Validate LockK mc data = LockRequest_Validate mc data"
| "Validate Read mc data = ReadRequest_Validate mc data"
| "Validate Write mc data = WriteRequest_Validate mc data"
| "Validate ChangeNotify mc data = ChangeNotifyRequest_Validate mc data"
| "Validate SessionSetup mc data = SessionSetupRequest_Validate mc data"
| "Validate TreeConnect mc data = TreeConnectRequest_Validate mc data"
| "Validate Ioctl mc data = IoctlRequest_Validate mc data"
| "Validate SetInfo mc data = SetInfoRequest_Validate mc data"
| "Validate Create mc data = CreateRequest_Validate mc data"

fun fields_safe :: "kind \<Rightarrow> bytes \<Rightarrow> bool" where
  "fields_safe Cancel data = True"
| "fields_safe Echo data = True"
| "fields_safe Logoff data = True"
| "fields_safe TreeDisconnect data = True"
| "fields_safe Close data = (safe (CloseRequest_Flags data)
       \<and> safe (CloseRequest_FileID data))"
| "fields_safe Flush data = (safe (FlushRequest_FileID data))"
| "fields_safe OplockBreak data = (safe (OplockBreakRequest_OplockLevel data)
       \<and> safe (OplockBreakRequest_FileID data))"
| "fields_safe LeaseBreak data = (safe (LeaseBreakRequest_LeaseKey data)
       \<and> safe (LeaseBreakRequest_LeaseState data))"
| "fields_safe LockK data = (safe (LockRequest_FileID data)
       \<and> safe (LockRequest_LockSequenceNumber data)
       \<and> safe (LockRequest_LockSequenceIndex data)
       \<and> safe (LockRequest_Locks data))"
| "fields_safe Read data = (safe (ReadRequest_Padding data)
       \<and> safe (ReadRequest_Flags data)
       \<and> safe (ReadRequest_Length data)
       \<and> safe (ReadRequest_Offset data)
       \<and> safe (ReadRequest_FileID data)
       \<and> safe (ReadRequest_MinimumCount data)
       \<and> safe (ReadRequest_Channel data))"
| "fields_safe Write data = (safe (WriteRequest_DataOffset data)
       \<and> safe (WriteRequest_Offset data)
       \<and> safe (WriteRequest_FileID data)
       \<and> safe (WriteRequest_Channel data)
       \<and> safe (WriteRequest_Flags data)
       \<and> safe (WriteRequest_Buffer data))"
| "fields_safe ChangeNotify data = (safe (ChangeNotifyRequest_Flags data)
       \<and> safe (ChangeNotifyRequest_OutputBufferLength data)
       \<and> safe (ChangeNotifyRequest_FileID data)
       \<and> safe (ChangeNotifyRequest_CompletionFilter data))"
| "fields_safe SessionSetup data = (safe (SessionSetupRequest_Capabilities data)
       \<and> safe (SessionSetupRequest_PreviousSessionID data)
       \<and> safe (SessionSetupRequest_Flags data)
       \<and> safe (SessionSetupRequest_SecurityMode data)
       \<and> safe (SessionSetupRequest_SecurityBuffer data))"
| "fields_safe TreeConnect data = (safe (TreeConnectRequest_PathName data))"
| "fields_safe Ioctl data = (safe (IoctlRequest_CtlCode data)
       \<and> safe (IoctlRequest_FileID data)
       \<and> safe (IoctlRequest_MaxInputResponse data)
       \<and> safe (IoctlRequest_MaxOutputResponse data)
       \<and> safe (IoctlRequest_Flags data)
       \<and> safe (IoctlRequest_InputBuffer data)
       \<and> safe (IoctlRequest_ValidateNegotiateInfo data))"
| "fields_safe SetInfo data = (safe (SetInfoRequest_InfoType data)
       \<and> safe (SetInfoRequest_FileInfoClass data)
       \<and> safe (SetInfoRequest_AdditionalInformation data)
       \<and> safe (SetInfoRequest_FileID data)
       \<and> safe (SetInfoRequest_Buffer data))"
| "fields_safe Create data = (safe (CreateRequest_RequestedOplockLevel data)
       \<and> safe (CreateRequest_ImpersonationLevel data)
       \<and> safe (CreateRequest_DesiredAccess data)
       \<and> safe (CreateRequest_FileAttributes data)
       \<and> safe (CreateRequest_ShareAccess data)
       \<and> safe (CreateRequest_CreateDisposition data)
       \<and> safe (CreateRequest_CreateOptions data)
       \<and> safe (CreateRequest_Filename data)
       \<and> safe (CreateRequest_CreateContexts data))"

lemmas accessor_defs =
  CloseRequest_Flags_def CloseRequest_FileID_def FlushRequest_FileID_def OplockBreakRequest_OplockLevel_def
  OplockBreakRequest_FileID_def LeaseBreakRequest_LeaseKey_def LeaseBreakRequest_LeaseState_def LockRequest_FileID_def
  LockRequest_LockSequenceNumber_def LockRequest_LockSequenceIndex_def LockRequest_Locks_def ReadRequest_Padding_def
  ReadRequest_Flags_def ReadRequest_Length_def ReadRequest_Offset_def ReadRequest_FileID_def
  ReadRequest_MinimumCount_def ReadRequest_Channel_def WriteRequest_DataOffset_def WriteRequest_Offset_def
  WriteRequest_FileID_def WriteRequest_Channel_def WriteRequest_Flags_def WriteRequest_Buffer_def
  ChangeNotifyRequest_Flags_def ChangeNotifyRequest_OutputBufferLength_def ChangeNotifyRequest_FileID_def ChangeNotifyRequest_CompletionFilter_def
  SessionSetupRequest_Capabilities_def SessionSetupRequest_PreviousSessionID_def SessionSetupRequest_Flags_def SessionSetupRequest_SecurityMode_def
  SessionSetupRequest_SecurityBuffer_def IoctlRequest_CtlCode_def IoctlRequest_FileID_def IoctlRequest_MaxInputResponse_def
  IoctlRequest_MaxOutputResponse_def IoctlRequest_Flags_def IoctlRequest_InputBuffer_def IoctlRequest_ValidateNegotiateInfo_def
  SetInfoRequest_InfoType_def SetInfoRequest_FileInfoClass_def SetInfoRequest_AdditionalInformation_def SetInfoRequest_FileID_def
  SetInfoRequest_Buffer_def TreeConnectRequest_PathName_def CreateRequest_RequestedOplockLevel_def CreateRequest_ImpersonationLevel_def
  CreateRequest_DesiredAccess_def CreateRequest_FileAttributes_def CreateRequest_ShareAccess_def CreateRequest_CreateDisposition_def
  CreateRequest_CreateOptions_def CreateRequest_Filename_def CreateRequest_CreateContexts_def

lemmas validate_defs =
  CancelRequest_Validate_def EchoRequest_Validate_def LogoffRequest_Validate_def TreeDisconnectRequest_Validate_def
  CloseRequest_Validate_def FlushRequest_Validate_def OplockBreakRequest_Validate_def LeaseBreakRequest_Validate_def
  LockRequest_Validate_def ReadRequest_Validate_def WriteRequest_Validate_def ChangeNotifyRequest_Validate_def
  SessionSetupRequest_Validate_def TreeConnectRequest_Validate_def IoctlRequest_Validate_def SetInfoRequest_Validate_def
  CreateRequest_Validate_def

lemma safe_and_then [simp]: "safe (and_then a b) \<longleftrightarrow> safe a \<and> (a = Some None \<longrightarrow> safe b)"
  by (cases a) (auto simp: and_then_def split: option.splits)

lemma and_then_ok [simp]: "and_then a b = Some None \<longleftrightarrow> a = Some None \<and> b = Some None"
  by (cases a) (auto simp: and_then_def split: option.splits)

lemma safe_require [simp]: "safe (require ok e)"
  by (simp add: require_def)

lemma require_ok [simp]: "require ok e = Some None \<longleftrightarrow> ok"
  by (simp add: require_def)

lemma structureSize_safe: "SMB2HeaderSize + 2 \<le> length data \<Longrightarrow> safe (structureSize data)"
  by (simp add: structureSize_def Header_IsSmb_def Header_ProtocolID_def SMB2HeaderSize_def)

lemma fixed_part_safe [simp]: "2 \<le> minSize \<Longrightarrow> safe (fixed_part minSize sz data)"
  by (auto simp: fixed_part_def intro: structureSize_safe)

lemma fixed_part_ok: "fixed_part minSize sz data = Some None \<Longrightarrow> 64 + minSize \<le> length data"
  by (auto simp: fixed_part_def SMB2HeaderSize_def split: if_splits)

lemma credit_check_safe: "8 \<le> length data \<Longrightarrow> safe (credit_check mc data sps ers)"
  by (simp add: credit_check_def Header_CreditCharge_def)

subsubsection \<open>Bounds that do not wrap\<close>

lemma unat_of_nat_64: "n < 2 ^ 64 \<Longrightarrow> unat (of_nat n :: u64) = n"
  by (simp add: unat_of_nat)

lemma fits_iff:
  assumes "unat off + unat len < 2 ^ 64"
  shows "fits off len sz \<longleftrightarrow> unat off + unat len \<le> unat sz"
  using assms by (simp add: fits_def word_le_nat_alt unat_word_ariths)

lemma fits_at_iff:
  assumes "off + len < 2 ^ 64" "length data < 2 ^ 64"
  shows "fits_at off len data \<longleftrightarrow> off + len \<le> length data"
  using assms by (simp add: fits_at_def fits_iff unat_of_nat_64)

lemma unat_ucast_up: "LENGTH('a) \<le> LENGTH('b) \<Longrightarrow> unat (ucast (w :: 'a :: len word) :: 'b :: len word) = unat w"
  using order_less_le_trans[OF unsigned_less[of w, where 'a = nat], of "2 ^ LENGTH('b)"]
  by (simp add: unsigned_ucast_eq take_bit_nat_eq_self_iff)

lemma buffer_safe:
  assumes "length data < 2 ^ 32"
  shows "safe (buffer off len data)"
proof (cases "fits (ucast off) (ucast len) (of_nat (length data))")
  case True
  have b: "unat off < 2 ^ 32" "unat len < 2 ^ 32" using unsigned_less[of off, where 'a = nat] unsigned_less[of len, where 'a = nat] by simp_all
  then have "unat off + unat len \<le> length data"
    using True assms fits_iff[of "ucast off" "ucast len" "of_nat (length data)"]
    by (simp add: unat_ucast_up unat_of_nat_64)
  then show ?thesis using assms b by (simp add: buffer_def unat_word_ariths)
qed (simp add: buffer_def)

lemma Locks_loop_safe: "off + 24 * n \<le> length data \<Longrightarrow> safe (LockRequest_Locks_loop n off data)"
  by (induction n off data rule: LockRequest_Locks_loop.induct) auto

lemma dialects_loop_safe: "off + 2 * n \<le> length buf \<Longrightarrow> safe (dialects_loop n off buf)"
  by (induction n off buf rule: dialects_loop.induct) auto

lemma safe_BigUint32_at [simp]: "safe (BigUint32_at off d) \<longleftrightarrow> off + 4 \<le> length d"
  by (simp add: BigUint32_at_def)

lemma contexts_walk_safe: "length data < 2 ^ 32 \<Longrightarrow> safe (contexts_walk data pos contexts)"
proof (induction data pos contexts rule: contexts_walk.induct)
  case (1 data pos contexts)
  have w: "unat (w16 :: u16) < 2 ^ 16" "unat (w32 :: u32) < 2 ^ 32" for w16 w32
    using unsigned_less[of w16, where 'a = nat] unsigned_less[of w32, where 'a = nat] by simp_all
  show ?case
  proof (cases "pos < length data")
    case True
    have f: "fits_at (pos + k) n data \<longleftrightarrow> pos + k + n \<le> length data" if "k < 2 ^ 32" "n < 2 ^ 32" for k n
      using 1(3) True that by (intro fits_at_iff) simp_all
    have f16: "fits_at pos 16 data \<longleftrightarrow> pos + 16 \<le> length data" using f[of 0 16] by simp
    have fo: "fits_at (pos + unat (o16 :: u16)) n data \<longleftrightarrow> pos + unat o16 + n \<le> length data" if "n < 2 ^ 32" for o16 n
      using f[of "unat o16" n] w(1)[of o16] that by simp
    show ?thesis
      using 1 True f16 fo[of 4] fo[OF w(2)]
      by (subst contexts_walk.simps) (auto simp: fun_upd_def)
  qed (subst contexts_walk.simps, simp)
qed

lemma CreateContexts_safe: "120 \<le> length data \<Longrightarrow> length data < 2 ^ 32 \<Longrightarrow> safe (CreateRequest_CreateContexts data)"
  by (auto simp: CreateRequest_CreateContexts_def SMB2HeaderSize_def intro: contexts_walk_safe)

subsubsection \<open>The properties\<close>

lemma Validate_safe: "length data < 2 ^ 32 \<Longrightarrow> safe (Validate k mc data)"
  by (cases k)
    (auto simp: validate_defs accessor_defs(1-1) SMB2HeaderSize_def directory_check_def
      ReadRequest_Length_def WriteRequest_DataOffset_def ChangeNotifyRequest_OutputBufferLength_def
      IoctlRequest_MaxInputResponse_def IoctlRequest_MaxOutputResponse_def CreateRequest_CreateDisposition_def
      CreateRequest_CreateOptions_def
      dest!: fixed_part_ok intro!: credit_check_safe CreateContexts_safe split: sum.splits)

lemma fields_safe_simple:
  assumes "Validate k mc data = Some None" "k \<notin> {LockK, Write, SessionSetup, TreeConnect, Ioctl, SetInfo, Create}"
  shows "fields_safe k data"
  using assms by (cases k) (auto simp: validate_defs accessor_defs SMB2HeaderSize_def dest!: fixed_part_ok)

lemma fields_safe_buffers:
  assumes "length data < 2 ^ 32"
  shows "Validate Write mc data = Some None \<Longrightarrow> fields_safe Write data"
    "Validate SessionSetup mc data = Some None \<Longrightarrow> fields_safe SessionSetup data"
    "Validate TreeConnect mc data = Some None \<Longrightarrow> fields_safe TreeConnect data"
    "Validate SetInfo mc data = Some None \<Longrightarrow> fields_safe SetInfo data"
  using assms buffer_safe[OF assms]
  by (auto simp: validate_defs accessor_defs SMB2HeaderSize_def dest!: fixed_part_ok)

lemma ValidateNegotiateInfo_safe:
  "length data < 2 ^ 32 \<Longrightarrow> 120 \<le> length data \<Longrightarrow> safe (IoctlRequest_ValidateNegotiateInfo data)"
  by (auto simp: IoctlRequest_ValidateNegotiateInfo_def IoctlRequest_InputBuffer_def SMB2HeaderSize_def
      intro!: buffer_safe dialects_loop_safe)

lemma fields_safe_ioctl:
  assumes "length data < 2 ^ 32" "Validate Ioctl mc data = Some None"
  shows "fields_safe Ioctl data"
proof -
  have l: "120 \<le> length data" using assms(2) by (auto simp: IoctlRequest_Validate_def dest!: fixed_part_ok)
  have "safe (IoctlRequest_InputBuffer data)"
    using l buffer_safe[OF assms(1)] by (simp add: IoctlRequest_InputBuffer_def SMB2HeaderSize_def)
  with l ValidateNegotiateInfo_safe[OF assms(1) l] show ?thesis
    by (simp add: IoctlRequest_CtlCode_def IoctlRequest_FileID_def IoctlRequest_MaxInputResponse_def
        IoctlRequest_MaxOutputResponse_def IoctlRequest_Flags_def SMB2HeaderSize_def)
qed

lemma fields_safe_lock:
  assumes "Validate LockK mc data = Some None"
  shows "fields_safe LockK data"
proof -
  have l: "88 \<le> length data" using assms by (auto simp: LockRequest_Validate_def dest!: fixed_part_ok)
  obtain n where n: "Uint16_at (SMB2HeaderSize + 2) data = Some n" "length data = SMB2HeaderSize + 24 + 24 * unat n"
    using assms by (auto simp: LockRequest_Validate_def bind_eq_Some_conv split: if_splits)
  then have "safe (LockRequest_Locks data)" by (simp add: LockRequest_Locks_def Locks_loop_safe)
  with l show ?thesis
    by (simp add: LockRequest_FileID_def LockRequest_LockSequenceNumber_def LockRequest_LockSequenceIndex_def SMB2HeaderSize_def)
qed

lemma fields_safe_create:
  assumes "length data < 2 ^ 32" "Validate Create mc data = Some None"
  shows "fields_safe Create data"
proof -
  have l: "121 \<le> length data" using assms by (auto simp: CreateRequest_Validate_def dest!: fixed_part_ok)
  with CreateContexts_safe[of data] buffer_safe[OF assms(1)] assms(1) show ?thesis
    by (simp add: CreateRequest_RequestedOplockLevel_def CreateRequest_ImpersonationLevel_def CreateRequest_DesiredAccess_def
        CreateRequest_FileAttributes_def CreateRequest_ShareAccess_def CreateRequest_CreateDisposition_def
        CreateRequest_CreateOptions_def CreateRequest_Filename_def SMB2HeaderSize_def)
qed



subsection \<open>What a charge covers\<close>

text \<open>The pages of 64 KiB a number of bytes takes, as the code counts them: in 16 bits, from one less than the number.\<close>

lemma pages_unat: "unat (ucast ((m - 1) div 65536) + 1 :: u16) = (unat (m - 1 :: u32) div 65536 + 1) mod 65536"
proof -
  have "unat ((m - 1) div 65536) = unat (m - 1) div 65536" by (simp add: unat_div)
  moreover have "unat (m - 1) div 65536 < 65536"
    using unsigned_less[of "m - 1", where ?'a = nat] by (simp add: less_mult_imp_div_less)
  ultimately show ?thesis by (simp add: unat_word_ariths unsigned_ucast_eq take_bit_eq_mod)
qed

lemma pages_le:
  fixes n c :: nat
  assumes "0 < n" "n < 2 ^ 32" "0 < c"
  shows "((n - 1) div 65536 + 1) mod 65536 \<le> c \<longleftrightarrow> 0xffff0000 < n \<or> n \<le> 65536 * c"
proof (cases "0xffff0000 < n")
  case True
  then have "(n - 1) div 65536 = 65535" using assms(2) by (simp add: div_nat_eqI)
  then show ?thesis using True by simp
next
  case False
  then have "((n - 1) div 65536 + 1) mod 65536 = (n - 1) div 65536 + 1"
    using assms(1) by (intro mod_less) (simp add: div_less_iff_less_mult)
  moreover have "(n - 1) div 65536 + 1 \<le> c \<longleftrightarrow> n \<le> 65536 * c"
    using assms(1,3) by (auto simp: Suc_le_eq div_less_iff_less_mult)
  ultimately show ?thesis using False by simp
qed

text \<open>What the charge check lets through, for every charge and every size sent and asked for: without a
  charge one page of 64 KiB; with one, as many pages as it says - but also, because the count of pages is cut to 16
  bits before one is added to it, anything of more than 0xffff0000 bytes.\<close>

theorem credit_charge_covers:
  "credit_ok charge sps ers \<longleftrightarrow> (let n = unat (max sps ers); c = unat charge in
     if c = 0 then n \<le> 65536 else n \<le> 65536 * c \<or> 0xffff0000 < n)"
proof (cases "charge = 0")
  case True
  then show ?thesis by (auto simp: credit_ok_def word_less_nat_alt max_def word_le_nat_alt)
next
  case False
  define m where "m = max sps ers"
  have c: "0 < unat charge" using False by (simp add: unat_gt_0)
  have ok: "credit_ok charge sps ers \<longleftrightarrow> (unat (m - 1) div 65536 + 1) mod 65536 \<le> unat charge"
    using False pages_unat[of m] by (simp add: credit_ok_def m_def word_less_nat_alt not_less)
  show ?thesis
  proof (cases "m = 0")
    case True
    then have "unat (m - 1) = 2 ^ 32 - 1" by (simp add: unsigned_minus_1_eq_mask mask_eq_exp_minus_1)
    with True ok c show ?thesis by (simp flip: m_def)
  next
    case False
    then have "unat (m - 1) = unat m - 1" "0 < unat m" by (simp_all add: unat_minus_one unat_gt_0)
    with ok c pages_le[of "unat m" "unat charge"] unsigned_less[of m, where ?'a = nat] show ?thesis by (simp add: Let_def disj_commute flip: m_def)
  qed
qed

end
