(* ===== verification/Wire_Compound.thy ===== *)
theory Wire_Compound
  imports Wire_Requests
begin

section \<open>Messages on the wire: compounds\<close>

text \<open>
  \<^verbatim>\<open>src/smb2/request.go\<close>: cutting a message up into its requests (\<^verbatim>\<open>GetRequests\<close>). The header of each says where
  the next begins. Random identifiers are left out: a request is its bytes, and whether the requests of the message are
  related, which gives all of them the same group, is returned beside them. Offsets stay below the length of the
  message, which is below 2^32, so they are natural numbers.
\<close>

subsection \<open>Cutting a message up\<close>

lemma unat_pos: "(x :: 'a :: len word) \<noteq> 0 \<Longrightarrow> 0 < unat x"
  by (simp add: unat_gt_0)

function get_requests_loop ::
  "bytes \<Rightarrow> nat \<Rightarrow> u32 \<Rightarrow> bytes \<Rightarrow> bool \<Rightarrow> bytes list \<Rightarrow> (wire_error + bytes list \<times> bool) go" where
  "get_requests_loop data off nxt req related reqs =
     (if nxt AND 7 > 0 then Some (Inl ErrUnalignedRequests)
      else do {
        flag \<leftarrow> Header_IsFlagSet FLAGS_RELATED_OPERATIONS req;
        if off = 0 \<and> flag then Some (Inl ErrRelatedRequests)
        else if length reqs > 1 \<and> ((\<not> related \<and> flag) \<or> (related \<and> \<not> flag)) then Some (Inl ErrMixedRequests)
        else let related = (related \<or> flag) in
          if nxt = 0 then Some (Inr (reqs @ [req], related))
          else if off + unat nxt > length data then Some (Inl ErrWrongLength)
          else do {
            d \<leftarrow> slice off (off + unat nxt) data;
            req \<leftarrow> slice (off + unat nxt) (length data) data;
            e \<leftarrow> Header_Validate req;
            case e of
              Some err \<Rightarrow> Some (Inl err)
            | None \<Rightarrow> do { nxt' \<leftarrow> Header_NextCommand req;
                            get_requests_loop data (off + unat nxt) nxt' req related (reqs @ [d]) } } })"
  by pat_completeness auto
termination
  by (relation "measure (\<lambda>(data, off, _). length data - off)") (auto dest!: unat_pos)

declare get_requests_loop.simps [simp del]

definition GetRequests :: "bytes \<Rightarrow> (wire_error + bytes list \<times> bool) go" where
  "GetRequests data =
     do { e \<leftarrow> Header_Validate data;
          case e of
            Some err \<Rightarrow> Some (Inl err)
          | None \<Rightarrow> do { nxt \<leftarrow> Header_NextCommand data;
                          if nxt = 0 then Some (Inr ([data], False))
                          else get_requests_loop data 0 nxt data False [] } }"

lemma get_requests_loop_safe: "32 \<le> length req \<Longrightarrow> safe (get_requests_loop data off nxt req related reqs)"
proof (induction "length data - off" arbitrary: off nxt req related reqs rule: less_induct)
  case less
  have "safe (get_requests_loop data (off + unat nxt) nxt' req' related' reqs')"
    if "nxt \<noteq> 0" "\<not> length data < off + unat nxt" "Header_Validate req' = Some None" for nxt' req' related' reqs'
    using that unat_pos[OF that(1)] Header_Validate_length[OF that(3)] by (intro less.hyps) simp_all
  then show ?case
    using less.prems by (subst get_requests_loop.simps)
      (auto simp: Header_IsFlagSet_def Header_Flags_def Header_NextCommand_def Let_def
        dest: Header_Validate_length split: option.splits)
qed

lemma GetRequests_safe: "safe (GetRequests data)"
  by (auto simp: GetRequests_def Header_NextCommand_def dest: Header_Validate_length
      intro: get_requests_loop_safe split: option.splits)

text \<open>What the requests of a message are: its bytes, cut at multiples of eight.\<close>

definition cut_up :: "bytes list \<Rightarrow> bytes \<Rightarrow> bool" where
  "cut_up rs data \<longleftrightarrow> concat rs = data \<and> rs \<noteq> [] \<and> (\<forall>r \<in> set (butlast rs). length r mod 8 = 0 \<and> r \<noteq> [])
     \<and> Header_Validate (last rs) = Some None"

lemma and_7_zero: "(x :: u32) AND 7 > 0 \<longleftrightarrow> unat x mod 8 \<noteq> 0"
proof -
  have "(7 :: u32) = mask 3" by (simp add: mask_eq_exp_minus_1)
  then have "x AND 7 = take_bit 3 x" by (simp add: take_bit_eq_mask)
  then have "unat (x AND 7) = unat x mod 8" by (simp add: take_bit_eq_mod unat_mod_distrib)
  then show ?thesis by (metis unat_gt_0 gr0I less_irrefl unat_eq_0 word_neq_0_conv)
qed

lemma get_requests_loop_cut:
  assumes "get_requests_loop data off nxt req related reqs = Some (Inr (rs, rel))"
    and "req = drop off data" "concat reqs = take off data" "off \<le> length data"
    and "\<forall>r \<in> set reqs. length r mod 8 = 0 \<and> r \<noteq> []" "Header_Validate req = Some None"
  shows "cut_up rs data"
  using assms
proof (induction data off nxt req related reqs rule: get_requests_loop.induct)
  case (1 data off nxt req related reqs)
  show ?case
  proof (cases "nxt = 0")
    case True
    then have "rs = reqs @ [req]"
      using 1(2) by (subst (asm) get_requests_loop.simps) (auto simp: bind_eq_Some_conv Let_def split: if_splits)
    then show ?thesis using 1(3-) by (simp add: cut_up_def)
  next
    case False
    let ?off = "off + unat nxt"
    obtain flag nxt' where ok: "\<not> nxt AND 7 > 0" "Header_IsFlagSet FLAGS_RELATED_OPERATIONS req = Some flag" "\<not> (off = 0 \<and> flag)"
      "\<not> (length reqs > 1 \<and> ((\<not> related \<and> flag) \<or> (related \<and> \<not> flag)))" "\<not> length data < ?off"
      "Header_Validate (drop ?off data) = Some None" "Header_NextCommand (drop ?off data) = Some nxt'"
      and rec: "get_requests_loop data ?off nxt' (drop ?off data) (related \<or> flag) (reqs @ [take (unat nxt) (drop off data)]) = Some (Inr (rs, rel))"
      using 1(2) False
      by (subst (asm) get_requests_loop.simps) (auto simp: bind_eq_Some_conv Let_def slice_def split: if_splits option.splits)
    have sl: "slice off ?off data = Some (take (unat nxt) (drop off data))" "slice ?off (length data) data = Some (drop ?off data)"
      using ok(5) by (auto simp: slice_def)
    have n8: "unat nxt mod 8 = 0" using ok(1) and_7_zero by simp
    have "length (take (unat nxt) (drop off data)) = unat nxt" using ok(5) by simp
    then have piece: "length (take (unat nxt) (drop off data)) mod 8 = 0" "take (unat nxt) (drop off data) \<noteq> []"
      using n8 unat_pos[OF False] by (metis, metis length_0_conv less_irrefl)
    have "concat (reqs @ [take (unat nxt) (drop off data)]) = take ?off data"
      using 1(4) by (simp add: take_add)
    then show ?thesis
      using 1(1)[OF ok(1-4) refl False ok(5) sl ok(6) refl ok(7)] rec 1(6) ok piece by simp
  qed
qed

text \<open>C35 (compound_cut_up). Whatever bytes a client sends as a message, cutting it up into requests comes to an end and
  does not panic, and when it succeeds the requests are the message cut into pieces: in order, nothing left out,
  nothing shared, every piece but the last a multiple of eight bytes long, and the last with a valid header.\<close>

theorem compound_cut_up:
  "safe (GetRequests data) \<and> (\<forall>rs related. GetRequests data = Some (Inr (rs, related)) \<longrightarrow> cut_up rs data)"
proof -
  have "cut_up rs data" if ok: "GetRequests data = Some (Inr (rs, related))" for rs related
  proof -
    obtain nxt where v: "Header_Validate data = Some None" and n: "Header_NextCommand data = Some nxt"
      and r: "(if nxt = 0 then Some (Inr ([data], False)) else get_requests_loop data 0 nxt data False []) = Some (Inr (rs, related))"
      using ok by (auto simp: GetRequests_def bind_eq_Some_conv split: option.splits)
    show ?thesis
    proof (cases "nxt = 0")
      case True
      then show ?thesis using r v by (auto simp: cut_up_def)
    next
      case False
      then show ?thesis using r v by (intro get_requests_loop_cut[of data 0 nxt data False "[]" rs related]) simp_all
    qed
  qed
  then show ?thesis using GetRequests_safe by blast
qed

theorem compound_cut_up_witness:
  "let m = sample_message 0 72 ([4, 0, 0, 0] @ replicate 4 0); r = sample_message 4 0 [4, 0, 0, 0]
   in GetRequests (m @ r) = Some (Inr ([m, r], True)) \<and> cut_up [m, r] (m @ r)"
proof -
  let ?m = "sample_message 0 72 ([4, 0, 0, 0] @ replicate 4 0)" and ?r = "sample_message 4 0 [4, 0, 0, 0]"
  have "GetRequests (?m @ ?r) = Some (Inr ([?m, ?r], True))" by code_simp
  with compound_cut_up[of "?m @ ?r"] show ?thesis unfolding Let_def by blast
qed

end
