(* ===== verification/File_Time.thy ===== *)
theory File_Time
  imports Sombrero_Prelude "HOL-Library.Signed_Division"
begin

section \<open>File times\<close>

text \<open>
  \<^verbatim>\<open>src/utils/filetime.go\<close>. A time is its Unix time in seconds, which is all the functions read of it.
\<close>

definition filetimeOffset :: int where "filetimeOffset = 11644473600"

definition UnixToFiletime :: "int \<Rightarrow> u64" where
  "UnixToFiletime t = (let secs = t + filetimeOffset in if secs \<le> 0 then 0 else of_int secs * 10000000)"

definition FiletimeToUnix :: "u64 \<Rightarrow> int" where
  "FiletimeToUnix ft = sint ft sdiv 10000000 - filetimeOffset"

lemma sint_of_int: "0 \<le> n \<Longrightarrow> n < 2 ^ 63 \<Longrightarrow> sint (of_int n :: u64) = n"
  by (simp add: sint_sbintrunc' signed_take_bit_int_eq_self_iff)

lemma uint_of_int: "0 \<le> n \<Longrightarrow> n < 2 ^ 64 \<Longrightarrow> uint (of_int n :: u64) = n"
  by (simp add: uint_word_of_int)

lemma UnixToFiletime_ticks:
  assumes "0 < t + filetimeOffset" "n = (t + filetimeOffset) * 10000000"
  shows "UnixToFiletime t = of_int n" "0 \<le> n"
  using assms by (simp_all add: UnixToFiletime_def Let_def)

lemma filetime_roundtrip:
  assumes "0 < t + filetimeOffset" "(t + filetimeOffset) * 10000000 < 2 ^ 63"
  shows "FiletimeToUnix (UnixToFiletime t) = t"
proof -
  obtain n where n: "n = (t + filetimeOffset) * 10000000" by simp
  note u = UnixToFiletime_ticks[OF assms(1) n]
  have "sint (UnixToFiletime t) = n" using u assms(2) n by (simp only: u(1) sint_of_int)
  then show ?thesis using assms(1) n by (simp add: FiletimeToUnix_def signed_divide_int_def)
qed

lemma filetime_order:
  assumes "s \<le> t" "(t + filetimeOffset) * 10000000 < 2 ^ 64"
  shows "UnixToFiletime s \<le> UnixToFiletime t"
proof (cases "0 < s + filetimeOffset")
  case True
  obtain m n where mn: "m = (s + filetimeOffset) * 10000000" "n = (t + filetimeOffset) * 10000000" by simp
  have t: "0 < t + filetimeOffset" using True assms(1) by simp
  have "m \<le> n" "n < 2 ^ 64" using mn assms by simp_all
  then show ?thesis
    using UnixToFiletime_ticks[OF True mn(1)] UnixToFiletime_ticks[OF t mn(2)] by (simp only: word_le_def uint_of_int)
qed (simp add: UnixToFiletime_def Let_def)

end
