(* ===== verification/Wire_Responses.thy ===== *)
theory Wire_Responses
  imports Wire_Requests File_Time Slices
begin

section \<open>Messages on the wire: responses\<close>

text \<open>
  The responses of \<^verbatim>\<open>src/smb2\<close>: each starts as a copy of the header of its request (\<^verbatim>\<open>FromRequest\<close>) with a body of its own
  behind it, whose fields the setters fill in. A response is its bytes. What is shown: the copy never panics on a request
  with a full header, and the response names the message, session and command of the request it answers. The second
  part is the chain of create contexts, and that a reader gets back what was put into it.
\<close>

subsection \<open>From a request\<close>

definition STATUS_MORE_PROCESSING_REQUIRED :: u32 where "STATUS_MORE_PROCESSING_REQUIRED = 0xc0000016"
definition STATUS_NONE_MAPPED :: u32 where "STATUS_NONE_MAPPED = 0xc0000073"
definition PENDING :: u32 where "PENDING = 0x00000103"

definition Response_FromRequest :: "u64 \<Rightarrow> bytes \<Rightarrow> bytes go" where
  "Response_FromRequest gid req =
     do { d \<leftarrow> Header_CopyFrom req (replicate SMB2HeaderSize 0);
          d \<leftarrow> Header_SetStatus STATUS_OK d;
          d \<leftarrow> Header_SetFlag FLAGS_SERVER_TO_REDIR d;
          if gid = 0 then Header_ClearFlag FLAGS_RELATED_OPERATIONS d else Some d }"

text \<open>
  What the \<^verbatim>\<open>FromRequest\<close> of every response does: a body of zeros, the structure size, no next command and a status of
  success. What they do about the credits differs: nothing, the most of what was charged and asked for, one, or what
  was asked for; none at all for a request taken on asynchronously.
\<close>

datatype credits = AsCopied | ChargeOrRequest | Single | AsRequested

definition set_credits :: "credits \<Rightarrow> bytes \<Rightarrow> bytes \<Rightarrow> bytes go" where
  "set_credits mode req d =
     do { async \<leftarrow> Header_IsFlagSet FLAGS_ASYNC_COMMAND d;
          if async then Header_SetCreditResponse 0 d
          else case mode of
            AsCopied \<Rightarrow> Some d
          | ChargeOrRequest \<Rightarrow> do { cc \<leftarrow> Header_CreditCharge req; cr \<leftarrow> Header_CreditRequest req; Header_SetCreditResponse (max cc cr) d }
          | Single \<Rightarrow> Header_SetCreditResponse 1 d
          | AsRequested \<Rightarrow> do { cr \<leftarrow> Header_CreditRequest req; Header_SetCreditResponse cr d } }"

definition from_request :: "nat \<Rightarrow> u16 \<Rightarrow> credits \<Rightarrow> u64 \<Rightarrow> bytes \<Rightarrow> bytes go" where
  "from_request minSize sz mode gid req =
     do { d \<leftarrow> Response_FromRequest gid req;
          d \<leftarrow> PutUint16_at SMB2HeaderSize sz (d @ replicate minSize 0);
          d \<leftarrow> Header_SetNextCommand 0 d;
          d \<leftarrow> Header_SetStatus STATUS_OK d;
          set_credits mode req d }"

definition EchoResponse_FromRequest :: "u64 \<Rightarrow> bytes \<Rightarrow> bytes go" where "EchoResponse_FromRequest = from_request 4 4 AsCopied"
definition FlushResponse_FromRequest :: "u64 \<Rightarrow> bytes \<Rightarrow> bytes go" where "FlushResponse_FromRequest = from_request 4 4 AsCopied"
definition LockResponse_FromRequest :: "u64 \<Rightarrow> bytes \<Rightarrow> bytes go" where "LockResponse_FromRequest = from_request 4 4 AsCopied"
definition TreeDisconnectResponse_FromRequest :: "u64 \<Rightarrow> bytes \<Rightarrow> bytes go" where "TreeDisconnectResponse_FromRequest = from_request 4 4 AsCopied"
definition TreeConnectResponse_FromRequest :: "u64 \<Rightarrow> bytes \<Rightarrow> bytes go" where "TreeConnectResponse_FromRequest = from_request 16 16 AsCopied"
definition OplockBreakResponse_FromRequest :: "u64 \<Rightarrow> bytes \<Rightarrow> bytes go" where "OplockBreakResponse_FromRequest = from_request 24 24 AsCopied"
definition LeaseBreakResponse_FromRequest :: "u64 \<Rightarrow> bytes \<Rightarrow> bytes go" where "LeaseBreakResponse_FromRequest = from_request 36 36 AsCopied"
definition CreateResponse_FromRequest :: "u64 \<Rightarrow> bytes \<Rightarrow> bytes go" where "CreateResponse_FromRequest = from_request 88 89 AsCopied"
definition ErrorResponse_FromRequest :: "u64 \<Rightarrow> bytes \<Rightarrow> bytes go" where "ErrorResponse_FromRequest = from_request 8 9 AsCopied"
definition ReadResponse_FromRequest :: "u64 \<Rightarrow> bytes \<Rightarrow> bytes go" where "ReadResponse_FromRequest = from_request 16 17 ChargeOrRequest"
definition WriteResponse_FromRequest :: "u64 \<Rightarrow> bytes \<Rightarrow> bytes go" where "WriteResponse_FromRequest = from_request 16 17 ChargeOrRequest"
definition ChangeNotifyResponse_FromRequest :: "u64 \<Rightarrow> bytes \<Rightarrow> bytes go" where "ChangeNotifyResponse_FromRequest = from_request 8 9 ChargeOrRequest"
definition IoctlResponse_FromRequest :: "u64 \<Rightarrow> bytes \<Rightarrow> bytes go" where "IoctlResponse_FromRequest = from_request 48 49 ChargeOrRequest"
definition SetInfoResponse_FromRequest :: "u64 \<Rightarrow> bytes \<Rightarrow> bytes go" where "SetInfoResponse_FromRequest = from_request 2 2 ChargeOrRequest"
definition LogoffResponse_FromRequest :: "u64 \<Rightarrow> bytes \<Rightarrow> bytes go" where "LogoffResponse_FromRequest = from_request 4 4 Single"
definition SessionSetupResponse_FromRequest :: "u64 \<Rightarrow> bytes \<Rightarrow> bytes go" where "SessionSetupResponse_FromRequest = from_request 8 9 AsRequested"

definition CloseResponse_SetFlags :: "u16 \<Rightarrow> bytes \<Rightarrow> bytes go" where "CloseResponse_SetFlags = PutUint16_at (SMB2HeaderSize + 2)"

definition CloseResponse_FromRequest :: "u64 \<Rightarrow> bytes \<Rightarrow> bytes go" where
  "CloseResponse_FromRequest gid req =
     do { d \<leftarrow> from_request 60 60 AsCopied gid req;
          flags \<leftarrow> CloseRequest_Flags req;
          if flags AND 1 \<noteq> 0 then CloseResponse_SetFlags 1 d else Some d }"

subsection \<open>Filling them in\<close>

definition CloseResponse_SetFileAttributes :: "u32 \<Rightarrow> bytes \<Rightarrow> bytes go" where "CloseResponse_SetFileAttributes = PutUint32_at (SMB2HeaderSize + 56)"
definition WriteResponse_SetCount :: "u32 \<Rightarrow> bytes \<Rightarrow> bytes go" where "WriteResponse_SetCount = PutUint32_at (SMB2HeaderSize + 4)"
definition OplockBreakResponse_SetOplockLevel :: "u8 \<Rightarrow> bytes \<Rightarrow> bytes go" where "OplockBreakResponse_SetOplockLevel v = put_at (SMB2HeaderSize + 2) [v]"
definition OplockBreakResponse_SetFileID :: "bytes \<Rightarrow> bytes \<Rightarrow> bytes go" where "OplockBreakResponse_SetFileID = copy_at (SMB2HeaderSize + 8) 16"
definition SessionSetupResponse_SetSessionFlags :: "u16 \<Rightarrow> bytes \<Rightarrow> bytes go" where "SessionSetupResponse_SetSessionFlags = PutUint16_at (SMB2HeaderSize + 2)"
definition IoctlResponse_SetCtlCode :: "u32 \<Rightarrow> bytes \<Rightarrow> bytes go" where "IoctlResponse_SetCtlCode = PutUint32_at (SMB2HeaderSize + 4)"
definition IoctlResponse_SetFileID :: "bytes \<Rightarrow> bytes \<Rightarrow> bytes go" where "IoctlResponse_SetFileID = copy_at (SMB2HeaderSize + 8) 16"
definition IoctlResponse_SetFlags :: "u32 \<Rightarrow> bytes \<Rightarrow> bytes go" where "IoctlResponse_SetFlags = PutUint32_at (SMB2HeaderSize + 40)"
definition TreeConnectResponse_SetShareType :: "u8 \<Rightarrow> bytes \<Rightarrow> bytes go" where "TreeConnectResponse_SetShareType v = put_at (SMB2HeaderSize + 2) [v]"
definition TreeConnectResponse_SetShareFlags :: "u32 \<Rightarrow> bytes \<Rightarrow> bytes go" where "TreeConnectResponse_SetShareFlags = PutUint32_at (SMB2HeaderSize + 4)"
definition TreeConnectResponse_SetCapabilities :: "u32 \<Rightarrow> bytes \<Rightarrow> bytes go" where "TreeConnectResponse_SetCapabilities = PutUint32_at (SMB2HeaderSize + 8)"
definition TreeConnectResponse_SetMaximalAccess :: "u32 \<Rightarrow> bytes \<Rightarrow> bytes go" where "TreeConnectResponse_SetMaximalAccess = PutUint32_at (SMB2HeaderSize + 12)"
definition CreateResponse_SetOplockLevel :: "u8 \<Rightarrow> bytes \<Rightarrow> bytes go" where "CreateResponse_SetOplockLevel v = put_at (SMB2HeaderSize + 2) [v]"
definition CreateResponse_SetCreateAction :: "u32 \<Rightarrow> bytes \<Rightarrow> bytes go" where "CreateResponse_SetCreateAction = PutUint32_at (SMB2HeaderSize + 4)"
definition CreateResponse_SetFileAttributes :: "u32 \<Rightarrow> bytes \<Rightarrow> bytes go" where "CreateResponse_SetFileAttributes = PutUint32_at (SMB2HeaderSize + 56)"
definition CreateResponse_SetFileID :: "bytes \<Rightarrow> bytes \<Rightarrow> bytes go" where "CreateResponse_SetFileID = copy_at (SMB2HeaderSize + 64) 16"
definition ErrorResponse_SetErrorContextCount :: "u8 \<Rightarrow> bytes \<Rightarrow> bytes go" where "ErrorResponse_SetErrorContextCount v = put_at (SMB2HeaderSize + 2) [v]"

text \<open>The four times and the two sizes of a close and a create, which stand at the same places.\<close>

definition SetFileTime :: "int \<Rightarrow> int \<Rightarrow> int \<Rightarrow> int \<Rightarrow> bytes \<Rightarrow> bytes go" where
  "SetFileTime creation lastAccess lastWrite change d =
     do { d \<leftarrow> PutUint64_at (SMB2HeaderSize + 8) (UnixToFiletime creation) d;
          d \<leftarrow> PutUint64_at (SMB2HeaderSize + 16) (UnixToFiletime lastAccess) d;
          d \<leftarrow> PutUint64_at (SMB2HeaderSize + 24) (UnixToFiletime lastWrite) d;
          PutUint64_at (SMB2HeaderSize + 32) (UnixToFiletime change) d }"

definition SetFilesize :: "u64 \<Rightarrow> u64 \<Rightarrow> bytes \<Rightarrow> bytes go" where
  "SetFilesize sz allocated d =
     do { d \<leftarrow> PutUint64_at (SMB2HeaderSize + 40) sz d; PutUint64_at (SMB2HeaderSize + 48) allocated d }"

definition CloseResponse_Generate :: "int \<Rightarrow> u64 \<Rightarrow> u64 \<Rightarrow> u32 \<Rightarrow> bytes \<Rightarrow> bytes go" where
  "CloseResponse_Generate modTime sz allocated fa d =
     do { flags \<leftarrow> Uint16_at (SMB2HeaderSize + 2) d;
          if flags AND 1 \<noteq> 0
          then do { d \<leftarrow> SetFileTime modTime modTime modTime modTime d;
                    d \<leftarrow> CloseResponse_SetFileAttributes fa d;
                    if fa AND 0x10 = 0 then SetFilesize sz allocated d else Some d }
          else Some d }"

definition ReadResponse_SetData :: "bytes \<Rightarrow> u8 \<Rightarrow> bytes \<Rightarrow> bytes go" where
  "ReadResponse_SetData buf padding0 d =
     (let padding = (if padding0 = 0 then 80 else padding0)
      in if padding < 80 then Some d
         else do { d \<leftarrow> put_at (SMB2HeaderSize + 2) [padding] d;
                   d \<leftarrow> PutUint32_at (SMB2HeaderSize + 4) (of_nat (length buf)) d;
                   Some (d @ replicate (unat padding - 80) 0 @ buf) })"

definition ChangeNotifyResponse_SetOutputBuffer :: "bytes \<Rightarrow> bytes \<Rightarrow> bytes go" where
  "ChangeNotifyResponse_SetOutputBuffer buf d =
     do { d \<leftarrow> PutUint16_at (SMB2HeaderSize + 2) (of_nat (length d)) d;
          d \<leftarrow> PutUint32_at (SMB2HeaderSize + 4) (of_nat (length buf)) d;
          Some (d @ buf) }"

definition SessionSetupResponse_SetSecurityBuffer :: "bytes \<Rightarrow> bytes \<Rightarrow> bytes go" where
  "SessionSetupResponse_SetSecurityBuffer buf d =
     do { d \<leftarrow> PutUint16_at (SMB2HeaderSize + 4) 72 d;
          d \<leftarrow> PutUint16_at (SMB2HeaderSize + 6) (of_nat (length buf)) d;
          d \<leftarrow> slice 0 72 d;
          Some (d @ buf) }"

definition SessionSetupResponse_Generate :: "u64 \<Rightarrow> u16 \<Rightarrow> bytes \<Rightarrow> bool \<Rightarrow> bytes \<Rightarrow> bytes go" where
  "SessionSetupResponse_Generate sid flags token fin d =
     do { d \<leftarrow> Header_SetSessionID sid d;
          d \<leftarrow> Header_SetStatus STATUS_OK d;
          d \<leftarrow> (if \<not> fin then Header_SetStatus STATUS_MORE_PROCESSING_REQUIRED d else Some d);
          d \<leftarrow> SessionSetupResponse_SetSessionFlags flags d;
          SessionSetupResponse_SetSecurityBuffer token d }"

definition IoctlResponse_SetOutputBuffer :: "bytes \<Rightarrow> bytes \<Rightarrow> bytes go" where
  "IoctlResponse_SetOutputBuffer buf d =
     do { d \<leftarrow> PutUint32_at (SMB2HeaderSize + 24) 112 d;
          d \<leftarrow> PutUint32_at (SMB2HeaderSize + 28) 0 d;
          d \<leftarrow> PutUint32_at (SMB2HeaderSize + 32) (if length buf > 0 then 112 else 0) d;
          d \<leftarrow> PutUint32_at (SMB2HeaderSize + 36) (of_nat (length buf)) d;
          d \<leftarrow> slice 0 112 d;
          Some (d @ buf) }"

definition IoctlResponse_Generate :: "u32 \<Rightarrow> bytes \<Rightarrow> u32 \<Rightarrow> bytes \<Rightarrow> bytes \<Rightarrow> bytes go" where
  "IoctlResponse_Generate code fid flags outp d =
     do { d \<leftarrow> IoctlResponse_SetCtlCode code d;
          d \<leftarrow> IoctlResponse_SetFileID fid d;
          d \<leftarrow> IoctlResponse_SetFlags flags d;
          IoctlResponse_SetOutputBuffer outp d }"

definition ValidateNegotiateInfo :: "u32 \<Rightarrow> bytes \<Rightarrow> u16 \<Rightarrow> u16 \<Rightarrow> bytes go" where
  "ValidateNegotiateInfo caps guid sm dialect =
     do { b \<leftarrow> PutUint32_at 0 caps (replicate 24 0);
          b \<leftarrow> copy_at 4 16 guid b;
          b \<leftarrow> PutUint16_at 20 sm b;
          PutUint16_at 22 dialect b }"

definition OplockBreakResponse_Generate :: "u8 \<Rightarrow> bytes \<Rightarrow> bytes \<Rightarrow> bytes go" where
  "OplockBreakResponse_Generate oplockLevel fid d =
     do { d \<leftarrow> OplockBreakResponse_SetOplockLevel oplockLevel d; OplockBreakResponse_SetFileID fid d }"

definition LeaseBreakResponse_Generate :: "bytes \<Rightarrow> u32 \<Rightarrow> bytes \<Rightarrow> bytes go" where
  "LeaseBreakResponse_Generate leaseKey state d =
     do { d \<leftarrow> copy_at (SMB2HeaderSize + 8) 16 leaseKey d; PutUint32_at (SMB2HeaderSize + 24) state d }"

definition TreeConnectResponse_Generate :: "u32 \<Rightarrow> u8 \<Rightarrow> u32 \<Rightarrow> bool \<Rightarrow> bool \<Rightarrow> bytes \<Rightarrow> bytes go" where
  "TreeConnectResponse_Generate tid st access encrypt compress d =
     do { d \<leftarrow> Header_SetStatus STATUS_OK d;
          d \<leftarrow> Header_SetTreeID tid d;
          d \<leftarrow> TreeConnectResponse_SetShareType st d;
          d \<leftarrow> TreeConnectResponse_SetMaximalAccess access d;
          TreeConnectResponse_SetShareFlags
            ((if encrypt then 0x00008000 else 0) OR (if compress then 0x00100000 else 0)) d }"

definition ErrorResponse_SetErrorData :: "bytes option \<Rightarrow> bytes \<Rightarrow> bytes go" where
  "ErrorResponse_SetErrorData data d =
     do { d \<leftarrow> PutUint32_at (SMB2HeaderSize + 4) (of_nat (case data of None \<Rightarrow> 0 | Some b \<Rightarrow> length b)) d;
          d \<leftarrow> slice 0 72 d;
          Some (d @ (case data of None \<Rightarrow> [0] | Some b \<Rightarrow> b)) }"

definition ErrorResponse_New :: "u64 \<Rightarrow> bytes \<Rightarrow> u32 \<Rightarrow> u8 \<Rightarrow> bytes option \<Rightarrow> bytes go" where
  "ErrorResponse_New gid req status cnt data =
     do { d \<leftarrow> ErrorResponse_FromRequest gid req;
          d \<leftarrow> Header_SetStatus status d;
          d \<leftarrow> (if status = PENDING
                 then do { cc \<leftarrow> Header_CreditCharge req; cr \<leftarrow> Header_CreditRequest req; Header_SetCreditResponse (max cc cr) d }
                 else Some d);
          d \<leftarrow> ErrorResponse_SetErrorContextCount cnt d;
          ErrorResponse_SetErrorData data d }"

definition NegotiateErrorResponse :: "u32 \<Rightarrow> bytes go" where
  "NegotiateErrorResponse status =
     do { d \<leftarrow> Header_SetStatus status (replicate 72 0); Header_SetFlags FLAGS_SERVER_TO_REDIR d }"

definition ErrorContextData :: "u32 \<Rightarrow> bytes \<Rightarrow> bytes go" where
  "ErrorContextData eid ecd =
     do { d \<leftarrow> PutUint32_at 0 (of_nat (length ecd)) (replicate 8 0); d \<leftarrow> PutUint32_at 4 eid d; Some (d @ ecd) }"

subsection \<open>Notifications and the contexts of a create\<close>

text \<open>A break notification answers nothing: its header is made from scratch, under the ID no request carries.\<close>

definition break_header :: "u64 \<Rightarrow> bytes \<Rightarrow> bytes go" where
  "break_header sessionID d =
     do { d \<leftarrow> NewHeader d;
          d \<leftarrow> Header_SetCommand 0x0012 d;
          d \<leftarrow> Header_SetStatus STATUS_OK d;
          d \<leftarrow> Header_SetFlags FLAGS_SERVER_TO_REDIR d;
          d \<leftarrow> Header_SetMessageID 0xffffffffffffffff d;
          d \<leftarrow> Header_SetCreditCharge 0 d;
          d \<leftarrow> Header_SetCreditResponse 0 d;
          d \<leftarrow> Header_SetSessionID sessionID d;
          Header_SetTreeID 0 d }"

definition NewOplockBreakNotification :: "u8 \<Rightarrow> bytes \<Rightarrow> u64 \<Rightarrow> bytes go" where
  "NewOplockBreakNotification oplockLevel fid sessionID =
     do { d \<leftarrow> break_header sessionID (replicate (SMB2HeaderSize + 24) 0);
          d \<leftarrow> PutUint16_at SMB2HeaderSize 24 d;
          d \<leftarrow> put_at (SMB2HeaderSize + 2) [oplockLevel] d;
          copy_at (SMB2HeaderSize + 8) 16 fid d }"

definition NewLeaseBreakNotification :: "bytes \<Rightarrow> u32 \<Rightarrow> u32 \<Rightarrow> u16 \<Rightarrow> bool \<Rightarrow> bytes go" where
  "NewLeaseBreakNotification leaseKey current granted epoch ackRequired =
     do { d \<leftarrow> break_header 0 (replicate (SMB2HeaderSize + 44) 0);
          d \<leftarrow> PutUint16_at SMB2HeaderSize 44 d;
          d \<leftarrow> PutUint16_at (SMB2HeaderSize + 2) epoch d;
          d \<leftarrow> (if ackRequired then PutUint32_at (SMB2HeaderSize + 4) 1 d else Some d);
          d \<leftarrow> copy_at (SMB2HeaderSize + 8) 16 leaseKey d;
          d \<leftarrow> PutUint32_at (SMB2HeaderSize + 24) current d;
          PutUint32_at (SMB2HeaderSize + 28) granted d }"

record LeaseRequest =
  LeaseKey :: bytes
  LeaseState :: u32
  LeaseFlags :: u32
  ParentLeaseKey :: bytes
  Epoch :: u16
  Version :: int

text \<open>\<open>None\<close> inside is the \<^verbatim>\<open>false\<close> of a context too short to be one.\<close>

definition ParseLeaseRequest :: "bytes \<Rightarrow> LeaseRequest option go" where
  "ParseLeaseRequest data =
     (if length data < 32 then Some None
      else do { key \<leftarrow> slice 0 16 data; state \<leftarrow> Uint32_at 16 data; flags \<leftarrow> Uint32_at 20 data;
                if length data \<ge> 52
                then do { parent \<leftarrow> slice 32 48 data; epoch \<leftarrow> Uint16_at 48 data;
                          Some (Some \<lparr>LeaseKey = key, LeaseState = state, LeaseFlags = flags, ParentLeaseKey = parent,
                            Epoch = epoch, Version = 2\<rparr>) }
                else Some (Some \<lparr>LeaseKey = key, LeaseState = state, LeaseFlags = flags,
                       ParentLeaseKey = replicate 16 0, Epoch = 0, Version = 1\<rparr>) })"

definition HandleCreateRequestLease :: "LeaseRequest \<Rightarrow> u32 \<Rightarrow> u16 \<Rightarrow> bytes go" where
  "HandleCreateRequestLease req granted epoch =
     do { d \<leftarrow> copy_at 0 16 (LeaseKey req) (replicate (if Version req = 2 then 52 else 32) 0);
          d \<leftarrow> PutUint32_at 16 granted d;
          if Version req = 2 then PutUint16_at 48 epoch d else Some d }"

record DurableHandleRequestV2 =
  Timeout :: u32
  DurableFlags :: u32
  CreateGuid :: bytes

definition ParseDurableHandleRequestV2 :: "bytes \<Rightarrow> DurableHandleRequestV2 option go" where
  "ParseDurableHandleRequestV2 data =
     (if length data < 32 then Some None
      else do { t \<leftarrow> Uint32_at 0 data; f \<leftarrow> Uint32_at 4 data; g \<leftarrow> slice 16 32 data;
                Some (Some \<lparr>Timeout = t, DurableFlags = f, CreateGuid = g\<rparr>) })"

record DurableHandleReconnectV2 =
  Reconnect_FileID :: u64
  Reconnect_DurableID :: u64
  Reconnect_CreateGuid :: bytes
  Reconnect_Flags :: u32

definition ParseDurableHandleReconnectV2 :: "bytes \<Rightarrow> DurableHandleReconnectV2 option go" where
  "ParseDurableHandleReconnectV2 data =
     (if length data < 36 then Some None
      else do { d \<leftarrow> Uint64_at 0 data; f \<leftarrow> Uint64_at 8 data; fl \<leftarrow> Uint32_at 32 data; g \<leftarrow> slice 16 32 data;
                Some (Some \<lparr>Reconnect_FileID = f, Reconnect_DurableID = d, Reconnect_CreateGuid = g, Reconnect_Flags = fl\<rparr>) })"

definition HandleCreateDurableHandleRequestV2 :: "u32 \<Rightarrow> bytes go" where
  "HandleCreateDurableHandleRequestV2 timeout = PutUint32_at 0 timeout (replicate 8 0)"

definition HandleCreateQueryMaximalAccessRequest :: "bytes \<Rightarrow> int \<Rightarrow> u32 \<Rightarrow> bytes go" where
  "HandleCreateQueryMaximalAccessRequest ctx modTime maxAccess =
     (let granted = do { d \<leftarrow> PutUint32_at 0 STATUS_OK (replicate 8 0); PutUint32_at 4 maxAccess d }
      in if length ctx \<noteq> 8 then granted
         else do { ft \<leftarrow> Uint64_at 0 ctx;
                   if FiletimeToUnix ft = modTime then PutUint32_at 0 STATUS_NONE_MAPPED (replicate 8 0) else granted })"

definition HandleCreateQueryOnDiskID :: "u64 \<Rightarrow> u64 \<Rightarrow> bytes go" where
  "HandleCreateQueryOnDiskID fid vid = do { d \<leftarrow> PutUint64_at 0 fid (replicate 32 0); PutUint64_at 8 vid d }"

definition HandleCreateDurableHandleRequest :: "bytes" where
  "HandleCreateDurableHandleRequest = replicate 8 0"

text \<open>The contexts of an answer, in the order the map is walked.\<close>

definition roundup8 :: "nat \<Rightarrow> nat" where
  "roundup8 n = unat (Roundup (of_nat n) 8)"

definition PutBigUint32_at :: "nat \<Rightarrow> u32 \<Rightarrow> bytes \<Rightarrow> bytes go" where
  "PutBigUint32_at off v = put_at off (rev (to_le 4 (uint v)))"

definition context_bytes :: "bool \<Rightarrow> u32 \<Rightarrow> bytes \<Rightarrow> bytes go" where
  "context_bytes isLast cid ctx =
     (let ctxLen = (if isLast then 24 + length ctx else roundup8 (24 + length ctx))
      in do { c \<leftarrow> (if isLast then Some (replicate ctxLen 0) else PutUint32_at 0 (of_nat ctxLen) (replicate ctxLen 0));
              c \<leftarrow> PutUint16_at 4 16 c;
              c \<leftarrow> PutUint16_at 6 4 c;
              c \<leftarrow> PutBigUint32_at 16 cid c;
              c \<leftarrow> PutUint16_at 10 24 c;
              c \<leftarrow> PutUint32_at 12 (of_nat (length ctx)) c;
              put_at 24 ctx c })"

fun contexts_bytes :: "(u32 \<times> bytes) list \<Rightarrow> bytes go" where
  "contexts_bytes [] = Some []"
| "contexts_bytes ((cid, ctx) # cs) =
     do { c \<leftarrow> context_bytes (cs = []) cid ctx; rest \<leftarrow> contexts_bytes cs; Some (c @ rest) }"

definition CreateResponse_SetCreateContexts :: "(u32 \<times> bytes) list \<Rightarrow> bytes \<Rightarrow> bytes go" where
  "CreateResponse_SetCreateContexts contexts d =
     (if contexts = [] then Some d
      else do { buf \<leftarrow> contexts_bytes contexts;
                d \<leftarrow> PutUint32_at (SMB2HeaderSize + 80) 152 d;
                d \<leftarrow> PutUint32_at (SMB2HeaderSize + 84) (of_nat (length buf)) d;
                Some (d @ buf) })"

text \<open>The times of a create: what was asked for is told by the action, \<open>now\<close> is when.\<close>

definition create_times :: "u32 \<Rightarrow> int \<Rightarrow> int \<Rightarrow> int \<times> int \<times> int \<times> int" where
  "create_times createAction now modTime =
     (if createAction = 0 \<or> createAction = 2 then (now, now, now, now)
      else if createAction = 1 then (modTime, now, modTime, modTime)
      else if createAction = 3 then (modTime, now, now, now)
      else (- 62135596800, - 62135596800, - 62135596800, - 62135596800))"

definition CreateResponse_Generate ::
  "u8 \<Rightarrow> u32 \<Rightarrow> u64 \<Rightarrow> u64 \<Rightarrow> int \<Rightarrow> int \<Rightarrow> bool \<Rightarrow> u64 \<Rightarrow> u64 \<Rightarrow> (u32 \<times> bytes) list \<Rightarrow> bytes \<Rightarrow> bytes go" where
  "CreateResponse_Generate oplockLevel createAction sz allocated now modTime isDir fileID durableFileID contexts d =
     do { d \<leftarrow> CreateResponse_SetOplockLevel oplockLevel d;
          d \<leftarrow> CreateResponse_SetCreateAction createAction d;
          d \<leftarrow> (case create_times createAction now modTime of (cr, la, lw, ch) \<Rightarrow> SetFileTime cr la lw ch d);
          d \<leftarrow> (if isDir then CreateResponse_SetFileAttributes 0x10 d
                 else do { d \<leftarrow> CreateResponse_SetFileAttributes 0x80 d; SetFilesize sz allocated d });
          d \<leftarrow> CreateResponse_SetFileID (to_le 8 (uint durableFileID) @ to_le 8 (uint fileID)) d;
          CreateResponse_SetCreateContexts contexts d }"

subsection \<open>Writing into a message\<close>

lemma put_atE:
  assumes "off + length bs \<le> length d"
  obtains d' where "put_at off bs d = Some d'" "length d' = length d" "slice off (off + length bs) d' = Some bs"
    "\<And>a b. b \<le> off \<or> off + length bs \<le> a \<Longrightarrow> slice a b d' = slice a b d"
proof -
  have "safe (put_at off bs d)" using assms by simp
  then obtain d' where "put_at off bs d = Some d'" by (rule safeE)
  then show thesis using that put_at_length slice_put_same slice_put_other by metis
qed

lemma put_wordE:
  assumes "off + k \<le> length d"
  obtains d' where "put_word k off v d = Some d'" "length d' = length d" "slice off (off + k) d' = Some (to_le k (uint v))"
    "\<And>a b. b \<le> off \<or> off + k \<le> a \<Longrightarrow> slice a b d' = slice a b d"
  using put_atE[of off "to_le k (uint v)" d] assms that unfolding put_word_def by auto

lemma of_le_uint [simp]:
  "of_le (to_le 2 (uint (w16 :: u16))) = uint w16" "of_le (to_le 4 (uint (w32 :: u32))) = uint w32"
  "of_le (to_le 8 (uint (w64 :: u64))) = uint w64"
  using uint_lt2p[of w16] uint_lt2p[of w32] uint_lt2p[of w64] by (simp_all add: of_le_to_le)

lemmas reads = uint_at_defs word_at_def header_get_defs

text \<open>The header of a response, by its fields.\<close>

definition echoes :: "bytes \<Rightarrow> bytes \<Rightarrow> bool" where
  "echoes req d \<longleftrightarrow> Header_ProtocolID d = Header_ProtocolID req \<and> Header_CreditCharge d = Header_CreditCharge req
     \<and> Header_Command d = Header_Command req \<and> Header_MessageID d = Header_MessageID req
     \<and> Header_AsyncID d = Header_AsyncID req \<and> Header_SessionID d = Header_SessionID req
     \<and> Header_Signature d = Header_Signature req"

lemmas echo_reads = echoes_def Header_ProtocolID_def Header_CreditCharge_def Header_Command_def Header_MessageID_def
  Header_AsyncID_def Header_SessionID_def Header_Signature_def uint_at_defs word_at_def

lemma echoes_frame:
  assumes "echoes req d" "\<And>a b. b \<le> off \<or> off + k \<le> a \<Longrightarrow> slice a b d' = slice a b d"
    and "8 \<le> off \<and> off + k \<le> 12 \<or> 14 \<le> off \<and> off + k \<le> 24 \<or> 64 \<le> off"
  shows "echoes req d'"
  using assms by (auto simp: echo_reads)

lemma Header_CopyFrom_fresh: "SMB2HeaderSize \<le> length req \<Longrightarrow> Header_CopyFrom req (replicate SMB2HeaderSize 0) = Some (take SMB2HeaderSize req)"
  by (simp add: Header_CopyFrom_def slice_def put_at_def min_def)

lemma slice_take: "b \<le> n \<Longrightarrow> n \<le> length xs \<Longrightarrow> slice a b (take n xs) = slice a b xs"
  by (auto simp: slice_def drop_take min_def)

lemma Response_FromRequest_ok:
  assumes "SMB2HeaderSize \<le> length req" "Header_Flags req = Some f"
  obtains d where "Response_FromRequest gid req = Some d" "length d = SMB2HeaderSize" "echoes req d"
    "slice 14 16 d = slice 14 16 req"
    "Header_Flags d = Some ((f OR FLAGS_SERVER_TO_REDIR) AND NOT (if gid = 0 then FLAGS_RELATED_OPERATIONS else 0))"
proof -
  let ?h = "take SMB2HeaderSize req"
  have h: "length ?h = 64" using assms(1) by (simp add: SMB2HeaderSize_def)
  have sl: "b \<le> 64 \<Longrightarrow> slice a b ?h = slice a b req" for a b using assms(1) by (simp add: slice_take SMB2HeaderSize_def)
  obtain d1 where d1: "put_word 4 8 STATUS_OK ?h = Some d1" "length d1 = length ?h"
    "slice 8 (8 + 4) d1 = Some (to_le 4 (uint STATUS_OK))"
    "\<And>a b. b \<le> 8 \<or> 8 + 4 \<le> a \<Longrightarrow> slice a b d1 = slice a b ?h"
    by (rule put_wordE[of 8 4 ?h STATUS_OK, OF _ that]) (use h in linarith)
  have f1: "Header_Flags d1 = Some f" using assms(2) d1(4) sl by (simp add: reads)
  obtain d2 where d2: "put_word 4 16 (f OR FLAGS_SERVER_TO_REDIR) d1 = Some d2" "length d2 = length d1"
    "slice 16 (16 + 4) d2 = Some (to_le 4 (uint (f OR FLAGS_SERVER_TO_REDIR)))"
    "\<And>a b. b \<le> 16 \<or> 16 + 4 \<le> a \<Longrightarrow> slice a b d2 = slice a b d1"
    by (rule put_wordE[of 16 4 d1 "f OR FLAGS_SERVER_TO_REDIR", OF _ that]) (use h d1(2) in linarith)
  have f2: "Header_Flags d2 = Some (f OR FLAGS_SERVER_TO_REDIR)" using d2(3) by (simp add: reads)
  have pre: "Response_FromRequest gid req =
      (if gid = 0 then Header_ClearFlag FLAGS_RELATED_OPERATIONS d2 else Some d2)"
    using Header_CopyFrom_fresh[OF assms(1)] d1(1) f1 d2(1)
    by (simp add: Response_FromRequest_def Header_SetStatus_def Header_SetFlag_def Header_SetFlags_def uint_at_defs)
  have e2: "echoes req d2" "slice 14 16 d2 = slice 14 16 req" using d1(4) d2(4) sl by (simp_all add: echo_reads)
  show thesis
  proof (cases "gid = 0")
    case True
    let ?f = "(f OR FLAGS_SERVER_TO_REDIR) AND NOT FLAGS_RELATED_OPERATIONS"
    obtain d3 where d3: "put_word 4 16 ?f d2 = Some d3" "length d3 = length d2" "slice 16 (16 + 4) d3 = Some (to_le 4 (uint ?f))"
      "\<And>a b. b \<le> 16 \<or> 16 + 4 \<le> a \<Longrightarrow> slice a b d3 = slice a b d2"
      by (rule put_wordE[of 16 4 d2 ?f, OF _ that]) (use h d1(2) d2(2) in linarith)
    show thesis
    proof (rule that[of d3])
      show "Response_FromRequest gid req = Some d3"
        using True pre f2 d3(1) by (simp add: Header_ClearFlag_def Header_SetFlags_def uint_at_defs)
      show "length d3 = SMB2HeaderSize" using h d1(2) d2(2) d3(2) by (simp add: SMB2HeaderSize_def)
      show "echoes req d3" "slice 14 16 d3 = slice 14 16 req" using e2 d3(4) by (simp_all add: echo_reads)
      show "Header_Flags d3 = Some ((f OR FLAGS_SERVER_TO_REDIR) AND NOT (if gid = 0 then FLAGS_RELATED_OPERATIONS else 0))"
        using True d3(3) by (simp add: reads)
    qed
  next
    case False
    then show thesis using that[of d2] pre e2 f2 h d1(2) d2(2) by (simp add: SMB2HeaderSize_def)
  qed
qed

lemma of_le_zero [simp]: "of_le (to_le k 0) = 0"
  by (induction k) simp_all

lemma slice_append1: "b \<le> length xs \<Longrightarrow> slice a b (xs @ ys) = slice a b xs"
  by (auto simp: slice_def)

lemma echoes_append: "echoes req d \<Longrightarrow> length d = SMB2HeaderSize \<Longrightarrow> echoes req (d @ ys)"
  by (simp add: echo_reads slice_append1 SMB2HeaderSize_def)

lemma set_credits_cases:
  assumes "SMB2HeaderSize \<le> length req" "16 \<le> length d" "Header_IsFlagSet FLAGS_ASYNC_COMMAND d = Some async"
  obtains "set_credits mode req d = Some d" "\<not> async"
  | v where "set_credits mode req d = Header_SetCreditResponse v d" "async \<Longrightarrow> v = 0"
proof (cases async)
  case False
  have "safe (Header_CreditCharge req)" "safe (Header_CreditRequest req)"
    using assms(1) by (simp_all add: header_get_defs SMB2HeaderSize_def)
  then obtain cc cr where "Header_CreditCharge req = Some cc" "Header_CreditRequest req = Some cr" by (auto elim!: safeE)
  with False show thesis using that assms(3) by (cases mode) (auto simp: set_credits_def)
qed (use that assms(3) in \<open>simp add: set_credits_def\<close>)

text \<open>Building a response from any request with a full header does not panic, and what is built
  answers that request: the response carries its message, session and async IDs, its command and its charge, is marked as
  going from server to client, ends its chain, reports success and has the structure size and the length of its kind;
  and for a request taken on asynchronously it grants no credits.\<close>

theorem response_answers_request:
  assumes "SMB2HeaderSize \<le> length req" "2 \<le> minSize"
  shows "\<exists>d. from_request minSize sz mode gid req = Some d \<and> length d = SMB2HeaderSize + minSize \<and> echoes req d
    \<and> Header_NextCommand d = Some 0 \<and> Header_Status d = Some STATUS_OK \<and> Uint16_at SMB2HeaderSize d = Some sz
    \<and> Header_IsFlagSet FLAGS_SERVER_TO_REDIR d = Some True
    \<and> (Header_IsFlagSet FLAGS_ASYNC_COMMAND d = Some True \<longrightarrow> Header_CreditRequest d = Some 0)"
proof -
  have "safe (Header_Flags req)" using assms(1) by (simp add: header_get_defs SMB2HeaderSize_def)
  then obtain f where f: "Header_Flags req = Some f" by (rule safeE)
  let ?f = "(f OR FLAGS_SERVER_TO_REDIR) AND NOT (if gid = 0 then FLAGS_RELATED_OPERATIONS else 0)"
  obtain d0 where d0: "Response_FromRequest gid req = Some d0" "length d0 = SMB2HeaderSize" "echoes req d0" "Header_Flags d0 = Some ?f"
    by (rule Response_FromRequest_ok[OF assms(1) f, of gid]) (rule that)
  let ?e = "d0 @ replicate minSize 0"
  have r1: "64 + 2 \<le> length ?e" using d0(2) assms(2) by (simp add: SMB2HeaderSize_def)
  obtain d1 where d1: "put_word 2 64 sz ?e = Some d1" "length d1 = length ?e" "slice 64 (64 + 2) d1 = Some (to_le 2 (uint sz))"
    "\<And>a b. b \<le> 64 \<or> 64 + 2 \<le> a \<Longrightarrow> slice a b d1 = slice a b ?e"
    by (rule put_wordE[OF r1 that])
  have r2: "20 + 4 \<le> length d1" using d0(2) d1(2) by (simp add: SMB2HeaderSize_def)
  obtain d2 where d2: "put_word 4 20 (0 :: u32) d1 = Some d2" "length d2 = length d1" "slice 20 (20 + 4) d2 = Some (to_le 4 (uint (0 :: u32)))"
    "\<And>a b. b \<le> 20 \<or> 20 + 4 \<le> a \<Longrightarrow> slice a b d2 = slice a b d1"
    by (rule put_wordE[OF r2 that])
  have r3: "8 + 4 \<le> length d2" using d0(2) d1(2) d2(2) by (simp add: SMB2HeaderSize_def)
  obtain d3 where d3: "put_word 4 8 STATUS_OK d2 = Some d3" "length d3 = length d2" "slice 8 (8 + 4) d3 = Some (to_le 4 (uint STATUS_OK))"
    "\<And>a b. b \<le> 8 \<or> 8 + 4 \<le> a \<Longrightarrow> slice a b d3 = slice a b d2"
    by (rule put_wordE[OF r3 that])
  have len: "length d3 = 64 + minSize" "length d0 = 64" using d0(2) d1(2) d2(2) d3(2) by (simp_all add: SMB2HeaderSize_def)
  have e: "echoes req d3"
    using echoes_append[OF d0(3,2), of "replicate minSize 0"] d1(4) d2(4) d3(4) by (simp add: echo_reads)
  have fl: "Header_Flags d3 = Some ?f" using d0(4) d1(4) d2(4) d3(4) len by (simp add: reads slice_append1)
  have nx: "Header_NextCommand d3 = Some 0" using d2(3) d3(4) by (simp add: reads)
  have st: "Header_Status d3 = Some STATUS_OK" using d3(3) by (simp add: reads)
  have sz: "Uint16_at 64 d3 = Some sz" using d1(3) d2(4) d3(4) by (simp add: reads)
  have "bit ?f 0" by (simp add: bit_simps FLAGS_SERVER_TO_REDIR_def FLAGS_RELATED_OPERATIONS_def)
  then have "?f AND FLAGS_SERVER_TO_REDIR > 0"
    by (simp add: FLAGS_SERVER_TO_REDIR_def and_one_eq odd_iff_mod_2_eq_one bit_0)
  then have sv: "Header_IsFlagSet FLAGS_SERVER_TO_REDIR d3 = Some True" using fl by (simp add: Header_IsFlagSet_def)
  define async where "async = (?f AND FLAGS_ASYNC_COMMAND > 0)"
  have as: "Header_IsFlagSet FLAGS_ASYNC_COMMAND d3 = Some async" using fl by (simp add: Header_IsFlagSet_def async_def)
  have fr: "from_request minSize sz mode gid req = set_credits mode req d3"
    using d0(1) d1(1) d2(1) d3(1)
    by (simp add: from_request_def Header_SetNextCommand_def Header_SetStatus_def uint_at_defs SMB2HeaderSize_def)
  have l16: "16 \<le> length d3" using len by simp
  show ?thesis
  proof (rule set_credits_cases[OF assms(1) l16 as, of mode])
    assume "set_credits mode req d3 = Some d3" "\<not> async"
    then show ?thesis using fr len e nx st sz sv as by (simp add: SMB2HeaderSize_def)
  next
    fix v assume v: "set_credits mode req d3 = Header_SetCreditResponse v d3" "async \<Longrightarrow> v = 0"
    have r4: "14 + 2 \<le> length d3" using len by simp
  obtain d4 where d4: "put_word 2 14 v d3 = Some d4" "length d4 = length d3" "slice 14 (14 + 2) d4 = Some (to_le 2 (uint v))"
      "\<And>a b. b \<le> 14 \<or> 14 + 2 \<le> a \<Longrightarrow> slice a b d4 = slice a b d3"
      by (rule put_wordE[OF r4 that])
    have "from_request minSize sz mode gid req = Some d4" using fr v(1) d4(1) by (simp add: Header_SetCreditResponse_def uint_at_defs)
    moreover have "echoes req d4" using e d4(4) by (simp add: echo_reads)
    moreover have "Header_NextCommand d4 = Some 0" "Header_Status d4 = Some STATUS_OK" "Uint16_at 64 d4 = Some sz"
      "Header_IsFlagSet FLAGS_SERVER_TO_REDIR d4 = Some True" "Header_IsFlagSet FLAGS_ASYNC_COMMAND d4 = Some async"
      using nx st sz sv as d4(4) by (simp_all add: reads Header_IsFlagSet_def)
    moreover have "Header_CreditRequest d4 = Some v" using d4(3) by (simp add: reads)
    ultimately show ?thesis using v(2) d4(2) len by (simp add: SMB2HeaderSize_def)
  qed
qed

theorem response_answers_request_witness:
  "\<exists>d. EchoResponse_FromRequest 0 (sample_message 0 0 [4, 0, 0, 0]) = Some d \<and> length d = SMB2HeaderSize + 4
    \<and> Header_Status d = Some STATUS_OK"
proof -
  have "SMB2HeaderSize \<le> length (sample_message 0 0 [4, 0, 0, 0])" by (simp add: sample_message_def SMB2HeaderSize_def)
  from response_answers_request[OF this, of 4 4 AsCopied 0] show ?thesis
    unfolding EchoResponse_FromRequest_def by auto
qed

subsection \<open>Create contexts there and back\<close>

lemma roundup8_eq:
  assumes "n < 2 ^ 63"
  shows "roundup8 n = (n + 7) div 8 * 8"
proof -
  have u: "unat (of_nat n + 7 :: u64) = n + 7" using assms by (simp add: unat_word_ariths unat_of_nat)
  have "(x :: u64) AND NOT 7 = x - x mod 8" for x
  proof -
    have m: "(7 :: u64) = mask 3" by (simp add: mask_eq_exp_minus_1)
    have "x AND NOT 7 = push_bit 3 (drop_bit 3 x)" unfolding m by (rule bit_eqI) (auto simp: bit_simps)
    also have "\<dots> = x div 8 * 8" by (simp add: push_bit_eq_mult drop_bit_eq_div)
    finally show ?thesis by (simp add: minus_mod_eq_div_mult)
  qed
  then have "Roundup (of_nat n) 8 = (of_nat n + 7) - (of_nat n + 7) mod 8" by (simp add: Roundup_def)
  then have "roundup8 n = (n + 7) - (n + 7) mod 8"
    unfolding roundup8_def using u by (simp add: unat_sub word_le_nat_alt unat_mod_distrib mod_less_eq_dividend)
  then show ?thesis by (simp add: minus_mod_eq_div_mult)
qed

lemma roundup8_bounds: "n < 2 ^ 63 \<Longrightarrow> n \<le> roundup8 n \<and> roundup8 n < n + 8"
  by (simp add: roundup8_eq) presburger

text \<open>The fields of one context.\<close>

definition context_fields :: "bool \<Rightarrow> u32 \<Rightarrow> bytes \<Rightarrow> bytes \<Rightarrow> bool" where
  "context_fields isLast cid ctx c \<longleftrightarrow> 24 + length ctx \<le> length c
     \<and> Uint32_at 0 c = Some (if isLast then 0 else of_nat (length c))
     \<and> Uint16_at 4 c = Some 16 \<and> Uint16_at 6 c = Some 4 \<and> BigUint32_at 16 c = Some cid
     \<and> Uint16_at 10 c = Some 24 \<and> Uint32_at 12 c = Some (of_nat (length ctx)) \<and> slice 24 (24 + length ctx) c = Some ctx"

lemma rev_le: "of_int (of_le (rev (rev (to_le 4 (uint (v :: u32)))))) = v"
  by simp

lemma context_bytes_ok:
  assumes "length ctx < 2 ^ 31"
  obtains c where "context_bytes isLast cid ctx = Some c" "context_fields isLast cid ctx c" "length c < length ctx + 32"
proof -
  define n where "n = (if isLast then 24 + length ctx else roundup8 (24 + length ctx))"
  have n: "24 + length ctx \<le> n" "n < length ctx + 32"
    using roundup8_bounds[of "24 + length ctx"] assms by (auto simp: n_def)
  define c0 where "c0 = replicate n (0 :: byte)"
  define k :: u32 where "k = (if isLast then 0 else of_nat n)"
  have l0: "length c0 = n" by (simp add: c0_def)
  have z: "slice 0 (0 + 4) c0 = Some (to_le 4 (uint (0 :: u32)))"
    using n(1) by (simp add: c0_def slice_def eval_nat_numeral)
  obtain c1 where c1: "(if isLast then Some c0 else PutUint32_at 0 (of_nat n) c0) = Some c1" "length c1 = n"
    "slice 0 (0 + 4) c1 = Some (to_le 4 (uint k))"
  proof (cases isLast)
    case True
    then show thesis using that[of c0] z l0 by (simp add: k_def)
  next
    case False
    have "0 + 4 \<le> length c0" using n l0 by simp
    from put_wordE[OF this, of "of_nat n :: u32"] show thesis using that False l0 by (metis k_def PutUint32_at_def)
  qed
  have r2: "4 + 2 \<le> length c1" using c1(2) n by simp
  obtain c2 where c2: "put_word 2 4 (16 :: u16) c1 = Some c2" "length c2 = length c1" "slice 4 (4 + 2) c2 = Some (to_le 2 (uint (16 :: u16)))"
    "\<And>a b. b \<le> 4 \<or> 4 + 2 \<le> a \<Longrightarrow> slice a b c2 = slice a b c1" by (rule put_wordE[OF r2 that])
  have r3: "6 + 2 \<le> length c2" using c1(2) c2(2) n by simp
  obtain c3 where c3: "put_word 2 6 (4 :: u16) c2 = Some c3" "length c3 = length c2" "slice 6 (6 + 2) c3 = Some (to_le 2 (uint (4 :: u16)))"
    "\<And>a b. b \<le> 6 \<or> 6 + 2 \<le> a \<Longrightarrow> slice a b c3 = slice a b c2" by (rule put_wordE[OF r3 that])
  let ?id = "rev (to_le 4 (uint cid))"
  have r4: "16 + length ?id \<le> length c3" using c1(2) c2(2) c3(2) n by simp
  obtain c4 where c4: "put_at 16 ?id c3 = Some c4" "length c4 = length c3" "slice 16 (16 + length ?id) c4 = Some ?id"
    "\<And>a b. b \<le> 16 \<or> 16 + length ?id \<le> a \<Longrightarrow> slice a b c4 = slice a b c3" by (rule put_atE[OF r4 that])
  have r5: "10 + 2 \<le> length c4" using c1(2) c2(2) c3(2) c4(2) n by simp
  obtain c5 where c5: "put_word 2 10 (24 :: u16) c4 = Some c5" "length c5 = length c4" "slice 10 (10 + 2) c5 = Some (to_le 2 (uint (24 :: u16)))"
    "\<And>a b. b \<le> 10 \<or> 10 + 2 \<le> a \<Longrightarrow> slice a b c5 = slice a b c4" by (rule put_wordE[OF r5 that])
  let ?l = "of_nat (length ctx) :: u32"
  have r6: "12 + 4 \<le> length c5" using c1(2) c2(2) c3(2) c4(2) c5(2) n by simp
  obtain c6 where c6: "put_word 4 12 ?l c5 = Some c6" "length c6 = length c5" "slice 12 (12 + 4) c6 = Some (to_le 4 (uint ?l))"
    "\<And>a b. b \<le> 12 \<or> 12 + 4 \<le> a \<Longrightarrow> slice a b c6 = slice a b c5" by (rule put_wordE[OF r6 that])
  have r7: "24 + length ctx \<le> length c6" using c1(2) c2(2) c3(2) c4(2) c5(2) c6(2) n by simp
  obtain c7 where c7: "put_at 24 ctx c6 = Some c7" "length c7 = length c6" "slice 24 (24 + length ctx) c7 = Some ctx"
    "\<And>a b. b \<le> 24 \<or> 24 + length ctx \<le> a \<Longrightarrow> slice a b c7 = slice a b c6" by (rule put_atE[OF r7 that])
  have len: "length c7 = n" using c1(2) c2(2) c3(2) c4(2) c5(2) c6(2) c7(2) by simp
  show thesis
  proof (rule that[of c7])
    show "context_bytes isLast cid ctx = Some c7"
      using c1(1) c2(1) c3(1) c4(1) c5(1) c6(1) c7(1)
      by (cases isLast) (simp_all add: context_bytes_def n_def c0_def Let_def uint_at_defs PutBigUint32_at_def)
    show "length c7 < length ctx + 32" using len n by simp
    have "slice 16 (16 + 4) c7 = Some ?id" using c4(3) c5(4) c6(4) c7(4) by simp
    then have big: "BigUint32_at 16 c7 = Some cid" by (simp add: BigUint32_at_def)
    have "slice 0 (0 + 4) c7 = Some (to_le 4 (uint k))" "slice 4 (4 + 2) c7 = Some (to_le 2 (uint (16 :: u16)))"
      "slice 6 (6 + 2) c7 = Some (to_le 2 (uint (4 :: u16)))" "slice 10 (10 + 2) c7 = Some (to_le 2 (uint (24 :: u16)))"
      "slice 12 (12 + 4) c7 = Some (to_le 4 (uint ?l))"
      using c1(3) c2(3,4) c3(3,4) c4(4) c5(3,4) c6(3,4) c7(4) by simp_all
    then show "context_fields isLast cid ctx c7"
      using len n c7(3) big by (simp add: context_fields_def uint_at_defs word_at_def k_def of_le_to_le)
  qed
qed

lemma slice_shift: "b \<le> length c \<Longrightarrow> slice (length pre + a) (length pre + b) (pre @ c @ rest) = slice a b c"
  by (auto simp: slice_def)

lemma reads_shift:
  "4 + off \<le> length c \<Longrightarrow> Uint32_at (length pre + off) (pre @ c @ rest) = Uint32_at off c"
  "2 + off \<le> length c \<Longrightarrow> Uint16_at (length pre + off) (pre @ c @ rest) = Uint16_at off c"
  "4 + off \<le> length c \<Longrightarrow> BigUint32_at (length pre + off) (pre @ c @ rest) = BigUint32_at off c"
  using slice_shift[of "off + 4" c pre off rest] slice_shift[of "off + 2" c pre off rest]
  by (simp_all add: uint_at_defs word_at_def BigUint32_at_def add.assoc)

lemma walk_context:
  assumes f: "context_fields isLast cid ctx c" and len: "length (pre @ c @ rest) < 2 ^ 32"
  shows "contexts_walk (pre @ c @ rest) (length pre) m =
    (if isLast then Some (Inr (m(cid \<mapsto> ctx))) else contexts_walk (pre @ c @ rest) (length pre + length c) (m(cid \<mapsto> ctx)))"
proof -
  let ?data = "pre @ c @ rest" and ?pos = "length pre"
  let ?k = "if isLast then 0 else of_nat (length c) :: u32"
  have c: "24 + length ctx \<le> length c" using f by (simp add: context_fields_def)
  have rd: "Uint32_at ?pos ?data = Some ?k" "Uint16_at (?pos + 4) ?data = Some 16" "Uint16_at (?pos + 6) ?data = Some 4"
    "BigUint32_at (?pos + 16) ?data = Some cid" "Uint16_at (?pos + 10) ?data = Some 24"
    "Uint32_at (?pos + 12) ?data = Some (of_nat (length ctx))"
    "slice (?pos + 24) (?pos + 24 + length ctx) ?data = Some ctx"
    using f c reads_shift(1)[of 0 c pre rest] slice_shift[of "24 + length ctx" c pre 24 rest]
    by (simp_all add: context_fields_def reads_shift add.assoc)
  have ul: "unat (of_nat (length ctx) :: u32) = length ctx" "unat (of_nat (length c) :: u32) = length c"
    using len c by (simp_all add: unat_of_nat)
  have fit: "fits_at (?pos + x) y ?data" if "x + y \<le> length c" for x y
    using that len fits_at_iff[of "?pos + x" y ?data] by simp
  have f16: "fits_at ?pos 16 ?data" using fit[of 0 16] c by simp
  have f4: "fits_at (?pos + 16) 4 ?data" "fits_at (?pos + 24) (length ctx) ?data" using fit[of 16 4] fit[of 24 "length ctx"] c by simp_all
  have k: "?k = 0 \<longleftrightarrow> isLast" "\<not> (?k \<noteq> 0 \<and> ?k < 16)"
    using ul c by (auto simp: word_less_nat_alt word_unat_eq_iff)
  have "c \<noteq> []" using c by auto
  then show ?thesis
    using rd f16 f4 ul k c
    by (subst contexts_walk.simps) (cases isLast; simp add: word_less_nat_alt)
qed

definition context_put :: "u32 \<times> bytes \<Rightarrow> (u32 \<rightharpoonup> bytes) \<Rightarrow> (u32 \<rightharpoonup> bytes)" where
  "context_put c m = m(fst c \<mapsto> snd c)"

lemma contexts_bytes_walk:
  assumes "cs \<noteq> []" "\<forall>(cid, ctx) \<in> set cs. length ctx < 2 ^ 31"
  obtains buf where "contexts_bytes cs = Some buf"
    "\<And>pre m. length (pre @ buf) < 2 ^ 32 \<Longrightarrow>
       contexts_walk (pre @ buf) (length pre) m = Some (Inr (fold context_put cs m))"
  using assms
proof (induction cs arbitrary: thesis)
  case (Cons cc cs)
  obtain cid ctx where cc: "cc = (cid, ctx)" by force
  have l: "length ctx < 2 ^ 31" using Cons.prems(3) cc by simp
  obtain c where c: "context_bytes (cs = []) cid ctx = Some c" "context_fields (cs = []) cid ctx c"
    using context_bytes_ok[OF l] by blast
  show ?case
  proof (cases "cs = []")
    case True
    have w: "contexts_walk (pre @ c) (length pre) m = Some (Inr (fold context_put (cc # cs) m))" if "length (pre @ c) < 2 ^ 32" for pre m
      using walk_context[of True cid ctx c pre "[]" m] c(2) True that by (simp add: context_put_def cc)
    have "contexts_bytes (cc # cs) = Some c" using c(1) cc True by simp
    then show ?thesis using w by (rule Cons.prems(1))
  next
    case False
    have p: "\<forall>(cid, ctx) \<in> set cs. length ctx < 2 ^ 31" using Cons.prems(3) by (metis list.set_intros(2))
    obtain rest where r: "contexts_bytes cs = Some rest"
      "\<And>pre m. length (pre @ rest) < 2 ^ 32 \<Longrightarrow>
        contexts_walk (pre @ rest) (length pre) m = Some (Inr (fold context_put cs m))"
      by (rule Cons.IH[OF that False p])
    have "contexts_walk (pre @ c @ rest) (length pre) m = Some (Inr (fold context_put (cc # cs) m))"
      if "length (pre @ c @ rest) < 2 ^ 32" for pre m
      using walk_context[of False cid ctx c pre rest m] c(2) False that r(2)[of "pre @ c" "m(cid \<mapsto> ctx)"] cc by (simp add: context_put_def)
    then show ?thesis using Cons.prems(1)[of "c @ rest"] c(1) r(1) cc by simp
  qed
qed simp

lemma fold_upd_map_of: "fold context_put kvs m = m ++ map_of (rev kvs)"
  by (induction kvs arbitrary: m) (auto simp: context_put_def map_add_def split: option.splits)

lemma map_of_rev_distinct: "distinct (map fst kvs) \<Longrightarrow> map_of (rev kvs) = map_of kvs"
proof (rule ext)
  fix k assume d: "distinct (map fst kvs)"
  then have "distinct (map fst (rev kvs))" by (simp add: rev_map[symmetric])
  moreover have "map_of kvs k = None \<Longrightarrow> map_of (rev kvs) k = None" by (simp add: map_of_eq_None_iff)
  ultimately show "map_of (rev kvs) k = map_of kvs k"
    using d by (cases "map_of kvs k") simp_all
qed

text \<open>The contexts a create is answered with can be read back: the chain the server builds out of
  any contexts, whatever message it stands in, is walked to the end by the server's own reader, which finds exactly
  those contexts in it.\<close>

theorem create_contexts_roundtrip:
  assumes "cs \<noteq> []" "distinct (map fst cs)" "\<forall>(cid, ctx) \<in> set cs. length ctx < 2 ^ 31"
  shows "\<exists>buf. contexts_bytes cs = Some buf \<and>
    (\<forall>pre. length (pre @ buf) < 2 ^ 32 \<longrightarrow> contexts_walk (pre @ buf) (length pre) (\<lambda>_. None) = Some (Inr (map_of cs)))"
proof -
  obtain buf where b: "contexts_bytes cs = Some buf" "\<And>pre m. length (pre @ buf) < 2 ^ 32 \<Longrightarrow>
       contexts_walk (pre @ buf) (length pre) m = Some (Inr (fold context_put cs m))"
    using contexts_bytes_walk[OF assms(1,3)] by blast
  have "fold context_put cs (\<lambda>_. None) = map_of cs"
    using map_of_rev_distinct[OF assms(2)] by (simp add: fold_upd_map_of map_add_def split: option.splits)
  then show ?thesis using b by auto
qed

theorem create_contexts_roundtrip_witness:
  "\<exists>buf. contexts_bytes [(CREATE_QUERY_ON_DISK_ID, replicate 32 1), (CREATE_REQUEST_LEASE, replicate 52 2)] = Some buf"
  using create_contexts_roundtrip[of "[(CREATE_QUERY_ON_DISK_ID, replicate 32 1), (CREATE_REQUEST_LEASE, replicate 52 2)]"]
  by (auto simp: CREATE_QUERY_ON_DISK_ID_def CREATE_REQUEST_LEASE_def)

end
