(* ===== verification/Wire_Chain.thy ===== *)
theory Wire_Chain
  imports Wire_Compound Wire_Responses
begin

section \<open>Messages on the wire: chains of responses\<close>

text \<open>
  The responses of a compound go out as one message. \<^verbatim>\<open>Append\<close> of \<^verbatim>\<open>src/smb2/request.go\<close> walks to the last header of what is
  there, pads it to eight bytes, makes it point to what is added and marks that as related. The offsets are 32 bits wide
  and wrap, and a walk that does not come to an end is \<^const>\<open>None\<close>, like a panic. What is shown: the message a chain is
  put together to is cut up again, by the reader of compounds, into those responses.
\<close>

subsection \<open>Adding to a chain\<close>

definition Uint32_in :: "u32 \<Rightarrow> u32 \<Rightarrow> bytes \<Rightarrow> u32 go" where
  "Uint32_in a b d = map_option (\<lambda>bs. of_int (of_le bs)) (slice (unat a) (unat b) d)"

definition PutUint32_in :: "u32 \<Rightarrow> u32 \<Rightarrow> u32 \<Rightarrow> bytes \<Rightarrow> bytes go" where
  "PutUint32_in a b v d =
     do { bs \<leftarrow> slice (unat a) (unat b) d; bs \<leftarrow> PutUint32_at 0 v bs; put_at (unat a) bs d }"

partial_function (option) append_off :: "bytes \<Rightarrow> u32 \<Rightarrow> u32 go" where
  "append_off data off =
     do { nxt \<leftarrow> Uint32_in (off + 20) (off + 24) data;
          if nxt = 0 then Some off else append_off data (off + nxt) }"

definition Append :: "bytes \<Rightarrow> bytes \<Rightarrow> bytes go" where
  "Append data new =
     do { off \<leftarrow> append_off data 0;
          let newLen = roundup8 (length data);
          let data = data @ replicate (newLen - length data) 0;
          data \<leftarrow> PutUint32_in (off + 20) (off + 24) (of_nat newLen - off) data;
          new \<leftarrow> Header_SetFlag FLAGS_RELATED_OPERATIONS new;
          Some (data @ new) }"

text \<open>A chain as it is built: the first response, and the others added to it as they are ready.\<close>

primrec append_all :: "bytes \<Rightarrow> bytes list \<Rightarrow> bytes go" where
  "append_all data [] = Some data"
| "append_all data (r # rs) = do { data \<leftarrow> Append data r; append_all data rs }"

subsection \<open>What a chain is\<close>

fun chained :: "bytes list \<Rightarrow> bool" where
  "chained [] \<longleftrightarrow> False"
| "chained [p] \<longleftrightarrow> 64 \<le> length p \<and> Header_NextCommand p = Some 0"
| "chained (p # ps) \<longleftrightarrow> 64 \<le> length p \<and> length p mod 8 = 0 \<and> Header_NextCommand p = Some (of_nat (length p)) \<and> chained ps"

lemma chained_Cons: "ps \<noteq> [] \<Longrightarrow> chained (p # ps) \<longleftrightarrow>
    64 \<le> length p \<and> length p mod 8 = 0 \<and> Header_NextCommand p = Some (of_nat (length p)) \<and> chained ps"
  by (cases ps) simp_all

lemma chained_init: "chained (init @ l # ls) \<longleftrightarrow>
    (\<forall>p \<in> set init. 64 \<le> length p \<and> length p mod 8 = 0 \<and> Header_NextCommand p = Some (of_nat (length p))) \<and> chained (l # ls)"
  by (induction init) (auto simp: chained_Cons)

lemma length_init_mod: "\<forall>p \<in> set init. length p mod 8 = 0 \<Longrightarrow> length (concat init) mod 8 = 0"
  by (induction init) (auto simp: mod_add_eq[symmetric])

lemma slice_mid: "b \<le> length m \<Longrightarrow> slice (length pre + a) (length pre + b) (pre @ m @ post) = slice a b m"
  by (auto simp: slice_def)

lemma Uint32_in_piece:
  assumes "length pre + 24 < 2 ^ 32" "24 \<le> length m"
  shows "Uint32_in (of_nat (length pre) + 20) (of_nat (length pre) + 24) (pre @ m @ post) = Header_NextCommand m"
proof -
  have "unat (of_nat (length pre) + 20 :: u32) = length pre + 20" "unat (of_nat (length pre) + 24 :: u32) = length pre + 24"
    using assms(1) by (simp_all add: unat_word_ariths unat_of_nat)
  then show ?thesis using slice_mid[of 24 m pre 20 post] assms(2)
    by (simp add: Uint32_in_def Header_NextCommand_def Uint32_at_def word_at_def)
qed

lemma append_off_chain:
  assumes "chained (init @ [l])" "length (pre @ concat init @ l) < 2 ^ 32"
  shows "append_off (pre @ concat init @ l @ post) (of_nat (length pre)) = Some (of_nat (length (pre @ concat init)))"
  using assms
proof (induction init arbitrary: pre)
  case Nil
  then show ?case
    using Uint32_in_piece[of pre l post] by (subst append_off.simps) (simp del: of_nat_add)
next
  case (Cons p init)
  have p: "64 \<le> length p" "Header_NextCommand p = Some (of_nat (length p))" "chained (init @ [l])"
    using Cons.prems(1) by (simp_all add: chained_Cons)
  have nz: "(of_nat (length p) :: u32) \<noteq> 0"
    using p(1) Cons.prems(2) by (auto simp: word_of_nat_eq_0_iff dest!: dvd_imp_le)
  have "append_off ((pre @ p) @ concat init @ l @ post) (of_nat (length (pre @ p))) = Some (of_nat (length ((pre @ p) @ concat init)))"
    using Cons.prems(2) p(3) by (intro Cons.IH) simp_all
  then show ?case
    using Uint32_in_piece[of pre p "concat init @ l @ post"] p(1,2) nz Cons.prems(2)
    by (subst append_off.simps) simp
qed

text \<open>What a piece of the message keeps of the response it stands for: all but the padding, the flags and where the next
  one is.\<close>

definition carries :: "bytes \<Rightarrow> bytes \<Rightarrow> bool" where
  "carries r p \<longleftrightarrow> length r \<le> length p \<and> length p < length r + 8 \<and> slice 0 16 p = slice 0 16 r
     \<and> slice 24 (length r) p = slice 24 (length r) r"

definition related :: "bytes \<Rightarrow> bool go" where
  "related = Header_IsFlagSet FLAGS_RELATED_OPERATIONS"

lemma PutUint32_in_piece:
  assumes "length pre + 24 < 2 ^ 32" "64 \<le> length m"
  obtains m' where "PutUint32_in (of_nat (length pre) + 20) (of_nat (length pre) + 24) v (pre @ m) = Some (pre @ m')"
    "length m' = length m" "Header_NextCommand m' = Some v" "\<And>a b. b \<le> 20 \<or> 24 \<le> a \<Longrightarrow> slice a b m' = slice a b m"
proof -
  have u: "unat (of_nat (length pre) + 20 :: u32) = length pre + 20" "unat (of_nat (length pre) + 24 :: u32) = length pre + 24"
    using assms(1) by (simp_all add: unat_word_ariths unat_of_nat)
  have r: "20 + 4 \<le> length m" using assms(2) by simp
  obtain m' where m': "put_word 4 20 v m = Some m'" "length m' = length m" "slice 20 (20 + 4) m' = Some (to_le 4 (uint v))"
    "\<And>a b. b \<le> 20 \<or> 20 + 4 \<le> a \<Longrightarrow> slice a b m' = slice a b m"
    by (rule put_wordE[OF r that])
  have "PutUint32_in (of_nat (length pre) + 20) (of_nat (length pre) + 24) v (pre @ m) = Some (pre @ m')"
    using u m'(1) r by (auto simp: PutUint32_in_def slice_def uint_at_defs put_word_def put_at_def)
  moreover have "Header_NextCommand m' = Some v" using m'(3) by (simp add: reads)
  ultimately show thesis using that m'(2,4) by auto
qed

lemma SetFlag_related:
  assumes "64 \<le> length r" "Header_NextCommand r = Some v"
  obtains r' where "Header_SetFlag FLAGS_RELATED_OPERATIONS r = Some r'" "length r' = length r" "carries r r'"
    "Header_NextCommand r' = Some v" "related r' = Some True"
proof -
  obtain f where f: "Header_Flags r = Some f"
    using assms(1) by (cases "Header_Flags r") (simp_all add: header_get_defs uint_at_defs)
  have r: "16 + 4 \<le> length r" using assms(1) by simp
  obtain r' where r': "put_word 4 16 (f OR FLAGS_RELATED_OPERATIONS) r = Some r'" "length r' = length r"
    "slice 16 (16 + 4) r' = Some (to_le 4 (uint (f OR FLAGS_RELATED_OPERATIONS)))"
    "\<And>a b. b \<le> 16 \<or> 16 + 4 \<le> a \<Longrightarrow> slice a b r' = slice a b r"
    by (rule put_wordE[OF r that])
  have "bit ((f OR FLAGS_RELATED_OPERATIONS) AND FLAGS_RELATED_OPERATIONS) 2"
    by (simp add: bit_simps FLAGS_RELATED_OPERATIONS_def bit_numeral_rec)
  then have "(f OR FLAGS_RELATED_OPERATIONS) AND FLAGS_RELATED_OPERATIONS > 0" by (metis bit_0_eq bot_apply word_neq_0_conv bot_bool_def)
  moreover have "Header_Flags r' = Some (f OR FLAGS_RELATED_OPERATIONS)" using r'(3) by (simp add: reads)
  ultimately have "related r' = Some True" by (simp add: related_def Header_IsFlagSet_def)
  moreover have "Header_SetFlag FLAGS_RELATED_OPERATIONS r = Some r'"
    using f r'(1) by (simp add: Header_SetFlag_def Header_SetFlags_def uint_at_defs)
  moreover have "Header_NextCommand r' = Some v" using assms(2) r'(4) by (simp add: reads)
  ultimately show thesis using that r'(2,4) by (simp add: carries_def)
qed

lemma carries_padded:
  assumes "slice 0 16 p = slice 0 16 (l @ pad)" "\<And>a b. 24 \<le> a \<Longrightarrow> slice a b p = slice a b (l @ pad)"
    and "length p = length (l @ pad)" "length pad < 8" "64 \<le> length l"
  shows "carries l p"
  using assms(1,3-) assms(2)[of 24 "length l"] by (simp add: carries_def slice_append1)

lemma Append_chain:
  assumes "chained (init @ [l])" "64 \<le> length r" "Header_NextCommand r = Some 0"
    and "length (concat init @ l) + 8 < 2 ^ 32"
  obtains l' r' where "Append (concat init @ l) r = Some (concat init @ l' @ r')" "chained (init @ [l', r'])"
    "carries l l'" "related l' = related l" "carries r r'" "length r' = length r" "related r' = Some True"
    "length l' \<le> length l + 7"
proof -
  let ?data = "concat init @ l"
  have ch: "\<forall>p \<in> set init. 64 \<le> length p \<and> length p mod 8 = 0 \<and> Header_NextCommand p = Some (of_nat (length p))"
    and l: "64 \<le> length l" using assms(1) by (auto simp: chained_init)
  define n where "n = roundup8 (length ?data)"
  define pad where "pad = replicate (n - length ?data) (0 :: byte)"
  have n: "n = (length ?data + 7) div 8 * 8" using assms(4) unfolding n_def by (intro roundup8_eq) simp
  have n8: "length ?data \<le> n" "n < length ?data + 8" "n mod 8 = 0" unfolding n by presburger+
  have "length (concat init) mod 8 = 0" using ch by (intro length_init_mod) blast
  then have lp: "length (l @ pad) mod 8 = 0" "length (l @ pad) = n - length (concat init)" "length pad < 8"
    using n8 by (auto simp: pad_def)
  have off: "append_off ?data 0 = Some (of_nat (length (concat init)))"
    using append_off_chain[of init l "[]" "[]"] assms(1,4) by simp
  have v: "of_nat n - of_nat (length (concat init)) = (of_nat (length (l @ pad)) :: u32)"
    using n8(1) unfolding lp(2) by (simp add: of_nat_diff)
  obtain r' where r': "Header_SetFlag FLAGS_RELATED_OPERATIONS r = Some r'" "length r' = length r" "carries r r'"
    "Header_NextCommand r' = Some 0" "related r' = Some True"
    by (rule SetFlag_related[OF assms(2,3)])
  have room: "length (concat init) + 24 < 2 ^ 32" "64 \<le> length (l @ pad)" using assms(4) l by simp_all
  obtain l' where l': "PutUint32_in (of_nat (length (concat init)) + 20) (of_nat (length (concat init)) + 24)
      (of_nat (length (l @ pad))) (concat init @ l @ pad) = Some (concat init @ l')" "length l' = length (l @ pad)"
    "Header_NextCommand l' = Some (of_nat (length (l @ pad)))" "\<And>a b. b \<le> 20 \<or> 24 \<le> a \<Longrightarrow> slice a b l' = slice a b (l @ pad)"
    by (rule PutUint32_in_piece[OF room that])
  show thesis
  proof (rule that)
    show "Append ?data r = Some (concat init @ l' @ r')"
      using off v l'(1) r'(1) unfolding Append_def n_def pad_def by (simp add: Let_def)
    show "chained (init @ [l', r'])" using ch l' lp(1) room(2) r'(2,4) assms(2) by (simp add: chained_init)
    show "carries l l'" using l' lp(3) l by (intro carries_padded[of l' l pad]) simp_all
    show "related l' = related l" using l'(4) l by (simp add: related_def Header_IsFlagSet_def reads slice_append1)
    show "length l' \<le> length l + 7" using l'(2) lp(3) by simp
  qed (use r' in simp_all)
qed

lemma carries_trans: "carries r r' \<Longrightarrow> length r' = length r \<Longrightarrow> carries r' p \<Longrightarrow> carries r p"
  by (simp add: carries_def)

lemma append_all_chain:
  assumes "chained (init @ [l])" "\<forall>r \<in> set rs. 64 \<le> length r \<and> Header_NextCommand r = Some 0"
    and "length (concat init @ l @ concat rs) + 8 * Suc (length rs) < 2 ^ 32"
  obtains p ps where "append_all (concat init @ l) rs = Some (concat init @ p @ concat ps)" "chained (init @ p # ps)"
    "carries l p" "related p = related l" "list_all2 carries rs ps" "\<forall>q \<in> set ps. related q = Some True"
    "length (p @ concat ps) \<le> length (l @ concat rs) + 7 * length rs"
  using assms
proof (induction rs arbitrary: init l thesis)
  case Nil
  show ?case by (rule Nil.prems(1)[of l "[]"]) (use Nil.prems in \<open>simp_all add: carries_def\<close>)
next
  case (Cons r rs)
  have r: "64 \<le> length r" "Header_NextCommand r = Some 0" and rs: "\<forall>r \<in> set rs. 64 \<le> length r \<and> Header_NextCommand r = Some 0"
    and room: "length (concat init @ l) + 8 < 2 ^ 32" using Cons.prems(3,4) by simp_all
  obtain l' r' where a: "Append (concat init @ l) r = Some (concat init @ l' @ r')" "chained (init @ [l', r'])"
    "carries l l'" "related l' = related l" "carries r r'" "length r' = length r" "related r' = Some True"
    "length l' \<le> length l + 7"
    by (rule Append_chain[OF Cons.prems(2) r room])
  have ch: "chained ((init @ [l']) @ [r'])" using a(2) by simp
  have room': "length (concat (init @ [l']) @ r' @ concat rs) + 8 * Suc (length rs) < 2 ^ 32"
    using Cons.prems(4) a(6,8) by simp
  obtain p ps where p: "append_all (concat (init @ [l']) @ r') rs = Some (concat (init @ [l']) @ p @ concat ps)"
    "chained ((init @ [l']) @ p # ps)" "carries r' p" "related p = related r'" "list_all2 carries rs ps"
    "\<forall>q \<in> set ps. related q = Some True" "length (p @ concat ps) \<le> length (r' @ concat rs) + 7 * length rs"
    by (rule Cons.IH[OF _ ch rs room'])
  have "carries r p" by (rule carries_trans[OF a(5,6) p(3)])
  then show ?case
    by (intro Cons.prems(1)[of l' "p # ps"]) (use a p in simp_all)
qed

subsection \<open>Reading it back\<close>

lemma Header_Validate_append: "64 \<le> length p \<Longrightarrow> Header_Validate (p @ rest) = Header_Validate p"
  by (simp add: Header_Validate_def Header_IsSmb_def Header_IsSmb2_def Header_LegacyCommand_def reads slice_append1
      byte_at_def nth_append SMB2HeaderSize_def SMBHeaderSize_def cong: if_cong)

lemma NextCommand_append: "64 \<le> length p \<Longrightarrow> Header_NextCommand (p @ rest) = Header_NextCommand p"
  by (simp add: reads slice_append1)

lemma IsFlagSet_append: "64 \<le> length p \<Longrightarrow> Header_IsFlagSet f (p @ rest) = Header_IsFlagSet f p"
  by (simp add: Header_IsFlagSet_def reads slice_append1)

lemma get_requests_loop_chain:
  assumes "chained (p # ps)" "data = concat reqs @ concat (p # ps)" "length data < 2 ^ 32" "length (concat reqs) mod 8 = 0"
    and "\<forall>q \<in> set (p # ps). Header_Validate q = Some None \<and> 64 \<le> length q" "\<forall>q \<in> set reqs. q \<noteq> []"
    and "related p = Some (reqs \<noteq> [])" "\<forall>q \<in> set ps. related q = Some True" "Header_NextCommand p = Some nxt"
  shows "get_requests_loop data (length (concat reqs)) nxt (concat (p # ps)) (length reqs > 1) reqs
    = Some (Inr (reqs @ p # ps, reqs @ ps \<noteq> []))"
  using assms
proof (induction ps arbitrary: p reqs nxt)
  case Nil
  then have "nxt = 0" by simp
  moreover have "\<not> (length (concat reqs) = 0 \<and> reqs \<noteq> [])" using Nil.prems(6) by (cases reqs) auto
  ultimately show ?case using Nil.prems(7)
    by (subst get_requests_loop.simps) (auto simp: related_def)
next
  case (Cons q ps)
  have p: "64 \<le> length p" "length p mod 8 = 0" "nxt = of_nat (length p)" "chained (q # ps)"
    using Cons.prems(1,9) by (auto simp: chained_Cons)
  have un: "unat nxt = length p" using Cons.prems(2,3) p(3) by (simp add: unat_of_nat)
  have nz: "nxt \<noteq> 0" using un p(1) by (metis unat_0 not_numeral_le_zero)
  have al: "\<not> nxt AND 7 > 0" using un p(2) and_7_zero by simp
  obtain nxt' where n': "Header_NextCommand q = Some nxt'" using p(4) by (cases ps) auto
  have q: "64 \<le> length q" "Header_Validate q = Some None" "related q = Some True" using Cons.prems(5,8) by simp_all
  have fl: "Header_IsFlagSet FLAGS_RELATED_OPERATIONS (p @ q @ concat ps) = Some (reqs \<noteq> [])"
    using IsFlagSet_append[OF p(1)] Cons.prems(7) by (simp add: related_def)
  have off: "\<not> (length (concat reqs) = 0 \<and> reqs \<noteq> [])" using Cons.prems(6) by (cases reqs) auto
  have sl: "slice (length (concat reqs)) (length (concat reqs) + length p) data = Some p"
    "slice (length (concat reqs) + length p) (length data) data = Some (concat (q # ps))"
    using Cons.prems(2) by (simp_all add: slice_def)
  have "get_requests_loop data (length (concat (reqs @ [p]))) nxt' (concat (q # ps)) (length (reqs @ [p]) > 1) (reqs @ [p])
    = Some (Inr ((reqs @ [p]) @ q # ps, (reqs @ [p]) @ ps \<noteq> []))"
    by (rule Cons.IH) (use Cons.prems p q n' in \<open>auto simp: mod_add_eq[symmetric]\<close>)
  moreover have "((length reqs > 1) \<or> reqs \<noteq> []) = (length (reqs @ [p]) > 1)" by (cases reqs) auto
  ultimately show ?case
    using al fl off sl nz un Cons.prems(2) n' q(2) Header_Validate_append[OF q(1)] NextCommand_append[OF q(1)]
    by (subst get_requests_loop.simps) (auto simp: Let_def)
qed

lemma carries_valid:
  assumes "carries r p" "64 \<le> length r"
  shows "Header_Validate p = Header_Validate r"
proof -
  have t: "take 16 p = take 16 r" and l: "64 \<le> length p" using assms by (auto simp: carries_def slice_def)
  have "slice a b p = slice a b r" if "b \<le> 16" for a b
    using slice_take[OF that, of p a] slice_take[OF that, of r a] t l assms(2) by simp
  moreover have "p ! 4 = r ! 4" using t by (metis nth_take[of 4 16] numeral_less_iff semiring_norm(76,78))
  ultimately show ?thesis using l assms(2)
    by (simp add: Header_Validate_def Header_IsSmb_def Header_IsSmb2_def Header_LegacyCommand_def reads
        byte_at_def SMB2HeaderSize_def SMBHeaderSize_def cong: if_cong)
qed

text \<open>C29 (chain_read_back). The responses of a compound survive being put together: whatever responses are added to a first
  one, each with a valid header that points nowhere, the message is built without panicking or going round in circles,
  and the reader of compounds cuts it up again into as many related messages, in the same order, each with the header and
  the body of its response.\<close>

theorem chain_read_back:
  assumes "rs \<noteq> []" "\<forall>x \<in> set (r # rs). 64 \<le> length x \<and> Header_NextCommand x = Some 0 \<and> Header_Validate x = Some None"
    and "related r = Some False" "length (concat (r # rs)) + 8 * length (r # rs) < 2 ^ 32"
  shows "\<exists>data ps. append_all r rs = Some data \<and> GetRequests data = Some (Inr (ps, True)) \<and> list_all2 carries (r # rs) ps"
proof -
  have ch: "chained ([] @ [r])" and rs: "\<forall>x \<in> set rs. 64 \<le> length x \<and> Header_NextCommand x = Some 0"
    and room: "length (concat [] @ r @ concat rs) + 8 * Suc (length rs) < 2 ^ 32" using assms(2,4) by simp_all
  obtain p ps where p: "append_all (concat [] @ r) rs = Some (concat [] @ p @ concat ps)" "chained ([] @ p # ps)"
    "carries r p" "related p = related r" "list_all2 carries rs ps" "\<forall>q \<in> set ps. related q = Some True"
    "length (p @ concat ps) \<le> length (r @ concat rs) + 7 * length rs"
    by (rule append_all_chain[OF ch rs room])
  have all: "list_all2 carries (r # rs) (p # ps)" using p(3,5) by simp
  have ps: "ps \<noteq> []" using p(5) assms(1) by auto
  have val: "Header_Validate q = Some None \<and> 64 \<le> length q" if q: "q \<in> set (p # ps)" for q
  proof -
    obtain x where "x \<in> set (r # rs)" "carries x q"
      using q all unfolding list_all2_conv_all_nth in_set_conv_nth by metis
    with assms(2) carries_valid[of x q] show ?thesis by (auto simp: carries_def)
  qed
  have nx: "Header_NextCommand p = Some (of_nat (length p))" "64 \<le> length p" using p(2) ps by (simp_all add: chained_Cons)
  have len: "length (p @ concat ps) < 2 ^ 32" using p(7) assms(4) by simp
  have nz: "(of_nat (length p) :: u32) \<noteq> 0" using nx(2) len by (auto simp: word_of_nat_eq_0_iff dest!: dvd_imp_le)
  have "get_requests_loop (p @ concat ps) 0 (of_nat (length p)) (p @ concat ps) False [] = Some (Inr (p # ps, True))"
    using get_requests_loop_chain[of p ps "p @ concat ps" "[]" "of_nat (length p)"] p(2,4,6) assms(3) len val nx(1) ps by simp
  then have "GetRequests (p @ concat ps) = Some (Inr (p # ps, True))"
    using val[of p] Header_Validate_append[OF nx(2)] NextCommand_append[OF nx(2)] nx(1) nz by (simp add: GetRequests_def)
  with p(1) all show ?thesis by auto
qed

theorem chain_read_back_witness:
  "\<exists>data ps. append_all (sample_message 1 0 (replicate 60 1)) [sample_message 1 0 [4, 0, 0, 0]] = Some data
    \<and> GetRequests data = Some (Inr (ps, True)) \<and> length ps = 2"
proof -
  let ?a = "sample_message 1 0 (replicate 60 1)" and ?b = "sample_message 1 0 [4, 0, 0, 0]"
  have h: "Header_NextCommand ?a = Some 0" "Header_Validate ?a = Some None" "Header_NextCommand ?b = Some 0"
    "Header_Validate ?b = Some None" "related ?a = Some False" by code_simp+
  have l: "length ?a = 124" "length ?b = 68" by (simp_all add: sample_message_def)
  have "\<exists>data ps. append_all ?a [?b] = Some data \<and> GetRequests data = Some (Inr (ps, True)) \<and> list_all2 carries [?a, ?b] ps"
    by (rule chain_read_back) (use h l in simp_all)
  then show ?thesis by (auto dest!: list_all2_lengthD)
qed

end
