(* ===== verification/Transfers.thy ===== *)
theory Transfers
  imports Wire
begin

section \<open>Transfers: what is described\<close>

text \<open>
  \<^verbatim>\<open>src/transfer/transfer.go\<close>: the description of the files of a share another server can take over, and the checks on it.
  A time is the seconds of its instant in 64 bits, which is what a description carries of it. The object a part lies in
  belongs to the storage library and is a type variable; a hash is its 32 bytes. What is shown: the parts of a file that
  passed its check, and the gaps between them, lie in the file, do not overlap and leave no byte of it out - as long as
  no part ends past the greatest 64-bit number, which the check does not rule out.
\<close>

type_synonym time = u64

definition zeroHash :: bytes where "zeroHash = replicate 32 0"

record tHeader =
  th_CreatedAt :: time
  th_Source :: string
  th_Origin :: string
  th_Share :: string
  th_Workgroup :: string

record tShare =
  ts_Name :: string
  ts_Type :: string
  ts_Server :: string
  ts_Password :: string
  ts_Bucket :: string
  ts_Remark :: string
  ts_CreatedAt :: time
  ts_DataShards :: u8
  ts_ParityShards :: u8
  ts_AllowGuest :: bool
  ts_AllowAnonymous :: bool
  ts_PublicDir :: string
  ts_SkipBackup :: bool

record tPublicDir =
  pd_Path :: string
  pd_ReadOnly :: bool
  pd_CaseSensitive :: bool

record tWorkgroup =
  tw_UUID :: bytes
  tw_Name :: string
  tw_PublicDirs :: "tPublicDir list"

record tAccount =
  ta_Name :: string
  ta_PasswordHash :: bytes
  ta_CreatedAt :: time

record tPolicy =
  tp_Account :: string
  tp_Read :: bool
  tp_Write :: bool
  tp_Delete :: bool
  tp_Execute :: bool

record tConnection =
  tc_Share :: tShare
  tc_Workgroup :: tWorkgroup
  tc_Accounts :: "tAccount list"
  tc_Policies :: "tPolicy list"
  tc_AppKey :: bytes

record tWorkgroupAccounts =
  wa_Workgroup :: tWorkgroup
  wa_Accounts :: "tAccount list"

record tBan =
  tb_Host :: string
  tb_Reason :: string

record tServer =
  tv_Shares :: "tShare list"
  tv_Workgroups :: "tWorkgroupAccounts list"
  tv_Bans :: "tBan list"

record tDirectory =
  td_Path :: string
  td_Owner :: string
  td_Private :: bool
  td_ReadOnly :: bool
  td_CreatedAt :: time
  td_ModifiedAt :: time

record tSource =
  so_Kind :: string
  so_Origin :: string
  so_Bucket :: string
  so_Key :: string

record 's tPart =
  pt_Offset :: u64
  pt_DataOffset :: u64
  pt_Length :: u64
  pt_Object :: bytes
  pt_Pin :: "'s option"
  pt_Source :: "tSource option"
  pt_Inline :: "bytes option"

record 's tFile =
  tf_Path :: string
  tf_Owner :: string
  tf_Size :: u64
  tf_CreatedAt :: time
  tf_ModifiedAt :: time
  tf_Parts :: "'s tPart list"

subsection \<open>Parts and gaps\<close>

definition Part_End :: "'s tPart \<Rightarrow> u64" where
  "Part_End p = pt_Offset p + pt_Length p"

record tGap =
  gap_Offset :: u64
  gap_Length :: u64

fun gaps_loop :: "u64 \<Rightarrow> 's tPart list \<Rightarrow> u64 \<Rightarrow> tGap list" where
  "gaps_loop at [] sz = (if at < sz then [\<lparr>gap_Offset = at, gap_Length = sz - at\<rparr>] else [])"
| "gaps_loop at (part # parts) sz =
     (if pt_Offset part > at then [\<lparr>gap_Offset = at, gap_Length = pt_Offset part - at\<rparr>] else [])
     @ gaps_loop (Part_End part) parts sz"

definition File_Gaps :: "'s tFile \<Rightarrow> tGap list" where
  "File_Gaps f = gaps_loop 0 (tf_Parts f) (tf_Size f)"

definition File_Complete :: "'s tFile \<Rightarrow> bool" where
  "File_Complete f \<longleftrightarrow> length (File_Gaps f) = 0"

subsection \<open>The checks\<close>

datatype transfer_error =
  PathEmpty | PathNotRooted | PathTrailingSlash | NoShareName | AppKeyLength | ShareNoName | BanNoHost | AccountNoName | HashLength
| PartEmpty nat | PartEarly nat | PartPastEnd nat | PartInlineLength nat | PartNowhere nat
| NotATransfer | UnsupportedVersion | Truncated | Corrupted | RecordTooLarge | NoHeader | ConnectionAmong
| SaidAlready | ConnectionLate | ServerHoldsNoFiles | ClosedAlready | DecodeError | SinkError | EOF

definition transfer_validPath :: "string \<Rightarrow> transfer_error option" where
  "transfer_validPath path =
     (if path = '''' then Some PathEmpty
      else if path ! 0 \<noteq> CHR ''/'' then Some PathNotRooted
      else if length path > 1 \<and> path ! (length path - 1) = CHR ''/'' then Some PathTrailingSlash
      else None)"

definition Directory_Validate :: "tDirectory \<Rightarrow> transfer_error option" where
  "Directory_Validate d = transfer_validPath (td_Path d)"

fun validAccounts :: "tAccount list \<Rightarrow> transfer_error option" where
  "validAccounts [] = None"
| "validAccounts (acc # accounts) =
     (if ta_Name acc = '''' then Some AccountNoName
      else if length (ta_PasswordHash acc) \<noteq> 16 then Some HashLength
      else validAccounts accounts)"

definition Connection_Validate :: "tConnection \<Rightarrow> transfer_error option" where
  "Connection_Validate c =
     (if ts_Name (tc_Share c) = '''' then Some NoShareName
      else if length (tc_AppKey c) \<noteq> 0 \<and> length (tc_AppKey c) \<noteq> 64 then Some AppKeyLength
      else validAccounts (tc_Accounts c))"

text \<open>The first error of a list of checks.\<close>

fun first_error :: "('a \<Rightarrow> transfer_error option) \<Rightarrow> 'a list \<Rightarrow> transfer_error option" where
  "first_error chk [] = None"
| "first_error chk (x # xs) = (case chk x of Some e \<Rightarrow> Some e | None \<Rightarrow> first_error chk xs)"

definition Server_Validate :: "tServer \<Rightarrow> transfer_error option" where
  "Server_Validate s =
     (case first_error (\<lambda>share. if ts_Name share = '''' then Some ShareNoName else None) (tv_Shares s) of
        Some e \<Rightarrow> Some e
      | None \<Rightarrow>
          (case first_error (\<lambda>wg. validAccounts (wa_Accounts wg)) (tv_Workgroups s) of
             Some e \<Rightarrow> Some e
           | None \<Rightarrow> first_error (\<lambda>ban. if tb_Host ban = '''' then Some BanNoHost else None) (tv_Bans s)))"

fun validParts :: "nat \<Rightarrow> u64 \<Rightarrow> 's tPart list \<Rightarrow> u64 \<Rightarrow> transfer_error option" where
  "validParts i at [] sz = None"
| "validParts i at (part # parts) sz =
     (if pt_Length part = 0 then Some (PartEmpty i)
      else if pt_Offset part < at then Some (PartEarly i)
      else if Part_End part > sz then Some (PartPastEnd i)
      else if (case pt_Inline part of None \<Rightarrow> False | Some b \<Rightarrow> of_nat (length b) \<noteq> pt_Length part) then Some (PartInlineLength i)
      else if pt_Object part = zeroHash \<and> pt_Pin part = None \<and> pt_Source part = None \<and> pt_Inline part = None
      then Some (PartNowhere i)
      else validParts (Suc i) (Part_End part) parts sz)"

definition File_Validate :: "'s tFile \<Rightarrow> transfer_error option" where
  "File_Validate f =
     (case transfer_validPath (tf_Path f) of Some e \<Rightarrow> Some e | None \<Rightarrow> validParts 0 0 (tf_Parts f) (tf_Size f))"

subsection \<open>What a checked file is made of\<close>

text \<open>The runs of bytes of a file: those of its parts, and its gaps.\<close>

definition runs :: "'s tPart list \<Rightarrow> tGap list \<Rightarrow> (nat \<times> nat) list" where
  "runs ps gs = map (\<lambda>p. (unat (pt_Offset p), unat (pt_Length p))) ps @ map (\<lambda>g. (unat (gap_Offset g), unat (gap_Length g))) gs"

definition hits :: "nat \<Rightarrow> (nat \<times> nat) list \<Rightarrow> nat" where
  "hits x rs = length (filter (\<lambda>(off, len). off \<le> x \<and> x < off + len) rs)"

lemma hits_Nil [simp]: "hits x [] = 0"
  by (simp add: hits_def)

lemma hits_Cons [simp]: "hits x ((off, len) # rs) = (if off \<le> x \<and> x < off + len then 1 else 0) + hits x rs"
  by (simp add: hits_def)

lemma hits_append [simp]: "hits x (rs @ ss) = hits x rs + hits x ss"
  by (simp add: hits_def)

definition wraps :: "'s tPart \<Rightarrow> bool" where
  "wraps p \<longleftrightarrow> unat (pt_Offset p) + unat (pt_Length p) \<ge> 2 ^ 64"

lemma unat_Part_End: "\<not> wraps p \<Longrightarrow> unat (Part_End p) = unat (pt_Offset p) + unat (pt_Length p)"
  by (simp add: wraps_def Part_End_def unat_word_ariths)

lemma hits_loop:
  assumes "validParts i at ps sz = None" "\<forall>p \<in> set ps. \<not> wraps p" "at \<le> sz"
  shows "hits x (runs ps (gaps_loop at ps sz)) = (if unat at \<le> x \<and> x < unat sz then 1 else 0)"
  using assms
proof (induction ps arbitrary: i at)
  case Nil
  then show ?case by (auto simp: runs_def unat_sub word_less_nat_alt word_le_nat_alt)
next
  case (Cons p ps)
  let ?e = "Part_End p"
  have v: "validParts (Suc i) ?e ps sz = None" "at \<le> pt_Offset p" "?e \<le> sz"
    using Cons.prems(1) by (auto split: if_splits)
  have e: "unat ?e = unat (pt_Offset p) + unat (pt_Length p)" using Cons.prems(2) by (simp add: unat_Part_End)
  have "hits x (runs ps (gaps_loop ?e ps sz)) = (if unat ?e \<le> x \<and> x < unat sz then 1 else 0)"
    using Cons.prems(2) v by (intro Cons.IH) simp_all
  then show ?case
    using v(2,3) e by (auto simp: runs_def unat_sub word_less_nat_alt word_le_nat_alt)
qed

text \<open>What makes up a file that passed its check: every byte of it lies in exactly one of its parts
  and its gaps, and no part and no gap has a byte beyond its end, provided that no part ends past the greatest number
  an offset can be.\<close>

theorem parts_and_gaps_partition:
  assumes "File_Validate f = None" "\<forall>p \<in> set (tf_Parts f). \<not> wraps p"
  shows "hits x (runs (tf_Parts f) (File_Gaps f)) = (if x < unat (tf_Size f) then 1 else 0)"
  using assms hits_loop[of 0 0 "tf_Parts f" "tf_Size f" x]
  by (auto simp: File_Validate_def File_Gaps_def split: option.splits)

definition sample_part :: "u64 \<Rightarrow> u64 \<Rightarrow> unit tPart" where
  "sample_part off len = \<lparr>pt_Offset = off, pt_DataOffset = 0, pt_Length = len, pt_Object = replicate 32 7, pt_Pin = None,
     pt_Source = None, pt_Inline = None\<rparr>"

definition sample_file :: "u64 \<Rightarrow> unit tPart list \<Rightarrow> unit tFile" where
  "sample_file sz ps = \<lparr>tf_Path = ''/a'', tf_Owner = '''', tf_Size = sz, tf_CreatedAt = 0, tf_ModifiedAt = 0, tf_Parts = ps\<rparr>"

theorem parts_and_gaps_partition_witness:
  "hits 12 (runs [sample_part 2 4, sample_part 10 5] (File_Gaps (sample_file 20 [sample_part 2 4, sample_part 10 5]))) = 1"
proof -
  have v: "File_Validate (sample_file 20 [sample_part 2 4, sample_part 10 5]) = None" by code_simp
  show ?thesis
    using parts_and_gaps_partition[OF v, of 12] by (simp add: sample_file_def sample_part_def wraps_def)
qed

text \<open>A part far outside of its file passes the check when its end wraps.\<close>

lemma wrapping_part_passes:
  "File_Validate (sample_file 10 [sample_part (2 ^ 64 - 5) 8]) = None"
  "hits (2 ^ 64 - 5) (runs (tf_Parts (sample_file 10 [sample_part (2 ^ 64 - 5) 8])) []) = 1"
  by code_simp (simp add: sample_file_def sample_part_def runs_def hits_def)

end
