(* ===== verification/Transfer_Records.thy ===== *)
theory Transfer_Records
  imports Transfers
begin

section \<open>Transfers: the records of a stream\<close>

text \<open>
  \<^verbatim>\<open>src/transfer/encoding.go\<close>, its first half: how each of the things a description is made of is encoded and decoded. The
  encoder and the decoder, the digest and the object of a pin belong to the storage library: they are the fields of
  \<open>codec\<close>, and what is relied on is the locale \<open>codec_laws\<close>, that what was written is read back and how long a few of the
  encodings are. A decoder keeps its first error and the code asks for it at the end, so a decoder is a function to
  \<^const>\<open>None\<close> or the value and what is left. Moving a time to UTC leaves its instant as it is.
\<close>

subsection \<open>The library\<close>

type_synonym 'a parser = "bytes \<Rightarrow> ('a \<times> bytes) option"

record 's codec =
  WriteUint8 :: "u8 \<Rightarrow> bytes"
  WriteUint64 :: "u64 \<Rightarrow> bytes"
  WriteBool :: "bool \<Rightarrow> bytes"
  WriteString :: "string \<Rightarrow> bytes"
  WriteBytes :: "bytes \<Rightarrow> bytes"
  WriteTime :: "time \<Rightarrow> bytes"
  WritePrefix :: "nat \<Rightarrow> bytes"
  WriteHash :: "bytes \<Rightarrow> bytes"
  WriteSealed :: "'s \<Rightarrow> bytes"
  ReadUint8 :: "u8 parser"
  ReadUint64 :: "u64 parser"
  ReadBool :: "bool parser"
  ReadString :: "string parser"
  ReadBytes :: "bytes parser"
  ReadTime :: "time parser"
  ReadPrefix :: "nat parser"
  ReadHash :: "bytes parser"
  ReadSealed :: "'s parser"
  Sum256 :: "bytes \<Rightarrow> bytes"

text \<open>Reading bytes into a buffer of a fixed length, and slices: the number of elements, then the elements.\<close>

definition Read :: "nat \<Rightarrow> bytes parser" where
  "Read n d = (if n \<le> length d then Some (take n d, drop n d) else None)"

definition EncodeSlice :: "'s codec \<Rightarrow> ('a \<Rightarrow> bytes) \<Rightarrow> 'a list \<Rightarrow> bytes" where
  "EncodeSlice C enc xs = WritePrefix C (length xs) @ concat (map enc xs)"

primrec decode_n :: "'a parser \<Rightarrow> nat \<Rightarrow> 'a list parser" where
  "decode_n dec 0 d = Some ([], d)"
| "decode_n dec (Suc n) d = do { (x, d) \<leftarrow> dec d; (xs, d) \<leftarrow> decode_n dec n d; Some (x # xs, d) }"

definition DecodeSlice :: "'s codec \<Rightarrow> 'a parser \<Rightarrow> 'a list parser" where
  "DecodeSlice C dec d = do { (n, d) \<leftarrow> ReadPrefix C d; decode_n dec n d }"

subsection \<open>The records\<close>

definition Header_EncodeTo :: "'s codec \<Rightarrow> tHeader \<Rightarrow> bytes" where
  "Header_EncodeTo C v =
     WriteTime C (th_CreatedAt v)
     @ WriteString C (th_Source v)
     @ WriteString C (th_Origin v)
     @ WriteString C (th_Share v)
     @ WriteString C (th_Workgroup v)"

definition Header_DecodeFrom :: "'s codec \<Rightarrow> tHeader parser" where
  "Header_DecodeFrom C d =
     do { (x0, d) \<leftarrow> ReadTime C d;
          (x1, d) \<leftarrow> ReadString C d;
          (x2, d) \<leftarrow> ReadString C d;
          (x3, d) \<leftarrow> ReadString C d;
          (x4, d) \<leftarrow> ReadString C d;
          Some (\<lparr>th_CreatedAt = x0, th_Source = x1, th_Origin = x2, th_Share = x3, th_Workgroup = x4\<rparr>, d) }"

definition Ban_EncodeTo :: "'s codec \<Rightarrow> tBan \<Rightarrow> bytes" where
  "Ban_EncodeTo C v =
     WriteString C (tb_Host v)
     @ WriteString C (tb_Reason v)"

definition Ban_DecodeFrom :: "'s codec \<Rightarrow> tBan parser" where
  "Ban_DecodeFrom C d =
     do { (x0, d) \<leftarrow> ReadString C d;
          (x1, d) \<leftarrow> ReadString C d;
          Some (\<lparr>tb_Host = x0, tb_Reason = x1\<rparr>, d) }"

definition Share_EncodeTo :: "'s codec \<Rightarrow> tShare \<Rightarrow> bytes" where
  "Share_EncodeTo C v =
     WriteString C (ts_Name v)
     @ WriteString C (ts_Type v)
     @ WriteString C (ts_Server v)
     @ WriteString C (ts_Password v)
     @ WriteString C (ts_Bucket v)
     @ WriteString C (ts_Remark v)
     @ WriteTime C (ts_CreatedAt v)
     @ WriteUint8 C (ts_DataShards v)
     @ WriteUint8 C (ts_ParityShards v)
     @ WriteBool C (ts_AllowGuest v)
     @ WriteBool C (ts_AllowAnonymous v)
     @ WriteString C (ts_PublicDir v)
     @ WriteBool C (ts_SkipBackup v)"

definition Share_DecodeFrom :: "'s codec \<Rightarrow> tShare parser" where
  "Share_DecodeFrom C d =
     do { (x0, d) \<leftarrow> ReadString C d;
          (x1, d) \<leftarrow> ReadString C d;
          (x2, d) \<leftarrow> ReadString C d;
          (x3, d) \<leftarrow> ReadString C d;
          (x4, d) \<leftarrow> ReadString C d;
          (x5, d) \<leftarrow> ReadString C d;
          (x6, d) \<leftarrow> ReadTime C d;
          (x7, d) \<leftarrow> ReadUint8 C d;
          (x8, d) \<leftarrow> ReadUint8 C d;
          (x9, d) \<leftarrow> ReadBool C d;
          (x10, d) \<leftarrow> ReadBool C d;
          (x11, d) \<leftarrow> ReadString C d;
          (x12, d) \<leftarrow> ReadBool C d;
          Some (\<lparr>ts_Name = x0, ts_Type = x1, ts_Server = x2, ts_Password = x3, ts_Bucket = x4, ts_Remark = x5, ts_CreatedAt = x6, ts_DataShards = x7, ts_ParityShards = x8, ts_AllowGuest = x9, ts_AllowAnonymous = x10, ts_PublicDir = x11, ts_SkipBackup = x12\<rparr>, d) }"

definition PublicDir_EncodeTo :: "'s codec \<Rightarrow> tPublicDir \<Rightarrow> bytes" where
  "PublicDir_EncodeTo C v =
     WriteString C (pd_Path v)
     @ WriteBool C (pd_ReadOnly v)
     @ WriteBool C (pd_CaseSensitive v)"

definition PublicDir_DecodeFrom :: "'s codec \<Rightarrow> tPublicDir parser" where
  "PublicDir_DecodeFrom C d =
     do { (x0, d) \<leftarrow> ReadString C d;
          (x1, d) \<leftarrow> ReadBool C d;
          (x2, d) \<leftarrow> ReadBool C d;
          Some (\<lparr>pd_Path = x0, pd_ReadOnly = x1, pd_CaseSensitive = x2\<rparr>, d) }"

definition Workgroup_EncodeTo :: "'s codec \<Rightarrow> tWorkgroup \<Rightarrow> bytes" where
  "Workgroup_EncodeTo C v =
     tw_UUID v
     @ WriteString C (tw_Name v)
     @ EncodeSlice C (PublicDir_EncodeTo C) (tw_PublicDirs v)"

definition Workgroup_DecodeFrom :: "'s codec \<Rightarrow> tWorkgroup parser" where
  "Workgroup_DecodeFrom C d =
     do { (x0, d) \<leftarrow> Read 16 d;
          (x1, d) \<leftarrow> ReadString C d;
          (x2, d) \<leftarrow> DecodeSlice C (PublicDir_DecodeFrom C) d;
          Some (\<lparr>tw_UUID = x0, tw_Name = x1, tw_PublicDirs = x2\<rparr>, d) }"

definition Account_EncodeTo :: "'s codec \<Rightarrow> tAccount \<Rightarrow> bytes" where
  "Account_EncodeTo C v =
     WriteString C (ta_Name v)
     @ WriteBytes C (ta_PasswordHash v)
     @ WriteTime C (ta_CreatedAt v)"

definition Account_DecodeFrom :: "'s codec \<Rightarrow> tAccount parser" where
  "Account_DecodeFrom C d =
     do { (x0, d) \<leftarrow> ReadString C d;
          (x1, d) \<leftarrow> ReadBytes C d;
          (x2, d) \<leftarrow> ReadTime C d;
          Some (\<lparr>ta_Name = x0, ta_PasswordHash = x1, ta_CreatedAt = x2\<rparr>, d) }"

definition Policy_EncodeTo :: "'s codec \<Rightarrow> tPolicy \<Rightarrow> bytes" where
  "Policy_EncodeTo C v =
     WriteString C (tp_Account v)
     @ WriteBool C (tp_Read v)
     @ WriteBool C (tp_Write v)
     @ WriteBool C (tp_Delete v)
     @ WriteBool C (tp_Execute v)"

definition Policy_DecodeFrom :: "'s codec \<Rightarrow> tPolicy parser" where
  "Policy_DecodeFrom C d =
     do { (x0, d) \<leftarrow> ReadString C d;
          (x1, d) \<leftarrow> ReadBool C d;
          (x2, d) \<leftarrow> ReadBool C d;
          (x3, d) \<leftarrow> ReadBool C d;
          (x4, d) \<leftarrow> ReadBool C d;
          Some (\<lparr>tp_Account = x0, tp_Read = x1, tp_Write = x2, tp_Delete = x3, tp_Execute = x4\<rparr>, d) }"

definition Connection_EncodeTo :: "'s codec \<Rightarrow> tConnection \<Rightarrow> bytes" where
  "Connection_EncodeTo C v =
     Share_EncodeTo C (tc_Share v)
     @ Workgroup_EncodeTo C (tc_Workgroup v)
     @ EncodeSlice C (Account_EncodeTo C) (tc_Accounts v)
     @ EncodeSlice C (Policy_EncodeTo C) (tc_Policies v)
     @ WriteBytes C (tc_AppKey v)"

definition Connection_DecodeFrom :: "'s codec \<Rightarrow> tConnection parser" where
  "Connection_DecodeFrom C d =
     do { (x0, d) \<leftarrow> Share_DecodeFrom C d;
          (x1, d) \<leftarrow> Workgroup_DecodeFrom C d;
          (x2, d) \<leftarrow> DecodeSlice C (Account_DecodeFrom C) d;
          (x3, d) \<leftarrow> DecodeSlice C (Policy_DecodeFrom C) d;
          (x4, d) \<leftarrow> ReadBytes C d;
          Some (\<lparr>tc_Share = x0, tc_Workgroup = x1, tc_Accounts = x2, tc_Policies = x3, tc_AppKey = x4\<rparr>, d) }"

definition WorkgroupAccounts_EncodeTo :: "'s codec \<Rightarrow> tWorkgroupAccounts \<Rightarrow> bytes" where
  "WorkgroupAccounts_EncodeTo C v =
     Workgroup_EncodeTo C (wa_Workgroup v)
     @ EncodeSlice C (Account_EncodeTo C) (wa_Accounts v)"

definition WorkgroupAccounts_DecodeFrom :: "'s codec \<Rightarrow> tWorkgroupAccounts parser" where
  "WorkgroupAccounts_DecodeFrom C d =
     do { (x0, d) \<leftarrow> Workgroup_DecodeFrom C d;
          (x1, d) \<leftarrow> DecodeSlice C (Account_DecodeFrom C) d;
          Some (\<lparr>wa_Workgroup = x0, wa_Accounts = x1\<rparr>, d) }"

definition Server_EncodeTo :: "'s codec \<Rightarrow> tServer \<Rightarrow> bytes" where
  "Server_EncodeTo C v =
     EncodeSlice C (Share_EncodeTo C) (tv_Shares v)
     @ EncodeSlice C (WorkgroupAccounts_EncodeTo C) (tv_Workgroups v)
     @ EncodeSlice C (Ban_EncodeTo C) (tv_Bans v)"

definition Server_DecodeFrom :: "'s codec \<Rightarrow> tServer parser" where
  "Server_DecodeFrom C d =
     do { (x0, d) \<leftarrow> DecodeSlice C (Share_DecodeFrom C) d;
          (x1, d) \<leftarrow> DecodeSlice C (WorkgroupAccounts_DecodeFrom C) d;
          (x2, d) \<leftarrow> DecodeSlice C (Ban_DecodeFrom C) d;
          Some (\<lparr>tv_Shares = x0, tv_Workgroups = x1, tv_Bans = x2\<rparr>, d) }"

definition Directory_EncodeTo :: "'s codec \<Rightarrow> tDirectory \<Rightarrow> bytes" where
  "Directory_EncodeTo C v =
     WriteString C (td_Path v)
     @ WriteString C (td_Owner v)
     @ WriteBool C (td_Private v)
     @ WriteBool C (td_ReadOnly v)
     @ WriteTime C (td_CreatedAt v)
     @ WriteTime C (td_ModifiedAt v)"

definition Directory_DecodeFrom :: "'s codec \<Rightarrow> tDirectory parser" where
  "Directory_DecodeFrom C d =
     do { (x0, d) \<leftarrow> ReadString C d;
          (x1, d) \<leftarrow> ReadString C d;
          (x2, d) \<leftarrow> ReadBool C d;
          (x3, d) \<leftarrow> ReadBool C d;
          (x4, d) \<leftarrow> ReadTime C d;
          (x5, d) \<leftarrow> ReadTime C d;
          Some (\<lparr>td_Path = x0, td_Owner = x1, td_Private = x2, td_ReadOnly = x3, td_CreatedAt = x4, td_ModifiedAt = x5\<rparr>, d) }"

definition Source_EncodeTo :: "'s codec \<Rightarrow> tSource \<Rightarrow> bytes" where
  "Source_EncodeTo C v =
     WriteString C (so_Kind v)
     @ WriteString C (so_Origin v)
     @ WriteString C (so_Bucket v)
     @ WriteString C (so_Key v)"

definition Source_DecodeFrom :: "'s codec \<Rightarrow> tSource parser" where
  "Source_DecodeFrom C d =
     do { (x0, d) \<leftarrow> ReadString C d;
          (x1, d) \<leftarrow> ReadString C d;
          (x2, d) \<leftarrow> ReadString C d;
          (x3, d) \<leftarrow> ReadString C d;
          Some (\<lparr>so_Kind = x0, so_Origin = x1, so_Bucket = x2, so_Key = x3\<rparr>, d) }"

text \<open>A part says in a byte which of the ways to its bytes it carries.\<close>

definition flagObject :: u8 where "flagObject = 1"
definition flagPin :: u8 where "flagPin = 2"
definition flagSource :: u8 where "flagSource = 4"
definition flagInline :: u8 where "flagInline = 8"

definition part_flags :: "'s tPart \<Rightarrow> u8" where
  "part_flags p =
     (if pt_Object p \<noteq> zeroHash then flagObject else 0) OR (if pt_Pin p \<noteq> None then flagPin else 0)
     OR (if pt_Source p \<noteq> None then flagSource else 0) OR (if pt_Inline p \<noteq> None then flagInline else 0)"

definition Part_EncodeTo :: "'s codec \<Rightarrow> 's tPart \<Rightarrow> bytes" where
  "Part_EncodeTo C p =
     (let flags = part_flags p
      in WriteUint64 C (pt_Offset p) @ WriteUint64 C (pt_DataOffset p) @ WriteUint64 C (pt_Length p) @ WriteUint8 C flags
         @ (if flags AND flagObject \<noteq> 0 then WriteHash C (pt_Object p) else [])
         @ (if flags AND flagPin \<noteq> 0 then WriteSealed C (the (pt_Pin p)) else [])
         @ (if flags AND flagSource \<noteq> 0 then Source_EncodeTo C (the (pt_Source p)) else [])
         @ (if flags AND flagInline \<noteq> 0 then WriteBytes C (the (pt_Inline p)) else []))"

definition Part_DecodeFrom :: "'s codec \<Rightarrow> 's tPart parser" where
  "Part_DecodeFrom C d =
     do { (off, d) \<leftarrow> ReadUint64 C d;
          (dataOff, d) \<leftarrow> ReadUint64 C d;
          (len, d) \<leftarrow> ReadUint64 C d;
          (flags, d) \<leftarrow> ReadUint8 C d;
          (obj, d) \<leftarrow> (if flags AND flagObject \<noteq> 0 then ReadHash C d else Some (zeroHash, d));
          (pin, d) \<leftarrow> (if flags AND flagPin \<noteq> 0 then do { (s, d) \<leftarrow> ReadSealed C d; Some (Some s, d) } else Some (None, d));
          (src, d) \<leftarrow> (if flags AND flagSource \<noteq> 0 then do { (s, d) \<leftarrow> Source_DecodeFrom C d; Some (Some s, d) } else Some (None, d));
          (inl, d) \<leftarrow> (if flags AND flagInline \<noteq> 0 then do { (b, d) \<leftarrow> ReadBytes C d; Some (Some b, d) } else Some (None, d));
          Some (\<lparr>pt_Offset = off, pt_DataOffset = dataOff, pt_Length = len, pt_Object = obj, pt_Pin = pin, pt_Source = src,
            pt_Inline = inl\<rparr>, d) }"

definition File_EncodeTo :: "'s codec \<Rightarrow> 's tFile \<Rightarrow> bytes" where
  "File_EncodeTo C v =
     WriteString C (tf_Path v)
     @ WriteString C (tf_Owner v)
     @ WriteUint64 C (tf_Size v)
     @ WriteTime C (tf_CreatedAt v)
     @ WriteTime C (tf_ModifiedAt v)
     @ EncodeSlice C (Part_EncodeTo C) (tf_Parts v)"

definition File_DecodeFrom :: "'s codec \<Rightarrow> 's tFile parser" where
  "File_DecodeFrom C d =
     do { (x0, d) \<leftarrow> ReadString C d;
          (x1, d) \<leftarrow> ReadString C d;
          (x2, d) \<leftarrow> ReadUint64 C d;
          (x3, d) \<leftarrow> ReadTime C d;
          (x4, d) \<leftarrow> ReadTime C d;
          (x5, d) \<leftarrow> DecodeSlice C (Part_DecodeFrom C) d;
          Some (\<lparr>tf_Path = x0, tf_Owner = x1, tf_Size = x2, tf_CreatedAt = x3, tf_ModifiedAt = x4, tf_Parts = x5\<rparr>, d) }"

definition decode :: "'a parser \<Rightarrow> bytes \<Rightarrow> transfer_error + 'a" where
  "decode dec payload = (case dec payload of None \<Rightarrow> Inl DecodeError | Some (v, _) \<Rightarrow> Inr v)"

subsection \<open>What is relied on\<close>

text \<open>The arrays of Go have their length by their type.\<close>

definition Workgroup_sized :: "tWorkgroup \<Rightarrow> bool" where "Workgroup_sized w \<longleftrightarrow> length (tw_UUID w) = 16"
definition Connection_sized :: "tConnection \<Rightarrow> bool" where "Connection_sized c \<longleftrightarrow> Workgroup_sized (tc_Workgroup c)"
definition Server_sized :: "tServer \<Rightarrow> bool" where "Server_sized s \<longleftrightarrow> (\<forall>w \<in> set (tv_Workgroups s). Workgroup_sized (wa_Workgroup w))"
definition File_sized :: "'s tFile \<Rightarrow> bool" where "File_sized f \<longleftrightarrow> (\<forall>p \<in> set (tf_Parts f). length (pt_Object p) = 32)"

locale codec_laws =
  fixes C :: "'s codec"
  assumes read_uint8: "ReadUint8 C (WriteUint8 C v8 @ d) = Some (v8, d)"
    and read_uint64: "ReadUint64 C (WriteUint64 C v64 @ d) = Some (v64, d)"
    and read_bool: "ReadBool C (WriteBool C b @ d) = Some (b, d)"
    and read_string: "length s < 2 ^ 63 \<Longrightarrow> ReadString C (WriteString C s @ d) = Some (s, d)"
    and read_bytes: "length bs < 2 ^ 63 \<Longrightarrow> ReadBytes C (WriteBytes C bs @ d) = Some (bs, d)"
    and read_time: "ReadTime C (WriteTime C t @ d) = Some (t, d)"
    and read_prefix: "n < 2 ^ 63 \<Longrightarrow> ReadPrefix C (WritePrefix C n @ d) = Some (n, d)"
    and read_hash: "length h = 32 \<Longrightarrow> ReadHash C (WriteHash C h @ d) = Some (h, d)"
    and read_sealed: "ReadSealed C (WriteSealed C o' @ d) = Some (o', d)"
    and length_uint8: "length (WriteUint8 C v8) = 1"
    and length_uint64: "length (WriteUint64 C v64) = 8"
    and length_string: "length (WriteString C s) = 8 + length s"
    and length_bytes: "length (WriteBytes C bs) = 8 + length bs"
    and length_sum: "length (Sum256 C bs) = 32"
begin

lemmas reads_back = read_uint8 read_uint64 read_bool read_string read_bytes read_time read_prefix read_hash read_sealed
lemmas lengths = length_uint8 length_uint64 length_string length_bytes

lemma Read_back: "length bs = n \<Longrightarrow> Read n (bs @ d) = Some (bs, d)"
  by (simp add: Read_def)

lemma decode_n_back:
  assumes "\<And>x d. x \<in> set xs \<Longrightarrow> dec (enc x @ d) = Some (x, d)"
  shows "decode_n dec (length xs) (concat (map enc xs) @ d) = Some (xs, d)"
  using assms by (induction xs arbitrary: d) simp_all

lemma concat_bounds:
  "x \<in> set xs \<Longrightarrow> length (enc x) \<le> length (concat (map enc xs))"
  "(\<And>x. enc x \<noteq> []) \<Longrightarrow> length xs \<le> length (concat (map enc xs))"
  by (induction xs) (auto simp: Suc_le_eq trans_le_add1 add_strict_increasing)

lemma DecodeSlice_back:
  assumes "length (EncodeSlice C enc xs) < 2 ^ 63" "\<And>x. enc x \<noteq> []"
    and "\<And>x d. x \<in> set xs \<Longrightarrow> length (enc x) < 2 ^ 63 \<Longrightarrow> dec (enc x @ d) = Some (x, d)"
  shows "DecodeSlice C dec (EncodeSlice C enc xs @ d) = Some (xs, d)"
proof -
  have "length (concat (map enc xs)) < 2 ^ 63" using assms(1) by (simp add: EncodeSlice_def)
  then have "length xs < 2 ^ 63" "dec (enc x @ d') = Some (x, d')" if "x \<in> set xs" for x d'
    using concat_bounds(1)[OF that, of enc] concat_bounds(2)[of enc xs, OF assms(2)] assms(3)[OF that] by simp_all
  moreover have "length xs < 2 ^ 63" using calculation(1)[of "hd xs"] by (cases xs) auto
  ultimately show ?thesis using decode_n_back[of xs dec enc d] by (simp add: DecodeSlice_def EncodeSlice_def read_prefix)
qed

lemma Header_back: "length (Header_EncodeTo C v) < 2 ^ 63 \<Longrightarrow> Header_DecodeFrom C (Header_EncodeTo C v @ d) = Some (v, d)"
  by (simp add: Header_DecodeFrom_def Header_EncodeTo_def reads_back lengths)

lemma Ban_back: "length (Ban_EncodeTo C v) < 2 ^ 63 \<Longrightarrow> Ban_DecodeFrom C (Ban_EncodeTo C v @ d) = Some (v, d)"
  by (simp add: Ban_DecodeFrom_def Ban_EncodeTo_def reads_back lengths)

lemma Share_back: "length (Share_EncodeTo C v) < 2 ^ 63 \<Longrightarrow> Share_DecodeFrom C (Share_EncodeTo C v @ d) = Some (v, d)"
  by (simp add: Share_DecodeFrom_def Share_EncodeTo_def reads_back lengths)

lemma PublicDir_back: "length (PublicDir_EncodeTo C v) < 2 ^ 63 \<Longrightarrow> PublicDir_DecodeFrom C (PublicDir_EncodeTo C v @ d) = Some (v, d)"
  by (simp add: PublicDir_DecodeFrom_def PublicDir_EncodeTo_def reads_back lengths)

lemma nonempty:
  "PublicDir_EncodeTo C pd \<noteq> []" "Account_EncodeTo C ac \<noteq> []" "Policy_EncodeTo C po \<noteq> []" "Share_EncodeTo C sh \<noteq> []"
  "Ban_EncodeTo C ban \<noteq> []" "WorkgroupAccounts_EncodeTo C wa \<noteq> []"
  using length_string
  by (simp_all add: PublicDir_EncodeTo_def Account_EncodeTo_def Policy_EncodeTo_def Share_EncodeTo_def Ban_EncodeTo_def
      WorkgroupAccounts_EncodeTo_def Workgroup_EncodeTo_def flip: length_0_conv)

lemma PublicDirs_back: "length (EncodeSlice C (PublicDir_EncodeTo C) xs) < 2 ^ 63 \<Longrightarrow> DecodeSlice C (PublicDir_DecodeFrom C) (EncodeSlice C (PublicDir_EncodeTo C) xs @ d) = Some (xs, d)"
  by (rule DecodeSlice_back) (assumption, rule nonempty, rule PublicDir_back)

lemma Workgroup_back:
  "Workgroup_sized v \<Longrightarrow> length (Workgroup_EncodeTo C v) < 2 ^ 63 \<Longrightarrow> Workgroup_DecodeFrom C (Workgroup_EncodeTo C v @ d) = Some (v, d)"
  by (simp add: Workgroup_DecodeFrom_def Workgroup_EncodeTo_def Workgroup_sized_def Read_back reads_back lengths PublicDirs_back)

lemma Account_back: "length (Account_EncodeTo C v) < 2 ^ 63 \<Longrightarrow> Account_DecodeFrom C (Account_EncodeTo C v @ d) = Some (v, d)"
  by (simp add: Account_DecodeFrom_def Account_EncodeTo_def reads_back lengths)

lemma Policy_back: "length (Policy_EncodeTo C v) < 2 ^ 63 \<Longrightarrow> Policy_DecodeFrom C (Policy_EncodeTo C v @ d) = Some (v, d)"
  by (simp add: Policy_DecodeFrom_def Policy_EncodeTo_def reads_back lengths)

lemma Accounts_back: "length (EncodeSlice C (Account_EncodeTo C) xs) < 2 ^ 63 \<Longrightarrow> DecodeSlice C (Account_DecodeFrom C) (EncodeSlice C (Account_EncodeTo C) xs @ d) = Some (xs, d)"
  by (rule DecodeSlice_back) (assumption, rule nonempty, rule Account_back)

lemma Policies_back: "length (EncodeSlice C (Policy_EncodeTo C) xs) < 2 ^ 63 \<Longrightarrow> DecodeSlice C (Policy_DecodeFrom C) (EncodeSlice C (Policy_EncodeTo C) xs @ d) = Some (xs, d)"
  by (rule DecodeSlice_back) (assumption, rule nonempty, rule Policy_back)

lemma Shares_back: "length (EncodeSlice C (Share_EncodeTo C) xs) < 2 ^ 63 \<Longrightarrow> DecodeSlice C (Share_DecodeFrom C) (EncodeSlice C (Share_EncodeTo C) xs @ d) = Some (xs, d)"
  by (rule DecodeSlice_back) (assumption, rule nonempty, rule Share_back)

lemma Bans_back: "length (EncodeSlice C (Ban_EncodeTo C) xs) < 2 ^ 63 \<Longrightarrow> DecodeSlice C (Ban_DecodeFrom C) (EncodeSlice C (Ban_EncodeTo C) xs @ d) = Some (xs, d)"
  by (rule DecodeSlice_back) (assumption, rule nonempty, rule Ban_back)

lemma Connection_back:
  "Connection_sized v \<Longrightarrow> length (Connection_EncodeTo C v) < 2 ^ 63 \<Longrightarrow> Connection_DecodeFrom C (Connection_EncodeTo C v @ d) = Some (v, d)"
  by (simp add: Connection_DecodeFrom_def Connection_EncodeTo_def Connection_sized_def reads_back lengths Share_back Workgroup_back
      Accounts_back Policies_back)

lemma WorkgroupAccounts_back:
  "Workgroup_sized (wa_Workgroup v) \<Longrightarrow> length (WorkgroupAccounts_EncodeTo C v) < 2 ^ 63
   \<Longrightarrow> WorkgroupAccounts_DecodeFrom C (WorkgroupAccounts_EncodeTo C v @ d) = Some (v, d)"
  by (simp add: WorkgroupAccounts_DecodeFrom_def WorkgroupAccounts_EncodeTo_def Workgroup_back Accounts_back)

lemma AllAccounts_back:
  assumes "length (EncodeSlice C (WorkgroupAccounts_EncodeTo C) ws) < 2 ^ 63" "\<forall>w \<in> set ws. Workgroup_sized (wa_Workgroup w)"
  shows "DecodeSlice C (WorkgroupAccounts_DecodeFrom C) (EncodeSlice C (WorkgroupAccounts_EncodeTo C) ws @ d) = Some (ws, d)"
  by (rule DecodeSlice_back[OF assms(1) nonempty(6)]) (use assms(2) WorkgroupAccounts_back in blast)

lemma Server_back:
  "Server_sized v \<Longrightarrow> length (Server_EncodeTo C v) < 2 ^ 63 \<Longrightarrow> Server_DecodeFrom C (Server_EncodeTo C v @ d) = Some (v, d)"
  by (simp add: Server_DecodeFrom_def Server_EncodeTo_def Server_sized_def Shares_back AllAccounts_back Bans_back)

lemma Directory_back: "length (Directory_EncodeTo C v) < 2 ^ 63 \<Longrightarrow> Directory_DecodeFrom C (Directory_EncodeTo C v @ d) = Some (v, d)"
  by (simp add: Directory_DecodeFrom_def Directory_EncodeTo_def reads_back lengths)

lemma Source_back: "length (Source_EncodeTo C v) < 2 ^ 63 \<Longrightarrow> Source_DecodeFrom C (Source_EncodeTo C v @ d) = Some (v, d)"
  by (simp add: Source_DecodeFrom_def Source_EncodeTo_def reads_back lengths)

end

lemma part_flags_bits:
  "part_flags p AND flagObject \<noteq> 0 \<longleftrightarrow> pt_Object p \<noteq> zeroHash" "part_flags p AND flagPin \<noteq> 0 \<longleftrightarrow> pt_Pin p \<noteq> None"
  "part_flags p AND flagSource \<noteq> 0 \<longleftrightarrow> pt_Source p \<noteq> None" "part_flags p AND flagInline \<noteq> 0 \<longleftrightarrow> pt_Inline p \<noteq> None"
  by (cases "pt_Object p = zeroHash"; cases "pt_Pin p = None"; cases "pt_Source p = None"; cases "pt_Inline p = None";
      simp add: part_flags_def flagObject_def flagPin_def flagSource_def flagInline_def)+

context codec_laws
begin

lemma Part_back:
  assumes "length (pt_Object p) = 32" "length (Part_EncodeTo C p) < 2 ^ 63"
  shows "Part_DecodeFrom C (Part_EncodeTo C p @ d) = Some (p, d)"
  using assms unfolding Part_DecodeFrom_def Part_EncodeTo_def Let_def
  by (cases "pt_Object p = zeroHash"; cases "pt_Pin p"; cases "pt_Source p"; cases "pt_Inline p";
      simp add: part_flags_bits reads_back lengths Source_back)

lemma Part_nonempty: "Part_EncodeTo C p \<noteq> []"
  using length_uint64 by (simp add: Part_EncodeTo_def Let_def flip: length_0_conv)

lemma Parts_back:
  assumes "length (EncodeSlice C (Part_EncodeTo C) ps) < 2 ^ 63" "\<forall>p \<in> set ps. length (pt_Object p) = 32"
  shows "DecodeSlice C (Part_DecodeFrom C) (EncodeSlice C (Part_EncodeTo C) ps @ d) = Some (ps, d)"
  by (rule DecodeSlice_back[OF assms(1) Part_nonempty]) (use assms(2) Part_back in blast)

lemma File_back:
  "File_sized v \<Longrightarrow> length (File_EncodeTo C v) < 2 ^ 63 \<Longrightarrow> File_DecodeFrom C (File_EncodeTo C v @ d) = Some (v, d)"
  by (simp add: File_DecodeFrom_def File_EncodeTo_def File_sized_def reads_back lengths Parts_back)

lemma decode_back: "(\<And>d. dec (enc @ d) = Some (v, d)) \<Longrightarrow> decode dec enc = Inr v"
  using append_Nil2[of enc] unfolding decode_def by (metis (no_types, lifting) case_prod_conv option.simps(5))

end

end
