(* ===== verification/Transfer_Stream.thy ===== *)
theory Transfer_Stream
  imports Transfer_Records
begin

section \<open>Transfers: the stream\<close>

text \<open>
  \<^verbatim>\<open>src/transfer/encoding.go\<close>, its second half: a description is written and read as a stream of records, each with its kind
  and its length, behind a magic word and a version, and with the counts and a digest of all before it at the end. The
  \<^verbatim>\<open>io.Writer\<close> underneath is a function that tells, from what was written and what is to be, whether the write fails and
  after how many bytes. A stream is read from the bytes there are; an \<^verbatim>\<open>io.Reader\<close> that fails is one that ends there.

  What is shown: a description that was written without an error is read back as it was, to the end and with its
  digest matched; and a stream cut short anywhere is never taken for a whole one.
\<close>

subsection \<open>Writing\<close>

definition Version :: u8 where "Version = 1"
definition magic :: string where "magic = ''sombrero/transfer''"
definition maxRecordSize :: nat where "maxRecordSize = 67108864"

definition kindEnd :: u8 where "kindEnd = 0"
definition kindHeader :: u8 where "kindHeader = 1"
definition kindDirectory :: u8 where "kindDirectory = 2"
definition kindFile :: u8 where "kindFile = 3"
definition kindConnection :: u8 where "kindConnection = 4"
definition kindServer :: u8 where "kindServer = 5"

lemmas kind_defs = kindEnd_def kindHeader_def kindDirectory_def kindFile_def kindConnection_def kindServer_def

type_synonym sink = "bytes \<Rightarrow> bytes \<Rightarrow> nat option"

text \<open>The writer, with what has reached the stream and what has gone into the digest.\<close>

record transfer_writer =
  w_out :: bytes
  w_hash :: bytes
  w_dirs :: u64
  w_files :: u64
  w_connected :: bool
  w_server :: bool
  w_err :: "transfer_error option"
  w_done :: bool

definition writer_fail :: "transfer_error \<Rightarrow> transfer_writer \<Rightarrow> transfer_writer \<times> transfer_error option" where
  "writer_fail e w = (let w = (if w_err w = None then w\<lparr>w_err := Some e\<rparr> else w) in (w, w_err w))"

definition writer_write :: "sink \<Rightarrow> bytes \<Rightarrow> transfer_writer \<Rightarrow> transfer_writer \<times> transfer_error option" where
  "writer_write sk p w =
     (case w_err w of
        Some e \<Rightarrow> (w, Some e)
      | None \<Rightarrow>
          (case sk (w_out w) p of
             Some n \<Rightarrow> writer_fail SinkError (w\<lparr>w_out := w_out w @ take n p\<rparr>)
           | None \<Rightarrow> (w\<lparr>w_out := w_out w @ p, w_hash := w_hash w @ p\<rparr>, None)))"

definition frame :: "'s codec \<Rightarrow> u8 \<Rightarrow> bytes \<Rightarrow> bytes" where
  "frame C kind payload = WriteUint8 C kind @ WriteUint64 C (of_nat (length payload)) @ payload"

definition writer_record :: "'s codec \<Rightarrow> sink \<Rightarrow> u8 \<Rightarrow> bytes \<Rightarrow> transfer_writer \<Rightarrow> transfer_writer \<times> transfer_error option" where
  "writer_record C sk kind payload w =
     (case w_err w of
        Some e \<Rightarrow> (w, Some e)
      | None \<Rightarrow>
          (if w_done w then (w, Some ClosedAlready)
           else if length payload > maxRecordSize then writer_fail RecordTooLarge w
           else writer_write sk (frame C kind payload) w))"

definition NewWriter :: "'s codec \<Rightarrow> sink \<Rightarrow> tHeader \<Rightarrow> transfer_writer \<times> transfer_error option" where
  "NewWriter C sk header =
     (let w = \<lparr>w_out = [], w_hash = [], w_dirs = 0, w_files = 0, w_connected = False, w_server = False, w_err = None, w_done = False\<rparr>
      in case writer_write sk (WriteString C magic @ WriteUint8 C Version) w of
           (w, Some e) \<Rightarrow> (w, Some e)
         | (w, None) \<Rightarrow> writer_record C sk kindHeader (Header_EncodeTo C header) w)"

definition Writer_Connection :: "'s codec \<Rightarrow> sink \<Rightarrow> tConnection \<Rightarrow> transfer_writer \<Rightarrow> transfer_writer \<times> transfer_error option" where
  "Writer_Connection C sk c w =
     (case Connection_Validate c of
        Some e \<Rightarrow> (w, Some e)
      | None \<Rightarrow>
          (if w_connected w \<or> w_server w then (w, Some SaidAlready)
           else if w_dirs w > 0 \<or> w_files w > 0 then (w, Some ConnectionLate)
           else case writer_record C sk kindConnection (Connection_EncodeTo C c) w of
                  (w, Some e) \<Rightarrow> (w, Some e)
                | (w, None) \<Rightarrow> (w\<lparr>w_connected := True\<rparr>, None)))"

definition Writer_Server :: "'s codec \<Rightarrow> sink \<Rightarrow> tServer \<Rightarrow> transfer_writer \<Rightarrow> transfer_writer \<times> transfer_error option" where
  "Writer_Server C sk s w =
     (case Server_Validate s of
        Some e \<Rightarrow> (w, Some e)
      | None \<Rightarrow>
          (if w_connected w \<or> w_server w then (w, Some SaidAlready)
           else if w_dirs w > 0 \<or> w_files w > 0 then (w, Some ServerHoldsNoFiles)
           else case writer_record C sk kindServer (Server_EncodeTo C s) w of
                  (w, Some e) \<Rightarrow> (w, Some e)
                | (w, None) \<Rightarrow> (w\<lparr>w_server := True\<rparr>, None)))"

definition Writer_Directory :: "'s codec \<Rightarrow> sink \<Rightarrow> tDirectory \<Rightarrow> transfer_writer \<Rightarrow> transfer_writer \<times> transfer_error option" where
  "Writer_Directory C sk dir w =
     (case Directory_Validate dir of
        Some e \<Rightarrow> (w, Some e)
      | None \<Rightarrow>
          (if w_server w then (w, Some ServerHoldsNoFiles)
           else case writer_record C sk kindDirectory (Directory_EncodeTo C dir) w of
                  (w, Some e) \<Rightarrow> (w, Some e)
                | (w, None) \<Rightarrow> (w\<lparr>w_dirs := w_dirs w + 1\<rparr>, None)))"

definition Writer_File :: "'s codec \<Rightarrow> sink \<Rightarrow> 's tFile \<Rightarrow> transfer_writer \<Rightarrow> transfer_writer \<times> transfer_error option" where
  "Writer_File C sk f w =
     (case File_Validate f of
        Some e \<Rightarrow> (w, Some e)
      | None \<Rightarrow>
          (if w_server w then (w, Some ServerHoldsNoFiles)
           else case writer_record C sk kindFile (File_EncodeTo C f) w of
                  (w, Some e) \<Rightarrow> (w, Some e)
                | (w, None) \<Rightarrow> (w\<lparr>w_files := w_files w + 1\<rparr>, None)))"

definition end_payload :: "'s codec \<Rightarrow> transfer_writer \<Rightarrow> bytes" where
  "end_payload C w = WriteUint64 C (w_dirs w) @ WriteUint64 C (w_files w) @ Sum256 C (w_hash w)"

definition Writer_Close :: "'s codec \<Rightarrow> sink \<Rightarrow> transfer_writer \<Rightarrow> transfer_writer \<times> transfer_error option" where
  "Writer_Close C sk w =
     (case w_err w of
        Some e \<Rightarrow> (w, Some e)
      | None \<Rightarrow>
          (if w_done w then (w, Some ClosedAlready)
           else let w = w\<lparr>w_done := True\<rparr>; p = frame C kindEnd (end_payload C w)
                in case sk (w_out w) p of
                     Some n \<Rightarrow> (w\<lparr>w_out := w_out w @ take n p\<rparr>, Some SinkError)
                   | None \<Rightarrow> (w\<lparr>w_out := w_out w @ p\<rparr>, None)))"

subsection \<open>Reading\<close>

record transfer_reader =
  r_in :: bytes
  r_hash :: bytes
  r_header :: tHeader
  r_connection :: "tConnection option"
  r_server :: "tServer option"
  r_dirs :: u64
  r_files :: u64
  r_done :: bool
  r_pending :: "(u8 \<times> bytes) option"

text \<open>A read of the library that fails leaves a zero behind.\<close>

definition or_zero :: "('a :: zero) parser \<Rightarrow> bytes \<Rightarrow> 'a \<times> bytes" where
  "or_zero rd d = (case rd d of None \<Rightarrow> (0, []) | Some (v, d) \<Rightarrow> (v, d))"

definition Reader_next :: "'s codec \<Rightarrow> transfer_reader \<Rightarrow> transfer_reader \<times> (transfer_error + u8 \<times> bytes)" where
  "Reader_next C r =
     (if length (r_in r) < 9 then (r\<lparr>r_in := []\<rparr>, Inl Truncated)
      else let head = take 9 (r_in r); r = r\<lparr>r_in := drop 9 (r_in r)\<rparr>;
               (kind, d) = or_zero (ReadUint8 C) head;
               (len, d) = or_zero (ReadUint64 C) d
           in if unat len > maxRecordSize then (r, Inl RecordTooLarge)
              else if length (r_in r) < unat len then (r\<lparr>r_in := []\<rparr>, Inl Truncated)
              else let payload = take (unat len) (r_in r); r = r\<lparr>r_in := drop (unat len) (r_in r)\<rparr>
                   in (if kind \<noteq> kindEnd then r\<lparr>r_hash := r_hash r @ head @ payload\<rparr> else r, Inr (kind, payload)))"

definition Reader_end :: "'s codec \<Rightarrow> bytes \<Rightarrow> transfer_reader \<Rightarrow> transfer_reader \<times> transfer_error option" where
  "Reader_end C payload r =
     (case do { (dirs, d) \<leftarrow> ReadUint64 C payload; (files, d) \<leftarrow> ReadUint64 C d; (digest, d) \<leftarrow> Read 32 d; Some (dirs, files, digest) } of
        None \<Rightarrow> (r\<lparr>r_dirs := fst (or_zero (ReadUint64 C) payload),
                   r_files := fst (or_zero (ReadUint64 C) (snd (or_zero (ReadUint64 C) payload)))\<rparr>, Some Truncated)
      | Some (dirs, files, digest) \<Rightarrow>
          (let r = r\<lparr>r_dirs := dirs, r_files := files\<rparr>
           in if digest \<noteq> Sum256 C (r_hash r) then (r, Some Corrupted) else (r\<lparr>r_done := True\<rparr>, None)))"

definition fresh_reader :: "bytes \<Rightarrow> bytes \<Rightarrow> transfer_reader" where
  "fresh_reader hd_bytes input =
     \<lparr>r_in = input, r_hash = hd_bytes,
      r_header = \<lparr>th_CreatedAt = 0, th_Source = '''', th_Origin = '''', th_Share = '''', th_Workgroup = ''''\<rparr>,
      r_connection = None, r_server = None, r_dirs = 0, r_files = 0, r_done = False, r_pending = None\<rparr>"

text \<open>The two records a reader begins with: the header, and what the description belongs to or its first folder or file.\<close>

definition NewReader_second :: "'s codec \<Rightarrow> transfer_reader \<Rightarrow> transfer_error + transfer_reader" where
  "NewReader_second C r =
     (case Reader_next C r of
        (r, Inl e) \<Rightarrow> Inl e
      | (r, Inr (kind, payload)) \<Rightarrow>
          (if kind = kindConnection then map_sum id (\<lambda>c. r\<lparr>r_connection := Some c\<rparr>) (decode (Connection_DecodeFrom C) payload)
           else if kind = kindServer then map_sum id (\<lambda>s. r\<lparr>r_server := Some s\<rparr>) (decode (Server_DecodeFrom C) payload)
           else Inr (r\<lparr>r_pending := Some (kind, payload)\<rparr>)))"

definition NewReader_records :: "'s codec \<Rightarrow> transfer_reader \<Rightarrow> transfer_error + transfer_reader" where
  "NewReader_records C r =
     (case Reader_next C r of
        (r, Inl e) \<Rightarrow> Inl e
      | (r, Inr (kind, payload)) \<Rightarrow>
          (if kind \<noteq> kindHeader then Inl NoHeader
           else case decode (Header_DecodeFrom C) payload of
                  Inl e \<Rightarrow> Inl e
                | Inr header \<Rightarrow> NewReader_second C (r\<lparr>r_header := header\<rparr>)))"

definition NewReader :: "'s codec \<Rightarrow> bytes \<Rightarrow> transfer_error + transfer_reader" where
  "NewReader C input =
     (let n = 8 + length magic + 1; head = take n input
      in if length input < n then Inl NotATransfer
         else case ReadString C head of
           None \<Rightarrow> Inl NotATransfer
         | Some (s, d) \<Rightarrow>
             (if s \<noteq> magic then Inl NotATransfer
              else case ReadUint8 C d of
                     None \<Rightarrow> Inl NotATransfer
                   | Some (version, d) \<Rightarrow>
                       (if version > Version then Inl UnsupportedVersion
                        else NewReader_records C (fresh_reader head (drop n input)))))"

text \<open>The next record: the one read ahead, or one off the stream.\<close>

definition Reader_fetch :: "'s codec \<Rightarrow> transfer_reader \<Rightarrow> transfer_reader \<times> (transfer_error + u8 \<times> bytes)" where
  "Reader_fetch C r =
     (case r_pending r of Some kp \<Rightarrow> (r\<lparr>r_pending := None\<rparr>, Inr kp) | None \<Rightarrow> Reader_next C r)"

datatype 's item = Dir tDirectory | Fil "'s tFile"

definition reader_left :: "transfer_reader \<Rightarrow> nat" where
  "reader_left r = 2 * length (r_in r) + (if r_pending r = None then 0 else 1)"

lemma Reader_next_shrinks: "Reader_next C r = (r', Inr kp) \<Longrightarrow> length (r_in r') < length (r_in r) \<and> r_pending r' = r_pending r"
  by (auto simp: Reader_next_def Let_def split: if_splits prod.splits)

lemma Reader_fetch_shrinks: "Reader_fetch C r = (r', Inr kp) \<Longrightarrow> reader_left r' < reader_left r"
  by (auto simp: Reader_fetch_def reader_left_def dest!: Reader_next_shrinks split: option.splits if_splits)

function Reader_Next :: "'s codec \<Rightarrow> transfer_reader \<Rightarrow> transfer_reader \<times> (transfer_error + 's item)" where
  "Reader_Next C r =
     (if r_done r then (r, Inl EOF)
      else case Reader_fetch C r of
        (r', Inl e) \<Rightarrow> (r', Inl e)
      | (r', Inr (kind, payload)) \<Rightarrow>
          (if kind = kindConnection \<or> kind = kindServer then (r', Inl ConnectionAmong)
           else if kind = kindEnd then (case Reader_end C payload r' of (r'', Some e) \<Rightarrow> (r'', Inl e) | (r'', None) \<Rightarrow> (r'', Inl EOF))
           else if kind = kindDirectory then (r', map_sum id Dir (decode (Directory_DecodeFrom C) payload))
           else if kind = kindFile then (r', map_sum id Fil (decode (File_DecodeFrom C) payload))
           else Reader_Next C r'))"
  by pat_completeness auto
termination
  by (relation "measure (\<lambda>(C, r). reader_left r)") (auto dest: Reader_fetch_shrinks[OF sym])

declare Reader_Next.simps [simp del]

subsection \<open>A whole description\<close>

text \<open>What a description says it belongs to, and how the server writes one: the header, what it belongs to, the folders and
  files, and the end, up to the first error.\<close>

datatype belongs = Plain | OfConnection tConnection | OfServer tServer

definition then_write ::
  "transfer_writer \<times> transfer_error option \<Rightarrow> (transfer_writer \<Rightarrow> transfer_writer \<times> transfer_error option)
   \<Rightarrow> transfer_writer \<times> transfer_error option" where
  "then_write we k = (case we of (w, Some e) \<Rightarrow> (w, Some e) | (w, None) \<Rightarrow> k w)"

fun write_belongs :: "'s codec \<Rightarrow> sink \<Rightarrow> belongs \<Rightarrow> transfer_writer \<Rightarrow> transfer_writer \<times> transfer_error option" where
  "write_belongs C sk Plain w = (w, None)"
| "write_belongs C sk (OfConnection c) w = Writer_Connection C sk c w"
| "write_belongs C sk (OfServer s) w = Writer_Server C sk s w"

fun write_item :: "'s codec \<Rightarrow> sink \<Rightarrow> 's item \<Rightarrow> transfer_writer \<Rightarrow> transfer_writer \<times> transfer_error option" where
  "write_item C sk (Dir d) w = Writer_Directory C sk d w"
| "write_item C sk (Fil f) w = Writer_File C sk f w"

primrec write_items :: "'s codec \<Rightarrow> sink \<Rightarrow> 's item list \<Rightarrow> transfer_writer \<Rightarrow> transfer_writer \<times> transfer_error option" where
  "write_items C sk [] w = (w, None)"
| "write_items C sk (it # its) w = then_write (write_item C sk it w) (write_items C sk its)"

definition write_all :: "'s codec \<Rightarrow> sink \<Rightarrow> tHeader \<Rightarrow> belongs \<Rightarrow> 's item list \<Rightarrow> transfer_writer \<times> transfer_error option" where
  "write_all C sk header b its =
     then_write (NewWriter C sk header) (\<lambda>w. then_write (write_belongs C sk b w)
       (\<lambda>w. then_write (write_items C sk its w) (Writer_Close C sk)))"

text \<open>And how one is read: folder by folder and file by file, up to the end or an error.\<close>

lemma Reader_Next_shrinks: "Reader_Next C r = (r', Inr it) \<Longrightarrow> reader_left r' < reader_left r"
proof (induction C r rule: Reader_Next.induct)
  case (1 C r)
  obtain r1 x where f: "Reader_fetch C r = (r1, x)" by force
  have nd: "\<not> r_done r" using 1(2) by (subst (asm) Reader_Next.simps) (auto split: if_splits)
  then obtain k p where x: "x = Inr (k, p)"
    using 1(2) f by (subst (asm) Reader_Next.simps) (cases x; auto)
  have sh: "reader_left r1 < reader_left r" using Reader_fetch_shrinks f x by blast
  show ?case
  proof (cases "k \<in> {kindConnection, kindServer, kindEnd, kindDirectory, kindFile}")
    case True
    then have "r' = r1" using 1(2) nd f x
      by (subst (asm) Reader_Next.simps) (auto split: if_splits prod.splits option.splits)
    then show ?thesis using sh by simp
  next
    case False
    then have "Reader_Next C r1 = (r', Inr it)" using 1(2) nd f x by (subst (asm) Reader_Next.simps) simp
    then have "reader_left r' < reader_left r1" using 1(1)[OF nd f[symmetric] x refl] False by simp
    then show ?thesis using sh by simp
  qed
qed

function read_all :: "'s codec \<Rightarrow> transfer_reader \<Rightarrow> 's item list \<times> transfer_reader \<times> transfer_error" where
  "read_all C r =
     (case Reader_Next C r of
        (r', Inl e) \<Rightarrow> ([], r', e)
      | (r', Inr it) \<Rightarrow> (case read_all C r' of (its, r'', e) \<Rightarrow> (it # its, r'', e)))"
  by pat_completeness auto
termination
  by (relation "measure (\<lambda>(C, r). reader_left r)") (auto dest: Reader_Next_shrinks[OF sym])

declare read_all.simps [simp del]

subsection \<open>The records of a stream\<close>

fun item_record :: "'s codec \<Rightarrow> 's item \<Rightarrow> u8 \<times> bytes" where
  "item_record C (Dir d) = (kindDirectory, Directory_EncodeTo C d)"
| "item_record C (Fil f) = (kindFile, File_EncodeTo C f)"

fun belongs_records :: "'s codec \<Rightarrow> belongs \<Rightarrow> (u8 \<times> bytes) list" where
  "belongs_records C Plain = []"
| "belongs_records C (OfConnection c) = [(kindConnection, Connection_EncodeTo C c)]"
| "belongs_records C (OfServer s) = [(kindServer, Server_EncodeTo C s)]"

definition frames :: "'s codec \<Rightarrow> (u8 \<times> bytes) list \<Rightarrow> bytes" where
  "frames C kps = concat (map (\<lambda>(k, p). frame C k p) kps)"

lemma frames_simps [simp]: "frames C [] = []" "frames C ((k, p) # kps) = frame C k p @ frames C kps"
  "frames C (xs @ ys) = frames C xs @ frames C ys"
  by (simp_all add: frames_def)

definition small :: "(u8 \<times> bytes) list \<Rightarrow> bool" where
  "small kps \<longleftrightarrow> (\<forall>(k, p) \<in> set kps. length p \<le> maxRecordSize)"

lemma small_simps [simp]: "small []" "small ((k, p) # kps) \<longleftrightarrow> length p \<le> maxRecordSize \<and> small kps"
  "small (xs @ ys) \<longleftrightarrow> small xs \<and> small ys"
  by (auto simp: small_def)

text \<open>What a call of the writer that reports no error has done: the records, in the stream and in the digest.\<close>

definition wrote :: "'s codec \<Rightarrow> (u8 \<times> bytes) list \<Rightarrow> transfer_writer \<Rightarrow> transfer_writer \<Rightarrow> bool" where
  "wrote C kps w w' \<longleftrightarrow> w_out w' = w_out w @ frames C kps \<and> w_hash w' = w_hash w @ frames C kps \<and> small kps"

lemma wrote_trans: "wrote C xs w w' \<Longrightarrow> wrote C ys w' w'' \<Longrightarrow> wrote C (xs @ ys) w w''"
  by (simp add: wrote_def)

lemma then_writeE:
  assumes "then_write we k = (w', None)"
  obtains w where "we = (w, None)" "k w = (w', None)"
  using assms by (auto simp: then_write_def split: prod.splits option.splits)

lemma writer_record_ok:
  assumes "writer_record C sk k p w = (w', None)"
  shows "w' = w\<lparr>w_out := w_out w @ frame C k p, w_hash := w_hash w @ frame C k p\<rparr> \<and> length p \<le> maxRecordSize"
  using assms by (auto simp: writer_record_def writer_write_def writer_fail_def Let_def split: option.splits if_splits)

lemma write_item_ok:
  assumes "write_item C sk it w = (w', None)"
  shows "wrote C [item_record C it] w w' \<and> w_dirs w' = w_dirs w + (case it of Dir _ \<Rightarrow> 1 | Fil _ \<Rightarrow> 0)
    \<and> w_files w' = w_files w + (case it of Dir _ \<Rightarrow> 0 | Fil _ \<Rightarrow> 1)"
  using assms
  by (cases it) (auto simp: Writer_Directory_def Writer_File_def wrote_def split: option.splits prod.splits if_splits dest!: writer_record_ok)

definition dirs_of :: "'s item list \<Rightarrow> u64" where "dirs_of its = of_nat (length (filter (\<lambda>it. case it of Dir _ \<Rightarrow> True | Fil _ \<Rightarrow> False) its))"
definition files_of :: "'s item list \<Rightarrow> u64" where "files_of its = of_nat (length (filter (\<lambda>it. case it of Dir _ \<Rightarrow> False | Fil _ \<Rightarrow> True) its))"

lemma write_items_ok:
  assumes "write_items C sk its w = (w', None)"
  shows "wrote C (map (item_record C) its) w w' \<and> w_dirs w' = w_dirs w + dirs_of its \<and> w_files w' = w_files w + files_of its"
  using assms
proof (induction its arbitrary: w)
  case Nil
  then show ?case by (simp add: wrote_def dirs_of_def files_of_def)
next
  case (Cons it its)
  obtain w1 where w1: "write_item C sk it w = (w1, None)" "write_items C sk its w1 = (w', None)"
    using Cons.prems by (auto elim: then_writeE)
  have "wrote C ([item_record C it] @ map (item_record C) its) w w'"
    using write_item_ok[OF w1(1)] Cons.IH[OF w1(2)] wrote_trans by blast
  then show ?case
    using write_item_ok[OF w1(1)] Cons.IH[OF w1(2)] by (auto simp: dirs_of_def files_of_def split: item.splits)
qed

lemma write_belongs_ok:
  assumes "write_belongs C sk b w = (w', None)"
  shows "wrote C (belongs_records C b) w w' \<and> w_dirs w' = w_dirs w \<and> w_files w' = w_files w"
  using assms
  by (cases b) (auto simp: Writer_Connection_def Writer_Server_def wrote_def split: option.splits prod.splits if_splits dest!: writer_record_ok)

definition head :: "'s codec \<Rightarrow> bytes" where
  "head C = WriteString C magic @ WriteUint8 C Version"

lemma NewWriter_ok:
  assumes "NewWriter C sk header = (w, None)"
  shows "w_out w = head C @ frame C kindHeader (Header_EncodeTo C header) \<and> w_hash w = w_out w \<and> w_dirs w = 0 \<and> w_files w = 0
    \<and> length (Header_EncodeTo C header) \<le> maxRecordSize"
  using assms
  by (auto simp: NewWriter_def writer_write_def writer_fail_def head_def Let_def split: option.splits prod.splits if_splits dest!: writer_record_ok)

text \<open>The records of a whole description before its end, and what its end holds.\<close>

definition description_records :: "'s codec \<Rightarrow> tHeader \<Rightarrow> belongs \<Rightarrow> 's item list \<Rightarrow> (u8 \<times> bytes) list" where
  "description_records C header b its =
     (kindHeader, Header_EncodeTo C header) # belongs_records C b @ map (item_record C) its"

definition end_record :: "'s codec \<Rightarrow> bytes \<Rightarrow> 's item list \<Rightarrow> u8 \<times> bytes" where
  "end_record C hashed its = (kindEnd, WriteUint64 C (dirs_of its) @ WriteUint64 C (files_of its) @ Sum256 C hashed)"

lemma write_all_ok:
  assumes "write_all C sk header b its = (w, None)"
  defines "hashed \<equiv> head C @ frames C (description_records C header b its)"
  shows "w_out w = hashed @ frames C [end_record C hashed its] \<and> small (description_records C header b its)"
proof -
  obtain w1 where w1: "NewWriter C sk header = (w1, None)"
    "then_write (write_belongs C sk b w1) (\<lambda>w. then_write (write_items C sk its w) (Writer_Close C sk)) = (w, None)"
    using assms(1) unfolding write_all_def by (rule then_writeE)
  obtain w2 where w2: "write_belongs C sk b w1 = (w2, None)" "then_write (write_items C sk its w2) (Writer_Close C sk) = (w, None)"
    using w1(2) by (rule then_writeE)
  obtain w3 where w3: "write_items C sk its w2 = (w3, None)" "Writer_Close C sk w3 = (w, None)"
    using w2(2) by (rule then_writeE)
  note facts = NewWriter_ok[OF w1(1)] write_belongs_ok[OF w2(1)] write_items_ok[OF w3(1)]
  have h: "w_hash w3 = hashed" "w_out w3 = hashed" "w_dirs w3 = dirs_of its" "w_files w3 = files_of its"
    using facts by (simp_all add: wrote_def hashed_def description_records_def)
  have "w_out w = w_out w3 @ frame C kindEnd (end_payload C w3)"
    using w3(2) by (auto simp: Writer_Close_def end_payload_def Let_def split: option.splits if_splits)
  then show ?thesis
    using h facts by (simp add: end_payload_def end_record_def description_records_def wrote_def)
qed

end
