(* ===== verification/Transfer_Readback.thy ===== *)
theory Transfer_Readback
  imports Transfer_Stream
begin

section \<open>Transfers: reading back what was written\<close>

text \<open>
  The reader on the first \<open>n\<close> bytes of a stream the writer made. Where the reader stands is \<open>stands\<close>: before the records that
  are left, of which one may have been read ahead, with the digest fed with those before. All is shown once, for a
  stream that is whole or cut, inside the laws of the library; the two theorems at the end take them out of there.
\<close>

definition stands :: "'s codec \<Rightarrow> transfer_reader \<Rightarrow> bytes \<Rightarrow> (u8 \<times> bytes) list \<Rightarrow> nat \<Rightarrow> bool" where
  "stands C r h kps n \<longleftrightarrow> \<not> r_done r \<and>
     (case r_pending r of
        None \<Rightarrow> r_in r = take n (frames C kps) \<and> r_hash r = h
      | Some (k, p) \<Rightarrow> \<exists>kps'. kps = (k, p) # kps' \<and> length (frame C k p) \<le> n \<and> r_in r = take (n - length (frame C k p)) (frames C kps')
          \<and> r_hash r = h @ (if k = kindEnd then [] else frame C k p))"

text \<open>What the reader keeps while it goes on.\<close>

definition keeps :: "transfer_reader \<Rightarrow> transfer_reader \<Rightarrow> bool" where
  "keeps r r' \<longleftrightarrow> r_header r' = r_header r \<and> r_connection r' = r_connection r \<and> r_server r' = r_server r"

lemma keeps_trans: "keeps r r' \<Longrightarrow> keeps r' r'' \<Longrightarrow> keeps r r''"
  by (simp add: keeps_def)

definition item_sized :: "'s item \<Rightarrow> bool" where
  "item_sized it = (case it of Dir _ \<Rightarrow> True | Fil f \<Rightarrow> File_sized f)"

definition belongs_sized :: "belongs \<Rightarrow> bool" where
  "belongs_sized b = (case b of Plain \<Rightarrow> True | OfConnection c \<Rightarrow> Connection_sized c | OfServer s \<Rightarrow> Server_sized s)"

context codec_laws
begin

lemma length_frame: "length (frame C k p) = 9 + length p"
  by (simp add: frame_def length_uint8 length_uint64)

lemma head_of_frame: "take 9 (frame C k p @ rest) = WriteUint8 C k @ WriteUint64 C (of_nat (length p))"
  "drop 9 (frame C k p @ rest) = p @ rest"
  by (simp_all add: frame_def length_uint8 length_uint64)

lemma Reader_next_whole:
  assumes "r_in r = take n (frame C k p @ rest)" "9 + length p \<le> n" "length p \<le> maxRecordSize"
  shows "Reader_next C r = (r\<lparr>r_in := take (n - (9 + length p)) rest, r_hash := r_hash r @ (if k = kindEnd then [] else frame C k p)\<rparr>, Inr (k, p))"
proof -
  have u: "unat (of_nat (length p) :: u64) = length p" using assms(3) by (simp add: unat_of_nat maxRecordSize_def)
  have i: "r_in r = frame C k p @ take (n - (9 + length p)) rest" using assms(1,2) by (simp add: length_frame)
  have z: "or_zero (ReadUint8 C) (WriteUint8 C k @ WriteUint64 C (of_nat (length p))) = (k, WriteUint64 C (of_nat (length p)))"
    "or_zero (ReadUint64 C) (WriteUint64 C (of_nat (length p))) = (of_nat (length p), [])"
    using read_uint8 read_uint64[of _ "[]"] by (simp_all add: or_zero_def)
  have l: "\<not> length (frame C k p @ take (n - (9 + length p)) rest) < 9" by (simp add: length_frame)
  show ?thesis
    unfolding Reader_next_def i if_not_P[OF l] Let_def select_convs update_convs head_of_frame z
    using u assms(3) by (auto simp: frame_def z)
qed

lemma Reader_next_cut:
  assumes "r_in r = take n (frame C k p @ rest)" "n < 9 + length p" "length p \<le> maxRecordSize"
  obtains r' where "Reader_next C r = (r', Inl Truncated)"
proof (cases "length (r_in r) < 9")
  case True
  then show thesis using that by (simp add: Reader_next_def)
next
  case False
  have u: "unat (of_nat (length p) :: u64) = length p" using assms(3) by (simp add: unat_of_nat maxRecordSize_def)
  have n: "9 \<le> n" using False assms(1) by simp
  have h: "take 9 (r_in r) = WriteUint8 C k @ WriteUint64 C (of_nat (length p))"
    unfolding assms(1) take_take using n head_of_frame(1)[of k p rest] by (simp add: min_absorb1 del: take_append)
  have z: "or_zero (ReadUint8 C) (WriteUint8 C k @ WriteUint64 C (of_nat (length p))) = (k, WriteUint64 C (of_nat (length p)))"
    "or_zero (ReadUint64 C) (WriteUint64 C (of_nat (length p))) = (of_nat (length p), [])"
    using read_uint8 read_uint64[of _ "[]"] by (simp_all add: or_zero_def)
  have "length (r_in r) \<le> n" unfolding assms(1) length_take by simp
  then have "length (drop 9 (r_in r)) < length p" using assms(2) n by simp
  then show thesis
    using that False h z u assms(3) by (simp add: Reader_next_def Let_def)
qed

lemma fetch_stands:
  assumes "stands C r h ((k, p) # kps) n" "9 + length p \<le> n" "length p \<le> maxRecordSize"
  obtains r' where "Reader_fetch C r = (r', Inr (k, p))" "stands C r' (h @ (if k = kindEnd then [] else frame C k p)) kps (n - (9 + length p))"
    "keeps r r'" "r_pending r' = None"
proof (cases "r_pending r")
  case None
  then have "r_in r = take n (frame C k p @ frames C kps)" "r_hash r = h" "\<not> r_done r" using assms(1) by (simp_all add: stands_def)
  then show thesis
    using that Reader_next_whole[where r = r and rest = "frames C kps", OF _ assms(2,3)] None by (simp add: Reader_fetch_def stands_def keeps_def)
next
  case (Some kp)
  then show thesis
    using that[of "r\<lparr>r_pending := None\<rparr>"] assms(1) by (auto simp: Reader_fetch_def stands_def keeps_def length_frame)
qed

lemma fetch_cut:
  assumes "stands C r h ((k, p) # kps) n" "n < 9 + length p" "length p \<le> maxRecordSize"
  obtains r' where "Reader_fetch C r = (r', Inl Truncated)"
proof -
  have "r_pending r = None" "r_in r = take n (frame C k p @ frames C kps)"
    using assms(1,2) by (auto simp: stands_def length_frame split: option.splits)
  then show thesis using that Reader_next_cut[OF _ assms(2,3)] unfolding Reader_fetch_def by (metis option.simps(4))
qed

lemma Next_cut:
  assumes "stands C r h ((k, p) # kps) n" "n < 9 + length p" "length p \<le> maxRecordSize"
  obtains r' where "Reader_Next C r = (r', Inl Truncated)"
proof -
  obtain r' where "Reader_fetch C r = (r', Inl Truncated)" by (rule fetch_cut[OF assms])
  moreover have "\<not> r_done r" using assms(1) by (simp add: stands_def)
  ultimately show thesis using that by (subst (asm) Reader_Next.simps) simp
qed

lemma decode_small:
  assumes "length enc \<le> maxRecordSize" "\<And>d. length enc < 2 ^ 63 \<Longrightarrow> dec (enc @ d) = Some (v, d)"
  shows "decode dec enc = Inr v"
  by (rule decode_back) (use assms in \<open>simp add: maxRecordSize_def\<close>)

lemma Next_item:
  assumes "stands C r h (item_record C it # kps) n" "item_record C it = (k, p)" "9 + length p \<le> n" "length p \<le> maxRecordSize"
    and "item_sized it"
  obtains r' where "Reader_Next C r = (r', Inr it)" "stands C r' (h @ frame C k p) kps (n - (9 + length p))" "keeps r r'"
proof -
  obtain r' where r': "Reader_fetch C r = (r', Inr (k, p))" "stands C r' (h @ (if k = kindEnd then [] else frame C k p)) kps (n - (9 + length p))"
    "keeps r r'" using fetch_stands[of r h k p kps n] assms by metis
  have nd: "\<not> r_done r" using assms(1) by (simp add: stands_def)
  have k: "k \<noteq> kindEnd" using assms(2) by (cases it) (auto simp: kind_defs)
  have d: "case it of Dir dir \<Rightarrow> decode (Directory_DecodeFrom C) p = Inr dir | Fil f \<Rightarrow> decode (File_DecodeFrom C) p = Inr f"
    using assms(2,5) by (auto simp: item_sized_def split: item.splits
        intro!: decode_small[OF assms(4)] Directory_back File_back elim!: Pair_inject)
  have "Reader_Next C r = (r', Inr it)"
    using nd r'(1) assms(2) d by (subst Reader_Next.simps) (cases it; auto simp: kind_defs)
  then show thesis using that r' k by simp
qed

lemma Next_end:
  assumes "stands C r h [end_record C h its] n" "length (frames C [end_record C h its]) \<le> n"
  obtains r' where "Reader_Next C r = (r', Inl EOF)" "r_dirs r' = dirs_of its" "r_files r' = files_of its" "r_done r'" "keeps r r'"
proof -
  define ep where "ep = WriteUint64 C (dirs_of its) @ WriteUint64 C (files_of its) @ Sum256 C h"
  have e: "end_record C h its = (kindEnd, ep)" by (simp add: end_record_def ep_def)
  have n: "9 + length ep \<le> n" "length ep \<le> maxRecordSize"
    using assms(2) by (simp_all add: e length_frame ep_def length_uint64 length_sum maxRecordSize_def)
  have st: "stands C r h [(kindEnd, ep)] n" using assms(1) e by simp
  obtain r' where r': "Reader_fetch C r = (r', Inr (kindEnd, ep))"
    "stands C r' (h @ (if kindEnd = kindEnd then [] else frame C kindEnd ep)) [] (n - (9 + length ep))" "keeps r r'" "r_pending r' = None"
    by (rule fetch_stands[OF st n])
  have hh: "r_hash r' = h" using r'(2,4) by (simp add: stands_def)
  have "ReadUint64 C ep = Some (dirs_of its, WriteUint64 C (files_of its) @ Sum256 C h)" "Read 32 (Sum256 C h) = Some (Sum256 C h, [])"
    by (simp_all add: ep_def read_uint64 Read_def length_sum)
  then have "Reader_end C ep r' = (r'\<lparr>r_dirs := dirs_of its, r_files := files_of its, r_done := True\<rparr>, None)"
    using hh by (simp add: Reader_end_def read_uint64 Let_def)
  then have "Reader_Next C r = (r'\<lparr>r_dirs := dirs_of its, r_files := files_of its, r_done := True\<rparr>, Inl EOF)"
    using r'(1) assms(1) by (subst Reader_Next.simps) (simp add: kind_defs stands_def)
  then show thesis using that r'(3) by (simp add: keeps_def)
qed

lemma read_all_whole:
  assumes "stands C r h (map (item_record C) its @ [end_record C (h @ frames C (map (item_record C) its)) its0]) n"
    and "length (frames C (map (item_record C) its @ [end_record C (h @ frames C (map (item_record C) its)) its0])) \<le> n"
    and "small (map (item_record C) its)" "\<forall>it \<in> set its. item_sized it"
  obtains r' where "read_all C r = (its, r', EOF)" "r_dirs r' = dirs_of its0" "r_files r' = files_of its0" "r_done r'" "keeps r r'"
  using assms
proof (induction its arbitrary: r h n thesis)
  case Nil
  have s: "stands C r h [end_record C h its0] n" "length (frames C [end_record C h its0]) \<le> n" using Nil.prems(2,3) by simp_all
  obtain r' where "Reader_Next C r = (r', Inl EOF)" "r_dirs r' = dirs_of its0" "r_files r' = files_of its0" "r_done r'" "keeps r r'"
    by (rule Next_end[OF s])
  then show ?case using Nil.prems(1) by (subst (asm) read_all.simps) simp
next
  case (Cons it its)
  obtain k p where kp: "item_record C it = (k, p)" by force
  have l: "9 + length p \<le> n" "length p \<le> maxRecordSize" "item_sized it"
    using Cons.prems(3,4,5) kp by (simp_all add: length_frame)
  have s: "stands C r h (item_record C it # map (item_record C) its
      @ [end_record C ((h @ frame C k p) @ frames C (map (item_record C) its)) its0]) n"
    using Cons.prems(2) kp by simp
  obtain r1 where r1: "Reader_Next C r = (r1, Inr it)" "keeps r r1"
    "stands C r1 (h @ frame C k p) (map (item_record C) its
      @ [end_record C ((h @ frame C k p) @ frames C (map (item_record C) its)) its0]) (n - (9 + length p))"
    using Next_item[OF s kp l] by metis
  obtain r' where r': "read_all C r1 = (its, r', EOF)" "r_dirs r' = dirs_of its0" "r_files r' = files_of its0" "r_done r'" "keeps r1 r'"
    by (rule Cons.IH[OF _ r1(3)]) (use Cons.prems(3-) kp in \<open>simp_all add: length_frame\<close>)
  show ?case
    by (rule Cons.prems(1)[of r']) (use r1 r' keeps_trans in \<open>auto simp: read_all.simps[of C r]\<close>)
qed

lemma read_all_cut:
  assumes "stands C r h (map (item_record C) its @ [ep]) n" "n < length (frames C (map (item_record C) its @ [ep]))"
    and "small (map (item_record C) its @ [ep])" "\<forall>it \<in> set its. item_sized it"
  shows "snd (snd (read_all C r)) = Truncated"
  using assms
proof (induction its arbitrary: r h n)
  case Nil
  obtain k p where kp: "ep = (k, p)" by force
  have s: "stands C r h [(k, p)] n" "n < 9 + length p" "length p \<le> maxRecordSize" using Nil.prems kp by (simp_all add: length_frame)
  obtain r' where "Reader_Next C r = (r', Inl Truncated)" by (rule Next_cut[OF s])
  then show ?case by (subst read_all.simps) simp
next
  case (Cons it its)
  obtain k p where kp: "item_record C it = (k, p)" by force
  have l: "length p \<le> maxRecordSize" "item_sized it" using Cons.prems(3,4) kp by simp_all
  have s: "stands C r h (item_record C it # map (item_record C) its @ [ep]) n" using Cons.prems(1) by simp
  show ?case
  proof (cases "9 + length p \<le> n")
    case True
    obtain r1 where r1: "Reader_Next C r = (r1, Inr it)" "stands C r1 (h @ frame C k p) (map (item_record C) its @ [ep]) (n - (9 + length p))"
      using Next_item[OF s kp True l] by metis
    have "snd (snd (read_all C r1)) = Truncated"
      by (rule Cons.IH[OF r1(2)]) (use Cons.prems(2-) kp True in \<open>simp_all add: length_frame\<close>)
    then show ?thesis using r1(1) by (subst read_all.simps) (auto split: prod.splits)
  next
    case False
    then have n: "n < 9 + length p" by simp
    obtain r' where "Reader_Next C r = (r', Inl Truncated)" by (rule Next_cut[OF s[unfolded kp] n l(1)])
    then show ?thesis by (subst read_all.simps) simp
  qed
qed

lemma length_head: "length (head C) = 8 + length magic + 1"
  by (simp add: head_def length_string length_uint8)

lemma NewReader_head:
  assumes "8 + length magic + 1 \<le> n"
  shows "NewReader C (take n (head C @ rest)) = NewReader_records C (fresh_reader (head C) (take (n - length (head C)) rest))"
proof -
  let ?n = "8 + length magic + 1"
  have i: "take n (head C @ rest) = head C @ take (n - length (head C)) rest" using assms by (simp add: length_head)
  have h: "take ?n (head C @ xs) = head C" "drop ?n (head C @ xs) = xs" "\<not> length (head C @ xs) < ?n" for xs
    by (simp_all add: length_head)
  have rs: "ReadString C (head C) = Some (magic, WriteUint8 C Version)" "ReadUint8 C (WriteUint8 C Version) = Some (Version, [])"
    using read_uint8[of Version "[]"] by (simp_all add: head_def read_string magic_def)
  show ?thesis unfolding NewReader_def i Let_def h rs if_not_P[OF h(3)] by (simp add: rs)
qed

lemma NewReader_short: "n < 8 + length magic + 1 \<Longrightarrow> NewReader C (take n stream) = Inl NotATransfer"
  by (simp add: NewReader_def Let_def min_less_iff_disj)

lemma NewReader_whole:
  assumes "kps = belongs_records C b @ map (item_record C) its @ [end_record C h' its0]" "small ((kindHeader, Header_EncodeTo C header) # kps)"
    and "length (head C) + length (frames C [(kindHeader, Header_EncodeTo C header), hd kps]) \<le> n" "belongs_sized b"
  obtains r where "NewReader C (take n (head C @ frames C ((kindHeader, Header_EncodeTo C header) # kps))) = Inr r"
    "r_header r = header" "r_connection r = (case b of OfConnection c \<Rightarrow> Some c | _ \<Rightarrow> None)"
    "r_server r = (case b of OfServer s \<Rightarrow> Some s | _ \<Rightarrow> None)"
    "stands C r (head C @ frames C ((kindHeader, Header_EncodeTo C header) # belongs_records C b)) (map (item_record C) its @ [end_record C h' its0])
      (n - length (head C) - length (frames C ((kindHeader, Header_EncodeTo C header) # belongs_records C b)))"
proof -
  define he where "he = Header_EncodeTo C header"
  have "kps \<noteq> []" using assms(1) by simp
  then obtain k p kps' where kps: "kps = (k, p) # kps'" by (metis list.exhaust surj_pair)
  have l: "length he \<le> maxRecordSize" "length p \<le> maxRecordSize" "length (head C) + 9 + length he + 9 + length p \<le> n"
    using assms(2,3) kps by (simp_all add: he_def length_frame)
  define r0 where "r0 = fresh_reader (head C) (take (n - length (head C)) (frame C kindHeader he @ frames C kps))"
  have r0: "r_in r0 = take (n - length (head C)) (frame C kindHeader he @ frames C kps)" "r_hash r0 = head C" "\<not> r_done r0" "r_pending r0 = None"
    "r_connection r0 = None" "r_server r0 = None"
    by (simp_all add: r0_def fresh_reader_def)
  have new: "NewReader C (take n (head C @ frames C ((kindHeader, he) # kps))) = NewReader_records C r0"
    unfolding frames_simps r0_def by (rule NewReader_head) (use l(3) length_head in simp)
  define m where "m = n - length (head C) - (9 + length he)"
  have s1: "Reader_next C r0 = (r0\<lparr>r_in := take m (frames C kps), r_hash := head C @ frame C kindHeader he\<rparr>, Inr (kindHeader, he))"
    using Reader_next_whole[OF r0(1)] l r0(2) by (simp add: kind_defs m_def)
  have d: "decode (Header_DecodeFrom C) he = Inr header" using l(1) unfolding he_def by (rule decode_small) (rule Header_back)
  define r1 where "r1 = r0\<lparr>r_in := take m (frames C kps), r_hash := head C @ frame C kindHeader he, r_header := header\<rparr>"
  have i1: "r_in r1 = take m (frame C k p @ frames C kps')" "9 + length p \<le> m" using l by (simp_all add: r1_def kps m_def)
  define r2 where "r2 = r1\<lparr>r_in := take (m - (9 + length p)) (frames C kps'), r_hash := r_hash r1 @ (if k = kindEnd then [] else frame C k p)\<rparr>"
  have s2: "Reader_next C r1 = (r2, Inr (k, p))" unfolding r2_def by (rule Reader_next_whole[OF i1 l(2)])
  have f2: "r_header r2 = header" "r_connection r2 = None" "r_server r2 = None" "\<not> r_done r2" "r_pending r2 = None"
    "r_in r2 = take (m - (9 + length p)) (frames C kps')" "r_hash r2 = head C @ frame C kindHeader he @ (if k = kindEnd then [] else frame C k p)"
    using r0 by (simp_all add: r1_def r2_def)
  have new2: "NewReader C (take n (head C @ frames C ((kindHeader, he) # kps))) =
      (if k = kindConnection then map_sum id (\<lambda>c. r2\<lparr>r_connection := Some c\<rparr>) (decode (Connection_DecodeFrom C) p)
       else if k = kindServer then map_sum id (\<lambda>s. r2\<lparr>r_server := Some s\<rparr>) (decode (Server_DecodeFrom C) p)
       else Inr (r2\<lparr>r_pending := Some (k, p)\<rparr>))"
    using s1 d s2 unfolding new by (simp add: r1_def NewReader_records_def NewReader_second_def kind_defs)
  show thesis
  proof (cases b)
    case Plain
    then have tl: "(k, p) # kps' = map (item_record C) its @ [end_record C h' its0]" using assms(1) kps by simp
    have kk: "k \<noteq> kindConnection" "k \<noteq> kindServer"
      using tl by (cases its; auto simp: end_record_def kind_defs; cases "hd its"; auto simp: kind_defs)+
    show thesis
      by (rule that[of "r2\<lparr>r_pending := Some (k, p)\<rparr>"])
        (use new2 kk f2 Plain l in \<open>simp_all add: he_def[symmetric] stands_def tl[symmetric] length_frame m_def\<close>)
  next
    case (OfConnection c)
    then have kc: "k = kindConnection" "p = Connection_EncodeTo C c" "kps' = map (item_record C) its @ [end_record C h' its0]" using assms(1) kps by simp_all
    have "decode (Connection_DecodeFrom C) p = Inr c" unfolding kc(2)
      by (rule decode_small[OF l(2)[unfolded kc(2)]], rule Connection_back) (use assms(4) OfConnection in \<open>simp_all add: belongs_sized_def\<close>)
    then have ok: "NewReader C (take n (head C @ frames C ((kindHeader, he) # kps))) = Inr (r2\<lparr>r_connection := Some c\<rparr>)"
      using new2 kc(1) by (simp add: kind_defs)
    have nn: "n - length (head C) - length (frames C ((kindHeader, he) # belongs_records C b)) = m - (9 + length p)"
      by (simp add: OfConnection kc(2) m_def length_frame)
    have "stands C (r2\<lparr>r_connection := Some c\<rparr>) (head C @ frames C ((kindHeader, he) # belongs_records C b)) kps' (m - (9 + length p))"
      using f2 kc(1,2) OfConnection by (simp add: stands_def kind_defs)
    then show thesis
      using that[of "r2\<lparr>r_connection := Some c\<rparr>"] ok f2 nn kc(3) OfConnection by (simp add: he_def)
  next
    case (OfServer c)
    then have kc: "k = kindServer" "p = Server_EncodeTo C c" "kps' = map (item_record C) its @ [end_record C h' its0]" using assms(1) kps by simp_all
    have "decode (Server_DecodeFrom C) p = Inr c" unfolding kc(2)
      by (rule decode_small[OF l(2)[unfolded kc(2)]], rule Server_back) (use assms(4) OfServer in \<open>simp_all add: belongs_sized_def\<close>)
    then have ok: "NewReader C (take n (head C @ frames C ((kindHeader, he) # kps))) = Inr (r2\<lparr>r_server := Some c\<rparr>)"
      using new2 kc(1) by (simp add: kind_defs)
    have nn: "n - length (head C) - length (frames C ((kindHeader, he) # belongs_records C b)) = m - (9 + length p)"
      by (simp add: OfServer kc(2) m_def length_frame)
    have "stands C (r2\<lparr>r_server := Some c\<rparr>) (head C @ frames C ((kindHeader, he) # belongs_records C b)) kps' (m - (9 + length p))"
      using f2 kc(1,2) OfServer by (simp add: stands_def kind_defs)
    then show thesis
      using that[of "r2\<lparr>r_server := Some c\<rparr>"] ok f2 nn kc(3) OfServer by (simp add: he_def)
  qed
qed

lemma NewReader_cut:
  assumes "kps \<noteq> []" "small ((kindHeader, he) # kps)" "n < length (head C) + length (frames C [(kindHeader, he), hd kps])"
    "decode (Header_DecodeFrom C) he = Inr header"
  shows "NewReader C (take n (head C @ frames C ((kindHeader, he) # kps))) \<in> {Inl NotATransfer, Inl Truncated}"
proof (cases "n < 8 + length magic + 1")
  case False
  obtain k p kps' where kps: "kps = (k, p) # kps'" using assms(1) by (metis list.exhaust surj_pair)
  have l: "length he \<le> maxRecordSize" "length p \<le> maxRecordSize" "n < length (head C) + 9 + length he + 9 + length p"
    using assms(2,3) kps by (simp_all add: length_frame)
  define r0 where "r0 = fresh_reader (head C) (take (n - length (head C)) (frame C kindHeader he @ frames C kps))"
  have r0: "r_in r0 = take (n - length (head C)) (frame C kindHeader he @ frames C kps)" by (simp add: r0_def fresh_reader_def)
  have new: "NewReader C (take n (head C @ frames C ((kindHeader, he) # kps))) = NewReader_records C r0"
    unfolding frames_simps r0_def by (rule NewReader_head) (use False in simp)
  show ?thesis
  proof (cases "9 + length he \<le> n - length (head C)")
    case True
    obtain r1 where r1: "Reader_next C r0 = (r1, Inr (kindHeader, he))" "r_in r1 = take (n - length (head C) - (9 + length he)) (frame C k p @ frames C kps')"
      using Reader_next_whole[OF r0 True l(1)] kps by simp
    have "r_in (r1\<lparr>r_header := header\<rparr>) = take (n - length (head C) - (9 + length he)) (frame C k p @ frames C kps')" using r1(2) by simp
    moreover have "n - length (head C) - (9 + length he) < 9 + length p" using l(3) by simp
    ultimately obtain r2 where "Reader_next C (r1\<lparr>r_header := header\<rparr>) = (r2, Inl Truncated)" using l(2) by (rule Reader_next_cut)
    then show ?thesis unfolding new using r1(1) assms(4) by (simp add: NewReader_records_def NewReader_second_def)
  next
    case c: False
    then have "n - length (head C) < 9 + length he" by simp
    then obtain r' where "Reader_next C r0 = (r', Inl Truncated)" using Reader_next_cut[OF r0 _ l(1)] by blast
    then show ?thesis unfolding new by (simp add: NewReader_records_def)
  qed
qed (simp add: NewReader_short del: take_append frames_simps)

lemma end_record_small: "small [end_record C h its]"
  by (simp add: end_record_def length_uint64 length_sum maxRecordSize_def)

text \<open>A stream that was written, and the reader behind its first records.\<close>

lemma written_stream:
  assumes "write_all C sk header b its = (w, None)"
  defines "h \<equiv> head C @ frames C (description_records C header b its)"
  defines "kps \<equiv> belongs_records C b @ map (item_record C) its @ [end_record C h its]"
  shows "w_out w = head C @ frames C ((kindHeader, Header_EncodeTo C header) # kps)"
    "small ((kindHeader, Header_EncodeTo C header) # kps)"
    "h = head C @ frames C ((kindHeader, Header_EncodeTo C header) # belongs_records C b) @ frames C (map (item_record C) its)"
  using write_all_ok[OF assms(1)] end_record_small[of h its]
  by (simp_all add: h_def kps_def description_records_def)

lemma hd_frames_le: "kps \<noteq> [] \<Longrightarrow> length (frames C [hd kps]) \<le> length (frames C kps)"
  by (cases kps) auto

lemma transfer_back:
  assumes "belongs_sized b" "\<forall>it \<in> set its. item_sized it" "write_all C sk header b its = (w, None)"
  obtains r r' where "NewReader C (w_out w) = Inr r" "r_header r = header"
    "r_connection r = (case b of OfConnection c \<Rightarrow> Some c | _ \<Rightarrow> None)" "r_server r = (case b of OfServer s \<Rightarrow> Some s | _ \<Rightarrow> None)"
    "read_all C r = (its, r', EOF)" "r_dirs r' = dirs_of its" "r_files r' = files_of its"
proof -
  note st = written_stream[OF assms(3)]
  let ?hr = "(kindHeader, Header_EncodeTo C header)" and ?its = "map (item_record C) its"
  define h where "h = head C @ frames C (?hr # belongs_records C b)"
  define e where "e = end_record C (h @ frames C ?its) its"
  define kps where "kps = belongs_records C b @ ?its @ [e]"
  have out: "w_out w = head C @ frames C (?hr # kps)" and sm: "small (?hr # kps)"
    using st by (simp_all add: kps_def e_def h_def description_records_def)
  have ne: "kps \<noteq> []" by (simp add: kps_def)
  have n: "length (head C) + length (frames C [?hr, hd kps]) \<le> length (w_out w)"
    unfolding out using hd_frames_le[OF ne] by simp
  obtain r where r: "NewReader C (take (length (w_out w)) (head C @ frames C (?hr # kps))) = Inr r"
    "r_header r = header" "r_connection r = (case b of OfConnection c \<Rightarrow> Some c | _ \<Rightarrow> None)"
    "r_server r = (case b of OfServer s \<Rightarrow> Some s | _ \<Rightarrow> None)"
    "stands C r (head C @ frames C (?hr # belongs_records C b)) (?its @ [end_record C (h @ frames C ?its) its])
      (length (w_out w) - length (head C) - length (frames C (?hr # belongs_records C b)))"
    by (rule NewReader_whole[OF kps_def[unfolded e_def] sm n assms(1)])
  have s: "stands C r h (?its @ [end_record C (h @ frames C ?its) its]) (length (w_out w) - length h)" using r(5) by (simp add: h_def)
  have len: "length (frames C (?its @ [end_record C (h @ frames C ?its) its])) \<le> length (w_out w) - length h"
    by (simp add: out h_def kps_def e_def)
  have sm': "small ?its" using sm by (simp add: kps_def)
  obtain r' where "read_all C r = (its, r', EOF)" "r_dirs r' = dirs_of its" "r_files r' = files_of its" "r_done r'" "keeps r r'"
    by (rule read_all_whole[OF s len sm' assms(2)])
  then show thesis using that[of r r'] r(1-4) out by simp
qed

lemma transfer_cut:
  assumes "belongs_sized b" "\<forall>it \<in> set its. item_sized it" "write_all C sk header b its = (w, None)" "n < length (w_out w)"
  shows "case NewReader C (take n (w_out w)) of Inl e \<Rightarrow> e \<in> {NotATransfer, Truncated} | Inr r \<Rightarrow> snd (snd (read_all C r)) = Truncated"
proof -
  let ?hr = "(kindHeader, Header_EncodeTo C header)" and ?its = "map (item_record C) its"
  define e where "e = end_record C (head C @ frames C (description_records C header b its)) its"
  define kps where "kps = belongs_records C b @ ?its @ [e]"
  have out: "w_out w = head C @ frames C (?hr # kps)" and sm: "small (?hr # kps)"
    using written_stream(1,2)[OF assms(3)] by (simp_all add: kps_def e_def)
  have ne: "kps \<noteq> []" by (simp add: kps_def)
  have d: "decode (Header_DecodeFrom C) (Header_EncodeTo C header) = Inr header"
    by (rule decode_small) (use sm in simp, rule Header_back)
  show ?thesis
  proof (cases "length (head C) + length (frames C [?hr, hd kps]) \<le> n")
    case True
    obtain r where r: "NewReader C (take n (head C @ frames C (?hr # kps))) = Inr r"
      "stands C r (head C @ frames C (?hr # belongs_records C b)) (?its @ [e]) (n - length (head C) - length (frames C (?hr # belongs_records C b)))"
      using NewReader_whole[OF kps_def[unfolded e_def] sm True assms(1)] unfolding e_def by metis
    have "n - length (head C) - length (frames C (?hr # belongs_records C b)) < length (frames C (?its @ [e]))"
      using assms(4) True ne by (cases b) (auto simp: out kps_def length_frame)
    then have "snd (snd (read_all C r)) = Truncated"
      using read_all_cut[OF r(2)] sm assms(2) by (simp add: kps_def)
    then show ?thesis using r(1) out by simp
  next
    case False
    then have "NewReader C (take n (w_out w)) \<in> {Inl NotATransfer, Inl Truncated}"
      unfolding out using NewReader_cut[OF ne sm _ d] by simp
    then show ?thesis by auto
  qed
qed

end

subsection \<open>A codec that keeps the laws\<close>

text \<open>Little-endian numbers, lengths in eight bytes, and the length of the input for a digest.\<close>

definition le_number :: "u64 parser" where
  "le_number d = (if length d < 8 then None else Some (of_int (of_le (take 8 d)), drop 8 d))"

definition le_blob :: "bytes parser" where
  "le_blob d = do { (n, d) \<leftarrow> le_number d; Read (unat n) d }"

definition le_codec :: "unit codec" where
  "le_codec = \<lparr>
     WriteUint8 = (\<lambda>v. [v]), WriteUint64 = (\<lambda>v. to_le 8 (uint v)), WriteBool = (\<lambda>b. [if b then 1 else 0]),
     WriteString = (\<lambda>s. to_le 8 (int (length s)) @ map (\<lambda>c. of_nat (of_char c)) s),
     WriteBytes = (\<lambda>bs. to_le 8 (int (length bs)) @ bs),
     WriteTime = (\<lambda>t. to_le 8 (uint t)), WritePrefix = (\<lambda>n. to_le 8 (int n)), WriteHash = (\<lambda>h. h), WriteSealed = (\<lambda>_. []),
     ReadUint8 = (\<lambda>d. case d of [] \<Rightarrow> None | b # d \<Rightarrow> Some (b, d)), ReadUint64 = le_number,
     ReadBool = (\<lambda>d. case d of [] \<Rightarrow> None | b # d \<Rightarrow> Some (b \<noteq> 0, d)),
     ReadString = (\<lambda>d. do { (bs, d) \<leftarrow> le_blob d; Some (map (\<lambda>b. char_of (unat b)) bs, d) }),
     ReadBytes = le_blob, ReadTime = le_number,
     ReadPrefix = (\<lambda>d. do { (n, d) \<leftarrow> le_number d; Some (unat n, d) }), ReadHash = Read 32, ReadSealed = (\<lambda>d. Some ((), d)),
     Sum256 = (\<lambda>bs. to_le 32 (int (length bs)))\<rparr>"

lemma le_number_back: "0 \<le> n \<Longrightarrow> n < 2 ^ 64 \<Longrightarrow> le_number (to_le 8 n @ d) = Some (of_int n, d)"
  by (simp add: le_number_def of_le_to_le)

lemma le_blob_back: "length bs < 2 ^ 63 \<Longrightarrow> le_blob (to_le 8 (int (length bs)) @ bs @ d) = Some (bs, d)"
  by (simp add: le_blob_def le_number_back Read_def unat_of_nat)

interpretation le: codec_laws le_codec
proof
  show "ReadUint64 le_codec (WriteUint64 le_codec v @ d) = Some (v, d)" for v d
    using uint_lt2p[of v] by (simp add: le_codec_def le_number_back)
  show "ReadTime le_codec (WriteTime le_codec v @ d) = Some (v, d)" for v d
    using uint_lt2p[of v] by (simp add: le_codec_def le_number_back)
  show "ReadString le_codec (WriteString le_codec s @ d) = Some (s, d)" if "length s < 2 ^ 63" for s d
    using le_blob_back[of "map (\<lambda>c. of_nat (of_char c)) s" d] that
    by (simp add: le_codec_def comp_def unat_of_nat map_idI)
  show "ReadBytes le_codec (WriteBytes le_codec bs @ d) = Some (bs, d)" if "length bs < 2 ^ 63" for bs d
    using le_blob_back[OF that] by (simp add: le_codec_def)
  show "ReadPrefix le_codec (WritePrefix le_codec n @ d) = Some (n, d)" if "n < 2 ^ 63" for n d
    using that by (simp add: le_codec_def le_number_back unat_of_nat)
qed (simp_all add: le_codec_def Read_def)

subsection \<open>The stream as a whole\<close>


text \<open>C33 (cut_transfer_refused). A stream cut short is never taken for a whole one: wherever a stream that was written is cut,
  opening it fails because it is no transfer or ends early, or reading it ends with the error that it ends early.\<close>

theorem cut_transfer_refused:
  assumes "codec_laws C" "belongs_sized b" "\<forall>it \<in> set its. item_sized it" "write_all C sk header b its = (w, None)"
    and "n < length (w_out w)"
  shows "case NewReader C (take n (w_out w)) of
      Inl e \<Rightarrow> e \<in> {NotATransfer, Truncated}
    | Inr r \<Rightarrow> snd (snd (read_all C r)) = Truncated"
  using codec_laws.transfer_cut[OF assms] .

definition sample_header :: tHeader where
  "sample_header = \<lparr>th_CreatedAt = 7, th_Source = ''sombrero'', th_Origin = '''', th_Share = ''s'', th_Workgroup = ''w''\<rparr>"

definition sample_items :: "unit item list" where
  "sample_items = [Fil (sample_file 20 [sample_part 2 4])]"

definition sample_written :: "transfer_writer \<times> transfer_error option" where
  "sample_written = write_all le_codec (\<lambda>_ _. None) sample_header Plain sample_items"

lemma sample_ok: "belongs_sized Plain" "\<forall>it \<in> set sample_items. item_sized it"
  by (simp_all add: belongs_sized_def sample_items_def item_sized_def File_sized_def sample_file_def sample_part_def)

lemma sample_valid: "File_Validate (sample_file 20 [sample_part 2 4]) = None"
  by code_simp

lemma sample_lengths:
  "length (Header_EncodeTo le_codec sample_header) \<le> maxRecordSize" "length (File_EncodeTo le_codec (sample_file 20 [sample_part 2 4])) \<le> maxRecordSize"
  by (simp_all add: Header_EncodeTo_def File_EncodeTo_def EncodeSlice_def Part_EncodeTo_def sample_header_def sample_file_def
      sample_part_def le_codec_def maxRecordSize_def Let_def part_flags_bits)

lemma sample_written_none: "snd sample_written = None"
  using sample_valid sample_lengths
  by (simp add: sample_written_def sample_items_def write_all_def then_write_def NewWriter_def writer_write_def writer_record_def
      Writer_File_def Writer_Close_def Let_def)

lemma sample_written_ok: "write_all le_codec (\<lambda>_ _. None) sample_header Plain sample_items = (fst sample_written, None)"
  using sample_written_none by (metis sample_written_def prod.collapse)


theorem cut_transfer_refused_witness:
  "NewReader le_codec (take 10 (w_out (fst sample_written))) \<in> {Inl NotATransfer, Inl Truncated}"
proof -
  have "10 < length (w_out (fst sample_written))"
    using codec_laws.written_stream(1)[OF le.codec_laws_axioms sample_written_ok] by (simp add: le.length_head magic_def)
  moreover have "NewReader le_codec (take 10 (w_out (fst sample_written))) \<noteq> Inr r" for r
    by (simp add: NewReader_def Let_def magic_def min_less_iff_disj)
  ultimately show ?thesis
    using cut_transfer_refused[OF le.codec_laws_axioms sample_ok(1,2) sample_written_ok, of 10]
    by (cases "NewReader le_codec (take 10 (w_out (fst sample_written)))") auto
qed

end
