(* ===== verification/Ntlm.thy ===== *)
theory Ntlm
  imports Wire Json_Store
begin

section \<open>NTLM authentication\<close>

text \<open>
  \<^verbatim>\<open>src/ntlm\<close>: the challenge the server gives and the answer it checks. Everything before the comparison of the
  response runs on bytes of a client that has proved nothing, so the first concern is that no message makes it panic;
  the second, that a login that succeeds was made with the key of the account it names, over the challenge that was
  given. HMAC-MD5, MD5, RC4 and the case mapping are functions of the environment; so is the account store, through
  the interface the package declares for it, which is interpreted on the store of the Lite mode.
\<close>

unbundle bit_operations_syntax

subsection \<open>Constants\<close>

definition ntlm_signature :: bytes where "ntlm_signature = [0x4e, 0x54, 0x4c, 0x4d, 0x53, 0x53, 0x50, 0]"
definition ntlm_version :: bytes where "ntlm_version = [0x0a, 0, 0, 0, 0, 0, 0, 0x0f]"
definition NtLmNegotiate :: u32 where "NtLmNegotiate = 1"
definition NtLmChallenge :: u32 where "NtLmChallenge = 2"
definition NtLmAuthenticate :: u32 where "NtLmAuthenticate = 3"
definition ntlmv2ResponseMinSize :: nat where "ntlmv2ResponseMinSize = 16 + 28"

definition NTLMSSP_NEGOTIATE_UNICODE :: u32 where "NTLMSSP_NEGOTIATE_UNICODE = push_bit 0 1"
definition NTLMSSP_REQUEST_TARGET :: u32 where "NTLMSSP_REQUEST_TARGET = push_bit 2 1"
definition NTLMSSP_NEGOTIATE_SIGN :: u32 where "NTLMSSP_NEGOTIATE_SIGN = push_bit 4 1"
definition NTLMSSP_NEGOTIATE_SEAL :: u32 where "NTLMSSP_NEGOTIATE_SEAL = push_bit 5 1"
definition NTLMSSP_NEGOTIATE_DATAGRAM :: u32 where "NTLMSSP_NEGOTIATE_DATAGRAM = push_bit 6 1"
definition NTLMSSP_NEGOTIATE_LM_KEY :: u32 where "NTLMSSP_NEGOTIATE_LM_KEY = push_bit 7 1"
definition NTLMSSP_NEGOTIATE_NTLM :: u32 where "NTLMSSP_NEGOTIATE_NTLM = push_bit 9 1"
definition NTLMSSP_NEGOTIATE_ALWAYS_SIGN :: u32 where "NTLMSSP_NEGOTIATE_ALWAYS_SIGN = push_bit 15 1"
definition NTLMSSP_TARGET_TYPE_SERVER :: u32 where "NTLMSSP_TARGET_TYPE_SERVER = push_bit 17 1"
definition NTLMSSP_NEGOTIATE_EXTENDED_SESSIONSECURITY :: u32 where "NTLMSSP_NEGOTIATE_EXTENDED_SESSIONSECURITY = push_bit 19 1"
definition NTLMSSP_NEGOTIATE_TARGET_INFO :: u32 where "NTLMSSP_NEGOTIATE_TARGET_INFO = push_bit 23 1"
definition NTLMSSP_NEGOTIATE_VERSION :: u32 where "NTLMSSP_NEGOTIATE_VERSION = push_bit 25 1"
definition NTLMSSP_NEGOTIATE_128 :: u32 where "NTLMSSP_NEGOTIATE_128 = push_bit 29 1"
definition NTLMSSP_NEGOTIATE_KEY_EXCH :: u32 where "NTLMSSP_NEGOTIATE_KEY_EXCH = push_bit 30 1"
definition NTLMSSP_NEGOTIATE_56 :: u32 where "NTLMSSP_NEGOTIATE_56 = push_bit 31 1"

definition ntlm_defaultFlags :: u32 where
  "ntlm_defaultFlags = NTLMSSP_NEGOTIATE_56 OR NTLMSSP_NEGOTIATE_KEY_EXCH OR NTLMSSP_NEGOTIATE_128 OR NTLMSSP_NEGOTIATE_TARGET_INFO OR
     NTLMSSP_NEGOTIATE_EXTENDED_SESSIONSECURITY OR NTLMSSP_NEGOTIATE_ALWAYS_SIGN OR NTLMSSP_NEGOTIATE_NTLM OR
     NTLMSSP_NEGOTIATE_SIGN OR NTLMSSP_REQUEST_TARGET OR NTLMSSP_NEGOTIATE_UNICODE OR NTLMSSP_NEGOTIATE_VERSION"

definition MsvAvNbComputerName :: u16 where "MsvAvNbComputerName = 1"
definition MsvAvNbDomainName :: u16 where "MsvAvNbDomainName = 2"
definition MsvAvDnsComputerName :: u16 where "MsvAvDnsComputerName = 3"
definition MsvAvDnsDomainName :: u16 where "MsvAvDnsDomainName = 4"
definition MsvAvFlags :: u16 where "MsvAvFlags = 6"
definition MsvAvTimestamp :: u16 where "MsvAvTimestamp = 7"

subsection \<open>The environment and the state\<close>

datatype ntlm_error = NtlmError string | NtlmStore json_error | NtlmKeySize nat

record ntlm_env =
  ne_ext :: extlib
  strings_ToUpper :: "string \<Rightarrow> string"
  hmac_md5 :: "bytes \<Rightarrow> bytes \<Rightarrow> bytes"
  md5_Sum :: "bytes \<Rightarrow> bytes"
  rc4_stream :: "bytes \<Rightarrow> nat \<Rightarrow> byte"
  AS_FindAccount :: "string \<Rightarrow> string \<Rightarrow> json_error + Account"
  AS_FindWorkgroupByName :: "string \<Rightarrow> json_error + Workgroup"

definition hash_sizes :: "ntlm_env \<Rightarrow> bool" where
  "hash_sizes E \<longleftrightarrow> (\<forall>k m. length (hmac_md5 E k m) = 16) \<and> (\<forall>m. length (md5_Sum E m) = 16)"

text \<open>A cipher of RC4: its key and how much of its stream is used up.\<close>

record rc4_Cipher =
  rc4_key :: bytes
  rc4_pos :: nat

definition rc4_NewCipher :: "bytes \<Rightarrow> ntlm_error + rc4_Cipher" where
  "rc4_NewCipher key =
     (if length key < 1 \<or> length key > 256 then Inl (NtlmKeySize (length key)) else Inr \<lparr>rc4_key = key, rc4_pos = 0\<rparr>)"

definition rc4_XORKeyStream :: "ntlm_env \<Rightarrow> bytes \<Rightarrow> rc4_Cipher \<Rightarrow> bytes \<times> rc4_Cipher" where
  "rc4_XORKeyStream E src h =
     (map2 (XOR) src (map (rc4_stream E (rc4_key h)) [rc4_pos h..<rc4_pos h + length src]), h\<lparr>rc4_pos := rc4_pos h + length src\<rparr>)"

record ntlm_session =
  isClientSide :: bool
  ns_user :: string
  ns_domain :: string
  ns_guest :: bool
  ns_anonymous :: bool
  negotiateFlags :: u32
  exportedSessionKey :: bytes
  clientSigningKey :: bytes
  serverSigningKey :: bytes
  clientHandle :: rc4_Cipher
  serverHandle :: rc4_Cipher

record ntlm_server =
  targetName :: string
  targetDomain :: string
  nmsg :: bytes
  cmsg :: bytes
  amsg :: bytes
  ntlm_sess :: "ntlm_session option"
  anonymous :: bool

definition ntlm_NewServer :: "string \<Rightarrow> string \<Rightarrow> bool \<Rightarrow> ntlm_server" where
  "ntlm_NewServer name domain anon =
     \<lparr>targetName = name, targetDomain = domain, nmsg = [], cmsg = [], amsg = [], ntlm_sess = None, anonymous = anon\<rparr>"

subsection \<open>Helpers\<close>

definition ntlm_fits :: "u64 \<Rightarrow> u64 \<Rightarrow> u64 \<Rightarrow> bool" where
  "ntlm_fits off len sz \<longleftrightarrow> off + len \<le> sz"

definition IsAuthenticate :: "bytes \<Rightarrow> bool go" where
  "IsAuthenticate msg =
     (if length msg < 12 then Some False
      else do { sig \<leftarrow> slice 0 8 msg;
                if sig \<noteq> ntlm_signature then Some False
                else do { t \<leftarrow> Uint32_at 8 msg; Some (t = NtLmAuthenticate) } })"

definition ntowfv2Hash :: "ntlm_env \<Rightarrow> bytes \<Rightarrow> bytes \<Rightarrow> bytes \<Rightarrow> bytes" where
  "ntowfv2Hash E USER hash domain = hmac_md5 E hash (USER @ domain)"

text \<open>The response filled into a buffer of \<open>n\<close> zeros: the client's challenge behind the code over it.\<close>

definition encodeNtlmv2Response :: "ntlm_env \<Rightarrow> nat \<Rightarrow> bytes \<Rightarrow> bytes \<Rightarrow> bytes \<Rightarrow> bytes \<Rightarrow> bytes \<Rightarrow> bytes go" where
  "encodeNtlmv2Response E n key serverChallenge clientChallenge timeStamp targetInfo =
     do { cc \<leftarrow> slice 16 n (replicate n 0);
          cc \<leftarrow> put_at 0 [1] cc;
          cc \<leftarrow> put_at 1 [1] cc;
          cc \<leftarrow> copy_at 8 8 timeStamp cc;
          cc \<leftarrow> copy_at 16 8 clientChallenge cc;
          cc \<leftarrow> copy_at 28 (length cc - 28) targetInfo cc;
          Some (take 16 (hmac_md5 E key (serverChallenge @ cc)) @ cc) }"

function parseAvPairs_loop :: "bytes \<Rightarrow> (u16 \<rightharpoonup> bytes) \<Rightarrow> (u16 \<rightharpoonup> bytes) option go" where
  "parseAvPairs_loop bs pairs =
     (if length bs = 0 then Some (Some pairs)
      else if length bs < 4 then Some None
      else do {
        id \<leftarrow> Uint16_at 0 bs;
        n \<leftarrow> Uint16_at 2 bs;
        if length bs < 4 + unat n then Some None
        else do { v \<leftarrow> slice 4 (4 + unat n) bs;
                  parseAvPairs_loop (drop (4 + unat n) bs) (pairs(id \<mapsto> v)) } })"
  by pat_completeness auto
termination
  by (relation "measure (\<lambda>(bs, pairs). length bs)") auto

declare parseAvPairs_loop.simps [simp del]

definition parseAvPairs :: "bytes \<Rightarrow> (u16 \<rightharpoonup> bytes) option go" where
  "parseAvPairs bs =
     (if length bs < 4 then Some None
      else do { eol \<leftarrow> slice (length bs - 4) (length bs) bs;
                if \<exists>c \<in> set eol. c \<noteq> 0 then Some None else parseAvPairs_loop bs Map.empty })"

text \<open>The keys of a session, out of the exported one.\<close>

definition client_signing_magic :: bytes where
  "client_signing_magic = map (\<lambda>c. of_nat (of_char c)) ''session key to client-to-server signing key magic constant'' @ [0]"
definition server_signing_magic :: bytes where
  "server_signing_magic = map (\<lambda>c. of_nat (of_char c)) ''session key to server-to-client signing key magic constant'' @ [0]"
definition client_sealing_magic :: bytes where
  "client_sealing_magic = map (\<lambda>c. of_nat (of_char c)) ''session key to client-to-server sealing key magic constant'' @ [0]"
definition server_sealing_magic :: bytes where
  "server_sealing_magic = map (\<lambda>c. of_nat (of_char c)) ''session key to server-to-client sealing key magic constant'' @ [0]"

definition signKey :: "ntlm_env \<Rightarrow> u32 \<Rightarrow> bytes \<Rightarrow> bool \<Rightarrow> bytes" where
  "signKey E flags key fromClient =
     (if flags AND NTLMSSP_NEGOTIATE_EXTENDED_SESSIONSECURITY \<noteq> 0
      then md5_Sum E (key @ (if fromClient then client_signing_magic else server_signing_magic)) else [])"

definition sealKey :: "ntlm_env \<Rightarrow> u32 \<Rightarrow> bytes \<Rightarrow> bool \<Rightarrow> bytes go" where
  "sealKey E flags key fromClient =
     (if flags AND NTLMSSP_NEGOTIATE_EXTENDED_SESSIONSECURITY \<noteq> 0
      then do {
        k \<leftarrow> (if flags AND NTLMSSP_NEGOTIATE_128 \<noteq> 0 then Some key
              else if flags AND NTLMSSP_NEGOTIATE_56 \<noteq> 0 then slice 0 7 key
              else slice 0 5 key);
        Some (md5_Sum E (k @ (if fromClient then client_sealing_magic else server_sealing_magic))) }
      else if flags AND NTLMSSP_NEGOTIATE_LM_KEY \<noteq> 0
      then (if flags AND NTLMSSP_NEGOTIATE_56 \<noteq> 0
            then do { k \<leftarrow> slice 0 7 key; Some (k @ [0xa0]) }
            else do { k \<leftarrow> slice 0 5 key; Some (k @ [0xe5, 0x38, 0xb0]) })
      else Some key)"

subsection \<open>Checking an answer\<close>

text \<open>One of the fields of the message that point into it: its length, its room and its place.\<close>

definition ntlm_field :: "nat \<Rightarrow> string \<Rightarrow> bytes \<Rightarrow> (ntlm_error + bytes) go" where
  "ntlm_field at err msg =
     do { len \<leftarrow> Uint16_at at msg;
          maxLen \<leftarrow> Uint16_at (at + 2) msg;
          if maxLen < len then Some (Inl (NtlmError err))
          else do {
            off \<leftarrow> Uint32_at (at + 4) msg;
            if \<not> ntlm_fits (ucast off) (ucast len) (of_nat (length msg)) then Some (Inl (NtlmError err))
            else map_option Inr (slice (unat off) (unat (off + ucast len)) msg) } }"

definition go_try :: "('e + 'a) go \<Rightarrow> ('a \<Rightarrow> ('e + 'b) go) \<Rightarrow> ('e + 'b) go" where
  "go_try m f = (case m of None \<Rightarrow> None | Some (Inl e) \<Rightarrow> Some (Inl e) | Some (Inr x) \<Rightarrow> f x)"

definition resolveWorkgroup :: "ntlm_env \<Rightarrow> string \<Rightarrow> ntlm_error + string" where
  "resolveWorkgroup E domain =
     (if domain = [] then Inr []
      else case uuid_Parse (ne_ext E) domain of
        Inr u \<Rightarrow> if u = AnonymousWorkgroup then Inl (NtlmError ''login failure'') else Inr (uuid_String (ne_ext E) u)
      | Inl _ \<Rightarrow>
          (case AS_FindWorkgroupByName E domain of
             Inl err \<Rightarrow> Inl (NtlmStore err)
           | Inr wg \<Rightarrow> if wg_ID wg = 0 then Inl (NtlmError ''login failure'') else Inr (uuid_String (ne_ext E) (wg_UUID wg))))"

definition GuestAccount :: string where "GuestAccount = ''guest''"

text \<open>The handles both kinds of session end with, in place of the ones a new session has none of.\<close>

definition with_keys :: "ntlm_env \<Rightarrow> u32 \<Rightarrow> ntlm_session \<Rightarrow> (ntlm_error + ntlm_session) go" where
  "with_keys E flags s =
     (let s = s\<lparr>clientSigningKey := signKey E flags (exportedSessionKey s) True,
                serverSigningKey := signKey E flags (exportedSessionKey s) False\<rparr>
      in do {
        ck \<leftarrow> sealKey E flags (exportedSessionKey s) True;
        go_try (Some (rc4_NewCipher ck)) (\<lambda>ch. do {
          sk \<leftarrow> sealKey E flags (exportedSessionKey s) False;
          go_try (Some (rc4_NewCipher sk)) (\<lambda>sh.
            Some (Inr (s\<lparr>clientHandle := ch, serverHandle := sh\<rparr>))) }) })"

definition new_Session :: ntlm_session where
  "new_Session = \<lparr>isClientSide = False, ns_user = [], ns_domain = [], ns_guest = False, ns_anonymous = False, negotiateFlags = 0,
     exportedSessionKey = [], clientSigningKey = [], serverSigningKey = [],
     clientHandle = \<lparr>rc4_key = [], rc4_pos = 0\<rparr>, serverHandle = \<lparr>rc4_key = [], rc4_pos = 0\<rparr>\<rparr>"

definition anonymousSession :: "ntlm_env \<Rightarrow> u32 \<Rightarrow> bytes \<Rightarrow> bool \<Rightarrow> ntlm_server \<Rightarrow> (ntlm_error + ntlm_server) go" where
  "anonymousSession E flags msg guest s =
     go_try (with_keys E flags (new_Session\<lparr>ns_anonymous := True, ns_guest := guest, negotiateFlags := flags,
                                            exportedSessionKey := replicate 16 0\<rparr>))
       (\<lambda>ses. Some (Inr (s\<lparr>ntlm_sess := Some ses, amsg := msg\<rparr>)))"

definition login_failure :: "(ntlm_error + 'a) go" where
  "login_failure = Some (Inl (NtlmError ''login failure''))"

text \<open>The check over all three messages, where the client's own pairs ask for it; it leaves the message with its field wiped.\<close>

definition check_MIC :: "ntlm_env \<Rightarrow> u32 \<Rightarrow> bytes \<Rightarrow> bytes \<Rightarrow> bytes \<Rightarrow> ntlm_server \<Rightarrow> (ntlm_error + bytes) go" where
  "check_MIC E flags targetInfo key msg s =
     do { pairs \<leftarrow> parseAvPairs targetInfo;
          case pairs of
            None \<Rightarrow> Some (Inr msg)
          | Some infoMap \<Rightarrow>
              (case infoMap MsvAvFlags of
                 None \<Rightarrow> Some (Inr msg)
               | Some avFlags \<Rightarrow>
                   if \<not> 4 \<le> length avFlags then Some (Inr msg)
                   else do {
                     fl \<leftarrow> Uint32_at 0 avFlags;
                     if fl AND 2 = 0 then Some (Inr msg)
                     else let off = (if flags AND NTLMSSP_NEGOTIATE_VERSION \<noteq> 0 then 72 else 64)
                          in if length msg < off + 16 then login_failure
                             else do {
                               MIC \<leftarrow> slice off (off + 16) msg;
                               msg \<leftarrow> copy_at off 16 (replicate 16 0) msg;
                               if MIC \<noteq> hmac_md5 E key (nmsg s @ cmsg s @ msg) then login_failure
                               else Some (Inr msg) } }) }"

definition exported_key :: "ntlm_env \<Rightarrow> u32 \<Rightarrow> bytes \<Rightarrow> bytes \<Rightarrow> (ntlm_error + bytes) go" where
  "exported_key E flags keyExchangeKey encrypted =
     (if flags AND NTLMSSP_NEGOTIATE_KEY_EXCH \<noteq> 0
      then if length encrypted \<noteq> 16 then login_failure
           else case rc4_NewCipher keyExchangeKey of
                  Inl e \<Rightarrow> Some (Inl e)
                | Inr h \<Rightarrow> Some (Inr (fst (rc4_XORKeyStream E encrypted h)))
      else Some (Inr keyExchangeKey))"

definition check_account :: "ntlm_env \<Rightarrow> u32 \<Rightarrow> string \<Rightarrow> string \<Rightarrow> Account \<Rightarrow> bytes \<Rightarrow> bytes \<Rightarrow> bytes \<Rightarrow> bytes \<Rightarrow> ntlm_server
    \<Rightarrow> (ntlm_error + ntlm_server) go" where
  "check_account E flags user wgrp acc response domainName encrypted msg s =
     (if length (acc_NTHash acc) = 0 then login_failure
      else if length response < ntlmv2ResponseMinSize then login_failure
      else if length (cmsg s) < 32 then login_failure
      else do {
        cc \<leftarrow> slice 16 (length response) response;
        let key = ntowfv2Hash E (EncodeStringToBytes (strings_ToUpper E user)) (acc_NTHash acc) domainName;
        serverChallenge \<leftarrow> slice 24 32 (cmsg s);
        timeStamp \<leftarrow> slice 8 16 cc;
        clientChallenge \<leftarrow> slice 16 24 cc;
        targetInfo \<leftarrow> slice 28 (length cc) cc;
        expected \<leftarrow> encodeNtlmv2Response E (length response) key serverChallenge clientChallenge timeStamp targetInfo;
        if response \<noteq> expected then login_failure
        else do {
          proof16 \<leftarrow> slice 0 16 response;
          let sessionBaseKey = hmac_md5 E key proof16;
          go_try (exported_key E flags sessionBaseKey encrypted) (\<lambda>xkey.
          go_try (check_MIC E flags targetInfo xkey msg s) (\<lambda>msg.
          go_try (with_keys E flags (new_Session\<lparr>ns_user := user, ns_domain := wgrp, ns_guest := Passwordless (ne_ext E) acc,
                                                negotiateFlags := flags, exportedSessionKey := xkey\<rparr>)) (\<lambda>ses.
          Some (Inr (s\<lparr>ntlm_sess := Some ses, amsg := msg\<rparr>))))) } })"

definition identify :: "ntlm_env \<Rightarrow> u32 \<Rightarrow> bytes \<Rightarrow> bytes \<Rightarrow> bytes \<Rightarrow> bytes \<Rightarrow> bytes \<Rightarrow> ntlm_server \<Rightarrow> (ntlm_error + ntlm_server) go" where
  "identify E flags response domainName uname encrypted msg s =
     (if length uname \<noteq> 0 \<or> length response \<noteq> 0
      then let user = strings_ToLower (ne_ext E) (DecodeToString uname);
               domain = (if length domainName \<noteq> 0 then strings_ToLower (ne_ext E) (DecodeToString domainName) else []);
               guestLogin = (anonymous s \<and> user = GuestAccount)
           in case resolveWorkgroup E domain of
                Inl err \<Rightarrow> if guestLogin then anonymousSession E flags msg True s else Some (Inl err)
              | Inr wgrp \<Rightarrow>
                  (case AS_FindAccount E user wgrp of
                     Inl err \<Rightarrow> if guestLogin then anonymousSession E flags msg True s else Some (Inl (NtlmStore err))
                   | Inr acc \<Rightarrow> check_account E flags user wgrp acc response domainName encrypted msg s)
      else if \<not> anonymous s then Some (Inl (NtlmError ''credential is empty''))
      else anonymousSession E flags msg False s)"

definition Authenticate :: "ntlm_env \<Rightarrow> bytes \<Rightarrow> ntlm_server \<Rightarrow> (ntlm_error + ntlm_server) go" where
  "Authenticate E msg s =
     (if length msg < 64 then Some (Inl (NtlmError ''message is too short''))
      else do {
        sig \<leftarrow> slice 0 8 msg;
        if sig \<noteq> ntlm_signature then Some (Inl (NtlmError ''invalid signature''))
        else do {
          t \<leftarrow> Uint32_at 8 msg;
          if t \<noteq> NtLmAuthenticate then Some (Inl (NtlmError ''invalid message type''))
          else do {
            flags \<leftarrow> Uint32_at 60 msg;
            go_try (ntlm_field 20 ''invalid NT challenge format'' msg) (\<lambda>response.
            go_try (ntlm_field 28 ''invalid domain name format'' msg) (\<lambda>domainName.
            go_try (ntlm_field 36 ''invalid user name format'' msg) (\<lambda>uname.
            go_try (ntlm_field 52 ''invalid session key format'' msg) (\<lambda>encrypted.
              identify E flags response domainName uname encrypted msg s)))) } } })"

subsection \<open>No answer makes the server panic\<close>

lemma safe_go_try [simp]: "safe (go_try m f) \<longleftrightarrow> safe m \<and> (\<forall>x. m = Some (Inr x) \<longrightarrow> safe (f x))"
  by (cases m) (auto simp: go_try_def split: sum.splits)

lemma go_try_Inr: "go_try m f = Some (Inr y) \<longleftrightarrow> (\<exists>x. m = Some (Inr x) \<and> f x = Some (Inr y))"
  by (auto simp: go_try_def split: option.splits sum.splits)

lemma safe_copy_at [simp]: "safe (copy_at off k src h) \<longleftrightarrow> off + k \<le> length h"
  by (auto simp: copy_at_def min_def)

lemma copy_at_length: "copy_at off k src h = Some h' \<Longrightarrow> length h' = length h"
  by (auto simp: copy_at_def bind_eq_Some_conv dest: put_at_length)

lemma unat_u16_less: "unat (n :: u16) < 65536"
  using unsigned_less[of n, where ?'a = nat] by simp

lemma unat_u32_less: "unat (n :: u32) < 2 ^ 32"
  using unsigned_less[of n, where ?'a = nat] by simp

lemma fits_unat:
  assumes "ntlm_fits (ucast (off :: u32)) (ucast (len :: u16)) (of_nat n)" "n < 2 ^ 32"
  shows "unat off + unat len \<le> n" "unat (off + ucast len) = unat off + unat len"
proof -
  have l: "unat (ucast off :: u64) = unat off" "unat (ucast len :: u64) = unat len" "unat (ucast len :: u32) = unat len"
    using unat_u16_less[of len] unat_u32_less[of off] by (simp_all add: unsigned_ucast_eq take_bit_eq_mod)
  have "unat (ucast off + ucast len :: u64) = unat off + unat len"
    using unat_u16_less[of len] unat_u32_less[of off] by (simp add: unat_word_ariths l)
  moreover have "unat (of_nat n :: u64) = n" using assms(2) by (simp add: unat_of_nat)
  ultimately show *: "unat off + unat len \<le> n" using assms(1) by (simp add: ntlm_fits_def word_le_nat_alt)
  show "unat (off + ucast len) = unat off + unat len"
    using * assms(2) by (simp add: unat_word_ariths l)
qed

lemma ntlm_field_safe: "at + 8 \<le> length msg \<Longrightarrow> length msg < 2 ^ 32 \<Longrightarrow> safe (ntlm_field at err msg)"
  using fits_unat by (auto simp: ntlm_field_def)

lemma parseAvPairs_loop_safe: "safe (parseAvPairs_loop bs pairs)"
proof (induction bs pairs rule: parseAvPairs_loop.induct)
  case (1 bs pairs)
  then show ?case by (subst parseAvPairs_loop.simps) (auto simp: fun_upd_def)
qed

lemma parseAvPairs_safe: "safe (parseAvPairs bs)"
  by (auto simp: parseAvPairs_def parseAvPairs_loop_safe)

lemma sealKey_safe: "7 \<le> length key \<Longrightarrow> safe (sealKey E flags key fromClient)"
  by (auto simp: sealKey_def)

lemma with_keys_safe: "7 \<le> length (exportedSessionKey s) \<Longrightarrow> safe (with_keys E flags s)"
  by (auto simp: with_keys_def Let_def sealKey_safe split: sum.splits)

lemma check_MIC_safe: "safe (check_MIC E flags info key msg s)"
  by (auto simp: check_MIC_def parseAvPairs_safe login_failure_def Let_def split: option.splits)

lemma exported_key_safe: "safe (exported_key E flags key enc)"
  by (auto simp: exported_key_def login_failure_def split: sum.splits)

lemma exported_key_length:
  "length key = 16 \<Longrightarrow> exported_key E flags key enc = Some (Inr k) \<Longrightarrow> length k = 16"
  by (auto simp: exported_key_def login_failure_def rc4_XORKeyStream_def split: if_splits sum.splits)

lemma encodeNtlmv2Response_safe:
  "44 \<le> n \<Longrightarrow> safe (encodeNtlmv2Response E n key sc cc ts info)"
  by (auto simp: encodeNtlmv2Response_def slice_Some dest!: copy_at_length put_at_length)

lemma check_account_safe:
  assumes "hash_sizes E"
  shows "safe (check_account E flags user wgrp acc response domainName encrypted msg s)"
proof -
  have h: "length (hmac_md5 E k m) = 16" for k m using assms by (simp add: hash_sizes_def)
  show ?thesis
    using encodeNtlmv2Response_safe[of "length response" E] exported_key_length[OF h]
    by (auto simp: check_account_def login_failure_def ntlmv2ResponseMinSize_def slice_Some exported_key_safe check_MIC_safe Let_def
        intro!: with_keys_safe)
qed

lemma anonymousSession_safe: "safe (anonymousSession E flags msg guest s)"
  by (auto simp: anonymousSession_def intro!: with_keys_safe)


subsection \<open>Who is let in\<close>

text \<open>The answer to a challenge under a key: the code over the challenge and the client's own, and the client's own behind it.\<close>

definition answers :: "ntlm_env \<Rightarrow> bytes \<Rightarrow> bytes \<Rightarrow> bytes \<Rightarrow> bool" where
  "answers E key challenge response \<longleftrightarrow> 44 \<le> length response \<and>
     take 16 response = take 16 (hmac_md5 E key (challenge @ drop 16 response))"

lemma encodeNtlmv2Response_tail:
  assumes "encodeNtlmv2Response E n key sc cc ts info = Some r" "hash_sizes E"
  shows "take 16 r = take 16 (hmac_md5 E key (sc @ drop 16 r))"
  using assms by (auto simp: encodeNtlmv2Response_def hash_sizes_def bind_eq_Some_conv)

lemma with_keys_keeps:
  "with_keys E flags s = Some (Inr ses) \<Longrightarrow>
    ns_user ses = ns_user s \<and> ns_domain ses = ns_domain s \<and> ns_anonymous ses = ns_anonymous s \<and> ns_guest ses = ns_guest s
    \<and> exportedSessionKey ses = exportedSessionKey s"
  by (auto simp: with_keys_def Let_def bind_eq_Some_conv go_try_Inr)

lemma check_account_sound:
  assumes "check_account E flags user wgrp acc response domainName encrypted msg s = Some (Inr s')" "hash_sizes E"
  shows "acc_NTHash acc \<noteq> [] \<and> 32 \<le> length (cmsg s)
    \<and> answers E (ntowfv2Hash E (EncodeStringToBytes (strings_ToUpper E user)) (acc_NTHash acc) domainName) (take 8 (drop 24 (cmsg s))) response
    \<and> (\<exists>ses. ntlm_sess s' = Some ses \<and> ns_user ses = user \<and> ns_domain ses = wgrp \<and> \<not> ns_anonymous ses
           \<and> (ns_guest ses \<longleftrightarrow> Passwordless (ne_ext E) acc))"
  using assms encodeNtlmv2Response_tail[OF _ assms(2)]
  by (auto simp: check_account_def login_failure_def ntlmv2ResponseMinSize_def answers_def slice_Some go_try_Inr bind_eq_Some_conv
      new_Session_def Let_def dest!: with_keys_keeps split: if_splits)

lemma anonymousSession_sound:
  "anonymousSession E flags msg guest s = Some (Inr s') \<Longrightarrow>
    \<exists>ses. ntlm_sess s' = Some ses \<and> ns_anonymous ses \<and> ns_user ses = [] \<and> exportedSessionKey ses = replicate 16 0"
  by (auto simp: anonymousSession_def go_try_Inr new_Session_def dest!: with_keys_keeps)

lemma identify_cases:
  "identify E flags response domainName uname encrypted msg s = Some (Inr s') \<Longrightarrow>
    (\<exists>guest. anonymous s \<and> anonymousSession E flags msg guest s = Some (Inr s'))
    \<or> (\<exists>user wgrp acc. AS_FindAccount E user wgrp = Inr acc \<and> check_account E flags user wgrp acc response domainName encrypted msg s = Some (Inr s'))"
  unfolding identify_def Let_def by (auto split: if_split_asm sum.split_asm)

lemma Authenticate_Inr:
  assumes "Authenticate E msg s = Some (Inr s')"
  obtains flags response domainName uname encrypted where
    "ntlm_field 20 ''invalid NT challenge format'' msg = Some (Inr response)"
    "ntlm_field 28 ''invalid domain name format'' msg = Some (Inr domainName)"
    "identify E flags response domainName uname encrypted msg s = Some (Inr s')"
  using assms by (auto simp: Authenticate_def go_try_Inr bind_eq_Some_conv split: if_splits)

text \<open>
  What the package asks of an account store: an account is handed out only under the name and the workgroup it is
  kept under. \<open>held\<close> is what the store keeps: names, workgroups and password hashes.
\<close>

locale account_store =
  fixes FA :: "string \<Rightarrow> string \<Rightarrow> json_error + Account"
    and held :: "string \<Rightarrow> string \<Rightarrow> bytes \<Rightarrow> bool"
  assumes found_is_held: "FA user wgrp = Inr acc \<Longrightarrow> held user wgrp (acc_NTHash acc)"
begin

lemma login_sound:
  assumes "hash_sizes E" "AS_FindAccount E = FA" "Authenticate E msg s = Some (Inr s')"
  shows "\<exists>ses. ntlm_sess s' = Some ses \<and>
    (if ns_anonymous ses then anonymous s \<and> ns_user ses = [] \<and> exportedSessionKey ses = replicate 16 0
     else \<exists>hash response domainName. held (ns_user ses) (ns_domain ses) hash \<and> hash \<noteq> []
       \<and> ntlm_field 20 ''invalid NT challenge format'' msg = Some (Inr response)
       \<and> ntlm_field 28 ''invalid domain name format'' msg = Some (Inr domainName)
       \<and> 32 \<le> length (cmsg s)
       \<and> answers E (ntowfv2Hash E (EncodeStringToBytes (strings_ToUpper E (ns_user ses))) hash domainName) (take 8 (drop 24 (cmsg s))) response)"
proof -
  obtain flags response domainName uname encrypted where f:
    "ntlm_field 20 ''invalid NT challenge format'' msg = Some (Inr response)"
    "ntlm_field 28 ''invalid domain name format'' msg = Some (Inr domainName)"
    and r: "(\<exists>guest. anonymous s \<and> anonymousSession E flags msg guest s = Some (Inr s'))
      \<or> (\<exists>user wgrp acc. FA user wgrp = Inr acc \<and> check_account E flags user wgrp acc response domainName encrypted msg s = Some (Inr s'))"
    using Authenticate_Inr[OF assms(3)] identify_cases unfolding assms(2)[symmetric] by metis
  from r show ?thesis
  proof (elim disjE exE conjE)
    fix guest assume "anonymous s" "anonymousSession E flags msg guest s = Some (Inr s')"
    then show ?thesis using anonymousSession_sound by fastforce
  next
    fix user wgrp acc
    assume a: "FA user wgrp = Inr acc" and c: "check_account E flags user wgrp acc response domainName encrypted msg s = Some (Inr s')"
    from check_account_sound[OF c assms(1)] obtain ses where
      "ntlm_sess s' = Some ses" "ns_user ses = user" "ns_domain ses = wgrp" "\<not> ns_anonymous ses"
      "acc_NTHash acc \<noteq> []" "32 \<le> length (cmsg s)"
      "answers E (ntowfv2Hash E (EncodeStringToBytes (strings_ToUpper E user)) (acc_NTHash acc) domainName) (take 8 (drop 24 (cmsg s))) response"
      by blast
    then show ?thesis using f found_is_held[OF a] by (auto intro!: exI[of _ "acc_NTHash acc"])
  qed
qed

end

text \<open>The store of the Lite mode is such a store.\<close>

definition json_held :: "JSONStore \<Rightarrow> string \<Rightarrow> string \<Rightarrow> bytes \<Rightarrow> bool" where
  "json_held js user wgrp hash \<longleftrightarrow> (\<exists>a \<in> set (Accounts (js_data js)). ja_Username a = user \<and> ja_Workgroup a = wgrp \<and> ja_NTHash a = hash)"

interpretation json_accounts: account_store "FindAccount X js" "json_held js" for X js
proof unfold_locales
  fix user wgrp acc assume "FindAccount X js user wgrp = Inr acc"
  then show "json_held js user wgrp (acc_NTHash acc)"
    by (auto simp: FindAccount_def json_held_def accountOf_def find_Some_iff split: sum.splits option.splits)
qed

text \<open>C6 (ntlm_login_proves_key). A login that succeeds is one of two things. Either it has no identity, which the server has to be
  set to admit; or it is an account of the store, under the name and the workgroup the session carries, and the
  client's response is the code over the challenge this server gave, under the key of that account's password.\<close>

theorem ntlm_login_proves_key:
  assumes "hash_sizes E" "AS_FindAccount E = FindAccount (ne_ext E) js" "Authenticate E msg s = Some (Inr s')"
  shows "\<exists>ses. ntlm_sess s' = Some ses \<and>
    (if ns_anonymous ses then anonymous s \<and> ns_user ses = [] \<and> exportedSessionKey ses = replicate 16 0
     else \<exists>hash response domainName. json_held js (ns_user ses) (ns_domain ses) hash \<and> hash \<noteq> []
       \<and> ntlm_field 20 ''invalid NT challenge format'' msg = Some (Inr response)
       \<and> ntlm_field 28 ''invalid domain name format'' msg = Some (Inr domainName)
       \<and> 32 \<le> length (cmsg s)
       \<and> answers E (ntowfv2Hash E (EncodeStringToBytes (strings_ToUpper E (ns_user ses))) hash domainName) (take 8 (drop 24 (cmsg s))) response)"
  by (rule json_accounts.login_sound[OF assms])

subsection \<open>The challenge\<close>

text \<open>One pair of the target information, and what is behind it.\<close>

definition put_pair :: "nat \<Rightarrow> u16 \<Rightarrow> bytes \<Rightarrow> bytes \<Rightarrow> bytes go" where
  "put_pair off avId v buf =
     do { buf \<leftarrow> PutUint16_at off avId buf;
          buf \<leftarrow> PutUint16_at (off + 2) (of_nat (length v)) buf;
          copy_at (off + 4) (length v) v buf }"

definition put_target_info :: "nat \<Rightarrow> bytes \<Rightarrow> bytes \<Rightarrow> bytes \<Rightarrow> u64 \<Rightarrow> bytes \<Rightarrow> bytes go" where
  "put_target_info off name nameLow domain now buf =
     do { let offset = off;
          buf \<leftarrow> put_pair offset MsvAvNbComputerName name buf;
          let len = 4 + length name; let offset = offset + len;
          buf \<leftarrow> put_pair offset MsvAvNbDomainName name buf;
          let len = len + (4 + length name); let offset = offset + (4 + length name);
          buf \<leftarrow> put_pair offset MsvAvDnsComputerName nameLow buf;
          let len = len + (4 + length nameLow); let offset = offset + (4 + length nameLow);
          buf \<leftarrow> put_pair offset MsvAvDnsDomainName domain buf;
          let len = len + (4 + length domain); let offset = offset + (4 + length domain);
          buf \<leftarrow> PutUint16_at offset MsvAvTimestamp buf;
          buf \<leftarrow> PutUint16_at (offset + 2) 8 buf;
          buf \<leftarrow> PutUint64_at (offset + 4) now buf;
          let len = len + 12; let offset = offset + 12;
          buf \<leftarrow> copy_at offset 4 [0, 0, 0, 0] buf;
          let len = len + 4;
          buf \<leftarrow> PutUint16_at 40 (of_nat len) buf;
          buf \<leftarrow> PutUint16_at 42 (of_nat len) buf;
          PutUint32_at 44 (of_nat off) buf }"

definition put_target_name :: "nat \<Rightarrow> bytes \<Rightarrow> bytes \<Rightarrow> (nat \<times> bytes) go" where
  "put_target_name off name buf =
     do { buf \<leftarrow> copy_at off (length name) name buf;
          buf \<leftarrow> PutUint16_at 12 (of_nat (length name)) buf;
          buf \<leftarrow> PutUint16_at 14 (of_nat (length name)) buf;
          buf \<leftarrow> PutUint32_at 16 (of_nat off) buf;
          Some (off + length name, buf) }"

definition challenge_flags :: "u32 \<Rightarrow> u32" where
  "challenge_flags f = (f AND ntlm_defaultFlags) OR NTLMSSP_NEGOTIATE_TARGET_INFO OR NTLMSSP_TARGET_TYPE_SERVER"

definition challenge_body :: "bytes \<Rightarrow> bytes \<Rightarrow> bytes \<Rightarrow> u32 \<Rightarrow> u64 \<Rightarrow> bytes go" where
  "challenge_body name nameLow domain flags now =
     (let off = 48 + (if flags AND NTLMSSP_NEGOTIATE_VERSION \<noteq> 0 then 8 else 0);
          len = length name + (if flags AND NTLMSSP_NEGOTIATE_TARGET_INFO \<noteq> 0
                  then (length name + 4) + (length name + 4) + (length nameLow + 4) + (length domain + 4) + (8 + 4) + 4 else 0)
      in do {
        let buf = replicate (off + len) 0;
        buf \<leftarrow> copy_at 0 8 ntlm_signature buf;
        buf \<leftarrow> PutUint32_at 8 NtLmChallenge buf;
        buf \<leftarrow> PutUint32_at 20 flags buf;
        (off, buf) \<leftarrow> (if flags AND NTLMSSP_REQUEST_TARGET \<noteq> 0 then put_target_name off name buf else Some (off, buf));
        (if flags AND NTLMSSP_NEGOTIATE_TARGET_INFO \<noteq> 0 then put_target_info off name nameLow domain now buf else Some buf) })"

definition build_challenge :: "bytes \<Rightarrow> bytes \<Rightarrow> bytes \<Rightarrow> u32 \<Rightarrow> bytes \<Rightarrow> u64 \<Rightarrow> bytes go" where
  "build_challenge name nameLow domain flags rnd now =
     do { buf \<leftarrow> challenge_body name nameLow domain flags now;
          buf \<leftarrow> copy_at 24 8 rnd buf;
          (if flags AND NTLMSSP_NEGOTIATE_VERSION \<noteq> 0 then copy_at 48 8 ntlm_version buf else Some buf) }"

definition Challenge :: "ntlm_env \<Rightarrow> bytes \<Rightarrow> u64 \<Rightarrow> bytes \<Rightarrow> ntlm_server \<Rightarrow> (ntlm_server \<times> (ntlm_error + bytes)) go" where
  "Challenge E rnd now msg s =
     (let s = s\<lparr>nmsg := msg\<rparr> in
      if length msg < 32 then Some (s, Inl (NtlmError ''message length is too short''))
      else do {
        sig \<leftarrow> slice 0 8 msg;
        if sig \<noteq> ntlm_signature then Some (s, Inl (NtlmError ''invalid signature''))
        else do {
          t \<leftarrow> Uint32_at 8 msg;
          if t \<noteq> NtLmNegotiate then Some (s, Inl (NtlmError ''invalid message type''))
          else do {
            f \<leftarrow> Uint32_at 12 msg;
            buf \<leftarrow> build_challenge (EncodeStringToBytes (targetName s)) (EncodeStringToBytes (strings_ToLower (ne_ext E) (targetName s)))
                     (EncodeStringToBytes (targetDomain s)) (challenge_flags f) rnd now;
            Some (s\<lparr>cmsg := buf\<rparr>, Inr buf) } } })"

text \<open>The signature of an answer, once there is a session.\<close>

definition ntlm_Signature :: "ntlm_env \<Rightarrow> ntlm_server \<Rightarrow> bytes option go" where
  "ntlm_Signature E s =
     (case ntlm_sess s of
        None \<Rightarrow> Some None
      | Some ses \<Rightarrow>
          if length (amsg s) < 64 then Some None
          else do {
            flags \<leftarrow> Uint32_at 60 (amsg s);
            let off = (if flags AND NTLMSSP_NEGOTIATE_VERSION \<noteq> 0 then 72 else 64);
            if length (amsg s) < off + 16 then Some None
            else do {
              a \<leftarrow> slice 0 off (amsg s);
              b \<leftarrow> slice (off + 16) (length (amsg s)) (amsg s);
              Some (Some (hmac_md5 E (exportedSessionKey ses) (nmsg s @ cmsg s @ a @ replicate 16 0 @ b))) } })"

lemma put_pair_safe: "off + 4 + length v \<le> length buf \<Longrightarrow> safe (put_pair off avId v buf)"
  by (auto simp: put_pair_def uint_at_defs dest!: put_word_length)

lemma put_pair_length: "put_pair off avId v buf = Some buf' \<Longrightarrow> length buf' = length buf"
  by (auto simp: put_pair_def uint_at_defs bind_eq_Some_conv dest!: put_word_length copy_at_length)

lemmas ntlm_put_lengths = put_pair_length put_word_length copy_at_length put_at_length

lemma put_target_info_length: "put_target_info off name nameLow domain now buf = Some buf' \<Longrightarrow> length buf' = length buf"
  unfolding put_target_info_def uint_at_defs Let_def by (auto simp: bind_eq_Some_conv dest!: ntlm_put_lengths)

lemma put_target_info_safe:
  assumes "48 \<le> off" "off + 2 * length name + length nameLow + length domain + 32 \<le> length buf"
  shows "safe (put_target_info off name nameLow domain now buf)"
  using assms unfolding put_target_info_def uint_at_defs Let_def by (auto dest!: ntlm_put_lengths intro!: put_pair_safe)

lemma put_target_name_safe:
  "20 \<le> off \<Longrightarrow> off + length name \<le> length buf \<Longrightarrow> safe (put_target_name off name buf)"
  unfolding put_target_name_def uint_at_defs by (auto dest!: ntlm_put_lengths)

lemma put_target_name_result:
  "put_target_name off name buf = Some (off', buf') \<Longrightarrow> off' = off + length name \<and> length buf' = length buf"
  unfolding put_target_name_def uint_at_defs by (auto simp: bind_eq_Some_conv dest!: ntlm_put_lengths)

lemma challenge_body_safe: "safe (challenge_body name nameLow domain flags now)"
  unfolding challenge_body_def uint_at_defs Let_def
  by (auto dest!: ntlm_put_lengths put_target_info_length put_target_name_result intro!: put_target_info_safe put_target_name_safe)

lemma challenge_body_length:
  "challenge_body name nameLow domain flags now = Some buf \<Longrightarrow>
    (if flags AND NTLMSSP_NEGOTIATE_VERSION \<noteq> 0 then 56 else 48) \<le> length buf"
  unfolding challenge_body_def uint_at_defs Let_def
  by (auto simp: bind_eq_Some_conv dest!: ntlm_put_lengths put_target_info_length put_target_name_result split: if_split_asm)

lemma build_challenge_safe: "safe (build_challenge name nameLow domain flags rnd now)"
  using challenge_body_length[of name nameLow domain flags now]
  by (auto simp: build_challenge_def challenge_body_safe split: if_split_asm dest!: copy_at_length)

lemma copy_at_slice: "copy_at off k src h = Some h' \<Longrightarrow> length src = k \<Longrightarrow> slice off (off + k) h' = Some src"
  by (auto simp: copy_at_def bind_eq_Some_conv dest: slice_put_same)

lemma copy_at_slice_other: "copy_at off k src h = Some h' \<Longrightarrow> b \<le> off \<Longrightarrow> slice a b h' = slice a b h"
  by (auto simp: copy_at_def bind_eq_Some_conv dest!: slice_put_other)

lemma build_challenge_random:
  assumes "build_challenge name nameLow domain flags rnd now = Some buf" "length rnd = 8"
  shows "slice 24 32 buf = Some rnd"
proof -
  from assms(1) obtain b0 b1 where "copy_at 24 8 rnd b0 = Some b1" "buf = b1 \<or> copy_at 48 8 ntlm_version b1 = Some buf"
    by (auto simp: build_challenge_def bind_eq_Some_conv split: if_split_asm)
  then show ?thesis using copy_at_slice[of 24 8 rnd b0 b1] copy_at_slice_other[of 48 8 ntlm_version b1 buf 32 24] assms(2) by auto
qed

text \<open>Asking for a challenge never panics; when one is given, it is the random eight bytes that a
  later answer is checked against.\<close>

theorem ntlm_challenge_is_what_is_answered:
  assumes "length rnd = 8"
  shows "\<exists>s' r. Challenge E rnd now msg s = Some (s', r)
    \<and> (\<forall>buf. r = Inr buf \<longrightarrow> cmsg s' = buf \<and> 32 \<le> length (cmsg s') \<and> take 8 (drop 24 (cmsg s')) = rnd)"
proof -
  have "safe (Challenge E rnd now msg s)" by (auto simp: Challenge_def Let_def build_challenge_safe)
  then obtain s' r where c: "Challenge E rnd now msg s = Some (s', r)" by (auto simp: safe_def)
  have "cmsg s' = buf \<and> 32 \<le> length (cmsg s') \<and> take 8 (drop 24 (cmsg s')) = rnd" if "r = Inr buf" for buf
  proof -
    from c that obtain a b d f where "build_challenge a b d f rnd now = Some buf" "cmsg s' = buf"
      by (auto simp: Challenge_def Let_def bind_eq_Some_conv split: if_split_asm)
    then show ?thesis using build_challenge_random[OF _ assms] by (auto simp: slice_Some)
  qed
  then show ?thesis using c by blast
qed

subsection \<open>A login\<close>

text \<open>A store with one account, a server that has given a challenge, and the message of a client that knows the key.\<close>

definition login_lib :: extlib where
  "login_lib = \<lparr>uuid_Parse = (\<lambda>s. if length s = 2 then Inr (map (\<lambda>c. of_nat (of_char c)) s) else Inl ErrLiteMode),
     uuid_String = (\<lambda>u. map (\<lambda>b. char_of (unat b)) u), strings_ToLower = (\<lambda>s. s), strings_EqualFold = (=),
     md4_Sum = (\<lambda>bs. take 16 (bs @ replicate 16 0)), json_Marshal = (\<lambda>d. []), json_Unmarshal = (\<lambda>s d. Inr d)\<rparr>"

definition login_store :: JSONStore where
  "login_store = \<lparr>js_file = None, js_data = initialData\<lparr>Accounts := [\<lparr>ja_ID = 1, ja_Username = ''u'', ja_NTHash = [1], ja_Workgroup = ''wg''\<rparr>]\<rparr>\<rparr>"

definition login_env :: ntlm_env where
  "login_env = \<lparr>ne_ext = login_lib, strings_ToUpper = (\<lambda>s. s), hmac_md5 = (\<lambda>k m. replicate 16 (of_nat (length m))),
     md5_Sum = (\<lambda>m. replicate 16 0), rc4_stream = (\<lambda>k i. 0), AS_FindAccount = FindAccount login_lib login_store,
     AS_FindWorkgroupByName = (\<lambda>n. Inr (FindWorkgroupByName login_lib login_store n))\<rparr>"

definition login_server :: ntlm_server where
  "login_server = (ntlm_NewServer ''S'' [] False)\<lparr>cmsg := replicate 32 0\<rparr>"

definition login_message :: bytes where
  "login_message = [78, 84, 76, 77, 83, 83, 80, 0, 3, 0, 0, 0, 0, 0, 0, 0, 0, 0, 0, 0, 44, 0, 44, 0, 70, 0, 0, 0,
     4, 0, 4, 0, 64, 0, 0, 0, 2, 0, 2, 0, 68, 0, 0, 0, 0, 0, 0, 0, 0, 0, 0, 0, 0, 0, 0, 0,
     0, 0, 0, 0, 0, 0, 0, 0, 119, 0, 103, 0, 117, 0, 36, 36, 36, 36, 36, 36, 36, 36, 36, 36, 36, 36, 36, 36,
     36, 36, 1, 1, 0, 0, 0, 0, 0, 0, 0, 0, 0, 0, 0, 0, 0, 0, 0, 0, 0, 0, 0, 0, 0, 0, 0, 0,
     0, 0]"

lemma login_sizes: "hash_sizes login_env"
  by (simp add: hash_sizes_def login_env_def)

lemma login_fields:
  "ntlm_field 20 err login_message = Some (Inr ([36, 36, 36, 36, 36, 36, 36, 36, 36, 36, 36, 36, 36, 36, 36, 36, 1, 1,
     0, 0, 0, 0, 0, 0, 0, 0, 0, 0, 0, 0, 0, 0, 0, 0, 0, 0, 0, 0, 0, 0, 0, 0, 0, 0]))"
  "ntlm_field 28 err login_message = Some (Inr [119, 0, 103, 0])"
  "ntlm_field 36 err login_message = Some (Inr [117, 0])"
  "ntlm_field 52 err login_message = Some (Inr [])"
  by (simp_all add: ntlm_field_def login_message_def uint_at_defs word_at_def slice_def ntlm_fits_def)

lemma login_chars: "char_of (119 :: nat) = CHR ''w''" "char_of (103 :: nat) = CHR ''g''" "char_of (117 :: nat) = CHR ''u''"
  by code_simp+

lemma login_names: "DecodeToString [119, 0, 103, 0] = ''wg''" "DecodeToString [117, 0] = ''u''"
  by (simp_all add: DecodeToString_def Uint16_def string_of_def encodeRune_def valid_rune_def login_chars)

lemma login_lookup:
  "resolveWorkgroup login_env ''wg'' = Inr ''wg''"
  "AS_FindAccount login_env ''u'' ''wg'' = Inr \<lparr>acc_ID = 1, acc_Username = ''u'', acc_Password = [], acc_NTHash = [1], acc_Workgroup = ''wg''\<rparr>"
proof -
  have "[119, 103] \<noteq> replicate 16 (0 :: byte)" by (auto dest: arg_cong[of _ _ length])
  then show "resolveWorkgroup login_env ''wg'' = Inr ''wg''"
    by (simp add: resolveWorkgroup_def login_env_def login_lib_def AnonymousWorkgroup_def login_chars)
  show "AS_FindAccount login_env ''u'' ''wg'' = Inr \<lparr>acc_ID = 1, acc_Username = ''u'', acc_Password = [], acc_NTHash = [1], acc_Workgroup = ''wg''\<rparr>"
    by (simp add: login_env_def login_lib_def FindAccount_def login_store_def accountOf_def)
qed

lemma login_works:
  "\<exists>s' ses. Authenticate login_env login_message login_server = Some (Inr s') \<and> ntlm_sess s' = Some ses
    \<and> ns_user ses = ''u'' \<and> ns_domain ses = ''wg'' \<and> \<not> ns_anonymous ses"
proof -
  let ?r = "[36, 36, 36, 36, 36, 36, 36, 36, 36, 36, 36, 36, 36, 36, 36, 36, 1, 1,
     0, 0, 0, 0, 0, 0, 0, 0, 0, 0, 0, 0, 0, 0, 0, 0, 0, 0, 0, 0, 0, 0, 0, 0, 0, 0] :: bytes"
  and ?acc = "\<lparr>acc_ID = 1, acc_Username = ''u'', acc_Password = [], acc_NTHash = [1 :: byte], acc_Workgroup = ''wg''\<rparr>"
  have h: "slice 0 8 login_message = Some ntlm_signature" "Uint32_at 8 login_message = Some NtLmAuthenticate"
    "Uint32_at 60 login_message = Some 0" "length login_message = 114"
    by (simp_all add: login_message_def slice_def ntlm_signature_def uint_at_defs word_at_def NtLmAuthenticate_def)
  have l: "strings_ToLower (ne_ext login_env) x = x" for x by (simp add: login_env_def login_lib_def)
  have c: "\<exists>s' ses. check_account login_env 0 ''u'' ''wg'' ?acc ?r [119, 0, 103, 0] [] login_message login_server = Some (Inr s')
    \<and> ntlm_sess s' = Some ses \<and> ns_user ses = ''u'' \<and> ns_domain ses = ''wg'' \<and> \<not> ns_anonymous ses"
  proof -
    have r: "?r = replicate 16 36 @ [1, 1] @ replicate 26 0" by (simp add: numeral_eq_Suc)
    have e: "encodeNtlmv2Response login_env 44 key (replicate 8 0) (replicate 8 0) (replicate 8 0) [] = Some ?r" for key
      unfolding r by (simp add: encodeNtlmv2Response_def slice_def put_at_def copy_at_def login_env_def replicate_add[symmetric])
    have n: "check_MIC login_env 0 [] key login_message login_server = Some (Inr login_message)" for key
      by (simp add: check_MIC_def parseAvPairs_def)
    have k: "with_keys login_env 0 ses = Some (Inr (ses\<lparr>clientSigningKey := [], serverSigningKey := [],
        clientHandle := \<lparr>rc4_key = exportedSessionKey ses, rc4_pos = 0\<rparr>, serverHandle := \<lparr>rc4_key = exportedSessionKey ses, rc4_pos = 0\<rparr>\<rparr>))"
      if "length (exportedSessionKey ses) = 16" for ses
      using that by (auto simp: with_keys_def signKey_def sealKey_def rc4_NewCipher_def go_try_def Let_def)
    show ?thesis
      using e n k unfolding r by (simp add: check_account_def ntlmv2ResponseMinSize_def login_server_def slice_def exported_key_def go_try_def
          new_Session_def login_env_def Let_def)
  qed
  have "Authenticate login_env login_message login_server
    = check_account login_env 0 ''u'' ''wg'' ?acc ?r [119, 0, 103, 0] [] login_message login_server"
    by (simp add: Authenticate_def h login_fields go_try_def identify_def login_names l login_lookup Let_def)
  then show ?thesis using c by simp
qed


theorem ntlm_login_proves_key_witness:
  "\<exists>s' ses hash response domainName. Authenticate login_env login_message login_server = Some (Inr s') \<and> ntlm_sess s' = Some ses
    \<and> ns_user ses = ''u'' \<and> json_held login_store ''u'' ''wg'' hash
    \<and> answers login_env (ntowfv2Hash login_env (EncodeStringToBytes (strings_ToUpper login_env ''u'')) hash domainName)
        (take 8 (drop 24 (cmsg login_server))) response"
proof -
  obtain s' ses where a: "Authenticate login_env login_message login_server = Some (Inr s')" "ntlm_sess s' = Some ses"
    "ns_user ses = ''u''" "ns_domain ses = ''wg''" "\<not> ns_anonymous ses" using login_works by blast
  have "AS_FindAccount login_env = FindAccount (ne_ext login_env) login_store" by (simp add: login_env_def)
  from ntlm_login_proves_key[OF login_sizes this a(1)] a show ?thesis by auto
qed


theorem ntlm_challenge_is_what_is_answered_witness:
  "\<exists>s' r. Challenge login_env (replicate 8 7) 0 [] login_server = Some (s', r)"
  using ntlm_challenge_is_what_is_answered[of "replicate 8 7" login_env 0 "[]" login_server] by auto

end
