(* ===== verification/Ntlm_Session.thy ===== *)
theory Ntlm_Session
  imports Ntlm
begin

section \<open>The messages of an NTLM session\<close>

text \<open>
  \<^verbatim>\<open>src/ntlm/session.go\<close> and the checksum of \<^verbatim>\<open>ntlm.go\<close>: what either side of a session signs and seals. The two
  sides hold the same keys and a cipher each for either direction, which moves on with every use; so the two have to
  use them in step. Shown: a checksum of one side is taken by the other and leaves them in step. Sealing is not so:
  both sides seal with the cipher of the client and unseal with that of the server.
\<close>

unbundle bit_operations_syntax

definition crc32_bytes :: "(bytes \<Rightarrow> u32) \<Rightarrow> bytes \<Rightarrow> bytes" where
  "crc32_bytes crc msg = to_le 4 (uint (crc msg))"

text \<open>The signature of a message, the number of the next one, and the cipher behind it.\<close>

definition ntlm_mac :: "ntlm_env \<Rightarrow> (bytes \<Rightarrow> u32) \<Rightarrow> u32 \<Rightarrow> rc4_Cipher \<Rightarrow> bytes \<Rightarrow> u32 \<Rightarrow> bytes \<Rightarrow> bytes \<times> u32 \<times> rc4_Cipher" where
  "ntlm_mac E crc flags h key seqNum msg =
     (if flags AND NTLMSSP_NEGOTIATE_EXTENDED_SESSIONSECURITY = 0
      then let (_, h) = rc4_XORKeyStream E [0, 0, 0, 0] h;
               (c, h) = rc4_XORKeyStream E (crc32_bytes crc msg) h;
               (n, h) = rc4_XORKeyStream E [0, 0, 0, 0] h;
               n = map2 (XOR) n (to_le 4 (uint seqNum))
           in ([1, 0, 0, 0] @ [0, 0, 0, 0] @ c @ n, (if flags AND NTLMSSP_NEGOTIATE_DATAGRAM = 0 then seqNum + 1 else seqNum), h)
      else let chk = take 8 (hmac_md5 E key (to_le 4 (uint seqNum) @ msg));
               (chk, h) = (if flags AND NTLMSSP_NEGOTIATE_KEY_EXCH \<noteq> 0 then rc4_XORKeyStream E chk h else (chk, h))
           in ([1, 0, 0, 0] @ chk @ to_le 4 (uint seqNum), seqNum + 1, h))"

text \<open>\<open>None\<close> stands for a nil signature, which is what there is without the flag.\<close>

definition ntlm_Sum :: "ntlm_env \<Rightarrow> (bytes \<Rightarrow> u32) \<Rightarrow> bytes \<Rightarrow> u32 \<Rightarrow> ntlm_session \<Rightarrow> (bytes option \<times> u32) \<times> ntlm_session" where
  "ntlm_Sum E crc plaintext seqNum s =
     (if negotiateFlags s AND NTLMSSP_NEGOTIATE_SIGN = 0 then ((None, 0), s)
      else if isClientSide s
      then case ntlm_mac E crc (negotiateFlags s) (clientHandle s) (clientSigningKey s) seqNum plaintext of
             (ret, n, h) \<Rightarrow> ((Some ret, n), s\<lparr>clientHandle := h\<rparr>)
      else case ntlm_mac E crc (negotiateFlags s) (serverHandle s) (serverSigningKey s) seqNum plaintext of
             (ret, n, h) \<Rightarrow> ((Some ret, n), s\<lparr>serverHandle := h\<rparr>))"

definition ntlm_CheckSum :: "ntlm_env \<Rightarrow> (bytes \<Rightarrow> u32) \<Rightarrow> bytes option \<Rightarrow> bytes \<Rightarrow> u32 \<Rightarrow> ntlm_session \<Rightarrow> (bool \<times> u32) \<times> ntlm_session" where
  "ntlm_CheckSum E crc chk plaintext seqNum s =
     (if negotiateFlags s AND NTLMSSP_NEGOTIATE_SIGN = 0
      then (if chk = None then ((True, 0), s) else ((False, 0), s))
      else if isClientSide s
      then case ntlm_mac E crc (negotiateFlags s) (serverHandle s) (serverSigningKey s) seqNum plaintext of
             (ret, n, h) \<Rightarrow> (if chk \<noteq> Some ret then (False, 0) else (True, n), s\<lparr>serverHandle := h\<rparr>)
      else case ntlm_mac E crc (negotiateFlags s) (clientHandle s) (clientSigningKey s) seqNum plaintext of
             (ret, n, h) \<Rightarrow> (if chk \<noteq> Some ret then (False, 0) else (True, n), s\<lparr>clientHandle := h\<rparr>))"

definition own_mac :: "ntlm_env \<Rightarrow> (bytes \<Rightarrow> u32) \<Rightarrow> u32 \<Rightarrow> bytes \<Rightarrow> ntlm_session \<Rightarrow> bytes \<times> u32 \<times> ntlm_session" where
  "own_mac E crc seqNum plaintext s =
     (if isClientSide s
      then case ntlm_mac E crc (negotiateFlags s) (clientHandle s) (clientSigningKey s) seqNum plaintext of
             (ret, n, h) \<Rightarrow> (ret, n, s\<lparr>clientHandle := h\<rparr>)
      else case ntlm_mac E crc (negotiateFlags s) (serverHandle s) (serverSigningKey s) seqNum plaintext of
             (ret, n, h) \<Rightarrow> (ret, n, s\<lparr>serverHandle := h\<rparr>))"

definition peer_mac :: "ntlm_env \<Rightarrow> (bytes \<Rightarrow> u32) \<Rightarrow> u32 \<Rightarrow> bytes \<Rightarrow> ntlm_session \<Rightarrow> bytes \<times> u32 \<times> ntlm_session" where
  "peer_mac E crc seqNum plaintext s =
     (if isClientSide s
      then case ntlm_mac E crc (negotiateFlags s) (serverHandle s) (serverSigningKey s) seqNum plaintext of
             (ret, n, h) \<Rightarrow> (ret, n, s\<lparr>serverHandle := h\<rparr>)
      else case ntlm_mac E crc (negotiateFlags s) (clientHandle s) (clientSigningKey s) seqNum plaintext of
             (ret, n, h) \<Rightarrow> (ret, n, s\<lparr>clientHandle := h\<rparr>))"

definition ntlm_Seal :: "ntlm_env \<Rightarrow> (bytes \<Rightarrow> u32) \<Rightarrow> bytes \<Rightarrow> u32 \<Rightarrow> ntlm_session \<Rightarrow> (bytes \<times> u32) \<times> ntlm_session" where
  "ntlm_Seal E crc plaintext seqNum s =
     (if negotiateFlags s AND NTLMSSP_NEGOTIATE_SEAL \<noteq> 0
      then let (ct, h) = rc4_XORKeyStream E plaintext (clientHandle s);
               (tag, n, s) = own_mac E crc seqNum plaintext (s\<lparr>clientHandle := h\<rparr>)
           in ((tag @ ct, n), s)
      else if negotiateFlags s AND NTLMSSP_NEGOTIATE_SIGN \<noteq> 0
      then let (tag, n, s) = own_mac E crc seqNum plaintext s in ((tag @ plaintext, n), s)
      else ((replicate (16 + length plaintext) 0, seqNum), s))"

definition signature_mismatch :: ntlm_error where "signature_mismatch = NtlmError ''signature mismatch''"

definition ntlm_Unseal :: "ntlm_env \<Rightarrow> (bytes \<Rightarrow> u32) \<Rightarrow> bytes \<Rightarrow> u32 \<Rightarrow> ntlm_session \<Rightarrow> ((ntlm_error + bytes \<times> u32) \<times> ntlm_session) go" where
  "ntlm_Unseal E crc ciphertext seqNum s =
     (if length ciphertext < 16 then None
      else let tag = take 16 ciphertext; body = drop 16 ciphertext in
      Some (if negotiateFlags s AND NTLMSSP_NEGOTIATE_SEAL \<noteq> 0
        then let (plaintext, h) = rc4_XORKeyStream E body (serverHandle s);
                 (chk, n, s) = peer_mac E crc seqNum plaintext (s\<lparr>serverHandle := h\<rparr>)
             in (if tag \<noteq> chk then Inl signature_mismatch else Inr (plaintext, n), s)
        else if negotiateFlags s AND NTLMSSP_NEGOTIATE_SIGN \<noteq> 0
        then let (chk, n, s) = peer_mac E crc seqNum body s
             in (if tag \<noteq> chk then Inl signature_mismatch else Inr (body, n), s)
        else (if \<exists>b \<in> set tag. b \<noteq> 0 then Inl signature_mismatch else Inr (body, seqNum), s)))"

text \<open>The other side of a session: the same keys and ciphers, looked at from the other end.\<close>

definition other_side :: "ntlm_session \<Rightarrow> ntlm_session" where
  "other_side s = s\<lparr>isClientSide := \<not> isClientSide s\<rparr>"

text \<open>The checksum one side makes is taken by the other, and it leaves the two as they were to each other.\<close>

lemma ntlm_checksum_taken:
  assumes "ntlm_Sum E crc msg n s = ((chk, n'), s')" "ntlm_CheckSum E crc chk msg n (other_side s) = ((ok, n''), t')"
  shows "ok \<and> n'' = n' \<and> t' = other_side s'"
  using assms by (auto simp: ntlm_Sum_def ntlm_CheckSum_def other_side_def split: if_split_asm prod.splits)

lemma signed_message_read:
  assumes "ntlm_Seal E crc msg n s = ((c, n'), s')" "length (fst (own_mac E crc n msg s)) = 16"
    and "negotiateFlags s AND NTLMSSP_NEGOTIATE_SEAL = 0" "negotiateFlags s AND NTLMSSP_NEGOTIATE_SIGN \<noteq> 0"
  shows "ntlm_Unseal E crc c n (other_side s) = Some (Inr (msg, n'), other_side s')"
  using assms by (auto simp: ntlm_Seal_def ntlm_Unseal_def own_mac_def peer_mac_def other_side_def Let_def split: if_split_asm prod.splits)

text \<open>
  With sealing, both sides use the cipher of the client to seal and that of the server to unseal. Here the streams of
  the two differ, as they do for different keys, and what the client sealed is read as something else.
\<close>

definition sealing_env :: ntlm_env where
  "sealing_env = login_env\<lparr>rc4_stream := (\<lambda>k i. hd k)\<rparr>"

definition sealing_session :: ntlm_session where
  "sealing_session = new_Session\<lparr>isClientSide := True,
     negotiateFlags := NTLMSSP_NEGOTIATE_SEAL OR NTLMSSP_NEGOTIATE_EXTENDED_SESSIONSECURITY,
     clientHandle := \<lparr>rc4_key = [1], rc4_pos = 0\<rparr>, serverHandle := \<lparr>rc4_key = [2], rc4_pos = 0\<rparr>\<rparr>"

lemma sealed_message_not_read:
  "case ntlm_Seal sealing_env (\<lambda>_. 0) [5] 0 sealing_session of ((c, n), s) \<Rightarrow>
     \<exists>n' t. ntlm_Unseal sealing_env (\<lambda>_. 0) c 0 (other_side sealing_session) = Some (Inr ([6], n'), t)"
proof -
  have f: "negotiateFlags sealing_session AND NTLMSSP_NEGOTIATE_SEAL \<noteq> 0"
    "negotiateFlags sealing_session AND NTLMSSP_NEGOTIATE_EXTENDED_SESSIONSECURITY \<noteq> 0"
    "negotiateFlags sealing_session AND NTLMSSP_NEGOTIATE_KEY_EXCH = 0"
    by (simp_all add: sealing_session_def NTLMSSP_NEGOTIATE_SEAL_def NTLMSSP_NEGOTIATE_EXTENDED_SESSIONSECURITY_def
        NTLMSSP_NEGOTIATE_KEY_EXCH_def)
  have m: "ntlm_mac sealing_env crc (negotiateFlags sealing_session) h key n [b] = ([1, 0, 0, 0] @ replicate 8 5 @ to_le 4 (uint n), n + 1, h)"
    for crc h key n b using f by (simp add: ntlm_mac_def sealing_env_def login_env_def)
  have s: "isClientSide sealing_session" "clientHandle sealing_session = \<lparr>rc4_key = [1], rc4_pos = 0\<rparr>"
    "serverHandle sealing_session = \<lparr>rc4_key = [2], rc4_pos = 0\<rparr>" "rc4_stream sealing_env k i = hd k" for k i
    by (simp_all add: sealing_session_def sealing_env_def)
  show ?thesis using f by (simp add: ntlm_Seal_def ntlm_Unseal_def own_mac_def peer_mac_def m s other_side_def rc4_XORKeyStream_def Let_def)
qed

subsection \<open>Who a session is\<close>

text \<open>\<^verbatim>\<open>dtyp.SID\<close>, and the identities made out of names by the hash \<^verbatim>\<open>blake2b\<close>.\<close>

record SID =
  Revision :: u8
  SubAuthorityCount :: u8
  IDAuthority :: bytes
  SubAuthority :: "u32 list"

record SecurityContext =
  sc_User :: string
  sc_Domain :: string
  sc_UserRID :: u32
  sc_DomainSID :: "SID option"
  sc_SessionKey :: bytes

definition no_context :: SecurityContext where
  "no_context = \<lparr>sc_User = [], sc_Domain = [], sc_UserRID = 0, sc_DomainSID = None, sc_SessionKey = []\<rparr>"

definition nt_authority :: bytes where "nt_authority = [0, 0, 0, 0, 0, 5]"

definition AnonymousContext :: SecurityContext where
  "AnonymousContext = no_context\<lparr>sc_UserRID := 7,
     sc_DomainSID := Some \<lparr>Revision = 1, SubAuthorityCount = 0, IDAuthority = nt_authority, SubAuthority = []\<rparr>\<rparr>"

definition string_bytes :: "string \<Rightarrow> bytes" where
  "string_bytes s = map (\<lambda>c. of_nat (of_char c)) s"

definition u32_of :: "nat \<Rightarrow> bytes \<Rightarrow> u32" where
  "u32_of off h = of_int (of_le (take 4 (drop off h)))"

definition Identity :: "(bytes \<Rightarrow> bytes) \<Rightarrow> string \<Rightarrow> string \<Rightarrow> u32 \<times> SID" where
  "Identity blake2b user domain =
     (let hash = blake2b (string_bytes user @ string_bytes domain)
      in (u32_of 0 hash, \<lparr>Revision = 1, SubAuthorityCount = 4, IDAuthority = nt_authority,
            SubAuthority = [0x15, u32_of 4 hash, u32_of 8 hash, u32_of 12 hash]\<rparr>))"

definition AccountSID :: "(bytes \<Rightarrow> bytes) \<Rightarrow> string \<Rightarrow> string \<Rightarrow> SID" where
  "AccountSID blake2b user domain =
     (let (rid, domainSID) = Identity blake2b user domain; sub = SubAuthority domainSID @ [rid]
      in domainSID\<lparr>SubAuthority := sub, SubAuthorityCount := of_nat (length sub)\<rparr>)"

definition GroupSID :: "(bytes \<Rightarrow> bytes) \<Rightarrow> string \<Rightarrow> SID" where
  "GroupSID blake2b domain =
     (let hash = blake2b (string_bytes domain)
      in \<lparr>Revision = 1, SubAuthorityCount = 2, IDAuthority = [0, 0, 0, 0, 0, 0x16], SubAuthority = [2, u32_of 0 hash]\<rparr>)"

definition GetSecurityContext :: "(bytes \<Rightarrow> bytes) \<Rightarrow> ntlm_session \<Rightarrow> SecurityContext" where
  "GetSecurityContext blake2b s =
     (if ns_user s = [] then (if ns_anonymous s then AnonymousContext\<lparr>sc_SessionKey := exportedSessionKey s\<rparr> else no_context)
      else if ns_domain s = []
      then \<lparr>sc_User = ns_user s, sc_Domain = [], sc_UserRID = u32_of 0 (blake2b (string_bytes (ns_user s))),
            sc_DomainSID = Some \<lparr>Revision = 1, SubAuthorityCount = 2, IDAuthority = nt_authority, SubAuthority = [0, 0]\<rparr>,
            sc_SessionKey = exportedSessionKey s\<rparr>
      else let (rid, domainSID) = Identity blake2b (ns_user s) (ns_domain s)
           in \<lparr>sc_User = ns_user s, sc_Domain = ns_domain s, sc_UserRID = rid, sc_DomainSID = Some domainSID,
               sc_SessionKey = exportedSessionKey s\<rparr>)"

text \<open>The owner a descriptor names is the identity the sessions of that account carry.\<close>

lemma AccountSID_of_session:
  assumes "ns_user s \<noteq> []" "ns_domain s \<noteq> []"
  shows "\<exists>d. sc_DomainSID (GetSecurityContext blake2b s) = Some d
    \<and> AccountSID blake2b (ns_user s) (ns_domain s)
      = d\<lparr>SubAuthority := SubAuthority d @ [sc_UserRID (GetSecurityContext blake2b s)], SubAuthorityCount := 5\<rparr>"
  using assms by (simp add: GetSecurityContext_def AccountSID_def Identity_def Let_def)

end
