(* ===== verification/Sessions.thy ===== *)
theory Sessions
  imports Ntlm_Session Requests "HOL-Library.AList"
begin

section \<open>Sessions and their channels\<close>

text \<open>
  \<^verbatim>\<open>src/session.go\<close>, \<^verbatim>\<open>src/channel.go\<close> and the session setup of \<^verbatim>\<open>src/conn.go\<close>: how a session comes to be, is bound to
  further connections, and goes. Sessions and connections are objects reached through pointers from several tables, so
  they are kept in two stores under references. The NTLM server of a connection is that of \<open>Ntlm\<close>. SHA-512, HMAC-SHA256,
  BLAKE2b and the decoding of SPNEGO tokens are functions of the environment. A map that the code walks over is an
  association list, in the order the walk happens to take. A handler that runs to its end under its
  locks is one function; what the client sends and what is drawn at random are its arguments.
\<close>

unbundle bit_operations_syntax

subsection \<open>Constants\<close>

definition SMB_DIALECT_21 :: u16 where "SMB_DIALECT_21 = 0x0210"
definition SMB_DIALECT_302 :: u16 where "SMB_DIALECT_302 = 0x0302"
definition SMB_DIALECT_311 :: u16 where "SMB_DIALECT_311 = 0x0311"

definition SHA_512 :: u16 where "SHA_512 = 1"
definition NEGOTIATE_SIGNING_REQUIRED :: u16 where "NEGOTIATE_SIGNING_REQUIRED = 2"
definition GLOBAL_CAP_ENCRYPTION :: u32 where "GLOBAL_CAP_ENCRYPTION = 0x40"
definition SESSION_FLAG_IS_GUEST :: u16 where "SESSION_FLAG_IS_GUEST = 1"
definition SESSION_FLAG_IS_NULL :: u16 where "SESSION_FLAG_IS_NULL = 2"
definition SESSION_FLAG_ENCRYPT_DATA :: u16 where "SESSION_FLAG_ENCRYPT_DATA = 4"

definition STATUS_NO_SUCH_USER :: u32 where "STATUS_NO_SUCH_USER = 0xc0000064"
definition STATUS_REQUEST_NOT_ACCEPTED :: u32 where "STATUS_REQUEST_NOT_ACCEPTED = 0xc00000d0"
definition STATUS_USER_SESSION_DELETED :: u32 where "STATUS_USER_SESSION_DELETED = 0xc0000203"
definition STATUS_NETWORK_SESSION_EXPIRED :: u32 where "STATUS_NETWORK_SESSION_EXPIRED = 0xc000035c"


subsection \<open>Data\<close>

type_synonym cref = nat
type_synonym sref = nat
type_synonym oref = nat

record channel =
  ch_signingKey :: bytes
  ch_connection :: cref

datatype sessionState = sessionInProgress | sessionValid | sessionExpired

text \<open>The part of an open that sessions deal with. A disconnect time that is zero in Go is \<open>None\<close>; times are milliseconds.\<close>

record sopen =
  so_fileID :: u64
  so_durableFileID :: u64
  so_isDurable :: bool
  so_createGuid :: bytes
  so_durableTimeout :: int
  so_disconnectTime :: "int option"
  so_session :: sref
  so_tree :: u32
  so_share :: nat
  so_connection :: cref

record session =
  ss_sessionID :: u64
  ss_state :: sessionState
  ss_securityContext :: SecurityContext
  ss_isAnonymous :: bool
  ss_isGuest :: bool
  ss_sessionKey :: bytes
  ss_signingRequired :: bool
  ss_openTable :: "(u64 \<times> oref) list"
  ss_treeConnectTable :: "(u32 \<times> nat) list"
  ss_connection :: cref
  ss_userName :: string
  ss_workgroup :: string
  ss_encryptData :: bool
  ss_signingKey :: bytes
  ss_encryptionKey :: bytes
  ss_decryptionKey :: bytes
  ss_preauthHash :: bytes
  ss_channelList :: "(string \<times> channel) list"

record conn =
  cn_clientName :: string
  cn_negotiateDialect :: u16
  cn_clientGuid :: bytes
  cn_clientCapabilities :: u32
  cn_shouldSign :: bool
  cn_sessionTable :: "u64 \<rightharpoonup> sref"
  cn_preauthIntegrityHashID :: u16
  cn_preauthIntegrityHashValue :: bytes
  cn_preauthSessionTable :: "u64 \<rightharpoonup> bytes"
  cn_cipherID :: u16
  cn_signingAlgorithmID :: u16
  cn_ntlmServer :: ntlm_server

record smb =
  sm_conns :: "cref \<Rightarrow> conn"
  sm_sess :: "sref \<Rightarrow> session"
  sm_next :: sref
  sm_globalSessionTable :: "u64 \<rightharpoonup> sref"
  sm_globalClientTable :: "bytes \<rightharpoonup> u16"
  sm_opens :: "oref \<Rightarrow> sopen"
  sm_globalOpenTable :: "(u64 \<times> oref) list"
  sm_SOpens :: int
  sm_PwErrors :: int
  sm_encryptData :: bool
  sm_isMultiChannelCapable :: bool

record sess_env =
  se_ntlm :: ntlm_env
  hmac_sha256 :: "bytes \<Rightarrow> bytes \<Rightarrow> bytes"
  sha512 :: "bytes \<Rightarrow> bytes"
  blake2b :: "bytes \<Rightarrow> bytes"
  DecodeNegTokenResp :: "bytes \<Rightarrow> bytes option"
  DecodeNegTokenInit :: "bytes \<Rightarrow> bytes option"
  EncodeNegTokenResp :: "bytes \<Rightarrow> bytes option"

text \<open>What the accessors of a session setup read, and the message itself.\<close>

record setup_request =
  sr_SessionID :: u64
  sr_binding :: bool
  sr_signed :: bool
  sr_SecurityMode :: u16
  sr_PreviousSessionID :: u64
  sr_SecurityBuffer :: bytes
  sr_message :: bytes

abbreviation cn :: "smb \<Rightarrow> cref \<Rightarrow> conn" where "cn M c \<equiv> sm_conns M c"
abbreviation op :: "smb \<Rightarrow> oref \<Rightarrow> sopen" where "op M x \<equiv> sm_opens M x"
abbreviation se :: "smb \<Rightarrow> sref \<Rightarrow> session" where "se M r \<equiv> sm_sess M r"

definition upd_conn :: "cref \<Rightarrow> (conn \<Rightarrow> conn) \<Rightarrow> smb \<Rightarrow> smb" where
  "upd_conn c f M = M\<lparr>sm_conns := (sm_conns M)(c := f (sm_conns M c))\<rparr>"

definition upd_open :: "oref \<Rightarrow> (sopen \<Rightarrow> sopen) \<Rightarrow> smb \<Rightarrow> smb" where
  "upd_open o' f M = M\<lparr>sm_opens := (sm_opens M)(o' := f (sm_opens M o'))\<rparr>"

definition upd_sess :: "sref \<Rightarrow> (session \<Rightarrow> session) \<Rightarrow> smb \<Rightarrow> smb" where
  "upd_sess r f M = M\<lparr>sm_sess := (sm_sess M)(r := f (sm_sess M r))\<rparr>"

subsection \<open>Keys\<close>

definition Kdf :: "sess_env \<Rightarrow> bytes \<Rightarrow> bytes \<Rightarrow> bytes \<Rightarrow> bytes" where
  "Kdf E ki label context = take 16 (hmac_sha256 E ki ([0, 0, 0, 1] @ label @ [0] @ context @ [0, 0, 0, 0x80]))"

definition zstring :: "string \<Rightarrow> bytes" where "zstring s = string_bytes s @ [0]"

definition deriveKeys :: "sess_env \<Rightarrow> u16 \<Rightarrow> session \<Rightarrow> session" where
  "deriveKeys E dialect ss =
     (if dialect = SMB_DIALECT_202 \<or> dialect = SMB_DIALECT_21 then ss
      else if dialect = SMB_DIALECT_30 \<or> dialect = SMB_DIALECT_302
      then ss\<lparr>ss_signingKey := Kdf E (ss_sessionKey ss) (zstring ''SMB2AESCMAC'') (zstring ''SmbSign''),
              ss_encryptionKey := Kdf E (ss_sessionKey ss) (zstring ''SMB2AESCCM'') (zstring ''ServerOut''),
              ss_decryptionKey := Kdf E (ss_sessionKey ss) (zstring ''SMB2AESCCM'') (zstring ''ServerIn '')\<rparr>
      else if dialect = SMB_DIALECT_311
      then ss\<lparr>ss_signingKey := Kdf E (ss_sessionKey ss) (zstring ''SMBSigningKey'') (ss_preauthHash ss),
              ss_encryptionKey := Kdf E (ss_sessionKey ss) (zstring ''SMBS2CCipherKey'') (ss_preauthHash ss),
              ss_decryptionKey := Kdf E (ss_sessionKey ss) (zstring ''SMBC2SCipherKey'') (ss_preauthHash ss)\<rparr>
      else ss)"

subsection \<open>Channels\<close>

definition bindChannel :: "cref \<Rightarrow> string \<Rightarrow> bytes \<Rightarrow> session \<Rightarrow> session" where
  "bindChannel c name key ss =
     (let ch = (case map_of (ss_channelList ss) name of
                  Some ch \<Rightarrow> if ch_connection ch \<noteq> c then \<lparr>ch_signingKey = [], ch_connection = c\<rparr> else ch
                | None \<Rightarrow> \<lparr>ch_signingKey = [], ch_connection = c\<rparr>)
      in ss\<lparr>ss_channelList := AList.update name (ch\<lparr>ch_signingKey := key\<rparr>) (ss_channelList ss)\<rparr>)"

definition addChannel :: "cref \<Rightarrow> string \<Rightarrow> session \<Rightarrow> session" where
  "addChannel c name ss =
     (case map_of (ss_channelList ss) name of
        Some ch \<Rightarrow> if ch_connection ch = c then ss
                    else ss\<lparr>ss_channelList := AList.update name \<lparr>ch_signingKey = [], ch_connection = c\<rparr> (ss_channelList ss)\<rparr>
      | None \<Rightarrow> ss\<lparr>ss_channelList := AList.update name \<lparr>ch_signingKey = [], ch_connection = c\<rparr> (ss_channelList ss)\<rparr>)"

definition unbindChannel :: "cref \<Rightarrow> string \<Rightarrow> session \<Rightarrow> session" where
  "unbindChannel c name ss =
     (case map_of (ss_channelList ss) name of
        Some ch \<Rightarrow> if ch_connection ch = c then ss\<lparr>ss_channelList := AList.delete name (ss_channelList ss)\<rparr> else ss
      | None \<Rightarrow> ss)"

definition channelOf :: "cref \<Rightarrow> string \<Rightarrow> session \<Rightarrow> channel option" where
  "channelOf c name ss =
     (case map_of (ss_channelList ss) name of
        Some ch \<Rightarrow> if ch_connection ch \<noteq> c then None else Some ch
      | None \<Rightarrow> None)"

text \<open>The connection a message about an open of that connection and session goes over.\<close>

definition selectConnection :: "smb \<Rightarrow> cref \<Rightarrow> sref \<Rightarrow> cref option \<Rightarrow> cref" where
  "selectConnection M own r preferred =
     (let isChannel = (\<lambda>c. channelOf c (cn_clientName (cn M c)) (se M r) \<noteq> None);
          own_or_any = (if isChannel own then own
                        else case ss_channelList (se M r) of (_, ch) # _ \<Rightarrow> ch_connection ch | [] \<Rightarrow> own) in
      if \<not> Is3X (cn_negotiateDialect (cn M own)) then own
      else case preferred of
        Some p \<Rightarrow> if isChannel p then p else own_or_any
      | None \<Rightarrow> own_or_any)"

subsection \<open>The hash of a binding exchange\<close>

definition updatePreauthHash :: "sess_env \<Rightarrow> u64 \<Rightarrow> bytes \<Rightarrow> conn \<Rightarrow> conn" where
  "updatePreauthHash E sid msg c =
     (if cn_negotiateDialect c \<noteq> SMB_DIALECT_311 then c
      else case cn_preauthSessionTable c sid of
        None \<Rightarrow> c
      | Some h \<Rightarrow> if cn_preauthIntegrityHashID c = SHA_512
                  then c\<lparr>cn_preauthSessionTable := (cn_preauthSessionTable c)(sid \<mapsto> sha512 E (h @ msg))\<rparr> else c)"

definition dropPreauthSession :: "u64 \<Rightarrow> conn \<Rightarrow> conn" where
  "dropPreauthSession sid c = c\<lparr>cn_preauthSessionTable := (cn_preauthSessionTable c)(sid := None)\<rparr>"

definition takePreauthHash :: "u64 \<Rightarrow> conn \<Rightarrow> bytes \<times> conn" where
  "takePreauthHash sid c =
     ((case cn_preauthSessionTable c sid of Some h \<Rightarrow> h | None \<Rightarrow> []), dropPreauthSession sid c)"

subsection \<open>Setting up, authenticating and taking down\<close>

definition newSessionState :: "u64 \<Rightarrow> cref \<Rightarrow> session" where
  "newSessionState sid c =
     \<lparr>ss_sessionID = sid, ss_state = sessionInProgress, ss_securityContext = no_context, ss_isAnonymous = False, ss_isGuest = False,
      ss_sessionKey = [], ss_signingRequired = False, ss_openTable = [], ss_treeConnectTable = [], ss_connection = c,
      ss_userName = [], ss_workgroup = [], ss_encryptData = False, ss_signingKey = [], ss_encryptionKey = [],
      ss_decryptionKey = [], ss_preauthHash = [], ss_channelList = []\<rparr>"

text \<open>The session, whether it was there, and the server; \<open>Inl\<close> stands for \<^verbatim>\<open>errSessionNotFound\<close>. A new session gets the ID \<open>sid\<close>.\<close>

definition registerSession :: "sess_env \<Rightarrow> u64 \<Rightarrow> cref \<Rightarrow> setup_request \<Rightarrow> smb \<Rightarrow> (unit + sref \<times> bool) \<times> smb" where
  "registerSession E sid c req M =
     (if sr_SessionID req = 0
      then let r = sm_next M; k = cn M c;
               ss = newSessionState sid c;
               ss = (if cn_negotiateDialect k = SMB_DIALECT_311
                     then let ss = ss\<lparr>ss_preauthHash := cn_preauthIntegrityHashValue k\<rparr>
                          in if cn_preauthIntegrityHashID k = SHA_512
                             then ss\<lparr>ss_preauthHash := sha512 E (ss_preauthHash ss @ sr_message req)\<rparr> else ss
                     else ss);
               M = upd_conn c (\<lambda>k. k\<lparr>cn_sessionTable := (cn_sessionTable k)(sid \<mapsto> r)\<rparr>) M
           in (Inr (r, False), M\<lparr>sm_sess := (sm_sess M)(r := ss), sm_next := Suc r,
                 sm_globalSessionTable := (sm_globalSessionTable M)(sid \<mapsto> r), sm_SOpens := sm_SOpens M + 1\<rparr>)
      else case cn_sessionTable (cn M c) (sr_SessionID req) of
        None \<Rightarrow> (Inl (), M)
      | Some r \<Rightarrow> (Inr (r, True),
          upd_sess r (\<lambda>ss. if ss_state ss = sessionExpired
                            then ss\<lparr>ss_state := sessionInProgress, ss_securityContext := no_context\<rparr> else ss) M))"

text \<open>Closing a tree takes the opens on it out of both tables.\<close>

definition drop_opens :: "oref list \<Rightarrow> smb \<Rightarrow> smb" where
  "drop_opens xs M = M\<lparr>sm_globalOpenTable := fold (\<lambda>x. AList.delete (so_durableFileID (op M x))) xs (sm_globalOpenTable M)\<rparr>"

definition sess_closeTreeConnect :: "sref \<Rightarrow> u32 \<Rightarrow> smb \<Rightarrow> smb" where
  "sess_closeTreeConnect r tid M =
     (let ss = se M r in
      if map_of (ss_treeConnectTable ss) tid = None then M
      else let closed = filter (\<lambda>x. so_tree (op M x) = tid) (map snd (ss_openTable ss))
           in upd_sess r (\<lambda>ss. ss\<lparr>ss_openTable := filter (\<lambda>(fid, x). so_tree (op M x) \<noteq> tid) (ss_openTable ss),
                                   ss_treeConnectTable := AList.delete tid (ss_treeConnectTable ss)\<rparr>)
                (drop_opens closed M))"

definition forget_session :: "u64 \<Rightarrow> cref \<Rightarrow> smb \<Rightarrow> smb" where
  "forget_session sid c M = upd_conn c (\<lambda>k. k\<lparr>cn_sessionTable := (cn_sessionTable k)(sid := None)\<rparr>) M"

definition deregisterSession :: "cref \<Rightarrow> u64 \<Rightarrow> smb \<Rightarrow> (unit + sref) \<times> smb" where
  "deregisterSession c sid M =
     (case cn_sessionTable (cn M c) sid of
        None \<Rightarrow> (Inl (), M)
      | Some r \<Rightarrow>
          (let M = forget_session sid c M;
               M = drop_opens (map snd (ss_openTable (se M r))) M;
               M = fold (sess_closeTreeConnect r) (map fst (ss_treeConnectTable (se M r))) M;
               connections = map (ch_connection \<circ> snd) (ss_channelList (se M r)) @ [c];
               M = upd_sess r (\<lambda>ss. ss\<lparr>ss_channelList := []\<rparr>) M;
               M = fold (forget_session sid) connections M
           in (Inr r, M\<lparr>sm_globalSessionTable := (sm_globalSessionTable M)(sid := None), sm_SOpens := sm_SOpens M - 1\<rparr>)))"

definition finalize_session :: "sess_env \<Rightarrow> conn \<Rightarrow> ntlm_session \<Rightarrow> bool \<Rightarrow> setup_request \<Rightarrow> session \<Rightarrow> session" where
  "finalize_session E k n serverEncrypts req ss =
     (let anon = ns_anonymous n; guest = ns_guest n;
          ss = ss\<lparr>ss_securityContext := GetSecurityContext (blake2b E) n,
                  ss_userName := (if anon then AnonymousAccount else ns_user n),
                  ss_workgroup := (if anon then uuid_String (ne_ext (se_ntlm E)) AnonymousWorkgroup else ns_domain n),
                  ss_isGuest := guest, ss_isAnonymous := anon,
                  ss_signingRequired := (sr_SecurityMode req AND NEGOTIATE_SIGNING_REQUIRED > 0 \<and> \<not> anon \<and> \<not> guest \<and> cn_shouldSign k)\<rparr>;
          ss = (if cn_negotiateDialect k = SMB_DIALECT_311 \<and> cn_preauthIntegrityHashID k = SHA_512
                then ss\<lparr>ss_preauthHash := sha512 E (ss_preauthHash ss @ sr_message req)\<rparr> else ss);
          ss = ss\<lparr>ss_sessionKey := exportedSessionKey n, ss_encryptData := (serverEncrypts \<and> \<not> anon \<and> \<not> guest)\<rparr>;
          ss = deriveKeys E (cn_negotiateDialect k) ss
      in if Is3X (cn_negotiateDialect k) then bindChannel (ss_connection ss) (cn_clientName k) (ss_signingKey ss) ss else ss)"

text \<open>The session it replaces, if the client names one, goes from the tables of the server and of this connection.\<close>

definition finalize :: "sess_env \<Rightarrow> setup_request \<Rightarrow> sref \<Rightarrow> smb \<Rightarrow> smb go" where
  "finalize E req r M =
     (let c = ss_connection (se M r); k = cn M c in
      case ntlm_sess (cn_ntlmServer k) of
        None \<Rightarrow> None
      | Some n \<Rightarrow>
          (let M = upd_sess r (finalize_session E k n (sm_encryptData M) req) M; prev = sr_PreviousSessionID req
           in Some (if prev \<noteq> 0
             then case cn_sessionTable (cn M c) prev of
                    None \<Rightarrow> M
                  | Some p \<Rightarrow>
                      if sc_UserRID (ss_securityContext (se M r)) = sc_UserRID (ss_securityContext (se M p)) \<and> ss_sessionID (se M r) \<noteq> prev
                      then (upd_conn c (\<lambda>k. k\<lparr>cn_sessionTable := (cn_sessionTable k)(prev := None)\<rparr>) M)
                             \<lparr>sm_globalSessionTable := (sm_globalSessionTable M)(prev := None)\<rparr>
                      else M
             else M)))"

definition activate :: "session \<Rightarrow> session" where
  "activate ss = ss\<lparr>ss_state := sessionValid\<rparr>"

text \<open>
  What a setup comes to: a status, with no session to sign under; the answer of the session, with its flags, its
  token and whether it is the final one; or the end of the connection.
\<close>

datatype setup_result = SetupStatus u32 | SetupAnswer sref u16 bytes bool | SetupDrop

definition FinalNegTokenResp :: bytes where
  "FinalNegTokenResp = [0xa1, 0x07, 0x30, 0x05, 0xa0, 0x03, 0x0a, 0x01, 0x00]"

definition setup_flags :: "conn \<Rightarrow> session \<Rightarrow> u16" where
  "setup_flags k ss =
     (let flags = (if ss_state ss = sessionValid
                   then if ss_isGuest ss then SESSION_FLAG_IS_GUEST else if ss_isAnonymous ss then SESSION_FLAG_IS_NULL else 0
                   else 0)
      in if Is3X (cn_negotiateDialect k) \<and> ss_encryptData ss \<and> cn_clientCapabilities k AND GLOBAL_CAP_ENCRYPTION \<noteq> 0
         then flags OR SESSION_FLAG_ENCRYPT_DATA else flags)"

text \<open>The second leg: the client's answer to the challenge.\<close>

definition protect_account :: "conn \<Rightarrow> bool \<Rightarrow> session \<Rightarrow> session" where
  "protect_account k serverEncrypts ss =
     (if \<not> ss_isAnonymous ss \<and> \<not> ss_isGuest ss
      then if Is3X (cn_negotiateDialect k) \<and> serverEncrypts \<and> cn_cipherID k \<noteq> 0
           then ss\<lparr>ss_signingRequired := False, ss_encryptData := True\<rparr>
           else ss\<lparr>ss_signingRequired := True, ss_encryptData := False\<rparr>
      else ss)"

definition setup_authenticate :: "sess_env \<Rightarrow> cref \<Rightarrow> setup_request \<Rightarrow> sref \<Rightarrow> smb \<Rightarrow> (setup_result \<times> smb) go" where
  "setup_authenticate E c req r M =
     (let token = (case DecodeNegTokenResp E (sr_SecurityBuffer req) of Some t \<Rightarrow> t | None \<Rightarrow> sr_SecurityBuffer req) in
      case Authenticate (se_ntlm E) token (cn_ntlmServer (cn M c)) of
        None \<Rightarrow> None
      | Some (Inl _) \<Rightarrow>
          (let M = snd (deregisterSession c (ss_sessionID (se M r)) M)
           in Some (SetupStatus STATUS_NO_SUCH_USER, M\<lparr>sm_PwErrors := sm_PwErrors M + 1\<rparr>))
      | Some (Inr n) \<Rightarrow>
          do { M \<leftarrow> finalize E req r (upd_conn c (\<lambda>k. k\<lparr>cn_ntlmServer := n\<rparr>) M);
               let M = upd_sess r (\<lambda>ss. activate (protect_account (cn M c) (sm_encryptData M) ss)) M;
               if \<not> Is3X (cn_negotiateDialect (cn M c))
               then Some (SetupAnswer r (setup_flags (cn M c) (se M r)) FinalNegTokenResp True, M)
               else case sm_globalClientTable M (cn_clientGuid (cn M c)) of
                 None \<Rightarrow> (let M = M\<lparr>sm_globalClientTable := (sm_globalClientTable M)(cn_clientGuid (cn M c) \<mapsto> cn_negotiateDialect (cn M c))\<rparr>
                          in Some (SetupAnswer r (setup_flags (cn M c) (se M r)) FinalNegTokenResp True, M))
               | Some d \<Rightarrow>
                   if d \<noteq> cn_negotiateDialect (cn M c)
                   then Some (SetupStatus STATUS_USER_SESSION_DELETED, snd (deregisterSession c (ss_sessionID (se M r)) M))
                   else Some (SetupAnswer r (setup_flags (cn M c) (se M r)) FinalNegTokenResp True, M) })"

text \<open>The first leg: a challenge. \<open>answer\<close> is the response as it is built, which the hash of the session takes in.\<close>

definition challenge_answer :: "sess_env \<Rightarrow> cref \<Rightarrow> bool \<Rightarrow> (bytes \<Rightarrow> bytes) \<Rightarrow> sref \<Rightarrow> (ntlm_error + bytes) \<Rightarrow> smb \<Rightarrow> setup_result \<times> smb" where
  "challenge_answer E c wrapped answer r res M =
     (case res of
        Inl _ \<Rightarrow> (SetupDrop, snd (deregisterSession c (ss_sessionID (se M r)) M))
      | Inr challenge \<Rightarrow>
          (case (if wrapped then EncodeNegTokenResp E challenge else Some challenge) of
             None \<Rightarrow> (SetupDrop, snd (deregisterSession c (ss_sessionID (se M r)) M))
           | Some token \<Rightarrow>
               (let k = cn M c; flags = setup_flags k (se M r);
                    M = (if cn_negotiateDialect k = SMB_DIALECT_311 \<and> cn_preauthIntegrityHashID (cn M (ss_connection (se M r))) = SHA_512
                         then upd_sess r (\<lambda>ss. ss\<lparr>ss_preauthHash := sha512 E (ss_preauthHash ss @ answer token)\<rparr>) M else M)
                in (SetupAnswer r flags token False, M))))"

definition setup_challenge :: "sess_env \<Rightarrow> cref \<Rightarrow> setup_request \<Rightarrow> bytes \<Rightarrow> u64 \<Rightarrow> (bytes \<Rightarrow> bytes) \<Rightarrow> sref \<Rightarrow> smb \<Rightarrow> (setup_result \<times> smb) go" where
  "setup_challenge E c req rnd now answer r M =
     (let (token, wrapped) = (case DecodeNegTokenInit E (sr_SecurityBuffer req) of Some t \<Rightarrow> (t, True) | None \<Rightarrow> (sr_SecurityBuffer req, False)) in
      do { (n, res) \<leftarrow> Challenge (se_ntlm E) rnd now token (cn_ntlmServer (cn M c));
           Some (challenge_answer E c wrapped answer r res (upd_conn c (\<lambda>k. k\<lparr>cn_ntlmServer := n\<rparr>) M)) })"

subsection \<open>Binding a session to another connection\<close>

text \<open>The session being bound, or the status to fail with; the third check is for the flag alone, the signature itself was checked
  when the request came in.\<close>

definition prepareBinding :: "cref \<Rightarrow> setup_request \<Rightarrow> smb \<Rightarrow> (u32 + sref) \<times> smb" where
  "prepareBinding c req M =
     (let sid = sr_SessionID req; k = cn M c in
      case sm_globalSessionTable M sid of
        None \<Rightarrow> (Inl STATUS_USER_SESSION_DELETED, M)
      | Some r \<Rightarrow>
          (let ss = se M r; own = cn M (ss_connection ss) in
           if cn_negotiateDialect k \<noteq> cn_negotiateDialect own then (Inl STATUS_INVALID_PARAMETER, M)
           else if \<not> sr_signed req then (Inl STATUS_INVALID_PARAMETER, M)
           else if cn_clientGuid k \<noteq> cn_clientGuid own then (Inl STATUS_USER_SESSION_DELETED, M)
           else if ss_state ss = sessionInProgress then (Inl STATUS_REQUEST_NOT_ACCEPTED, M)
           else if ss_state ss = sessionExpired then (Inl STATUS_NETWORK_SESSION_EXPIRED, M)
           else if ss_isAnonymous ss \<or> ss_isGuest ss then (Inl STATUS_NOT_SUPPORTED, M)
           else if cn_sessionTable k sid \<noteq> None then (Inl STATUS_REQUEST_NOT_ACCEPTED, M)
           else (Inr r,
             if cn_negotiateDialect k = SMB_DIALECT_311 \<and> cn_preauthSessionTable k sid = None
             then upd_conn c (\<lambda>k. k\<lparr>cn_preauthSessionTable := (cn_preauthSessionTable k)(sid \<mapsto> cn_preauthIntegrityHashValue k)\<rparr>) M
             else M)))"

definition bindingToken :: "sess_env \<Rightarrow> bytes \<Rightarrow> (bytes \<times> bool) go" where
  "bindingToken E buf =
     (let token = (case DecodeNegTokenResp E buf of Some t \<Rightarrow> t
                   | None \<Rightarrow> (case DecodeNegTokenInit E buf of Some t \<Rightarrow> t | None \<Rightarrow> buf))
      in do { a \<leftarrow> IsAuthenticate token; Some (token, a) })"

definition bind_challenge :: "sess_env \<Rightarrow> cref \<Rightarrow> u64 \<Rightarrow> bool \<Rightarrow> sref \<Rightarrow> (ntlm_error + bytes) \<Rightarrow> smb \<Rightarrow> setup_result \<times> smb" where
  "bind_challenge E c sid wrapped r res M =
     (case res of
        Inl _ \<Rightarrow> (SetupDrop, upd_conn c (dropPreauthSession sid) M)
      | Inr challenge \<Rightarrow>
          (case (if wrapped then EncodeNegTokenResp E challenge else Some challenge) of
             None \<Rightarrow> (SetupDrop, upd_conn c (dropPreauthSession sid) M)
           | Some t \<Rightarrow> (SetupAnswer r 0 t False, M)))"

definition channel_key :: "sess_env \<Rightarrow> u16 \<Rightarrow> bytes \<Rightarrow> bytes \<Rightarrow> bytes" where
  "channel_key E dialect key hash =
     (if dialect = SMB_DIALECT_30 \<or> dialect = SMB_DIALECT_302 then Kdf E key (zstring ''SMB2AESCMAC'') (zstring ''SmbSign'')
      else if dialect = SMB_DIALECT_311 then Kdf E key (zstring ''SMBSigningKey'') hash
      else [])"

definition bind_user :: "sess_env \<Rightarrow> cref \<Rightarrow> u64 \<Rightarrow> ntlm_session \<Rightarrow> sref \<Rightarrow> smb \<Rightarrow> setup_result \<times> smb" where
  "bind_user E c sid ns r M =
     (if \<not> strings_EqualFold (ne_ext (se_ntlm E)) (ns_user ns) (ss_userName (se M r))
      then (SetupStatus STATUS_NOT_SUPPORTED, upd_conn c (dropPreauthSession sid) M)
      else
        (let M = upd_conn c (\<lambda>k. k\<lparr>cn_sessionTable := (cn_sessionTable k)(sid \<mapsto> r)\<rparr>) M;
             name = cn_clientName (cn M c);
             M = upd_sess r (addChannel c name) M;
             hash = fst (takePreauthHash sid (cn M c));
             M = upd_conn c (\<lambda>k. snd (takePreauthHash sid k)) M;
             signingKey = channel_key E (cn_negotiateDialect (cn M c)) (exportedSessionKey ns) hash
         in (SetupAnswer r 0 FinalNegTokenResp True, upd_sess r (bindChannel c name signingKey) M)))"

definition bindSession :: "sess_env \<Rightarrow> cref \<Rightarrow> setup_request \<Rightarrow> bytes \<Rightarrow> u64 \<Rightarrow> sref \<Rightarrow> smb \<Rightarrow> (setup_result \<times> smb) go" where
  "bindSession E c req rnd now r M =
     (let sid = ss_sessionID (se M r); buf = sr_SecurityBuffer req in
      do { (token, authenticate) \<leftarrow> bindingToken E buf;
           let M = upd_conn c (updatePreauthHash E sid (sr_message req)) M;
           if \<not> authenticate
           then do {
             (n, res) \<leftarrow> Challenge (se_ntlm E) rnd now token (cn_ntlmServer (cn M c));
             Some (bind_challenge E c sid (token \<noteq> buf) r res (upd_conn c (\<lambda>k. k\<lparr>cn_ntlmServer := n\<rparr>) M)) }
           else do {
             res \<leftarrow> Authenticate (se_ntlm E) token (cn_ntlmServer (cn M c));
             case res of
               Inl _ \<Rightarrow> Some (SetupStatus STATUS_NO_SUCH_USER, (upd_conn c (dropPreauthSession sid) M)\<lparr>sm_PwErrors := sm_PwErrors M + 1\<rparr>)
             | Inr n \<Rightarrow> do { ns \<leftarrow> ntlm_sess n; Some (bind_user E c sid ns r (upd_conn c (\<lambda>k. k\<lparr>cn_ntlmServer := n\<rparr>) M)) } } })"

text \<open>A session setup as the dispatcher runs it, its format checked.\<close>

definition session_setup :: "sess_env \<Rightarrow> cref \<Rightarrow> setup_request \<Rightarrow> u64 \<Rightarrow> bytes \<Rightarrow> u64 \<Rightarrow> (bytes \<Rightarrow> bytes) \<Rightarrow> smb \<Rightarrow> (setup_result \<times> smb) go" where
  "session_setup E c req sid rnd now answer M =
     (let k = cn M c in
      if Is3X (cn_negotiateDialect k) \<and> sm_encryptData M \<and> cn_clientCapabilities k AND GLOBAL_CAP_ENCRYPTION = 0
      then Some (SetupStatus STATUS_ACCESS_DENIED, M)
      else if sr_binding req
      then if \<not> Is3X (cn_negotiateDialect k) \<or> \<not> sm_isMultiChannelCapable M then Some (SetupStatus STATUS_REQUEST_NOT_ACCEPTED, M)
           else (case prepareBinding c req M of
                   (Inl status, M) \<Rightarrow> Some (SetupStatus status, M)
                 | (Inr r, M) \<Rightarrow> bindSession E c req rnd now r M)
      else case registerSession E sid c req M of
        (Inl _, M) \<Rightarrow> Some (SetupStatus STATUS_USER_SESSION_DELETED, M)
      | (Inr (r, found), M) \<Rightarrow>
          if found then setup_authenticate E c req r M else setup_challenge E c req rnd now answer r M)"

subsection \<open>Opens that outlive their connection\<close>

definition defaultDurableTimeout :: int where "defaultDurableTimeout = 2 * 60 * 1000"
definition maxDurableTimeout :: int where "maxDurableTimeout = 5 * 60 * 1000"

definition grantDurability :: "u32 \<Rightarrow> bytes \<Rightarrow> sopen \<Rightarrow> sopen \<times> u32" where
  "grantDurability timeout guid x =
     (let t = uint timeout;
          t = (if t \<le> 0 then defaultDurableTimeout else t);
          t = (if t > maxDurableTimeout then maxDurableTimeout else t)
      in (x\<lparr>so_isDurable := True, so_durableTimeout := t, so_createGuid := guid\<rparr>, of_int t))"

definition orphan_open :: "int \<Rightarrow> oref \<Rightarrow> smb \<Rightarrow> smb" where
  "orphan_open now x M = upd_open x (\<lambda>x. x\<lparr>so_disconnectTime := Some now\<rparr>) M"

definition orphanDurableOpens :: "int \<Rightarrow> sref \<Rightarrow> smb \<Rightarrow> smb" where
  "orphanDurableOpens now r M =
     (let orphaned = filter (\<lambda>x. so_isDurable (op M x)) (map snd (ss_openTable (se M r)))
      in fold (orphan_open now) orphaned
           (upd_sess r (\<lambda>ss. ss\<lparr>ss_openTable := filter (\<lambda>(fid, x). \<not> so_isDurable (op M x)) (ss_openTable ss)\<rparr>) M))"

text \<open>What the reconnect context of a create names.\<close>

record reconnect =
  rec_DurableID :: u64
  rec_FileID :: u64
  rec_CreateGuid :: bytes

definition reclaim_granted :: "sess_env \<Rightarrow> reconnect \<Rightarrow> sref \<Rightarrow> nat \<Rightarrow> oref \<Rightarrow> smb \<Rightarrow> bool" where
  "reclaim_granted E rec r share x M \<longleftrightarrow>
     so_isDurable (op M x) \<and> so_createGuid (op M x) = rec_CreateGuid rec \<and> so_fileID (op M x) = rec_FileID rec \<and>
     so_disconnectTime (op M x) \<noteq> None \<and> so_share (op M x) = share \<and>
     strings_EqualFold (ne_ext (se_ntlm E)) (ss_userName (se M (so_session (op M x)))) (ss_userName (se M r)) \<and>
     strings_EqualFold (ne_ext (se_ntlm E)) (ss_workgroup (se M (so_session (op M x)))) (ss_workgroup (se M r))"

definition reclaimDurableOpen :: "sess_env \<Rightarrow> cref \<Rightarrow> reconnect \<Rightarrow> sref \<Rightarrow> u32 \<Rightarrow> nat \<Rightarrow> smb \<Rightarrow> oref option \<times> smb" where
  "reclaimDurableOpen E c rec r tid share M =
     (case map_of (sm_globalOpenTable M) (rec_DurableID rec) of
        None \<Rightarrow> (None, M)
      | Some x \<Rightarrow>
          if \<not> reclaim_granted E rec r share x M then (None, M)
          else (Some x,
            upd_sess r (\<lambda>ss. ss\<lparr>ss_openTable := AList.update (so_fileID (op M x)) x (ss_openTable ss)\<rparr>)
              (upd_open x (\<lambda>x. x\<lparr>so_session := r, so_tree := tid, so_share := share, so_connection := c, so_disconnectTime := None\<rparr>) M)))"

definition sweep_expired :: "int \<Rightarrow> sopen \<Rightarrow> bool" where
  "sweep_expired now x \<longleftrightarrow> so_isDurable x \<and> (case so_disconnectTime x of None \<Rightarrow> False | Some t \<Rightarrow> now - t > so_durableTimeout x)"

definition end_durability :: "oref \<Rightarrow> smb \<Rightarrow> smb" where
  "end_durability x M = upd_open x (\<lambda>x. x\<lparr>so_isDurable := False\<rparr>) M"

definition sweepDurableOpens :: "int \<Rightarrow> smb \<Rightarrow> smb" where
  "sweepDurableOpens now M =
     (let expired = filter (\<lambda>x. sweep_expired now (op M x)) (map snd (sm_globalOpenTable M))
      in drop_opens expired (fold end_durability expired M))"

subsection \<open>Logging off and hanging up\<close>

definition logoff :: "int \<Rightarrow> cref \<Rightarrow> u64 \<Rightarrow> smb \<Rightarrow> u32 \<times> smb" where
  "logoff now c sid M =
     (case cn_sessionTable (cn M c) sid of
        None \<Rightarrow> (STATUS_USER_SESSION_DELETED, M)
      | Some r \<Rightarrow>
          (case deregisterSession c (ss_sessionID (se M r)) (orphanDurableOpens now r M) of
             (Inl _, M) \<Rightarrow> (STATUS_USER_SESSION_DELETED, M)
           | (Inr _, M) \<Rightarrow> (STATUS_OK, M)))"

text \<open>A connection that goes: it is no channel any more of the sessions it carried, and those without one go with it.\<close>

definition unbind_from :: "cref \<Rightarrow> sref \<Rightarrow> smb \<Rightarrow> smb" where
  "unbind_from c r M = upd_sess r (unbindChannel c (cn_clientName (cn M c))) M"

definition drop_if_empty :: "int \<Rightarrow> cref \<Rightarrow> sref \<Rightarrow> smb \<Rightarrow> smb" where
  "drop_if_empty now c r M =
     (if ss_channelList (se M r) = [] then snd (deregisterSession c (ss_sessionID (se M r)) (orphanDurableOpens now r M)) else M)"

definition close_sessions :: "int \<Rightarrow> cref \<Rightarrow> sref list \<Rightarrow> smb \<Rightarrow> smb" where
  "close_sessions now c sessions M = fold (drop_if_empty now c) sessions (fold (unbind_from c) sessions M)"

end
