(* ===== verification/Session_Invariants.thy ===== *)
theory Session_Invariants
  imports Sessions
begin

section \<open>What holds of sessions at every moment\<close>

text \<open>
  The handlers of \<open>Sessions\<close> as the steps of a server, in any order, on any connections and with anything a client may
  send. In every state they reach: a session that is up is protected the one way or the other unless there is no key
  to protect it with; the channels of a session are connections of the same client in the same dialect; and an open is
  held by one session at most, by none while it waits to be taken up again.
\<close>

subsection \<open>Steps\<close>

inductive srv_step :: "sess_env \<Rightarrow> smb \<Rightarrow> smb \<Rightarrow> bool" for E where
  negotiate: "cn_negotiateDialect (cn M c) = SMB_DIALECT_UNKNOWN \<Longrightarrow>
    srv_step E M (upd_conn c (\<lambda>k. k\<lparr>cn_negotiateDialect := d, cn_clientGuid := g, cn_clientCapabilities := cap, cn_shouldSign := sg,
      cn_cipherID := ci, cn_signingAlgorithmID := sa, cn_preauthIntegrityHashID := hi, cn_preauthIntegrityHashValue := hv\<rparr>) M)"
| set_up: "session_setup E c req sid rnd now answer M = Some (res, M') \<Longrightarrow> srv_step E M M'"
| log_off: "srv_step E M (snd (logoff now c sid M))"
| hang_up: "set sessions = ran (cn_sessionTable (cn M c)) \<Longrightarrow> srv_step E M (close_sessions now c sessions M)"
| tree_made: "srv_step E M (upd_sess r (\<lambda>ss. ss\<lparr>ss_treeConnectTable := AList.update tid share (ss_treeConnectTable ss)\<rparr>) M)"
| tree_closed: "srv_step E M (sess_closeTreeConnect r tid M)"
| opened: "(\<And>r' fid'. (fid', x) \<notin> set (ss_openTable (se M r'))) \<Longrightarrow> x \<notin> snd ` set (sm_globalOpenTable M) \<Longrightarrow>
    srv_step E M ((upd_sess r (\<lambda>ss. ss\<lparr>ss_openTable := AList.update fid x (ss_openTable ss)\<rparr>)
      (upd_open x (\<lambda>_. \<lparr>so_fileID = fid, so_durableFileID = did, so_isDurable = False, so_createGuid = [], so_durableTimeout = 0,
         so_disconnectTime = None, so_session = r, so_tree = tid, so_share = share, so_connection = c\<rparr>) M))
      \<lparr>sm_globalOpenTable := AList.update did x (sm_globalOpenTable M)\<rparr>)"
| made_durable: "srv_step E M (upd_open x (\<lambda>x. fst (grantDurability t guid x)) M)"
| closed: "srv_step E M (drop_opens [x] (upd_sess r (\<lambda>ss. ss\<lparr>ss_openTable := AList.delete (so_fileID (op M x)) (ss_openTable ss)\<rparr>) M))"
| reclaimed: "srv_step E M (snd (reclaimDurableOpen E c rec r tid share M))"
| swept: "srv_step E M (sweepDurableOpens now M)"

inductive reaches :: "sess_env \<Rightarrow> smb \<Rightarrow> smb \<Rightarrow> bool" for E where
  start: "reaches E M M"
| step: "reaches E M M' \<Longrightarrow> srv_step E M' M'' \<Longrightarrow> reaches E M M''"

text \<open>A server without sessions; the connections may come in any state that a negotiate leaves them in.\<close>

definition idle :: "smb \<Rightarrow> bool" where
  "idle M \<longleftrightarrow> (\<forall>r. se M r = newSessionState 0 0)"

subsection \<open>The invariants\<close>

definition protected :: "session \<Rightarrow> bool" where
  "protected ss \<longleftrightarrow> (ss_state ss = sessionValid \<longrightarrow>
     (if ss_isAnonymous ss \<or> ss_isGuest ss then \<not> ss_signingRequired ss \<and> \<not> ss_encryptData ss
      else ss_signingRequired ss \<noteq> ss_encryptData ss))"

definition channel_ok :: "smb \<Rightarrow> cref \<Rightarrow> string \<Rightarrow> channel \<Rightarrow> bool" where
  "channel_ok M own name ch \<longleftrightarrow>
     (let k = cn M (ch_connection ch) in
      cn_clientName k = name \<and> Is3X (cn_negotiateDialect k) \<and>
      cn_negotiateDialect k = cn_negotiateDialect (cn M own) \<and> cn_clientGuid k = cn_clientGuid (cn M own))"

definition channels_ok :: "smb \<Rightarrow> sref \<Rightarrow> bool" where
  "channels_ok M r \<longleftrightarrow> (\<forall>(name, ch) \<in> set (ss_channelList (se M r)). channel_ok M (ss_connection (se M r)) name ch)"

definition opens_ok :: "smb \<Rightarrow> bool" where
  "opens_ok M \<longleftrightarrow> (\<forall>r fid x. (fid, x) \<in> set (ss_openTable (se M r)) \<longrightarrow>
     so_session (op M x) = r \<and> so_fileID (op M x) = fid \<and> so_disconnectTime (op M x) = None)"

definition srv_inv :: "smb \<Rightarrow> bool" where
  "srv_inv M \<longleftrightarrow> (\<forall>r. protected (se M r)) \<and> (\<forall>r. channels_ok M r) \<and> opens_ok M"

subsection \<open>What a piece of a handler keeps\<close>

lemma upd_apply [simp]:
  "cn (upd_conn c f M) d = (if d = c then f (cn M c) else cn M d)" "se (upd_conn c f M) = se M" "op (upd_conn c f M) = op M"
  "cn (upd_sess r g M) = cn M" "se (upd_sess r g M) r' = (if r' = r then g (se M r) else se M r')" "op (upd_sess r g M) = op M"
  "cn (upd_open x h M) = cn M" "se (upd_open x h M) = se M" "op (upd_open x h M) x' = (if x' = x then h (op M x) else op M x')"
  "sm_globalOpenTable (upd_conn c f M) = sm_globalOpenTable M" "sm_globalOpenTable (upd_sess r g M) = sm_globalOpenTable M"
  "sm_globalOpenTable (upd_open x h M) = sm_globalOpenTable M"
  by (simp_all add: upd_conn_def upd_sess_def upd_open_def)

text \<open>All that the invariants look at of a connection.\<close>

definition static :: "conn \<Rightarrow> string \<times> u16 \<times> bytes" where
  "static k = (cn_clientName k, cn_negotiateDialect k, cn_clientGuid k)"

text \<open>All of them are kept, but for the protection of the sessions in \<open>S\<close>.\<close>

definition keeps_but :: "sref set \<Rightarrow> smb \<Rightarrow> smb \<Rightarrow> bool" where
  "keeps_but S M M' \<longleftrightarrow> (\<forall>c. static (cn M' c) = static (cn M c)) \<and> op M' = op M \<and>
     (\<forall>r. set (ss_openTable (se M' r)) \<subseteq> set (ss_openTable (se M r))) \<and>
     (\<forall>r. r \<notin> S \<longrightarrow> protected (se M r) \<longrightarrow> protected (se M' r)) \<and>
     (\<forall>r. channels_ok M r \<longrightarrow> channels_ok M' r)"

abbreviation keeps :: "smb \<Rightarrow> smb \<Rightarrow> bool" where "keeps \<equiv> keeps_but {}"

lemma keeps_refl [simp]: "keeps_but S M M"
  by (simp add: keeps_but_def)

lemma keeps_but_trans: "keeps_but S M M' \<Longrightarrow> keeps_but S M' M'' \<Longrightarrow> keeps_but S M M''"
  unfolding keeps_but_def by (auto, blast)

lemma keeps_weaken: "keeps M M' \<Longrightarrow> keeps_but S M M'"
  by (auto simp: keeps_but_def)

lemma channel_ok_static:
  assumes "\<And>c. static (cn M' c) = static (cn M c)"
  shows "channel_ok M' = channel_ok M"
proof (intro ext)
  fix own name ch
  show "channel_ok M' own name ch = channel_ok M own name ch"
    using assms[of "ch_connection ch"] assms[of own] by (auto simp: channel_ok_def static_def Let_def)
qed

lemma keeps_tables: "cn M' = cn M \<Longrightarrow> se M' = se M \<Longrightarrow> op M' = op M \<Longrightarrow> keeps_but S M M'"
  by (simp add: keeps_but_def channels_ok_def channel_ok_def)

lemma keeps_conn:
  assumes "\<And>k. static (f k) = static k"
  shows "keeps_but S M (upd_conn c f M)"
proof -
  have s: "static (cn (upd_conn c f M) d) = static (cn M d)" for d using assms by simp
  show ?thesis unfolding keeps_but_def channels_ok_def channel_ok_static[of "upd_conn c f M" M, OF s] using s by simp
qed

lemma keeps_sess:
  assumes "ss_connection (f (se M r)) = ss_connection (se M r)" "set (ss_openTable (f (se M r))) \<subseteq> set (ss_openTable (se M r))"
    and "r \<in> S \<or> (protected (se M r) \<longrightarrow> protected (f (se M r)))"
    and "\<And>name ch. channels_ok M r \<Longrightarrow> (name, ch) \<in> set (ss_channelList (f (se M r))) \<Longrightarrow>
      (name, ch) \<in> set (ss_channelList (se M r)) \<or> channel_ok M (ss_connection (se M r)) name ch"
  shows "keeps_but S M (upd_sess r f M)"
proof -
  have c: "channel_ok (upd_sess r f M) = channel_ok M" by (intro ext) (simp add: channel_ok_def)
  have "channels_ok (upd_sess r f M) q" if "channels_ok M q" for q
    using that assms(1,4) unfolding channels_ok_def c by (fastforce simp: channels_ok_def)
  then show ?thesis using assms(2,3) by (auto simp: keeps_but_def)
qed

lemma keeps_fold: "(\<And>x N. keeps_but S N (f x N)) \<Longrightarrow> keeps_but S M (fold f xs M)"
  by (induction xs arbitrary: M) (auto intro: keeps_but_trans)

subsection \<open>The pieces\<close>

lemma keeps_drop_opens: "keeps_but S M (drop_opens xs M)"
  by (rule keeps_tables) (simp_all add: drop_opens_def)

lemma keeps_forget: "keeps_but S M (forget_session sid c M)"
  unfolding forget_session_def by (rule keeps_conn) (simp add: static_def)

lemma keeps_closeTreeConnect: "keeps_but S M (sess_closeTreeConnect r tid M)"
proof -
  have o: "op (drop_opens xs M) = op M" "se (drop_opens xs M) = se M" for xs by (simp_all add: drop_opens_def)
  show ?thesis
    unfolding sess_closeTreeConnect_def Let_def
    by (auto intro!: keeps_but_trans[OF keeps_drop_opens keeps_sess] simp: o protected_def)
qed

lemma keeps_no_channels: "keeps_but S M (upd_sess r (\<lambda>ss. ss\<lparr>ss_channelList := []\<rparr>) M)"
  by (rule keeps_sess) (simp_all add: protected_def)

lemma keeps_deregister: "keeps_but S M (snd (deregisterSession c sid M))"
proof (cases "cn_sessionTable (cn M c) sid")
  case (Some r)
  define M1 where "M1 = forget_session sid c M"
  define M2 where "M2 = drop_opens (map snd (ss_openTable (se M1 r))) M1"
  define M3 where "M3 = fold (sess_closeTreeConnect r) (map fst (ss_treeConnectTable (se M2 r))) M2"
  define M4 where "M4 = upd_sess r (\<lambda>ss. ss\<lparr>ss_channelList := []\<rparr>) M3"
  define M5 where "M5 = fold (forget_session sid) (map (ch_connection \<circ> snd) (ss_channelList (se M3 r)) @ [c]) M4"
  have "keeps_but S M M1" "keeps_but S M1 M2" "keeps_but S M2 M3" "keeps_but S M3 M4" "keeps_but S M4 M5"
    unfolding M1_def M2_def M3_def M4_def M5_def
    by (rule keeps_forget keeps_drop_opens keeps_fold keeps_closeTreeConnect keeps_no_channels)+
  then have "keeps_but S M M5" by (blast intro: keeps_but_trans)
  moreover have "snd (deregisterSession c sid M)
    = M5\<lparr>sm_globalSessionTable := (sm_globalSessionTable M5)(sid := None), sm_SOpens := sm_SOpens M5 - 1\<rparr>"
    using Some by (simp add: deregisterSession_def Let_def M1_def M2_def M3_def M4_def M5_def)
  moreover have "keeps_but S M5 (M5\<lparr>sm_globalSessionTable := (sm_globalSessionTable M5)(sid := None), sm_SOpens := sm_SOpens M5 - 1\<rparr>)"
    by (rule keeps_tables) simp_all
  ultimately show ?thesis by (metis keeps_but_trans)
qed (simp add: deregisterSession_def)

lemma channel_ok_own: "Is3X (cn_negotiateDialect (cn M own)) \<Longrightarrow> cn_clientName (cn M own) = name \<Longrightarrow> ch_connection ch = own \<Longrightarrow> channel_ok M own name ch"
  by (simp add: channel_ok_def)

lemma set_update: "(k, v) \<in> set (AList.update k' v' al) \<Longrightarrow> (k, v) \<in> set al \<or> k = k' \<and> v = v'"
  by (induction al) (auto split: if_split_asm)

lemma bindChannel_set:
  "(name, ch) \<in> set (ss_channelList (bindChannel c n key ss)) \<Longrightarrow> (name, ch) \<in> set (ss_channelList ss) \<or> name = n \<and> ch_connection ch = c"
  by (auto simp: bindChannel_def Let_def split: option.split_asm if_split_asm dest!: set_update)

lemma addChannel_set:
  "(name, ch) \<in> set (ss_channelList (addChannel c n ss)) \<Longrightarrow> (name, ch) \<in> set (ss_channelList ss) \<or> name = n \<and> ch_connection ch = c"
  by (auto simp: addChannel_def split: option.split_asm if_split_asm dest!: set_update)

lemma unbindChannel_set: "set (ss_channelList (unbindChannel c n ss)) \<subseteq> set (ss_channelList ss)"
  by (auto simp: unbindChannel_def AList.delete_eq split: option.split)

lemma channel_frames [simp]:
  "ss_connection (bindChannel c n key ss) = ss_connection ss" "ss_openTable (bindChannel c n key ss) = ss_openTable ss"
  "protected (bindChannel c n key ss) = protected ss"
  "ss_connection (addChannel c n ss) = ss_connection ss" "ss_openTable (addChannel c n ss) = ss_openTable ss"
  "protected (addChannel c n ss) = protected ss"
  "ss_connection (unbindChannel c n ss) = ss_connection ss" "ss_openTable (unbindChannel c n ss) = ss_openTable ss"
  "protected (unbindChannel c n ss) = protected ss"
  by (simp_all add: bindChannel_def addChannel_def unbindChannel_def protected_def Let_def split: option.split)

lemma deriveKeys_frames [simp]:
  "ss_connection (deriveKeys E d ss) = ss_connection ss" "ss_openTable (deriveKeys E d ss) = ss_openTable ss"
  "ss_channelList (deriveKeys E d ss) = ss_channelList ss" "ss_state (deriveKeys E d ss) = ss_state ss"
  "ss_isAnonymous (deriveKeys E d ss) = ss_isAnonymous ss" "ss_isGuest (deriveKeys E d ss) = ss_isGuest ss"
  "ss_signingRequired (deriveKeys E d ss) = ss_signingRequired ss" "ss_encryptData (deriveKeys E d ss) = ss_encryptData ss"
  by (simp_all add: deriveKeys_def)

text \<open>After \<open>finalize\<close>, whoever has no key to protect with has nothing asked of it; and the rest is settled behind it.\<close>

definition keyless_free :: "session \<Rightarrow> bool" where
  "keyless_free ss \<longleftrightarrow> (ss_isAnonymous ss \<or> ss_isGuest ss \<longrightarrow> \<not> ss_signingRequired ss \<and> \<not> ss_encryptData ss)"

lemma finalize_session_keyless: "keyless_free (finalize_session E k n b req ss)"
proof -
  have "keyless_free (bindChannel c m key ss) = keyless_free ss" for c m key ss
    by (simp add: keyless_free_def bindChannel_def Let_def)
  then show ?thesis by (simp add: finalize_session_def Let_def keyless_free_def)
qed

lemma finalize_session_frames:
  "ss_connection (finalize_session E k n b req ss) = ss_connection ss"
  "ss_openTable (finalize_session E k n b req ss) = ss_openTable ss"
  by (simp_all add: finalize_session_def Let_def)

lemma finalize_session_channels:
  "(name, ch) \<in> set (ss_channelList (finalize_session E k n b req ss)) \<Longrightarrow>
    (name, ch) \<in> set (ss_channelList ss) \<or> Is3X (cn_negotiateDialect k) \<and> name = cn_clientName k \<and> ch_connection ch = ss_connection ss"
  unfolding finalize_session_def Let_def by (auto split: if_split_asm dest!: bindChannel_set)

lemma finalize_keeps:
  assumes "finalize E req r M = Some M'"
  shows "keeps_but {r} M M' \<and> keyless_free (se M' r)"
proof -
  let ?c = "ss_connection (se M r)"
  obtain n where n: "ntlm_sess (cn_ntlmServer (cn M ?c)) = Some n" using assms by (auto simp: finalize_def Let_def split: option.split_asm)
  define M1 where "M1 = upd_sess r (finalize_session E (cn M ?c) n (sm_encryptData M) req) M"
  have k1: "keeps_but {r} M M1" unfolding M1_def
  proof (rule keeps_sess)
    fix name ch
    assume "(name, ch) \<in> set (ss_channelList (finalize_session E (cn M ?c) n (sm_encryptData M) req (se M r)))"
    then show "(name, ch) \<in> set (ss_channelList (se M r)) \<or> channel_ok M ?c name ch"
      by (auto dest!: finalize_session_channels intro: channel_ok_own)
  qed (simp_all add: finalize_session_frames)
  have f1: "keyless_free (se M1 r)" by (simp add: M1_def finalize_session_keyless)
  have "M' = M1 \<or> (\<exists>sid T. M' = (forget_session sid ?c M1)\<lparr>sm_globalSessionTable := T\<rparr>)"
    using assms n by (auto simp: finalize_def Let_def M1_def forget_session_def split: option.split_asm if_split_asm)
  then show ?thesis
  proof (elim disjE exE)
    fix sid T assume m: "M' = (forget_session sid ?c M1)\<lparr>sm_globalSessionTable := T\<rparr>"
    have "keeps_but {r} (forget_session sid ?c M1) M'" by (rule keeps_tables) (simp_all add: m)
    moreover have "se M' = se M1" by (simp add: m forget_session_def)
    ultimately show ?thesis using k1 f1 keeps_but_trans[OF k1 keeps_but_trans[OF keeps_forget]] by simp
  qed (use k1 f1 in simp)
qed

lemma protect_account_protected: "keyless_free ss \<Longrightarrow> protected (activate (protect_account k b ss))"
  by (auto simp: keyless_free_def protected_def activate_def protect_account_def)

lemma protect_account_frames:
  "ss_connection (activate (protect_account k b ss)) = ss_connection ss" "ss_openTable (activate (protect_account k b ss)) = ss_openTable ss"
  "ss_channelList (activate (protect_account k b ss)) = ss_channelList ss"
  by (simp_all add: activate_def protect_account_def)

lemma keeps_protect:
  assumes "keeps_but {r} M M'" "keyless_free (se M' r)"
  shows "keeps M (upd_sess r (\<lambda>ss. activate (protect_account k b ss)) M')"
proof -
  let ?f = "\<lambda>ss. activate (protect_account k b ss)"
  have "keeps_but {r} M (upd_sess r ?f M')"
    by (rule keeps_but_trans[OF assms(1)], rule keeps_sess) (simp_all add: protect_account_frames)
  moreover have "protected (se (upd_sess r ?f M') r)" using assms(2) by (simp add: protect_account_protected)
  ultimately show ?thesis by (auto simp: keeps_but_def)
qed

lemma keeps_ntlm: "keeps_but S M (upd_conn c (\<lambda>k. k\<lparr>cn_ntlmServer := n\<rparr>) M)"
  by (rule keeps_conn) (simp add: static_def)

lemma keeps_clients: "keeps_but S M (M\<lparr>sm_globalClientTable := T\<rparr>)" "keeps_but S M (M\<lparr>sm_PwErrors := n\<rparr>)"
  by (rule keeps_tables; simp)+

lemma setup_authenticate_keeps:
  assumes "setup_authenticate E c req r M = Some (res, M')"
  shows "keeps M M'"
proof -
  let ?tok = "case DecodeNegTokenResp E (sr_SecurityBuffer req) of Some t \<Rightarrow> t | None \<Rightarrow> sr_SecurityBuffer req"
  consider (bad) e where "Authenticate (se_ntlm E) ?tok (cn_ntlmServer (cn M c)) = Some (Inl e)"
    | (good) n where "Authenticate (se_ntlm E) ?tok (cn_ntlmServer (cn M c)) = Some (Inr n)"
    using assms by (auto simp: setup_authenticate_def Let_def split: option.split_asm sum.split_asm)
  then show ?thesis
  proof cases
    case bad
    define M1 where "M1 = snd (deregisterSession c (ss_sessionID (se M r)) M)"
    have "M' = M1\<lparr>sm_PwErrors := sm_PwErrors M1 + 1\<rparr>" using assms bad by (simp add: setup_authenticate_def Let_def M1_def)
    then show ?thesis using keeps_but_trans[OF keeps_deregister keeps_clients(2)] by (simp add: M1_def)
  next
    case good
    define M0 where "M0 = upd_conn c (\<lambda>k. k\<lparr>cn_ntlmServer := n\<rparr>) M"
    obtain M1 where f: "finalize E req r M0 = Some M1"
      using assms good by (auto simp: setup_authenticate_def Let_def M0_def bind_eq_Some_conv)
    define M2 where "M2 = upd_sess r (\<lambda>ss. activate (protect_account (cn M1 c) (sm_encryptData M1) ss)) M1"
    have "keeps M0 M2" unfolding M2_def using keeps_protect finalize_keeps[OF f] by blast
    then have k2: "keeps M M2" using keeps_but_trans[OF keeps_ntlm] by (simp add: M0_def)
    have "M' = M2 \<or> (\<exists>T. M' = M2\<lparr>sm_globalClientTable := T\<rparr>) \<or> M' = snd (deregisterSession c (ss_sessionID (se M2 r)) M2)"
      using assms good f by (auto simp: setup_authenticate_def Let_def M0_def[symmetric] M2_def split: if_split_asm option.split_asm)
    then show ?thesis using k2 keeps_but_trans[OF k2 keeps_clients(1)] keeps_but_trans[OF k2 keeps_deregister] by auto
  qed
qed

lemma challenge_answer_keeps: "keeps M (snd (challenge_answer E c wrapped answer r res M))"
proof -
  have "keeps M (upd_sess r (\<lambda>ss. ss\<lparr>ss_preauthHash := h ss\<rparr>) M)" for h
    by (rule keeps_sess) (simp_all add: protected_def)
  then show ?thesis by (simp add: challenge_answer_def Let_def keeps_deregister split: sum.split option.split)
qed

lemma setup_challenge_keeps:
  assumes "setup_challenge E c req rnd now answer r M = Some (res, M')"
  shows "keeps M M'"
proof -
  obtain n wrapped ch where "challenge_answer E c wrapped answer r ch (upd_conn c (\<lambda>k. k\<lparr>cn_ntlmServer := n\<rparr>) M) = (res, M')"
    using assms unfolding setup_challenge_def Let_def by (auto simp: bind_eq_Some_conv split: prod.split_asm)
  then show ?thesis using keeps_but_trans[OF keeps_ntlm challenge_answer_keeps] by (metis snd_conv)
qed

lemma registerSession_keeps:
  assumes "registerSession E sid c req M = (res, M')"
  shows "keeps M M'"
proof -
  have new: "keeps M ((upd_conn c (\<lambda>k. k\<lparr>cn_sessionTable := T\<rparr>) M)\<lparr>sm_sess := (sm_sess M)(r := ss), sm_next := n, sm_globalSessionTable := G, sm_SOpens := z\<rparr>)"
    if "ss_openTable ss = []" "ss_channelList ss = []" "ss_state ss = sessionInProgress" for T r ss n G z
  proof -
    let ?M = "(upd_conn c (\<lambda>k. k\<lparr>cn_sessionTable := T\<rparr>) M)\<lparr>sm_sess := (sm_sess M)(r := ss), sm_next := n, sm_globalSessionTable := G, sm_SOpens := z\<rparr>"
    have s: "static (cn ?M d) = static (cn M d)" for d by (simp add: static_def)
    show ?thesis unfolding keeps_but_def channels_ok_def channel_ok_static[of ?M M, OF s] using that s by (simp add: protected_def)
  qed
  have old: "keeps M (upd_sess r (\<lambda>ss. if ss_state ss = sessionExpired
      then ss\<lparr>ss_state := sessionInProgress, ss_securityContext := no_context\<rparr> else ss) M)" for r
    by (rule keeps_sess) (auto simp: protected_def split: if_split_asm)
  show ?thesis
  proof (cases "sr_SessionID req = 0")
    case True
    then show ?thesis using assms by (auto simp: registerSession_def Let_def newSessionState_def upd_conn_def intro!: new[unfolded upd_conn_def, simplified])
  next
    case False
    then show ?thesis using assms old by (auto simp: registerSession_def split: option.split_asm)
  qed
qed

lemma prepareBinding_ok:
  assumes "prepareBinding c req M = (Inr r, M')"
  shows "keeps M M' \<and> se M' = se M \<and> cn_negotiateDialect (cn M c) = cn_negotiateDialect (cn M (ss_connection (se M r)))
    \<and> cn_clientGuid (cn M c) = cn_clientGuid (cn M (ss_connection (se M r)))"
  using assms by (auto simp: prepareBinding_def Let_def static_def split: option.split_asm if_split_asm intro!: keeps_conn)

lemma prepareBinding_fails: "prepareBinding c req M = (Inl st, M') \<Longrightarrow> M' = M"
  by (auto simp: prepareBinding_def Let_def split: option.split_asm if_split_asm)

lemma keeps_preauth: "keeps_but S M (upd_conn c (updatePreauthHash E sid msg) M)" "keeps_but S M (upd_conn c (dropPreauthSession sid) M)"
  "keeps_but S M (upd_conn c (\<lambda>k. snd (takePreauthHash sid k)) M)"
  by (rule keeps_conn; simp add: static_def updatePreauthHash_def dropPreauthSession_def takePreauthHash_def split: option.split)+

text \<open>Who binds has the dialect and the client of the session it binds.\<close>

lemma bind_user_keeps:
  assumes "channel_ok M (ss_connection (se M r)) (cn_clientName (cn M c)) \<lparr>ch_signingKey = [], ch_connection = c\<rparr>"
  shows "keeps M (snd (bind_user E c sid ns r M))"
proof -
  let ?name = "cn_clientName (cn M c)"
  define M1 where "M1 = upd_conn c (\<lambda>k. k\<lparr>cn_sessionTable := (cn_sessionTable k)(sid \<mapsto> r)\<rparr>) M"
  define M2 where "M2 = upd_sess r (addChannel c ?name) M1"
  define M3 where "M3 = upd_conn c (\<lambda>k. snd (takePreauthHash sid k)) M2"
  have k1: "keeps M M1" unfolding M1_def by (rule keeps_conn) (simp add: static_def)
  have ok: "channel_ok N own ?name ch" if "keeps M N" "own = ss_connection (se M r)" "ch_connection ch = c" for N own ch
  proof -
    have "channel_ok N = channel_ok M" by (rule channel_ok_static) (use that(1) in \<open>simp add: keeps_but_def\<close>)
    then show ?thesis using assms that(2,3) by (simp add: channel_ok_def)
  qed
  have se1: "se M1 = se M" by (simp add: M1_def)
  have k2: "keeps M1 M2" unfolding M2_def
  proof (rule keeps_sess)
    fix name ch assume "(name, ch) \<in> set (ss_channelList (addChannel c ?name (se M1 r)))"
    then show "(name, ch) \<in> set (ss_channelList (se M1 r)) \<or> channel_ok M1 (ss_connection (se M1 r)) name ch"
      using addChannel_set ok[OF k1] se1 by metis
  qed simp_all
  have k3: "keeps M2 M3" unfolding M3_def by (rule keeps_preauth)
  have k: "keeps M M3" using k1 k2 k3 by (blast intro: keeps_but_trans)
  have "ss_connection (se M3 r) = ss_connection (se M r)" by (simp add: M3_def M2_def M1_def)
  then have "keeps M3 (upd_sess r (bindChannel c ?name key) M3)" for key
    using bindChannel_set ok[OF k] by (intro keeps_sess) (simp_all, metis)
  then have "keeps M (upd_sess r (bindChannel c ?name key) M3)" for key using keeps_but_trans[OF k] by blast
  then show ?thesis
    by (simp add: bind_user_def Let_def keeps_preauth(2) M1_def M2_def M3_def)
qed

lemma bindSession_keeps:
  assumes "bindSession E c req rnd now r M = Some (res, M')"
    and "channel_ok M (ss_connection (se M r)) (cn_clientName (cn M c)) \<lparr>ch_signingKey = [], ch_connection = c\<rparr>"
  shows "keeps M M'"
proof -
  let ?sid = "ss_sessionID (se M r)"
  define M1 where "M1 = upd_conn c (updatePreauthHash E ?sid (sr_message req)) M"
  have k1: "keeps M M1" unfolding M1_def by (rule keeps_preauth)
  obtain token a where t: "bindingToken E (sr_SecurityBuffer req) = Some (token, a)"
    using assms(1) by (auto simp: bindSession_def Let_def bind_eq_Some_conv)
  consider (chal) n w x where "bind_challenge E c ?sid w r x (upd_conn c (\<lambda>k. k\<lparr>cn_ntlmServer := n\<rparr>) M1) = (res, M')"
    | (bad) "M' = (upd_conn c (dropPreauthSession ?sid) M1)\<lparr>sm_PwErrors := sm_PwErrors M1 + 1\<rparr>"
    | (good) n ns where "bind_user E c ?sid ns r (upd_conn c (\<lambda>k. k\<lparr>cn_ntlmServer := n\<rparr>) M1) = (res, M')"
  proof (cases a)
    case False
    then show ?thesis using assms(1) t chal by (auto simp: bindSession_def Let_def M1_def bind_eq_Some_conv)
  next
    case True
    then obtain x where x: "Authenticate (se_ntlm E) token (cn_ntlmServer (cn M1 c)) = Some x"
      using assms(1) t by (auto simp: bindSession_def Let_def M1_def bind_eq_Some_conv)
    show ?thesis
    proof (cases x)
      case (Inl e)
      then show ?thesis using assms(1) t True x bad by (simp add: bindSession_def Let_def M1_def)
    next
      case (Inr n)
      then show ?thesis using assms(1) t True x good by (auto simp: bindSession_def Let_def M1_def bind_eq_Some_conv)
    qed
  qed
  then show ?thesis
  proof cases
    case chal
    have "keeps N (snd (bind_challenge E c ?sid w r x N))" for N
      by (simp add: bind_challenge_def keeps_preauth split: sum.split option.split)
    then show ?thesis using chal k1 keeps_ntlm by (metis keeps_but_trans snd_conv)
  next
    case bad
    then show ?thesis using keeps_but_trans[OF k1 keeps_but_trans[OF keeps_preauth(2) keeps_clients(2)]] by simp
  next
    case good
    let ?M2 = "upd_conn c (\<lambda>k. k\<lparr>cn_ntlmServer := n\<rparr>) M1"
    have k2: "keeps M ?M2" using k1 keeps_ntlm by (blast intro: keeps_but_trans)
    have "channel_ok ?M2 = channel_ok M" by (rule channel_ok_static) (use k2 in \<open>simp add: keeps_but_def\<close>)
    then have "channel_ok ?M2 (ss_connection (se ?M2 r)) (cn_clientName (cn ?M2 c)) \<lparr>ch_signingKey = [], ch_connection = c\<rparr>"
      using assms(2) k2 by (simp add: keeps_but_def static_def M1_def updatePreauthHash_def split: option.split)
    then show ?thesis using keeps_but_trans[OF k2 bind_user_keeps] good by (metis snd_conv)
  qed
qed

lemma session_setup_keeps:
  assumes "session_setup E c req sid rnd now answer M = Some (res, M')"
  shows "keeps M M'"
proof (cases "Is3X (cn_negotiateDialect (cn M c)) \<and> sr_binding req")
  case True
  show ?thesis
  proof (cases "prepareBinding c req M")
    case (Pair p M1)
    show ?thesis
    proof (cases p)
      case (Inl st)
      then show ?thesis using assms True Pair prepareBinding_fails[of c req M st M1]
        by (auto simp: session_setup_def Let_def split: if_split_asm)
    next
      case (Inr r)
      note p = prepareBinding_ok[OF Pair[unfolded Inr]]
      consider "M' = M" | "bindSession E c req rnd now r M1 = Some (res, M')"
        using assms True Pair Inr by (auto simp: session_setup_def Let_def split: if_split_asm)
      then show ?thesis
      proof cases
        case 2
        have "channel_ok M1 = channel_ok M" by (rule channel_ok_static) (use p in \<open>simp add: keeps_but_def\<close>)
        moreover have "cn_clientName (cn M1 c) = cn_clientName (cn M c)" using p by (simp add: keeps_but_def static_def)
        ultimately have "channel_ok M1 (ss_connection (se M1 r)) (cn_clientName (cn M1 c)) \<lparr>ch_signingKey = [], ch_connection = c\<rparr>"
          using p True by (simp add: channel_ok_def)
        then show ?thesis using bindSession_keeps[OF 2] p by (blast intro: keeps_but_trans)
      qed simp
    qed
  qed
next
  case False
  show ?thesis
  proof (cases "registerSession E sid c req M")
    case (Pair p M1)
    then have "keeps M M1" by (rule registerSession_keeps)
    moreover have "M' = M \<or> M' = M1 \<or> (\<exists>r. setup_authenticate E c req r M1 = Some (res, M')) \<or> (\<exists>r. setup_challenge E c req rnd now answer r M1 = Some (res, M'))"
      using assms False Pair by (auto simp: session_setup_def Let_def split: if_split_asm sum.split_asm)
    ultimately show ?thesis using setup_authenticate_keeps setup_challenge_keeps keeps_but_trans keeps_refl by metis
  qed
qed

subsection \<open>Opens\<close>

lemma orphan_fold:
  "cn (fold (orphan_open now) xs M) = cn M" "se (fold (orphan_open now) xs M) = se M"
  "op (fold (orphan_open now) xs M) x = (if x \<in> set xs then (op M x)\<lparr>so_disconnectTime := Some now\<rparr> else op M x)"
  by (induction xs arbitrary: M) (simp_all add: orphan_open_def)

lemma keeps_opens: "keeps M M' \<Longrightarrow> opens_ok M \<Longrightarrow> opens_ok M'"
  by (simp add: keeps_but_def opens_ok_def) blast

lemma keeps_inv:
  assumes "keeps M M'" "srv_inv M"
  shows "srv_inv M'"
proof -
  have "opens_ok M'" using keeps_opens[OF assms(1)] assms(2) by (simp add: srv_inv_def)
  then show ?thesis using assms by (simp add: srv_inv_def keeps_but_def)
qed

text \<open>A piece that leaves connections, channels and protection alone.\<close>

lemma inv_frame:
  assumes "srv_inv M" "cn M' = cn M" "opens_ok M'"
    and "\<And>r. protected (se M r) \<Longrightarrow> protected (se M' r)"
    and "\<And>r. ss_channelList (se M' r) = ss_channelList (se M r) \<and> ss_connection (se M' r) = ss_connection (se M r)"
  shows "srv_inv M'"
proof -
  have "channel_ok M' = channel_ok M" by (rule channel_ok_static) (simp add: assms(2))
  then show ?thesis using assms(1,3,4,5) by (auto simp: srv_inv_def channels_ok_def)
qed

lemma opens_ok_orphan:
  assumes "opens_ok M"
  shows "opens_ok (orphanDurableOpens now r M)"
proof -
  let ?M = "orphanDurableOpens now r M"
  let ?xs = "filter (\<lambda>x. so_isDurable (op M x)) (map snd (ss_openTable (se M r)))"
  have s: "set (ss_openTable (se ?M q)) \<subseteq> set (ss_openTable (se M q))"
    "(fid, x) \<in> set (ss_openTable (se ?M r)) \<Longrightarrow> \<not> so_isDurable (op M x)" for q fid x
    by (auto simp: orphanDurableOpens_def Let_def orphan_fold)
  have "op ?M x = op M x" if "(fid, x) \<in> set (ss_openTable (se ?M q))" for q fid x
  proof -
    have "x \<notin> set ?xs"
    proof
      assume "x \<in> set ?xs"
      then obtain f where f: "(f, x) \<in> set (ss_openTable (se M r))" and d: "so_isDurable (op M x)" by auto
      moreover have "(fid, x) \<in> set (ss_openTable (se M q))" using that s(1) by blast
      ultimately have "q = r" using assms unfolding opens_ok_def by metis
      then show False using s(2) that d by blast
    qed
    then show ?thesis by (auto simp: orphanDurableOpens_def Let_def orphan_fold)
  qed
  note same = this
  show ?thesis unfolding opens_ok_def
  proof (intro allI impI)
    fix q fid x
    assume a: "(fid, x) \<in> set (ss_openTable (se ?M q))"
    then have "(fid, x) \<in> set (ss_openTable (se M q))" using s(1) by blast
    then show "so_session (op ?M x) = q \<and> so_fileID (op ?M x) = fid \<and> so_disconnectTime (op ?M x) = None"
      using assms same[OF a] by (simp add: opens_ok_def)
  qed
qed

lemma protected_openTable [simp]: "protected (ss\<lparr>ss_openTable := t\<rparr>) = protected ss"
  by (simp add: protected_def)

lemma inv_orphan:
  assumes "srv_inv M"
  shows "srv_inv (orphanDurableOpens now r M)"
proof -
  have "opens_ok (orphanDurableOpens now r M)" by (rule opens_ok_orphan) (use assms in \<open>simp add: srv_inv_def\<close>)
  moreover have "cn (orphanDurableOpens now r M) = cn M" by (simp add: orphanDurableOpens_def Let_def orphan_fold)
  moreover have "se (orphanDurableOpens now r M) q
      = (if q = r then (se M r)\<lparr>ss_openTable := filter (\<lambda>(fid, x). \<not> so_isDurable (op M x)) (ss_openTable (se M r))\<rparr> else se M q)" for q
    by (simp add: orphanDurableOpens_def Let_def orphan_fold)
  ultimately show ?thesis by (intro inv_frame[OF assms]) auto
qed

lemma inv_reclaim:
  assumes "srv_inv M"
  shows "srv_inv (snd (reclaimDurableOpen E c rec r tid share M))"
proof (cases "\<exists>x. map_of (sm_globalOpenTable M) (rec_DurableID rec) = Some x \<and> reclaim_granted E rec r share x M")
  case True
  then obtain x where x: "map_of (sm_globalOpenTable M) (rec_DurableID rec) = Some x" "reclaim_granted E rec r share x M" by blast
  let ?M = "snd (reclaimDurableOpen E c rec r tid share M)"
  have M: "?M = upd_sess r (\<lambda>ss. ss\<lparr>ss_openTable := AList.update (so_fileID (op M x)) x (ss_openTable ss)\<rparr>)
      (upd_open x (\<lambda>x. x\<lparr>so_session := r, so_tree := tid, so_share := share, so_connection := c, so_disconnectTime := None\<rparr>) M)"
    using x by (simp add: reclaimDurableOpen_def)
  have out: "(fid, x) \<notin> set (ss_openTable (se M q))" for fid q
    using x(2) assms by (auto simp: reclaim_granted_def srv_inv_def opens_ok_def)
  have "opens_ok ?M" unfolding opens_ok_def M
    using assms out by (auto simp: srv_inv_def opens_ok_def dest!: set_update split: if_split_asm)
  then show ?thesis by (rule inv_frame[OF assms, rotated]) (auto simp: M)
qed (auto simp: reclaimDurableOpen_def assms split: option.split)

lemma inv_sweep:
  assumes "srv_inv M"
  shows "srv_inv (sweepDurableOpens now M)"
proof -
  have f: "cn (fold end_durability xs M) = cn M" "se (fold end_durability xs M) = se M"
    "op (fold end_durability xs M) x = (if x \<in> set xs then (op M x)\<lparr>so_isDurable := False\<rparr> else op M x)" for xs x
    by (induction xs arbitrary: M) (simp_all add: end_durability_def)
  have "opens_ok (sweepDurableOpens now M)"
    using assms by (auto simp: sweepDurableOpens_def Let_def drop_opens_def f srv_inv_def opens_ok_def)
  then show ?thesis by (rule inv_frame[OF assms, rotated]) (simp_all add: sweepDurableOpens_def Let_def drop_opens_def f)
qed

text \<open>The steps that undo, one after the other.\<close>

lemma inv_deregister: "srv_inv M \<Longrightarrow> srv_inv (snd (deregisterSession c sid M))"
  by (rule keeps_inv[OF keeps_deregister])

lemma inv_logoff: "srv_inv M \<Longrightarrow> srv_inv (snd (logoff now c sid M))"
proof (cases "cn_sessionTable (cn M c) sid")
  case (Some r)
  assume "srv_inv M"
  then have "srv_inv (snd (deregisterSession c (ss_sessionID (se M r)) (orphanDurableOpens now r M)))"
    by (intro inv_deregister inv_orphan)
  then show ?thesis using Some by (auto simp: logoff_def split: prod.split sum.split)
qed (simp add: logoff_def)

lemma inv_fold: "(\<And>x N. srv_inv N \<Longrightarrow> srv_inv (f x N)) \<Longrightarrow> srv_inv M \<Longrightarrow> srv_inv (fold f xs M)"
  by (induction xs arbitrary: M) auto

lemma inv_unbind_from: "srv_inv M \<Longrightarrow> srv_inv (unbind_from c r M)"
  unfolding unbind_from_def by (rule keeps_inv[OF keeps_sess]) (use unbindChannel_set in auto)

lemma inv_drop_if_empty: "srv_inv M \<Longrightarrow> srv_inv (drop_if_empty now c r M)"
  by (simp add: drop_if_empty_def inv_deregister inv_orphan)

lemma inv_close_sessions: "srv_inv M \<Longrightarrow> srv_inv (close_sessions now c sessions M)"
  unfolding close_sessions_def by (intro inv_fold inv_drop_if_empty inv_unbind_from)

lemma inv_negotiate:
  assumes "srv_inv M" "cn_negotiateDialect (cn M c) = SMB_DIALECT_UNKNOWN" "\<And>k. cn_clientName (f k) = cn_clientName k"
  shows "srv_inv (upd_conn c f M)"
proof -
  have "\<not> Is3X SMB_DIALECT_UNKNOWN" by (simp add: Is3X_def SMB_DIALECT_UNKNOWN_def SMB_DIALECT_30_def SMB_DIALECT_302_def SMB_DIALECT_311_def)
  then have "channel_ok (upd_conn c f M) own name ch" if "channel_ok M own name ch" for own name ch
    using that assms(2) by (auto simp: channel_ok_def Let_def)
  then have "channels_ok (upd_conn c f M) r" if "channels_ok M r" for r using that by (auto simp: channels_ok_def)
  then show ?thesis using assms(1) by (simp add: srv_inv_def opens_ok_def)
qed

lemma inv_opened:
  assumes "srv_inv M" "\<And>r' fid'. (fid', x) \<notin> set (ss_openTable (se M r'))"
    and "so_session o' = r" "so_fileID o' = fid" "so_disconnectTime o' = None"
  shows "srv_inv ((upd_sess r (\<lambda>ss. ss\<lparr>ss_openTable := AList.update fid x (ss_openTable ss)\<rparr>) (upd_open x (\<lambda>_. o') M))
    \<lparr>sm_globalOpenTable := t\<rparr>)" (is "srv_inv ?M")
proof (rule inv_frame[OF assms(1)])
  show "opens_ok ?M" unfolding opens_ok_def
    using assms by (auto simp: srv_inv_def opens_ok_def dest!: set_update split: if_split_asm)
qed auto

lemma inv_op:
  assumes "srv_inv M" "\<And>y. so_session (f y) = so_session y \<and> so_fileID (f y) = so_fileID y \<and> so_disconnectTime (f y) = so_disconnectTime y"
  shows "srv_inv (upd_open x f M)"
  by (rule inv_frame[OF assms(1)]) (use assms in \<open>auto simp: srv_inv_def opens_ok_def\<close>)

lemma keeps_treeTable: "keeps M (upd_sess r (\<lambda>ss. ss\<lparr>ss_treeConnectTable := f ss\<rparr>) M)"
  by (rule keeps_sess) (simp_all add: protected_def)

lemma keeps_closed: "keeps M (upd_sess r (\<lambda>ss. ss\<lparr>ss_openTable := AList.delete fid (ss_openTable ss)\<rparr>) M)"
  by (rule keeps_sess) (auto simp: AList.delete_eq)

lemma srv_step_inv: "srv_step E M M' \<Longrightarrow> srv_inv M \<Longrightarrow> srv_inv M'"
proof (induction rule: srv_step.induct)
  case (negotiate M c d g cap sg ci sa hi hv)
  then show ?case by (intro inv_negotiate) simp_all
next
  case (set_up c req sid rnd now answer M res M')
  then show ?case by (blast intro: keeps_inv session_setup_keeps)
next
  case (opened x M r fid did tid share c)
  then show ?case by (intro inv_opened) simp_all
next
  case (made_durable M x t guid)
  then show ?case by (intro inv_op) (simp_all add: grantDurability_def Let_def)
next
  case (closed M x r)
  then show ?case by (rule keeps_inv[OF keeps_but_trans[OF keeps_closed keeps_drop_opens]])
qed (auto intro: inv_logoff inv_close_sessions keeps_inv[OF keeps_treeTable] keeps_inv[OF keeps_closeTreeConnect] inv_reclaim inv_sweep)

lemma idle_inv: "idle M \<Longrightarrow> srv_inv M"
  by (simp add: idle_def srv_inv_def protected_def channels_ok_def opens_ok_def newSessionState_def)

lemma reaches_inv: "reaches E M M' \<Longrightarrow> idle M \<Longrightarrow> srv_inv M'"
  by (induction rule: reaches.induct) (auto intro: idle_inv srv_step_inv)

subsection \<open>What follows\<close>


text \<open>C19 (open_has_one_owner). In every state a server gets into an open is in the table of one session at most, under one
  id; that session is the one it names; and an open that waits to be taken up again is in no table at all, so no
  request of any session reaches it until it is reclaimed.\<close>

theorem open_has_one_owner:
  assumes "idle M" "reaches E M M'"
  shows "((fid, x) \<in> set (ss_openTable (se M' r)) \<longrightarrow> so_disconnectTime (op M' x) = None \<and> so_session (op M' x) = r)
    \<and> ((fid, x) \<in> set (ss_openTable (se M' r)) \<longrightarrow> (fid', x) \<in> set (ss_openTable (se M' r')) \<longrightarrow> r' = r \<and> fid' = fid)"
proof -
  have "srv_inv M'" using assms(2,1) by (rule reaches_inv)
  then show ?thesis unfolding srv_inv_def opens_ok_def by metis
qed

text \<open>Which steps give an open to another session.\<close>

lemma orphan_session: "so_session (op (orphanDurableOpens now r M) x) = so_session (op M x)"
  by (simp add: orphanDurableOpens_def Let_def orphan_fold)

lemma op_deregister: "op (snd (deregisterSession c sid M)) = op M"
  using keeps_deregister[of "{}" M c sid] by (simp add: keeps_but_def)

lemma session_logoff: "so_session (op (snd (logoff now c sid M)) x) = so_session (op M x)"
proof (cases "cn_sessionTable (cn M c) sid")
  case (Some r)
  then show ?thesis
    using op_deregister[of c "ss_sessionID (se M r)" "orphanDurableOpens now r M"] orphan_session[of now r M x]
    by (auto simp: logoff_def split: prod.split sum.split)
qed (simp add: logoff_def)

lemma session_hang_up: "so_session (op (close_sessions now c sessions M) x) = so_session (op M x)"
proof -
  have 1: "op (fold (unbind_from c) sessions M) = op M"
    by (induction sessions arbitrary: M) (simp_all add: unbind_from_def)
  have "so_session (op (fold (drop_if_empty now c) sessions N) x) = so_session (op N x)" for N
    by (induction sessions arbitrary: N) (simp_all add: drop_if_empty_def op_deregister orphan_session)
  then show ?thesis by (simp add: close_sessions_def 1)
qed

lemma session_sweep: "so_session (op (sweepDurableOpens now M) x) = so_session (op M x)"
proof -
  have "so_session (op (fold end_durability xs M) x) = so_session (op M x)" for xs
    by (induction xs arbitrary: M) (simp_all add: end_durability_def)
  then show ?thesis by (simp add: sweepDurableOpens_def Let_def drop_opens_def)
qed

text \<open>C20 (durable_handle_keeps_its_owner). Whatever step the server takes, a live open passes to another session only when
  it was durable, was waiting after its session had gone, and the user and the workgroup of the session that takes it
  up are those of the session that left it, on the same share.\<close>

theorem durable_handle_keeps_its_owner:
  assumes "srv_step E M M'" "x \<in> snd ` set (sm_globalOpenTable M)" "so_session (op M' x) \<noteq> so_session (op M x)"
  shows "so_isDurable (op M x) \<and> so_disconnectTime (op M x) \<noteq> None \<and> so_share (op M' x) = so_share (op M x)
    \<and> strings_EqualFold (ne_ext (se_ntlm E)) (ss_userName (se M (so_session (op M x)))) (ss_userName (se M (so_session (op M' x))))
    \<and> strings_EqualFold (ne_ext (se_ntlm E)) (ss_workgroup (se M (so_session (op M x)))) (ss_workgroup (se M (so_session (op M' x))))"
  using assms
proof (induction rule: srv_step.induct)
  case (set_up c req sid rnd now answer M res M')
  then have "op M' = op M" using session_setup_keeps by (simp add: keeps_but_def)
  then show ?case using set_up by simp
next
  case (tree_closed M r tid)
  then show ?case using keeps_closeTreeConnect[of "{}" M r tid] by (simp add: keeps_but_def)
next
  case (opened y M r fid did tid share c)
  then show ?case by (auto split: if_split_asm)
next
  case (made_durable M y t guid)
  then show ?case by (auto simp: grantDurability_def Let_def split: if_split_asm)
next
  case (reclaimed M c rec r tid share)
  then show ?case by (auto simp: reclaimDurableOpen_def reclaim_granted_def split: option.split_asm if_split_asm)
qed (simp_all add: session_logoff session_hang_up session_sweep drop_opens_def)

subsection \<open>How long an open waits\<close>

lemma set_fold_delete:
  "set (fold (\<lambda>x. AList.delete (f x)) xs al) = {kv \<in> set al. fst kv \<notin> f ` set xs}"
  by (induction xs arbitrary: al) (auto simp: AList.delete_eq)

lemma op_end_durability: "so_durableFileID (op (fold end_durability xs M) x) = so_durableFileID (op M x)"
  by (induction xs arbitrary: M) (simp_all add: end_durability_def)

lemma table_end_durability: "sm_globalOpenTable (fold end_durability xs M) = sm_globalOpenTable M"
  by (induction xs arbitrary: M) (simp_all add: end_durability_def)

lemma sweep_table:
  "set (sm_globalOpenTable (sweepDurableOpens now M))
     = {kv \<in> set (sm_globalOpenTable M). fst kv \<notin> (\<lambda>x. so_durableFileID (op M x)) ` {y \<in> snd ` set (sm_globalOpenTable M). sweep_expired now (op M y)}}"
  by (simp add: sweepDurableOpens_def Let_def drop_opens_def set_fold_delete op_end_durability table_end_durability
      image_def cong: conj_cong)


subsection \<open>Examples\<close>

definition plain_env :: sess_env where
  "plain_env = \<lparr>se_ntlm = login_env, hmac_sha256 = (\<lambda>k d. k), sha512 = (\<lambda>d. d), blake2b = (\<lambda>d. d),
     DecodeNegTokenResp = Some, DecodeNegTokenInit = Some, EncodeNegTokenResp = Some\<rparr>"

definition plain_conn :: conn where
  "plain_conn = \<lparr>cn_clientName = ''10.0.0.7'', cn_negotiateDialect = SMB_DIALECT_311, cn_clientGuid = [1], cn_clientCapabilities = 0,
     cn_shouldSign = True, cn_sessionTable = Map.empty, cn_preauthIntegrityHashID = 1, cn_preauthIntegrityHashValue = [],
     cn_preauthSessionTable = Map.empty, cn_cipherID = 0, cn_signingAlgorithmID = 0, cn_ntlmServer = login_server\<rparr>"

definition waiting_open :: sopen where
  "waiting_open = \<lparr>so_fileID = 3, so_durableFileID = 9, so_isDurable = True, so_createGuid = [5], so_durableTimeout = 120000,
     so_disconnectTime = Some 1000, so_session = 0, so_tree = 1, so_share = 2, so_connection = 0\<rparr>"

definition plain_smb :: smb where
  "plain_smb = \<lparr>sm_conns = (\<lambda>_. plain_conn), sm_sess = (\<lambda>_. newSessionState 0 0), sm_next = 1, sm_globalSessionTable = Map.empty,
     sm_globalClientTable = Map.empty, sm_opens = (\<lambda>_. waiting_open), sm_globalOpenTable = [(9, 0)], sm_SOpens = 0,
     sm_PwErrors = 0, sm_encryptData = False, sm_isMultiChannelCapable = True\<rparr>"

lemma plain_idle: "idle plain_smb"
  by (simp add: idle_def plain_smb_def)


lemma taken_up: "\<exists>M'. srv_step plain_env plain_smb M' \<and> (3, 0) \<in> set (ss_openTable (se M' 1)) \<and> so_session (op M' 0) = 1"
proof -
  let ?rec = "\<lparr>rec_DurableID = 9, rec_FileID = 3, rec_CreateGuid = [5]\<rparr>"
  have "reclaim_granted plain_env ?rec 1 2 0 plain_smb"
    by (simp add: reclaim_granted_def plain_smb_def waiting_open_def plain_env_def login_env_def login_lib_def newSessionState_def)
  then have "(3, 0) \<in> set (ss_openTable (se (snd (reclaimDurableOpen plain_env 0 ?rec 1 7 2 plain_smb)) 1))
    \<and> so_session (op (snd (reclaimDurableOpen plain_env 0 ?rec 1 7 2 plain_smb)) 0) = 1"
    by (simp add: reclaimDurableOpen_def) (simp add: plain_smb_def waiting_open_def newSessionState_def)
  then show ?thesis using srv_step.reclaimed by blast
qed

theorem open_has_one_owner_witness:
  "\<exists>M'. reaches plain_env plain_smb M' \<and> (3, 0) \<in> set (ss_openTable (se M' 1)) \<and> so_disconnectTime (op M' 0) = None"
proof -
  obtain M' where M': "srv_step plain_env plain_smb M'" "(3, 0) \<in> set (ss_openTable (se M' 1))" using taken_up by blast
  have r: "reaches plain_env plain_smb M'" using reaches.step[OF reaches.start M'(1)] .
  show ?thesis using open_has_one_owner[OF plain_idle r] M'(2) r by blast
qed

theorem durable_handle_keeps_its_owner_witness:
  "\<exists>M'. srv_step plain_env plain_smb M' \<and> so_session (op M' 0) \<noteq> so_session (op plain_smb 0) \<and> so_share (op M' 0) = so_share (op plain_smb 0)"
proof -
  obtain M' where M': "srv_step plain_env plain_smb M'" "so_session (op M' 0) = 1" using taken_up by blast
  have "0 \<in> snd ` set (sm_globalOpenTable plain_smb)" "so_session (op M' 0) \<noteq> so_session (op plain_smb 0)"
    using M'(2) by (simp_all add: plain_smb_def waiting_open_def)
  then show ?thesis using durable_handle_keeps_its_owner[OF M'(1)] M'(1) by blast
qed


end
