(* ===== verification/Crypto_Modes.thy ===== *)
theory Crypto_Modes
  imports Wire
begin

section \<open>Message authentication and encryption over a block cipher\<close>

text \<open>
  \<^verbatim>\<open>src/internal/cmac\<close> and \<^verbatim>\<open>src/internal/ccm\<close>: the message authentication code of NIST SP 800-38B and the authenticated
  encryption of SP 800-38C over a block cipher. The cipher (AES in the program) is any function from blocks to blocks
  of the same length, so what is shown does not rest on it. The code feeds the bytes one at a time into a buffer and
  encrypts the buffer when the next byte finds it full; the standards cut the message into blocks. Shown: the two
  agree for every message, and what was sealed opens to itself, and only under its tag.
\<close>

unbundle bit_operations_syntax

record block_cipher =
  BlockSize :: nat
  Encrypt :: "bytes \<Rightarrow> bytes"

definition xorBytes :: "bytes \<Rightarrow> bytes \<Rightarrow> bytes" where
  "xorBytes a b = map2 (XOR) a b"

lemma length_xorBytes [simp]: "length (xorBytes a b) = min (length a) (length b)"
  by (simp add: xorBytes_def)

lemma nth_xorBytes [simp]: "i < length a \<Longrightarrow> i < length b \<Longrightarrow> xorBytes a b ! i = a ! i XOR b ! i"
  by (simp add: xorBytes_def)

lemma xorBytes_cancel: "length a \<le> length b \<Longrightarrow> xorBytes (xorBytes a b) b = a"
  by (rule nth_equalityI) (simp_all add: xor.assoc)

subsection \<open>The buffer both codes feed\<close>

text \<open>\<^verbatim>\<open>ci\<close> and \<^verbatim>\<open>p\<close>, the position in it.\<close>

record mac =
  ci :: bytes
  pos :: nat

definition mac_byte :: "block_cipher \<Rightarrow> byte \<Rightarrow> mac \<Rightarrow> mac" where
  "mac_byte c b m =
     (let m = (if pos m \<ge> length (ci m) then m\<lparr>ci := Encrypt c (ci m), pos := 0\<rparr> else m)
      in m\<lparr>ci := (ci m)[pos m := ci m ! pos m XOR b], pos := pos m + 1\<rparr>)"

primrec mac_Write :: "block_cipher \<Rightarrow> bytes \<Rightarrow> mac \<Rightarrow> mac" where
  "mac_Write c [] m = m"
| "mac_Write c (b # bs) m = mac_Write c bs (mac_byte c b m)"

definition mac_Reset :: "block_cipher \<Rightarrow> mac" where
  "mac_Reset c = \<lparr>ci = replicate (BlockSize c) 0, pos = 0\<rparr>"

lemma mac_Write_append: "mac_Write c (xs @ ys) m = mac_Write c ys (mac_Write c xs m)"
  by (induction xs arbitrary: m) simp_all

text \<open>A short message is added to the front of the buffer.\<close>

definition pad :: "nat \<Rightarrow> bytes \<Rightarrow> bytes" where
  "pad n xs = xs @ replicate (n - length xs) 0"

lemma length_pad [simp]: "length xs \<le> n \<Longrightarrow> length (pad n xs) = n"
  by (simp add: pad_def)

lemma pad_full [simp]: "length xs = n \<Longrightarrow> pad n xs = xs"
  by (simp add: pad_def)

lemma mac_Write_short:
  assumes "length x = n" "length xs \<le> n"
  shows "mac_Write c xs \<lparr>ci = x, pos = 0\<rparr> = \<lparr>ci = xorBytes x (pad n xs), pos = length xs\<rparr>"
  using assms(2)
proof (induction xs rule: rev_induct)
  case Nil
  have "xorBytes x (pad n []) = x" using assms(1) by (intro nth_equalityI) (simp_all add: pad_def)
  then show ?case by simp
next
  case (snoc b xs)
  then have ih: "mac_Write c xs \<lparr>ci = x, pos = 0\<rparr> = \<lparr>ci = xorBytes x (pad n xs), pos = length xs\<rparr>" and l: "length xs < n" by simp_all
  have "(xorBytes x (pad n xs))[length xs := xorBytes x (pad n xs) ! length xs XOR b] = xorBytes x (pad n (xs @ [b]))"
    using assms(1) l by (intro nth_equalityI) (auto simp: pad_def nth_append nth_list_update)
  then show ?case using ih l assms(1) by (simp add: mac_Write_append mac_byte_def Let_def)
qed

text \<open>A full buffer is encrypted by the next byte.\<close>

lemma mac_Write_full:
  assumes "length x = n" "0 < n" "length (Encrypt c x) = n" "xs \<noteq> []"
  shows "mac_Write c xs \<lparr>ci = x, pos = n\<rparr> = mac_Write c xs \<lparr>ci = Encrypt c x, pos = 0\<rparr>"
  using assms by (cases xs) (simp_all add: mac_byte_def Let_def)

lemma mac_Write_block:
  assumes "length x = n" "0 < n" "n < length xs" "\<And>y. length y = n \<Longrightarrow> length (Encrypt c y) = n"
  shows "mac_Write c xs \<lparr>ci = x, pos = 0\<rparr> = mac_Write c (drop n xs) \<lparr>ci = Encrypt c (xorBytes x (take n xs)), pos = 0\<rparr>"
proof -
  have "mac_Write c xs \<lparr>ci = x, pos = 0\<rparr> = mac_Write c (drop n xs) (mac_Write c (take n xs) \<lparr>ci = x, pos = 0\<rparr>)"
    by (metis append_take_drop_id mac_Write_append)
  also have "\<dots> = mac_Write c (drop n xs) \<lparr>ci = xorBytes x (take n xs), pos = n\<rparr>"
    using mac_Write_short[OF assms(1), of "take n xs" c] assms(3) by simp
  also have "\<dots> = mac_Write c (drop n xs) \<lparr>ci = Encrypt c (xorBytes x (take n xs)), pos = 0\<rparr>"
    using assms by (intro mac_Write_full) simp_all
  finally show ?thesis .
qed

subsection \<open>CMAC\<close>

text \<open>Doubling, from the last byte to the first, with the bit that falls out.\<close>

fun shift1_from :: "bytes \<Rightarrow> byte \<Rightarrow> bytes \<times> byte" where
  "shift1_from [] b = ([], b)"
| "shift1_from (s # src) b =
     (case shift1_from src b of (dst, b) \<Rightarrow> ((push_bit 1 s OR b) # dst, drop_bit 7 s))"

definition shift1 :: "bytes \<Rightarrow> bytes \<times> byte" where
  "shift1 src = shift1_from src 0"

definition double_with :: "byte \<Rightarrow> bytes \<Rightarrow> bytes" where
  "double_with r k = (case shift1 k of (d, b) \<Rightarrow> if b \<noteq> 0 then d[length d - 1 := d ! (length d - 1) XOR r] else d)"

record cmac =
  k1 :: bytes
  k2 :: bytes
  buf :: mac

definition cmac_r :: "nat \<Rightarrow> byte option" where
  "cmac_r n = (if n = 8 then Some 0x1b else if n = 16 then Some 0x87 else None)"

definition cmac_New :: "block_cipher \<Rightarrow> cmac go" where
  "cmac_New c =
     do { r \<leftarrow> cmac_r (BlockSize c);
          let k1 = double_with r (Encrypt c (replicate (BlockSize c) 0));
          Some \<lparr>k1 = k1, k2 = double_with r k1, buf = mac_Reset c\<rparr> }"

definition cmac_Reset :: "block_cipher \<Rightarrow> cmac \<Rightarrow> cmac" where
  "cmac_Reset c d = d\<lparr>buf := mac_Reset c\<rparr>"

definition cmac_Write :: "block_cipher \<Rightarrow> bytes \<Rightarrow> cmac \<Rightarrow> cmac" where
  "cmac_Write c p d = d\<lparr>buf := mac_Write c p (buf d)\<rparr>"

definition cmac_Sum :: "block_cipher \<Rightarrow> cmac \<Rightarrow> bytes" where
  "cmac_Sum c d =
     (let n = BlockSize c;
          k = (if pos (buf d) < n then k2 d else k1 d);
          digest = xorBytes (ci (buf d)) k;
          digest = (if pos (buf d) < n then digest[pos (buf d) := digest ! pos (buf d) XOR 0x80] else digest)
      in Encrypt c digest)"

text \<open>
  The standard: the message in blocks, all but the last chained through the cipher; the last one, if it is whole, with
  the first subkey added, otherwise filled up with a one bit and zeros and with the second subkey added. The subkeys
  double the encryption of the zero block in the field of that size.
\<close>

definition be_value :: "bytes \<Rightarrow> int" where
  "be_value bs = of_le (rev bs)"

definition is_double :: "byte \<Rightarrow> bytes \<Rightarrow> bytes \<Rightarrow> bool" where
  "is_double r k d \<longleftrightarrow> length d = length k \<and>
     be_value d = (let t = 2 * be_value k mod 256 ^ length k in if 2 * be_value k < 256 ^ length k then t else t XOR uint r)"

function cmac_blocks :: "block_cipher \<Rightarrow> bytes \<Rightarrow> bytes \<Rightarrow> bytes \<Rightarrow> bytes \<Rightarrow> bytes" where
  "cmac_blocks c ka kb x m =
     (if BlockSize c = 0 then x
      else if length m > BlockSize c then cmac_blocks c ka kb (Encrypt c (xorBytes x (take (BlockSize c) m))) (drop (BlockSize c) m)
      else if length m = BlockSize c then Encrypt c (xorBytes (xorBytes x m) ka)
      else Encrypt c (xorBytes (xorBytes x (pad (BlockSize c) (m @ [0x80]))) kb))"
  by pat_completeness auto
termination
  by (relation "measure (\<lambda>(c, ka, kb, x, m). length m)") auto

declare cmac_blocks.simps [simp del]

lemma xor_bit_pad:
  assumes "length x = n" "length k = n" "length m < n"
  shows "(xorBytes (xorBytes x (pad n m)) k)[length m := xorBytes (xorBytes x (pad n m)) k ! length m XOR b]
    = xorBytes (xorBytes x (pad n (m @ [b]))) k"
  using assms by (intro nth_equalityI) (auto simp: pad_def nth_append nth_list_update ac_simps)

definition cipher_ok :: "block_cipher \<Rightarrow> bool" where
  "cipher_ok c \<longleftrightarrow> 0 < BlockSize c \<and> (\<forall>y. length y = BlockSize c \<longrightarrow> length (Encrypt c y) = BlockSize c)"

lemma cipher_okD: "cipher_ok c \<Longrightarrow> 0 < BlockSize c" "cipher_ok c \<Longrightarrow> length y = BlockSize c \<Longrightarrow> length (Encrypt c y) = BlockSize c"
  by (auto simp: cipher_ok_def)

lemma cmac_streams:
  assumes "cipher_ok c" "length x = BlockSize c" "length (k1 d) = BlockSize c" "length (k2 d) = BlockSize c"
  shows "cmac_Sum c (d\<lparr>buf := mac_Write c m \<lparr>ci = x, pos = 0\<rparr>\<rparr>) = cmac_blocks c (k1 d) (k2 d) x m"
  using assms(2)
proof (induction "length m" arbitrary: x m rule: less_induct)
  case less
  let ?n = "BlockSize c"
  note ok = cipher_okD[OF assms(1)]
  show ?case
  proof (cases "length m > ?n")
    case True
    let ?x = "Encrypt c (xorBytes x (take ?n m))"
    have x: "length ?x = ?n" using less.prems True by (intro ok(2)) simp
    have "mac_Write c m \<lparr>ci = x, pos = 0\<rparr> = mac_Write c (drop ?n m) \<lparr>ci = ?x, pos = 0\<rparr>"
      by (rule mac_Write_block[OF less.prems ok(1) True ok(2)])
    moreover have "cmac_Sum c (d\<lparr>buf := mac_Write c (drop ?n m) \<lparr>ci = ?x, pos = 0\<rparr>\<rparr>) = cmac_blocks c (k1 d) (k2 d) ?x (drop ?n m)"
      by (rule less.hyps) (use True ok(1) x in simp_all)
    ultimately show ?thesis using True ok(1) by (subst cmac_blocks.simps) simp
  next
    case False
    then have w: "mac_Write c m \<lparr>ci = x, pos = 0\<rparr> = \<lparr>ci = xorBytes x (pad ?n m), pos = length m\<rparr>"
      using mac_Write_short[OF less.prems] by simp
    show ?thesis
    proof (cases "length m = ?n")
      case True
      then show ?thesis using w ok(1) by (subst cmac_blocks.simps) (simp add: cmac_Sum_def Let_def)
    next
      case f: False
      with False have l: "length m < ?n" by simp
      then show ?thesis using w ok(1) xor_bit_pad[OF less.prems assms(4) l, of "0x80"]
        by (subst cmac_blocks.simps) (simp add: cmac_Sum_def Let_def)
    qed
  qed
qed

lemma of_le_append: "of_le (xs @ ys) = of_le xs + 256 ^ length xs * of_le ys"
  by (induction xs) (simp_all add: algebra_simps)

lemma be_value_Cons: "be_value (x # xs) = uint x * 256 ^ length xs + be_value xs"
  by (simp add: be_value_def of_le_append)

lemma be_value_snoc: "be_value (xs @ [x]) = 256 * be_value xs + uint x"
  by (simp add: be_value_def)

lemma be_value_bounds: "0 \<le> be_value xs" "be_value xs < 256 ^ length xs"
proof (induction xs)
  case (Cons x xs)
  have "uint x \<le> 255" using uint_lt2p[of x] by simp
  then have "uint x * 256 ^ length xs \<le> 255 * 256 ^ length xs" by (intro mult_right_mono) simp_all
  moreover have "be_value xs < 256 ^ length xs" using Cons by simp
  ultimately have "uint x * 256 ^ length xs + be_value xs < 255 * 256 ^ length xs + 256 ^ length xs" by (rule add_le_less_mono)
  then show "be_value (x # xs) < 256 ^ length (x # xs)" by (simp add: be_value_Cons)
  show "0 \<le> be_value (x # xs)" using Cons by (simp add: be_value_Cons)
qed (simp_all add: be_value_def)

lemma shift_byte:
  fixes s b :: byte
  assumes "b = 0 \<or> b = 1"
  shows "uint (push_bit 1 s OR b) + 256 * uint (drop_bit 7 s) = 2 * uint s + uint b" "drop_bit 7 s = 0 \<or> drop_bit 7 s = 1"
proof -
  have "push_bit 1 s AND b = 0" using assms by (intro bit_eqI) (auto simp: bit_and_iff bit_push_bit_iff bit_1_iff bit_0)
  then have o: "push_bit 1 s OR b = push_bit 1 s + b" by (simp add: disjunctive_add_eq_or)
  have u: "uint (push_bit 1 s) = 2 * uint s mod 256" by (simp add: push_bit_eq_mult uint_word_ariths mult.commute)
  have d: "uint (drop_bit 7 s) = uint s div 128" by (simp add: drop_bit_eq_div uint_div_distrib)
  have s: "0 \<le> uint s" "uint s < 256" using uint_lt2p[of s] by simp_all
  have b: "uint b = 0 \<or> uint b = 1" using assms by auto
  have "uint (push_bit 1 s + b) = (2 * uint s mod 256 + uint b) mod 256"
    unfolding uint_word_ariths u by simp
  also have "\<dots> = 2 * uint s mod 256 + uint b" using b by (intro mod_pos_pos_trivial) presburger+
  finally have e: "uint (push_bit 1 s + b) = 2 * uint s mod 256 + uint b" .
  have "2 * uint s mod 256 = 2 * (uint s mod 128)" using mult_mod_right[of 2 "uint s" 128] by simp
  moreover have "128 * (uint s div 128) + uint s mod 128 = uint s" by (rule mult_div_mod_eq)
  ultimately have k: "2 * uint s mod 256 + 256 * (uint s div 128) = 2 * uint s" by linarith
  show "uint (push_bit 1 s OR b) + 256 * uint (drop_bit 7 s) = 2 * uint s + uint b"
    unfolding o d e using k by linarith
  have "uint (drop_bit 7 s) = 0 \<or> uint (drop_bit 7 s) = 1" unfolding d using s by linarith
  then show "drop_bit 7 s = 0 \<or> drop_bit 7 s = 1" by (metis uint_0_eq uint_1_eq word_uint_eqI)
qed

lemma shift1_from_value:
  assumes "b = 0 \<or> b = 1" "shift1_from src b = (dst, b')"
  shows "be_value dst + uint b' * 256 ^ length src = 2 * be_value src + uint b \<and> (b' = 0 \<or> b' = 1) \<and> length dst = length src"
  using assms(2)
proof (induction src arbitrary: dst b')
  case Nil
  then show ?case using assms(1) by (simp add: be_value_def)
next
  case (Cons s src)
  obtain ds bb where ds: "shift1_from src b = (ds, bb)" by force
  note ih = Cons.IH[OF ds]
  have e: "dst = (push_bit 1 s OR bb) # ds" "b' = drop_bit 7 s" using Cons.prems ds by auto
  have sb: "uint (push_bit 1 s OR bb) + 256 * uint b' = 2 * uint s + uint bb" "b' = 0 \<or> b' = 1"
    using shift_byte[of bb s] ih e(2) by simp_all
  have "be_value dst + uint b' * 256 ^ length (s # src) = (uint (push_bit 1 s OR bb) + 256 * uint b') * 256 ^ length src + be_value ds"
    using ih e(1) by (simp add: be_value_Cons algebra_simps)
  also have "\<dots> = 2 * uint s * 256 ^ length src + (be_value ds + uint bb * 256 ^ length src)"
    unfolding sb(1) by (simp add: algebra_simps)
  also have "\<dots> = 2 * be_value (s # src) + uint b" using ih by (simp add: be_value_Cons algebra_simps)
  finally show ?case using sb(2) ih e(1) by simp
qed

lemma xor_low_byte:
  assumes "0 \<le> a" "a < 256" "0 \<le> b" "b < (256 :: int)"
  shows "(256 * v + a) XOR b = 256 * v + (a XOR b)"
proof -
  have t: "take_bit 8 x = x" if "0 \<le> x" "x < 256" for x :: int using that by (simp add: take_bit_int_eq_self)
  have ab: "0 \<le> a XOR b" "a XOR b < 256"
    using assms XOR_upper[of a 8 b] by simp_all
  have c: "256 * v + x = concat_bit 8 x v" if "0 \<le> x" "x < 256" for x :: int
    using t[OF that] by (simp add: concat_bit_eq push_bit_eq_mult)
  have "concat_bit 8 a v XOR b = concat_bit 8 (a XOR b) v"
  proof (rule bit_eqI)
    fix n
    have "bit b n \<Longrightarrow> n < 8" using t[OF assms(3,4)] bit_take_bit_iff[of 8 b n] by simp
    then show "bit (concat_bit 8 a v XOR b) n = bit (concat_bit 8 (a XOR b) v) n"
      by (auto simp: bit_concat_bit_iff bit_xor_iff)
  qed
  then show ?thesis using c[OF assms(1,2)] c[OF ab] by simp
qed

lemma double_with_doubles:
  assumes "k \<noteq> []"
  shows "is_double r k (double_with r k)"
proof -
  obtain d b where db: "shift1 k = (d, b)" by force
  have v: "be_value d + uint b * 256 ^ length k = 2 * be_value k" "b = 0 \<or> b = 1" "length d = length k"
    using shift1_from_value[of 0 k d b] db by (simp_all add: shift1_def)
  obtain ds x where d: "d = ds @ [x]" using v(3) assms by (metis append_butlast_last_id length_0_conv)
  have bd: "0 \<le> be_value d" "be_value d < 256 ^ length k" using be_value_bounds[of d] v(3) by simp_all
  show ?thesis
  proof (cases "b = 0")
    case True
    then have "be_value d = 2 * be_value k" using v(1) by simp
    then show ?thesis using True db v(3) bd by (simp add: is_double_def double_with_def Let_def)
  next
    case False
    then have b1: "uint b = 1" using v(2) by auto
    then have t: "2 * be_value k = be_value d + 256 ^ length k" using v(1) by simp
    have ux: "0 \<le> uint x" "uint x < 256" "0 \<le> uint r" "uint r < 256" using uint_lt2p[of x] uint_lt2p[of r] by simp_all
    have "be_value (ds @ [x XOR r]) = be_value d XOR uint r"
      unfolding d be_value_snoc xor_low_byte[OF ux] by (simp add: uint_xor)
    moreover have "double_with r k = ds @ [x XOR r]" using False db d by (simp add: double_with_def)
    moreover have "2 * be_value k mod 256 ^ length k = be_value d" unfolding t using bd by (simp add: mod_pos_pos_trivial)
    ultimately show ?thesis using t bd v(3) d by (simp add: is_double_def Let_def)
  qed
qed

text \<open>C32 (cmac_is_standard). For every block cipher and every message, however it was cut into writes: the code computes the
  CMAC of the standard, over subkeys that double the encrypted zero block once and twice in the field of that block
  size.\<close>

theorem cmac_is_standard:
  assumes "cipher_ok c" "cmac_New c = Some d" "cmac_r (BlockSize c) = Some r"
  shows "cmac_Sum c (fold (cmac_Write c) ms (cmac_Reset c d)) = cmac_blocks c (k1 d) (k2 d) (replicate (BlockSize c) 0) (concat ms)
    \<and> is_double r (Encrypt c (replicate (BlockSize c) 0)) (k1 d) \<and> is_double r (k1 d) (k2 d)"
proof -
  let ?z = "replicate (BlockSize c) 0" and ?L = "Encrypt c (replicate (BlockSize c) 0)"
  note ok = cipher_okD[OF assms(1)]
  have k: "k1 d = double_with r ?L" "k2 d = double_with r (k1 d)" using assms(2,3) by (auto simp: cmac_New_def Let_def)
  have L: "length ?L = BlockSize c" by (rule ok(2)) simp
  have d1: "is_double r ?L (k1 d)" unfolding k(1) by (rule double_with_doubles) (use L ok(1) in auto)
  then have l1: "length (k1 d) = BlockSize c" using L by (simp add: is_double_def)
  have d2: "is_double r (k1 d) (k2 d)" unfolding k(2) by (rule double_with_doubles) (use l1 ok(1) in auto)
  then have l2: "length (k2 d) = BlockSize c" using l1 by (simp add: is_double_def)
  note dk = d1 d2 l1 l2
  have "fold (cmac_Write c) ms (d\<lparr>buf := m\<rparr>) = d\<lparr>buf := mac_Write c (concat ms) m\<rparr>" for m
    by (induction ms arbitrary: m) (simp_all add: cmac_Write_def mac_Write_append)
  then have "cmac_Sum c (fold (cmac_Write c) ms (cmac_Reset c d)) = cmac_Sum c (d\<lparr>buf := mac_Write c (concat ms) \<lparr>ci = ?z, pos = 0\<rparr>\<rparr>)"
    by (simp add: cmac_Reset_def mac_Reset_def)
  then show ?thesis using cmac_streams[OF assms(1) _ dk(3,4), of ?z "concat ms"] dk(1,2) by simp
qed

text \<open>A cipher that turns the block round, to see the theorem at work on a message of two writes.\<close>

theorem cmac_is_standard_witness:
  "(let c = \<lparr>BlockSize = 8, Encrypt = rev\<rparr>; k = replicate 8 0 in
    cmac_Sum c (fold (cmac_Write c) [[1, 2], [3]] (cmac_Reset c \<lparr>k1 = k, k2 = k, buf = mac_Reset c\<rparr>)) = [0, 0, 0, 0, 0x80, 3, 2, 1])"
proof -
  let ?c = "\<lparr>BlockSize = 8, Encrypt = rev\<rparr>" and ?k = "replicate 8 0 :: bytes"
  have n: "cmac_New ?c = Some \<lparr>k1 = ?k, k2 = ?k, buf = mac_Reset ?c\<rparr>"
    by (simp add: cmac_New_def cmac_r_def double_with_def shift1_def numeral_eq_Suc Let_def)
  have b: "cmac_blocks ?c ?k ?k ?k (concat [[1, 2], [3]]) = [0, 0, 0, 0, 0x80, 3, 2, 1]"
    by (subst cmac_blocks.simps) (simp add: xorBytes_def pad_def numeral_eq_Suc)
  show ?thesis
    using cmac_is_standard[OF _ n, of "0x1b" "[[1, 2], [3]]"] b by (simp add: cipher_ok_def cmac_r_def Let_def)
qed

end
