(* ===== verification/Crypto_Ccm.thy ===== *)
theory Crypto_Ccm
  imports Crypto_Modes
begin

section \<open>CCM\<close>

text \<open>
  \<^verbatim>\<open>src/internal/ccm\<close>: counter mode with a CBC-MAC, over the buffer of \<open>Crypto_Modes\<close>. The nonce and the tag have the
  sizes the mode was made with. Shown: a message opens exactly when it is what sealing the result would give, and the tag is
  that of the formatting of SP 800-38C.
\<close>

unbundle bit_operations_syntax

datatype ccm_error = ccm_not_128 | ccm_nonce_size | ccm_tag_size | ccm_too_short | ccm_too_long | ccm_failed

record ccm =
  ccm_c :: block_cipher
  nonceSize :: nat
  tagSize :: nat

definition NewCCMWithNonceAndTagSizes :: "block_cipher \<Rightarrow> nat \<Rightarrow> nat \<Rightarrow> ccm_error + ccm" where
  "NewCCMWithNonceAndTagSizes c ns ts =
     (if BlockSize c \<noteq> 16 then Inl ccm_not_128
      else if \<not> (7 \<le> ns \<and> ns \<le> 13) then Inl ccm_nonce_size
      else if \<not> (4 \<le> ts \<and> ts \<le> 16 \<and> even ts) then Inl ccm_tag_size
      else Inr \<lparr>ccm_c = c, nonceSize = ns, tagSize = ts\<rparr>)"

definition maxUvarint :: "nat \<Rightarrow> u64" where
  "maxUvarint n = push_bit (n * 8) 1 - 1"

definition putUvarint :: "nat \<Rightarrow> u64 \<Rightarrow> bytes" where
  "putUvarint n u = map (\<lambda>i. ucast (drop_bit (8 * (n - 1 - i)) u)) [0..<n]"

lemma length_putUvarint [simp]: "length (putUvarint n u) = n"
  by (simp add: putUvarint_def)

definition PadZero :: "block_cipher \<Rightarrow> mac \<Rightarrow> mac" where
  "PadZero c m = (if pos m \<noteq> 0 then m\<lparr>ci := Encrypt c (ci m), pos := 0\<rparr> else m)"

text \<open>The counter mode of the standard library: the counter is the whole block, counted up from its last byte.\<close>

definition be_bytes :: "nat \<Rightarrow> int \<Rightarrow> bytes" where
  "be_bytes n v = rev (to_le n v)"

definition ctr_block :: "bytes \<Rightarrow> nat \<Rightarrow> bytes" where
  "ctr_block iv i = be_bytes (length iv) ((be_value iv + int i) mod 256 ^ length iv)"

definition keystream :: "block_cipher \<Rightarrow> bytes \<Rightarrow> nat \<Rightarrow> bytes" where
  "keystream c iv n = take n (concat (map (\<lambda>i. Encrypt c (ctr_block iv i)) [0..<(n + BlockSize c - 1) div BlockSize c]))"

definition XORKeyStream :: "block_cipher \<Rightarrow> bytes \<Rightarrow> bytes \<Rightarrow> bytes" where
  "XORKeyStream c iv src = xorBytes src (keystream c iv (length src))"

text \<open>The counter blocks, and the tag over the block that the first of them is turned into.\<close>

definition ccm_Ctr0 :: "ccm \<Rightarrow> bytes \<Rightarrow> bytes" where
  "ccm_Ctr0 m nonce = take 16 (of_nat (15 - nonceSize m - 1) # nonce @ replicate (15 - length nonce) 0)"

definition aad_length :: "nat \<Rightarrow> bytes" where
  "aad_length n =
     (if n < 2 ^ 15 - 2 ^ 7 then putUvarint 2 (of_nat n)
      else if n \<le> 2 ^ 31 - 1 then [0xff, 0xfe] @ putUvarint 4 (of_nat n)
      else [0xff, 0xff] @ putUvarint 8 (of_nat n))"

definition getTag :: "ccm \<Rightarrow> bytes \<Rightarrow> bytes \<Rightarrow> bytes \<Rightarrow> bytes" where
  "getTag m Ctr data plaintext =
     (let c = ccm_c m; s = mac_Reset c;
          B = Ctr[0 := Ctr ! 0 OR push_bit 3 (of_nat ((tagSize m - 2) div 2))];
          B = take (1 + nonceSize m) B @ putUvarint (length B - (1 + nonceSize m)) (of_nat (length plaintext));
          s = (if length data > 0
               then let B = B[0 := B ! 0 OR push_bit 6 1];
                        s = mac_Write c B s;
                        s = mac_Write c (aad_length (length data)) s;
                        s = mac_Write c data s
                    in PadZero c s
               else mac_Write c B s);
          s = PadZero c (mac_Write c plaintext s)
      in ci s)"

text \<open>Sealing onto \<open>dst\<close>; a nonce of another length is a panic, a text that is too long gives nil.\<close>

definition Seal :: "ccm \<Rightarrow> bytes \<Rightarrow> bytes \<Rightarrow> bytes \<Rightarrow> bytes \<Rightarrow> bytes go" where
  "Seal m dst nonce plaintext data =
     (if length nonce \<noteq> nonceSize m then None
      else if maxUvarint (15 - nonceSize m) < of_nat (length plaintext) then Some []
      else let Ctr = ccm_Ctr0 m nonce; S0 = Encrypt (ccm_c m) Ctr; Ctr = Ctr[15 := 1];
               ciphertext = XORKeyStream (ccm_c m) Ctr plaintext;
               T = getTag m Ctr data plaintext;
               S0 = xorBytes S0 T
           in Some (take (length dst + length plaintext + tagSize m) (dst @ ciphertext @ S0)))"

definition Open :: "ccm \<Rightarrow> bytes \<Rightarrow> bytes \<Rightarrow> bytes \<Rightarrow> bytes \<Rightarrow> (ccm_error + bytes) go" where
  "Open m dst nonce ciphertext data =
     (if length nonce \<noteq> nonceSize m then None
      else if length ciphertext < tagSize m then Some (Inl ccm_too_short)
      else if maxUvarint (15 - nonceSize m) < of_nat (length ciphertext - tagSize m) then Some (Inl ccm_too_long)
      else let n = length ciphertext - tagSize m; Ctr = ccm_Ctr0 m nonce; S0 = Encrypt (ccm_c m) Ctr; Ctr = Ctr[15 := 1];
               plaintext = XORKeyStream (ccm_c m) Ctr (take n ciphertext);
               T = getTag m Ctr data plaintext;
               T = xorBytes T S0
           in if take (tagSize m) T \<noteq> drop n ciphertext then Some (Inl ccm_failed)
              else Some (Inr (dst @ plaintext)))"

subsection \<open>Sealing and opening\<close>

definition ccm_ok :: "ccm \<Rightarrow> bool" where
  "ccm_ok m \<longleftrightarrow> cipher_ok (ccm_c m) \<and> BlockSize (ccm_c m) = 16 \<and> 7 \<le> nonceSize m \<and> nonceSize m \<le> 13 \<and>
     4 \<le> tagSize m \<and> tagSize m \<le> 16 \<and> even (tagSize m)"

lemma NewCCM_ok: "cipher_ok c \<Longrightarrow> NewCCMWithNonceAndTagSizes c ns ts = Inr m \<Longrightarrow> ccm_ok m"
  by (auto simp: NewCCMWithNonceAndTagSizes_def ccm_ok_def split: if_splits)

lemma length_mac_Write:
  assumes "cipher_ok c" "length (ci s) = BlockSize c"
  shows "length (ci (mac_Write c xs s)) = BlockSize c"
  using assms(2)
proof (induction xs arbitrary: s)
  case (Cons x xs)
  have "length (ci (mac_byte c x s)) = BlockSize c" using Cons.prems cipher_okD[OF assms(1)] by (simp add: mac_byte_def Let_def)
  then show ?case using Cons.IH by simp
qed simp

lemma length_PadZero: "cipher_ok c \<Longrightarrow> length (ci s) = BlockSize c \<Longrightarrow> length (ci (PadZero c s)) = BlockSize c"
  by (simp add: PadZero_def cipher_okD)

lemma length_getTag: "cipher_ok (ccm_c m) \<Longrightarrow> length (getTag m Ctr data p) = BlockSize (ccm_c m)"
  by (simp add: getTag_def Let_def mac_Reset_def length_mac_Write length_PadZero)

lemma length_keystream:
  assumes "cipher_ok c" "length iv = BlockSize c"
  shows "length (keystream c iv n) = n"
proof -
  have "length (Encrypt c (ctr_block iv i)) = BlockSize c" for i
    using assms by (intro cipher_okD(2)) (simp_all add: ctr_block_def be_bytes_def)
  then have "length (concat (map (\<lambda>i. Encrypt c (ctr_block iv i)) [0..<k])) = k * BlockSize c" for k
    by (simp add: length_concat comp_def sum_list_triv)
  moreover have "n \<le> (n + BlockSize c - 1) div BlockSize c * BlockSize c"
    using dividend_less_div_times[OF cipher_okD(1)[OF assms(1)], of "n + BlockSize c - 1"] cipher_okD(1)[OF assms(1)] by simp
  ultimately show ?thesis by (simp add: keystream_def)
qed

lemma XORKeyStream_involution:
  assumes "cipher_ok c" "length iv = BlockSize c"
  shows "XORKeyStream c iv (XORKeyStream c iv xs) = xs" "length (XORKeyStream c iv xs) = length xs"
  using length_keystream[OF assms, of "length xs"] by (simp_all add: XORKeyStream_def xorBytes_cancel)

lemma length_ccm_Ctr0 [simp]: "length (ccm_Ctr0 m nonce) = 16"
  by (simp add: ccm_Ctr0_def)

lemma xorBytes_commute: "xorBytes a b = xorBytes b a"
  by (intro nth_equalityI) (simp_all add: xor.commute min.commute)

definition ccm_tag :: "ccm \<Rightarrow> bytes \<Rightarrow> bytes \<Rightarrow> bytes \<Rightarrow> bytes" where
  "ccm_tag m nonce data p =
     take (tagSize m) (xorBytes (getTag m ((ccm_Ctr0 m nonce)[15 := 1]) data p) (Encrypt (ccm_c m) (ccm_Ctr0 m nonce)))"

lemma length_ccm_tag: "ccm_ok m \<Longrightarrow> length (ccm_tag m nonce data p) = tagSize m"
  by (simp add: ccm_tag_def ccm_ok_def length_getTag cipher_okD)

lemma Seal_Some:
  assumes "ccm_ok m" "length nonce = nonceSize m" "\<not> maxUvarint (15 - nonceSize m) < of_nat (length p)"
  shows "Seal m dst nonce p data = Some (dst @ XORKeyStream (ccm_c m) ((ccm_Ctr0 m nonce)[15 := 1]) p @ ccm_tag m nonce data p)"
proof -
  have "length (XORKeyStream (ccm_c m) ((ccm_Ctr0 m nonce)[15 := 1]) p) = length p"
    using assms(1) by (intro XORKeyStream_involution) (simp_all add: ccm_ok_def)
  then show ?thesis using assms by (simp add: Seal_def Let_def ccm_tag_def xorBytes_commute[of "Encrypt (ccm_c m) (ccm_Ctr0 m nonce)"])
qed

lemma Open_Some:
  assumes "length nonce = nonceSize m"
  shows "Open m dst nonce t data = Some (Inr (dst @ p)) \<longleftrightarrow>
    tagSize m \<le> length t \<and> \<not> maxUvarint (15 - nonceSize m) < of_nat (length t - tagSize m) \<and>
    p = XORKeyStream (ccm_c m) ((ccm_Ctr0 m nonce)[15 := 1]) (take (length t - tagSize m) t) \<and>
    drop (length t - tagSize m) t = ccm_tag m nonce data p"
  using assms by (auto simp: Open_def Let_def ccm_tag_def)

text \<open>C17 (ccm_opens_what_was_sealed). Under any cipher and for sizes the mode takes: a message opens to a text exactly when it is what
  sealing that text under the same nonce and the same associated data gives. So what was sealed opens to itself, and
  nothing else opens.\<close>

theorem ccm_opens_what_was_sealed:
  assumes "cipher_ok c" "NewCCMWithNonceAndTagSizes c ns ts = Inr m" "length nonce = ns"
  shows "Open m dst nonce t data = Some (Inr (dst @ p)) \<longleftrightarrow> Seal m [] nonce p data = Some t \<and> t \<noteq> []"
proof -
  have ok: "ccm_ok m" by (rule NewCCM_ok[OF assms(1,2)])
  have ns: "length nonce = nonceSize m" using assms(2,3) by (auto simp: NewCCMWithNonceAndTagSizes_def split: if_splits)
  let ?X = "XORKeyStream (ccm_c m) ((ccm_Ctr0 m nonce)[15 := 1])" and ?n = "length t - tagSize m"
  have inv: "?X (?X xs) = xs" "length (?X xs) = length xs" for xs
    using ok by (intro XORKeyStream_involution; simp add: ccm_ok_def)+
  have ts: "0 < tagSize m" using ok by (simp add: ccm_ok_def)
  show ?thesis
  proof
    assume "Open m dst nonce t data = Some (Inr (dst @ p))"
    then have o: "tagSize m \<le> length t" "\<not> maxUvarint (15 - nonceSize m) < of_nat ?n" "p = ?X (take ?n t)"
      "drop ?n t = ccm_tag m nonce data p" unfolding Open_Some[OF ns] by blast+
    have "length p = ?n" unfolding o(3) inv(2) by simp
    moreover have "?X p @ ccm_tag m nonce data p = t" unfolding o(4)[symmetric] unfolding o(3) inv(1) by simp
    ultimately show "Seal m [] nonce p data = Some t \<and> t \<noteq> []" using Seal_Some[OF ok ns, of p "[]"] o(1,2) ts by auto
  next
    assume s: "Seal m [] nonce p data = Some t \<and> t \<noteq> []"
    then have n: "\<not> maxUvarint (15 - nonceSize m) < of_nat (length p)" using ns by (auto simp: Seal_def split: if_splits)
    then have t: "t = ?X p @ ccm_tag m nonce data p" using s Seal_Some[OF ok ns, of p "[]"] by simp
    then have "?n = length p" "length t = length p + tagSize m" using inv(2) length_ccm_tag[OF ok] by simp_all
    then show "Open m dst nonce t data = Some (Inr (dst @ p))" unfolding Open_Some[OF ns] using n t inv by simp
  qed
qed

text \<open>Sealing the byte 7 under the cipher that leaves a block as it is.\<close>

theorem ccm_opens_what_was_sealed_witness:
  "(let c = \<lparr>BlockSize = 16, Encrypt = \<lambda>x. x\<rparr>; m = \<lparr>ccm_c = c, nonceSize = 11, tagSize = 4\<rparr> in
    \<exists>t. Seal m [] (replicate 11 5) [7] [] = Some t \<and> Open m [] (replicate 11 5) t [] = Some (Inr [7]))"
proof -
  let ?c = "\<lparr>BlockSize = 16, Encrypt = \<lambda>x. x\<rparr>"
  let ?m = "\<lparr>ccm_c = ?c, nonceSize = 11, tagSize = 4\<rparr>"
  have c: "cipher_ok ?c" by (simp add: cipher_ok_def)
  have m: "NewCCMWithNonceAndTagSizes ?c 11 4 = Inr ?m" by (simp add: NewCCMWithNonceAndTagSizes_def)
  have "\<not> maxUvarint (15 - 11) < of_nat (length [7 :: byte])" by (simp add: maxUvarint_def)
  then obtain t where "Seal ?m [] (replicate 11 5) [7] [] = Some t" "t \<noteq> []"
    using Seal_Some[OF NewCCM_ok[OF c m], of "replicate 11 5" "[7]" "[]" "[]"] length_ccm_tag[OF NewCCM_ok[OF c m], of "replicate 11 5" "[]" "[7]"]
    by (cases "ccm_tag ?m (replicate 11 5) [] [7]") auto
  then show ?thesis using ccm_opens_what_was_sealed[OF c m, of "replicate 11 5" "[]" t "[]" "[7]"] by (auto simp: Let_def)
qed

subsection \<open>The formatting of the standard\<close>

text \<open>
  A block chained into the one before, and the message in blocks: the first carries the sizes, the nonce and the length
  of the text; then the length of the associated data, that data, and the text, each filled up with zeros.
\<close>

function cbc_mac :: "block_cipher \<Rightarrow> bytes \<Rightarrow> bytes \<Rightarrow> bytes" where
  "cbc_mac c x m = (if BlockSize c = 0 \<or> m = [] then x
     else cbc_mac c (Encrypt c (xorBytes x (pad (BlockSize c) (take (BlockSize c) m)))) (drop (BlockSize c) m))"
  by pat_completeness auto
termination
  by (relation "measure (\<lambda>(c, x, m). length m)") auto

declare cbc_mac.simps [simp del]

lemma cbc_mac_Nil [simp]: "cbc_mac c x [] = x"
  by (simp add: cbc_mac.simps)

lemma cbc_mac_step:
  "0 < BlockSize c \<Longrightarrow> m \<noteq> [] \<Longrightarrow>
    cbc_mac c x m = cbc_mac c (Encrypt c (xorBytes x (pad (BlockSize c) (take (BlockSize c) m)))) (drop (BlockSize c) m)"
  by (subst cbc_mac.simps) simp

definition zero_filled :: "nat \<Rightarrow> bytes \<Rightarrow> bytes" where
  "zero_filled n xs = xs @ replicate ((n - length xs mod n) mod n) 0"

definition standard_B0 :: "nat \<Rightarrow> bytes \<Rightarrow> nat \<Rightarrow> nat \<Rightarrow> bytes" where
  "standard_B0 ts nonce a n =
     (let q = 15 - length nonce in
      of_nat ((if a > 0 then 64 else 0) + 8 * ((ts - 2) div 2) + (q - 1)) # nonce @ be_bytes q (int n))"

definition standard_aad :: "bytes \<Rightarrow> bytes" where
  "standard_aad a =
     (if a = [] then [] else if length a < 2 ^ 16 - 2 ^ 8 then be_bytes 2 (int (length a)) @ a
      else if length a < 2 ^ 32 then [0xff, 0xfe] @ be_bytes 4 (int (length a)) @ a
      else [0xff, 0xff] @ be_bytes 8 (int (length a)) @ a)"

definition standard_format :: "nat \<Rightarrow> bytes \<Rightarrow> bytes \<Rightarrow> bytes \<Rightarrow> bytes" where
  "standard_format ts nonce a p =
     standard_B0 ts nonce (length a) (length p) @ zero_filled 16 (standard_aad a) @ zero_filled 16 p"

lemma mac_Write_PadZero:
  assumes "cipher_ok c" "length x = BlockSize c"
  shows "PadZero c (mac_Write c m \<lparr>ci = x, pos = 0\<rparr>) = \<lparr>ci = cbc_mac c x m, pos = 0\<rparr>"
  using assms(2)
proof (induction "length m" arbitrary: x m rule: less_induct)
  case less
  let ?n = "BlockSize c"
  note ok = cipher_okD[OF assms(1)]
  consider "m = []" | "m \<noteq> []" "length m \<le> ?n" | "length m > ?n" by linarith
  then show ?case
  proof cases
    case 1
    then show ?thesis by (simp add: PadZero_def)
  next
    case 2
    then show ?thesis using mac_Write_short[OF less.prems 2(2)] ok(1)
      by (simp add: PadZero_def cbc_mac_step)
  next
    case 3
    let ?x = "Encrypt c (xorBytes x (take ?n m))"
    have "length ?x = ?n" using less.prems 3 by (intro ok(2)) simp
    then have "PadZero c (mac_Write c (drop ?n m) \<lparr>ci = ?x, pos = 0\<rparr>) = \<lparr>ci = cbc_mac c ?x (drop ?n m), pos = 0\<rparr>"
      using 3 ok(1) by (intro less.hyps) simp_all
    moreover have "cbc_mac c x m = cbc_mac c ?x (drop ?n m)" using 3 ok(1) by (subst cbc_mac_step) auto
    ultimately show ?thesis using mac_Write_block[OF less.prems ok(1) 3 ok(2)] by simp
  qed
qed

lemma cbc_mac_append:
  assumes "0 < BlockSize c" "length u mod BlockSize c = 0"
  shows "cbc_mac c x (u @ v) = cbc_mac c (cbc_mac c x u) v"
  using assms(2)
proof (induction "length u" arbitrary: x u rule: less_induct)
  case less
  show ?case
  proof (cases "u = []")
    case False
    then have l: "BlockSize c \<le> length u" using less.prems by (metis length_0_conv mod_less not_le)
    have "cbc_mac c y (drop (BlockSize c) u @ v) = cbc_mac c (cbc_mac c y (drop (BlockSize c) u)) v" for y
      using False assms(1) less.prems l by (intro less.hyps) (simp_all add: le_mod_geq[symmetric])
    then show ?thesis using l cbc_mac_step[OF assms(1) False, of x] cbc_mac_step[OF assms(1), of "u @ v" x] False by simp
  qed simp
qed

lemma cbc_mac_zero_filled: "0 < BlockSize c \<Longrightarrow> cbc_mac c x (zero_filled (BlockSize c) m) = cbc_mac c x m"
proof (induction "length m" arbitrary: x m rule: less_induct)
  case less
  let ?n = "BlockSize c"
  show ?case
  proof (cases "length m < ?n")
    case True
    then show ?thesis
    proof (cases "m = []")
      case False
      then have "zero_filled ?n m = m @ replicate (?n - length m) 0" using True by (simp add: zero_filled_def)
      then show ?thesis using False True less.prems by (simp add: cbc_mac_step pad_def)
    qed (simp add: zero_filled_def)
  next
    case False
    then have "zero_filled ?n m = take ?n m @ zero_filled ?n (drop ?n m)"
      using less.prems by (simp add: zero_filled_def le_mod_geq)
    moreover have "m \<noteq> []" using False less.prems by auto
    ultimately show ?thesis using False less.prems less.hyps[of "drop ?n m"] by (simp add: cbc_mac_step)
  qed
qed

lemma nth_to_le: "i < k \<Longrightarrow> to_le k v ! i = of_int (v div 256 ^ i)"
proof (induction k arbitrary: i v)
  case (Suc k)
  then show ?case by (cases i) (simp_all add: zdiv_zmult2_eq mult.commute)
qed simp

lemma to_le_of_le: "to_le (length xs) (of_le xs) = xs"
proof (induction xs)
  case (Cons x xs)
  have "(256 :: byte) = 0" by simp
  then have "of_int (uint x + 256 * of_le xs) = x" by (simp only: of_int_add of_int_mult of_int_numeral) simp
  moreover have "(uint x + 256 * of_le xs) div 256 = of_le xs" using uint_lt2p[of x] by simp
  ultimately show ?case using Cons by simp
qed simp

lemma to_le_append:
  assumes "0 \<le> r" "r < 256 ^ q"
  shows "to_le (q + m) (a * 256 ^ q + r) = to_le q r @ to_le m a"
  using assms
proof (induction q arbitrary: r)
  case (Suc q)
  have d: "(a * 256 ^ Suc q + r) div 256 = a * 256 ^ q + r div 256"
    using div_mult_self1[of 256 r "a * 256 ^ q"] by (simp add: algebra_simps)
  have "r div 256 < 256 ^ q" using Suc.prems by (simp add: div_less_iff_less_mult mult.commute)
  moreover have "(256 :: byte) = 0" by simp
  then have "of_int (a * 256 ^ Suc q + r) = (of_int r :: byte)" by (simp only: of_int_add of_int_mult of_int_power of_int_numeral) simp
  ultimately show ?case using Suc d by simp
next
  case 0
  then have "r = 0" by simp
  then show ?case by simp
qed

lemma be_bytes_append:
  "0 \<le> r \<Longrightarrow> r < 256 ^ q \<Longrightarrow> be_bytes (m + q) (a * 256 ^ q + r) = be_bytes m a @ be_bytes q r"
  unfolding be_bytes_def add.commute[of m q] by (simp add: to_le_append)

lemma be_bytes_value: "length xs = n \<Longrightarrow> be_bytes n (be_value xs) = xs"
  using to_le_of_le[of "rev xs"] by (simp add: be_bytes_def be_value_def)

lemma be_value_append: "be_value (xs @ ys) = be_value xs * 256 ^ length ys + be_value ys"
  by (simp add: be_value_def of_le_append)

lemma be_value_zeros [simp]: "be_value (replicate k 0) = 0"
  by (induction k) (simp_all add: be_value_Cons, simp add: be_value_def)

lemma putUvarint_be: "l < 2 ^ 64 \<Longrightarrow> putUvarint n (of_nat l) = be_bytes n (int l)"
proof (rule nth_equalityI)
  fix i assume l: "l < 2 ^ 64" and "i < length (putUvarint n (of_nat l))"
  then have i: "i < n" by simp
  let ?k = "n - 1 - i"
  have "uint (of_nat l :: u64) = int l" using l by (simp add: uint_nat unat_of_nat)
  moreover have t: "take_bit 64 (int l) = int l" using l by (simp add: take_bit_int_eq_self)
  ultimately have "uint (drop_bit (8 * ?k) (of_nat l :: u64)) = int l div 256 ^ ?k"
    unfolding unsigned_drop_bit_eq using t by (simp add: drop_bit_eq_div power_mult)
  then have "ucast (drop_bit (8 * ?k) (of_nat l :: u64)) = (of_int (int l div 256 ^ ?k) :: byte)"
    by (metis of_int_uint ucast_eq)
  then show "putUvarint n (of_nat l) ! i = be_bytes n (int l) ! i"
    using i by (simp add: putUvarint_def be_bytes_def rev_nth nth_to_le)
qed (simp add: be_bytes_def)

lemma ccm_flags:
  assumes "q < 8" "k < 8"
  shows "(of_nat q OR push_bit 3 (of_nat k) :: byte) = of_nat (8 * k + q)"
    "(of_nat q OR push_bit 3 (of_nat k)) OR push_bit 6 1 = (of_nat (64 + 8 * k + q) :: byte)"
proof -
  have "q \<in> set [0..<8]" "k \<in> set [0..<8]" using assms by simp_all
  moreover have "\<forall>q \<in> set [0..<8]. \<forall>k \<in> set [0..<8]. (of_nat q OR push_bit 3 (of_nat k) :: byte) = of_nat (8 * k + q)
      \<and> (of_nat q OR push_bit 3 (of_nat k)) OR push_bit 6 1 = (of_nat (64 + 8 * k + q) :: byte)"
    by code_simp
  ultimately show "(of_nat q OR push_bit 3 (of_nat k) :: byte) = of_nat (8 * k + q)"
    "(of_nat q OR push_bit 3 (of_nat k)) OR push_bit 6 1 = (of_nat (64 + 8 * k + q) :: byte)" by blast+
qed

text \<open>The first block, as the code turns the counter block into it.\<close>

lemma ccm_B0:
  assumes "ccm_ok m" "length nonce = nonceSize m" "n < 2 ^ 64"
  defines "B \<equiv> ((ccm_Ctr0 m nonce)[15 := 1])[0 := ((ccm_Ctr0 m nonce)[15 := 1]) ! 0 OR push_bit 3 (of_nat ((tagSize m - 2) div 2))]"
  defines "B0 \<equiv> take (1 + nonceSize m) B @ putUvarint (length B - (1 + nonceSize m)) (of_nat n)"
  shows "B0 = standard_B0 (tagSize m) nonce 0 n" "0 < a \<Longrightarrow> B0[0 := B0 ! 0 OR push_bit 6 1] = standard_B0 (tagSize m) nonce a n"
proof -
  let ?q = "15 - nonceSize m - 1" and ?k = "(tagSize m - 2) div 2"
  have ns: "7 \<le> nonceSize m" "nonceSize m \<le> 13" "tagSize m \<le> 16" using assms(1) by (simp_all add: ccm_ok_def)
  then have q: "?q < 8" "?k < 8" by linarith+
  have "ccm_Ctr0 m nonce = of_nat ?q # nonce @ replicate (15 - nonceSize m) 0"
    using assms(2) ns by (simp add: ccm_Ctr0_def)
  then have B: "take (1 + nonceSize m) B = (of_nat ?q OR push_bit 3 (of_nat ?k)) # nonce" "length B = 16"
    using assms(2) ns by (simp_all add: B_def)
  have B0: "B0 = (of_nat ?q OR push_bit 3 (of_nat ?k)) # nonce @ be_bytes (15 - nonceSize m) (int n)"
    unfolding B0_def B using putUvarint_be[OF assms(3), of "15 - nonceSize m"] by simp
  show "B0 = standard_B0 (tagSize m) nonce 0 n" unfolding B0 ccm_flags(1)[OF q] by (simp add: standard_B0_def assms(2))
  show "0 < a \<Longrightarrow> B0[0 := B0 ! 0 OR push_bit 6 1] = standard_B0 (tagSize m) nonce a n"
    using ccm_flags(2)[OF q] unfolding B0 by (simp add: standard_B0_def assms(2) add.assoc)
qed

lemma length_standard_B0: "length nonce \<le> 15 \<Longrightarrow> length (standard_B0 ts nonce a n) = 16"
  by (simp add: standard_B0_def Let_def be_bytes_def)

lemma length_zero_filled: "0 < n \<Longrightarrow> length (zero_filled n xs) mod n = 0"
proof -
  assume n: "0 < n"
  let ?l = "length xs"
  have "(?l + (n - ?l mod n) mod n) mod n = (?l mod n + (n - ?l mod n)) mod n" by (simp add: mod_add_left_eq mod_add_right_eq)
  also have "?l mod n + (n - ?l mod n) = n" using mod_less_divisor[OF n, of ?l] by linarith
  finally show ?thesis by (simp add: zero_filled_def)
qed

lemma replicate_last: "(replicate (Suc k) x)[k := y] = replicate k x @ [y]"
  by (induction k) simp_all

lemma xorBytes_take: "xorBytes p (take (length p) k) = xorBytes p k"
  by (rule nth_equalityI) simp_all

lemma be_bytes_zero: "be_bytes n 0 = replicate n 0"
  by (induction n) (simp_all add: be_bytes_def replicate_append_same)

lemma maxUvarint_value:
  assumes "2 \<le> k" "k \<le> 8"
  shows "unat (maxUvarint k) = 256 ^ k - 1"
proof -
  from assms have "k = 2 \<or> k = 3 \<or> k = 4 \<or> k = 5 \<or> k = 6 \<or> k = 7 \<or> k = 8" by linarith
  then show ?thesis by (elim disjE) (simp_all add: maxUvarint_def)
qed

lemma getTag_standard:
  assumes "ccm_ok m" "length nonce = nonceSize m" "length p < 2 ^ 64" "length a < 2 ^ 15 - 2 ^ 7"
  shows "getTag m ((ccm_Ctr0 m nonce)[15 := 1]) a p = cbc_mac (ccm_c m) (replicate 16 0) (standard_format (tagSize m) nonce a p)"
proof -
  let ?c = "ccm_c m" and ?z = "replicate 16 0 :: bytes" and ?B = "standard_B0 (tagSize m) nonce (length a) (length p)"
  have c: "cipher_ok ?c" "BlockSize ?c = 16" "0 < BlockSize ?c" using assms(1) by (simp_all add: ccm_ok_def)
  have r: "mac_Reset ?c = \<lparr>ci = ?z, pos = 0\<rparr>" by (simp add: mac_Reset_def c(2))
  have lB: "length ?B mod BlockSize ?c = 0" using assms(1,2) by (simp add: length_standard_B0 c(2) ccm_ok_def)
  have w: "PadZero ?c (mac_Write ?c u \<lparr>ci = ?z, pos = 0\<rparr>) = \<lparr>ci = cbc_mac ?c ?z u, pos = 0\<rparr>" for u
    using mac_Write_PadZero[OF c(1)] c(2) by simp
  have l: "length (cbc_mac ?c ?z u) = BlockSize ?c" for u
    using length_PadZero[OF c(1) length_mac_Write[OF c(1), of "\<lparr>ci = ?z, pos = 0\<rparr>" u]] w[of u] c(2) by simp
  show ?thesis
  proof (cases "a = []")
    case True
    have "getTag m ((ccm_Ctr0 m nonce)[15 := 1]) a p = ci (PadZero ?c (mac_Write ?c (?B @ p) \<lparr>ci = ?z, pos = 0\<rparr>))"
      unfolding getTag_def Let_def r True ccm_B0(1)[OF assms(1,2,3)] by (simp add: mac_Write_append)
    also have "\<dots> = cbc_mac ?c ?z (?B @ p)" unfolding w by simp
    also have "\<dots> = cbc_mac ?c ?z (?B @ zero_filled 16 p)"
      using cbc_mac_zero_filled[OF c(3)] c(2) by (simp add: cbc_mac_append[OF c(3) lB])
    finally show ?thesis by (simp add: standard_format_def standard_aad_def zero_filled_def True)
  next
    case False
    let ?A = "standard_aad a"
    have la: "0 < length a" "length a < 2 ^ 64" using False assms(4) by simp_all
    from la(2) have A: "aad_length (length a) @ a = ?A" using assms(4) False by (simp add: aad_length_def standard_aad_def putUvarint_be)
    let ?s = "\<lparr>ci = cbc_mac ?c ?z (?B @ ?A), pos = 0\<rparr>"
    have "getTag m ((ccm_Ctr0 m nonce)[15 := 1]) a p = ci (PadZero ?c (mac_Write ?c p (PadZero ?c (mac_Write ?c (?B @ ?A) \<lparr>ci = ?z, pos = 0\<rparr>))))"
      unfolding getTag_def Let_def r ccm_B0(2)[OF assms(1,2,3) la(1)] A[symmetric] mac_Write_append using False by simp
    also have "\<dots> = cbc_mac ?c (cbc_mac ?c ?z (?B @ ?A)) p"
      unfolding w using mac_Write_PadZero[OF c(1) l] by simp
    also have "\<dots> = cbc_mac ?c (cbc_mac ?c ?z (?B @ zero_filled 16 ?A)) (zero_filled 16 p)"
      using cbc_mac_zero_filled[OF c(3)] c(2) by (simp add: cbc_mac_append[OF c(3) lB])
    also have "\<dots> = cbc_mac ?c ?z ((?B @ zero_filled 16 ?A) @ zero_filled 16 p)"
    proof (rule cbc_mac_append[OF c(3), symmetric])
      show "length (?B @ zero_filled 16 ?A) mod BlockSize ?c = 0"
        using lB c(2) length_zero_filled[of 16 ?A] by (simp add: mod_add_eq[symmetric])
    qed
    finally show ?thesis by (simp add: standard_format_def)
  qed
qed

lemma ctr_blocks:
  assumes "ccm_ok m" "length nonce = nonceSize m" "i + 1 < 256 ^ (15 - length nonce)"
  shows "ctr_block ((ccm_Ctr0 m nonce)[15 := 1]) i = of_nat (14 - length nonce) # nonce @ be_bytes (15 - length nonce) (int (i + 1))"
proof -
  let ?q = "15 - length nonce" and ?h = "of_nat (14 - length nonce) # nonce"
  have ns: "7 \<le> length nonce" "length nonce \<le> 13" using assms(1,2) by (simp_all add: ccm_ok_def)
  then have q: "?q = Suc (14 - length nonce)" by simp
  have rl: "(replicate (15 - length nonce) 0)[14 - length nonce := 1] = replicate (14 - length nonce) 0 @ [1 :: byte]"
    unfolding q by (rule replicate_last)
  have "(ccm_Ctr0 m nonce)[15 := 1] = ?h @ replicate (14 - length nonce) 0 @ [1]"
    using ns assms(2) rl unfolding ccm_Ctr0_def by (simp add: list_update_append)
  moreover have "be_value \<dots> = be_value ?h * 256 ^ ?q + 1" unfolding be_value_append q by (simp add: be_value_def[of "[_]"])
  ultimately have v: "be_value ((ccm_Ctr0 m nonce)[15 := 1]) + int i = be_value ?h * 256 ^ ?q + int (i + 1)" by simp
  have r: "int (i + 1) < 256 ^ ?q" using assms(3) by (metis of_nat_less_iff of_nat_numeral of_nat_power)
  have l: "length ?h + ?q = 16" using ns by simp
  have "be_value ?h \<le> 256 ^ length ?h - 1" using be_value_bounds(2)[of ?h] by simp
  then have "be_value ?h * 256 ^ ?q \<le> (256 ^ length ?h - 1) * 256 ^ ?q" by (intro mult_right_mono) simp_all
  also have "\<dots> = 256 ^ 16 - 256 ^ ?q" unfolding l[symmetric] power_add by (simp add: algebra_simps)
  finally have "(be_value ?h * 256 ^ ?q + int (i + 1)) mod 256 ^ 16 = be_value ?h * 256 ^ ?q + int (i + 1)"
    using r be_value_bounds(1)[of ?h] by (intro mod_pos_pos_trivial) simp_all
  then have "ctr_block ((ccm_Ctr0 m nonce)[15 := 1]) i = be_bytes (length ?h + ?q) (be_value ?h * 256 ^ ?q + int (i + 1))"
    unfolding ctr_block_def v using l by simp
  also have "\<dots> = ?h @ be_bytes ?q (int (i + 1))" unfolding be_bytes_append[OF of_nat_0_le_iff r] be_bytes_value[of ?h, OF refl] ..
  finally show ?thesis by simp
qed

text \<open>The encryption of the standard: the text under the counter blocks from one on, and the tag under the block zero.\<close>

definition standard_ctr :: "bytes \<Rightarrow> nat \<Rightarrow> bytes" where
  "standard_ctr nonce i = of_nat (14 - length nonce) # nonce @ be_bytes (15 - length nonce) (int i)"

definition standard_ccm :: "block_cipher \<Rightarrow> nat \<Rightarrow> bytes \<Rightarrow> bytes \<Rightarrow> bytes \<Rightarrow> bytes" where
  "standard_ccm c ts nonce a p =
     (let T = cbc_mac c (replicate 16 0) (standard_format ts nonce a p);
          S = concat (map (\<lambda>i. Encrypt c (standard_ctr nonce i)) [1..<1 + (length p + 15) div 16])
      in xorBytes p S @ take ts (xorBytes T (Encrypt c (standard_ctr nonce 0))))"

text \<open>C31 (ccm_is_standard). For associated data of less than 32640 bytes and a text within the limit of the nonce size, sealing gives the
  bytes of SP 800-38C: its formatting of the nonce, the data and the text into blocks, its chaining, its counter
  blocks.\<close>

theorem ccm_is_standard:
  assumes "cipher_ok c" "NewCCMWithNonceAndTagSizes c ns ts = Inr m" "length nonce = ns" "length a < 32640"
    and "length p < 256 ^ (15 - ns)" "length p < 2 ^ 63"
  shows "Seal m [] nonce p a = Some (standard_ccm c ts nonce a p)"
proof -
  have ok: "ccm_ok m" by (rule NewCCM_ok[OF assms(1,2)])
  have m: "ccm_c m = c" "nonceSize m = ns" "tagSize m = ts" "BlockSize c = 16" "ns \<le> 13" "7 \<le> ns"
    using assms(2) by (auto simp: NewCCMWithNonceAndTagSizes_def split: if_splits)
  let ?I = "(ccm_Ctr0 m nonce)[15 := 1]" and ?k = "(length p + 15) div 16"
  have small: "\<not> maxUvarint (15 - nonceSize m) < of_nat (length p)"
    using maxUvarint_value[of "15 - ns"] assms(5,6) m by (simp add: word_less_nat_alt unat_of_nat)
  have C0: "ccm_Ctr0 m nonce = standard_ctr nonce 0"
    using assms(3) m by (simp add: ccm_Ctr0_def standard_ctr_def be_bytes_zero)
  have T: "ccm_tag m nonce a p = take ts (xorBytes (cbc_mac c (replicate 16 0) (standard_format ts nonce a p)) (Encrypt c (standard_ctr nonce 0)))"
    using getTag_standard[OF ok, of nonce p a] assms(3,4,6) m C0 by (simp add: ccm_tag_def)
  have b: "ctr_block ?I i = standard_ctr nonce (Suc i)" if "i < ?k" for i
  proof -
    have "i + 1 \<le> length p" using that by linarith
    then show ?thesis unfolding standard_ctr_def using ctr_blocks[OF ok, of nonce i] assms(3,5) m by simp
  qed
  have "XORKeyStream c ?I p = xorBytes p (concat (map (\<lambda>i. Encrypt c (ctr_block ?I i)) [0..<?k]))"
    unfolding XORKeyStream_def keystream_def xorBytes_take using m(4) by (simp add: add.commute)
  also have "map (\<lambda>i. Encrypt c (ctr_block ?I i)) [0..<?k] = map (\<lambda>i. Encrypt c (standard_ctr nonce i)) [1..<1 + ?k]"
    using b by (simp add: map_Suc_upt[symmetric] comp_def del: upt_Suc)
  finally show ?thesis using Seal_Some[OF ok _ small, of nonce "[]" a] assms(3) m T by (simp add: standard_ccm_def Let_def)
qed

text \<open>One byte of data and no text, under the cipher that turns a block round.\<close>

theorem ccm_is_standard_witness:
  "(let c = \<lparr>BlockSize = 16, Encrypt = rev\<rparr>; m = \<lparr>ccm_c = c, nonceSize = 11, tagSize = 4\<rparr> in
    Seal m [] (replicate 11 5) [] [9] = Some (standard_ccm c 4 (replicate 11 5) [9] []))"
proof -
  let ?c = "\<lparr>BlockSize = 16, Encrypt = rev\<rparr>"
  have c: "cipher_ok ?c" by (simp add: cipher_ok_def)
  have m: "NewCCMWithNonceAndTagSizes ?c 11 4 = Inr \<lparr>ccm_c = ?c, nonceSize = 11, tagSize = 4\<rparr>"
    by (simp add: NewCCMWithNonceAndTagSizes_def)
  show ?thesis using ccm_is_standard[OF c m, of "replicate 11 5" "[9]" "[]"] by simp
qed

lemma to_le_2: "to_le 2 v = [of_int v, of_int (v div 256)]"
  by (simp add: numeral_2_eq_2)

text \<open>From 32640 bytes on the code announces the data with six bytes, where the standard still has two.\<close>

lemma aad_length_not_standard:
  assumes "length a = 32640"
  shows "take 2 (aad_length (length a)) = [0xff, 0xfe]" "take 2 (standard_aad a) = [0x7f, 0x80]"
  using assms by (auto simp: aad_length_def standard_aad_def be_bytes_def to_le_2)

end
