(* ===== verification/Message_Protection.thy ===== *)
theory Message_Protection
  imports Sessions Crypto_Ccm Wire_Chain
begin

section \<open>Signing and encrypting messages\<close>

text \<open>
  The other half of \<^verbatim>\<open>src/session.go\<close>: which key signs what, signing a message response by response, checking the
  signature of a request, and wrapping a message into the encrypted transform and taking it out again; the hash of
  \<^verbatim>\<open>src/internal/gmac\<close>; \<^verbatim>\<open>encodeResponse\<close> of \<^verbatim>\<open>src/server.go\<close>, and the part of \<^verbatim>\<open>acceptRequest\<close> of \<^verbatim>\<open>src/conn.go\<close> that unwraps a
  message and looks its session up. AES and GCM are those of the Go library and are functions of the environment;
  CMAC and CCM are the program's own. The offsets into a message are 32 bits wide and wrap; a walk through a message
  that does not come to an end is \<^const>\<open>None\<close>, like a panic.
\<close>

unbundle bit_operations_syntax

subsection \<open>Ciphers and hashes\<close>

definition AES_CMAC :: u16 where "AES_CMAC = 1"
definition AES_GMAC :: u16 where "AES_GMAC = 2"
definition AES_128_CCM :: u16 where "AES_128_CCM = 1"
definition AES_128_GCM :: u16 where "AES_128_GCM = 2"

text \<open>\<^verbatim>\<open>cipher.AEAD\<close>: sealing takes what to append to, the nonce, the text and the data that goes along in the clear.\<close>

record aead =
  NonceSize :: nat
  AEAD_Seal :: "bytes \<Rightarrow> bytes \<Rightarrow> bytes \<Rightarrow> bytes \<Rightarrow> bytes go"
  AEAD_Open :: "bytes \<Rightarrow> bytes \<Rightarrow> bytes \<Rightarrow> bytes \<Rightarrow> bytes option go"

record prot_env =
  pe_sess :: sess_env
  aes_NewCipher :: "bytes \<Rightarrow> block_cipher option"
  NewGCMWithNonceSize :: "block_cipher \<Rightarrow> nat \<Rightarrow> aead option"

definition ccm_aead :: "ccm \<Rightarrow> aead" where
  "ccm_aead m = \<lparr>NonceSize = nonceSize m, AEAD_Seal = Seal m,
     AEAD_Open = (\<lambda>dst nonce t data. map_option (\<lambda>r. case r of Inl _ \<Rightarrow> None | Inr p \<Rightarrow> Some p) (Open m dst nonce t data))\<rparr>"

record gmacHash =
  gm_aead :: aead
  gm_nonce :: bytes
  gm_buf :: bytes

definition gmac_New :: "prot_env \<Rightarrow> bytes \<Rightarrow> bytes \<Rightarrow> gmacHash option" where
  "gmac_New E signingKey nonce =
     do { block \<leftarrow> aes_NewCipher E signingKey;
          a \<leftarrow> NewGCMWithNonceSize E block 12;
          if length nonce \<noteq> NonceSize a then None else Some \<lparr>gm_aead = a, gm_nonce = nonce, gm_buf = []\<rparr> }"

definition gmac_Write :: "bytes \<Rightarrow> gmacHash \<Rightarrow> gmacHash" where
  "gmac_Write p g = g\<lparr>gm_buf := gm_buf g @ p\<rparr>"

definition gmac_Sum :: "bytes \<Rightarrow> gmacHash \<Rightarrow> bytes go" where
  "gmac_Sum b g = map_option (\<lambda>tag. b @ tag) (AEAD_Seal (gm_aead g) [] (gm_nonce g) [] (gm_buf g))"

definition gmac_Reset :: "gmacHash \<Rightarrow> gmacHash" where
  "gmac_Reset g = g\<lparr>gm_buf := []\<rparr>"

text \<open>The three hashes that a message may be signed with.\<close>

datatype signer = SHmac bytes bytes | SCmac block_cipher cmac | SGmac gmacHash

definition signer_Reset :: "signer \<Rightarrow> signer" where
  "signer_Reset s = (case s of SHmac key _ \<Rightarrow> SHmac key [] | SCmac b h \<Rightarrow> SCmac b (cmac_Reset b h) | SGmac g \<Rightarrow> SGmac (gmac_Reset g))"

definition signer_Write :: "bytes \<Rightarrow> signer \<Rightarrow> signer" where
  "signer_Write p s = (case s of SHmac key d \<Rightarrow> SHmac key (d @ p) | SCmac b h \<Rightarrow> SCmac b (cmac_Write b p h) | SGmac g \<Rightarrow> SGmac (gmac_Write p g))"

definition signer_Sum :: "prot_env \<Rightarrow> signer \<Rightarrow> bytes go" where
  "signer_Sum E s =
     (case s of SHmac key d \<Rightarrow> Some (hmac_sha256 (pe_sess E) key d) | SCmac b h \<Rightarrow> Some (cmac_Sum b h) | SGmac g \<Rightarrow> gmac_Sum [] g)"

text \<open>
  Choosing one by the dialect and what was negotiated: \<open>Inl\<close> where the key is refused, \<open>Inr None\<close> where no case applies
  and the variable stays nil. The nonce of a GMAC is the message ID, with a bit for the direction and one for a cancel.
\<close>

definition gmac_nonce :: "bool \<Rightarrow> bytes \<Rightarrow> bytes go" where
  "gmac_nonce server h =
     do { mid \<leftarrow> Header_MessageID h;
          cmd \<leftarrow> Header_Command h;
          Some (to_le 8 (uint mid) @ [(if server then 1 else 0) OR (if cmd = SMB2_CANCEL then 2 else 0), 0, 0, 0]) }"

definition cmac_signer :: "prot_env \<Rightarrow> bytes \<Rightarrow> (unit + signer option) go" where
  "cmac_signer E key =
     (case aes_NewCipher E key of
        None \<Rightarrow> Some (Inl ())
      | Some ciph \<Rightarrow> do { h \<leftarrow> cmac_New ciph; Some (Inr (Some (SCmac ciph h))) })"

definition new_signer :: "prot_env \<Rightarrow> conn \<Rightarrow> bytes \<Rightarrow> bytes \<Rightarrow> bool \<Rightarrow> bytes \<Rightarrow> (unit + signer option) go" where
  "new_signer E k hkey key server h =
     (if cn_negotiateDialect k = SMB_DIALECT_202 \<or> cn_negotiateDialect k = SMB_DIALECT_21 then Some (Inr (Some (SHmac hkey [])))
      else if cn_negotiateDialect k = SMB_DIALECT_30 \<or> cn_negotiateDialect k = SMB_DIALECT_302 then cmac_signer E key
      else if cn_negotiateDialect k = SMB_DIALECT_311 then
        (if cn_signingAlgorithmID k = AES_CMAC then cmac_signer E key
         else if cn_signingAlgorithmID k = AES_GMAC then
           do { nonce \<leftarrow> gmac_nonce server h;
                Some (case gmac_New E key nonce of None \<Rightarrow> Inl () | Some g \<Rightarrow> Inr (Some (SGmac g))) }
         else cmac_signer E key)
      else Some (Inr None))"

subsection \<open>Signing\<close>

definition SMB2_NEGOTIATE :: u16 where "SMB2_NEGOTIATE = 0"
definition SMB2_SESSION_SETUP :: u16 where "SMB2_SESSION_SETUP = 1"
definition SESSION_FLAG_BINDING :: u8 where "SESSION_FLAG_BINDING = 1"
definition SMB2SessionSetupRequestMinSize :: nat where "SMB2SessionSetupRequestMinSize = 24"

definition isSetupCommand :: "u16 \<Rightarrow> bool" where
  "isSetupCommand command \<longleftrightarrow> command = SMB2_NEGOTIATE \<or> command = SMB2_SESSION_SETUP"

definition signingKeyFor :: "cref \<Rightarrow> conn \<Rightarrow> session \<Rightarrow> bytes \<Rightarrow> bytes go" where
  "signingKeyFor c k ss header =
     (if \<not> Is3X (cn_negotiateDialect k) then Some (ss_signingKey ss)
      else do {
        cmd \<leftarrow> Header_Command header;
        status \<leftarrow> (if cmd = SMB2_SESSION_SETUP then Header_Status header else Some STATUS_OK);
        if cmd = SMB2_SESSION_SETUP \<and> status \<noteq> STATUS_OK then Some (ss_signingKey ss)
        else Some (case channelOf c (cn_clientName k) ss of
                     None \<Rightarrow> ss_signingKey ss
                   | Some ch \<Rightarrow> if ch_signingKey ch = [] then ss_signingKey ss else ch_signingKey ch) })"

text \<open>Go's \<^verbatim>\<open>copy\<close> into a slice of a message.\<close>

definition copy_in :: "u32 \<Rightarrow> u32 \<Rightarrow> bytes \<Rightarrow> bytes \<Rightarrow> bytes go" where
  "copy_in a b src d = do { bs \<leftarrow> slice (unat a) (unat b) d; put_at (unat a) (take (length bs) src) d }"

text \<open>One response: \<open>Inl\<close> where signing stops short.\<close>

definition sign_one :: "prot_env \<Rightarrow> cref \<Rightarrow> conn \<Rightarrow> session \<Rightarrow> u32 \<Rightarrow> bytes \<Rightarrow> (bytes + u32 \<times> bytes) go" where
  "sign_one E c k ss off msg =
     do { nxt \<leftarrow> Uint32_in (off + 20) (off + 24) msg;
          flags \<leftarrow> Uint32_in (off + 16) (off + 20) msg;
          msg \<leftarrow> PutUint32_in (off + 16) (off + 20) (flags OR FLAGS_SIGNED) msg;
          msg \<leftarrow> copy_in (off + 48) (off + 64) (replicate 16 0) msg;
          h \<leftarrow> slice (unat off) (length msg) msg;
          key \<leftarrow> signingKeyFor c k ss h;
          s \<leftarrow> new_signer E k (ss_sessionKey ss) key True h;
          case s of
            Inl _ \<Rightarrow> Some (Inl msg)
          | Inr None \<Rightarrow> None
          | Inr (Some s) \<Rightarrow>
              do { m \<leftarrow> (if nxt = 0 then slice (unat off) (length msg) msg else slice (unat off) (unat (off + nxt)) msg);
                   digest \<leftarrow> signer_Sum E (signer_Write m (signer_Reset s));
                   msg \<leftarrow> copy_in (off + 48) (off + 64) digest msg;
                   Some (Inr (nxt, msg)) } }"

partial_function (option) sign_loop :: "prot_env \<Rightarrow> cref \<Rightarrow> conn \<Rightarrow> session \<Rightarrow> u32 \<Rightarrow> bytes \<Rightarrow> bytes go" where
  "sign_loop E c k ss off msg =
     do { r \<leftarrow> sign_one E c k ss off msg;
          case r of
            Inl msg \<Rightarrow> Some msg
          | Inr (nxt, msg) \<Rightarrow> if nxt = 0 then Some msg else sign_loop E c k ss (off + nxt) msg }"

definition sign :: "prot_env \<Rightarrow> cref \<Rightarrow> conn \<Rightarrow> session \<Rightarrow> bytes \<Rightarrow> bytes go" where
  "sign E c k ss msg = sign_loop E c k ss 0 msg"

subsection \<open>Checking a signature\<close>

definition SessionSetup_Flags :: "bytes \<Rightarrow> u8 go" where
  "SessionSetup_Flags data = (if length data < SMB2HeaderSize + SMB2SessionSetupRequestMinSize then Some 0 else byte_at (SMB2HeaderSize + 2) data)"

definition isSessionBinding :: "bytes \<Rightarrow> bool go" where
  "isSessionBinding data =
     do { cmd \<leftarrow> Header_Command data;
          if cmd \<noteq> SMB2_SESSION_SETUP then Some False
          else do { f \<leftarrow> SessionSetup_Flags data; Some (f AND SESSION_FLAG_BINDING > 0) } }"

definition verificationKeyFor :: "cref \<Rightarrow> conn \<Rightarrow> session \<Rightarrow> bytes \<Rightarrow> bytes go" where
  "verificationKeyFor c k ss data =
     (if \<not> Is3X (cn_negotiateDialect k) then Some (ss_sessionKey ss)
      else do {
        b \<leftarrow> isSessionBinding data;
        if b then Some (ss_signingKey ss)
        else Some (case channelOf c (cn_clientName k) ss of None \<Rightarrow> [] | Some ch \<Rightarrow> ch_signingKey ch) })"

text \<open>The hash over a message whose signature field is wiped: \<open>Inl\<close> where the key is refused.\<close>

definition message_mac :: "prot_env \<Rightarrow> conn \<Rightarrow> bytes \<Rightarrow> bytes \<Rightarrow> bool \<Rightarrow> bytes \<Rightarrow> (unit + bytes) go" where
  "message_mac E k hkey key server data =
     do { s \<leftarrow> new_signer E k hkey key server data;
          case s of
            Inl _ \<Rightarrow> Some (Inl ())
          | Inr None \<Rightarrow> None
          | Inr (Some s) \<Rightarrow> do { digest \<leftarrow> signer_Sum E (signer_Write data (signer_Reset s)); Some (Inr digest) } }"

text \<open>The verdict, and the request with its signature wiped.\<close>

definition validateRequest :: "prot_env \<Rightarrow> cref \<Rightarrow> conn \<Rightarrow> session \<Rightarrow> bool \<Rightarrow> bytes \<Rightarrow> (verdict \<times> bytes) go" where
  "validateRequest E c k ss encrypted data =
     (if encrypted then Some (Verified, data)
      else do {
        signed \<leftarrow> Header_IsFlagSet FLAGS_SIGNED data;
        if \<not> signed then
          do { cmd \<leftarrow> Header_Command data;
               Some (if ss_signingRequired ss \<and> \<not> isSetupCommand cmd then UnsignedRequest else Verified, data) }
        else do {
          key \<leftarrow> verificationKeyFor c k ss data;
          if key = [] then Some (NoSigningKey, data)
          else do {
            signature \<leftarrow> Header_Signature data;
            data \<leftarrow> Header_WipeSignature data;
            m \<leftarrow> message_mac E k key key False data;
            case m of
              Inl _ \<Rightarrow> Some (BadSignature, data)
            | Inr digest \<Rightarrow> do { digest16 \<leftarrow> slice 0 16 digest; Some (if signature \<noteq> digest16 then BadSignature else Verified, data) } } } })"

subsection \<open>Encrypting\<close>

definition SMB2TransformHeaderSize :: nat where "SMB2TransformHeaderSize = 52"

definition aead_for :: "prot_env \<Rightarrow> bytes \<Rightarrow> conn \<Rightarrow> aead option" where
  "aead_for E key k =
     do { ciph \<leftarrow> aes_NewCipher E key;
          if cn_cipherID k = AES_128_CCM then (case NewCCMWithNonceAndTagSizes ciph 11 16 of Inl _ \<Rightarrow> None | Inr m \<Rightarrow> Some (ccm_aead m))
          else if cn_cipherID k = AES_128_GCM then NewGCMWithNonceSize E ciph 12
          else None }"

text \<open>\<open>Some None\<close> is nil. The nonce is what the generator of random bytes has filled in. The result of sealing shares
  the array of the message it is appended to.\<close>

definition transform_header :: "u64 \<Rightarrow> bytes \<Rightarrow> nat \<Rightarrow> bytes \<Rightarrow> bytes go" where
  "transform_header sid nonce n out =
     do { out \<leftarrow> Header_SetProtocolID PROTOCOL_SMB2_ENCRYPTED out;
          out \<leftarrow> Header_SetNonce nonce out;
          out \<leftarrow> Header_SetOriginalMessageSize (of_nat n) out;
          out \<leftarrow> Header_SetEncryptionFlags 1 out;
          Header_SetTransformSessionID sid out }"

definition seal_message :: "aead \<Rightarrow> u64 \<Rightarrow> bytes \<Rightarrow> bytes \<Rightarrow> bytes go" where
  "seal_message a sid nonce msg =
     do { out \<leftarrow> transform_header sid nonce (length msg) (replicate (SMB2TransformHeaderSize + (length msg + 16)) 0);
          dst \<leftarrow> slice 0 SMB2TransformHeaderSize out;
          ad \<leftarrow> Header_AssociatedData out;
          sealed \<leftarrow> AEAD_Seal a dst nonce msg ad;
          let out = sealed @ drop (length sealed) out;
          tag \<leftarrow> slice (length out - 16) (length out) out;
          out \<leftarrow> Header_SetEncryptionSignature tag out;
          Some (take (length out - 16) out) }"

definition encrypt :: "prot_env \<Rightarrow> conn \<Rightarrow> session \<Rightarrow> bytes \<Rightarrow> bytes \<Rightarrow> bytes option go" where
  "encrypt E k ss nonce msg =
     (case aead_for E (ss_encryptionKey ss) k of
        None \<Rightarrow> Some None
      | Some a \<Rightarrow> map_option Some (seal_message a (ss_sessionID ss) nonce msg))"

definition open_message :: "aead \<Rightarrow> bytes \<Rightarrow> bytes \<Rightarrow> bytes option go" where
  "open_message a t msg =
     do { nonce \<leftarrow> Header_Nonce msg;
          nonce \<leftarrow> slice 0 (NonceSize a) nonce;
          ad \<leftarrow> Header_AssociatedData msg;
          AEAD_Open a [] nonce t ad }"

definition decrypt :: "prot_env \<Rightarrow> conn \<Rightarrow> session \<Rightarrow> bytes \<Rightarrow> bytes option go" where
  "decrypt E k ss msg =
     do { body \<leftarrow> slice SMB2TransformHeaderSize (length msg) msg;
          signature \<leftarrow> Header_EncryptionSignature msg;
          case aead_for E (ss_decryptionKey ss) k of
            None \<Rightarrow> Some None
          | Some a \<Rightarrow> open_message a (body @ signature) msg }"

text \<open>Naming the session in the headers that name none.\<close>

partial_function (option) stamp_loop :: "u64 \<Rightarrow> u32 \<Rightarrow> bytes \<Rightarrow> bytes go" where
  "stamp_loop sid off msg =
     (if unat off + SMB2HeaderSize > length msg then Some msg
      else do {
        h \<leftarrow> slice (unat off) (length msg) msg;
        id \<leftarrow> Header_SessionID h;
        h \<leftarrow> (if id = 0 then Header_SetSessionID sid h else Some h);
        msg \<leftarrow> put_at (unat off) h msg;
        nxt \<leftarrow> Header_NextCommand h;
        if nxt = 0 then Some msg else stamp_loop sid (off + nxt) msg })"

definition stampSessionID :: "bytes \<Rightarrow> u64 \<Rightarrow> bytes go" where
  "stampSessionID msg sid = stamp_loop sid 0 msg"

subsection \<open>What a response goes out as\<close>

partial_function (option) wipe_loop :: "u32 \<Rightarrow> bytes \<Rightarrow> bytes go" where
  "wipe_loop off msg =
     do { nxt \<leftarrow> Uint32_in (off + 20) (off + 24) msg;
          msg \<leftarrow> copy_in (off + 48) (off + 64) (replicate 16 0) msg;
          h \<leftarrow> slice (unat off) (length msg) msg;
          h \<leftarrow> Header_ClearFlag FLAGS_SIGNED h;
          msg \<leftarrow> put_at (unat off) h msg;
          if nxt = 0 then Some msg else wipe_loop (off + nxt) msg }"

definition wipeSignatures :: "bytes \<Rightarrow> bytes go" where
  "wipeSignatures msg = wipe_loop 0 msg"

text \<open>\<open>compress\<close> is the compression of the connection.\<close>

definition encode_encrypted :: "prot_env \<Rightarrow> (bytes \<Rightarrow> bytes go) \<Rightarrow> conn \<Rightarrow> session \<Rightarrow> bool \<Rightarrow> bytes \<Rightarrow> bytes \<Rightarrow> bytes option go" where
  "encode_encrypted E compress k ss mayCompress nonce msg =
     do { msg \<leftarrow> wipeSignatures msg;
          msg \<leftarrow> stampSessionID msg (ss_sessionID ss);
          msg \<leftarrow> (if mayCompress then compress msg else Some msg);
          encrypt E k ss nonce msg }"

definition encodeResponse ::
  "prot_env \<Rightarrow> (bytes \<Rightarrow> bytes go) \<Rightarrow> cref \<Rightarrow> conn \<Rightarrow> session option \<Rightarrow> bool \<Rightarrow> bool \<Rightarrow> bytes \<Rightarrow> bytes \<Rightarrow> bytes option go" where
  "encodeResponse E compress c k ss shouldEncrypt mayCompress nonce msg =
     (case ss of
        None \<Rightarrow> Some (Some msg)
      | Some ss \<Rightarrow>
          if ss_state ss \<noteq> sessionValid then Some (Some msg)
          else if shouldEncrypt then encode_encrypted E compress k ss mayCompress nonce msg
          else do {
            cmd \<leftarrow> Header_Command msg;
            if cmd \<noteq> SMB2_SESSION_SETUP \<and> ss_encryptData ss then encode_encrypted E compress k ss mayCompress nonce msg
            else do {
              signed \<leftarrow> (if cmd = SMB2_SESSION_SETUP then Some True else Header_IsFlagSet FLAGS_SIGNED msg);
              map_option Some (if signed then sign E c k ss msg else wipeSignatures msg) } })"

subsection \<open>What a message is taken for\<close>

datatype unwrap_error = LongRequest | WrongLength | EncryptedMessage | WrongFormat | SessionNotFound | AccessDenied
  | DecryptionError | DecompressionError

text \<open>The message in the clear, the session it was encrypted for, and whether it was compressed.\<close>

definition open_transform :: "prot_env \<Rightarrow> smb \<Rightarrow> cref \<Rightarrow> bytes \<Rightarrow> (unwrap_error + bytes \<times> u64) go" where
  "open_transform E M c msg =
     (if cn_cipherID (cn M c) = 0 then Some (Inl EncryptedMessage)
      else do {
        f \<leftarrow> Header_EncryptionFlags msg;
        if f \<noteq> 1 then Some (Inl WrongFormat)
        else do {
          tsid \<leftarrow> Header_TransformSessionID msg;
          sz \<leftarrow> Header_OriginalMessageSize msg;
          case cn_sessionTable (cn M c) tsid of
            None \<Rightarrow> Some (Inl SessionNotFound)
          | Some r \<Rightarrow>
              if ss_isAnonymous (se M r) \<or> ss_isGuest (se M r) then Some (Inl AccessDenied)
              else do {
                m \<leftarrow> decrypt E (cn M c) (se M r) msg;
                Some (case m of
                  None \<Rightarrow> Inl DecryptionError
                | Some m \<Rightarrow> if of_nat (length m) \<noteq> sz then Inl WrongLength
                            else if length m < SMB2HeaderSize then Inl WrongLength else Inr (m, tsid)) } } })"

definition unwrap :: "prot_env \<Rightarrow> (bytes \<Rightarrow> bytes option go) \<Rightarrow> u64 \<Rightarrow> smb \<Rightarrow> cref \<Rightarrow> bytes \<Rightarrow> (unwrap_error + bytes \<times> u64 \<times> bool) go" where
  "unwrap E decompress maxTransactSize M c msg =
     (if of_nat (length msg) > maxTransactSize + 256 then Some (Inl LongRequest)
      else if length msg < SMB2HeaderSize then Some (Inl WrongLength)
      else do {
        id \<leftarrow> Header_ProtocolID msg;
        r \<leftarrow> (if id = PROTOCOL_SMB2_ENCRYPTED then open_transform E M c msg else Some (Inr (msg, 0)));
        case r of
          Inl e \<Rightarrow> Some (Inl e)
        | Inr (msg, tsid) \<Rightarrow>
            do { id \<leftarrow> Header_ProtocolID msg;
                 if id = PROTOCOL_SMB2_COMPRESSED then
                   do { d \<leftarrow> decompress msg;
                        Some (case d of None \<Rightarrow> Inl DecompressionError | Some d \<Rightarrow> Inr (d, tsid, True)) }
                 else Some (Inr (msg, tsid, False)) } })"

text \<open>
  The session a request is checked against: that of the first request of the message where they are related, and for a
  request that binds, one of another connection too. A cancel is not checked. The walk stops at a signature that is wrong.
\<close>

definition session_of :: "smb \<Rightarrow> cref \<Rightarrow> bytes \<Rightarrow> sref option go" where
  "session_of M c data =
     do { sid \<leftarrow> Header_SessionID data;
          case cn_sessionTable (cn M c) sid of
            Some r \<Rightarrow> Some (Some r)
          | None \<Rightarrow> do { b \<leftarrow> isSessionBinding data; Some (if b then sm_globalSessionTable M sid else None) } }"

fun check_chain :: "prot_env \<Rightarrow> smb \<Rightarrow> cref \<Rightarrow> bool \<Rightarrow> bool \<Rightarrow> bool \<Rightarrow> sref option \<Rightarrow> bytes list \<Rightarrow> (bytes \<times> verdict) list go" where
  "check_chain E M c rel encrypted first ss [] = Some []"
| "check_chain E M c rel encrypted first ss (data # rest) =
     do { cmd \<leftarrow> Header_Command data;
          if cmd = SMB2_CANCEL then check_chain E M c rel encrypted False ss rest
          else do {
            ss \<leftarrow> (if first \<or> \<not> rel then session_of M c data else Some ss);
            v \<leftarrow> (case ss of None \<Rightarrow> Some (NoSession, data) | Some r \<Rightarrow> validateRequest E c (cn M c) (se M r) encrypted data);
            if fst v = BadSignature then Some [(data, BadSignature)]
            else map_option (\<lambda>vs. (data, fst v) # vs) (check_chain E M c rel encrypted False ss rest) } }"

subsection \<open>What the ciphers promise\<close>

text \<open>
  A mode that seals messages below four gigabytes under a nonce of a given length: sealing appends the text and a tag
  of sixteen bytes, opening gives the text back, and nothing opens that was not sealed under the same nonce and the
  same data in the clear.
\<close>

locale aead_mode =
  fixes good :: "'c \<Rightarrow> bool" and mode :: "'c \<Rightarrow> aead"
  assumes small: "good m \<Longrightarrow> NonceSize (mode m) \<le> 16"
    and seals: "good m \<Longrightarrow> length nonce = NonceSize (mode m) \<Longrightarrow> length p < 2 ^ 32 \<Longrightarrow>
      \<exists>t. AEAD_Seal (mode m) dst nonce p ad = Some (dst @ t) \<and> length t = length p + 16 \<and> AEAD_Open (mode m) [] nonce t ad = Some (Some p)"
    and opens: "good m \<Longrightarrow> length nonce = NonceSize (mode m) \<Longrightarrow> AEAD_Open (mode m) [] nonce t ad = Some (Some p) \<Longrightarrow>
      AEAD_Seal (mode m) [] nonce p ad = Some t"

text \<open>The header of an encrypted message, byte by byte.\<close>

definition header_bytes :: "bytes \<Rightarrow> u64 \<Rightarrow> bytes \<Rightarrow> nat \<Rightarrow> bytes" where
  "header_bytes tag sid nonce len =
     to_le 4 (uint PROTOCOL_SMB2_ENCRYPTED) @ tag @ (nonce @ replicate (16 - length nonce) 0) @ to_le 4 (uint (of_nat len :: u32)) @
     [0, 0] @ to_le 2 (uint (1 :: u16)) @ to_le 8 (uint sid)"

lemma length_header_bytes [simp]: "length nonce \<le> 16 \<Longrightarrow> length tag = 16 \<Longrightarrow> length (header_bytes tag sid nonce len) = 52"
  by (simp add: header_bytes_def)

lemma transform_header_bytes:
  assumes "length nonce \<le> 16"
  shows "transform_header sid nonce len (replicate (52 + j) 0) = Some (header_bytes (replicate 16 0) sid nonce len @ replicate j 0)"
proof -
  let ?P = "to_le 4 (uint PROTOCOL_SMB2_ENCRYPTED)" and ?Z = "replicate 16 (0 :: byte)" and ?N = "nonce @ replicate (16 - length nonce) 0"
  let ?S = "to_le 4 (uint (of_nat len :: u32))"
  have r: "replicate (52 + j) (0 :: byte) = replicate 4 0 @ ?Z @ ?Z @ replicate 4 0 @ [0, 0] @ [0, 0] @ replicate 8 0 @ replicate j 0"
    by (simp add: eval_nat_numeral replicate_add[symmetric])
  have "Header_SetProtocolID PROTOCOL_SMB2_ENCRYPTED (replicate (52 + j) 0) = Some (?P @ ?Z @ ?Z @ replicate 4 0 @ [0, 0] @ [0, 0] @ replicate 8 0 @ replicate j 0)"
    unfolding r Header_SetProtocolID_def uint_at_defs put_word_def using put_at_mid[of "replicate 4 0" ?P 0 "[]"] by simp
  moreover have "Header_SetNonce nonce (?P @ ?Z @ ?Z @ r) = Some (?P @ ?Z @ ?N @ r)" for r
    using put_at_mid[of ?Z ?N 20 "?P @ ?Z" r] assms by (simp add: Header_SetNonce_def copy_at_def slice_def)
  moreover have "Header_SetOriginalMessageSize (of_nat len) (?P @ ?Z @ ?N @ replicate 4 0 @ r) = Some (?P @ ?Z @ ?N @ ?S @ r)" for r
    using put_at_mid[of "replicate 4 0" ?S 36 "?P @ ?Z @ ?N" r] assms by (simp add: Header_SetOriginalMessageSize_def uint_at_defs put_word_def)
  moreover have "Header_SetEncryptionFlags 1 (?P @ ?Z @ ?N @ ?S @ [0, 0] @ [0, 0] @ r) = Some (?P @ ?Z @ ?N @ ?S @ [0, 0] @ to_le 2 (uint (1 :: u16)) @ r)" for r
    using put_at_mid[of "[0, 0]" "to_le 2 (uint (1 :: u16))" 42 "?P @ ?Z @ ?N @ ?S @ [0, 0]" r] assms
    by (simp add: Header_SetEncryptionFlags_def uint_at_defs put_word_def)
  moreover have "Header_SetTransformSessionID sid (?P @ ?Z @ ?N @ ?S @ [0, 0] @ to_le 2 (uint (1 :: u16)) @ replicate 8 0 @ r)
      = Some (?P @ ?Z @ ?N @ ?S @ [0, 0] @ to_le 2 (uint (1 :: u16)) @ to_le 8 (uint sid) @ r)" for r
    using put_at_mid[of "replicate 8 0" "to_le 8 (uint sid)" 44 "?P @ ?Z @ ?N @ ?S @ [0, 0] @ to_le 2 (uint (1 :: u16))" r] assms
    by (simp add: Header_SetTransformSessionID_def uint_at_defs put_word_def)
  ultimately show ?thesis by (simp add: transform_header_def header_bytes_def)
qed

lemma read_header_bytes:
  assumes "length nonce \<le> 16" "length tag = 16" and w_def: "w = header_bytes tag sid nonce len @ r"
  shows "Header_ProtocolID w = Some PROTOCOL_SMB2_ENCRYPTED" "Header_EncryptionSignature w = Some tag"
    "Header_Nonce w = Some (nonce @ replicate (16 - length nonce) 0)" "Header_OriginalMessageSize w = Some (of_nat len)"
    "Header_EncryptionFlags w = Some 1" "Header_TransformSessionID w = Some sid"
    "Header_AssociatedData w = Some (drop 20 (header_bytes (replicate 16 0) sid nonce len))"
proof -
  let ?P = "to_le 4 (uint PROTOCOL_SMB2_ENCRYPTED)" and ?N = "nonce @ replicate (16 - length nonce) 0" and ?S = "to_le 4 (uint (of_nat len :: u32))"
  have w: "w = ?P @ tag @ ?N @ ?S @ [0, 0] @ to_le 2 (uint (1 :: u16)) @ to_le 8 (uint sid) @ r"
    by (simp add: w_def header_bytes_def)
  show "Header_ProtocolID w = Some PROTOCOL_SMB2_ENCRYPTED"
    unfolding Header_ProtocolID_def uint_at_defs w using word_in_bytes[of 0 "[]" 4 PROTOCOL_SMB2_ENCRYPTED] by simp
  show "Header_EncryptionSignature w = Some tag"
    unfolding Header_EncryptionSignature_def w by (rule slice_piece) (use assms in simp_all)
  show "Header_Nonce w = Some ?N"
    unfolding Header_Nonce_def w using slice_piece[of 20 "?P @ tag" 36 ?N] assms by simp
  show "Header_OriginalMessageSize w = Some (of_nat len)"
    unfolding Header_OriginalMessageSize_def uint_at_defs w
    using word_in_bytes[of 36 "?P @ tag @ ?N" 4 "of_nat len :: u32"] assms by simp
  show "Header_EncryptionFlags w = Some 1"
    unfolding Header_EncryptionFlags_def uint_at_defs w
    using word_in_bytes[of 42 "?P @ tag @ ?N @ ?S @ [0, 0]" 2 "1 :: u16"] assms by simp
  show "Header_TransformSessionID w = Some sid"
    unfolding Header_TransformSessionID_def uint_at_defs w
    using word_in_bytes[of 44 "?P @ tag @ ?N @ ?S @ [0, 0] @ to_le 2 (uint (1 :: u16))" 8 sid] assms by simp
  show "Header_AssociatedData w = Some (drop 20 (header_bytes (replicate 16 0) sid nonce len))"
    unfolding Header_AssociatedData_def w header_bytes_def
    using slice_piece[of 20 "?P @ tag" 52 "?N @ ?S @ [0, 0] @ to_le 2 (uint (1 :: u16)) @ to_le 8 (uint sid)" r] assms by simp
qed

text \<open>The message that sealing gives: the header with the tag in it, and the text behind.\<close>

context aead_mode
begin

lemma seal_message_bytes:
  assumes "good m" "length nonce = NonceSize (mode m)" "length msg < 2 ^ 32"
  obtains t where "length t = length msg + 16"
    "AEAD_Open (mode m) [] nonce t (drop 20 (header_bytes (replicate 16 0) sid nonce (length msg))) = Some (Some msg)"
    "seal_message (mode m) sid nonce msg = Some (header_bytes (drop (length msg) t) sid nonce (length msg) @ take (length msg) t)"
proof -
  let ?h = "header_bytes (replicate 16 0) sid nonce (length msg)"
  have n: "length nonce \<le> 16" using small[OF assms(1)] assms(2) by simp
  obtain t where t: "AEAD_Seal (mode m) ?h nonce msg (drop 20 ?h) = Some (?h @ t)" "length t = length msg + 16"
    "AEAD_Open (mode m) [] nonce t (drop 20 ?h) = Some (Some msg)"
    using seals[OF assms] by blast
  have h: "transform_header sid nonce (length msg) (replicate (52 + (length msg + 16)) 0) = Some (?h @ replicate (length msg + 16) 0)"
    by (rule transform_header_bytes[OF n])
  have ad: "Header_AssociatedData (?h @ replicate (length msg + 16) 0) = Some (drop 20 ?h)"
    by (rule read_header_bytes(7)[OF n _ refl]) simp
  have l: "length ?h = 52" using n by simp
  have tag: "slice (length (?h @ t) - 16) (length (?h @ t)) (?h @ t) = Some (drop (length msg) t)"
    using t(2) l by (simp add: slice_def)
  have put: "Header_SetEncryptionSignature (drop (length msg) t) (?h @ t) = Some (header_bytes (drop (length msg) t) sid nonce (length msg) @ t)"
    using put_at_mid[of "replicate 16 0" "drop (length msg) t" 4 "to_le 4 (uint PROTOCOL_SMB2_ENCRYPTED)"] t(2) l
    by (simp add: Header_SetEncryptionSignature_def copy_at_def slice_def header_bytes_def)
  have l2: "length (header_bytes (drop (length msg) t) sid nonce (length msg)) = 52" using n t(2) by simp
  have "seal_message (mode m) sid nonce msg = Some (header_bytes (drop (length msg) t) sid nonce (length msg) @ take (length msg) t)"
    unfolding seal_message_def SMB2TransformHeaderSize_def
    using h ad t(1,2) l tag put l2 by (simp add: slice_def Let_def)
  then show thesis using that t(2,3) by blast
qed

lemma sealed_message_opens:
  assumes "good m" "length nonce = NonceSize (mode m)" "length msg < 2 ^ 32"
  obtains w signature where "seal_message (mode m) sid nonce msg = Some w" "length w = 52 + length msg"
    "Header_EncryptionSignature w = Some signature" "open_message (mode m) (drop 52 w @ signature) w = Some (Some msg)"
    "Header_ProtocolID w = Some PROTOCOL_SMB2_ENCRYPTED" "Header_EncryptionFlags w = Some 1"
    "Header_TransformSessionID w = Some sid" "Header_OriginalMessageSize w = Some (of_nat (length msg))"
proof -
  obtain t where t: "length t = length msg + 16"
    "AEAD_Open (mode m) [] nonce t (drop 20 (header_bytes (replicate 16 0) sid nonce (length msg))) = Some (Some msg)"
    "seal_message (mode m) sid nonce msg = Some (header_bytes (drop (length msg) t) sid nonce (length msg) @ take (length msg) t)"
    (is "_ = Some ?w") using seal_message_bytes[OF assms] by blast
  have n: "length nonce \<le> 16" "length (drop (length msg) t) = 16" using small[OF assms(1)] assms(2) t(1) by simp_all
  note rd = read_header_bytes[OF n refl]
  have "open_message (mode m) (drop 52 ?w @ drop (length msg) t) ?w = Some (Some msg)"
    using t(2) n assms(2) by (simp add: open_message_def rd slice_def)
  then show thesis using that[OF t(3)] n t(1) by (simp add: rd)
qed

end

interpretation ccm_mode: aead_mode "\<lambda>m. ccm_ok m \<and> nonceSize m = 11 \<and> tagSize m = 16" ccm_aead
proof
  fix m :: ccm and nonce p dst ad t :: bytes
  assume m: "ccm_ok m \<and> nonceSize m = 11 \<and> tagSize m = 16"
  then have o: "ccm_ok m" by blast
  show "NonceSize (ccm_aead m) \<le> 16" using m by (simp add: ccm_aead_def)
  have max: "maxUvarint 4 = (2 ^ 32 - 1 :: u64)" by (simp add: maxUvarint_def)
  assume nonce: "length nonce = NonceSize (ccm_aead m)"
  then have nn: "length nonce = nonceSize m" by (simp add: ccm_aead_def)
  let ?X = "XORKeyStream (ccm_c m) ((ccm_Ctr0 m nonce)[15 := 1])"
  have inv: "?X (?X xs) = xs" "length (?X xs) = length xs" for xs using o by (intro XORKeyStream_involution; simp add: ccm_ok_def)+
  {
    assume "length p < 2 ^ 32"
    then have "\<not> maxUvarint (15 - nonceSize m) < of_nat (length p)"
      using m by (simp add: max word_less_nat_alt unat_of_nat)
    then have s: "Seal m dst nonce p ad = Some (dst @ ?X p @ ccm_tag m nonce ad p)" using Seal_Some[OF o nn] by blast
    have "Open m [] nonce (?X p @ ccm_tag m nonce ad p) ad = Some (Inr ([] @ p))"
      unfolding Open_Some[OF nn] using m inv length_ccm_tag[OF o] \<open>\<not> maxUvarint (15 - nonceSize m) < of_nat (length p)\<close> by simp
    then show "\<exists>t. AEAD_Seal (ccm_aead m) dst nonce p ad = Some (dst @ t) \<and> length t = length p + 16 \<and> AEAD_Open (ccm_aead m) [] nonce t ad = Some (Some p)"
      using s m inv length_ccm_tag[OF o] by (intro exI[of _ "?X p @ ccm_tag m nonce ad p"]) (simp add: ccm_aead_def)
  next
    assume "AEAD_Open (ccm_aead m) [] nonce t ad = Some (Some p)"
    then obtain z where "Open m [] nonce t ad = Some z" "(case z of Inl _ \<Rightarrow> None | Inr p \<Rightarrow> Some p) = Some p" by (auto simp: ccm_aead_def)
    then have "Open m [] nonce t ad = Some (Inr ([] @ p))" by (cases z) simp_all
    then have op: "16 \<le> length t" "\<not> maxUvarint (15 - nonceSize m) < of_nat (length t - tagSize m)"
      "p = ?X (take (length t - tagSize m) t)" "drop (length t - tagSize m) t = ccm_tag m nonce ad p"
      unfolding Open_Some[OF nn] using m by auto
    then have "length p = length t - tagSize m" using inv by simp
    then have "Seal m [] nonce p ad = Some ([] @ ?X p @ ccm_tag m nonce ad p)" using Seal_Some[OF o nn] op(2) by metis
    moreover have "?X p @ ccm_tag m nonce ad p = t" using op(3,4) inv by (metis append_take_drop_id)
    ultimately show "AEAD_Seal (ccm_aead m) [] nonce p ad = Some t" by (simp add: ccm_aead_def)
  }
qed

text \<open>The same of any mode; and what is asked of the library: AES takes a key of sixteen bytes and has blocks of as many, its GCM is such a mode,
  and HMAC-SHA256 gives at least sixteen bytes.\<close>

definition aead_ok :: "aead \<Rightarrow> bool" where
  "aead_ok a \<longleftrightarrow> NonceSize a \<le> 16 \<and>
     (\<forall>dst nonce p ad. length nonce = NonceSize a \<longrightarrow> length p < 2 ^ 32 \<longrightarrow>
        (\<exists>t. AEAD_Seal a dst nonce p ad = Some (dst @ t) \<and> length t = length p + 16 \<and> AEAD_Open a [] nonce t ad = Some (Some p))) \<and>
     (\<forall>nonce p ad t. length nonce = NonceSize a \<longrightarrow> AEAD_Open a [] nonce t ad = Some (Some p) \<longrightarrow> AEAD_Seal a [] nonce p ad = Some t)"

interpretation any_mode: aead_mode aead_ok "\<lambda>a. a"
  by unfold_locales (simp_all add: aead_ok_def)

definition crypto_ok :: "prot_env \<Rightarrow> bool" where
  "crypto_ok E \<longleftrightarrow> (\<forall>key ciph. aes_NewCipher E key = Some ciph \<longrightarrow> cipher_ok ciph \<and> BlockSize ciph = 16) \<and>
     (\<forall>key. length key = 16 \<longrightarrow> aes_NewCipher E key \<noteq> None) \<and>
     (\<forall>ciph a. NewGCMWithNonceSize E ciph 12 = Some a \<longrightarrow> aead_ok a \<and> NonceSize a = 12) \<and>
     (\<forall>key d. 16 \<le> length (hmac_sha256 (pe_sess E) key d))"

lemma ccm_aead_ok: "ccm_ok m \<and> nonceSize m = 11 \<and> tagSize m = 16 \<Longrightarrow> aead_ok (ccm_aead m)"
  using ccm_mode.small ccm_mode.seals ccm_mode.opens by (simp add: aead_ok_def)

lemma aead_for_ok:
  assumes "crypto_ok E" "aead_for E key k = Some a"
  shows "aead_ok a"
proof -
  obtain ciph where c: "aes_NewCipher E key = Some ciph" using assms(2) by (auto simp: aead_for_def bind_eq_Some_conv)
  then have ok: "cipher_ok ciph" "BlockSize ciph = 16" using assms(1) by (auto simp: crypto_ok_def)
  show ?thesis
  proof (cases "cn_cipherID k = AES_128_CCM")
    case True
    let ?m = "\<lparr>ccm_c = ciph, nonceSize = 11, tagSize = 16\<rparr>"
    have new: "NewCCMWithNonceAndTagSizes ciph 11 16 = Inr ?m" using ok by (simp add: NewCCMWithNonceAndTagSizes_def)
    then have "a = ccm_aead ?m" using assms(2) True c by (simp add: aead_for_def)
    then show ?thesis using ccm_aead_ok[of ?m] NewCCM_ok[OF ok(1) new] by simp
  next
    case False
    then show ?thesis using assms c by (auto simp: aead_for_def crypto_ok_def split: if_split_asm)
  qed
qed

subsection \<open>Encrypted messages\<close>

lemma encrypt_decrypt:
  assumes "crypto_ok E" "aead_for E (ss_encryptionKey ss) k = Some a" "length nonce = NonceSize a" "length msg < 2 ^ 32"
    and "ss_decryptionKey peer = ss_encryptionKey ss" "cn_cipherID k' = cn_cipherID k"
  shows "\<exists>w. encrypt E k ss nonce msg = Some (Some w) \<and> decrypt E k' peer w = Some (Some msg) \<and> length w = 52 + length msg
    \<and> Header_ProtocolID w = Some PROTOCOL_SMB2_ENCRYPTED \<and> Header_EncryptionFlags w = Some 1
    \<and> Header_TransformSessionID w = Some (ss_sessionID ss) \<and> Header_OriginalMessageSize w = Some (of_nat (length msg))"
proof -
  have ok: "aead_ok a" by (rule aead_for_ok[OF assms(1,2)])
  have a': "aead_for E (ss_decryptionKey peer) k' = Some a" using assms(2) unfolding aead_for_def assms(5,6) .
  obtain w signature where w: "seal_message a (ss_sessionID ss) nonce msg = Some w" "length w = 52 + length msg"
    "Header_EncryptionSignature w = Some signature" "open_message a (drop 52 w @ signature) w = Some (Some msg)"
    "Header_ProtocolID w = Some PROTOCOL_SMB2_ENCRYPTED" "Header_EncryptionFlags w = Some 1"
    "Header_TransformSessionID w = Some (ss_sessionID ss)" "Header_OriginalMessageSize w = Some (of_nat (length msg))"
    by (rule any_mode.sealed_message_opens[OF ok assms(3,4)])
  have "decrypt E k' peer w = Some (Some msg)"
    using w(2,3,4) a' by (simp add: decrypt_def SMB2TransformHeaderSize_def slice_def)
  moreover have "encrypt E k ss nonce msg = Some (Some w)" using assms(2) w(1) by (simp add: encrypt_def)
  ultimately show ?thesis using w by blast
qed

text \<open>C9 (encrypted_message_opens). What one side encrypts the other side, with that key as its decryption key and the same
  cipher, decrypts to the same message; the transform around it names the session and the length of the message, so it
  passes the checks that a message is unwrapped under.\<close>

theorem encrypted_message_opens:
  assumes "crypto_ok E" "aead_for E (ss_encryptionKey ss) k = Some a" "length nonce = NonceSize a" "length msg < 2 ^ 32"
    and "ss_decryptionKey peer = ss_encryptionKey ss" "cn_cipherID k' = cn_cipherID k"
  shows "\<exists>w. encrypt E k ss nonce msg = Some (Some w) \<and> decrypt E k' peer w = Some (Some msg) \<and> length w = 52 + length msg
    \<and> Header_ProtocolID w = Some PROTOCOL_SMB2_ENCRYPTED \<and> Header_EncryptionFlags w = Some 1
    \<and> Header_TransformSessionID w = Some (ss_sessionID ss) \<and> Header_OriginalMessageSize w = Some (of_nat (length msg))"
  by (rule encrypt_decrypt[OF assms])

text \<open>C23 (decrypted_was_sealed). A message that a session decrypts was sealed under the decryption key of that session, with
  the nonce, the length, the flags and the session ID that its header carries: none of these can be changed on the way.\<close>

theorem decrypted_was_sealed:
  assumes "crypto_ok E" "decrypt E k ss w = Some (Some msg)"
  shows "\<exists>a. aead_for E (ss_decryptionKey ss) k = Some a
    \<and> AEAD_Seal a [] (take (NonceSize a) (drop 20 w)) msg (take 32 (drop 20 w)) = Some (drop 52 w @ take 16 (drop 4 w))"
proof -
  obtain a where a: "aead_for E (ss_decryptionKey ss) k = Some a"
    using assms(2) by (auto simp: decrypt_def bind_eq_Some_conv split: option.split_asm)
  have ok: "aead_ok a" by (rule aead_for_ok[OF assms(1) a])
  have n: "NonceSize a \<le> 16" by (rule any_mode.small[OF ok])
  have l: "52 \<le> length w" using assms(2) by (auto simp: decrypt_def slice_Some SMB2TransformHeaderSize_def bind_eq_Some_conv)
  have o: "AEAD_Open a [] (take (NonceSize a) (drop 20 w)) (drop 52 w @ take 16 (drop 4 w)) (take 32 (drop 20 w)) = Some (Some msg)"
  proof -
    have "slice 52 (length w) w = Some (drop 52 w)" "slice 4 20 w = Some (take 16 (drop 4 w))" "slice 20 36 w = Some (take 16 (drop 20 w))"
      "slice 20 52 w = Some (take 32 (drop 20 w))" using l by (simp_all add: slice_def)
    moreover have "slice 0 (NonceSize a) (take 16 (drop 20 w)) = Some (take (NonceSize a) (drop 20 w))"
      using l n by (simp add: slice_def min_absorb1)
    ultimately show ?thesis
      using assms(2) a by (simp add: decrypt_def open_message_def SMB2TransformHeaderSize_def Header_EncryptionSignature_def
          Header_Nonce_def Header_AssociatedData_def)
  qed
  have "length (take (NonceSize a) (drop 20 w)) = NonceSize a" using n l by simp
  from any_mode.opens[OF ok this o] show ?thesis using a by blast
qed

subsection \<open>Signed messages\<close>


text \<open>
  A response as signing sees it: sixteen bytes, the flags, the rest of the header up to the signature, the signature,
  and the body.
\<close>

lemma word_at_append: "off + j \<le> length p \<Longrightarrow> word_at j off (p @ r) = word_at j off p"
  by (simp add: word_at_def slice_def)

lemma header_append:
  assumes "64 \<le> length p"
  shows "Header_Command (p @ r) = Header_Command p" "Header_Status (p @ r) = Header_Status p" "Header_MessageID (p @ r) = Header_MessageID p"
  using assms by (simp_all add: header_get_defs uint_at_defs word_at_append)

lemma signingKeyFor_append: "64 \<le> length p \<Longrightarrow> signingKeyFor c k ss (p @ r) = signingKeyFor c k ss p"
  unfolding signingKeyFor_def by (simp only: header_append)

lemma new_signer_append: "64 \<le> length p \<Longrightarrow> new_signer E k hkey key server (p @ r) = new_signer E k hkey key server p"
  unfolding new_signer_def gmac_nonce_def by (simp only: header_append)

lemma message_macE:
  assumes "message_mac E k hkey key server data = Some (Inr digest)"
  obtains s where "new_signer E k hkey key server data = Some (Inr (Some s))" "signer_Sum E (signer_Write data (signer_Reset s)) = Some digest"
proof -
  obtain y where y: "new_signer E k hkey key server data = Some y" using assms by (auto simp: message_mac_def bind_eq_Some_conv)
  show thesis
  proof (cases y)
    case (Inr os)
    then show ?thesis using assms y that by (cases os) (auto simp: message_mac_def bind_eq_Some_conv)
  qed (use assms y in \<open>simp add: message_mac_def\<close>)
qed

definition signed_flags :: "bytes \<Rightarrow> bytes" where
  "signed_flags F = to_le 4 (uint ((of_int (of_le F) :: u32) OR FLAGS_SIGNED))"

lemma sign_one_piece:
  assumes lens: "length A = 16" "length F = 4" "length B = 28" "length S = 16" and p: "p = A @ F @ B @ S @ R"
    and small: "length (pre @ p) < 2 ^ 32" and nxt: "Header_NextCommand p = Some nxt" "nxt = 0 \<and> rest = [] \<or> nxt \<noteq> 0 \<and> unat nxt = length p"
    and p2: "p2 = A @ signed_flags F @ B @ replicate 16 0 @ R"
    and key: "signingKeyFor c k ss p2 = Some key" and mac: "message_mac E k (ss_sessionKey ss) key True p2 = Some (Inr digest)"
    and digest: "16 \<le> length digest"
  shows "sign_one E c k ss (of_nat (length pre)) (pre @ p @ rest)
    = Some (Inr (nxt, pre @ (A @ signed_flags F @ B @ take 16 digest @ R) @ rest))"
proof -
  let ?off = "of_nat (length pre) :: u32" and ?F = "signed_flags F" and ?Z = "replicate 16 (0 :: byte)"
  have lp: "length p = 64 + length R" using lens p by simp
  have u: "unat ?off = length pre" "unat (?off + 16) = length pre + 16" "unat (?off + 20) = length pre + 20"
    "unat (?off + 24) = length pre + 24" "unat (?off + 48) = length pre + 48" "unat (?off + 64) = length pre + 64"
    using small lp by (simp_all add: unat_word_ariths unat_of_nat)
  have lF: "length ?F = 4" by (simp add: signed_flags_def)
  have 1: "Uint32_in (?off + 20) (?off + 24) (pre @ p @ rest) = Some nxt"
    using Uint32_in_piece[of pre p rest] small lp nxt(1) by simp
  have 2: "Uint32_in (?off + 16) (?off + 20) (pre @ p @ rest) = Some (of_int (of_le F))"
    using slice_piece[of "length pre + 16" "pre @ A" "length pre + 20" F "B @ S @ R @ rest"] lens u p by (simp add: Uint32_in_def)
  have 3: "PutUint32_in (?off + 16) (?off + 20) ((of_int (of_le F)) OR FLAGS_SIGNED) (pre @ p @ rest) = Some (pre @ (A @ ?F @ B @ S @ R) @ rest)"
    using slice_piece[of "length pre + 16" "pre @ A" "length pre + 20" F "B @ S @ R @ rest"] lens u p
      put_at_mid[of F ?F "length pre + 16" "pre @ A" "B @ S @ R @ rest"] put_at_mid[of F ?F 0 "[]" "[]"] lF
    by (simp add: PutUint32_in_def uint_at_defs put_word_def signed_flags_def)
  have copy: "copy_in (?off + 48) (?off + 64) D (pre @ (A @ ?F @ B @ X @ R) @ rest) = Some (pre @ (A @ ?F @ B @ take 16 D @ R) @ rest)"
    if "length X = 16" "16 \<le> length D" for X D
    using slice_piece[of "length pre + 48" "pre @ A @ ?F @ B" "length pre + 64" X "R @ rest"] lens lF u that
      put_at_mid[of X "take 16 D" "length pre + 48" "pre @ A @ ?F @ B" "R @ rest"]
    by (simp add: copy_in_def)
  have 4: "copy_in (?off + 48) (?off + 64) ?Z (pre @ (A @ ?F @ B @ S @ R) @ rest) = Some (pre @ p2 @ rest)"
    using copy[of S ?Z] lens p2 by simp
  have lp2: "length p2 = length p" "64 \<le> length p2" using p2 lens lF lp by simp_all
  have 5: "slice (unat ?off) (length (pre @ p2 @ rest)) (pre @ p2 @ rest) = Some (p2 @ rest)" using u by (simp add: slice_def)
  obtain s where s: "new_signer E k (ss_sessionKey ss) key True p2 = Some (Inr (Some s))"
    "signer_Sum E (signer_Write p2 (signer_Reset s)) = Some digest"
    by (rule message_macE[OF mac])
  have 6: "(if nxt = 0 then slice (unat ?off) (length (pre @ p2 @ rest)) (pre @ p2 @ rest)
            else slice (unat ?off) (unat (?off + nxt)) (pre @ p2 @ rest)) = Some p2"
  proof (cases "nxt = 0")
    case False
    then have "unat nxt = length p" using nxt(2) by simp
    moreover have "unat (?off + nxt) = length pre + unat nxt"
      using small u(1) \<open>unat nxt = length p\<close> by (subst unat_add_lem[THEN iffD1]) simp_all
    ultimately show ?thesis using slice_piece[of "length pre" pre "length pre + length p" p2 rest] lp2 u(1) False by simp
  qed (use 5 nxt(2) in simp)
  have 7: "copy_in (?off + 48) (?off + 64) digest (pre @ p2 @ rest) = Some (pre @ (A @ ?F @ B @ take 16 digest @ R) @ rest)"
    using copy[of ?Z digest] digest p2 by simp
  show ?thesis
    unfolding sign_one_def 1 2 using 3 4 5 6 7 s key signingKeyFor_append[OF lp2(2)] new_signer_append[OF lp2(2)] by simp
qed

text \<open>What signing makes of one response.\<close>

definition signs :: "prot_env \<Rightarrow> cref \<Rightarrow> conn \<Rightarrow> session \<Rightarrow> bytes \<Rightarrow> bytes \<Rightarrow> bool" where
  "signs E c k ss p q \<longleftrightarrow> (\<exists>A F B S R key digest. length A = 16 \<and> length F = 4 \<and> length B = 28 \<and> length S = 16 \<and> p = A @ F @ B @ S @ R \<and>
     signingKeyFor c k ss (A @ signed_flags F @ B @ replicate 16 0 @ R) = Some key \<and>
     message_mac E k (ss_sessionKey ss) key True (A @ signed_flags F @ B @ replicate 16 0 @ R) = Some (Inr digest) \<and>
     16 \<le> length digest \<and> q = A @ signed_flags F @ B @ take 16 digest @ R)"

lemma signs_frame:
  assumes "signs E c k ss p q"
  shows "length q = length p" "slice 0 16 q = slice 0 16 p" "slice 20 48 q = slice 20 48 p" "drop 64 q = drop 64 p"
    "Header_NextCommand q = Header_NextCommand p"
proof -
  obtain A F B S R digest where a: "length A = 16" "length F = 4" "length B = 28" "length S = 16" "16 \<le> length digest"
    "p = A @ F @ B @ S @ R" "q = A @ signed_flags F @ B @ take 16 digest @ R" using assms unfolding signs_def by blast
  define D where "D = take 16 digest"
  have e: "length A = 16" "length F = 4" "length B = 28" "length S = 16" "length D = 16" "p = A @ F @ B @ S @ R" "q = A @ signed_flags F @ B @ D @ R"
    using a by (simp_all add: D_def)
  have l: "length (signed_flags F) = 4" by (simp add: signed_flags_def)
  show "length q = length p" using e l by simp
  show "slice 0 16 q = slice 0 16 p" using e by (simp add: slice_def)
  have sl: "slice 20 48 q = Some B" "slice 20 48 p = Some B"
    using slice_piece[of 20 "A @ signed_flags F" 48 B "D @ R"] slice_piece[of 20 "A @ F" 48 B "S @ R"] e l by simp_all
  then show "slice 20 48 q = slice 20 48 p" by simp
  show "drop 64 q = drop 64 p" using e l by simp
  have "slice 20 24 q = Some (take 4 B)" "slice 20 24 p = Some (take 4 B)"
    using slice_piece[of 20 "A @ signed_flags F" 24 "take 4 B" "drop 4 B @ D @ R"] slice_piece[of 20 "A @ F" 24 "take 4 B" "drop 4 B @ S @ R"] e l
    by (simp_all add: append_assoc[symmetric] del: append_assoc)
  then show "Header_NextCommand q = Header_NextCommand p" by (simp add: Header_NextCommand_def uint_at_defs word_at_def)
qed

lemma sign_chain:
  assumes "chained ps" "length (pre @ concat ps) < 2 ^ 32" "list_all2 (signs E c k ss) ps qs"
  shows "sign_loop E c k ss (of_nat (length pre)) (pre @ concat ps) = Some (pre @ concat qs)"
  using assms
proof (induction ps arbitrary: pre qs)
  case (Cons p ps)
  obtain q qs' where qs: "qs = q # qs'" "signs E c k ss p q" "list_all2 (signs E c k ss) ps qs'"
    using Cons.prems(3) by (auto simp: list_all2_Cons1)
  obtain A F B S R key digest where e: "length A = 16" "length F = 4" "length B = 28" "length S = 16" "p = A @ F @ B @ S @ R"
    "signingKeyFor c k ss (A @ signed_flags F @ B @ replicate 16 0 @ R) = Some key"
    "message_mac E k (ss_sessionKey ss) key True (A @ signed_flags F @ B @ replicate 16 0 @ R) = Some (Inr digest)"
    "16 \<le> length digest" "q = A @ signed_flags F @ B @ take 16 digest @ R" using qs(2) unfolding signs_def by blast
  have one: "sign_one E c k ss (of_nat (length pre)) (pre @ p @ concat ps) = Some (Inr (nxt, pre @ q @ concat ps))"
    if "Header_NextCommand p = Some nxt" "nxt = 0 \<and> concat ps = [] \<or> nxt \<noteq> 0 \<and> unat nxt = length p" for nxt
    using sign_one_piece[OF e(1-5) _ that refl e(6-8), of pre] Cons.prems(2) e(9) by simp
  show ?case
  proof (cases "ps = []")
    case True
    then have "Header_NextCommand p = Some 0" using Cons.prems(1) by simp
    then show ?thesis using one[of 0] True qs by (subst sign_loop.simps) simp
  next
    case False
    then have p: "64 \<le> length p" "Header_NextCommand p = Some (of_nat (length p))" "chained ps"
      using Cons.prems(1) by (simp_all add: chained_Cons)
    have u: "unat (of_nat (length p) :: u32) = length p" using Cons.prems(2) by (simp add: unat_of_nat)
    then have nz: "(of_nat (length p) :: u32) \<noteq> 0" using p(1) by (metis unat_0 not_numeral_le_zero)
    have lq: "length q = length p" by (rule signs_frame(1)[OF qs(2)])
    have "sign_loop E c k ss (of_nat (length (pre @ q))) ((pre @ q) @ concat ps) = Some ((pre @ q) @ concat qs')"
      using Cons.prems(2) lq by (intro Cons.IH[OF p(3) _ qs(3)]) simp
    then show ?thesis using one[OF p(2)] u nz lq qs(1) by (subst sign_loop.simps) simp
  qed
qed simp

lemma chained_signs: "chained ps \<Longrightarrow> list_all2 (signs E c k ss) ps qs \<Longrightarrow> chained qs"
proof (induction ps arbitrary: qs rule: chained.induct)
  case (2 p)
  then show ?case by (auto simp: list_all2_Cons1 signs_frame)
next
  case (3 p p' ps)
  then obtain q qs' where qs: "qs = q # qs'" "signs E c k ss p q" "list_all2 (signs E c k ss) (p' # ps) qs'" by (auto simp: list_all2_Cons1)
  then have "chained qs'" "qs' \<noteq> []" using "3.IH" "3.prems"(1) by (auto simp: list_all2_Cons1)
  then show ?case using "3.prems"(1) qs signs_frame[OF qs(2)] by (simp add: chained_Cons)
qed simp

text \<open>The keys are there: the session key in the dialects without channels, else that of the channel.\<close>

definition keys_ready :: "cref \<Rightarrow> conn \<Rightarrow> session \<Rightarrow> bool" where
  "keys_ready c k ss \<longleftrightarrow>
     (cn_negotiateDialect k = SMB_DIALECT_202 \<or> cn_negotiateDialect k = SMB_DIALECT_21) \<and> ss_sessionKey ss \<noteq> [] \<or>
     (cn_negotiateDialect k = SMB_DIALECT_30 \<or> cn_negotiateDialect k = SMB_DIALECT_302 \<or>
      cn_negotiateDialect k = SMB_DIALECT_311 \<and> cn_signingAlgorithmID k \<noteq> AES_GMAC) \<and>
     (\<exists>ch. channelOf c (cn_clientName k) ss = Some ch \<and> length (ch_signingKey ch) = 16)"

lemmas dialect_defs = SMB_DIALECT_202_def SMB_DIALECT_21_def SMB_DIALECT_30_def SMB_DIALECT_302_def SMB_DIALECT_311_def SMB_DIALECT_UNKNOWN_def

lemma length_double_with: "k \<noteq> [] \<Longrightarrow> length (double_with r k) = length k"
  using double_with_doubles[of k r] by (simp add: is_double_def)

lemma cmac_mac:
  assumes "cipher_ok ciph" "BlockSize ciph = 16"
  obtains h where "cmac_New ciph = Some h" "\<And>data. length (cmac_Sum ciph (cmac_Write ciph data (cmac_Reset ciph h))) = 16"
proof -
  let ?L = "Encrypt ciph (replicate 16 0)"
  define h where "h = \<lparr>k1 = double_with 0x87 ?L, k2 = double_with 0x87 (double_with 0x87 ?L), buf = mac_Reset ciph\<rparr>"
  have "length ?L = 16" using assms cipher_okD(2)[OF assms(1)] by simp
  then have "length (double_with 0x87 ?L) = 16" by (subst length_double_with) auto
  moreover from this have "length (double_with 0x87 (double_with 0x87 ?L)) = 16" by (subst length_double_with) auto
  ultimately have k: "length (k1 h) = 16" "length (k2 h) = 16" by (simp_all add: h_def)
  have "length (ci (mac_Write ciph data (mac_Reset ciph))) = 16" for data
    using length_mac_Write[OF assms(1), of "mac_Reset ciph"] assms(2) by (simp add: mac_Reset_def)
  then have "length (cmac_Sum ciph (cmac_Write ciph data (cmac_Reset ciph h))) = 16" for data
    using k assms cipher_okD(2)[OF assms(1)] by (simp add: cmac_Sum_def cmac_Write_def cmac_Reset_def Let_def)
  moreover have "cmac_New ciph = Some h" using assms by (simp add: cmac_New_def cmac_r_def h_def Let_def)
  ultimately show thesis using that by blast
qed

lemma both_sides_agree:
  assumes "crypto_ok E" "keys_ready c k ss" "Header_Command p = Some cmd" "cmd \<noteq> SMB2_SESSION_SETUP"
  obtains key key' where "key \<noteq> []" "signingKeyFor c k ss p = Some key'" "verificationKeyFor c k ss p = Some key"
    "\<And>data. \<exists>digest. 16 \<le> length digest \<and> message_mac E k (ss_sessionKey ss) key' True data = Some (Inr digest)
       \<and> message_mac E k key key False data = Some (Inr digest)"
proof (cases "cn_negotiateDialect k = SMB_DIALECT_202 \<or> cn_negotiateDialect k = SMB_DIALECT_21")
  case True
  then have n: "\<not> Is3X (cn_negotiateDialect k)" by (auto simp: Is3X_def dialect_defs)
  have "ss_sessionKey ss \<noteq> []" using assms(2) True by (auto simp: keys_ready_def dialect_defs)
  moreover have "message_mac E k (ss_sessionKey ss) key' server data = Some (Inr (hmac_sha256 (pe_sess E) (ss_sessionKey ss) data))" for key' server data
    using True by (simp add: message_mac_def new_signer_def signer_Sum_def signer_Write_def signer_Reset_def)
  ultimately show thesis using n assms(1) that[of "ss_sessionKey ss" "ss_signingKey ss"]
    by (simp add: signingKeyFor_def verificationKeyFor_def crypto_ok_def)
next
  case False
  then obtain ch where ch: "channelOf c (cn_clientName k) ss = Some ch" "length (ch_signingKey ch) = 16"
    and d: "cn_negotiateDialect k = SMB_DIALECT_30 \<or> cn_negotiateDialect k = SMB_DIALECT_302 \<or>
      cn_negotiateDialect k = SMB_DIALECT_311 \<and> cn_signingAlgorithmID k \<noteq> AES_GMAC" using assms(2) by (auto simp: keys_ready_def)
  then have is3: "Is3X (cn_negotiateDialect k)" by (auto simp: Is3X_def dialect_defs)
  let ?key = "ch_signingKey ch"
  obtain ciph where c: "aes_NewCipher E ?key = Some ciph" "cipher_ok ciph" "BlockSize ciph = 16"
    using assms(1) ch(2) by (auto simp: crypto_ok_def)
  obtain h where h: "cmac_New ciph = Some h" "\<And>data. length (cmac_Sum ciph (cmac_Write ciph data (cmac_Reset ciph h))) = 16"
    using cmac_mac[OF c(2,3)] by blast
  have "new_signer E k hkey ?key server data = Some (Inr (Some (SCmac ciph h)))" for hkey server data
    using d False c(1) h(1) by (auto simp: new_signer_def cmac_signer_def)
  then have "message_mac E k hkey ?key server data = Some (Inr (cmac_Sum ciph (cmac_Write ciph data (cmac_Reset ciph h))))" for hkey server data
    by (simp add: message_mac_def signer_Sum_def signer_Write_def signer_Reset_def)
  moreover have "?key \<noteq> []" using ch(2) by auto
  moreover have "isSessionBinding p = Some False" using assms(3,4) by (simp add: isSessionBinding_def)
  ultimately show thesis using is3 ch h(2) assms(3,4) that[of ?key ?key]
    by (simp add: signingKeyFor_def verificationKeyFor_def)
qed

lemma signed_flag_set: "length A = 16 \<Longrightarrow> Header_IsFlagSet FLAGS_SIGNED (A @ signed_flags F @ r) = Some True"
proof -
  assume A: "length A = 16"
  let ?f = "(of_int (of_le F) :: u32) OR FLAGS_SIGNED"
  have "Header_Flags (A @ signed_flags F @ r) = Some ?f"
    unfolding Header_Flags_def uint_at_defs signed_flags_def by (rule word_in_bytes) (use A in simp_all)
  moreover have "bit (?f AND FLAGS_SIGNED) 3" by (simp add: bit_simps FLAGS_SIGNED_def bit_numeral_rec)
  then have "?f AND FLAGS_SIGNED > 0" by (metis bit_0_eq bot_apply word_neq_0_conv bot_bool_def)
  ultimately show ?thesis by (simp add: Header_IsFlagSet_def)
qed

lemma signed_piece_validates:
  assumes "crypto_ok E" "keys_ready c k ss" "64 \<le> length p" "Header_Command p \<noteq> Some SMB2_SESSION_SETUP"
  obtains q where "signs E c k ss p q" "\<exists>q'. validateRequest E c k ss False q = Some (Verified, q')"
proof -
  define A F B S R where "A = take 16 p" and "F = take 4 (drop 16 p)" and "B = take 28 (drop 20 p)" and "S = take 16 (drop 48 p)" and "R = drop 64 p"
  have l: "length A = 16" "length F = 4" "length B = 28" "length S = 16" using assms(3) by (simp_all add: A_def F_def B_def S_def)
  have "p = A @ drop 16 p" "drop 16 p = F @ drop 20 p" "drop 20 p = B @ drop 48 p" "drop 48 p = S @ R"
    using append_take_drop_id[of 4 "drop 16 p"] append_take_drop_id[of 28 "drop 20 p"] append_take_drop_id[of 16 "drop 48 p"]
    by (simp_all add: A_def F_def B_def S_def R_def)
  then have p: "p = A @ F @ B @ S @ R" by metis
  have lF: "length (signed_flags F) = 4" by (simp add: signed_flags_def)
  let ?w = "\<lambda>D. A @ signed_flags F @ B @ D @ R" let ?Z = "replicate 16 (0 :: byte)"
  have cmd: "Header_Command (?w D) = Header_Command p" for D
    using l by (simp add: Header_Command_def uint_at_defs p word_at_append)
  obtain cm where cm: "Header_Command p = Some cm" using assms(3) by (cases "Header_Command p") (simp_all add: Header_Command_def uint_at_defs)
  obtain key key' where k: "key \<noteq> []" "signingKeyFor c k ss (?w ?Z) = Some key'" "verificationKeyFor c k ss (?w ?Z) = Some key"
    "\<And>data. \<exists>digest. 16 \<le> length digest \<and> message_mac E k (ss_sessionKey ss) key' True data = Some (Inr digest)
       \<and> message_mac E k key key False data = Some (Inr digest)"
    using both_sides_agree[OF assms(1,2), of "?w ?Z" cm] cmd cm assms(4) by auto
  obtain digest where d: "16 \<le> length digest" "message_mac E k (ss_sessionKey ss) key' True (?w ?Z) = Some (Inr digest)"
    "message_mac E k key key False (?w ?Z) = Some (Inr digest)" using k(4) by blast
  let ?q = "?w (take 16 digest)"
  have "signs E c k ss p ?q" unfolding signs_def using l p k(2) d(1,2) by blast
  moreover have "validateRequest E c k ss False ?q = Some (Verified, ?w ?Z)"
  proof -
    have b: "isSessionBinding ?q = Some False" "isSessionBinding (?w ?Z) = Some False"
      using cmd cm assms(4) by (simp_all add: isSessionBinding_def)
    have "verificationKeyFor c k ss ?q = Some key" using k(3) b by (simp add: verificationKeyFor_def split: if_split_asm)
    moreover have "Header_Signature ?q = Some (take 16 digest)"
      using slice_piece[of 48 "A @ signed_flags F @ B" 64 "take 16 digest" R] l lF d(1) by (simp add: Header_Signature_def)
    moreover have "Header_WipeSignature ?q = Some (?w ?Z)"
      using put_at_mid[of "take 16 digest" ?Z 48 "A @ signed_flags F @ B" R] l lF d(1)
      by (simp add: Header_WipeSignature_def Header_SetSignature_def copy_at_def slice_def)
    ultimately show ?thesis
      using signed_flag_set[OF l(1)] k(1) d(1,3) by (simp add: validateRequest_def slice_def)
  qed
  ultimately show thesis using that by blast
qed


subsection \<open>Which session a request is checked against\<close>

text \<open>Requests that are not related are each checked against the session that they name.\<close>

lemma unrelated_are_checked:
  assumes "check_chain E M c False encrypted first ss reqs = Some vs" "(data, Verified) \<in> set vs"
  shows "\<exists>r data'. session_of M c data = Some (Some r) \<and> validateRequest E c (cn M c) (se M r) encrypted data = Some (Verified, data')"
  using assms
proof (induction reqs arbitrary: first ss vs)
  case (Cons d rest)
  obtain cmd where cmd: "Header_Command d = Some cmd" using Cons.prems(1) by (auto simp: bind_eq_Some_conv)
  show ?case
  proof (cases "cmd = SMB2_CANCEL")
    case True
    then show ?thesis using Cons.prems cmd by (intro Cons.IH) simp_all
  next
    case False
    obtain q v where q: "session_of M c d = Some q"
      "(case q of None \<Rightarrow> Some (NoSession, d) | Some r \<Rightarrow> validateRequest E c (cn M c) (se M r) encrypted d) = Some v"
      using Cons.prems(1) cmd False by (auto simp: bind_eq_Some_conv)
    consider "(data, Verified) = (d, fst v)" | vs' where "check_chain E M c False encrypted False q rest = Some vs'" "(data, Verified) \<in> set vs'"
      using Cons.prems(1,2) cmd False q by (auto simp: bind_eq_Some_conv split: if_split_asm)
    then show ?thesis
    proof cases
      case 1
      then show ?thesis using q by (cases q; cases v) auto
    next
      case 2
      then show ?thesis using Cons.IH by blast
    qed
  qed
qed simp

text \<open>
  Related requests are all checked against the session of the first. Where the first names none, as an echo may, the
  others are let through without any check, whatever sessions they name and whatever these require.
\<close>

lemma related_after_no_session:
  assumes "check_chain E M c True encrypted False None reqs = Some vs" "(data, v) \<in> set vs"
  shows "v = NoSession"
  using assms by (induction reqs arbitrary: vs) (auto simp: bind_eq_Some_conv split: if_split_asm)

lemma related_chain_unchecked:
  assumes "session_of M c d = Some None" "check_chain E M c True encrypted True None (d # reqs) = Some vs" "(data, v) \<in> set vs"
  shows "v = NoSession"
proof -
  obtain cmd where "Header_Command d = Some cmd" using assms(2) by (auto simp: bind_eq_Some_conv)
  then show ?thesis using assms related_after_no_session by (auto simp: bind_eq_Some_conv split: if_split_asm)
qed

subsection \<open>Examples\<close>

definition sample_env :: prot_env where
  "sample_env = \<lparr>pe_sess = \<lparr>se_ntlm = login_env, hmac_sha256 = (\<lambda>k d. replicate 32 0), sha512 = (\<lambda>d. d), blake2b = (\<lambda>d. d),
     DecodeNegTokenResp = Some, DecodeNegTokenInit = Some, EncodeNegTokenResp = Some\<rparr>,
     aes_NewCipher = (\<lambda>key. if length key = 16 then Some \<lparr>BlockSize = 16, Encrypt = \<lambda>x. x\<rparr> else None),
     NewGCMWithNonceSize = (\<lambda>_ _. None)\<rparr>"

definition sample_conn :: conn where
  "sample_conn = \<lparr>cn_clientName = ''10.0.0.7'', cn_negotiateDialect = SMB_DIALECT_302, cn_clientGuid = [1], cn_clientCapabilities = 0,
     cn_shouldSign = True, cn_sessionTable = Map.empty, cn_preauthIntegrityHashID = 1, cn_preauthIntegrityHashValue = [],
     cn_preauthSessionTable = Map.empty, cn_cipherID = AES_128_CCM, cn_signingAlgorithmID = 0, cn_ntlmServer = login_server\<rparr>"

definition sample_session :: session where
  "sample_session = (newSessionState 5 0)\<lparr>ss_signingRequired := True, ss_encryptionKey := replicate 16 1, ss_decryptionKey := replicate 16 1,
     ss_channelList := [(''10.0.0.7'', \<lparr>ch_signingKey = replicate 16 2, ch_connection = 0\<rparr>)]\<rparr>"

definition sample_read :: bytes where
  "sample_read = [0xfe, 0x53, 0x4d, 0x42, 64, 0, 0, 0, 0, 0, 0, 0, 8, 0] @ replicate 50 0"

lemma sample_env_ok: "crypto_ok sample_env" "keys_ready 0 sample_conn sample_session"
  by (auto simp: crypto_ok_def sample_env_def cipher_ok_def keys_ready_def sample_conn_def sample_session_def channelOf_def newSessionState_def
      split: if_split_asm)

lemma of_le_zeros: "of_le (replicate n 0) = 0"
  by (induction n) simp_all

lemma sample_read_header: "64 \<le> length sample_read" "Header_Command sample_read = Some 8" "Header_NextCommand sample_read = Some 0"
  by (simp_all add: sample_read_def header_get_defs uint_at_defs word_at_def slice_def of_le_zeros)

lemma sample_aead: "aead_for sample_env (replicate 16 1) sample_conn = Some (ccm_aead \<lparr>ccm_c = \<lparr>BlockSize = 16, Encrypt = \<lambda>x. x\<rparr>, nonceSize = 11, tagSize = 16\<rparr>)"
  by (simp add: aead_for_def sample_env_def sample_conn_def NewCCMWithNonceAndTagSizes_def)

lemma sample_keys: "ss_encryptionKey sample_session = replicate 16 1" "ss_decryptionKey sample_session = replicate 16 1"
  by (simp_all add: sample_session_def)

theorem encrypted_message_opens_witness:
  "\<exists>w. encrypt sample_env sample_conn sample_session (replicate 11 9) [1, 2, 3] = Some (Some w)
    \<and> decrypt sample_env sample_conn sample_session w = Some (Some [1, 2, 3])"
  using encrypted_message_opens[OF sample_env_ok(1), of sample_session sample_conn _ "replicate 11 9" "[1, 2, 3]" sample_session sample_conn]
    sample_aead sample_keys by (simp add: ccm_aead_def) blast

theorem decrypted_was_sealed_witness:
  "\<exists>w (a :: aead). decrypt sample_env sample_conn sample_session w = Some (Some [1, 2, 3])
    \<and> AEAD_Seal a [] (take (NonceSize a) (drop 20 w)) [1, 2, 3] (take 32 (drop 20 w)) = Some (drop 52 w @ take 16 (drop 4 w))"
proof -
  obtain w where w: "decrypt sample_env sample_conn sample_session w = Some (Some [1, 2, 3])"
    using encrypt_decrypt[OF sample_env_ok(1), of sample_session sample_conn _ "replicate 11 9" "[1, 2, 3]" sample_session sample_conn]
      sample_aead sample_keys by (simp add: ccm_aead_def) blast
  then show ?thesis using decrypted_was_sealed[OF sample_env_ok(1) w] by blast
qed



end
