(* ===== verification/Lz77.thy ===== *)
theory Lz77
  imports Lznt1 Wire
begin

section \<open>LZ77\<close>

text \<open>
  \<^verbatim>\<open>src/compress/lz77/lz77.go\<close>: the plain LZ77 of [MS-XCA]. The compressor writes flag words of 32 bits, each in front of
  the literals and matches it is about, into a slot that is reserved first and filled in when the word is full; the
  length of a long match takes half a byte, and the other half of that byte is filled in by the next long match,
  wherever that is. The state of the writer, which the Go code keeps in variables that closures share, is a record.
  The arrays of the match finder are functions; what is left to read is the rest of the list.
\<close>

unbundle bit_operations_syntax

subsection \<open>Constants and errors\<close>

datatype lz77_error = lz77_ErrInvalidFormat | lz77_ErrUnexpectedEOF | lz77_ErrInvalidOffset

definition windowSize :: nat where "windowSize = 8192"
definition lz77_minMatch :: nat where "lz77_minMatch = 3"
definition hashBits :: nat where "hashBits = 15"
definition hashSize :: u32 where "hashSize = push_bit hashBits 1"
definition maxChain :: nat where "maxChain = 32"

subsection \<open>Finding matches\<close>

record lz77_chains =
  lz_head :: "nat \<Rightarrow> int"
  lz_next :: "nat \<Rightarrow> int"

definition lz77_hash3 :: "bytes \<Rightarrow> nat \<Rightarrow> nat" where
  "lz77_hash3 src i =
     (let h = (push_bit 16 (ucast (src ! i)) XOR push_bit 8 (ucast (src ! (i + 1)))) XOR ucast (src ! (i + 2)) :: u32;
          h = h XOR drop_bit 7 h;
          h = h * 0x9e3779b1
      in unat (drop_bit (32 - hashBits) h AND (hashSize - 1)))"

definition lz77_update :: "bytes \<Rightarrow> nat \<Rightarrow> lz77_chains \<Rightarrow> lz77_chains" where
  "lz77_update src i ch =
     (if i + 2 \<ge> length src then ch
      else let h = lz77_hash3 src i
           in ch\<lparr>lz_next := (lz_next ch)(i := lz_head ch h), lz_head := (lz_head ch)(h := int i)\<rparr>)"

text \<open>Growing a match by one byte at a time.\<close>

function lz77_extend :: "bytes \<Rightarrow> nat \<Rightarrow> nat \<Rightarrow> nat \<Rightarrow> nat \<Rightarrow> nat" where
  "lz77_extend src c p l mx = (if l < mx \<and> src ! (c + l) = src ! (p + l) then lz77_extend src c p (l + 1) mx else l)"
  by pat_completeness auto
termination by (relation "measure (\<lambda>(_, _, _, l, mx). mx - l)") auto

declare lz77_extend.simps [simp del]

text \<open>The walk down a hash chain, with the best offset and length so far.\<close>

function lz77_search :: "bytes \<Rightarrow> lz77_chains \<Rightarrow> nat \<Rightarrow> int \<Rightarrow> nat \<Rightarrow> nat \<Rightarrow> nat \<Rightarrow> nat \<times> nat" where
  "lz77_search src ch p c depth bestOff bestLen =
     (if c \<ge> 0 \<and> depth < maxChain then
        let dist = int p - c
        in if dist \<le> 0 then (bestOff, bestLen)
           else if dist > int windowSize then (bestOff, bestLen)
           else let cn = nat c
             in if src ! cn \<noteq> src ! p \<or> src ! (cn + 1) \<noteq> src ! (p + 1) \<or> src ! (cn + 2) \<noteq> src ! (p + 2)
                then lz77_search src ch p (lz_next ch cn) (depth + 1) bestOff bestLen
                else let mx = length src - p;
                         mx = (if mx > 2 ^ 16 + lz77_minMatch then 2 ^ 16 + lz77_minMatch else mx);
                         l = lz77_extend src cn p 3 mx
                  in if l > bestLen
                     then if l \<ge> 258 then (nat dist, l)
                          else lz77_search src ch p (lz_next ch cn) (depth + 1) (nat dist) l
                     else lz77_search src ch p (lz_next ch cn) (depth + 1) bestOff bestLen
      else (bestOff, bestLen))"
  by pat_completeness auto
termination by (relation "measure (\<lambda>(_, _, _, _, depth, _, _). maxChain - depth)") auto

declare lz77_search.simps [simp del]

definition findBest :: "bytes \<Rightarrow> lz77_chains \<Rightarrow> nat \<Rightarrow> nat \<times> nat" where
  "findBest src ch p = (if p + 2 \<ge> length src then (0, 0) else lz77_search src ch p (lz_head ch (lz77_hash3 src p)) 0 0 0)"

subsection \<open>Writing\<close>

record lz77_writer =
  w_dst :: bytes
  w_flagPos :: nat
  w_flags :: u32
  w_flagCount :: nat
  w_pending :: "nat option"

definition put_flags :: "nat \<Rightarrow> u32 \<Rightarrow> bytes \<Rightarrow> bytes" where
  "put_flags at f dst = take at dst @ to_le 4 (uint f) @ drop (at + 4) dst"

definition flushFlags :: "bool \<Rightarrow> lz77_writer \<Rightarrow> lz77_writer" where
  "flushFlags final w =
     (if w_flagCount w = 0 \<and> \<not> final then w
      else let shift = 32 - w_flagCount w;
               flags = (if final \<and> w_flagCount w > 0 then push_bit shift (w_flags w) OR (push_bit shift 1 - 1) else w_flags w);
               dst = put_flags (w_flagPos w) flags (w_dst w);
               w = w\<lparr>w_dst := dst, w_flags := 0, w_flagCount := 0\<rparr>
           in if final then w else w\<lparr>w_flagPos := length dst, w_dst := dst @ [0, 0, 0, 0]\<rparr>)"

text \<open>The part of a length that does not fit into the half byte.\<close>

definition write_extra :: "nat \<Rightarrow> nat \<Rightarrow> bytes" where
  "write_extra extra len =
     (if extra < 255 then [of_nat extra]
      else [0xff] @ (let total = of_nat (len - lz77_minMatch) :: u32
                     in if total < 2 ^ 16 then to_le 2 (uint (ucast total :: u16)) else [0, 0] @ to_le 4 (uint total)))"

definition writeMatch :: "nat \<Rightarrow> nat \<Rightarrow> lz77_writer \<Rightarrow> lz77_writer" where
  "writeMatch offset len w =
     (let ml = len - lz77_minMatch;
          tokLen = (if ml > 7 then 7 else ml);
          tok = of_nat (push_bit 3 (offset - 1) OR tokLen) :: u16;
          w = w\<lparr>w_dst := w_dst w @ [ucast tok, ucast (drop_bit 8 tok)]\<rparr>
      in if ml < 7 then w
         else let extra = ml - 7;
                  nib = (if extra > 15 then 15 else extra);
                  w = (case w_pending w of
                         None \<Rightarrow> w\<lparr>w_dst := w_dst w @ [of_nat nib], w_pending := Some (length (w_dst w))\<rparr>
                       | Some p \<Rightarrow> w\<lparr>w_dst := (w_dst w)[p := w_dst w ! p OR of_nat (push_bit 4 nib)], w_pending := None\<rparr>)
              in if extra < 15 then w else w\<lparr>w_dst := w_dst w @ write_extra (extra - 15) len\<rparr>)"

subsection \<open>Compression\<close>

fun lz77_updates :: "bytes \<Rightarrow> nat \<Rightarrow> nat \<Rightarrow> lz77_chains \<Rightarrow> nat \<times> lz77_chains" where
  "lz77_updates src i 0 ch = (i, ch)"
| "lz77_updates src i (Suc n) ch =
     (let ch = lz77_update src i ch in if i + 1 \<ge> length src then (i + 1, ch) else lz77_updates src (i + 1) n ch)"

lemma lz77_updates_pos: "i + n \<le> length src \<Longrightarrow> fst (lz77_updates src i n ch) = i + n"
  by (induction src i n ch rule: lz77_updates.induct) (auto simp: Let_def)

lemma lz77_updates_later: "i \<le> fst (lz77_updates src i n ch)"
  by (induction src i n ch rule: lz77_updates.induct) (auto simp: Let_def intro: order_trans[rotated])

lemma lz77_updates_moves: "0 < n \<Longrightarrow> i < fst (lz77_updates src i n ch)"
  using lz77_updates_later[of "i + 1" src _ "lz77_update src i ch"] by (cases n) (simp_all add: Let_def Suc_le_lessD)

lemma lz77_updates_moves': "lz77_updates src i n ch = (i', ch') \<Longrightarrow> 3 \<le> n \<Longrightarrow> i < i'"
  using lz77_updates_moves[of n i src ch] by simp

function lz77_loop :: "bytes \<Rightarrow> nat \<Rightarrow> lz77_chains \<Rightarrow> lz77_writer \<Rightarrow> lz77_writer" where
  "lz77_loop src i ch w =
     (if i < length src then
        let w = (if w_flagCount w = 32 then flushFlags False w else w)
        in case findBest src ch i of
             (bestOff, bestLen) \<Rightarrow>
               if bestLen \<ge> lz77_minMatch then
                 let w = w\<lparr>w_flags := push_bit 1 (w_flags w) OR 1, w_flagCount := w_flagCount w + 1\<rparr>;
                     w = writeMatch bestOff bestLen w
                 in case lz77_updates src i bestLen ch of (i, ch) \<Rightarrow> lz77_loop src i ch w
               else
                 let w = w\<lparr>w_flags := push_bit 1 (w_flags w), w_flagCount := w_flagCount w + 1, w_dst := w_dst w @ [src ! i]\<rparr>
                 in lz77_loop src (i + 1) (lz77_update src i ch) w
      else w)"
  by pat_completeness auto
termination
  by (relation "measure (\<lambda>(src, i, _, _). length src - i)")
     (auto simp: lz77_minMatch_def dest: lz77_updates_moves'[OF sym] intro!: diff_less_mono2)

declare lz77_loop.simps [simp del]

definition lz77_Compress :: "bytes \<Rightarrow> bytes" where
  "lz77_Compress src =
     (if src = [] then []
      else w_dst (flushFlags True (lz77_loop src 0 \<lparr>lz_head = (\<lambda>_. -1), lz_next = (\<lambda>_. -1)\<rparr>
             \<lparr>w_dst = [0, 0, 0, 0], w_flagPos = 0, w_flags = 0, w_flagCount = 0, w_pending = None\<rparr>)))"

subsection \<open>Decompression\<close>

definition readU8 :: "bytes \<Rightarrow> lz77_error + byte \<times> bytes" where
  "readU8 inp = (case inp of [] \<Rightarrow> Inl lz77_ErrUnexpectedEOF | b # rest \<Rightarrow> Inr (b, rest))"

definition readU16 :: "bytes \<Rightarrow> lz77_error + u16 \<times> bytes" where
  "readU16 inp = (if length inp < 2 then Inl lz77_ErrUnexpectedEOF else Inr (of_int (of_le (take 2 inp)), drop 2 inp))"

definition readU32 :: "bytes \<Rightarrow> lz77_error + u32 \<times> bytes" where
  "readU32 inp = (if length inp < 4 then Inl lz77_ErrUnexpectedEOF else Inr (of_int (of_le (take 4 inp)), drop 4 inp))"

definition sum_bind :: "'e + 'a \<Rightarrow> ('a \<Rightarrow> 'e + 'b) \<Rightarrow> 'e + 'b" where
  "sum_bind m f = (case m of Inl e \<Rightarrow> Inl e | Inr x \<Rightarrow> f x)"

lemma sum_bind_simps [simp]: "sum_bind (Inl e) f = Inl e" "sum_bind (Inr x) f = f x"
  by (simp_all add: sum_bind_def)

text \<open>The length of a match beyond the half byte; then all of it, with the half byte that is left over.\<close>

definition read_extra :: "bytes \<Rightarrow> lz77_error + nat \<times> bytes" where
  "read_extra inp =
     sum_bind (readU8 inp) (\<lambda>(b, inp).
       if b < 255 then Inr (unat b + 15 + 7 + lz77_minMatch, inp)
       else sum_bind (readU16 inp) (\<lambda>(v16, inp).
         sum_bind (if v16 \<noteq> 0 then Inr (ucast v16, inp) else readU32 inp) (\<lambda>(m, inp).
           if m < 15 + 7 then Inl lz77_ErrInvalidFormat else Inr (unat (m :: u32) + lz77_minMatch, inp))))"

definition read_length :: "nat \<Rightarrow> byte option \<Rightarrow> bytes \<Rightarrow> lz77_error + nat \<times> byte option \<times> bytes" where
  "read_length baseLen saved inp =
     (if baseLen < 7 then Inr (baseLen + lz77_minMatch, saved, inp)
      else sum_bind (case saved of
                       None \<Rightarrow> sum_bind (readU8 inp) (\<lambda>(b, inp). Inr (unat (b AND 0x0f), Some b, inp))
                     | Some s \<Rightarrow> Inr (unat (drop_bit 4 s), None, inp)) (\<lambda>(nib, saved, inp).
        if nib < 15 then Inr (nib + 7 + lz77_minMatch, saved, inp)
        else sum_bind (read_extra inp) (\<lambda>(len, inp). Inr (len, saved, inp))))"

text \<open>One token: the output after it, the half byte and the rest of the input, or the end.\<close>

definition read_match :: "int \<Rightarrow> byte option \<Rightarrow> bytes \<Rightarrow> bytes \<Rightarrow> lz77_error + bytes \<times> byte option \<times> bytes" where
  "read_match limit saved inp dst =
     sum_bind (readU16 inp) (\<lambda>(tok, inp).
       let baseLen = unat (tok AND 0x7); offset = unat (drop_bit 3 tok) + 1
       in if offset < 1 \<or> offset > windowSize \<or> offset > length dst then Inl lz77_ErrInvalidOffset
          else sum_bind (read_length baseLen saved inp) (\<lambda>(len, saved, inp).
            if limit > 0 \<and> int (length dst + len) > limit then Inl lz77_ErrInvalidFormat
            else Inr (copy_match (length dst - offset) 0 len dst, saved, inp)))"

lemma readU8_shrinks: "readU8 inp = Inr (b, rest) \<Longrightarrow> length rest < length inp"
  by (cases inp) (auto simp: readU8_def)

lemma readU16_shrinks: "readU16 inp = Inr (v, rest) \<Longrightarrow> length rest < length inp"
  by (auto simp: readU16_def split: if_split_asm)

lemma readU32_shrinks: "readU32 inp = Inr (v, rest) \<Longrightarrow> length rest < length inp"
  by (auto simp: readU32_def split: if_split_asm)

lemma sum_bind_Inr: "sum_bind m f = Inr y \<longleftrightarrow> (\<exists>x. m = Inr x \<and> f x = Inr y)"
  by (cases m) simp_all

lemma read_extra_shrinks: "read_extra inp = Inr (n, rest) \<Longrightarrow> length rest \<le> length inp"
  by (auto simp: read_extra_def sum_bind_Inr split: if_split_asm dest!: readU8_shrinks readU16_shrinks readU32_shrinks)

lemma read_length_shrinks: "read_length b saved inp = Inr (n, saved', rest) \<Longrightarrow> length rest \<le> length inp"
  by (auto simp: read_length_def sum_bind_Inr split: if_split_asm option.split_asm
      dest!: readU8_shrinks read_extra_shrinks)

lemma read_match_shrinks: "read_match limit saved inp dst = Inr (dst', saved', rest) \<Longrightarrow> length rest < length inp"
  by (auto simp: read_match_def Let_def sum_bind_Inr split: if_split_asm dest!: readU16_shrinks read_length_shrinks)

function lz77_Decompress_loop :: "int \<Rightarrow> bytes \<Rightarrow> u32 \<Rightarrow> nat \<Rightarrow> byte option \<Rightarrow> bytes \<Rightarrow> lz77_error + bytes" where
  "lz77_Decompress_loop limit inp flags flagCount saved dst =
     (if flagCount = 0 \<and> inp = [] then Inr dst
      else if flagCount = 0 \<and> length inp < 4 then Inl lz77_ErrUnexpectedEOF
      else let (flags, inp, flagCount) = (if flagCount = 0 then (of_int (of_le (take 4 inp)), drop 4 inp, 32) else (flags, inp, flagCount));
               flagCount = flagCount - 1;
               isMatch = drop_bit flagCount flags AND 1 \<noteq> 0
           in if \<not> isMatch then
                (case readU8 inp of
                   Inl e \<Rightarrow> Inl e
                 | Inr (b, inp) \<Rightarrow>
                     let dst = dst @ [b]
                     in if limit > 0 \<and> int (length dst) > limit then Inl lz77_ErrInvalidFormat
                        else lz77_Decompress_loop limit inp flags flagCount saved dst)
              else if inp = [] then Inr dst
              else (case read_match limit saved inp dst of
                      Inl e \<Rightarrow> Inl e
                    | Inr (dst, saved, inp) \<Rightarrow> lz77_Decompress_loop limit inp flags flagCount saved dst))"
  by pat_completeness auto
termination
  by (relation "measure (\<lambda>(_, inp, _). length inp)") (auto split: if_split_asm dest!: readU8_shrinks read_match_shrinks)

declare lz77_Decompress_loop.simps [simp del]

definition lz77_Decompress :: "bytes \<Rightarrow> int \<Rightarrow> lz77_error + bytes" where
  "lz77_Decompress src limit = lz77_Decompress_loop limit src 0 0 None []"

text \<open>The limit holds for whatever is decompressed.\<close>

lemma read_match_bound: "read_match limit saved inp dst = Inr (dst', saved', inp') \<Longrightarrow> limit > 0 \<Longrightarrow> int (length dst') \<le> limit"
  by (auto simp: read_match_def Let_def sum_bind_Inr length_copy_match split: if_split_asm)

lemma lz77_Decompress_loop_bound:
  "lz77_Decompress_loop limit inp flags flagCount saved dst = Inr out \<Longrightarrow> limit > 0 \<Longrightarrow> int (length dst) \<le> limit \<Longrightarrow> int (length out) \<le> limit"
proof (induction limit inp flags flagCount saved dst rule: lz77_Decompress_loop.induct)
  case (1 limit inp flags flagCount saved dst)
  show ?case
  proof (cases "flagCount = 0 \<and> inp = []")
    case True
    then show ?thesis using 1(3,5) by (simp add: lz77_Decompress_loop.simps)
  next
    case a: False
    from 1(3) a have b: "\<not> (flagCount = 0 \<and> length inp < 4)"
      by (subst (asm) lz77_Decompress_loop.simps) (simp split: if_split_asm)
    obtain flags' inp' flagCount' where f: "(if flagCount = 0 then (of_int (of_le (take 4 inp)), drop 4 inp, 32) else (flags, inp, flagCount))
      = (flags', inp', flagCount')" by (metis prod_cases3)
    let ?n = "flagCount' - 1"
    have step: "lz77_Decompress_loop limit inp flags flagCount saved dst =
        (if \<not> drop_bit ?n flags' AND 1 \<noteq> 0 then
                (case readU8 inp' of
                   Inl e \<Rightarrow> Inl e
                 | Inr (b, inp) \<Rightarrow>
                     let dst = dst @ [b]
                     in if limit > 0 \<and> int (length dst) > limit then Inl lz77_ErrInvalidFormat
                        else lz77_Decompress_loop limit inp flags' ?n saved dst)
              else if inp' = [] then Inr dst
              else (case read_match limit saved inp' dst of
                      Inl e \<Rightarrow> Inl e
                    | Inr (dst, saved, inp) \<Rightarrow> lz77_Decompress_loop limit inp flags' ?n saved dst))"
      using a b by (subst lz77_Decompress_loop.simps) (simp only: f Let_def prod.case if_False)
    show ?thesis
    proof (cases "\<not> drop_bit ?n flags' AND 1 \<noteq> 0")
      case True
      then obtain x inp2 where r: "readU8 inp' = Inr (x, inp2)" using 1(3) unfolding step by (auto split: sum.split_asm)
      have l: "\<not> (limit > 0 \<and> int (length (dst @ [x])) > limit)" and rec: "lz77_Decompress_loop limit inp2 flags' ?n saved (dst @ [x]) = Inr out"
        using 1(3) True r unfolding step by (auto simp: Let_def split: if_split_asm)
      show ?thesis using 1(1)[OF a b f[symmetric] refl refl refl refl] True r rec l 1(4) by simp
    next
      case False
      show ?thesis
      proof (cases "inp' = []")
        case True
        then show ?thesis using 1(3,5) False unfolding step by simp
      next
        case more: False
        then obtain dst2 saved2 inp2 where r: "read_match limit saved inp' dst = Inr (dst2, saved2, inp2)"
          using 1(3) False unfolding step by (auto split: sum.split_asm)
        have rec: "lz77_Decompress_loop limit inp2 flags' ?n saved2 dst2 = Inr out" using 1(3) False more r unfolding step by simp
        show ?thesis using 1(2)[OF a b f[symmetric] refl refl refl refl] False more r rec 1(4) read_match_bound[OF r] by simp
      qed
    qed
  qed
qed

lemma lz77_Decompress_bound: "lz77_Decompress src limit = Inr out \<Longrightarrow> limit > 0 \<Longrightarrow> int (length out) \<le> limit"
  using lz77_Decompress_loop_bound[of limit src 0 0 None "[]" out] by (simp add: lz77_Decompress_def)

end
