(* ===== verification/Huffman.thy ===== *)
theory Huffman
  imports Lz77
begin

section \<open>LZ77 with Huffman codes\<close>

text \<open>
  \<^verbatim>\<open>src/compress/huffman/\<close>: the variant of [MS-XCA] that the server prefers to send. \<^verbatim>\<open>bits.go\<close> is the bit stream, whose
  words are written into slots that lie two words behind the end of the buffer, so that plain bytes can go between
  them; \<^verbatim>\<open>code.go\<close> gives out the codes and reads them back; \<^verbatim>\<open>huffman.go\<close> finds the matches and frames the blocks.
  The structs of the code are records, its arrays lists or functions of the index. Only the loop of \<^verbatim>\<open>codeLengths\<close> has
  no bound in sight: it is a partial function, and that it returns is proved.
\<close>

unbundle bit_operations_syntax

datatype huff_error = huff_ErrInvalidFormat | huff_ErrUnexpectedEOF | huff_ErrInvalidOffset

definition symbolCount :: nat where "symbolCount = 512"
definition eofSymbol :: nat where "eofSymbol = 256"
definition maxCodeLen :: nat where "maxCodeLen = 15"
definition blockSize :: nat where "blockSize = 64 * 1024"
definition tableSize :: nat where "tableSize = symbolCount div 2"
definition huff_minMatch :: nat where "huff_minMatch = 3"
definition maxDistance :: nat where "maxDistance = 65535"

lemmas huff_consts = symbolCount_def eofSymbol_def maxCodeLen_def blockSize_def tableSize_def huff_minMatch_def maxDistance_def

subsection \<open>Writing bits\<close>

record huff_writer =
  hw_buf :: bytes
  hw_pos1 :: nat
  hw_pos2 :: nat
  hw_next :: u32
  hw_freeBits :: nat

definition put_u16 :: "nat \<Rightarrow> u16 \<Rightarrow> bytes \<Rightarrow> bytes" where
  "put_u16 at v b = take at b @ to_le 2 (uint v) @ drop (at + 2) b"

definition newWriter :: "bytes \<Rightarrow> huff_writer" where
  "newWriter b = \<lparr>hw_buf = b @ [0, 0] @ [0, 0], hw_pos1 = length b, hw_pos2 = length (b @ [0, 0]), hw_next = 0, hw_freeBits = 16\<rparr>"

definition putWord :: "u16 \<Rightarrow> huff_writer \<Rightarrow> huff_writer" where
  "putWord v w = w\<lparr>hw_buf := put_u16 (hw_pos1 w) v (hw_buf w) @ [0, 0], hw_pos1 := hw_pos2 w, hw_pos2 := length (hw_buf w)\<rparr>"

definition writeBits :: "nat \<Rightarrow> u32 \<Rightarrow> huff_writer \<Rightarrow> huff_writer" where
  "writeBits n v w =
     (if n = 0 then w
      else if hw_freeBits w \<ge> n then w\<lparr>hw_freeBits := hw_freeBits w - n, hw_next := push_bit n (hw_next w) OR v\<rparr>
      else let next = push_bit (hw_freeBits w) (hw_next w) OR drop_bit (n - hw_freeBits w) v;
               w = putWord (ucast next) w
           in w\<lparr>hw_freeBits := hw_freeBits w + (16 - n), hw_next := v\<rparr>)"

definition writeByte :: "byte \<Rightarrow> huff_writer \<Rightarrow> huff_writer" where
  "writeByte b w = w\<lparr>hw_buf := hw_buf w @ [b]\<rparr>"

definition writeUint16 :: "u16 \<Rightarrow> huff_writer \<Rightarrow> huff_writer" where
  "writeUint16 v w = w\<lparr>hw_buf := hw_buf w @ to_le 2 (uint v)\<rparr>"

definition writeUint32 :: "u32 \<Rightarrow> huff_writer \<Rightarrow> huff_writer" where
  "writeUint32 v w = w\<lparr>hw_buf := hw_buf w @ to_le 4 (uint v)\<rparr>"

definition huff_flush :: "huff_writer \<Rightarrow> bytes" where
  "huff_flush w = put_u16 (hw_pos1 w) (ucast (push_bit (hw_freeBits w) (hw_next w))) (hw_buf w)"

subsection \<open>Reading bits\<close>

record huff_reader =
  hr_buf :: bytes
  hr_pos :: nat
  hr_bits :: u32
  hr_count :: nat
  hr_consumed :: nat
  hr_extra :: nat

definition next_word :: "huff_reader \<Rightarrow> u16" where
  "next_word r = (if hr_pos r + 2 \<le> length (hr_buf r) then of_int (of_le (take 2 (drop (hr_pos r) (hr_buf r)))) else 0)"

function refill :: "huff_reader \<Rightarrow> huff_reader" where
  "refill r =
     (if hr_count r < 16
      then refill (r\<lparr>hr_pos := hr_pos r + 2, hr_bits := hr_bits r OR push_bit (16 - hr_count r) (ucast (next_word r)), hr_count := hr_count r + 16\<rparr>)
      else r)"
  by pat_completeness auto
termination by (relation "measure (\<lambda>r. 16 - hr_count r)") auto

declare refill.simps [simp del]

definition newReader :: "bytes \<Rightarrow> huff_reader" where
  "newReader b = refill \<lparr>hr_buf = b, hr_pos = 0, hr_bits = 0, hr_count = 0, hr_consumed = 0, hr_extra = 0\<rparr>"

definition peek :: "nat \<Rightarrow> huff_reader \<Rightarrow> u32" where
  "peek n r = drop_bit (32 - n) (hr_bits r)"

definition skip :: "nat \<Rightarrow> huff_reader \<Rightarrow> huff_reader" where
  "skip n r = refill (r\<lparr>hr_bits := push_bit n (hr_bits r), hr_count := hr_count r - n, hr_consumed := hr_consumed r + n\<rparr>)"

definition take_bits :: "nat \<Rightarrow> huff_reader \<Rightarrow> u32 \<times> huff_reader" where
  "take_bits n r = (if n = 0 then (0, r) else (peek n r, skip n r))"

definition huff_readByte :: "huff_reader \<Rightarrow> (byte \<times> huff_reader) option" where
  "huff_readByte r = (if hr_pos r \<ge> length (hr_buf r) then None
     else Some (hr_buf r ! hr_pos r, r\<lparr>hr_pos := hr_pos r + 1, hr_extra := hr_extra r + 1\<rparr>))"

definition huff_readUint16 :: "huff_reader \<Rightarrow> (u16 \<times> huff_reader) option" where
  "huff_readUint16 r = (if hr_pos r + 2 > length (hr_buf r) then None
     else Some (of_int (of_le (take 2 (drop (hr_pos r) (hr_buf r)))), r\<lparr>hr_pos := hr_pos r + 2, hr_extra := hr_extra r + 2\<rparr>))"

definition huff_readUint32 :: "huff_reader \<Rightarrow> (u32 \<times> huff_reader) option" where
  "huff_readUint32 r = (if hr_pos r + 4 > length (hr_buf r) then None
     else Some (of_int (of_le (take 4 (drop (hr_pos r) (hr_buf r)))), r\<lparr>hr_pos := hr_pos r + 4, hr_extra := hr_extra r + 4\<rparr>))"

subsection \<open>Giving out codes\<close>

datatype node = Sym u32 nat | Joined u32 node node

fun node_freq :: "node \<Rightarrow> u32" where
  "node_freq (Sym f _) = f"
| "node_freq (Joined f _ _) = f"

definition live_symbols :: "u32 list \<Rightarrow> node list" where
  "live_symbols freq = map (\<lambda>(sy, f). Sym f sy) (filter (\<lambda>(sy, f). f > 0) (enumerate 0 freq))"

text \<open>
  The comparison of the sort is by frequency and then by symbol; the list is in the order of the symbols already, so
  a stable sort by frequency is the same. \<^verbatim>\<open>sort.Search\<close> finds the first place where the condition holds.
\<close>

definition put_back :: "node \<Rightarrow> node list \<Rightarrow> node list" where
  "put_back n live = takeWhile (\<lambda>x. \<not> node_freq x \<ge> node_freq n) live @ n # dropWhile (\<lambda>x. \<not> node_freq x \<ge> node_freq n) live"

lemma length_put_back [simp]: "length (put_back n live) = Suc (length live)"
proof -
  have "length (takeWhile P live) + length (dropWhile P live) = length live" for P
    by (metis length_append takeWhile_dropWhile_id)
  then show ?thesis by (simp add: put_back_def)
qed

function join_live :: "node list \<Rightarrow> node list" where
  "join_live live =
     (case live of
        a # b # rest \<Rightarrow> join_live (put_back (Joined (node_freq a + node_freq b) a b) rest)
      | _ \<Rightarrow> live)"
  by pat_completeness auto
termination by (relation "measure length") auto

declare join_live.simps [simp del]

fun depth :: "node \<Rightarrow> byte \<Rightarrow> byte list \<Rightarrow> byte list" where
  "depth (Sym _ sy) d lengths = lengths[sy := d]"
| "depth (Joined _ left right) d lengths = depth right (d + 1) (depth left (d + 1) lengths)"

definition huffmanLengths :: "u32 list \<Rightarrow> byte list" where
  "huffmanLengths freq =
     (let live = live_symbols freq; lengths = replicate symbolCount 0
      in case live of
           [] \<Rightarrow> lengths
         | [n] \<Rightarrow> (case n of Sym _ sy \<Rightarrow> lengths[sy := 1] | Joined _ _ _ \<Rightarrow> lengths)
         | _ \<Rightarrow> depth (hd (join_live (sort_key node_freq live))) 0 lengths)"

definition longest :: "byte list \<Rightarrow> byte" where
  "longest lengths = foldl (\<lambda>m l. if l > m then l else m) 0 lengths"

definition flatten_freq :: "u32 list \<Rightarrow> u32 list" where
  "flatten_freq freq = map (\<lambda>f. if f > 1 then (f + 1) div 2 else f) freq"

partial_function (option) codeLengths :: "u32 list \<Rightarrow> byte list option" where
  "codeLengths freq =
     (let lengths = huffmanLengths freq
      in if unat (longest lengths) \<le> maxCodeLen then Some lengths else codeLengths (flatten_freq freq))"

declare codeLengths.simps [code]

definition count_codes :: "byte list \<Rightarrow> nat \<Rightarrow> u16" where
  "count_codes lengths = fold (\<lambda>l cnt. if l > 0 then cnt(unat l := cnt (unat l) + 1) else cnt) lengths (\<lambda>_. 0)"

definition first_codes :: "(nat \<Rightarrow> u16) \<Rightarrow> nat \<Rightarrow> u16" where
  "first_codes cnt = snd (fold (\<lambda>l (code, next). let code = push_bit 1 (code + cnt (l - 1)) in (code, next(l := code)))
     [1..<maxCodeLen + 1] (0, \<lambda>_. 0))"

definition canonicalCodes :: "byte list \<Rightarrow> u16 list" where
  "canonicalCodes lengths =
     fst (fold (\<lambda>l (codes, next). if l > 0 then (codes @ [next (unat l)], next(unat l := next (unat l) + 1)) else (codes @ [0], next))
       lengths ([], first_codes (count_codes lengths)))"

subsection \<open>Reading codes\<close>

record decodeTable =
  dt_count :: "nat \<Rightarrow> nat"
  dt_symbols :: "nat list"

definition count_lengths :: "byte list \<Rightarrow> nat \<Rightarrow> nat" where
  "count_lengths lengths = fold (\<lambda>l cnt. if l > 0 then cnt(unat l := cnt (unat l) + 1) else cnt) lengths (\<lambda>_. 0)"

definition code_offsets :: "(nat \<Rightarrow> nat) \<Rightarrow> nat \<Rightarrow> nat" where
  "code_offsets cnt = fold (\<lambda>l offset. offset(l + 1 := offset l + cnt l)) [1..<maxCodeLen + 1] (\<lambda>_. 0)"

definition newDecodeTable :: "byte list \<Rightarrow> decodeTable" where
  "newDecodeTable lengths =
     (let cnt = count_lengths lengths; offset = code_offsets cnt;
          symbols = fst (fold (\<lambda>(sy, l) (symbols, offset).
            if l > 0 then (symbols[offset (unat l) := sy], offset(unat l := offset (unat l) + 1)) else (symbols, offset))
            (enumerate 0 lengths) (replicate (offset (maxCodeLen + 1)) 0, offset))
      in \<lparr>dt_count = cnt, dt_symbols = symbols\<rparr>)"

function symbol_loop :: "decodeTable \<Rightarrow> nat \<Rightarrow> nat \<Rightarrow> nat \<Rightarrow> nat \<Rightarrow> huff_reader \<Rightarrow> (nat \<times> huff_reader) option" where
  "symbol_loop t l code first index r =
     (if l \<le> maxCodeLen then
        case take_bits 1 r of
          (b, r) \<Rightarrow>
            let code = code OR unat b; n = dt_count t l
            in if int code - int first < int n then Some (dt_symbols t ! (index + code - first), r)
               else symbol_loop t (l + 1) (push_bit 1 code) (push_bit 1 (first + n)) (index + n) r
      else None)"
  by pat_completeness auto
termination by (relation "measure (\<lambda>(_, l, _). maxCodeLen + 1 - l)") auto

declare symbol_loop.simps [simp del]

definition symbol :: "decodeTable \<Rightarrow> huff_reader \<Rightarrow> (nat \<times> huff_reader) option" where
  "symbol t r = symbol_loop t 1 0 0 0 r"

subsection \<open>Finding matches\<close>

record huff_item =
  it_literal :: byte
  it_length :: nat
  it_distance :: nat

record huff_chains =
  hc_head :: "nat \<Rightarrow> int"
  hc_chain :: "nat \<Rightarrow> int"

definition huff_hash :: "bytes \<Rightarrow> nat \<Rightarrow> nat" where
  "huff_hash src i =
     (let h = (push_bit 16 (ucast (src ! i)) XOR push_bit 8 (ucast (src ! (i + 1)))) XOR ucast (src ! (i + 2)) :: u32;
          h = h XOR drop_bit 7 h;
          h = h * 0x9e3779b1
      in unat (drop_bit (32 - hashBits) h))"

function huff_extend :: "bytes \<Rightarrow> nat \<Rightarrow> nat \<Rightarrow> nat \<Rightarrow> nat" where
  "huff_extend src p i l = (if i + l < length src \<and> src ! (p + l) = src ! (i + l) then huff_extend src p i (l + 1) else l)"
  by pat_completeness auto
termination by (relation "measure (\<lambda>(src, _, i, l). length src - (i + l))") auto

declare huff_extend.simps [simp del]

function huff_search :: "bytes \<Rightarrow> huff_chains \<Rightarrow> nat \<Rightarrow> int \<Rightarrow> nat \<Rightarrow> nat \<Rightarrow> int \<Rightarrow> nat \<times> int" where
  "huff_search src ch i p n bestLen bestDist =
     (if p \<ge> 0 \<and> n < maxChain then
        let dist = int i - p; pn = nat p
        in if dist > int maxDistance then (bestLen, bestDist)
           else if bestLen > 0 \<and> (i + bestLen \<ge> length src \<or> src ! (pn + bestLen) \<noteq> src ! (i + bestLen))
           then huff_search src ch i (hc_chain ch pn) (n + 1) bestLen bestDist
           else let l = huff_extend src pn i 0
                in if l > bestLen then huff_search src ch i (hc_chain ch pn) (n + 1) l dist
                   else huff_search src ch i (hc_chain ch pn) (n + 1) bestLen bestDist
      else (bestLen, bestDist))"
  by pat_completeness auto
termination by (relation "measure (\<lambda>(_, _, _, _, n, _, _). maxChain - n)") auto

declare huff_search.simps [simp del]

definition huff_insert :: "bytes \<Rightarrow> nat \<Rightarrow> huff_chains \<Rightarrow> huff_chains" where
  "huff_insert src i ch =
     (let h = huff_hash src i in ch\<lparr>hc_chain := (hc_chain ch)(i := hc_head ch h), hc_head := (hc_head ch)(h := int i)\<rparr>)"

definition huff_covered :: "bytes \<Rightarrow> nat \<Rightarrow> nat \<Rightarrow> huff_chains \<Rightarrow> huff_chains" where
  "huff_covered src i bestLen ch =
     fold (\<lambda>j ch. if j + huff_minMatch \<le> length src then huff_insert src j ch else ch) [i + 1..<i + bestLen] ch"

fun Len32 :: "nat \<Rightarrow> nat" where
  "Len32 n = (if n = 0 then 0 else Suc (Len32 (n div 2)))"

declare Len32.simps [simp del]

definition match_symbol :: "nat \<Rightarrow> nat \<Rightarrow> nat" where
  "match_symbol len dist = (let high = Len32 dist - 1 in eofSymbol + min (len - huff_minMatch) 15 + 16 * high)"

definition bump :: "nat \<Rightarrow> u32 list \<Rightarrow> u32 list" where
  "bump sy freq = freq[sy := freq ! sy + 1]"

function parse_loop :: "bytes \<Rightarrow> nat \<Rightarrow> huff_chains \<Rightarrow> huff_item list \<Rightarrow> u32 list \<Rightarrow> huff_item list \<times> u32 list" where
  "parse_loop src i ch items freq =
     (if i < length src then
        let literal = (items @ [\<lparr>it_literal = src ! i, it_length = 0, it_distance = 0\<rparr>], bump (unat (src ! i)) freq)
        in if i + huff_minMatch > length src then parse_loop src (i + 1) ch (fst literal) (snd literal)
           else case huff_search src ch i (hc_head ch (huff_hash src i)) 0 0 0 of
                  (bestLen, bestDist) \<Rightarrow>
                    let ch = huff_insert src i ch
                    in if bestLen < huff_minMatch \<or> bestLen = huff_minMatch \<and> bestDist = 1
                       then parse_loop src (i + 1) ch (fst literal) (snd literal)
                       else parse_loop src (i + bestLen) (huff_covered src i bestLen ch)
                              (items @ [\<lparr>it_literal = 0, it_length = bestLen, it_distance = nat bestDist\<rparr>])
                              (bump (match_symbol bestLen (nat bestDist)) freq)
      else (items, freq))"
  by pat_completeness auto
termination by (relation "measure (\<lambda>(src, i, _). length src - i)") (auto simp: huff_minMatch_def)

declare parse_loop.simps [simp del]

definition parse :: "bytes \<Rightarrow> bool \<Rightarrow> huff_item list \<times> u32 list" where
  "parse src isLast =
     (case parse_loop src 0 \<lparr>hc_head = (\<lambda>_. -1), hc_chain = (\<lambda>_. 0)\<rparr> [] (replicate symbolCount 0) of
        (items, freq) \<Rightarrow> (items, if isLast then bump eofSymbol freq else freq))"

subsection \<open>Compression\<close>

definition write_length :: "nat \<Rightarrow> huff_writer \<Rightarrow> huff_writer" where
  "write_length n w =
     (if n \<ge> 15 then
        let m = n - 15
        in if m < 255 then writeByte (of_nat m) w
           else let w = writeByte 255 w; m = m + 15
                in if m < 65536 then writeUint16 (of_nat m) w else writeUint32 (of_nat m) (writeUint16 0 w)
      else w)"

definition write_item :: "byte list \<Rightarrow> u16 list \<Rightarrow> huff_item \<Rightarrow> huff_writer \<Rightarrow> huff_writer" where
  "write_item lengths codes it w =
     (if it_length it = 0 then writeBits (unat (lengths ! unat (it_literal it))) (ucast (codes ! unat (it_literal it))) w
      else let high = Len32 (it_distance it) - 1;
               sy = match_symbol (it_length it) (it_distance it);
               w = writeBits (unat (lengths ! sy)) (ucast (codes ! sy)) w;
               w = write_length (it_length it - huff_minMatch) w
           in writeBits high (of_nat (it_distance it) - push_bit high 1) w)"

definition length_table :: "byte list \<Rightarrow> bytes" where
  "length_table lengths = map (\<lambda>i. lengths ! (2 * i) OR push_bit 4 (lengths ! (2 * i + 1))) [0..<tableSize]"

definition huff_compressBlock :: "bytes \<Rightarrow> bytes \<Rightarrow> bool \<Rightarrow> bytes option" where
  "huff_compressBlock dst src isLast =
     (case parse src isLast of
        (items, freq) \<Rightarrow>
          map_option (\<lambda>lengths.
            let codes = canonicalCodes lengths;
                w = fold (write_item lengths codes) items (newWriter (dst @ length_table lengths));
                w = (if isLast then writeBits (unat (lengths ! eofSymbol)) (ucast (codes ! eofSymbol)) w else w)
            in huff_flush w) (codeLengths freq))"

function huff_blocks :: "bytes \<Rightarrow> nat \<Rightarrow> bytes \<Rightarrow> bytes option" where
  "huff_blocks src start dst =
     (if start < length src then
        let end = min (start + blockSize) (length src)
        in case huff_compressBlock dst (take (end - start) (drop start src)) (end = length src) of
             None \<Rightarrow> None
           | Some dst \<Rightarrow> huff_blocks src (start + blockSize) dst
      else Some dst)"
  by pat_completeness auto
termination by (relation "measure (\<lambda>(src, start, _). length src - start)") (auto simp: blockSize_def)

declare huff_blocks.simps [simp del]

definition huff_Compress :: "bytes \<Rightarrow> bytes option" where
  "huff_Compress src = (if src = [] then Some [] else huff_blocks src 0 [])"

subsection \<open>Decompression\<close>

definition some_or :: "'e \<Rightarrow> 'a option \<Rightarrow> 'e + 'a" where
  "some_or e x = (case x of None \<Rightarrow> Inl e | Some y \<Rightarrow> Inr y)"

definition huff_read_length :: "nat \<Rightarrow> huff_reader \<Rightarrow> huff_error + nat \<times> huff_reader" where
  "huff_read_length n r =
     (if n = 15 then
        sum_bind (some_or huff_ErrUnexpectedEOF (huff_readByte r)) (\<lambda>(b, r).
          if b < 255 then Inr (15 + unat b, r)
          else sum_bind (some_or huff_ErrUnexpectedEOF (huff_readUint16 r)) (\<lambda>(v, r).
            if v = 0
            then sum_bind (some_or huff_ErrUnexpectedEOF (huff_readUint32 r)) (\<lambda>(u, r). Inr (unat u, r))
            else Inr (unat v, r)))
      else Inr (n, r))"

function block_symbols :: "decodeTable \<Rightarrow> nat \<Rightarrow> bytes \<Rightarrow> nat \<Rightarrow> huff_reader \<Rightarrow> huff_error + bytes \<times> huff_reader" where
  "block_symbols t want dst produced r =
     (if produced < want then
        case symbol t r of
          None \<Rightarrow> Inl huff_ErrInvalidFormat
        | Some (sy, r) \<Rightarrow>
            if sy = eofSymbol then Inl huff_ErrUnexpectedEOF
            else if sy < eofSymbol then block_symbols t want (dst @ [of_nat sy]) (produced + 1) r
            else case huff_read_length ((sy - eofSymbol) AND 15) r of
                   Inl e \<Rightarrow> Inl e
                 | Inr (n, r) \<Rightarrow>
                     let high = drop_bit 4 (sy - eofSymbol); len = n + huff_minMatch
                     in case take_bits high r of
                          (low, r) \<Rightarrow>
                            let distance = push_bit high 1 + unat low
                            in if distance > length dst then Inl huff_ErrInvalidOffset
                               else if produced + len > want then Inl huff_ErrInvalidFormat
                               else block_symbols t want (copy_match (length dst - distance) 0 len dst) (produced + len) r
      else Inr (dst, r))"
  by pat_completeness auto
termination by (relation "measure (\<lambda>(_, want, _, produced, _). want - produced)") (auto simp: huff_minMatch_def)

declare block_symbols.simps [simp del]

definition huff_decompressBlock :: "decodeTable \<Rightarrow> bytes \<Rightarrow> bytes \<Rightarrow> nat \<Rightarrow> bool \<Rightarrow> huff_error + bytes \<times> nat" where
  "huff_decompressBlock t src dst want isLast =
     sum_bind (block_symbols t want dst 0 (newReader src)) (\<lambda>(dst, r).
       sum_bind (if isLast
                 then (case symbol t r of None \<Rightarrow> Inl huff_ErrInvalidFormat
                       | Some (sy, r) \<Rightarrow> if sy \<noteq> eofSymbol then Inl huff_ErrInvalidFormat else Inr r)
                 else Inr r) (\<lambda>r.
         let words = (hr_consumed r + 15) div 16 + 1; used = 2 * words + hr_extra r
         in if used > length src then Inl huff_ErrUnexpectedEOF else Inr (dst, used)))"

definition table_lengths :: "bytes \<Rightarrow> byte list" where
  "table_lengths table = concat (map (\<lambda>b. [b AND 0x0f, drop_bit 4 b]) table)"

text \<open>The loop over the blocks: every block adds at least a byte.\<close>

lemma refill_buf [simp]: "hr_buf (refill r) = hr_buf r"
proof (induction r rule: refill.induct)
  case (1 r)
  then show ?case by (subst refill.simps) simp
qed

lemma take_bits_buf: "take_bits n r = (v, r') \<Longrightarrow> hr_buf r' = hr_buf r"
  by (auto simp: take_bits_def skip_def split: if_split_asm)

lemma symbol_loop_buf: "symbol_loop t l code first index r = Some (sy, r') \<Longrightarrow> hr_buf r' = hr_buf r"
proof (induction t l code first index r rule: symbol_loop.induct)
  case (1 t l code first index r)
  obtain b r1 where b: "take_bits 1 r = (b, r1)" by force
  note buf = take_bits_buf[OF b]
  from 1(2) b have l: "l \<le> maxCodeLen" by (subst (asm) symbol_loop.simps) (simp split: if_split_asm)
  show ?case
  proof (cases "int (code OR unat b) - int first < int (dt_count t l)")
    case True
    then show ?thesis using 1(2) b l buf by (subst (asm) symbol_loop.simps) (simp add: Let_def)
  next
    case False
    from 1(1)[OF l b[symmetric] refl refl False] show ?thesis
      using 1(2) b l False buf by (subst (asm) symbol_loop.simps) (simp add: Let_def)
  qed
qed

lemma symbol_buf: "symbol t r = Some (sy, r') \<Longrightarrow> hr_buf r' = hr_buf r"
  unfolding symbol_def by (rule symbol_loop_buf)

lemma read_length_buf: "huff_read_length n r = Inr (m, r') \<Longrightarrow> hr_buf r' = hr_buf r"
  by (auto simp: huff_read_length_def some_or_def sum_bind_Inr huff_readByte_def huff_readUint16_def huff_readUint32_def split: if_split_asm)

lemma block_symbols_result:
  "block_symbols t want dst produced r = Inr (dst', r') \<Longrightarrow> produced \<le> want \<Longrightarrow>
     length dst' = length dst + (want - produced) \<and> hr_buf r' = hr_buf r"
proof (induction t want dst produced r rule: block_symbols.induct)
  case (1 t want dst produced r)
  show ?case
  proof (cases "produced < want")
    case more: True
    from 1(3) more obtain sy r1 where sy: "symbol t r = Some (sy, r1)" "sy \<noteq> eofSymbol"
      by (subst (asm) block_symbols.simps) (auto split: option.split_asm if_split_asm)
    note buf1 = symbol_buf[OF sy(1)]
    show ?thesis
    proof (cases "sy < eofSymbol")
      case True
      then have "block_symbols t want (dst @ [of_nat sy]) (produced + 1) r1 = Inr (dst', r')"
        using 1(3) more sy by (subst (asm) block_symbols.simps) simp
      from 1(1)[OF more sy(1) refl sy(2) True this] show ?thesis using buf1 more by auto
    next
      case False
      let ?h = "drop_bit 4 (sy - eofSymbol)"
      from 1(3) more sy False obtain n r2 where n: "huff_read_length ((sy - eofSymbol) AND 15) r1 = Inr (n, r2)"
        by (subst (asm) block_symbols.simps) (auto split: sum.split_asm)
      obtain low r3 where low: "take_bits ?h r2 = (low, r3)" by force
      let ?d = "push_bit ?h 1 + unat low"
      have c: "\<not> ?d > length dst" "\<not> produced + (n + huff_minMatch) > want"
        and rec: "block_symbols t want (copy_match (length dst - ?d) 0 (n + huff_minMatch) dst) (produced + (n + huff_minMatch)) r3 = Inr (dst', r')"
        using 1(3) more sy False n low by (subst (asm) block_symbols.simps, auto simp: Let_def split: if_split_asm)+
      from 1(2)[OF more sy(1) refl sy(2) False n refl refl refl low[symmetric] refl c rec] show ?thesis
        using c(2) buf1 read_length_buf[OF n] take_bits_buf[OF low] by (simp add: length_copy_match)
    qed
  qed (use 1(3) in \<open>simp add: block_symbols.simps\<close>)
qed

lemma decompressBlock_grows:
  "huff_decompressBlock t src dst want isLast = Inr (dst', used) \<Longrightarrow> length dst' = length dst + want"
  using block_symbols_result[of t want dst 0] by (auto simp: huff_decompressBlock_def sum_bind_Inr Let_def split: if_split_asm)

function huff_Decompress_loop :: "bytes \<Rightarrow> int \<Rightarrow> nat \<Rightarrow> bytes \<Rightarrow> huff_error + bytes" where
  "huff_Decompress_loop src limit pos dst =
     (if int (length dst) < limit then
        if pos + tableSize \<ge> length src then Inl huff_ErrUnexpectedEOF
        else let lengths = table_lengths (take tableSize (drop pos src));
                 want = min (limit - int (length dst)) (int blockSize);
                 isLast = limit - int (length dst) \<le> int blockSize
             in case huff_decompressBlock (newDecodeTable lengths) (drop (pos + tableSize) src) dst (nat want) isLast of
                  Inl e \<Rightarrow> Inl e
                | Inr (out, used) \<Rightarrow> huff_Decompress_loop src limit (pos + tableSize + used) out
      else Inr dst)"
  by pat_completeness auto
termination
  by (relation "measure (\<lambda>(_, limit, _, dst). nat (limit - int (length dst)))")
     (auto simp: blockSize_def dest!: decompressBlock_grows)

declare huff_Decompress_loop.simps [simp del]

definition huff_Decompress :: "bytes \<Rightarrow> int \<Rightarrow> huff_error + bytes" where
  "huff_Decompress src limit =
     (if src = [] then Inr [] else if limit < 0 then Inl huff_ErrInvalidFormat else huff_Decompress_loop src limit 0 [])"

text \<open>What comes out is exactly as long as was asked for.\<close>

lemma huff_Decompress_loop_length:
  "huff_Decompress_loop src limit pos dst = Inr out \<Longrightarrow> int (length dst) \<le> limit \<Longrightarrow> int (length out) = limit"
proof (induction src limit pos dst rule: huff_Decompress_loop.induct)
  case (1 src limit pos dst)
  show ?case
  proof (cases "int (length dst) < limit")
    case more: True
    let ?b = "huff_decompressBlock (newDecodeTable (table_lengths (take tableSize (drop pos src)))) (drop (pos + tableSize) src) dst
      (nat (min (limit - int (length dst)) (int blockSize))) (limit - int (length dst) \<le> int blockSize)"
    from 1(2) more have t: "\<not> pos + tableSize \<ge> length src" by (subst (asm) huff_Decompress_loop.simps) (simp split: if_split_asm)
    with 1(2) more obtain d used where b: "?b = Inr (d, used)"
      by (subst (asm) huff_Decompress_loop.simps) (auto simp: Let_def split: sum.split_asm)
    then have rec: "huff_Decompress_loop src limit (pos + tableSize + used) d = Inr out"
      using 1(2) more t by (subst (asm) huff_Decompress_loop.simps) (simp add: Let_def)
    have "int (length d) \<le> limit" using decompressBlock_grows[OF b] more by simp
    with 1(1)[OF more t refl refl refl b refl rec] show ?thesis by blast
  qed (use 1(2,3) in \<open>simp add: huff_Decompress_loop.simps\<close>)
qed

lemma huff_Decompress_length: "huff_Decompress src limit = Inr out \<Longrightarrow> 0 \<le> limit \<Longrightarrow> int (length out) \<le> limit"
  using huff_Decompress_loop_length[of src limit 0 "[]" out] by (auto simp: huff_Decompress_def split: if_split_asm)

end
