(* ===== verification/Huffman_Bits.thy ===== *)
theory Huffman_Bits
  imports Huffman
begin

section \<open>The bit stream of the Huffman variant\<close>

text \<open>
  What the writer of \<^verbatim>\<open>bits.go\<close> leaves behind, and that the reader takes it apart. A stream is a sequence of bits and of
  runs of plain bytes. Its layout is read off from the front: a word is filled in where its slot was reserved, two
  words ahead of its first bit, and plain bytes stand where the buffer had got to.
\<close>

subsection \<open>Bits and words\<close>

definition nthF :: "bool list \<Rightarrow> nat \<Rightarrow> bool" where
  "nthF T i \<longleftrightarrow> i < length T \<and> T ! i"

lemma nthF_drop: "nthF (drop n T) i = nthF T (n + i)"
  by (auto simp: nthF_def)

lemma nthF_append: "nthF (xs @ ys) i = (if i < length xs then xs ! i else nthF ys (i - length xs))"
  by (auto simp: nthF_def nth_append)

text \<open>Word \<open>k\<close> of a stream of bits, with zeros behind its end.\<close>

definition wd :: "bool list \<Rightarrow> nat \<Rightarrow> u16" where
  "wd T k = horner_sum of_bool 2 (map (\<lambda>j. nthF T (16 * k + 15 - j)) [0..<16])"

lemma bit_wd: "bit (wd T k) j \<longleftrightarrow> j < 16 \<and> nthF T (16 * k + 15 - j)"
  by (auto simp: wd_def bit_horner_sum_bit_word_iff)

lemma wd_drop: "wd (drop 16 T) k = wd T (k + 1)"
  by (rule bit_word_eqI) (simp add: bit_wd nthF_drop)

definition bits_val :: "bool list \<Rightarrow> u32" where
  "bits_val bs = horner_sum of_bool 2 (rev bs)"

definition bits_of :: "nat \<Rightarrow> u32 \<Rightarrow> bool list" where
  "bits_of n v = map (\<lambda>i. bit v (n - 1 - i)) [0..<n]"

lemma length_bits_of [simp]: "length (bits_of n v) = n"
  by (simp add: bits_of_def)

lemma nth_bits_of: "i < n \<Longrightarrow> bits_of n v ! i = bit v (n - 1 - i)"
  by (simp add: bits_of_def)

lemma bit_bits_val: "bit (bits_val bs) j \<longleftrightarrow> j < 32 \<and> j < length bs \<and> bs ! (length bs - 1 - j)"
  by (auto simp: bits_val_def bit_horner_sum_bit_word_iff rev_nth)

lemma bits_val_of: "(\<And>j. n \<le> j \<Longrightarrow> \<not> bit v j) \<Longrightarrow> bits_val (bits_of n v) = v"
proof (rule bit_word_eqI)
  fix j assume a: "\<And>j. n \<le> j \<Longrightarrow> \<not> bit v j" and j: "j < LENGTH(32)"
  show "bit (bits_val (bits_of n v)) j \<longleftrightarrow> bit v j"
  proof (cases "j < n")
    case True
    then show ?thesis using j by (simp add: bit_bits_val nth_bits_of)
  qed (use a in \<open>simp add: bit_bits_val\<close>)
qed

subsection \<open>Layout\<close>

datatype bop = Bit bool | Raw bytes

fun stream_bits :: "bop list \<Rightarrow> bool list" where
  "stream_bits [] = []"
| "stream_bits (Bit b # ops) = b # stream_bits ops"
| "stream_bits (Raw _ # ops) = stream_bits ops"

lemma stream_bits_append [simp]: "stream_bits (xs @ ys) = stream_bits xs @ stream_bits ys"
  by (induction xs rule: stream_bits.induct) simp_all

lemma stream_bits_map [simp]: "stream_bits (map Bit bs) = bs"
  by (induction bs) simp_all

text \<open>What follows the reserved slots, with \<open>c\<close> bits of the current word taken.\<close>

fun slots :: "nat \<Rightarrow> bool list \<Rightarrow> bop list \<Rightarrow> bytes" where
  "slots c T [] = []"
| "slots c T (Raw bs # ops) = bs @ slots c T ops"
| "slots c T (Bit _ # ops) = (if c < 16 then slots (c + 1) T ops else to_le 2 (uint (wd T 2)) @ slots 1 (drop 16 T) ops)"

lemma slots_fit: "c + length bs \<le> 16 \<Longrightarrow> slots c T (map Bit bs @ ops) = slots (c + length bs) T ops"
  by (induction bs arbitrary: c) auto

lemma slots_over:
  assumes "c \<le> 16" "length bs \<le> 16" "16 < c + length bs"
  shows "slots c T (map Bit bs @ ops) = to_le 2 (uint (wd T 2)) @ slots (c + length bs - 16) (drop 16 T) ops"
proof -
  obtain b bs' where d: "drop (16 - c) bs = b # bs'" using assms by (cases "drop (16 - c) bs") auto
  then have "length bs' = length bs - (16 - c) - 1" by (metis length_drop length_Cons diff_Suc_1)
  then have l: "1 + length bs' = c + length bs - 16" using assms by linarith
  have "map Bit bs @ ops = map Bit (take (16 - c) bs) @ Bit b # map Bit bs' @ ops"
    using append_take_drop_id[of "16 - c" bs] unfolding d by (metis append.assoc append_Cons list.simps(9) map_append)
  then have "slots c T (map Bit bs @ ops) = slots 16 T (Bit b # map Bit bs' @ ops)"
    using slots_fit[of c "take (16 - c) bs" T] assms by simp
  also have "\<dots> = to_le 2 (uint (wd T 2)) @ slots 1 (drop 16 T) (map Bit bs' @ ops)" by simp
  also have "slots 1 (drop 16 T) (map Bit bs' @ ops) = slots (c + length bs - 16) (drop 16 T) ops"
    using slots_fit[of 1 bs' "drop 16 T" ops] l assms by simp
  finally show ?thesis .
qed

subsection \<open>What the writer leaves\<close>

datatype wop = WBits nat u32 | WRaw bytes

fun do_op :: "wop \<Rightarrow> huff_writer \<Rightarrow> huff_writer" where
  "do_op (WBits n v) w = writeBits n v w"
| "do_op (WRaw bs) w = w\<lparr>hw_buf := hw_buf w @ bs\<rparr>"

fun bops :: "wop \<Rightarrow> bop list" where
  "bops (WBits n v) = map Bit (bits_of n v)"
| "bops (WRaw bs) = [Raw bs]"

fun wop_ok :: "wop \<Rightarrow> bool" where
  "wop_ok (WBits n v) \<longleftrightarrow> n \<le> 16 \<and> (\<forall>j \<ge> n. \<not> bit v j)"
| "wop_ok (WRaw bs) \<longleftrightarrow> True"

definition winv :: "huff_writer \<Rightarrow> bool list \<Rightarrow> bool" where
  "winv w cur \<longleftrightarrow> length cur \<le> 16 \<and> hw_freeBits w = 16 - length cur
     \<and> (\<forall>j < length cur. bit (hw_next w) j = cur ! (length cur - 1 - j))
     \<and> hw_pos1 w + 2 \<le> hw_pos2 w \<and> hw_pos2 w + 2 \<le> length (hw_buf w) \<and> take 2 (drop (hw_pos2 w) (hw_buf w)) = [0, 0]"

lemma length_put_u16 [simp]: "at + 2 \<le> length b \<Longrightarrow> length (put_u16 at v b) = length b"
  by (simp add: put_u16_def)

lemma put_u16_append: "at + 2 \<le> length b \<Longrightarrow> put_u16 at v (b @ x) = put_u16 at v b @ x"
  by (simp add: put_u16_def)

lemma put_u16_end: "put_u16 (length b) v (b @ [0, 0]) = b @ to_le 2 (uint v)"
  by (simp add: put_u16_def)

lemma put_u16_zero:
  assumes "at + 2 \<le> length b" "take 2 (drop at b) = [0, 0]"
  shows "put_u16 at 0 b = b"
proof -
  have "to_le 2 (uint (0 :: u16)) = [0, 0]" by (simp add: numeral_2_eq_2)
  moreover have "drop at b = [0, 0] @ drop (at + 2) b" using assms(2) append_take_drop_id[of 2 "drop at b"] by (simp add: add.commute)
  ultimately show ?thesis using append_take_drop_id[of at b] unfolding put_u16_def by metis
qed

lemma put_u16_commute:
  assumes "a1 + 2 \<le> a2" "a2 + 2 \<le> length b"
  shows "put_u16 a1 v1 (put_u16 a2 v2 b) = put_u16 a2 v2 (put_u16 a1 v1 b)"
proof -
  obtain x1 y1 x2 y2 z where b: "b = x1 @ y1 @ x2 @ y2 @ z" "length x1 = a1" "length y1 = 2" "a1 + 2 + length x2 = a2" "length y2 = 2"
  proof
    show "b = take a1 b @ take 2 (drop a1 b) @ take (a2 - a1 - 2) (drop (a1 + 2) b) @ take 2 (drop a2 b) @ drop (a2 + 2) b"
    proof -
      have "drop a2 b = take 2 (drop a2 b) @ drop (a2 + 2) b" by (metis add.commute append_take_drop_id drop_drop)
      moreover have "drop (a1 + 2) b = take (a2 - a1 - 2) (drop (a1 + 2) b) @ drop a2 b"
        using assms by (metis append_take_drop_id diff_diff_left drop_drop le_add_diff_inverse2)
      moreover have "drop a1 b = take 2 (drop a1 b) @ drop (a1 + 2) b" by (metis add.commute append_take_drop_id drop_drop)
      ultimately show ?thesis by (metis append_take_drop_id)
    qed
  qed (use assms in simp_all)
  then show ?thesis by (simp add: put_u16_def)
qed

text \<open>Bits that fit into the current word, and bits that complete it.\<close>

lemma writeBits_fit:
  assumes "winv w cur" "length cur + n \<le> 16" "\<forall>j \<ge> n. \<not> bit v j"
  shows "winv (writeBits n v w) (cur @ bits_of n v)" "hw_buf (writeBits n v w) = hw_buf w"
    "hw_pos1 (writeBits n v w) = hw_pos1 w" "hw_pos2 (writeBits n v w) = hw_pos2 w"
proof -
  have n: "hw_freeBits w \<ge> n" using assms(1,2) by (simp add: winv_def)
  have "bit (push_bit n (hw_next w) OR v) j = (cur @ bits_of n v) ! (length (cur @ bits_of n v) - 1 - j)"
    if j: "j < length (cur @ bits_of n v)" for j
  proof (cases "j < n")
    case True
    then have e: "length (cur @ bits_of n v) - 1 - j = length cur + (n - 1 - j)" by simp
    have "(cur @ bits_of n v) ! (length cur + (n - 1 - j)) = bit v j" unfolding nth_append_length_plus using True by (simp add: nth_bits_of)
    then show ?thesis unfolding e using True by (simp only: bit_or_iff bit_push_bit_iff) simp
  next
    case False
    then have "length (cur @ bits_of n v) - 1 - j = length cur - 1 - (j - n)" "j - n < length cur" using j by auto
    moreover have "bit (hw_next w) (j - n) = cur ! (length cur - 1 - (j - n))" using assms(1) calculation(2) by (simp add: winv_def)
    moreover have "length cur - 1 - (j - n) < length cur" using calculation(2) by simp
    ultimately show ?thesis using False j assms(2,3) by (simp add: bit_or_iff bit_push_bit_iff nth_append)
  qed
  then show "winv (writeBits n v w) (cur @ bits_of n v)" using assms n by (cases "n = 0") (simp_all add: winv_def writeBits_def bits_of_def)
  show "hw_buf (writeBits n v w) = hw_buf w" "hw_pos1 (writeBits n v w) = hw_pos1 w" "hw_pos2 (writeBits n v w) = hw_pos2 w"
    using n by (simp_all add: writeBits_def)
qed

lemma writeBits_over:
  assumes "winv w cur" "n \<le> 16" "16 < length cur + n" "\<forall>j \<ge> n. \<not> bit v j"
  defines "w1 \<equiv> writeBits n v w"
  shows "winv w1 (drop (16 - length cur) (bits_of n v))"
    "hw_buf w1 = put_u16 (hw_pos1 w) (wd (cur @ bits_of n v @ rest) 0) (hw_buf w) @ [0, 0]"
    "hw_pos1 w1 = hw_pos2 w" "hw_pos2 w1 = length (hw_buf w)"
proof -
  let ?f = "16 - length cur"
  let ?next = "push_bit ?f (hw_next w) OR drop_bit (n - ?f) v"
  have c: "length cur \<le> 16" "hw_freeBits w = ?f" "\<not> hw_freeBits w \<ge> n" "n \<noteq> 0" using assms(1-3) by (auto simp: winv_def)
  have w1: "w1 = (putWord (ucast ?next) w)\<lparr>hw_freeBits := ?f + (16 - n), hw_next := v\<rparr>"
    using c by (simp add: w1_def writeBits_def Let_def putWord_def)
  have word: "ucast ?next = wd (cur @ bits_of n v @ rest) 0"
  proof (rule bit_word_eqI)
    fix j assume "j < LENGTH(16)"
    then have j: "j < 16" by simp
    show "bit (ucast ?next :: u16) j \<longleftrightarrow> bit (wd (cur @ bits_of n v @ rest) 0) j"
    proof (cases "j < ?f")
      case True
      then have i: "15 - j - length cur < n" "\<not> 15 - j < length cur" "n - 1 - (15 - j - length cur) = n - ?f + j"
        using c(1) assms(2,3) j by auto
      have "bit (wd (cur @ bits_of n v @ rest) 0) j = bit v (n - ?f + j)"
        using i j by (simp add: bit_wd nthF_append nth_bits_of nth_append)
      then show ?thesis using True j by (simp add: bit_ucast_iff bit_or_iff bit_push_bit_iff bit_drop_bit_eq)
    next
      case False
      then have i: "15 - j < length cur" "j - ?f < length cur" "length cur - 1 - (j - ?f) = 15 - j" using c(1) j by auto
      have "bit (hw_next w) (j - ?f) = cur ! (length cur - 1 - (j - ?f))" using assms(1) i(2) by (simp add: winv_def)
      moreover have "\<not> bit v (n - ?f + j)" using assms(3,4) False by simp
      ultimately show ?thesis using i(1,3) False j
        by (simp add: bit_wd nthF_append bit_ucast_iff bit_or_iff bit_push_bit_iff bit_drop_bit_eq)
    qed
  qed
  have p: "hw_pos1 w + 2 \<le> length (hw_buf w)" "hw_pos2 w + 2 \<le> length (hw_buf w)" using assms(1) by (simp_all add: winv_def)
  show "hw_buf w1 = put_u16 (hw_pos1 w) (wd (cur @ bits_of n v @ rest) 0) (hw_buf w) @ [0, 0]"
    "hw_pos1 w1 = hw_pos2 w" "hw_pos2 w1 = length (hw_buf w)"
    by (simp_all add: w1 putWord_def word)
  have "length (drop ?f (bits_of n v)) = n - ?f" by simp
  moreover have "bit v j = drop ?f (bits_of n v) ! (n - ?f - 1 - j)" if "j < n - ?f" for j
  proof -
    have "?f + (n - ?f - 1 - j) = n - 1 - j" "n - 1 - (n - 1 - j) = j" "n - 1 - j < n" using that by auto
    then show ?thesis using nth_bits_of[of "n - 1 - j" n v] by simp
  qed
  ultimately show "winv w1 (drop ?f (bits_of n v))"
    using p c assms(2,3) by (auto simp: winv_def w1 putWord_def)
qed

text \<open>The whole of it, with the slots that are still open filled in.\<close>

lemma written:
  assumes "winv w cur" "list_all wop_ok ops" "T = cur @ stream_bits (concat (map bops ops))"
  shows "huff_flush (fold do_op ops w)
    = put_u16 (hw_pos1 w) (wd T 0) (put_u16 (hw_pos2 w) (wd T 1) (hw_buf w)) @ slots (length cur) T (concat (map bops ops))"
  using assms
proof (induction ops arbitrary: w cur T)
  case Nil
  have c: "length cur \<le> 16" "hw_freeBits w = 16 - length cur" "\<forall>j < length cur. bit (hw_next w) j = cur ! (length cur - 1 - j)"
    using Nil.prems(1) by (simp_all add: winv_def)
  have "\<not> nthF cur (31 - j)" if "j < 16" for j using c(1) that unfolding nthF_def by linarith
  then have "wd cur 1 = 0" by (intro bit_word_eqI) (simp add: bit_wd)
  moreover have "ucast (push_bit (16 - length cur) (hw_next w)) = wd cur 0"
  proof (rule bit_word_eqI)
    fix j assume "j < LENGTH(16)"
    then have j: "j < 16" by simp
    show "bit (ucast (push_bit (16 - length cur) (hw_next w)) :: u16) j \<longleftrightarrow> bit (wd cur 0) j"
    proof (cases "16 - length cur \<le> j")
      case True
      then have "j - (16 - length cur) < length cur" "length cur - 1 - (j - (16 - length cur)) = 15 - j" "15 - j < length cur" using c(1) j by auto
      then show ?thesis using True c(3) j by (simp add: bit_wd nthF_def bit_ucast_iff bit_push_bit_iff)
    next
      case False
      then have "\<not> nthF cur (15 - j)" using j unfolding nthF_def by linarith
      then show ?thesis using False j by (simp add: bit_wd bit_ucast_iff bit_push_bit_iff)
    qed
  qed
  ultimately show ?case using Nil c by (simp add: huff_flush_def winv_def put_u16_zero)
next
  case (Cons x ops)
  have p: "hw_pos1 w + 2 \<le> hw_pos2 w" "hw_pos2 w + 2 \<le> length (hw_buf w)" using Cons.prems(1) by (simp_all add: winv_def)
  let ?ops = "concat (map bops ops)"
  show ?case
  proof (cases x)
    case (WRaw bs)
    have "winv (do_op x w) cur" using Cons.prems(1) WRaw by (auto simp: winv_def)
    from Cons.IH[OF this] show ?thesis using Cons.prems(2,3) WRaw p by (simp add: put_u16_append)
  next
    case (WBits n v)
    then have ok: "n \<le> 16" "\<forall>j \<ge> n. \<not> bit v j" using Cons.prems(2) by simp_all
    show ?thesis
    proof (cases "length cur + n \<le> 16")
      case True
      note f = writeBits_fit[OF Cons.prems(1) True ok(2)]
      show ?thesis using Cons.IH[OF f(1), of T] f(2-4) Cons.prems(2,3) WBits slots_fit[of "length cur" "bits_of n v" T ?ops] True by simp
    next
      case False
      then have over: "16 < length cur + n" by simp
      have c: "length cur \<le> 16" using Cons.prems(1) by (simp add: winv_def)
      let ?T = "drop 16 T"
      have T: "T = cur @ bits_of n v @ stream_bits ?ops" using Cons.prems(3) WBits by simp
      note f = writeBits_over[OF Cons.prems(1) ok(1) over ok(2)]
      note f2 = f(2)[of "stream_bits ?ops", folded T]
      have e: "n - (16 - length cur) = length cur + n - 16" using over c by simp
      have "?T = drop (16 - length cur) (bits_of n v) @ stream_bits ?ops" using over c unfolding T by simp
      from Cons.IH[OF f(1) _ this]
      have "huff_flush (fold do_op (x # ops) w) = put_u16 (hw_pos2 w) (wd T 1)
          (put_u16 (length (hw_buf w)) (wd T 2) (put_u16 (hw_pos1 w) (wd T 0) (hw_buf w) @ [0, 0])) @ slots (length cur + n - 16) ?T ?ops"
        using Cons.prems(2) WBits over by (simp add: f2 f(3,4) wd_drop e numeral_2_eq_2)
      also have "put_u16 (length (hw_buf w)) (wd T 2) (put_u16 (hw_pos1 w) (wd T 0) (hw_buf w) @ [0, 0])
          = put_u16 (hw_pos1 w) (wd T 0) (hw_buf w) @ to_le 2 (uint (wd T 2))"
        using put_u16_end[of "put_u16 (hw_pos1 w) (wd T 0) (hw_buf w)"] p by simp
      finally show ?thesis using p slots_over[OF c, of "bits_of n v" T ?ops] ok(1) over WBits
        put_u16_commute[OF p, of "wd T 0" "wd T 1"] by (simp add: put_u16_append)
    qed
  qed
qed

lemma winv_new: "winv (newWriter b) []"
  by (simp add: winv_def newWriter_def)

lemma stream_written:
  assumes "list_all wop_ok ops" "T = stream_bits (concat (map bops ops))"
  shows "huff_flush (fold do_op ops (newWriter b)) = b @ to_le 2 (uint (wd T 0)) @ to_le 2 (uint (wd T 1)) @ slots 0 T (concat (map bops ops))"
  using written[OF winv_new assms(1), of T b] assms(2) by (simp add: newWriter_def put_u16_def numeral_2_eq_2)

subsection \<open>What the reader takes\<close>

text \<open>
  The reader holds one word less than the writer has reserved before the first bit, and as many from then on. It has
  read \<open>hr_pos\<close> bytes: as many as make up the bits it has used and holds, and the plain ones.
\<close>

definition rinv :: "huff_reader \<Rightarrow> nat \<Rightarrow> bool list \<Rightarrow> bop list \<Rightarrow> bytes \<Rightarrow> bool" where
  "rinv r c T ops tail \<longleftrightarrow> c \<le> 16 \<and> hr_count r = (if c = 0 then 16 else 32 - c) \<and> drop c T = stream_bits ops
     \<and> (\<forall>j < 32. bit (hr_bits r) j \<longleftrightarrow> 31 - j < hr_count r \<and> nthF T (c + (31 - j)))
     \<and> drop (hr_pos r) (hr_buf r) = (if c = 0 then to_le 2 (uint (wd T 1)) else []) @ slots c T ops @ tail
     \<and> hr_pos r \<le> length (hr_buf r)
     \<and> 8 * hr_pos r = hr_consumed r + hr_count r + 8 * hr_extra r \<and> 16 dvd hr_consumed r + hr_count r"

lemma refill_once:
  assumes "hr_count r < 16"
  shows "refill r = r\<lparr>hr_pos := hr_pos r + 2, hr_bits := hr_bits r OR push_bit (16 - hr_count r) (ucast (next_word r)), hr_count := hr_count r + 16\<rparr>"
  using assms by (subst refill.simps, subst refill.simps) simp

lemma next_word_le:
  assumes "drop (hr_pos r) (hr_buf r) = to_le 2 (uint (v :: u16)) @ x"
  shows "next_word r = v" "drop (hr_pos r + 2) (hr_buf r) = x" "hr_pos r + 2 \<le> length (hr_buf r)"
proof -
  have l: "length (drop (hr_pos r) (hr_buf r)) \<ge> 2" unfolding assms by simp
  then show p: "hr_pos r + 2 \<le> length (hr_buf r)" by simp
  have "of_le (to_le 2 (uint v)) = uint v" using uint_lt2p[of v] by (simp add: of_le_to_le)
  then show "next_word r = v" using assms unfolding next_word_def if_P[OF p] by simp
  show "drop (hr_pos r + 2) (hr_buf r) = x" using arg_cong[OF assms, of "drop 2"] by (simp add: add.commute)
qed

lemma skip_over:
  assumes "\<forall>j < 32. bit (hr_bits r) j \<longleftrightarrow> 31 - j < hr_count r \<and> nthF S (31 - j)"
    and "n \<le> hr_count r" "hr_count r < n + 16" "n \<le> 16" "hr_count r \<le> 32"
    and "drop (hr_pos r) (hr_buf r) = to_le 2 (uint (w :: u16)) @ x"
    and "\<And>j. j < 16 \<Longrightarrow> bit w j \<longleftrightarrow> nthF S (hr_count r + 15 - j)"
  defines "r1 \<equiv> skip n r"
  shows "hr_count r1 = hr_count r + 16 - n" "drop (hr_pos r1) (hr_buf r1) = x" "hr_pos r1 = hr_pos r + 2" "hr_buf r1 = hr_buf r"
    "hr_pos r1 \<le> length (hr_buf r1)" "hr_consumed r1 = hr_consumed r + n" "hr_extra r1 = hr_extra r"
    "\<forall>j < 32. bit (hr_bits r1) j \<longleftrightarrow> 31 - j < hr_count r1 \<and> nthF S (n + (31 - j))"
proof -
  let ?r = "r\<lparr>hr_bits := push_bit n (hr_bits r), hr_count := hr_count r - n, hr_consumed := hr_consumed r + n\<rparr>"
  have lt: "hr_count ?r < 16" using assms(2,3) by simp
  have nw: "next_word ?r = w" "drop (hr_pos r + 2) (hr_buf r) = x" "hr_pos r + 2 \<le> length (hr_buf r)"
    using next_word_le[of ?r w x] assms(6) by simp_all
  have r1: "r1 = ?r\<lparr>hr_pos := hr_pos r + 2, hr_bits := push_bit n (hr_bits r) OR push_bit (16 - (hr_count r - n)) (ucast w), hr_count := hr_count r - n + 16\<rparr>"
    unfolding r1_def skip_def refill_once[OF lt] nw by simp
  show "hr_count r1 = hr_count r + 16 - n" "drop (hr_pos r1) (hr_buf r1) = x" "hr_pos r1 = hr_pos r + 2" "hr_buf r1 = hr_buf r"
    "hr_pos r1 \<le> length (hr_buf r1)" "hr_consumed r1 = hr_consumed r + n" "hr_extra r1 = hr_extra r"
    using assms(2) nw by (simp_all add: r1)
  show "\<forall>j < 32. bit (hr_bits r1) j \<longleftrightarrow> 31 - j < hr_count r1 \<and> nthF S (n + (31 - j))"
  proof (intro allI impI)
    fix j :: nat assume j: "j < 32"
    let ?s = "16 - (hr_count r - n)"
    have s: "?s \<le> 16" "hr_count r - n + 16 = 32 - ?s" using assms(2,3) by auto
    have b: "bit (hr_bits r1) j \<longleftrightarrow> (n \<le> j \<and> bit (hr_bits r) (j - n)) \<or> (?s \<le> j \<and> j - ?s < 16 \<and> bit w (j - ?s))"
      using j by (auto simp: r1 bit_or_iff bit_push_bit_iff bit_ucast_iff dest: bit_imp_le_length)
    consider "j < ?s" | "?s \<le> j" "j < ?s + 16" | "?s + 16 \<le> j" by linarith
    then show "bit (hr_bits r1) j \<longleftrightarrow> 31 - j < hr_count r1 \<and> nthF S (n + (31 - j))"
    proof cases
      case 1
      then have "\<not> (n \<le> j \<and> bit (hr_bits r) (j - n))" using assms(1,2) j by auto
      moreover have "\<not> 31 - j < hr_count r1" using 1 s j by (simp add: r1)
      ultimately show ?thesis using 1 b by auto
    next
      case 2
      have "\<not> 31 - (j - n) < hr_count r" if "n \<le> j" using 2 assms(2,3,5) that j by linarith
      then have "\<not> (n \<le> j \<and> bit (hr_bits r) (j - n))" using assms(1) j by auto
      moreover have e: "hr_count r + 15 - (j - ?s) = n + (31 - j)" and lt: "j - ?s < 16" using 2 s(2) assms(2) j by linarith+
      moreover have "bit w (j - ?s) \<longleftrightarrow> nthF S (n + (31 - j))" unfolding e[symmetric] by (rule assms(7)[OF lt])
      moreover have "31 - j < hr_count r1" unfolding r1 using 2 assms(2,3) j by simp
      ultimately show ?thesis using 2(1) b by blast
    next
      case 3
      then have i: "n \<le> j" "31 - (j - n) = n + (31 - j)" "31 - (j - n) < hr_count r" "\<not> j - ?s < 16" "31 - j < hr_count r1"
        using assms(2,5) j by (auto simp: r1)
      then have "bit (hr_bits r) (j - n) = nthF S (n + (31 - j))" using assms(1)[rule_format, of "j - n"] j by simp
      then show ?thesis using i b by simp
    qed
  qed
qed

lemma peek_bits:
  assumes "rinv r c T (map Bit bs @ ops) tail" "1 \<le> length bs" "length bs \<le> 15"
  shows "peek (length bs) r = bits_val bs"
proof (rule bit_word_eqI)
  let ?n = "length bs"
  fix j :: nat assume "j < LENGTH(32)"
  then have j: "j < 32" by simp
  have T: "drop c T = bs @ stream_bits ops" and cnt: "16 \<le> hr_count r" using assms(1) by (auto simp: rinv_def)
  have reg: "\<forall>j < 32. bit (hr_bits r) j \<longleftrightarrow> 31 - j < hr_count r \<and> nthF (drop c T) (31 - j)"
    using assms(1) unfolding rinv_def nthF_drop by blast
  show "bit (peek ?n r) j \<longleftrightarrow> bit (bits_val bs) j"
  proof (cases "j < ?n")
    case True
    have "bit (hr_bits r) (32 - ?n + j) \<longleftrightarrow> 31 - (32 - ?n + j) < hr_count r \<and> nthF (drop c T) (31 - (32 - ?n + j))"
      using reg[rule_format, of "32 - ?n + j"] assms(3) True by simp
    moreover have "31 - (32 - ?n + j) = ?n - 1 - j" "?n - 1 - j < ?n" using True assms(3) by simp_all
    ultimately have "bit (hr_bits r) (32 - ?n + j) \<longleftrightarrow> bs ! (?n - 1 - j)" using cnt assms(3) True T by (simp add: nthF_append)
    then show ?thesis using True j by (simp add: peek_def bit_drop_bit_eq bit_bits_val)
  next
    case False
    then have "\<not> bit (hr_bits r) (32 - ?n + j)" by (auto dest: bit_imp_le_length)
    then show ?thesis using False by (simp add: peek_def bit_drop_bit_eq bit_bits_val)
  qed
qed

lemma take_read:
  assumes "rinv r c T (map Bit bs @ ops) tail" "1 \<le> length bs" "length bs \<le> 15"
  obtains r' c' T' where "take_bits (length bs) r = (bits_val bs, r')" "rinv r' c' T' ops tail" "0 < c'"
proof -
  let ?n = "length bs"
  let ?r = "skip ?n r"
  have t: "take_bits ?n r = (bits_val bs, ?r)" using peek_bits[OF assms] assms(2) unfolding take_bits_def by auto
  have c: "c \<le> 16" and T: "drop c T = bs @ stream_bits ops" and acc: "8 * hr_pos r = hr_consumed r + hr_count r + 8 * hr_extra r" "16 dvd hr_consumed r + hr_count r"
    using assms(1) by (auto simp: rinv_def)
  have reg: "\<forall>j < 32. bit (hr_bits r) j \<longleftrightarrow> 31 - j < hr_count r \<and> nthF (drop c T) (31 - j)"
    using assms(1) unfolding rinv_def nthF_drop by blast
  consider "c = 0" | "0 < c" "c + ?n \<le> 16" | "16 < c + ?n" by linarith
  then show thesis
  proof cases
    case 1
    have cnt: "hr_count r = 16" and d: "drop (hr_pos r) (hr_buf r) = to_le 2 (uint (wd T 1)) @ slots ?n T ops @ tail"
      using assms(1,3) 1 slots_fit[of 0 bs T ops] by (simp_all add: rinv_def)
    note s = skip_over[OF reg _ _ _ _ d, of ?n]
    have "bs \<noteq> []" using assms(2) by auto
    then have "rinv ?r ?n T ops tail" using s 1 cnt assms(3) T acc by (simp add: rinv_def bit_wd nthF_drop)
    then show thesis using that[OF t, of ?n T] assms(2) by linarith
  next
    case 2
    have cnt: "hr_count r = 32 - c" and d: "drop (hr_pos r) (hr_buf r) = slots (c + ?n) T ops @ tail" and p: "hr_pos r \<le> length (hr_buf r)"
      using assms(1) 2 slots_fit[of c bs T ops] by (simp_all add: rinv_def)
    have "\<not> hr_count r - ?n < 16" using cnt 2 by simp
    then have r: "?r = r\<lparr>hr_bits := push_bit ?n (hr_bits r), hr_count := hr_count r - ?n, hr_consumed := hr_consumed r + ?n\<rparr>"
      unfolding skip_def by (subst refill.simps) simp
    have b: "bit (push_bit ?n (hr_bits r)) j \<longleftrightarrow> 31 - j < hr_count r - ?n \<and> nthF T (c + ?n + (31 - j))" if "j < 32" for j
    proof (cases "?n \<le> j")
      case True
      then have "31 - (j - ?n) = ?n + (31 - j)" "?n + (31 - j) < hr_count r \<longleftrightarrow> 31 - j < hr_count r - ?n" using that by auto
      then show ?thesis using True reg[rule_format, of "j - ?n"] that by (simp add: bit_push_bit_iff nthF_drop add.assoc)
    next
      case False
      then have "\<not> 31 - j < hr_count r - ?n" using cnt 2 by simp
      then show ?thesis using False by (simp add: bit_push_bit_iff)
    qed
    have "drop (c + ?n) T = stream_bits ops" using T by (metis append_eq_conv_conj drop_drop add.commute)
    then have "rinv ?r (c + ?n) T ops tail" using b cnt d p acc 2 by (simp add: rinv_def r)
    then show thesis using that[OF t] 2 by simp
  next
    case 3
    then have c0: "0 < c" using assms(3) by simp
    have cnt: "hr_count r = 32 - c" and d: "drop (hr_pos r) (hr_buf r) = to_le 2 (uint (wd T 2)) @ slots (c + ?n - 16) (drop 16 T) ops @ tail"
      using assms(1,3) 3 c0 slots_over[OF c, of bs T ops] by (simp_all add: rinv_def)
    have w: "bit (wd T 2) j \<longleftrightarrow> nthF (drop c T) (hr_count r + 15 - j)" if "j < 16" for j
      using that cnt c by (simp add: bit_wd nthF_drop)
    have pre: "?n \<le> hr_count r" "hr_count r < ?n + 16" "?n \<le> 16" "hr_count r \<le> 32" using cnt 3 assms(3) c by auto
    note s = skip_over[OF reg pre d w]
    have "hr_consumed ?r + hr_count ?r = hr_consumed r + hr_count r + 16" using s(1,6) pre by simp
    then have a: "8 * hr_pos ?r = hr_consumed ?r + hr_count ?r + 8 * hr_extra ?r" "16 dvd hr_consumed ?r + hr_count ?r"
      using s(3,7) acc by simp_all
    have n: "hr_count ?r = 32 - (c + ?n - 16)" "c + ?n - 16 \<noteq> 0" "c + ?n - 16 \<le> 16" using s(1) cnt 3 c assms(3) by auto
    have dr: "drop (c + ?n - 16) (drop 16 T) = stream_bits ops" using T 3 c
      by (metis append_eq_conv_conj drop_drop add.commute le_add_diff_inverse2 less_imp_le)
    have "c + ?n - 16 + (31 - j) + 16 = c + (?n + (31 - j))" for j using 3 by simp
    then have reg': "\<forall>j < 32. bit (hr_bits ?r) j \<longleftrightarrow> 31 - j < hr_count ?r \<and> nthF (drop 16 T) (c + ?n - 16 + (31 - j))"
      using s(8) unfolding nthF_drop by (metis add.commute)
    have "rinv ?r (c + ?n - 16) (drop 16 T) ops tail" unfolding rinv_def using a n dr reg' s(2,5) by simp
    then show thesis using that[OF t] 3 by simp
  qed
qed

lemma drop_k:
  assumes "drop p b = xs @ y" "p \<le> length b"
  shows "p + length xs \<le> length b" "take (length xs) (drop p b) = xs" "drop (p + length xs) b = y"
proof -
  have "length (drop p b) = length xs + length y" unfolding assms(1) by simp
  then show "p + length xs \<le> length b" using assms(2) by simp
  show "take (length xs) (drop p b) = xs" by (simp add: assms(1))
  have "drop (length xs) (drop p b) = y" by (simp add: assms(1))
  then show "drop (p + length xs) b = y" by (simp add: add.commute)
qed

text \<open>Plain bytes are where the reader has got to.\<close>

lemma raw_read:
  assumes "rinv r c T (Raw bs # ops) tail" "0 < c"
  shows "rinv (r\<lparr>hr_pos := hr_pos r + length bs, hr_extra := hr_extra r + length bs\<rparr>) c T ops tail"
    "take (length bs) (drop (hr_pos r) (hr_buf r)) = bs" "hr_pos r + length bs \<le> length (hr_buf r)"
proof -
  have "drop (hr_pos r) (hr_buf r) = bs @ slots c T ops @ tail" "hr_pos r \<le> length (hr_buf r)" using assms by (simp_all add: rinv_def)
  note d = drop_k[OF this]
  show "take (length bs) (drop (hr_pos r) (hr_buf r)) = bs" "hr_pos r + length bs \<le> length (hr_buf r)" using d by blast+
  show "rinv (r\<lparr>hr_pos := hr_pos r + length bs, hr_extra := hr_extra r + length bs\<rparr>) c T ops tail"
    using assms d(1,3) unfolding rinv_def by auto
qed

lemma readByte_read:
  assumes "rinv r c T (Raw [b] # ops) tail" "0 < c"
  obtains r' where "huff_readByte r = Some (b, r')" "rinv r' c T ops tail"
proof -
  note d = raw_read[OF assms]
  have "hr_buf r ! hr_pos r = b" using d(2,3) by (simp add: take_Suc_conv_app_nth)
  then show thesis using that d(1,3) by (simp add: huff_readByte_def)
qed

lemma readUint16_read:
  assumes "rinv r c T (Raw (to_le 2 (uint v)) # ops) tail" "0 < c"
  obtains r' where "huff_readUint16 r = Some (v, r')" "rinv r' c T ops tail"
proof -
  note d = raw_read[OF assms]
  have "of_le (to_le 2 (uint v)) = uint v" using uint_lt2p[of v] by (simp add: of_le_to_le)
  then show thesis using that d by (simp add: huff_readUint16_def)
qed

text \<open>The reader at the start of a stream, and the length of what it has read at the end.\<close>

lemma newReader_inv:
  assumes "T = stream_bits ops" "b = to_le 2 (uint (wd T 0)) @ to_le 2 (uint (wd T 1)) @ slots 0 T ops @ tail"
  shows "rinv (newReader b) 0 T ops tail"
proof -
  let ?r = "\<lparr>hr_buf = b, hr_pos = 0, hr_bits = 0, hr_count = 0, hr_consumed = 0, hr_extra = 0\<rparr>"
  have d: "drop (hr_pos ?r) (hr_buf ?r) = to_le 2 (uint (wd T 0)) @ to_le 2 (uint (wd T 1)) @ slots 0 T ops @ tail" using assms(2) by simp
  note n = next_word_le[OF d]
  have r: "newReader b = \<lparr>hr_buf = b, hr_pos = 2, hr_bits = push_bit 16 (ucast (wd T 0)), hr_count = 16, hr_consumed = 0, hr_extra = 0\<rparr>"
    using refill_once[of ?r] n(1) by (simp add: newReader_def numeral_2_eq_2)
  have "bit (push_bit 16 (ucast (wd T 0)) :: u32) j \<longleftrightarrow> 31 - j < 16 \<and> nthF T (31 - j)" if "j < 32" for j
    using that by (auto simp: bit_push_bit_iff bit_ucast_iff bit_wd)
  then show ?thesis using n(2,3) assms(1) by (simp add: rinv_def r numeral_2_eq_2)
qed

lemma bytes_read:
  assumes "rinv r c T [] tail" "0 < c"
  shows "2 * ((hr_consumed r + 15) div 16 + 1) + hr_extra r = hr_pos r" "drop (hr_pos r) (hr_buf r) = tail"
proof -
  have c: "hr_count r = 32 - c" "c \<le> 16" and acc: "8 * hr_pos r = hr_consumed r + hr_count r + 8 * hr_extra r" "16 dvd hr_consumed r + hr_count r"
    using assms unfolding rinv_def by auto
  from acc(2) obtain k where k: "hr_consumed r + hr_count r = 16 * k" by (elim dvdE)
  have "hr_consumed r + 15 = 16 * (k - 1) + (31 - hr_count r)" "31 - hr_count r < 16" using k c assms(2) by auto
  then have "(hr_consumed r + 15) div 16 = k - 1" by simp
  moreover have "1 \<le> k" using k c by (cases k) simp_all
  ultimately show "2 * ((hr_consumed r + 15) div 16 + 1) + hr_extra r = hr_pos r" using acc(1) k by simp
  show "drop (hr_pos r) (hr_buf r) = tail" using assms by (simp add: rinv_def)
qed

end
