(* ===== verification/Huffman_Codes.thy ===== *)
theory Huffman_Codes
  imports Huffman_Bits
begin

section \<open>Canonical codes are read back\<close>

text \<open>
  \<^verbatim>\<open>canonicalCodes\<close> and \<^verbatim>\<open>newDecodeTable\<close> both start from the lengths alone. With lengths that leave room for each other
  (the sum of Kraft) every symbol has a code that fits into its bits, and reading these bits finds the symbol.
\<close>

definition cnt_of :: "byte list \<Rightarrow> nat \<Rightarrow> nat" where
  "cnt_of ls l = length (filter (\<lambda>x. x > 0 \<and> unat x = l) ls)"

lemma cnt_of_simps [simp]: "cnt_of [] l = 0" "cnt_of (xs @ ys) l = cnt_of xs l + cnt_of ys l"
  "cnt_of [x] l = (if x > 0 \<and> unat x = l then 1 else 0)"
  by (simp_all add: cnt_of_def)

lemma cnt_of_0 [simp]: "cnt_of ls 0 = 0"
  by (simp add: cnt_of_def filter_False word_neq_0_conv[symmetric] unat_eq_zero)

lemma fold_count:
  fixes c0 :: "nat \<Rightarrow> 'a :: semiring_1"
  shows "fold (\<lambda>l c. if l > 0 then c(unat l := c (unat l) + 1) else c) ls c0 k = c0 k + of_nat (cnt_of ls k)"
  by (induction ls arbitrary: c0) (auto simp: cnt_of_def add.assoc)

lemma count_lengths_eq: "count_lengths ls = cnt_of ls"
  using fold_count[of ls "\<lambda>_. 0 :: nat"] by (auto simp: count_lengths_def)

lemma count_codes_eq: "count_codes ls k = of_nat (cnt_of ls k)"
  using fold_count[of ls "\<lambda>_. 0 :: u16"] by (simp add: count_codes_def)

text \<open>The first code of each length, and where the symbols of that length begin.\<close>

fun first_code :: "(nat \<Rightarrow> nat) \<Rightarrow> nat \<Rightarrow> nat" where
  "first_code c 0 = 0"
| "first_code c (Suc l) = 2 * (first_code c l + c l)"

fun first_index :: "(nat \<Rightarrow> nat) \<Rightarrow> nat \<Rightarrow> nat" where
  "first_index c 0 = 0"
| "first_index c (Suc l) = first_index c l + c l"

lemma first_codes_fold:
  assumes "\<And>k. c k = (of_nat (d k) :: u16)" "m \<ge> 1"
  shows "fold (\<lambda>l (code, next). let code = push_bit 1 (code + c (l - 1)) in (code, next(l := code))) [1..<m] (0, \<lambda>_. 0)
    = (of_nat (first_code d (m - 1)), \<lambda>l. if 1 \<le> l \<and> l < m then of_nat (first_code d l) else 0)"
  using assms(2)
proof (induction m rule: nat_induct_at_least)
  case (Suc m)
  obtain k where m: "m = Suc k" using Suc.hyps by (cases m) auto
  have "push_bit 1 (of_nat (first_code d k) + c k) = (of_nat (first_code d m) :: u16)"
    by (simp add: m assms(1) algebra_simps)
  then show ?case using Suc by (auto simp: m Let_def)
qed auto

lemma first_codes_eq: "1 \<le> l \<Longrightarrow> l \<le> 15 \<Longrightarrow> first_codes (count_codes ls) l = of_nat (first_code (cnt_of ls) l)"
  unfolding first_codes_def by (subst first_codes_fold[of _ "cnt_of ls"]) (simp_all add: count_codes_eq maxCodeLen_def)

lemma code_offsets_fold:
  "m \<ge> 1 \<Longrightarrow> c 0 = 0 \<Longrightarrow> fold (\<lambda>l offset. offset(l + 1 := offset l + c l)) [1..<m] (\<lambda>_. 0)
    = (\<lambda>l. if l \<le> m then first_index c l else 0)"
proof (induction m rule: nat_induct_at_least)
  case base
  then show ?case by (auto simp: le_Suc_eq)
next
  case (Suc m)
  then show ?case by (auto simp: le_Suc_eq)
qed

lemma code_offsets_eq: "l \<le> 16 \<Longrightarrow> code_offsets (cnt_of ls) l = first_index (cnt_of ls) l"
  unfolding code_offsets_def by (subst code_offsets_fold) (simp_all add: maxCodeLen_def)

lemma first_index_mono: "i \<le> j \<Longrightarrow> first_index c i \<le> first_index c j"
  by (induction j) (auto simp: le_Suc_eq)

definition code_rank :: "byte list \<Rightarrow> nat \<Rightarrow> nat" where
  "code_rank ls s = cnt_of (take s ls) (unat (ls ! s))"

lemma take_Suc_cnt: "s < length ls \<Longrightarrow> cnt_of (take (Suc s) ls) l = cnt_of (take s ls) l + (if ls ! s > 0 \<and> unat (ls ! s) = l then 1 else 0)"
  by (simp add: take_Suc_conv_app_nth)

lemma cnt_of_take_mono: "m \<le> n \<Longrightarrow> cnt_of (take m ls) l \<le> cnt_of (take n ls) l"
  by (metis cnt_of_simps(2) le_add1 le_add_diff_inverse take_add)

lemma rank_less: "s < m \<Longrightarrow> m \<le> length ls \<Longrightarrow> ls ! s > 0 \<Longrightarrow> code_rank ls s < cnt_of (take m ls) (unat (ls ! s))"
  using take_Suc_cnt[of s ls "unat (ls ! s)"] cnt_of_take_mono[of "Suc s" m ls "unat (ls ! s)"] by (simp add: code_rank_def)

subsection \<open>The codes\<close>

lemma canonical_fold:
  "fold (\<lambda>l (codes, next). if l > 0 then (codes @ [next (unat l)], next(unat l := next (unat l) + 1)) else (codes @ [0], next)) ls ([], f)
    = (map (\<lambda>s. if ls ! s > 0 then f (unat (ls ! s)) + of_nat (code_rank ls s) else (0 :: u16)) [0..<length ls],
       \<lambda>l. f l + of_nat (cnt_of ls l))"
proof (induction ls rule: rev_induct)
  case (snoc x ls)
  have "code_rank (ls @ [x]) s = code_rank ls s" if "s < length ls" for s using that by (simp add: code_rank_def nth_append)
  moreover have "code_rank (ls @ [x]) (length ls) = cnt_of ls (unat x)" by (simp add: code_rank_def)
  ultimately show ?case by (auto simp: snoc nth_append add.assoc)
qed auto

lemma canonicalCodes_eq:
  assumes "s < length ls" "ls ! s > 0" "unat (ls ! s) \<le> 15"
  shows "canonicalCodes ls ! s = of_nat (first_code (cnt_of ls) (unat (ls ! s)) + code_rank ls s)"
proof -
  have "1 \<le> unat (ls ! s)" using assms(2) by (simp add: unat_gt_0 word_neq_0_conv[symmetric] Suc_le_eq)
  then show ?thesis using assms by (simp add: canonicalCodes_def canonical_fold first_codes_eq)
qed

text \<open>Room: the sum of Kraft, in units of the longest code.\<close>

definition kraft :: "byte list \<Rightarrow> nat" where
  "kraft ls = (\<Sum>x\<leftarrow>ls. if x > 0 then 2 ^ (15 - unat x) else 0)"

definition lengths_ok :: "byte list \<Rightarrow> bool" where
  "lengths_ok ls \<longleftrightarrow> list_all (\<lambda>x. unat x \<le> 15) ls \<and> kraft ls \<le> 2 ^ 15"

lemma kraft_counts: "list_all (\<lambda>x. unat x \<le> 15) ls \<Longrightarrow> kraft ls = (\<Sum>k < 16. cnt_of ls k * 2 ^ (15 - k))"
proof (induction ls)
  case (Cons x ls)
  have c: "cnt_of (x # ls) k = cnt_of [x] k + cnt_of ls k" for k using cnt_of_simps(2)[of "[x]" ls k] by simp
  have "(\<Sum>k < 16. cnt_of [x] k * 2 ^ (15 - k)) = (if x > 0 then 2 ^ (15 - unat x) else 0)"
  proof (cases "x > 0")
    case True
    have "unat x < 16" using Cons.prems by simp
    then have "(\<Sum>k < 16. (if unat x = k then 2 ^ (15 - k) else 0)) = (2 :: nat) ^ (15 - unat x)" by (simp add: sum.delta)
    then show ?thesis using True by (simp add: if_distrib[of "\<lambda>n. n * _"] cong: if_cong)
  qed simp
  then show ?case using Cons by (simp add: kraft_def c distrib_right sum.distrib)
qed (simp add: kraft_def)

lemma first_code_sum: "l \<le> 15 \<Longrightarrow> first_code c l * 2 ^ (15 - l) = (\<Sum>k < l. c k * 2 ^ (15 - k))"
proof (induction l)
  case (Suc l)
  then have "15 - l = Suc (15 - Suc l)" by simp
  then have "first_code c (Suc l) * 2 ^ (15 - Suc l) = (first_code c l + c l) * 2 ^ (15 - l)" by simp
  then show ?case using Suc by (simp add: distrib_right)
qed simp

lemma first_code_room:
  assumes "lengths_ok ls" "l \<le> 15"
  shows "first_code (cnt_of ls) l + cnt_of ls l \<le> 2 ^ l"
proof -
  have "(first_code (cnt_of ls) l + cnt_of ls l) * 2 ^ (15 - l) = (\<Sum>k < Suc l. cnt_of ls k * 2 ^ (15 - k))"
    using first_code_sum[OF assms(2)] by (simp add: distrib_right)
  also have "\<dots> \<le> (\<Sum>k < 16. cnt_of ls k * 2 ^ (15 - k))" using assms(2) by (intro sum_mono2) auto
  also have "\<dots> \<le> 2 ^ 15" using assms(1) kraft_counts[of ls] by (simp add: lengths_ok_def)
  also have "\<dots> = 2 ^ l * 2 ^ (15 - l)" using assms(2) by (simp flip: power_add)
  finally show ?thesis by simp
qed

subsection \<open>The table of the decoder\<close>

definition code_place :: "byte list \<Rightarrow> nat \<Rightarrow> nat" where
  "code_place ls s = first_index (cnt_of ls) (unat (ls ! s)) + code_rank ls s"

lemma code_place_less:
  assumes "s < length ls" "ls ! s > 0"
  shows "code_place ls s < first_index (cnt_of ls) (Suc (unat (ls ! s)))"
  using rank_less[of s "length ls" ls] assms by (simp add: code_place_def)

lemma code_place_inj:
  assumes "s < t" "t < length ls" "ls ! s > 0" "ls ! t > 0"
  shows "code_place ls s \<noteq> code_place ls t"
proof (cases "unat (ls ! s)" "unat (ls ! t)" rule: linorder_cases)
  case less
  then have "code_place ls s < first_index (cnt_of ls) (unat (ls ! t))"
    using code_place_less[of s ls] first_index_mono[of "Suc (unat (ls ! s))" "unat (ls ! t)" "cnt_of ls"] assms by simp
  then show ?thesis by (simp add: code_place_def)
next
  case equal
  then show ?thesis using rank_less[of s t ls] assms by (simp add: code_place_def code_rank_def)
next
  case greater
  then have "code_place ls t < first_index (cnt_of ls) (unat (ls ! s))"
    using code_place_less[of t ls] first_index_mono[of "Suc (unat (ls ! t))" "unat (ls ! s)" "cnt_of ls"] assms by simp
  then show ?thesis by (simp add: code_place_def)
qed

lemma symbols_fold:
  assumes "list_all (\<lambda>x. unat x \<le> 15) ls" "m \<le> length ls"
    and "\<And>l. l \<le> 16 \<Longrightarrow> f l = first_index (cnt_of ls) l" "N = first_index (cnt_of ls) 16"
  defines "g \<equiv> fold (\<lambda>(sy, l) (symbols, offset).
      if l > 0 then (symbols[offset (unat l) := sy], offset(unat l := offset (unat l) + 1)) else (symbols, offset))
      (take m (enumerate 0 ls)) (replicate N 0, f)"
  shows "length (fst g) = N \<and> (\<forall>l \<le> 16. snd g l = first_index (cnt_of ls) l + cnt_of (take m ls) l)
    \<and> (\<forall>s < m. ls ! s > 0 \<longrightarrow> fst g ! code_place ls s = s)"
  using assms(2) unfolding g_def
proof (induction m)
  case 0
  then show ?case using assms(3) by simp
next
  case (Suc m)
  let ?step = "\<lambda>(sy, l) (symbols, offset).
      if l > (0 :: byte) then (symbols[offset (unat l) := sy], offset(unat l := offset (unat l) + 1)) else (symbols, offset)"
  obtain symbols offset where g: "fold ?step (take m (enumerate 0 ls)) (replicate N 0, f) = (symbols, offset)" by force
  note IH = Suc.IH[OF Suc_leD[OF Suc.prems], unfolded g fst_conv snd_conv]
  have m: "m < length ls" and l: "unat (ls ! m) \<le> 15" using Suc.prems assms(1) by (auto simp: list_all_length)
  have "take (Suc m) (enumerate 0 ls) = take m (enumerate 0 ls) @ [(m, ls ! m)]"
    using m by (simp add: take_Suc_conv_app_nth nth_enumerate_eq)
  then have g': "fold ?step (take (Suc m) (enumerate 0 ls)) (replicate N 0, f) = ?step (m, ls ! m) (symbols, offset)" using g by simp
  show ?case
  proof (cases "ls ! m > 0")
    case False
    then show ?thesis using IH m unfolding g' by (auto simp: take_Suc_cnt less_Suc_eq)
  next
    case True
    have o: "offset (unat (ls ! m)) = code_place ls m" using IH l by (simp add: code_place_def code_rank_def)
    have "code_place ls m < N"
      using code_place_less[OF m True] first_index_mono[of "Suc (unat (ls ! m))" 16 "cnt_of ls"] l assms(4) by simp
    then have "symbols[code_place ls m := m] ! code_place ls s = s" if "s < Suc m" "ls ! s > 0" for s
      using that IH code_place_inj[of s m ls] m True by (cases "s = m") (auto simp: less_Suc_eq)
    then show ?thesis using IH True l m unfolding g' by (simp add: o take_Suc_cnt) (simp add: code_place_def code_rank_def)
  qed
qed

lemma newDecodeTable_symbols:
  assumes "list_all (\<lambda>x. unat x \<le> 15) ls" "s < length ls" "ls ! s > 0"
  shows "dt_count (newDecodeTable ls) = cnt_of ls" "dt_symbols (newDecodeTable ls) ! code_place ls s = s"
proof -
  have c: "maxCodeLen + 1 = 16" by (simp add: maxCodeLen_def)
  show "dt_count (newDecodeTable ls) = cnt_of ls" by (simp add: newDecodeTable_def Let_def count_lengths_eq)
  have e: "take (length ls) (enumerate 0 ls) = enumerate 0 ls" by simp
  show "dt_symbols (newDecodeTable ls) ! code_place ls s = s"
    using symbols_fold[OF assms(1) order_refl code_offsets_eq refl, unfolded e] assms(2,3)
    unfolding newDecodeTable_def Let_def count_lengths_eq c code_offsets_eq[OF order_refl] by simp
qed

subsection \<open>Reading a code\<close>

lemma first_code_grows: "k < l \<Longrightarrow> (first_code c k + c k) * 2 ^ (l - k) \<le> first_code c l"
proof (induction l)
  case (Suc l)
  show ?case
  proof (cases "k = l")
    case False
    then have "(first_code c k + c k) * 2 ^ (l - k) \<le> first_code c l" using Suc by simp
    moreover have "Suc l - k = Suc (l - k)" using Suc.prems by simp
    ultimately show ?thesis by simp
  qed simp
qed simp

lemma append_bit: "2 * (n div 2 ^ Suc m) OR of_bool (bit n m) = n div 2 ^ m" for n :: nat
proof -
  have "n div 2 ^ m = 2 * (n div 2 ^ m div 2) + of_bool (bit n m)"
    by (cases "bit n m") (simp_all add: bit_iff_odd odd_two_times_div_two_succ)
  moreover have "2 * q OR of_bool b = 2 * q + of_bool b" for q :: nat and b by (cases b) (simp_all add: or_Suc_0_eq)
  moreover have "n div 2 ^ Suc m = n div 2 ^ m div 2" by (metis div_mult2_eq power_Suc2)
  ultimately show ?thesis by metis
qed

lemma unat_bit: "unat (bits_val [b]) = of_bool b"
  by (cases b) (simp_all add: bits_val_def)

lemma symbol_loop_step:
  assumes "l \<le> 15" "take_bits 1 r = (b, r1)" "code OR unat b = code'"
  shows "symbol_loop t l code first index r
    = (if int code' - int first < int (dt_count t l) then Some (dt_symbols t ! (index + code' - first), r1)
       else symbol_loop t (l + 1) (push_bit 1 code') (push_bit 1 (first + dt_count t l)) (index + dt_count t l) r1)"
  using assms by (subst symbol_loop.simps) (simp add: maxCodeLen_def Let_def)

lemma symbol_loop_read:
  assumes "lengths_ok ls" "s < length ls" "ls ! s > 0" "l = unat (ls ! s)" "n = first_code (cnt_of ls) l + code_rank ls s"
    and "1 \<le> k" "k \<le> l" "rinv r c T (map Bit (drop (k - 1) (map (\<lambda>i. bit n (l - 1 - i)) [0..<l])) @ ops) tail"
  shows "\<exists>r' c' T'. symbol_loop (newDecodeTable ls) k (2 * (n div 2 ^ Suc (l - k))) (first_code (cnt_of ls) k) (first_index (cnt_of ls) k) r
      = Some (s, r') \<and> rinv r' c' T' ops tail \<and> 0 < c'"
  using assms(6-8)
proof (induction "l - k" arbitrary: k r c T)
  case hyp: 0
  then have k: "k = l" by simp
  have ok: "list_all (\<lambda>x. unat x \<le> 15) ls" and l15: "l \<le> 15" using assms(1,2,4) by (auto simp: lengths_ok_def list_all_length)
  note t = newDecodeTable_symbols[OF ok assms(2,3)]
  have "drop (k - 1) (map (\<lambda>i. bit n (l - 1 - i)) [0..<l]) = [bit n 0]" using k hyp(2) by (cases l) auto
  then obtain r' c' T' where r': "take_bits 1 r = (bits_val [bit n 0], r')" "rinv r' c' T' ops tail" "0 < c'"
    using hyp(4) take_read[of r c T "[bit n 0]" ops tail] by auto
  have code: "2 * (n div 2 ^ Suc (l - k)) OR unat (bits_val [bit n 0]) = n" using append_bit[of n 0] k by (simp add: unat_bit)
  have rank: "code_rank ls s < cnt_of ls l" using rank_less[of s "length ls" ls] assms(2-4) by simp
  have idx: "first_index (cnt_of ls) k + n - first_code (cnt_of ls) k = code_place ls s"
    unfolding code_place_def assms(5) k assms(4)[symmetric] by simp
  have "symbol_loop (newDecodeTable ls) k (2 * (n div 2 ^ Suc (l - k))) (first_code (cnt_of ls) k) (first_index (cnt_of ls) k) r = Some (s, r')"
    using k rank unfolding symbol_loop_step[OF l15[folded k] r'(1) code] t idx by (simp add: assms(5))
  then show ?case using r'(2,3) by blast
next
  case (Suc d)
  then have k: "k < l" and d: "d = l - Suc k" by simp_all
  have ok: "list_all (\<lambda>x. unat x \<le> 15) ls" and l15: "l \<le> 15" using assms(1,2,4) by (auto simp: lengths_ok_def list_all_length)
  note t = newDecodeTable_symbols[OF ok assms(2,3)]
  let ?bs = "map (\<lambda>i. bit n (l - 1 - i)) [0..<l]" and ?b = "bit n (l - k)"
  have "drop (k - 1) ?bs = ?bs ! (k - 1) # drop (Suc (k - 1)) ?bs" using k Suc.prems(1) by (intro Cons_nth_drop_Suc[symmetric]) simp
  moreover have "?bs ! (k - 1) = ?b" "Suc (k - 1) = Suc k - 1" using k Suc.prems(1) by auto
  ultimately have dr: "map Bit (drop (k - 1) ?bs) @ ops = map Bit [?b] @ (map Bit (drop (Suc k - 1) ?bs) @ ops)" by simp
  obtain r' c' T' where r': "take_bits 1 r = (bits_val [?b], r')" "rinv r' c' T' (map Bit (drop (Suc k - 1) ?bs) @ ops) tail"
    by (rule take_read[OF Suc.prems(3)[unfolded dr]]) simp_all
  have code: "2 * (n div 2 ^ Suc (l - k)) OR unat (bits_val [?b]) = n div 2 ^ (l - k)" unfolding unat_bit by (rule append_bit)
  have "(first_code (cnt_of ls) k + cnt_of ls k) * 2 ^ (l - k) \<le> n" using first_code_grows[OF k] assms(5) by (simp add: le_trans[OF _ le_add1])
  then have "first_code (cnt_of ls) k + cnt_of ls k \<le> n div 2 ^ (l - k)" by (simp add: less_eq_div_iff_mult_less_eq)
  then have "\<not> int (n div 2 ^ (l - k)) - int (first_code (cnt_of ls) k) < int (cnt_of ls k)" by linarith
  moreover have "Suc (l - Suc k) = l - k" using k by simp
  ultimately have step: "symbol_loop (newDecodeTable ls) k (2 * (n div 2 ^ Suc (l - k))) (first_code (cnt_of ls) k) (first_index (cnt_of ls) k) r
      = symbol_loop (newDecodeTable ls) (Suc k) (2 * (n div 2 ^ Suc (l - Suc k))) (first_code (cnt_of ls) (Suc k)) (first_index (cnt_of ls) (Suc k)) r'"
    using l15 k by (subst symbol_loop_step[OF _ r'(1) code]) (simp_all add: t(1) mult.commute)
  show ?case unfolding step by (rule Suc.hyps(1)[OF d _ _ r'(2)]) (use k in simp_all)
qed

lemma code_less:
  assumes "lengths_ok ls" "s < length ls" "ls ! s > 0"
  shows "first_code (cnt_of ls) (unat (ls ! s)) + code_rank ls s < 2 ^ unat (ls ! s)" "unat (ls ! s) \<le> 15"
proof -
  show l: "unat (ls ! s) \<le> 15" using assms by (auto simp: lengths_ok_def list_all_length)
  show "first_code (cnt_of ls) (unat (ls ! s)) + code_rank ls s < 2 ^ unat (ls ! s)"
    using first_code_room[OF assms(1) l] rank_less[of s "length ls" ls] assms(2,3) by simp
qed

lemma code_word:
  assumes "lengths_ok ls" "s < length ls" "ls ! s > 0"
  shows "(ucast (canonicalCodes ls ! s) :: u32) = of_nat (first_code (cnt_of ls) (unat (ls ! s)) + code_rank ls s)"
proof -
  let ?n = "first_code (cnt_of ls) (unat (ls ! s)) + code_rank ls s"
  note l = code_less[OF assms]
  have "(2 :: nat) ^ unat (ls ! s) \<le> 2 ^ 15" using l(2) by (intro power_increasing) auto
  then have "unat (of_nat ?n :: u16) = ?n" using l(1) unfolding unat_of_nat by simp
  then show ?thesis using canonicalCodes_eq[OF assms(2,3) l(2)] by (metis of_nat_unat)
qed

lemma symbol_read:
  assumes "lengths_ok ls" "s < length ls" "ls ! s > 0"
    and "rinv r c T (bops (WBits (unat (ls ! s)) (ucast (canonicalCodes ls ! s))) @ ops) tail"
  obtains r' c' T' where "symbol (newDecodeTable ls) r = Some (s, r')" "rinv r' c' T' ops tail" "0 < c'"
proof -
  let ?l = "unat (ls ! s)"
  let ?n = "first_code (cnt_of ls) ?l + code_rank ls s"
  note l = code_less[OF assms(1-3)]
  have l1: "1 \<le> ?l" using assms(3) by (simp add: unat_gt_0 word_neq_0_conv[symmetric] Suc_le_eq)
  have b: "bits_of ?l (ucast (canonicalCodes ls ! s)) = drop (1 - 1) (map (\<lambda>i. bit ?n (?l - 1 - i)) [0..<?l])"
    using l(2) unfolding code_word[OF assms(1-3)] by (auto simp: bits_of_def bit_of_nat_iff bit_of_nat_iff simp del: of_nat_add)
  have "?n div 2 ^ Suc (?l - 1) = 0" using l(1) l1 by simp
  then show thesis
    using symbol_loop_read[OF assms(1-3) refl refl order_refl l1 assms(4)[unfolded bops.simps b]] that unfolding symbol_def by auto
qed

lemma code_wop_ok:
  assumes "lengths_ok ls" "s < length ls" "ls ! s > 0"
  shows "wop_ok (WBits (unat (ls ! s)) (ucast (canonicalCodes ls ! s)))"
proof -
  let ?n = "first_code (cnt_of ls) (unat (ls ! s)) + code_rank ls s"
  note l = code_less[OF assms]
  have "\<not> bit ?n j" if "unat (ls ! s) \<le> j" for j
  proof -
    have "?n < 2 ^ j" using l(1) that by (meson less_le_trans one_le_numeral power_increasing)
    then show ?thesis by (simp add: bit_iff_odd)
  qed
  then show ?thesis using l(2) unfolding wop_ok.simps code_word[OF assms] by (simp add: bit_of_nat_iff del: of_nat_add)
qed

end
