(* ===== verification/Huffman_Tree.thy ===== *)
theory Huffman_Tree
  imports Huffman_Codes
begin

section \<open>The lengths of the codes\<close>

text \<open>
  The tree of \<^verbatim>\<open>huffmanLengths\<close>, and the loop of \<^verbatim>\<open>codeLengths\<close> that flattens the frequencies until no code is too long.
  Whoever is joined is no heavier than anybody still waiting, so the weight of a tree grows with its height like the
  Fibonacci numbers: neither the depth, which is a byte, nor the sums of the frequencies run over, and a tree that is
  too high is made of frequencies that can be halved. So the loop ends, and what it ends with leaves room.
\<close>

abbreviation wt :: "node \<Rightarrow> nat" where
  "wt n \<equiv> unat (node_freq n)"

fun kids_le :: "node \<Rightarrow> nat \<Rightarrow> bool" where
  "kids_le (Sym _ _) x \<longleftrightarrow> True"
| "kids_le (Joined _ a b) x \<longleftrightarrow> wt a \<le> x \<and> wt b \<le> x"

fun wf_node :: "node \<Rightarrow> bool" where
  "wf_node (Sym f _) \<longleftrightarrow> f > 0"
| "wf_node (Joined f a b) \<longleftrightarrow> wf_node a \<and> wf_node b \<and> unat f = wt a + wt b \<and> kids_le a (wt b) \<and> kids_le b (wt a)"

fun height :: "node \<Rightarrow> nat" where
  "height (Sym _ _) = 0"
| "height (Joined _ a b) = Suc (max (height a) (height b))"

fun fibo :: "nat \<Rightarrow> nat" where
  "fibo 0 = 0"
| "fibo (Suc 0) = 1"
| "fibo (Suc (Suc n)) = fibo n + fibo (Suc n)"

lemma fibo_mono: "m \<le> n \<Longrightarrow> fibo m \<le> fibo n"
proof -
  have "fibo n \<le> fibo (Suc n)" for n by (induction n rule: fibo.induct) auto
  then show "m \<le> n \<Longrightarrow> fibo m \<le> fibo n" by (rule lift_Suc_mono_le)
qed

lemma kids_le_mono: "kids_le n x \<Longrightarrow> x \<le> y \<Longrightarrow> kids_le n y"
  by (cases n) auto

lemma fibo_kid: "wf_node a \<Longrightarrow> height a = Suc h \<Longrightarrow> kids_le a x \<Longrightarrow> (\<And>b. wf_node b \<Longrightarrow> size b < size a \<Longrightarrow> fibo (height b + 2) \<le> wt b) \<Longrightarrow> fibo (h + 2) \<le> x"
proof (cases a)
  case (Joined f b c)
  assume a: "wf_node a" "height a = Suc h" "kids_le a x" and w: "\<And>b. wf_node b \<Longrightarrow> size b < size a \<Longrightarrow> fibo (height b + 2) \<le> wt b"
  have "fibo (height b + 2) \<le> x" "fibo (height c + 2) \<le> x" using a w[of b] w[of c] Joined by auto
  moreover have "h = height b \<or> h = height c" using a(2) Joined by (auto simp: max_def)
  ultimately show ?thesis by auto
qed simp

lemma weight_by_height: "wf_node n \<Longrightarrow> fibo (height n + 2) \<le> wt n"
proof (induction "size n" arbitrary: n rule: less_induct)
  case less
  show ?case
  proof (cases n)
    case (Sym f s)
    then show ?thesis using less.prems by (simp add: numeral_2_eq_2 Suc_le_eq unat_gt_0 word_neq_0_conv[symmetric])
  next
    case (Joined f a b)
    have w: "fibo (height x + 2) \<le> wt x" if "wf_node x" "size x < size n" for x using less.hyps that by blast
    have ab: "wf_node a" "wf_node b" "unat f = wt a + wt b" "kids_le a (wt b)" "kids_le b (wt a)" using less.prems Joined by simp_all
    have wab: "fibo (height a + 2) \<le> wt a" "fibo (height b + 2) \<le> wt b" using w[of a] w[of b] ab Joined by simp_all
    have one: "1 \<le> wt a" "1 \<le> wt b" using wab fibo_mono[of 1 "height a + 2"] fibo_mono[of 1 "height b + 2"] by simp_all
    have grow: "fibo (Suc (height x) + 2) \<le> wt x + y" if "wf_node x" "size x < size n" "kids_le x y" "1 \<le> y" for x y
    proof (cases "height x")
      case 0
      then show ?thesis using w[OF that(1,2)] that(4) by (simp add: numeral_2_eq_2)
    next
      case (Suc h)
      have "fibo (h + 2) \<le> y" by (rule fibo_kid[OF that(1) Suc that(3)]) (use w that(2) in auto)
      then show ?thesis using w[OF that(1,2)] Suc by (simp add: numeral_2_eq_2)
    qed
    show ?thesis
    proof (cases "height b \<le> height a")
      case True
      then show ?thesis using grow[OF ab(1) _ ab(4) one(2)] ab(3) Joined by (simp add: max_absorb1)
    next
      case False
      then show ?thesis using grow[OF ab(2) _ ab(5) one(1)] ab(3) Joined by (simp add: max_absorb2 add.commute)
    qed
  qed
qed

subsection \<open>Joining\<close>

fun leaves :: "node \<Rightarrow> nat \<Rightarrow> (nat \<times> nat) list" where
  "leaves (Sym _ s) d = [(s, d)]"
| "leaves (Joined _ a b) d = leaves a (d + 1) @ leaves b (d + 1)"

definition symbols_of :: "node \<Rightarrow> nat list" where
  "symbols_of n = map fst (leaves n 0)"

lemma map_fst_leaves: "map fst (leaves n d) = symbols_of n"
  unfolding symbols_of_def by (induction n arbitrary: d) (simp_all, metis)

lemma symbols_of_simps [simp]: "symbols_of (Sym f s) = [s]" "symbols_of (Joined f a b) = symbols_of a @ symbols_of b"
  unfolding symbols_of_def[of "Sym f s"] symbols_of_def[of "Joined f a b"] by (simp_all add: map_fst_leaves)

definition live_ok :: "node list \<Rightarrow> bool" where
  "live_ok live \<longleftrightarrow> sorted (map wt live) \<and> (\<forall>n \<in> set live. wf_node n \<and> (\<forall>x \<in> set live. kids_le n (wt x)))"

lemma sum_list_take_drop_While: "sum_list (map f (takeWhile P xs)) + sum_list (map f (dropWhile P xs)) = sum_list (map f xs)" for f :: "_ \<Rightarrow> nat"
  by (metis map_append sum_list_append takeWhile_dropWhile_id)

lemma put_back_set: "set (put_back n live) = insert n (set live)"
  unfolding put_back_def by (auto dest: set_takeWhileD set_dropWhileD) (metis Un_iff set_append takeWhile_dropWhile_id)

lemma put_back_mset: "mset (put_back n live) = add_mset n (mset live)"
  unfolding put_back_def by simp (metis mset_append takeWhile_dropWhile_id)

lemma put_back_sorted:
  assumes "sorted (map wt live)"
  shows "sorted (map wt (put_back n live))"
proof -
  let ?P = "\<lambda>x. \<not> node_freq x \<ge> node_freq n"
  have "sorted (map wt (takeWhile ?P live))" "sorted (map wt (dropWhile ?P live))"
    using assms by (metis map_append sorted_append takeWhile_dropWhile_id)+
  moreover have "wt n \<le> wt x" if "x \<in> set (dropWhile ?P live)" for x
  proof -
    have "dropWhile ?P live \<noteq> []" using that by (metis empty_iff list.set(1))
    then have "node_freq (hd (dropWhile ?P live)) \<ge> node_freq n" using hd_dropWhile[of ?P live] by simp
    moreover have "wt (hd (dropWhile ?P live)) \<le> wt x"
      using \<open>sorted (map wt (dropWhile ?P live))\<close> that by (cases "dropWhile ?P live") auto
    ultimately show ?thesis by (simp add: word_le_nat_alt)
  qed
  moreover have "wt x \<le> wt n" if "x \<in> set (takeWhile ?P live)" for x
    using set_takeWhileD[OF that] by (simp add: word_le_nat_alt)
  ultimately show ?thesis unfolding put_back_def by (auto simp: sorted_append intro: order_trans)
qed

lemma join_live_tree:
  assumes "live_ok live" "live \<noteq> []" "sum_list (map wt live) < 2 ^ 32"
  shows "\<exists>t. join_live live = [t] \<and> wf_node t \<and> wt t = sum_list (map wt live) \<and> mset (symbols_of t) = mset (concat (map symbols_of live))
    \<and> (length live \<ge> 2 \<longrightarrow> height t > 0)"
  using assms
proof (induction "length live" arbitrary: live rule: less_induct)
  case less
  show ?case
  proof (cases live)
    case Nil
    then show ?thesis using less.prems by simp
  next
    case (Cons a rest')
    show ?thesis
    proof (cases rest')
      case Nil
      then show ?thesis using less.prems Cons by (subst join_live.simps) (auto simp: live_ok_def)
    next
      case (Cons b rest)
      let ?J = "Joined (node_freq a + node_freq b) a b"
      let ?L = "put_back ?J rest"
      have l: "live = a # b # rest" using Cons \<open>live = a # rest'\<close> by simp
      have s: "wt a + wt b + sum_list (map wt rest) = sum_list (map wt live)" by (simp add: l)
      then have J: "wt ?J = wt a + wt b" using less.prems(3) by (simp add: unat_add_nowrap unat_word_ariths)
      have ok: "wf_node a" "wf_node b" "kids_le a (wt b)" "kids_le b (wt a)" "\<forall>x \<in> set rest. wt a \<le> wt x \<and> wt b \<le> wt x"
        using less.prems(1) by (auto simp: live_ok_def l)
      have "wf_node ?J" using ok J by simp
      moreover have "kids_le n (wt x)" if "n \<in> set ?L" "x \<in> set ?L" for n x
      proof -
        have "kids_le m (wt a)" if "m \<in> set rest" for m using less.prems(1) that by (auto simp: live_ok_def l)
        moreover have "kids_le m (wt y)" if "m \<in> set rest" "y \<in> set rest" for m y using less.prems(1) that by (auto simp: live_ok_def l)
        ultimately show ?thesis using that ok(5) J unfolding put_back_set
          by (auto intro: kids_le_mono[of _ "wt a"])
      qed
      moreover have "sorted (map wt rest)" using less.prems(1) by (simp add: live_ok_def l)
      ultimately have L: "live_ok ?L"
        using less.prems(1) put_back_sorted[of rest ?J] by (auto simp: live_ok_def l put_back_set)
      have m: "mset (map wt ?L) = mset (map wt (?J # rest))" by (simp add: put_back_mset)
      have "sum_list (map wt ?L) = sum_list (map wt (?J # rest))" by (subst (1 2) sum_mset_sum_list[symmetric]) (simp only: m)
      then have sL: "sum_list (map wt ?L) = sum_list (map wt live)" using J s by simp
      have "mset (concat (map symbols_of ?L)) = mset (concat (map symbols_of (?J # rest)))"
        by (simp add: mset_concat put_back_mset flip: sum_mset_sum_list)
      also have "\<dots> = mset (concat (map symbols_of live))" by (simp add: l)
      finally have mL: "mset (concat (map symbols_of ?L)) = mset (concat (map symbols_of live))" .
      have j: "join_live live = join_live ?L" by (subst join_live.simps) (simp add: l)
      have ne: "?L \<noteq> []" by (simp add: put_back_def)
      obtain t where t: "join_live ?L = [t]" "wf_node t" "wt t = sum_list (map wt ?L)" "mset (symbols_of t) = mset (concat (map symbols_of ?L))"
        "length ?L \<ge> 2 \<longrightarrow> height t > 0"
        using less.hyps[OF _ L _ ] less.prems(3) sL ne by (auto simp: l)
      have "height t > 0"
      proof (cases rest)
        case Nil
        then have "join_live ?L = [?J]" by (subst join_live.simps) (simp add: put_back_def)
        then show ?thesis using t(1) by auto
      qed (use t(5) in simp)
      then show ?thesis using t sL mL j by auto
    qed
  qed
qed

subsection \<open>The lengths of a tree\<close>

lemma leaf_depth: "(s, e) \<in> set (leaves n d) \<Longrightarrow> d \<le> e \<and> e \<le> d + height n \<and> (height n > 0 \<longrightarrow> d < e)"
proof (induction n arbitrary: d)
  case (Joined f a b)
  then show ?case by (force simp: max_def)
qed simp

lemma deepest_leaf: "\<exists>s. (s, d + height n) \<in> set (leaves n d)"
proof (induction n arbitrary: d)
  case (Joined f a b)
  show ?case using Joined(1)[of "d + 1"] Joined(2)[of "d + 1"] by (cases "height a \<le> height b") (auto simp: max_def)
qed simp

lemma leaves_kraft: "d + height n \<le> 15 \<Longrightarrow> (\<Sum>(s, e)\<leftarrow>leaves n d. 2 ^ (15 - e)) = (2 :: nat) ^ (15 - d)"
proof (induction n arbitrary: d)
  case (Joined f a b)
  have "15 - d = Suc (15 - (d + 1))" using Joined.prems by simp
  then show ?case using Joined by simp
qed simp

definition set_lengths :: "(nat \<times> nat) list \<Rightarrow> byte list \<Rightarrow> byte list" where
  "set_lengths xs ls = fold (\<lambda>(s, e) ls. ls[s := of_nat e]) xs ls"

lemma depth_sets: "depth n (of_nat d) ls = set_lengths (leaves n d) ls"
proof (induction n arbitrary: d ls)
  case (Joined f a b)
  show ?case using Joined[of "d + 1"] by (simp add: set_lengths_def add.commute)
qed (simp add: set_lengths_def)

lemma length_set_lengths [simp]: "length (set_lengths xs ls) = length ls"
  unfolding set_lengths_def by (induction xs arbitrary: ls) auto

lemma set_lengths_nth:
  "distinct (map fst xs) \<Longrightarrow> s < length ls \<Longrightarrow>
     set_lengths xs ls ! s = (case map_of xs s of None \<Rightarrow> ls ! s | Some e \<Rightarrow> of_nat e)"
proof (induction xs arbitrary: ls)
  case (Cons x xs)
  obtain t e where x: "x = (t, e)" by force
  have "set_lengths (x # xs) ls = set_lengths xs (ls[t := of_nat e])" by (simp add: set_lengths_def x)
  moreover have "map_of xs t = None" using Cons.prems x by (simp add: map_of_eq_None_iff)
  ultimately show ?case using Cons x by (auto split: option.split)
qed (simp add: set_lengths_def)

lemma kraft_update: "s < length ls \<Longrightarrow> ls ! s = 0 \<Longrightarrow> kraft (ls[s := v]) = kraft ls + (if v > 0 then 2 ^ (15 - unat v) else 0)"
  unfolding kraft_def map_update by (subst sum_list_update) simp_all

lemma kraft_set_lengths:
  "distinct (map fst xs) \<Longrightarrow> (\<forall>(s, e) \<in> set xs. s < length ls \<and> ls ! s = 0 \<and> 0 < e \<and> e < 256)
    \<Longrightarrow> kraft (set_lengths xs ls) = kraft ls + (\<Sum>(s, e)\<leftarrow>xs. 2 ^ (15 - e))"
proof (induction xs arbitrary: ls)
  case (Cons x xs)
  obtain t e where x: "x = (t, e)" by force
  have e: "unat (of_nat e :: byte) = e" "(of_nat e :: byte) > 0" "t < length ls" "ls ! t = 0"
    using Cons.prems(2) x by (auto simp: unat_of_nat word_less_nat_alt)
  have "\<forall>(s, e) \<in> set xs. s < length (ls[t := of_nat e]) \<and> ls[t := of_nat e] ! s = 0 \<and> 0 < e \<and> e < 256"
    using Cons.prems x by (force simp: nth_list_update)
  then have "\<forall>(s, e') \<in> set xs. s < length (ls[t := of_nat e]) \<and> ls[t := of_nat e] ! s = 0 \<and> 0 < e' \<and> e' < 256"
    using Cons.prems x by (force simp: nth_list_update)
  then have "kraft (set_lengths xs (ls[t := of_nat e])) = kraft (ls[t := of_nat e]) + (\<Sum>(s, e)\<leftarrow>xs. 2 ^ (15 - e))"
    using Cons by simp
  then show ?case using e kraft_update[of t ls "of_nat e"] by (simp add: set_lengths_def x)
qed (simp add: set_lengths_def)

lemma longest_le: "unat (longest ls) \<le> m \<longleftrightarrow> (\<forall>x \<in> set ls. unat x \<le> m)"
proof -
  have "unat (foldl (\<lambda>m l. if l > m then l else m) m0 ls) \<le> m \<longleftrightarrow> unat m0 \<le> m \<and> (\<forall>x \<in> set ls. unat x \<le> m)" for m0 :: byte
    by (induction ls arbitrary: m0) (auto simp: word_less_nat_alt not_less intro: order_trans)
  from this[of 0] show ?thesis by (simp add: longest_def)
qed

subsection \<open>The lengths of the frequencies\<close>

lemma live_symbols_snoc: "live_symbols (freq @ [f]) = live_symbols freq @ (if f > 0 then [Sym f (length freq)] else [])"
  by (simp add: live_symbols_def enumerate_append_eq)

lemma live_symbols_facts:
  "concat (map symbols_of (live_symbols freq)) = filter (\<lambda>s. freq ! s > 0) [0..<length freq]"
  "\<forall>n \<in> set (live_symbols freq). wf_node n \<and> (\<forall>x. kids_le n x)"
  "sum_list (map wt (live_symbols freq)) = sum_list (map unat freq)"
proof (induction freq rule: rev_induct)
  case (snoc f freq)
  have "filter (\<lambda>s. (freq @ [f]) ! s > 0) [0..<length freq] = filter (\<lambda>s. freq ! s > 0) [0..<length freq]"
    by (rule filter_cong) (auto simp: nth_append)
  with snoc show "concat (map symbols_of (live_symbols (freq @ [f]))) = filter (\<lambda>s. (freq @ [f]) ! s > 0) [0..<length (freq @ [f])]"
    "\<forall>n \<in> set (live_symbols (freq @ [f])). wf_node n \<and> (\<forall>x. kids_le n x)"
    "sum_list (map wt (live_symbols (freq @ [f]))) = sum_list (map unat (freq @ [f]))"
    by (auto simp: live_symbols_snoc word_neq_0_conv[symmetric] not_less)
qed (simp_all add: live_symbols_def)

lemma sorted_wt: "sorted (map node_freq xs) \<Longrightarrow> sorted (map wt xs)"
  by (induction xs) (auto simp: word_le_nat_alt)

lemma huffmanLengths_tree:
  assumes "length (live_symbols freq) \<ge> 2" "sum_list (map unat freq) < 2 ^ 32"
  obtains t where "huffmanLengths freq = set_lengths (leaves t 0) (replicate symbolCount 0)" "wf_node t" "wt t = sum_list (map unat freq)"
    "mset (symbols_of t) = mset (filter (\<lambda>s. freq ! s > 0) [0..<length freq])" "height t > 0"
proof -
  let ?live = "sort_key node_freq (live_symbols freq)"
  note f = live_symbols_facts[of freq]
  have "live_ok ?live" using f(2) by (auto simp: live_ok_def intro: sorted_wt)
  moreover have "sum_list (map wt ?live) = sum_list (map unat freq)"
    unfolding f(3)[symmetric] by (subst (1 2) sum_mset_sum_list[symmetric]) simp
  moreover have "?live \<noteq> []" "2 \<le> length ?live" using assms(1) by (auto simp flip: length_0_conv)
  ultimately obtain t where t: "join_live ?live = [t]" "wf_node t" "wt t = sum_list (map unat freq)"
    "mset (symbols_of t) = mset (concat (map symbols_of ?live))" "height t > 0"
    using join_live_tree[of ?live] assms(2) by auto
  have "mset (concat (map symbols_of ?live)) = mset (filter (\<lambda>s. freq ! s > 0) [0..<length freq])"
    unfolding f(1)[symmetric] by (simp add: mset_concat flip: sum_mset_sum_list)
  moreover have "huffmanLengths freq = depth (hd (join_live ?live)) 0 (replicate symbolCount 0)"
    using assms(1) by (auto simp: huffmanLengths_def Let_def split: list.split)
  ultimately show thesis using that t depth_sets[of t 0] by simp
qed

lemma fibo_limits: "fibo 60 > 2 ^ 32" "fibo 18 = 2584"
proof -
  have step: "fibo (n + 2) = fibo n + fibo (n + 1)" for n by simp
  have a: "fibo 10 = 55" "fibo 11 = 89" by (simp_all add: eval_nat_numeral)
  have b: "fibo 12 = 144" "fibo 13 = 233" using step[of 10] step[of 11] a by simp_all
  have c: "fibo 14 = 377" "fibo 15 = 610" using step[of 12] step[of 13] b by simp_all
  have d: "fibo 16 = 987" "fibo 17 = 1597" using step[of 14] step[of 15] c by simp_all
  have e: "fibo 18 = 2584" "fibo 19 = 4181" using step[of 16] step[of 17] d by simp_all
  show "fibo 18 = 2584" by (rule e)
  have dbl: "2 * fibo n \<le> fibo (n + 2)" for n using fibo_mono[of n "n + 1"] by simp
  have "2 ^ k * fibo n \<le> fibo (n + 2 * k)" for k n
  proof (induction k)
    case (Suc k)
    have "fibo (n + 2 * Suc k) = fibo (n + 2 * k + 2)" by simp
    then show ?case using dbl[of "n + 2 * k"] Suc by simp
  qed simp
  from this[of 21 18] show "fibo 60 > 2 ^ 32" by (simp add: e)
qed

definition covers :: "u32 list \<Rightarrow> byte list \<Rightarrow> bool" where
  "covers freq ls \<longleftrightarrow> length ls = symbolCount \<and> (\<forall>s < symbolCount. ls ! s > 0 \<longleftrightarrow> freq ! s > 0)"

lemma tree_lengths:
  assumes "wf_node t" "wt t < 2 ^ 32" "height t > 0" "length freq = symbolCount"
    and "mset (symbols_of t) = mset (filter (\<lambda>s. freq ! s > 0) [0..<length freq])"
  defines "ls \<equiv> set_lengths (leaves t 0) (replicate symbolCount 0)"
  shows "covers freq ls" "\<forall>x \<in> set ls. unat x \<le> height t" "\<exists>x \<in> set ls. unat x = height t" "height t \<le> 15 \<Longrightarrow> kraft ls = 2 ^ 15"
proof -
  have m: "map fst (leaves t 0) = symbols_of t" by (rule map_fst_leaves)
  have d: "distinct (map fst (leaves t 0))" unfolding m using mset_eq_imp_distinct_iff[OF assms(5)] by simp
  have st: "set (map fst (leaves t 0)) = {s. s < symbolCount \<and> freq ! s > 0}"
    unfolding m using mset_eq_setD[OF assms(5)] assms(4) by auto
  have "height t + 2 < 60"
  proof (rule ccontr)
    assume "\<not> height t + 2 < 60"
    then have "fibo 60 \<le> fibo (height t + 2)" by (intro fibo_mono) simp
    also have "\<dots> \<le> wt t" by (rule weight_by_height[OF assms(1)])
    finally show False using fibo_limits(1) assms(2) by simp
  qed
  then have dep: "0 < e \<and> e \<le> height t \<and> e < 256" if "(s, e) \<in> set (leaves t 0)" for s e
    using leaf_depth[OF that] assms(3) by simp
  have nth: "ls ! s = (case map_of (leaves t 0) s of None \<Rightarrow> 0 | Some e \<Rightarrow> of_nat e)" if "s < symbolCount" for s
    using set_lengths_nth[OF d, of s "replicate symbolCount 0"] that by (simp add: ls_def cong: option.case_cong)
  have un: "unat (of_nat e :: byte) = e" if "e < 256" for e using that by (simp add: unat_of_nat)
  have "unat (ls ! s) \<le> height t \<and> (ls ! s > 0 \<longleftrightarrow> freq ! s > 0)" if s: "s < symbolCount" for s
  proof (cases "map_of (leaves t 0) s")
    case None
    then have "\<not> freq ! s > 0" using st s by (auto simp: map_of_eq_None_iff)
    moreover have "ls ! s = 0" using nth[OF s] None by simp
    ultimately show ?thesis by simp
  next
    case (Some e)
    then have i: "(s, e) \<in> set (leaves t 0)" by (rule map_of_SomeD)
    then have "freq ! s > 0" using st by force
    then show ?thesis using dep[OF i] un[of e] nth[OF s] Some by (simp add: word_less_nat_alt)
  qed
  then show "covers freq ls" "\<forall>x \<in> set ls. unat x \<le> height t" by (auto simp: covers_def ls_def all_set_conv_all_nth)
  have len: "length ls = symbolCount" by (simp add: ls_def)
  obtain s where s: "(s, height t) \<in> set (leaves t 0)" using deepest_leaf[of 0 t] by auto
  then have "s < symbolCount" "map_of (leaves t 0) s = Some (height t)" using st d by (force, simp add: map_of_is_SomeI)
  then show "\<exists>x \<in> set ls. unat x = height t" using nth[of s] un[of "height t"] dep[OF s] nth_mem[of s ls]
    by (intro bexI[of _ "ls ! s"]) (simp_all add: len)
  assume "height t \<le> 15"
  moreover have "\<forall>(s, e) \<in> set (leaves t 0). s < length (replicate symbolCount (0 :: byte)) \<and> replicate symbolCount 0 ! s = (0 :: byte) \<and> 0 < e \<and> e < 256"
  proof clarify
    fix s e assume i: "(s, e) \<in> set (leaves t 0)"
    then have "s \<in> set (map fst (leaves t 0))" by (metis fst_conv imageI set_map)
    then have "s < symbolCount" unfolding st by simp
    then show "s < length (replicate symbolCount (0 :: byte)) \<and> replicate symbolCount 0 ! s = (0 :: byte) \<and> 0 < e \<and> e < 256"
      using dep[OF i] by simp
  qed
  ultimately show "kraft ls = 2 ^ 15"
    using kraft_set_lengths[OF d, of "replicate symbolCount 0"] leaves_kraft[of 0 t] by (simp add: ls_def kraft_def sum_list_replicate)
qed

lemma live_symbols_Sym: "n \<in> set (live_symbols freq) \<Longrightarrow> \<exists>f s. n = Sym f s"
  by (auto simp: live_symbols_def)

lemma huffmanLengths_ok:
  assumes "length freq = symbolCount" "sum_list (map unat freq) < 2 ^ 32"
  shows "covers freq (huffmanLengths freq)" "unat (longest (huffmanLengths freq)) \<le> 15 \<Longrightarrow> lengths_ok (huffmanLengths freq)"
    "\<not> unat (longest (huffmanLengths freq)) \<le> 15 \<Longrightarrow> 2584 \<le> sum_list (map unat freq)"
proof -
  note f = live_symbols_facts[of freq]
  have z: "kraft (replicate symbolCount 0) = 0" by (simp add: kraft_def)
  have "covers freq (huffmanLengths freq) \<and> (unat (longest (huffmanLengths freq)) \<le> 15 \<longrightarrow> lengths_ok (huffmanLengths freq))
    \<and> (\<not> unat (longest (huffmanLengths freq)) \<le> 15 \<longrightarrow> 2584 \<le> sum_list (map unat freq))"
  proof (cases "live_symbols freq" rule: list.exhaust[case_names Nil Cons])
    case Nil
    then have "huffmanLengths freq = replicate symbolCount 0" "filter (\<lambda>s. freq ! s > 0) [0..<length freq] = []"
      using f(1) by (simp_all add: huffmanLengths_def Let_def)
    then show ?thesis using assms(1) z by (auto simp: covers_def lengths_ok_def longest_le list_all_length filter_empty_conv)
  next
    case (Cons n rest)
    show ?thesis
    proof (cases rest)
      case Nil
      obtain fr s where n: "n = Sym fr s" using live_symbols_Sym[of n freq] Cons by auto
      then have fl: "filter (\<lambda>s. freq ! s > 0) [0..<length freq] = [s]" using f(1) Cons Nil by simp
      then have s: "s < symbolCount" "\<And>x. x < symbolCount \<Longrightarrow> freq ! x > 0 \<longleftrightarrow> x = s"
        using assms(1) by (auto dest!: arg_cong[of _ _ set])
      have h: "huffmanLengths freq = (replicate symbolCount 0)[s := 1]" using Cons Nil n by (simp add: huffmanLengths_def Let_def)
      have "kraft (huffmanLengths freq) = 2 ^ 14" unfolding h using kraft_update[of s "replicate symbolCount 0" 1] s(1) z by simp
      moreover have "\<forall>x \<in> set (huffmanLengths freq). unat x \<le> 15" unfolding h using set_update_subset_insert[of "replicate symbolCount 0" s "1 :: byte"] by force
      ultimately show ?thesis using s by (auto simp: covers_def lengths_ok_def longest_le list_all_iff h nth_list_update)
    next
      case more: (Cons n2 rest2)
      then have "length (live_symbols freq) \<ge> 2" using Cons by simp
      then obtain t where t: "huffmanLengths freq = set_lengths (leaves t 0) (replicate symbolCount 0)" "wf_node t" "wt t = sum_list (map unat freq)"
        "mset (symbols_of t) = mset (filter (\<lambda>s. freq ! s > 0) [0..<length freq])" "height t > 0"
        using huffmanLengths_tree[OF _ assms(2)] by blast
      note l = tree_lengths[OF t(2) _ t(5) assms(1) t(4), folded t(1)]
      show ?thesis
      proof (cases "height t \<le> 15")
        case True
        then show ?thesis using l t(3) assms(2) by (auto simp: lengths_ok_def longest_le list_all_iff intro: order_trans)
      next
        case False
        then have "2584 \<le> sum_list (map unat freq)"
          using weight_by_height[OF t(2)] fibo_mono[of 18 "height t + 2"] fibo_limits(2) t(3) by simp
        moreover have "\<not> unat (longest (huffmanLengths freq)) \<le> 15" using l(3) False t(3) assms(2) by (fastforce simp: longest_le)
        ultimately show ?thesis using l(1) t(3) assms(2) by simp
      qed
    qed
  qed
  then show "covers freq (huffmanLengths freq)" "unat (longest (huffmanLengths freq)) \<le> 15 \<Longrightarrow> lengths_ok (huffmanLengths freq)"
    "\<not> unat (longest (huffmanLengths freq)) \<le> 15 \<Longrightarrow> 2584 \<le> sum_list (map unat freq)" by blast+
qed

subsection \<open>The loop ends\<close>

lemma sum_list_less:
  fixes g h :: "'a \<Rightarrow> nat"
  assumes "\<And>x. x \<in> set xs \<Longrightarrow> g x \<le> h x" "x \<in> set xs" "g x < h x"
  shows "sum_list (map g xs) < sum_list (map h xs)"
proof -
  obtain ys zs where xs: "xs = ys @ x # zs" using split_list[OF assms(2)] by blast
  have "sum_list (map g ys) \<le> sum_list (map h ys)" "sum_list (map g zs) \<le> sum_list (map h zs)"
    using assms(1) by (auto intro: sum_list_mono simp: xs)
  then show ?thesis using assms(3) by (simp add: xs)
qed

lemma flatten_freq_facts:
  assumes "sum_list (map unat freq) < 2 ^ 31"
  shows "length (flatten_freq freq) = length freq" "\<forall>s < length freq. flatten_freq freq ! s > 0 \<longleftrightarrow> freq ! s > 0"
    "sum_list (map unat (flatten_freq freq)) \<le> sum_list (map unat freq)"
    "(\<exists>f \<in> set freq. f > 1) \<Longrightarrow> sum_list (map unat (flatten_freq freq)) < sum_list (map unat freq)"
proof -
  let ?g = "\<lambda>f :: u32. if f > 1 then (f + 1) div 2 else f"
  have g: "unat (?g f) = (if unat f > 1 then (unat f + 1) div 2 else unat f)" if "unat f < 2 ^ 31" for f
  proof -
    have "unat (f + 1) = unat f + 1" using that by (simp add: unat_word_ariths)
    then show ?thesis by (simp add: word_less_nat_alt unat_div)
  qed
  have each: "unat f < 2 ^ 31" if "f \<in> set freq" for f
    using assms member_le_sum_list[of "unat f" "map unat freq"] that by simp
  show "length (flatten_freq freq) = length freq" by (simp add: flatten_freq_def)
  show "\<forall>s < length freq. flatten_freq freq ! s > 0 \<longleftrightarrow> freq ! s > 0"
    using g each by (auto simp: flatten_freq_def word_less_nat_alt)
  have le: "unat (?g f) \<le> unat f" if "f \<in> set freq" for f using g[OF each[OF that]] by auto
  then show "sum_list (map unat (flatten_freq freq)) \<le> sum_list (map unat freq)"
    unfolding flatten_freq_def map_map comp_def by (intro sum_list_mono) auto
  assume "\<exists>f \<in> set freq. f > 1"
  then obtain f where f: "f \<in> set freq" "f > 1" by blast
  then have "unat (?g f) < unat f" using g[OF each[OF f(1)]] by (auto simp: word_less_nat_alt)
  then show "sum_list (map unat (flatten_freq freq)) < sum_list (map unat freq)"
    unfolding flatten_freq_def map_map comp_def using sum_list_less[OF le f(1)] by simp
qed

lemma small_freq_sum: "\<forall>f \<in> set freq. \<not> f > (1 :: u32) \<Longrightarrow> sum_list (map unat freq) \<le> length freq"
  by (induction freq) (auto simp: word_less_nat_alt not_less)

lemma codeLengths_some:
  assumes "length freq = symbolCount" "sum_list (map unat freq) < 2 ^ 31"
  shows "\<exists>ls. codeLengths freq = Some ls \<and> lengths_ok ls \<and> covers freq ls"
  using assms
proof (induction "sum_list (map unat freq)" arbitrary: freq rule: less_induct)
  case less
  have s32: "sum_list (map unat freq) < 2 ^ 32" using less.prems(2) by simp
  note h = huffmanLengths_ok[OF less.prems(1) s32]
  show ?case
  proof (cases "unat (longest (huffmanLengths freq)) \<le> 15")
    case True
    then have "codeLengths freq = Some (huffmanLengths freq)" by (subst codeLengths.simps) (simp add: Let_def maxCodeLen_def)
    then show ?thesis using h(1,2) True by blast
  next
    case False
    note fl = flatten_freq_facts[OF less.prems(2)]
    have "\<exists>f \<in> set freq. f > 1" using small_freq_sum[of freq] h(3)[OF False] less.prems(1) by (fastforce simp: symbolCount_def)
    then have "sum_list (map unat (flatten_freq freq)) < sum_list (map unat freq)" by (rule fl(4))
    then obtain ls where ls: "codeLengths (flatten_freq freq) = Some ls" "lengths_ok ls" "covers (flatten_freq freq) ls"
      using less.hyps[of "flatten_freq freq"] less.prems fl(1) by auto
    have "codeLengths freq = codeLengths (flatten_freq freq)" using False by (subst codeLengths.simps) (simp add: Let_def maxCodeLen_def)
    then show ?thesis using ls fl(2) less.prems(1) by (auto simp: covers_def)
  qed
qed

text \<open>C24 (codeLengths_returns). The search for code lengths returns: for the frequencies of any symbols that add up to less
  than two to the 31st, the codes that grow too long are flattened away after finitely many rounds. What it returns fits the
  canonical code: no length is over 15, the lengths leave room for every code, and exactly the symbols that occur have one.\<close>

theorem codeLengths_returns:
  assumes "length freq = symbolCount" "sum_list (map unat freq) < 2 ^ 31"
  shows "\<exists>ls. codeLengths freq = Some ls \<and> lengths_ok ls \<and> covers freq ls"
  by (rule codeLengths_some[OF assms])

theorem codeLengths_returns_witness:
  "\<exists>ls. codeLengths (replicate symbolCount 1) = Some ls \<and> lengths_ok ls \<and> covers (replicate symbolCount 1) ls"
  by (rule codeLengths_returns) (simp_all add: sum_list_replicate symbolCount_def)

end
