(* ===== verification/Huffman_Items.thy ===== *)
theory Huffman_Items
  imports Huffman_Tree
begin

section \<open>LZ77 with Huffman codes: the items of a block\<close>

text \<open>
  The first pass of \<^verbatim>\<open>huffman.go\<close>: the items it breaks a block into stand for the block, a match that would read as the
  end of the stream is never among them, and every symbol they need has been counted.
\<close>

subsection \<open>The matches are real\<close>

definition chains_below :: "huff_chains \<Rightarrow> nat \<Rightarrow> bool" where
  "chains_below ch i \<longleftrightarrow> (\<forall>h. hc_head ch h < int i) \<and> (\<forall>p. hc_chain ch p < int i \<or> hc_chain ch p = 0)"

lemma chains_below_mono: "chains_below ch i \<Longrightarrow> i \<le> j \<Longrightarrow> chains_below ch j"
  unfolding chains_below_def by (meson less_le_trans of_nat_le_iff)

lemma chains_below_insert: "chains_below ch i \<Longrightarrow> i \<le> j \<Longrightarrow> chains_below (huff_insert src j ch) (j + 1)"
  using chains_below_mono[of ch i "j + 1"] chains_below_mono[of ch i j] by (auto simp: chains_below_def huff_insert_def Let_def)

lemma chains_below_covered:
  assumes "chains_below ch (i + 1)" "1 \<le> n"
  shows "chains_below (huff_covered src i n ch) (i + n)"
proof -
  have "chains_below (fold (\<lambda>j ch. if j + huff_minMatch \<le> length src then huff_insert src j ch else ch) [i + 1..<i + m] ch) (i + m)" if "1 \<le> m" for m
    using that
  proof (induction m rule: nat_induct_at_least)
    case base
    then show ?case using assms(1) by simp
  next
    case (Suc m)
    have "[i + 1..<i + Suc m] = [i + 1..<i + m] @ [i + m]" using Suc.hyps by simp
    then show ?case using Suc chains_below_insert[OF Suc.IH order_refl, of src] chains_below_mono[OF Suc.IH, of "i + Suc m"] by simp
  qed
  then show ?thesis unfolding huff_covered_def using assms(2) by blast
qed

lemma huff_extend_spec:
  "i + l \<le> length src \<Longrightarrow> \<forall>k < l. src ! (p + k) = src ! (i + k) \<Longrightarrow>
     i + huff_extend src p i l \<le> length src \<and> (\<forall>k < huff_extend src p i l. src ! (p + k) = src ! (i + k))"
proof (induction src p i l rule: huff_extend.induct)
  case (1 src p i l)
  show ?case
  proof (cases "i + l < length src \<and> src ! (p + l) = src ! (i + l)")
    case True
    then have "i + (l + 1) \<le> length src" "\<forall>k < l + 1. src ! (p + k) = src ! (i + k)" using 1(3) by (auto simp: less_Suc_eq)
    with 1(1)[OF True] True show ?thesis by (simp add: huff_extend.simps[of src p i l])
  next
    case False
    then show ?thesis using 1(2,3) by (subst (1 2) huff_extend.simps) auto
  qed
qed

definition found :: "bytes \<Rightarrow> nat \<Rightarrow> nat \<Rightarrow> int \<Rightarrow> bool" where
  "found src i len dist \<longleftrightarrow> len = 0 \<or> valid_match src i 65536 len (nat dist)"

lemma huff_search_found:
  "i \<le> length src \<Longrightarrow> chains_below ch i \<Longrightarrow> p < int i \<Longrightarrow> found src i bestLen bestDist \<Longrightarrow>
     huff_search src ch i p n bestLen bestDist = (len, dist) \<Longrightarrow> found src i len dist"
proof (induction src ch i p n bestLen bestDist rule: huff_search.induct)
  case (1 src ch i p n bestLen bestDist)
  let ?pn = "nat p" and ?d = "int i - p"
  show ?case
  proof (cases "p \<ge> 0 \<and> n < maxChain \<and> \<not> ?d > int maxDistance")
    case False
    then show ?thesis using 1(7,8) by (subst (asm) huff_search.simps) (auto simp: Let_def split: if_split_asm)
  next
    case c: True
    then have c': "p \<ge> 0 \<and> n < maxChain" "\<not> ?d > int maxDistance" by simp_all
    have next_below: "hc_chain ch ?pn < int i" using 1(5,6) c by (auto simp: chains_below_def)
    define l where "l = huff_extend src ?pn i 0"
    have l: "found src i l ?d"
    proof -
      have "i + l \<le> length src" "\<forall>k < l. src ! (?pn + k) = src ! (i + k)"
        using huff_extend_spec[of i 0 src ?pn] 1(4) by (simp_all add: l_def)
      moreover have "i - nat ?d = ?pn" "1 \<le> nat ?d" "nat ?d \<le> i" "nat ?d < 65536" using c 1(6) by (auto simp: maxDistance_def)
      ultimately show ?thesis by (simp add: found_def valid_match_def)
    qed
    show ?thesis
    proof (cases "bestLen > 0 \<and> (i + bestLen \<ge> length src \<or> src ! (?pn + bestLen) \<noteq> src ! (i + bestLen))")
      case True
      then have "huff_search src ch i (hc_chain ch ?pn) (n + 1) bestLen bestDist = (len, dist)"
        using 1(8) c' by (subst (asm) huff_search.simps) (simp only: Let_def if_True if_False simp_thms)
      then show ?thesis by (rule 1(1)[OF c'(1) refl refl c'(2) True 1(4,5) next_below 1(7)])
    next
      case no: False
      show ?thesis
      proof (cases "l > bestLen")
        case True
        then have "huff_search src ch i (hc_chain ch ?pn) (n + 1) l ?d = (len, dist)"
          using 1(8) c' no unfolding l_def by (subst (asm) huff_search.simps) (simp only: Let_def if_True if_False simp_thms)
        then show ?thesis by (rule 1(2)[OF c'(1) refl refl c'(2) no l_def True 1(4,5) next_below l])
      next
        case False
        then have "huff_search src ch i (hc_chain ch ?pn) (n + 1) bestLen bestDist = (len, dist)"
          using 1(8) c' no unfolding l_def by (subst (asm) huff_search.simps) (simp only: Let_def if_True if_False simp_thms)
        then show ?thesis by (rule 1(3)[OF c'(1) refl refl c'(2) no l_def False 1(4,5) next_below 1(7)])
      qed
    qed
  qed
qed

subsection \<open>The items stand for the block\<close>

definition item_size :: "huff_item \<Rightarrow> nat" where
  "item_size it = (if it_length it = 0 then 1 else it_length it)"

definition item_symbol :: "huff_item \<Rightarrow> nat" where
  "item_symbol it = (if it_length it = 0 then unat (it_literal it) else match_symbol (it_length it) (it_distance it))"

definition put_item :: "bytes \<Rightarrow> huff_item \<Rightarrow> bytes" where
  "put_item dst it = (if it_length it = 0 then dst @ [it_literal it] else copy_match (length dst - it_distance it) 0 (it_length it) dst)"

definition item_ok :: "bytes \<Rightarrow> huff_item \<Rightarrow> bool" where
  "item_ok dst it \<longleftrightarrow> it_length it = 0 \<or>
     1 \<le> it_distance it \<and> it_distance it \<le> 65535 \<and> it_distance it \<le> length dst \<and> 3 \<le> it_length it \<and> it_length it \<le> 65536
     \<and> \<not> (it_length it = 3 \<and> it_distance it = 1)"

fun items_ok :: "bytes \<Rightarrow> huff_item list \<Rightarrow> bool" where
  "items_ok dst [] \<longleftrightarrow> True"
| "items_ok dst (it # its) \<longleftrightarrow> item_ok dst it \<and> items_ok (put_item dst it) its"

lemma put_match:
  assumes "valid_match src i b len d" "i \<le> length src"
  shows "copy_match (length (take i src) - d) 0 len (take i src) = take (i + len) src"
proof -
  have m: "1 \<le> d" "d \<le> i" "i + len \<le> length src" "\<forall>k < len. src ! (i - d + k) = src ! (i + k)"
    using assms by (auto simp: valid_match_def)
  then show ?thesis using copy_match_take[of "i - d" i 0 len src] assms(2) by (simp add: min_absorb2)
qed

lemma parse_loop_items:
  "i \<le> length src \<Longrightarrow> length src \<le> 65536 \<Longrightarrow> chains_below ch i \<Longrightarrow>
     \<exists>its. parse_loop src i ch items freq = (items @ its, fold (\<lambda>it. bump (item_symbol it)) its freq)
       \<and> foldl put_item (take i src) its = src \<and> items_ok (take i src) its \<and> length its \<le> length src - i"
proof (induction src i ch items freq rule: parse_loop.induct)
  case (1 src i ch items freq)
  show ?case
  proof (cases "i < length src")
    case False
    then show ?thesis using 1(4) by (intro exI[of _ "[]"]) (simp add: parse_loop.simps)
  next
    case i: True
    let ?lit = "\<lparr>it_literal = src ! i, it_length = 0, it_distance = 0\<rparr>"
    let ?L = "(items @ [?lit], bump (unat (src ! i)) freq)"
    have lit: "put_item (take i src) ?lit = take (i + 1) src" "item_ok (take i src) ?lit" "item_symbol ?lit = unat (src ! i)"
      using i by (simp_all add: put_item_def item_ok_def item_symbol_def take_Suc_conv_app_nth)
    have literal: ?thesis if step: "parse_loop src i ch items freq = parse_loop src (i + 1) ch' (items @ [?lit]) (bump (unat (src ! i)) freq)"
      and IH: "\<exists>its. parse_loop src (i + 1) ch' (items @ [?lit]) (bump (unat (src ! i)) freq)
          = ((items @ [?lit]) @ its, fold (\<lambda>it. bump (item_symbol it)) its (bump (unat (src ! i)) freq))
        \<and> foldl put_item (take (i + 1) src) its = src \<and> items_ok (take (i + 1) src) its \<and> length its \<le> length src - (i + 1)" for ch'
    proof -
      from IH obtain its where its: "parse_loop src (i + 1) ch' (items @ [?lit]) (bump (unat (src ! i)) freq)
          = ((items @ [?lit]) @ its, fold (\<lambda>it. bump (item_symbol it)) its (bump (unat (src ! i)) freq))"
        "foldl put_item (take (i + 1) src) its = src" "items_ok (take (i + 1) src) its" "length its \<le> length src - (i + 1)" by blast
      show ?thesis by (rule exI[of _ "?lit # its"]) (use its i in \<open>simp add: step lit\<close>)
    qed
    have i1: "i + 1 \<le> length src" using i by simp
    show ?thesis
    proof (cases "i + huff_minMatch > length src")
      case True
      show ?thesis
      proof (rule literal)
        show "parse_loop src i ch items freq = parse_loop src (i + 1) ch (items @ [?lit]) (bump (unat (src ! i)) freq)"
          using i True by (subst parse_loop.simps) (simp add: Let_def)
      next
        show "\<exists>its. parse_loop src (i + 1) ch (items @ [?lit]) (bump (unat (src ! i)) freq)
          = ((items @ [?lit]) @ its, fold (\<lambda>it. bump (item_symbol it)) its (bump (unat (src ! i)) freq))
        \<and> foldl put_item (take (i + 1) src) its = src \<and> items_ok (take (i + 1) src) its \<and> length its \<le> length src - (i + 1)"
          using 1(1)[OF i refl True, simplified fst_conv snd_conv] i1 1(5) chains_below_mono[OF 1(6), of "i + 1"] by simp
      qed
    next
      case three: False
      obtain len dist where f: "huff_search src ch i (hc_head ch (huff_hash src i)) 0 0 0 = (len, dist)" by force
      let ?ch = "huff_insert src i ch"
      have ch: "chains_below ?ch (i + 1)" using chains_below_insert[OF 1(6) order_refl] .
      show ?thesis
      proof (cases "len < huff_minMatch \<or> len = huff_minMatch \<and> dist = 1")
        case True
        show ?thesis
        proof (rule literal)
          show "parse_loop src i ch items freq = parse_loop src (i + 1) ?ch (items @ [?lit]) (bump (unat (src ! i)) freq)"
            using i three f True by (subst parse_loop.simps) (simp add: Let_def)
        next
          show "\<exists>its. parse_loop src (i + 1) ?ch (items @ [?lit]) (bump (unat (src ! i)) freq)
            = ((items @ [?lit]) @ its, fold (\<lambda>it. bump (item_symbol it)) its (bump (unat (src ! i)) freq))
          \<and> foldl put_item (take (i + 1) src) its = src \<and> items_ok (take (i + 1) src) its \<and> length its \<le> length src - (i + 1)"
            using 1(2)[OF i refl three f[symmetric] refl True, simplified fst_conv snd_conv] i1 1(5) ch by simp
        qed
      next
        case False
        have "found src i len dist"
          by (rule huff_search_found[OF 1(4,6) _ _ f]) (use 1(6) in \<open>simp_all add: chains_below_def found_def\<close>)
        then have vm: "valid_match src i 65536 len (nat dist)" using False by (auto simp: found_def huff_minMatch_def)
        let ?it = "\<lparr>it_literal = 0, it_length = len, it_distance = nat dist\<rparr>"
        have b: "i + len \<le> length src" "3 \<le> len" using vm False by (auto simp: valid_match_def huff_minMatch_def)
        have it: "put_item (take i src) ?it = take (i + len) src" "item_ok (take i src) ?it" "item_symbol ?it = match_symbol len (nat dist)"
          using put_match[OF vm 1(4)] vm b False i 1(5)
          by (auto simp: put_item_def item_ok_def item_symbol_def valid_match_def huff_minMatch_def)
        have cov: "chains_below (huff_covered src i len ?ch) (i + len)" using chains_below_covered[OF ch] b by simp
        obtain its where its: "parse_loop src (i + len) (huff_covered src i len ?ch) (items @ [?it]) (bump (match_symbol len (nat dist)) freq)
            = ((items @ [?it]) @ its, fold (\<lambda>it. bump (item_symbol it)) its (bump (match_symbol len (nat dist)) freq))"
          "foldl put_item (take (i + len) src) its = src" "items_ok (take (i + len) src) its" "length its \<le> length src - (i + len)"
          using 1(3)[OF i refl three f[symmetric] refl False b(1) 1(5) cov] by blast
        have "parse_loop src i ch items freq
            = parse_loop src (i + len) (huff_covered src i len ?ch) (items @ [?it]) (bump (match_symbol len (nat dist)) freq)"
          using i three f False by (subst parse_loop.simps) (auto simp: Let_def)
        then show ?thesis by (intro exI[of _ "?it # its"]) (use its it b in simp)
      qed
    qed
  qed
qed

subsection \<open>The frequencies\<close>

lemma Len32_bounds:
  assumes "1 \<le> n"
  shows "2 ^ (Len32 n - 1) \<le> n \<and> n < 2 ^ Len32 n \<and> 1 \<le> Len32 n"
  using assms
proof (induction n rule: Len32.induct)
  case (1 n)
  show ?case
  proof (cases "n = 1")
    case True
    then show ?thesis by (simp add: Len32.simps)
  next
    case False
    then have h: "1 \<le> n div 2" using 1(2) by simp
    note IH = 1(1)[OF _ h]
    have s: "Len32 n = Suc (Len32 (n div 2))" using 1(2) by (subst Len32.simps) simp
    obtain k where k: "Len32 (n div 2) = Suc k" using IH 1(2) by (cases "Len32 (n div 2)") auto
    have "2 * 2 ^ k \<le> n" "n < 2 * 2 ^ Suc k" using IH 1(2) k by (simp_all, linarith+)
    then show ?thesis by (simp add: s k)
  qed
qed

lemma Len32_high:
  assumes "1 \<le> d" "d \<le> 65535"
  shows "Len32 d - 1 \<le> 15" "2 ^ (Len32 d - 1) \<le> d" "d - 2 ^ (Len32 d - 1) < 2 ^ (Len32 d - 1)"
proof -
  note b = Len32_bounds[OF assms(1)]
  obtain k where k: "Len32 d = Suc k" using b by (cases "Len32 d") auto
  have "\<not> 16 \<le> k"
  proof
    assume "16 \<le> k"
    then have "(2 :: nat) ^ 16 \<le> 2 ^ k" by (intro power_increasing) auto
    then show False using b k assms(2) by simp
  qed
  then show "Len32 d - 1 \<le> 15" using k by simp
  show "2 ^ (Len32 d - 1) \<le> d" "d - 2 ^ (Len32 d - 1) < 2 ^ (Len32 d - 1)" using b k by auto
qed

lemma match_symbol_parts:
  assumes "1 \<le> d" "d \<le> 65535" "3 \<le> len"
  shows "match_symbol len d - eofSymbol = min (len - 3) 15 + 16 * (Len32 d - 1)" "match_symbol len d < symbolCount"
    "eofSymbol \<le> match_symbol len d" "\<not> (len = 3 \<and> d = 1) \<Longrightarrow> match_symbol len d \<noteq> eofSymbol"
proof -
  note h = Len32_high[OF assms(1,2)]
  show "match_symbol len d - eofSymbol = min (len - 3) 15 + 16 * (Len32 d - 1)" "match_symbol len d < symbolCount" "eofSymbol \<le> match_symbol len d"
    using h(1) by (auto simp: match_symbol_def Let_def huff_consts)
  assume n: "\<not> (len = 3 \<and> d = 1)"
  have "Len32 d - 1 \<noteq> 0" if "d \<noteq> 1"
  proof
    assume "Len32 d - 1 = 0"
    then show False using h(3) that assms(1) by simp
  qed
  then show "match_symbol len d \<noteq> eofSymbol" using n assms(3) by (auto simp: match_symbol_def Let_def huff_consts)
qed

lemma item_symbol_less: "item_ok dst it \<Longrightarrow> item_symbol it < symbolCount"
proof -
  assume it: "item_ok dst it"
  have "unat (it_literal it) < 2 ^ 8" using unsigned_less[of "it_literal it"] by simp
  then show ?thesis using it match_symbol_parts(2)[of "it_distance it" "it_length it"]
    by (auto simp: item_ok_def item_symbol_def symbolCount_def)
qed

lemma items_symbols_less: "items_ok dst its \<Longrightarrow> it \<in> set its \<Longrightarrow> item_symbol it < symbolCount"
  by (induction dst its rule: items_ok.induct) (auto simp: item_symbol_less)

lemma bump_facts:
  assumes "sum_list (map unat freq) + 1 < 2 ^ 32" "s < length freq"
  shows "length (bump s freq) = length freq" "sum_list (map unat (bump s freq)) = sum_list (map unat freq) + 1"
    "unat (freq ! t) \<le> unat (bump s freq ! t)" "bump s freq ! s > 0"
proof -
  have le: "unat (freq ! s) \<le> sum_list (map unat freq)" using assms(2) member_le_sum_list[of "unat (freq ! s)" "map unat freq"] by simp
  then have u: "unat (freq ! s + 1) = unat (freq ! s) + 1" using assms(1) by (simp add: unat_word_ariths)
  show "length (bump s freq) = length freq" by (simp add: bump_def)
  show "sum_list (map unat (bump s freq)) = sum_list (map unat freq) + 1"
    unfolding bump_def map_update using assms(2) u le by (subst sum_list_update) simp_all
  show "unat (freq ! t) \<le> unat (bump s freq ! t)" using u assms(2) by (cases "t = s") (simp_all add: bump_def)
  show "bump s freq ! s > 0" using u assms(2) by (simp add: bump_def word_less_nat_alt)
qed

lemma bumps_facts:
  assumes "sum_list (map unat freq) + length its < 2 ^ 32" "\<forall>it \<in> set its. item_symbol it < length freq"
  defines "freq' \<equiv> fold (\<lambda>it. bump (item_symbol it)) its freq"
  shows "length freq' = length freq \<and> sum_list (map unat freq') = sum_list (map unat freq) + length its
    \<and> (\<forall>t. unat (freq ! t) \<le> unat (freq' ! t)) \<and> (\<forall>it \<in> set its. freq' ! item_symbol it > 0)"
  using assms(1,2) unfolding freq'_def
proof (induction its arbitrary: freq)
  case (Cons it its)
  have lt: "sum_list (map unat freq) + 1 < 2 ^ 32" "item_symbol it < length freq" using Cons.prems by simp_all
  note b = bump_facts[OF lt]
  let ?f = "fold (\<lambda>it. bump (item_symbol it)) its (bump (item_symbol it) freq)"
  have IH: "length ?f = length freq" "sum_list (map unat ?f) = sum_list (map unat freq) + 1 + length its"
    "\<forall>t. unat (bump (item_symbol it) freq ! t) \<le> unat (?f ! t)" "\<forall>it \<in> set its. ?f ! item_symbol it > 0"
    using Cons.IH[of "bump (item_symbol it) freq"] Cons.prems b(1,2) by simp_all
  have "0 < unat (bump (item_symbol it) freq ! item_symbol it)" using b(4) by (simp add: word_less_nat_alt)
  also have "\<dots> \<le> unat (?f ! item_symbol it)" using IH(3) by blast
  finally have new: "?f ! item_symbol it > 0" by (simp add: word_less_nat_alt)
  have mono: "unat (freq ! t) \<le> unat (?f ! t)" for t using b(3)[of t] IH(3)[rule_format, of t] by linarith
  show ?case unfolding fold_simps using IH(1,2,4) new mono by simp
qed simp

lemma parse_facts:
  assumes "length src \<le> 65536" "parse src isLast = (items, freq)"
  shows "foldl put_item [] items = src" "items_ok [] items" "length freq = symbolCount" "sum_list (map unat freq) < 2 ^ 31"
    "\<forall>it \<in> set items. freq ! item_symbol it > 0" "isLast \<Longrightarrow> freq ! eofSymbol > 0"
proof -
  let ?ch = "\<lparr>hc_head = (\<lambda>_. -1), hc_chain = (\<lambda>_. 0)\<rparr>" and ?z = "replicate symbolCount 0 :: u32 list"
  have "chains_below ?ch 0" by (simp add: chains_below_def)
  then obtain its where its: "parse_loop src 0 ?ch [] ?z = (its, fold (\<lambda>it. bump (item_symbol it)) its ?z)"
    "foldl put_item [] its = src" "items_ok [] its" "length its \<le> length src"
    using parse_loop_items[of 0 src ?ch "[]" ?z] assms(1) by auto
  let ?f = "fold (\<lambda>it. bump (item_symbol it)) its ?z"
  have i: "items = its" and fr: "freq = (if isLast then bump eofSymbol ?f else ?f)" using assms(2) its(1) by (simp_all add: parse_def)
  have f: "length ?f = symbolCount" "sum_list (map unat ?f) = length its" "\<forall>it \<in> set its. ?f ! item_symbol it > 0"
    using bumps_facts[of ?z its] its(4) assms(1) items_symbols_less[OF its(3)] by (auto simp: sum_list_replicate)
  have lt: "sum_list (map unat ?f) + 1 < 2 ^ 32" "eofSymbol < length ?f" using f its(4) assms(1) by (simp_all add: huff_consts)
  note b = bump_facts[OF lt]
  show "foldl put_item [] items = src" "items_ok [] items" using its i by simp_all
  show "length freq = symbolCount" "sum_list (map unat freq) < 2 ^ 31" using fr f b(1,2) its(4) assms(1) by auto
  show "\<forall>it \<in> set items. freq ! item_symbol it > 0"
    using fr f(3) b(3) i by (auto simp: word_less_nat_alt intro: less_le_trans)
  show "isLast \<Longrightarrow> freq ! eofSymbol > 0" using fr b(4) by simp
qed

end
