(* ===== verification/Lz77_Roundtrip.thy ===== *)
theory Lz77_Roundtrip
  imports Lz77
begin

section \<open>LZ77: what is compressed comes back\<close>

text \<open>
  Between the two byte formats stand tokens: a literal, or a match with its offset and length. Three steps: the loop of
  the compressor writes the tokens of a list that stands for the input; what it has written in the end, with the slots
  filled in later, is a layout of these tokens that can be read off from the front; and the decompressor reads that
  layout back.
\<close>

datatype ltok = LLit byte | LMatch nat nat

subsection \<open>The matches are real\<close>

lemma lz77_extend_spec:
  "l \<le> mx \<Longrightarrow> l \<le> lz77_extend src c p l mx \<and> lz77_extend src c p l mx \<le> mx
     \<and> (\<forall>k. l \<le> k \<and> k < lz77_extend src c p l mx \<longrightarrow> src ! (c + k) = src ! (p + k))"
proof (induction src c p l mx rule: lz77_extend.induct)
  case (1 src c p l mx)
  show ?case
  proof (cases "l < mx \<and> src ! (c + l) = src ! (p + l)")
    case True
    have "l + 1 \<le> mx" using True by simp
    note IH = 1(1)[OF True this]
    have "src ! (c + k) = src ! (p + k)" if "l \<le> k" "k < lz77_extend src c p (l + 1) mx" for k
      using that IH True by (cases "k = l") auto
    then show ?thesis using IH True by (subst (1 2 3) lz77_extend.simps) auto
  next
    case False
    then show ?thesis using 1(2) by (subst (1 2 3) lz77_extend.simps) auto
  qed
qed

definition good_match :: "bytes \<Rightarrow> nat \<Rightarrow> nat \<Rightarrow> nat \<Rightarrow> bool" where
  "good_match src p off len \<longleftrightarrow> valid_match src p 8193 len off \<and> len \<le> 65539"

lemma lz77_search_good:
  "p + 3 \<le> length src \<Longrightarrow> bestLen < 3 \<or> good_match src p bestOff bestLen \<Longrightarrow>
     lz77_search src ch p c depth bestOff bestLen = (off, len) \<Longrightarrow> len < 3 \<or> good_match src p off len"
proof (induction src ch p c depth bestOff bestLen rule: lz77_search.induct)
  case (1 src ch p c depth bestOff bestLen)
  let ?cn = "nat c" and ?dist = "int p - c"
  show ?case
  proof (cases "c \<ge> 0 \<and> depth < maxChain \<and> ?dist > 0 \<and> ?dist \<le> int windowSize")
    case False
    then show ?thesis using 1(5,6) by (subst (asm) lz77_search.simps) (auto simp: Let_def split: if_split_asm)
  next
    case c: True
    then have c': "c \<ge> 0 \<and> depth < maxChain" "\<not> ?dist \<le> 0" "\<not> ?dist > int windowSize" by auto
    show ?thesis
    proof (cases "src ! ?cn \<noteq> src ! p \<or> src ! (?cn + 1) \<noteq> src ! (p + 1) \<or> src ! (?cn + 2) \<noteq> src ! (p + 2)")
      case True
      with 1(6) c have "lz77_search src ch p (lz_next ch ?cn) (depth + 1) bestOff bestLen = (off, len)"
        by (subst (asm) lz77_search.simps) (auto simp: Let_def)
      with 1(1)[OF c'(1) refl c'(2,3) refl True 1(4,5)] show ?thesis by blast
    next
      case False
      define m1 where "m1 = length src - p"
      define mx where "mx = (if m1 > 2 ^ 16 + lz77_minMatch then 2 ^ 16 + lz77_minMatch else m1)"
      define l where "l = lz77_extend src ?cn p 3 mx"
      have mx: "3 \<le> mx" "mx \<le> 65539" "p + mx \<le> length src" using 1(4) by (auto simp: mx_def m1_def lz77_minMatch_def)
      note e = lz77_extend_spec[OF mx(1), of src ?cn p, folded l_def]
      have eq: "src ! (?cn + k) = src ! (p + k)" if "k < l" for k
      proof -
        consider "k = 0" | "k = 1" | "k = 2" | "3 \<le> k" by linarith
        then show ?thesis using False e that by cases auto
      qed
      have good: "good_match src p (nat ?dist) l"
      proof -
        have d: "p - nat ?dist = ?cn" "1 \<le> nat ?dist" "nat ?dist \<le> p" "nat ?dist < 8193" using c by (auto simp: windowSize_def)
        show ?thesis unfolding good_match_def valid_match_def d(1) using d e mx eq by simp
      qed
      have step: "lz77_search src ch p c depth bestOff bestLen =
          (if l > bestLen then if l \<ge> 258 then (nat ?dist, l) else lz77_search src ch p (lz_next ch ?cn) (depth + 1) (nat ?dist) l
           else lz77_search src ch p (lz_next ch ?cn) (depth + 1) bestOff bestLen)"
        unfolding l_def mx_def m1_def using c' False by (subst lz77_search.simps) (simp only: Let_def if_True if_False simp_thms)
      show ?thesis
      proof (cases "l > bestLen")
        case better: True
        show ?thesis
        proof (cases "l \<ge> 258")
          case True
          then show ?thesis using 1(6) better good unfolding step by simp
        next
          case small: False
          with 1(6) better have "lz77_search src ch p (lz_next ch ?cn) (depth + 1) (nat ?dist) l = (off, len)" unfolding step by simp
          with 1(2)[OF c'(1) refl c'(2,3) refl False m1_def mx_def l_def better small 1(4)] good show ?thesis by blast
        qed
      next
        case worse: False
        with 1(6) have "lz77_search src ch p (lz_next ch ?cn) (depth + 1) bestOff bestLen = (off, len)" unfolding step by simp
        with 1(3)[OF c'(1) refl c'(2,3) refl False m1_def mx_def l_def worse 1(4,5)] show ?thesis by blast
      qed
    qed
  qed
qed

lemma findBest_good: "findBest src ch p = (off, len) \<Longrightarrow> lz77_minMatch \<le> len \<Longrightarrow> good_match src p off len"
  using lz77_search_good[of p src 0 0 ch _ 0 off len] by (auto simp: findBest_def lz77_minMatch_def split: if_split_asm)

subsection \<open>The tokens of an input\<close>

function lz77_tokens :: "bytes \<Rightarrow> nat \<Rightarrow> lz77_chains \<Rightarrow> ltok list" where
  "lz77_tokens src i ch =
     (if i < length src then
        (case findBest src ch i of (bestOff, bestLen) \<Rightarrow>
           if bestLen \<ge> lz77_minMatch
           then (case lz77_updates src i bestLen ch of (i, ch) \<Rightarrow> LMatch bestOff bestLen # lz77_tokens src i ch)
           else LLit (src ! i) # lz77_tokens src (i + 1) (lz77_update src i ch))
      else [])"
  by pat_completeness auto
termination
  by (relation "measure (\<lambda>(src, i, _). length src - i)")
     (auto simp: lz77_minMatch_def dest: lz77_updates_moves' intro!: diff_less_mono2 split: prod.split)

declare lz77_tokens.simps [simp del]

fun expand :: "bytes \<Rightarrow> ltok list \<Rightarrow> bytes" where
  "expand dst [] = dst"
| "expand dst (LLit b # ts) = expand (dst @ [b]) ts"
| "expand dst (LMatch off len # ts) = expand (copy_match (length dst - off) 0 len dst) ts"

fun valid_toks :: "bytes \<Rightarrow> ltok list \<Rightarrow> bool" where
  "valid_toks dst [] \<longleftrightarrow> True"
| "valid_toks dst (LLit b # ts) \<longleftrightarrow> valid_toks (dst @ [b]) ts"
| "valid_toks dst (LMatch off len # ts) \<longleftrightarrow> 1 \<le> off \<and> off \<le> 8192 \<and> off \<le> length dst \<and> 3 \<le> len \<and> len \<le> 65539
     \<and> valid_toks (copy_match (length dst - off) 0 len dst) ts"

lemma good_match_copy:
  assumes "good_match src i off len"
  shows "copy_match (length (take i src) - off) 0 len (take i src) = take (i + len) src"
proof -
  have m: "1 \<le> off" "off \<le> i" "i + len \<le> length src" "\<forall>k < len. src ! (i - off + k) = src ! (i + k)"
    using assms by (auto simp: good_match_def valid_match_def)
  then show ?thesis using copy_match_take[of "i - off" i 0 len src] by simp
qed

lemma tokens_stand_for_input:
  "i \<le> length src \<Longrightarrow> expand (take i src) (lz77_tokens src i ch) = src \<and> valid_toks (take i src) (lz77_tokens src i ch)"
proof (induction src i ch rule: lz77_tokens.induct)
  case (1 src i ch)
  show ?case
  proof (cases "i < length src")
    case False
    then show ?thesis using 1(3) by (simp add: lz77_tokens.simps)
  next
    case i: True
    obtain off len where f: "findBest src ch i = (off, len)" by force
    show ?thesis
    proof (cases "len \<ge> lz77_minMatch")
      case True
      have g: "good_match src i off len" by (rule findBest_good[OF f True])
      obtain i' ch' where u: "lz77_updates src i len ch = (i', ch')" by force
      have b: "i + len \<le> length src" using g by (auto simp: good_match_def valid_match_def)
      then have i': "i' = i + len" using lz77_updates_pos[of i len src ch] u by simp
      have t: "lz77_tokens src i ch = LMatch off len # lz77_tokens src i' ch'"
        using i f True u by (subst lz77_tokens.simps) simp
      have "expand (take i' src) (lz77_tokens src i' ch') = src \<and> valid_toks (take i' src) (lz77_tokens src i' ch')"
        by (rule 1(1)[OF i f[symmetric] True u[symmetric]]) (use b i' in simp)
      moreover have "1 \<le> off \<and> off \<le> 8192 \<and> off \<le> length (take i src) \<and> 3 \<le> len \<and> len \<le> 65539"
        using g True i by (auto simp: good_match_def valid_match_def lz77_minMatch_def)
      ultimately show ?thesis using t good_match_copy[OF g] i' by simp
    next
      case False
      have t: "lz77_tokens src i ch = LLit (src ! i) # lz77_tokens src (i + 1) (lz77_update src i ch)"
        using i f False by (subst lz77_tokens.simps) simp
      have "take i src @ [src ! i] = take (i + 1) src" using i by (simp add: take_Suc_conv_app_nth)
      moreover have "i + 1 \<le> length src" using i by simp
      ultimately show ?thesis using 1(2)[OF i f[symmetric] False] t by (simp del: take_append)
    qed
  qed
qed

text \<open>The loop writes these tokens.\<close>

definition mark :: "bool \<Rightarrow> lz77_writer \<Rightarrow> lz77_writer" where
  "mark b w = (let w = (if w_flagCount w = 32 then flushFlags False w else w)
     in w\<lparr>w_flags := push_bit 1 (w_flags w) OR of_bool b, w_flagCount := w_flagCount w + 1\<rparr>)"

fun emit :: "ltok \<Rightarrow> lz77_writer \<Rightarrow> lz77_writer" where
  "emit (LLit b) w = (let w = mark False w in w\<lparr>w_dst := w_dst w @ [b]\<rparr>)"
| "emit (LMatch off len) w = writeMatch off len (mark True w)"

lemma loop_emits: "lz77_loop src i ch w = fold emit (lz77_tokens src i ch) w"
proof (induction src i ch arbitrary: w rule: lz77_tokens.induct)
  case (1 src i ch)
  show ?case
  proof (cases "i < length src")
    case i: True
    obtain off len where f: "findBest src ch i = (off, len)" by force
    show ?thesis
    proof (cases "len \<ge> lz77_minMatch")
      case True
      obtain i' ch' where u: "lz77_updates src i len ch = (i', ch')" by force
      show ?thesis using i f True u 1(1)[OF i f[symmetric] True u[symmetric]]
        by (subst lz77_loop.simps, subst lz77_tokens.simps) (simp add: Let_def mark_def)
    next
      case False
      then show ?thesis using i f 1(2)[OF i f[symmetric] False]
        by (subst lz77_loop.simps, subst lz77_tokens.simps) (simp add: Let_def mark_def)
    qed
  qed (simp add: lz77_loop.simps lz77_tokens.simps)
qed

subsection \<open>The layout\<close>

text \<open>A flag word: the bits of its tokens from the top, and ones below.\<close>

definition bitsval :: "bool list \<Rightarrow> u32" where
  "bitsval bits = foldl (\<lambda>f b. push_bit 1 f OR of_bool b) 0 bits"

definition flagword :: "bool list \<Rightarrow> u32" where
  "flagword bits = push_bit (32 - length bits) (bitsval bits) OR mask (32 - length bits)"

lemma bit_bitsval: "length bits \<le> 32 \<Longrightarrow> bit (bitsval bits) j \<longleftrightarrow> j < length bits \<and> bits ! (length bits - 1 - j)"
proof (induction bits arbitrary: j rule: rev_induct)
  case (snoc b bits)
  have "bitsval (bits @ [b]) = push_bit 1 (bitsval bits) OR of_bool b" by (simp add: bitsval_def)
  then have e: "bit (bitsval (bits @ [b])) j \<longleftrightarrow> (if j = 0 then b else j < 32 \<and> bit (bitsval bits) (j - 1))"
    unfolding \<open>bitsval (bits @ [b]) = _\<close> bit_or_iff bit_push_bit_iff bit_of_bool_iff by auto
  show ?case
  proof (cases "j = 0")
    case False
    have i: "bit (bitsval bits) (j - 1) \<longleftrightarrow> j - 1 < length bits \<and> bits ! (length bits - 1 - (j - 1))" using snoc by simp
    have "length bits - 1 - (j - 1) = length (bits @ [b]) - 1 - j" using False by simp
    then have "bit (bitsval (bits @ [b])) j \<longleftrightarrow> j < 32 \<and> j - 1 < length bits \<and> bits ! (length (bits @ [b]) - 1 - j)"
      unfolding e i using False by simp
    then show ?thesis using False snoc(2) by (auto simp: nth_append)
  next
    case True
    then show ?thesis using e by simp
  qed
qed (simp add: bitsval_def)

lemma bit_flagword:
  assumes "length bits \<le> 32" "j < 32"
  shows "bit (flagword bits) j \<longleftrightarrow> (if 31 - j < length bits then bits ! (31 - j) else True)"
proof -
  have e: "length bits - 1 - (j - (32 - length bits)) = 31 - j" if "32 - length bits \<le> j" using that assms by simp
  have m: "bit (flagword bits) j \<longleftrightarrow> (if 32 - length bits \<le> j then bit (bitsval bits) (j - (32 - length bits)) else True)"
    using assms(2) by (simp add: flagword_def bit_or_iff bit_push_bit_iff bit_mask_iff)
  show ?thesis
  proof (cases "32 - length bits \<le> j")
    case True
    then have "j - (32 - length bits) < length bits" "31 - j < length bits" using assms by auto
    then show ?thesis unfolding m using True bit_bitsval[OF assms(1), of "j - (32 - length bits)"] e[OF True] by simp
  next
    case False
    then show ?thesis unfolding m using assms by auto
  qed
qed

lemma next_flag: "drop_bit j (f :: u32) AND 1 \<noteq> 0 \<longleftrightarrow> bit f j"
  by (simp add: and_one_eq bit_iff_odd_drop_bit odd_iff_mod_2_eq_one)

text \<open>The bytes of a token: a long match takes the low half of a new byte or the high half of the one before.\<close>

definition nibble :: "nat \<Rightarrow> nat" where
  "nibble len = (if len - 10 > 15 then 15 else len - 10)"

fun next_nib :: "ltok list \<Rightarrow> byte" where
  "next_nib [] = 0"
| "next_nib (LLit _ # ts) = next_nib ts"
| "next_nib (LMatch _ len # ts) = (if len < 10 then next_nib ts else of_nat (nibble len))"

definition tok_word :: "nat \<Rightarrow> nat \<Rightarrow> u16" where
  "tok_word off len = of_nat (push_bit 3 (off - 1) OR (if len - 3 > 7 then 7 else len - 3))"

definition two_bytes :: "u16 \<Rightarrow> bytes" where
  "two_bytes t = [ucast t, ucast (drop_bit 8 t)]"

definition extra_bytes :: "nat \<Rightarrow> bytes" where
  "extra_bytes len = (if len < 25 then [] else write_extra (len - 25) len)"

fun ltok_bytes :: "bool \<Rightarrow> ltok \<Rightarrow> ltok list \<Rightarrow> bytes" where
  "ltok_bytes pd (LLit b) rest = [b]"
| "ltok_bytes pd (LMatch off len) rest = two_bytes (tok_word off len) @
     (if len < 10 then [] else (if pd then [] else [of_nat (nibble len) OR push_bit 4 (next_nib rest)]) @ extra_bytes len)"

fun pend_after :: "bool \<Rightarrow> ltok \<Rightarrow> bool" where
  "pend_after pd (LLit _) = pd"
| "pend_after pd (LMatch _ len) = (if len < 10 then pd else \<not> pd)"

fun is_match :: "ltok \<Rightarrow> bool" where
  "is_match (LLit _) = False"
| "is_match (LMatch _ _) = True"

text \<open>The flags that still belong into the current word, and the bytes from here on.\<close>

fun lay :: "nat \<Rightarrow> bool \<Rightarrow> ltok list \<Rightarrow> bool list \<times> bytes" where
  "lay c pd [] = ([], [])"
| "lay c pd (t # ts) =
     (if c = 32 then (case lay 1 (pend_after pd t) ts of (bits, bs) \<Rightarrow>
        ([], to_le 4 (uint (flagword (is_match t # bits))) @ ltok_bytes pd t ts @ bs))
      else (case lay (c + 1) (pend_after pd t) ts of (bits, bs) \<Rightarrow> (is_match t # bits, ltok_bytes pd t ts @ bs)))"

lemma lay_bits: "c \<le> 32 \<Longrightarrow> c + length (fst (lay c pd ts)) \<le> 32"
  by (induction c pd ts rule: lay.induct) (auto split: prod.split)

subsection \<open>What is written\<close>

definition patch :: "nat option \<Rightarrow> byte \<Rightarrow> bytes \<Rightarrow> bytes" where
  "patch pd n dst = (case pd of None \<Rightarrow> dst | Some p \<Rightarrow> dst[p := dst ! p OR push_bit 4 n])"

definition wr :: "lz77_writer \<Rightarrow> bool list \<Rightarrow> bool" where
  "wr w prev \<longleftrightarrow> w_flags w = bitsval prev \<and> w_flagCount w = length prev \<and> length prev \<le> 32 \<and> w_flagPos w + 4 \<le> length (w_dst w) \<and>
     (case w_pending w of None \<Rightarrow> True | Some p \<Rightarrow> p < length (w_dst w) \<and> (p < w_flagPos w \<or> w_flagPos w + 4 \<le> p))"

lemma patch_length [simp]: "length (patch pd n dst) = length dst"
  by (simp add: patch_def split: option.split)

lemma patch_append: "(case pd of None \<Rightarrow> True | Some p \<Rightarrow> p < length dst) \<Longrightarrow> patch pd n (dst @ x) = patch pd n dst @ x"
  by (auto simp: patch_def nth_append list_update_append split: option.split)

lemma put_flags_append: "at + 4 \<le> length dst \<Longrightarrow> put_flags at f (dst @ x) = put_flags at f dst @ x"
  by (simp add: put_flags_def)

lemma put_flags_length [simp]: "at + 4 \<le> length dst \<Longrightarrow> length (put_flags at f dst) = length dst"
  by (simp add: put_flags_def)

lemma nth_put_flags: "at + 4 \<le> length dst \<Longrightarrow> p < at \<or> at + 4 \<le> p \<Longrightarrow> p < length dst \<Longrightarrow> put_flags at f dst ! p = dst ! p"
  by (auto simp: put_flags_def nth_append)

lemma patch_put_flags:
  assumes "at + 4 \<le> length dst" "case pd of None \<Rightarrow> True | Some p \<Rightarrow> p < length dst \<and> (p < at \<or> at + 4 \<le> p)"
  shows "patch pd n (put_flags at f dst) = put_flags at f (patch pd n dst)"
proof (cases pd)
  case (Some p)
  then have p: "p < length dst" "p < at \<or> at + 4 \<le> p" using assms(2) by simp_all
  show ?thesis
  proof (rule nth_equalityI)
    show "length (patch pd n (put_flags at f dst)) = length (put_flags at f (patch pd n dst))" using assms(1) by simp
    fix i assume i: "i < length (patch pd n (put_flags at f dst))"
    then have i': "i < length dst" using assms(1) by simp
    show "patch pd n (put_flags at f dst) ! i = put_flags at f (patch pd n dst) ! i"
    proof (cases "i < at \<or> at + 4 \<le> i")
      case True
      then show ?thesis using Some p assms(1) i' by (auto simp: patch_def nth_put_flags nth_list_update)
    next
      case False
      then have "i \<noteq> p" "\<not> i < at" "i - at < 4" using p(2) by auto
      then show ?thesis using Some p(1) assms(1) i' by (simp add: patch_def put_flags_def nth_append)
    qed
  qed
qed (simp add: patch_def)

lemma writeMatch_eq:
  "writeMatch off len w =
     (let dst = w_dst w @ two_bytes (tok_word off len) in
      if len < 10 then w\<lparr>w_dst := dst\<rparr>
      else (case w_pending w of
              None \<Rightarrow> w\<lparr>w_dst := dst @ [of_nat (nibble len)] @ extra_bytes len, w_pending := Some (length dst)\<rparr>
            | Some p \<Rightarrow> w\<lparr>w_dst := dst[p := dst ! p OR of_nat (push_bit 4 (nibble len))] @ extra_bytes len, w_pending := None\<rparr>))"
  by (cases w) (auto simp: writeMatch_def Let_def tok_word_def two_bytes_def nibble_def extra_bytes_def lz77_minMatch_def split: option.split)

lemma mark_small: "w_flagCount w < 32 \<Longrightarrow> mark b w = w\<lparr>w_flags := push_bit 1 (w_flags w) OR of_bool b, w_flagCount := w_flagCount w + 1\<rparr>"
  by (simp add: mark_def)

lemma of_nat_nibble: "(of_nat (push_bit 4 (nibble len)) :: byte) = push_bit 4 (of_nat (nibble len))"
  by (simp add: push_bit_of_nat)

lemma emit_small:
  assumes "wr w prev" "length prev < 32"
  shows "wr (emit t w) (prev @ [is_match t])" "w_flagPos (emit t w) = w_flagPos w"
    "(w_pending (emit t w) \<noteq> None) = pend_after (w_pending w \<noteq> None) t"
    "patch (w_pending (emit t w)) (next_nib ts) (w_dst (emit t w))
       = patch (w_pending w) (next_nib (t # ts)) (w_dst w) @ ltok_bytes (w_pending w \<noteq> None) t ts"
proof -
  have b: "bitsval (prev @ [x]) = push_bit 1 (bitsval prev) OR of_bool x" for x by (simp add: bitsval_def)
  have c: "w_flagCount w < 32" using assms by (simp add: wr_def)
  note d = mark_small[OF c] writeMatch_eq Let_def
  have "wr (emit t w) (prev @ [is_match t]) \<and> w_flagPos (emit t w) = w_flagPos w \<and> (w_pending (emit t w) \<noteq> None) = pend_after (w_pending w \<noteq> None) t
    \<and> patch (w_pending (emit t w)) (next_nib ts) (w_dst (emit t w))
       = patch (w_pending w) (next_nib (t # ts)) (w_dst w) @ ltok_bytes (w_pending w \<noteq> None) t ts"
  proof (cases t)
    case (LLit x)
    then show ?thesis using assms by (auto simp: wr_def d b patch_append split: option.split)
  next
    case (LMatch off len)
    show ?thesis
    proof (cases "len < 10")
      case True
      then show ?thesis using assms LMatch by (auto simp: wr_def d b patch_append split: option.split)
    next
      case long: False
      show ?thesis
      proof (cases "w_pending w")
        case None
        then show ?thesis using assms LMatch long
          by (auto simp: wr_def d b patch_def nth_append list_update_append or.commute)
      next
        case (Some p)
        then have p: "p < length (w_dst w)" using assms by (simp add: wr_def)
        then show ?thesis using assms LMatch long Some
          by (auto simp: wr_def d b patch_def nth_append list_update_append of_nat_nibble)
      qed
    qed
  qed
  then show "wr (emit t w) (prev @ [is_match t])" "w_flagPos (emit t w) = w_flagPos w"
    "(w_pending (emit t w) \<noteq> None) = pend_after (w_pending w \<noteq> None) t"
    "patch (w_pending (emit t w)) (next_nib ts) (w_dst (emit t w))
       = patch (w_pending w) (next_nib (t # ts)) (w_dst w) @ ltok_bytes (w_pending w \<noteq> None) t ts" by blast+
qed

lemma flush_full:
  assumes "wr w prev" "length prev = 32"
  defines "w1 \<equiv> flushFlags False w"
  shows "wr w1 []" "w_flagPos w1 = length (w_dst w)" "w_pending w1 = w_pending w"
    "w_dst w1 = put_flags (w_flagPos w) (flagword prev) (w_dst w) @ [0, 0, 0, 0]" "emit t w = emit t w1"
proof -
  have f: "flagword prev = bitsval prev" using assms(2) by (simp add: flagword_def)
  have c: "w_flagCount w = 32" using assms(1,2) by (simp add: wr_def)
  show d: "w_dst w1 = put_flags (w_flagPos w) (flagword prev) (w_dst w) @ [0, 0, 0, 0]"
    and fp: "w_flagPos w1 = length (w_dst w)" and pd: "w_pending w1 = w_pending w"
    using assms c f by (simp_all add: flushFlags_def Let_def wr_def)
  have "w_flags w1 = 0" "w_flagCount w1 = 0" using c by (simp_all add: w1_def flushFlags_def Let_def)
  then show "wr w1 []" using assms(1) d fp pd by (auto simp: wr_def bitsval_def split: option.split)
  have "mark b w = mark b w1" for b using c \<open>w_flagCount w1 = 0\<close> by (simp add: mark_def w1_def)
  then show "emit t w = emit t w1" by (cases t) simp_all
qed

lemma emit_all:
  assumes "wr w prev" "prev \<noteq> [] \<or> ts \<noteq> []" "lay (length prev) (w_pending w \<noteq> None) ts = (bits, bs)"
  shows "w_dst (flushFlags True (fold emit ts w))
    = put_flags (w_flagPos w) (flagword (prev @ bits)) (patch (w_pending w) (next_nib ts) (w_dst w)) @ bs"
  using assms
proof (induction ts arbitrary: w prev bits bs)
  case Nil
  have "patch (w_pending w) 0 (w_dst w) = w_dst w" by (simp add: patch_def split: option.split)
  moreover have "push_bit n 1 - 1 = (mask n :: u32)" for n by (simp add: mask_eq_exp_minus_1)
  ultimately show ?case using Nil by (simp add: wr_def flushFlags_def Let_def flagword_def)
next
  case (Cons t ts)
  have small: "w_dst (flushFlags True (fold emit ts (emit t w)))
      = put_flags (w_flagPos w) (flagword (prev @ is_match t # bits')) (patch (w_pending w) (next_nib (t # ts)) (w_dst w))
        @ ltok_bytes (w_pending w \<noteq> None) t ts @ bs'"
    if w: "wr w prev" "length prev < 32" and l: "lay (length prev + 1) (pend_after (w_pending w \<noteq> None) t) ts = (bits', bs')" for w prev bits' bs'
  proof -
    note e = emit_small[OF w, of t]
    have "w_flagPos w + 4 \<le> length (w_dst w)" using w by (simp add: wr_def)
    then show ?thesis
      using Cons.IH[OF e(1), of bits' bs'] l e(2,3) e(4)[of ts] by (simp add: put_flags_append)
  qed
  show ?case
  proof (cases "length prev = 32")
    case False
    then have lt: "length prev < 32" using Cons.prems(1) by (simp add: wr_def)
    obtain bits' bs' where l: "lay (length prev + 1) (pend_after (w_pending w \<noteq> None) t) ts = (bits', bs')" by force
    then show ?thesis using small[OF Cons.prems(1) lt l] Cons.prems(3) lt by auto
  next
    case True
    define w1 where "w1 = flushFlags False w"
    note f = flush_full[OF Cons.prems(1) True, folded w1_def]
    obtain bits' bs' where l: "lay 1 (pend_after (w_pending w \<noteq> None) t) ts = (bits', bs')" by force
    have fin: "w_dst (flushFlags True (fold emit ts (emit t w)))
        = put_flags (length (w_dst w)) (flagword (is_match t # bits')) (patch (w_pending w) (next_nib (t # ts)) (w_dst w1))
          @ ltok_bytes (w_pending w \<noteq> None) t ts @ bs'"
      using small[OF f(1), of bits' bs'] l f(2,3,5) by simp
    let ?X = "put_flags (w_flagPos w) (flagword prev) (patch (w_pending w) (next_nib (t # ts)) (w_dst w))"
    have wf: "w_flagPos w + 4 \<le> length (w_dst w)"
      "case w_pending w of None \<Rightarrow> True | Some p \<Rightarrow> p < length (w_dst w) \<and> (p < w_flagPos w \<or> w_flagPos w + 4 \<le> p)"
      using Cons.prems(1) by (simp_all add: wr_def)
    have "patch (w_pending w) n (w_dst w1) = put_flags (w_flagPos w) (flagword prev) (patch (w_pending w) n (w_dst w)) @ [0, 0, 0, 0]" for n
      unfolding f(4) using wf patch_put_flags[OF wf] by (subst patch_append) (auto split: option.split)
    moreover have "put_flags (length (w_dst w)) g (?X @ [0, 0, 0, 0]) = ?X @ to_le 4 (uint g)" for g
      using wf(1) by (simp add: put_flags_def[of "length (w_dst w)"])
    ultimately show ?thesis using fin Cons.prems(3) True l by auto
  qed
qed

subsection \<open>What is read\<close>

lemma readU16_back: "readU16 (two_bytes t @ r) = Inr (t, r)"
proof -
  have "uint (drop_bit 8 t) = uint t div 256" by (simp add: uint_div drop_bit_eq_div)
  then have "(ucast (drop_bit 8 t) :: byte) = of_int (uint t div 256)" by (simp add: ucast_eq[of "drop_bit 8 t"] del: of_int_uint)
  then have "two_bytes t = to_le 2 (uint t)" by (simp only: two_bytes_def numeral_2_eq_2 to_le.simps of_int_uint)
  moreover have "of_le (to_le 2 (uint t)) = uint t" using uint_lt2p[of t] by (simp add: of_le_to_le)
  ultimately show ?thesis by (simp add: readU16_def)
qed

lemma tok_word_parts:
  assumes "1 \<le> off" "off \<le> 8192" "3 \<le> len"
  shows "unat (tok_word off len AND 7) = (if len - 3 > 7 then 7 else len - 3)" "unat (drop_bit 3 (tok_word off len)) + 1 = off"
proof -
  define l where "l = (if len - 3 > 7 then 10 else len)"
  have t: "tok_word off len = mk_tuple 3 off l" by (simp add: tok_word_def mk_tuple_def l_def)
  note p = mk_tuple_parts[of 3 off l]
  have l: "3 \<le> l" "l \<le> 10" using assms by (auto simp: l_def)
  have "unat (tok_word off len) AND 7 = l - 3" using p(1) assms l t by simp
  then show "unat (tok_word off len AND 7) = (if len - 3 > 7 then 7 else len - 3)" by (simp add: unsigned_and_eq l_def)
  show "unat (drop_bit 3 (tok_word off len)) + 1 = off" using p(2) assms l t by (simp add: unat_drop_bit_eq)
qed

lemma half_bytes:
  fixes x y :: byte
  assumes "take_bit 4 x = x" "take_bit 4 y = y"
  shows "(x OR push_bit 4 y) AND 0x0f = x" "drop_bit 4 (x OR push_bit 4 y) = y"
proof -
  have "(x OR push_bit 4 y) AND 0x0f = take_bit 4 (x OR push_bit 4 y)"
    by (simp add: take_bit_eq_mask mask_eq_exp_minus_1)
  then show "(x OR push_bit 4 y) AND 0x0f = x" using assms(1) by (simp add: take_bit_push_bit)
  have b: "\<not> bit x n" "\<not> bit y n" if "4 \<le> n" for n using assms that by (metis bit_take_bit_iff not_le)+
  show "drop_bit 4 (x OR push_bit 4 y) = y"
    by (rule bit_word_eqI) (use b(1)[OF le_add1] b(2) in \<open>auto simp: bit_simps not_less intro: ccontr\<close>)
qed

lemma nibble_half: "take_bit 4 (of_nat (nibble len) :: byte) = of_nat (nibble len)"
proof -
  have "nibble len < 2 ^ 4" by (simp add: nibble_def)
  then show ?thesis by (metis take_bit_nat_eq_self take_bit_of_nat)
qed

lemma next_nib_half: "take_bit 4 (next_nib ts) = next_nib ts"
  by (induction ts rule: next_nib.induct) (simp_all add: nibble_half)

lemma unat_nibble: "unat (of_nat (nibble len) :: byte) = nibble len"
  by (simp add: unat_of_nat nibble_def)

lemma read_extra_back:
  assumes "25 \<le> len" "len \<le> 65539"
  shows "read_extra (extra_bytes len @ r) = Inr (len, r)"
proof (cases "len - 25 < 255")
  case True
  then have "unat (of_nat (len - 25) :: byte) = len - 25" by (simp add: unat_of_nat)
  moreover from this True have "(of_nat (len - 25) :: byte) < 255" by (simp add: word_less_nat_alt)
  ultimately show ?thesis using True assms
    by (simp add: read_extra_def extra_bytes_def write_extra_def readU8_def lz77_minMatch_def)
next
  case long: False
  define total :: u32 where "total = of_nat (len - 3)"
  have u: "unat total = len - 3" unfolding total_def unat_of_nat using assms by simp
  have lt: "total < 2 ^ 16 \<longleftrightarrow> len - 3 < 65536" by (simp add: word_less_nat_alt u)
  have m: "\<not> total < 22" using long by (simp add: word_less_nat_alt u)
  have e: "extra_bytes len = 0xff # (if total < 2 ^ 16 then to_le 2 (uint (ucast total :: u16)) else [0, 0] @ to_le 4 (uint total))"
    using long assms(1) by (simp add: extra_bytes_def write_extra_def total_def lz77_minMatch_def)
  show ?thesis
  proof (cases "total < 2 ^ 16")
    case True
    have un: "unat (ucast total :: u16) = len - 3" using True unfolding lt by (simp add: unsigned_ucast_eq u take_bit_nat_eq_self)
    then have "(ucast (ucast total :: u16) :: u32) = total" unfolding total_def by (metis of_nat_unat)
    moreover have "(ucast total :: u16) \<noteq> 0" using un long by (intro notI) simp
    moreover have "of_le (to_le 2 (uint (ucast total :: u16))) = uint (ucast total :: u16)"
      using uint_lt2p[of "ucast total :: u16"] by (simp add: of_le_to_le)
    ultimately show ?thesis using True m u long unfolding e
      by (simp add: read_extra_def readU8_def readU16_def lz77_minMatch_def)
  next
    case False
    have "of_le (to_le 4 (uint total)) = uint total" using uint_lt2p[of total] by (simp add: of_le_to_le)
    then show ?thesis using False m u long unfolding e
      by (simp add: read_extra_def readU8_def readU16_def readU32_def lz77_minMatch_def)
  qed
qed

text \<open>The half byte the decompressor has in hand, while one is still to be used.\<close>

definition saved_ok :: "bool \<Rightarrow> byte option \<Rightarrow> byte \<Rightarrow> bool" where
  "saved_ok pd saved n \<longleftrightarrow> (if pd then \<exists>s. saved = Some s \<and> drop_bit 4 s = n else saved = None)"

lemma read_length_back:
  assumes "3 \<le> len" "len \<le> 65539" "saved_ok pd saved (next_nib (LMatch off len # ts))"
  obtains saved' where "saved_ok (pend_after pd (LMatch off len)) saved' (next_nib ts)"
    "read_length (if len - 3 > 7 then 7 else len - 3) saved
       ((if len < 10 then [] else (if pd then [] else [of_nat (nibble len) OR push_bit 4 (next_nib ts)]) @ extra_bytes len) @ r)
     = Inr (len, saved', r)"
proof (cases "len < 10")
  case True
  then have "(if len - 3 > 7 then 7 else len - 3) = len - 3" "len - 3 < 7" by simp_all
  then show thesis using True assms that[of saved] by (simp add: read_length_def lz77_minMatch_def)
next
  case long: False
  then have b: "(if len - 3 > 7 then 7 else len - 3) = (7 :: nat)" by auto
  have rest: "(if nibble len < 15 then Inr (nibble len + 7 + lz77_minMatch, s, extra_bytes len @ r)
      else sum_bind (read_extra (extra_bytes len @ r)) (\<lambda>(len, inp). Inr (len, s, inp))) = Inr (len, s, r)" for s :: "byte option"
  proof (cases "nibble len < 15")
    case True
    then have "len < 25" "nibble len = len - 10" using long by (auto simp: nibble_def split: if_split_asm)
    then show ?thesis using True long by (simp add: extra_bytes_def lz77_minMatch_def)
  next
    case False
    then have "25 \<le> len" using long by (auto simp: nibble_def split: if_split_asm)
    then show ?thesis using False read_extra_back[OF _ assms(2)] by simp
  qed
  show thesis
  proof (cases pd)
    case True
    then obtain s where s: "saved = Some s" "drop_bit 4 s = of_nat (nibble len)" using assms(3) long by (auto simp: saved_ok_def)
    then show thesis using that[of None] long True rest[of None] unfolding b
      by (simp add: read_length_def unat_nibble saved_ok_def)
  next
    case False
    then have s: "saved = None" using assms(3) by (simp add: saved_ok_def)
    let ?b = "of_nat (nibble len) OR push_bit 4 (next_nib ts) :: byte"
    have "?b AND 0x0f = of_nat (nibble len)" "drop_bit 4 ?b = next_nib ts"
      by (rule half_bytes[OF nibble_half next_nib_half])+
    then show thesis using that[of "Some ?b"] long False s rest[of "Some ?b"] unfolding b
      by (simp add: read_length_def readU8_def unat_nibble saved_ok_def)
  qed
qed

lemma expand_grows: "length dst \<le> length (expand dst ts)"
proof (induction dst ts rule: expand.induct)
  case (3 dst off len ts)
  then show ?case by (simp add: length_copy_match)
qed simp_all

lemma token_read:
  assumes "valid_toks dst (t # ts)" "bit f k \<longleftrightarrow> is_match t" "saved_ok pd saved (next_nib (t # ts))"
    and "limit \<le> 0 \<or> int (length (expand dst (t # ts))) \<le> limit"
  obtains saved' where "saved_ok (pend_after pd t) saved' (next_nib ts)"
    "lz77_Decompress_loop limit (ltok_bytes pd t ts @ r) f (Suc k) saved dst
      = lz77_Decompress_loop limit r f k saved' (expand dst [t])"
proof (cases t)
  case (LLit b)
  have "limit \<le> 0 \<or> int (length dst + 1) \<le> limit" using assms(4) expand_grows[of "dst @ [b]" ts] LLit by auto
  then have "lz77_Decompress_loop limit (ltok_bytes pd t ts @ r) f (Suc k) saved dst = lz77_Decompress_loop limit r f k saved (dst @ [b])"
    using LLit assms(2) next_flag[of k f] by (subst lz77_Decompress_loop.simps) (auto simp: Let_def readU8_def)
  then show thesis using that[of saved] assms(3) LLit by simp
next
  case (LMatch off len)
  let ?dst = "copy_match (length dst - off) 0 len dst"
  have v: "1 \<le> off" "off \<le> 8192" "off \<le> length dst" "3 \<le> len" "len \<le> 65539" using assms(1) LMatch by simp_all
  have lim: "\<not> (limit > 0 \<and> int (length dst + len) > limit)"
    using assms(4) expand_grows[of ?dst ts] LMatch by (auto simp: length_copy_match)
  obtain saved' where s: "saved_ok (pend_after pd t) saved' (next_nib ts)"
    and l: "read_length (if len - 3 > 7 then 7 else len - 3) saved
       ((if len < 10 then [] else (if pd then [] else [of_nat (nibble len) OR push_bit 4 (next_nib ts)]) @ extra_bytes len) @ r)
     = Inr (len, saved', r)"
    using read_length_back[OF v(4,5), of pd saved off ts r] assms(3) LMatch by metis
  let ?t = "tok_word off len"
  have "\<not> (unat (drop_bit 3 ?t) + 1 < 1 \<or> unat (drop_bit 3 ?t) + 1 > windowSize \<or> unat (drop_bit 3 ?t) + 1 > length dst)"
    using tok_word_parts(2)[OF v(1,2,4)] v by (simp add: windowSize_def)
  then have "read_match limit saved (ltok_bytes pd t ts @ r) dst = Inr (?dst, saved', r)"
    unfolding read_match_def LMatch ltok_bytes.simps append_assoc readU16_back sum_bind_simps Let_def prod.case
    using l lim tok_word_parts[OF v(1,2,4)] by (simp only: if_False sum_bind_simps prod.case)
  moreover have "ltok_bytes pd t ts \<noteq> []" and flag: "bit f k" using LMatch assms(2) by (simp_all add: two_bytes_def)
  ultimately have "lz77_Decompress_loop limit (ltok_bytes pd t ts @ r) f (Suc k) saved dst = lz77_Decompress_loop limit r f k saved' ?dst"
    using flag next_flag[of k f] by (subst lz77_Decompress_loop.simps) (simp add: Let_def)
  then show thesis using that[OF s] LMatch by simp
qed

lemma flag_word_read:
  "lz77_Decompress_loop limit (to_le 4 (uint F) @ inp) f 0 saved dst = lz77_Decompress_loop limit inp F 32 saved dst"
proof -
  have "of_le (to_le 4 (uint F)) = uint F" using uint_lt2p[of F] by (simp add: of_le_to_le)
  moreover have "to_le 4 (uint F) @ inp \<noteq> []" by (metis append_is_Nil_conv length_to_le list.size(3) zero_neq_numeral)
  ultimately show ?thesis by (subst (1 2) lz77_Decompress_loop.simps) simp
qed

lemma layout_read:
  assumes "valid_toks dst ts" "lay (length prev) pd ts = (bits, bs)" "length prev \<le> 32"
    and "length prev < 32 \<Longrightarrow> f = flagword (prev @ bits)" "saved_ok pd saved (next_nib ts)"
    and "limit \<le> 0 \<or> int (length (expand dst ts)) \<le> limit"
  shows "lz77_Decompress_loop limit bs f (32 - length prev) saved dst = Inr (expand dst ts)"
  using assms
proof (induction ts arbitrary: dst prev pd bits bs f saved)
  case Nil
  show ?case
  proof (cases "length prev = 32")
    case True
    then show ?thesis using Nil by (subst lz77_Decompress_loop.simps) simp
  next
    case False
    then have "length prev < 32" using Nil.prems(3) by simp
    then have "bit f (31 - length prev)" using Nil.prems(2,4) bit_flagword[of prev "31 - length prev"] by simp
    then show ?thesis using \<open>length prev < 32\<close> Nil.prems(2) next_flag[of "31 - length prev" f]
      by (subst lz77_Decompress_loop.simps) (simp add: Let_def)
  qed
next
  case (Cons t ts)
  have step: "lz77_Decompress_loop limit (ltok_bytes pd t ts @ bs') f (32 - length prev) saved dst = Inr (expand dst (t # ts))"
    if l: "lay (length prev + 1) (pend_after pd t) ts = (bits', bs')" and p: "length prev < 32"
      and f: "f = flagword (prev @ is_match t # bits')" for prev bits' bs' f
  proof -
    have b: "length prev + 1 + length bits' \<le> 32" using lay_bits[of "length prev + 1" "pend_after pd t" ts] l p by simp
    have "bit f (31 - length prev) \<longleftrightarrow> is_match t"
      using bit_flagword[of "prev @ is_match t # bits'" "31 - length prev"] b p unfolding f by (simp add: nth_append)
    then obtain saved' where s: "saved_ok (pend_after pd t) saved' (next_nib ts)"
      "lz77_Decompress_loop limit (ltok_bytes pd t ts @ bs') f (Suc (31 - length prev)) saved dst
        = lz77_Decompress_loop limit bs' f (31 - length prev) saved' (expand dst [t])"
      using token_read[OF Cons.prems(1) _ Cons.prems(5,6)] by blast
    have v: "valid_toks (expand dst [t]) ts" "expand dst (t # ts) = expand (expand dst [t]) ts"
      using Cons.prems(1) by (cases t; simp)+
    have "lz77_Decompress_loop limit bs' f (32 - length (prev @ [is_match t])) saved' (expand dst [t]) = Inr (expand (expand dst [t]) ts)"
      by (rule Cons.IH[OF v(1)]) (use l p f s(1) v(2) Cons.prems(6) in auto)
    then show ?thesis using s(2) v(2) p by (simp add: Suc_diff_le[symmetric] del: expand.simps)
  qed
  show ?case
  proof (cases "length prev = 32")
    case False
    then have p: "length prev < 32" using Cons.prems(3) by simp
    obtain bits' bs' where l: "lay (length prev + 1) (pend_after pd t) ts = (bits', bs')" by force
    then show ?thesis using step[OF l p] Cons.prems(2) Cons.prems(4)[OF p] False by auto
  next
    case True
    obtain bits' bs' where l: "lay 1 (pend_after pd t) ts = (bits', bs')" by force
    then have "bs = to_le 4 (uint (flagword (is_match t # bits'))) @ ltok_bytes pd t ts @ bs'" using Cons.prems(2) True by auto
    then show ?thesis using step[of "[]" bits' bs' "flagword (is_match t # bits')"] l True flag_word_read by simp
  qed
qed

subsection \<open>The round trip\<close>

lemma compressed_layout:
  assumes "src \<noteq> []"
  shows "lz77_Compress src = snd (lay 32 False (lz77_tokens src 0 \<lparr>lz_head = (\<lambda>_. -1), lz_next = (\<lambda>_. -1)\<rparr>))"
proof -
  let ?ch = "\<lparr>lz_head = (\<lambda>_. -1), lz_next = (\<lambda>_. -1)\<rparr>"
  let ?w = "\<lparr>w_dst = [0, 0, 0, 0], w_flagPos = 0, w_flags = 0, w_flagCount = 0, w_pending = None\<rparr>"
  obtain t ts where t: "lz77_tokens src 0 ?ch = t # ts"
    using tokens_stand_for_input[of 0 src ?ch] assms by (cases "lz77_tokens src 0 ?ch") auto
  obtain bits bs where l: "lay 1 (pend_after False t) ts = (bits, bs)" by force
  have "wr ?w []" by (simp add: wr_def bitsval_def)
  from emit_all[OF this, of "t # ts" "is_match t # bits" "ltok_bytes False t ts @ bs"] l
  show ?thesis using assms t by (simp add: lz77_Compress_def loop_emits put_flags_def patch_def)
qed

lemma lz77_comes_back:
  assumes "limit \<le> 0 \<or> int (length src) \<le> limit"
  shows "lz77_Decompress (lz77_Compress src) limit = Inr src"
proof (cases "src = []")
  case True
  then show ?thesis by (simp add: lz77_Compress_def lz77_Decompress_def lz77_Decompress_loop.simps)
next
  case False
  let ?ts = "lz77_tokens src 0 \<lparr>lz_head = (\<lambda>_. -1), lz_next = (\<lambda>_. -1)\<rparr>"
  have t: "expand [] ?ts = src" "valid_toks [] ?ts" using tokens_stand_for_input[of 0 src] by simp_all
  obtain bits bs where l: "lay (length (replicate 32 False)) False ?ts = (bits, bs)" by force
  have "lz77_Decompress_loop limit bs 0 (32 - length (replicate 32 False)) None [] = Inr (expand [] ?ts)"
    by (rule layout_read[OF t(2) l]) (use assms t in \<open>simp_all add: saved_ok_def\<close>)
  then show ?thesis using compressed_layout[OF False] l t(1) by (simp add: lz77_Decompress_def)
qed

interpretation lz77_codec: block_codec "\<lambda>src. Some (lz77_Compress src)" lz77_Decompress
  by unfold_locales (auto simp: lz77_comes_back lz77_Decompress_bound)

text \<open>C12 (lz77_roundtrip). Whatever is compressed with LZ77 comes back from the decompressor as it was, at any limit it fits
  in and at none: with every match the search picks, every flag word filled in after its tokens, and every pair of
  long matches that share a byte for their lengths, however far apart they are.\<close>

theorem lz77_roundtrip:
  assumes "limit \<le> 0 \<or> int (length src) \<le> limit"
  shows "lz77_Decompress (lz77_Compress src) limit = Inr src"
  by (rule lz77_comes_back[OF assms])

theorem lz77_roundtrip_witness:
  "lz77_Decompress (lz77_Compress [7, 7, 7, 7, 7, 7, 7, 7, 7, 7, 7, 7, 7]) 13 = Inr [7, 7, 7, 7, 7, 7, 7, 7, 7, 7, 7, 7, 7]"
  by (rule lz77_roundtrip) simp

end
