(* ===== verification/Huffman_Roundtrip.thy ===== *)
theory Huffman_Roundtrip
  imports Huffman_Items Lz77_Roundtrip
begin

section \<open>LZ77 with Huffman codes: what is compressed comes back\<close>

text \<open>
  The items of a block are written as a stream of bits and plain bytes, under codes that exist for each of them; the
  decoder reads the stream item by item, measures it, and finds the next block behind it.
\<close>

subsection \<open>Writing items\<close>

definition length_ops :: "nat \<Rightarrow> wop list" where
  "length_ops n =
     (if n < 15 then []
      else if n - 15 < 255 then [WRaw [of_nat (n - 15)]]
      else if n < 65536 then [WRaw [255], WRaw (to_le 2 (uint (of_nat n :: u16)))]
      else [WRaw [255], WRaw (to_le 2 (uint (0 :: u16))), WRaw (to_le 4 (uint (of_nat n :: u32)))])"

definition item_ops :: "byte list \<Rightarrow> huff_item \<Rightarrow> wop list" where
  "item_ops ls it = WBits (unat (ls ! item_symbol it)) (ucast (canonicalCodes ls ! item_symbol it)) #
     (if it_length it = 0 then []
      else length_ops (it_length it - 3) @
        [WBits (Len32 (it_distance it) - 1) (of_nat (it_distance it) - push_bit (Len32 (it_distance it) - 1) 1)])"

lemma write_length_ops: "write_length n w = fold do_op (length_ops n) w"
  by (auto simp: write_length_def length_ops_def Let_def writeByte_def writeUint16_def writeUint32_def)

lemma write_item_ops: "write_item ls (canonicalCodes ls) it w = fold do_op (item_ops ls it) w"
  by (simp add: write_item_def item_ops_def item_symbol_def Let_def write_length_ops huff_minMatch_def)

text \<open>The rest of a distance, below its highest bit.\<close>

lemma distance_rest:
  assumes "1 \<le> d" "d \<le> 65535"
  defines "h \<equiv> Len32 d - 1"
  shows "(of_nat d - push_bit h 1 :: u32) = of_nat (d - 2 ^ h)" "unat (of_nat d - push_bit h 1 :: u32) = d - 2 ^ h"
    "h \<le> j \<Longrightarrow> \<not> bit (of_nat d - push_bit h 1 :: u32) j"
proof -
  note b = Len32_high[OF assms(1,2), folded h_def]
  have "(of_nat (d - 2 ^ h) :: u32) = of_nat d - of_nat (2 ^ h)" using b(2) by (rule of_nat_diff)
  then show e: "(of_nat d - push_bit h 1 :: u32) = of_nat (d - 2 ^ h)" by (simp add: push_bit_eq_mult)
  have "d - 2 ^ h < 2 ^ 32" using assms(2) by simp
  then show "unat (of_nat d - push_bit h 1 :: u32) = d - 2 ^ h" unfolding e unat_of_nat by simp
  assume "h \<le> j"
  then have "d - 2 ^ h < 2 ^ j" using b(3) by (meson less_le_trans one_le_numeral power_increasing)
  then have "\<not> bit (d - 2 ^ h) j" by (simp add: bit_iff_odd)
  then show "\<not> bit (of_nat d - push_bit h 1 :: u32) j" unfolding e by (simp only: bit_of_nat_iff)  simp
qed

lemma item_ops_ok:
  assumes "lengths_ok ls" "length ls = symbolCount" "ls ! item_symbol it > 0" "item_ok dst it"
  shows "list_all wop_ok (item_ops ls it)"
proof -
  have s: "item_symbol it < length ls" using item_symbol_less[OF assms(4)] assms(2) by simp
  have "list_all wop_ok (length_ops n)" for n by (simp add: length_ops_def)
  moreover have "wop_ok (WBits (Len32 d - 1) (of_nat d - push_bit (Len32 d - 1) 1))" if "1 \<le> d" "d \<le> 65535" for d
    using distance_rest(3)[OF that] Len32_high(1)[OF that] by simp
  ultimately show ?thesis using code_wop_ok[OF assms(1) s assms(3)] assms(4) by (auto simp: item_ops_def item_ok_def)
qed

subsection \<open>Reading items\<close>

lemma read_length_item:
  assumes "rinv r c T (concat (map bops (length_ops n)) @ ops) tail" "0 < c" "n < 65536"
  obtains r' where "huff_read_length (min n 15) r = Inr (n, r')" "rinv r' c T ops tail"
proof -
  consider "n < 15" | "15 \<le> n" "n - 15 < 255" | "255 \<le> n - 15" by linarith
  then show thesis
  proof cases
    case 1
    then show thesis using that[of r] assms(1) by (simp add: huff_read_length_def length_ops_def)
  next
    case 2
    have u: "unat (of_nat (n - 15) :: byte) = n - 15" using 2(2) unfolding unat_of_nat by simp
    have "rinv r c T (Raw [of_nat (n - 15)] # ops) tail" using assms(1) 2 by (simp add: length_ops_def)
    then obtain r' where r': "huff_readByte r = Some (of_nat (n - 15), r')" "rinv r' c T ops tail"
      using readByte_read[OF _ assms(2)] by blast
    have "huff_read_length (min n 15) r = Inr (n, r')"
      using 2 u by (simp add: huff_read_length_def r'(1) some_or_def word_less_nat_alt del: of_nat_diff)
    then show thesis using that r'(2) by blast
  next
    case 3
    then have ne: "\<not> n < 15" "\<not> n - 15 < 255" by simp_all
    let ?v = "of_nat n :: u16"
    have u: "unat ?v = n" using assms(3) unfolding unat_of_nat by simp
    then have nz: "?v \<noteq> 0" using 3 by (metis unat_0 not_less diff_0_eq_0 le_zero_eq zero_neq_numeral)
    have "rinv r c T (Raw [255] # Raw (to_le 2 (uint ?v)) # ops) tail" using assms(1,3) ne by (simp add: length_ops_def)
    then obtain r1 where r1: "huff_readByte r = Some (255, r1)" "rinv r1 c T (Raw (to_le 2 (uint ?v)) # ops) tail"
      using readByte_read[OF _ assms(2)] by blast
    obtain r' where r': "huff_readUint16 r1 = Some (?v, r')" "rinv r' c T ops tail" using readUint16_read[OF r1(2) assms(2)] by blast
    have "huff_read_length (min n 15) r = Inr (n, r')"
      using 3 u nz by (simp add: huff_read_length_def r1(1) r'(1) some_or_def)
    then show thesis using that r'(2) by blast
  qed
qed

lemma read_distance:
  assumes "rinv r c T (bops (WBits (Len32 d - 1) (of_nat d - push_bit (Len32 d - 1) 1)) @ ops) tail" "0 < c" "1 \<le> d" "d \<le> 65535"
  obtains low r' c' T' where "take_bits (Len32 d - 1) r = (low, r')" "push_bit (Len32 d - 1) 1 + unat low = d" "rinv r' c' T' ops tail" "0 < c'"
proof -
  let ?h = "Len32 d - 1"
  let ?v = "of_nat d - push_bit ?h 1 :: u32"
  note b = Len32_high[OF assms(3,4)] and v = distance_rest[OF assms(3,4)]
  have d: "push_bit ?h 1 + unat ?v = d" using v(2) b(2) by (simp add: push_bit_eq_mult)
  show thesis
  proof (cases "?h = 0")
    case True
    then have "take_bits ?h r = (0, r)" "rinv r c T ops tail" using assms(1) by (simp_all add: take_bits_def bits_of_def)
    moreover have "push_bit ?h 1 + unat (0 :: u32) = d" using d v(2) b True by simp
    ultimately show thesis using that assms(2) by blast
  next
    case False
    have "bits_val (bits_of ?h ?v) = ?v" using v(3) by (rule bits_val_of)
    moreover obtain r' c' T' where "take_bits (length (bits_of ?h ?v)) r = (bits_val (bits_of ?h ?v), r')" "rinv r' c' T' ops tail" "0 < c'"
      by (rule take_read[OF assms(1)[unfolded bops.simps]]) (use False b(1) in simp_all)
    ultimately show thesis using that d by simp
  qed
qed

lemma block_match_step:
  assumes "produced < want" "symbol t r = Some (sy, r1)" "eofSymbol \<le> sy" "sy \<noteq> eofSymbol"
    and "huff_read_length ((sy - eofSymbol) AND 15) r1 = Inr (n, r2)" "drop_bit 4 (sy - eofSymbol) = h" "take_bits h r2 = (low, r3)"
    and "push_bit h 1 + unat low = d" "d \<le> length dst" "n + huff_minMatch = len" "produced + len \<le> want"
  shows "block_symbols t want dst produced r = block_symbols t want (copy_match (length dst - d) 0 len dst) (produced + len) r3"
  using assms by (subst block_symbols.simps) (simp add: Let_def)

lemma item_read:
  assumes ls: "lengths_ok ls" "length ls = symbolCount" "ls ! item_symbol it > 0" and it: "item_ok dst it"
    and r: "rinv r c T (concat (map bops (item_ops ls it)) @ ops) tail" and p: "produced + item_size it \<le> want"
  obtains r' c' T' where "rinv r' c' T' ops tail" "0 < c'"
    "block_symbols (newDecodeTable ls) want dst produced r
      = block_symbols (newDecodeTable ls) want (put_item dst it) (produced + item_size it) r'"
proof -
  let ?t = "newDecodeTable ls" and ?s = "item_symbol it"
  have s: "?s < length ls" using item_symbol_less[OF it] ls(2) by simp
  have more: "produced < want" using p by (auto simp: item_size_def split: if_split_asm)
  let ?rest = "concat (map bops (tl (item_ops ls it))) @ ops"
  have "concat (map bops (item_ops ls it)) @ ops = bops (WBits (unat (ls ! ?s)) (ucast (canonicalCodes ls ! ?s))) @ ?rest"
    by (simp add: item_ops_def)
  with r have "rinv r c T (bops (WBits (unat (ls ! ?s)) (ucast (canonicalCodes ls ! ?s))) @ ?rest) tail" by simp
  then obtain r1 c1 T1 where r1: "symbol ?t r = Some (?s, r1)" "rinv r1 c1 T1 ?rest tail" "0 < c1"
    using symbol_read[OF ls(1) s ls(3)] by blast
  show thesis
  proof (cases "it_length it = 0")
    case True
    have "unat (it_literal it) < 2 ^ 8" using unsigned_less[of "it_literal it"] by simp
    then have "?s < eofSymbol" "of_nat ?s = it_literal it" using True by (simp_all add: item_symbol_def eofSymbol_def)
    then have "block_symbols ?t want dst produced r = block_symbols ?t want (put_item dst it) (produced + item_size it) r1"
      using more r1(1) True by (subst block_symbols.simps) (simp add: put_item_def item_size_def)
    then show thesis using that r1(2,3) True by (simp add: item_ops_def)
  next
    case False
    let ?n = "it_length it - 3" and ?d = "it_distance it"
    have i: "1 \<le> ?d" "?d \<le> 65535" "?d \<le> length dst" "3 \<le> it_length it" "it_length it \<le> 65536" "\<not> (it_length it = 3 \<and> ?d = 1)"
      using it False by (simp_all add: item_ok_def)
    have s': "?s = match_symbol (it_length it) ?d" using False by (simp add: item_symbol_def)
    note m = match_symbol_parts[OF i(1,2,4), folded s']
    have a: "(?s - eofSymbol) AND 15 = min ?n 15"
    proof -
      have "(?s - eofSymbol) AND 15 = (?s - eofSymbol) mod 16" using and_mask_mod[of "?s - eofSymbol" 4] by simp
      also have "\<dots> = min ?n 15 mod 16" unfolding m(1) by simp
      also have "\<dots> = min ?n 15" by (rule mod_less) (simp add: min_def)
      finally show ?thesis .
    qed
    have h: "drop_bit 4 (?s - eofSymbol) = Len32 ?d - 1"
    proof -
      have "min ?n 15 < 16" by (simp add: min_def)
      then have "(min ?n 15 + 16 * (Len32 ?d - 1)) div 16 = Len32 ?d - 1" by simp
      then show ?thesis unfolding m(1) drop_bit_eq_div by simp
    qed
    have q: "?n < 65536" using i(4,5) by simp
    have rr: "rinv r1 c1 T1 (concat (map bops (length_ops ?n)) @ bops (WBits (Len32 ?d - 1) (of_nat ?d - push_bit (Len32 ?d - 1) 1)) @ ops) tail"
      using r1(2) False by (simp add: item_ops_def)
    obtain r2 where r2: "huff_read_length (min ?n 15) r1 = Inr (?n, r2)"
      "rinv r2 c1 T1 (bops (WBits (Len32 ?d - 1) (of_nat ?d - push_bit (Len32 ?d - 1) 1)) @ ops) tail"
      using read_length_item[OF rr r1(3) q] by blast
    obtain low r3 c3 T3 where r3: "take_bits (Len32 ?d - 1) r2 = (low, r3)" "push_bit (Len32 ?d - 1) 1 + unat low = ?d" "rinv r3 c3 T3 ops tail" "0 < c3"
      using read_distance[OF r2(2) r1(3) i(1,2)] by blast
    have l: "?n + huff_minMatch = it_length it" using i(4) by (simp add: huff_minMatch_def)
    have "block_symbols ?t want dst produced r = block_symbols ?t want (put_item dst it) (produced + item_size it) r3"
      using block_match_step[OF more r1(1) m(3) m(4)[OF i(6)] r2(1)[folded a] h r3(1,2) i(3) l] p False
      by (simp add: put_item_def item_size_def)
    then show thesis using that r3(3,4) by blast
  qed
qed

lemma items_read:
  assumes "lengths_ok ls" "length ls = symbolCount" "\<forall>it \<in> set its. ls ! item_symbol it > 0" "items_ok dst its"
    and "rinv r c T (concat (map bops (concat (map (item_ops ls) its))) @ ops) tail" "its \<noteq> [] \<or> 0 < c"
    and "produced + sum_list (map item_size its) = want"
  obtains r' c' T' where "rinv r' c' T' ops tail" "0 < c'"
    "block_symbols (newDecodeTable ls) want dst produced r = Inr (foldl put_item dst its, r')"
proof -
  have "\<exists>r' c' T'. rinv r' c' T' ops tail \<and> 0 < c' \<and>
      block_symbols (newDecodeTable ls) want dst produced r = Inr (foldl put_item dst its, r')"
    using assms(3-)
  proof (induction its arbitrary: dst r c T produced)
    case Nil
    then show ?case by (intro exI[of _ r] exI[of _ c] exI[of _ T]) (simp add: block_symbols.simps)
  next
    case (Cons it its)
    have it: "ls ! item_symbol it > 0" "item_ok dst it" "produced + item_size it \<le> want" using Cons.prems(1,2,5) by simp_all
    have rr: "rinv r c T (concat (map bops (item_ops ls it)) @ (concat (map bops (concat (map (item_ops ls) its))) @ ops)) tail"
      using Cons.prems(3) by simp
    obtain r1 c1 T1 where r1: "rinv r1 c1 T1 (concat (map bops (concat (map (item_ops ls) its))) @ ops) tail" "0 < c1"
      "block_symbols (newDecodeTable ls) want dst produced r
        = block_symbols (newDecodeTable ls) want (put_item dst it) (produced + item_size it) r1"
      using item_read[OF assms(1,2) it(1,2) rr it(3)] by blast
    show ?case using Cons.IH[of "put_item dst it" r1 c1 T1 "produced + item_size it"] Cons.prems(1,2,5) r1 by (auto simp: add.assoc)
  qed
  then show thesis using that by blast
qed

subsection \<open>A block\<close>

lemma copy_match_prefix: "sp + k < length d \<Longrightarrow> copy_match (length pre + sp) k n (pre @ d) = pre @ copy_match sp k n d"
proof (induction n arbitrary: k d)
  case (Suc n)
  have "(pre @ d) ! (length pre + sp + k) = d ! (sp + k)" by (simp add: add.assoc)
  then show ?case using Suc.IH[of "k + 1" "d @ [d ! (sp + k)]"] Suc.prems by simp
qed simp

lemma put_item_prefix: "item_ok d it \<Longrightarrow> put_item (pre @ d) it = pre @ put_item d it"
  using copy_match_prefix[of "length d - it_distance it" 0 d pre "it_length it"]
  by (auto simp: put_item_def item_ok_def)

lemma items_prefix: "items_ok d its \<Longrightarrow> items_ok (pre @ d) its \<and> foldl put_item (pre @ d) its = pre @ foldl put_item d its"
proof (induction its arbitrary: d)
  case (Cons it its)
  then have "item_ok (pre @ d) it" by (auto simp: item_ok_def)
  then show ?case using Cons put_item_prefix[of d it pre] by simp
qed simp

lemma length_put_items: "length (foldl put_item dst its) = length dst + sum_list (map item_size its)"
proof (induction its arbitrary: dst)
  case (Cons it its)
  have "length (put_item dst it) = length dst + item_size it" by (simp add: put_item_def item_size_def length_copy_match)
  then show ?case using Cons by simp
qed simp

lemma write_items_ops: "fold (write_item ls (canonicalCodes ls)) items w = fold do_op (concat (map (item_ops ls) items)) w"
  by (induction items arbitrary: w) (simp_all add: write_item_ops)

lemma items_ops_ok:
  "lengths_ok ls \<Longrightarrow> length ls = symbolCount \<Longrightarrow> \<forall>it \<in> set its. ls ! item_symbol it > 0 \<Longrightarrow> items_ok dst its
    \<Longrightarrow> list_all wop_ok (concat (map (item_ops ls) its))"
  by (induction dst its rule: items_ok.induct) (auto simp: item_ops_ok)

lemma table_lengths_back:
  assumes "length ls = symbolCount" "list_all (\<lambda>x. unat x \<le> 15) ls"
  shows "table_lengths (length_table ls) = ls"
proof -
  have half: "take_bit 4 (ls ! i) = ls ! i" if "i < symbolCount" for i
  proof -
    have "unat (ls ! i) < 2 ^ 4" using assms that by (auto simp: list_all_length)
    then have "take_bit 4 (unat (ls ! i)) = unat (ls ! i)" by (rule take_bit_nat_eq_self)
    then show ?thesis by (metis of_nat_unat unsigned_take_bit_eq ucast_id)
  qed
  have "concat (map (\<lambda>i. [ls ! (2 * i), ls ! (2 * i + 1)]) [0..<n]) = take (2 * n) ls" if "2 * n \<le> length ls" for n
    using that by (induction n) (simp_all add: take_Suc_conv_app_nth)
  from this[of tableSize] have "concat (map (\<lambda>i. [ls ! (2 * i), ls ! (2 * i + 1)]) [0..<tableSize]) = ls"
    using assms(1) by (simp add: huff_consts)
  moreover have "map ((\<lambda>b. [b AND 0x0f, drop_bit 4 b]) \<circ> (\<lambda>i. ls ! (2 * i) OR push_bit 4 (ls ! (2 * i + 1)))) [0..<tableSize]
      = map (\<lambda>i. [ls ! (2 * i), ls ! (2 * i + 1)]) [0..<tableSize]"
    using half_bytes half by (intro map_cong) (simp_all add: huff_consts)
  ultimately show ?thesis unfolding table_lengths_def length_table_def map_map by (simp only:)
qed

lemma block_back:
  assumes "src \<noteq> []" "length src \<le> 65536"
  obtains B where "\<And>dst. huff_compressBlock dst src isLast = Some (dst @ B)" "tableSize < length B"
    "\<And>tail pre. huff_decompressBlock (newDecodeTable (table_lengths (take tableSize B))) (drop tableSize B @ tail) pre (length src) isLast
      = Inr (pre @ src, length B - tableSize)"
proof -
  obtain items freq where pa: "parse src isLast = (items, freq)" by force
  note p = parse_facts[OF assms(2) pa]
  obtain ls where ls: "codeLengths freq = Some ls" "lengths_ok ls" "covers freq ls" using codeLengths_some[OF p(3,4)] by blast
  have l: "length ls = symbolCount" "list_all (\<lambda>x. unat x \<le> 15) ls" using ls by (simp_all add: covers_def lengths_ok_def)
  have pos: "\<forall>it \<in> set items. ls ! item_symbol it > 0" using p(5) ls(3) items_symbols_less[OF p(2)] by (auto simp: covers_def)
  have eof: "isLast \<Longrightarrow> ls ! eofSymbol > 0" "eofSymbol < length ls" using p(6) ls(3) l(1) by (auto simp: covers_def huff_consts)
  let ?e = "if isLast then [WBits (unat (ls ! eofSymbol)) (ucast (canonicalCodes ls ! eofSymbol))] else []"
  let ?ops = "concat (map (item_ops ls) items) @ ?e"
  let ?bs = "concat (map bops ?ops)"
  define T where "T = stream_bits ?bs"
  define S where "S = to_le 2 (uint (wd T 0)) @ to_le 2 (uint (wd T 1)) @ slots 0 T ?bs"
  have ok: "list_all wop_ok ?ops" using items_ops_ok[OF ls(2) l(1) pos p(2)] code_wop_ok[OF ls(2) eof(2,1)] by simp
  have t: "length (length_table ls) = tableSize" by (simp add: length_table_def)
  have c: "huff_compressBlock dst src isLast = Some (dst @ length_table ls @ S)" for dst
  proof -
    have "huff_compressBlock dst src isLast = Some (huff_flush (fold do_op ?ops (newWriter (dst @ length_table ls))))"
      by (simp add: huff_compressBlock_def pa ls(1) Let_def write_items_ops)
    then show ?thesis using stream_written[OF ok T_def] by (simp add: S_def)
  qed
  have d: "huff_decompressBlock (newDecodeTable ls) (S @ tail) pre (length src) isLast = Inr (pre @ src, length S)" for tail pre
  proof -
    let ?r = "newReader (S @ tail)"
    have r0: "rinv ?r 0 T (concat (map bops (concat (map (item_ops ls) items))) @ concat (map bops ?e)) tail"
      using newReader_inv[OF T_def, of "S @ tail" tail] by (simp add: S_def)
    have px: "items_ok pre items" "foldl put_item pre items = pre @ src" using items_prefix[OF p(2), of pre] p(1) by simp_all
    have sz: "0 + sum_list (map item_size items) = length src" using length_put_items[of "[]" items] p(1) by simp
    have ne: "items \<noteq> [] \<or> 0 < (0 :: nat)" using p(1) assms(1) by auto
    obtain r1 c1 T1 where r1: "rinv r1 c1 T1 (concat (map bops ?e)) tail" "0 < c1"
      "block_symbols (newDecodeTable ls) (length src) pre 0 ?r = Inr (pre @ src, r1)"
      using items_read[OF ls(2) l(1) pos px(1) r0 ne sz] px(2) by metis
    have "\<exists>r2 c2 T2. rinv r2 c2 T2 [] tail \<and> 0 < c2 \<and> hr_buf r2 = hr_buf r1 \<and>
        (if isLast then (case symbol (newDecodeTable ls) r1 of None \<Rightarrow> Inl huff_ErrInvalidFormat
                       | Some (sy, r) \<Rightarrow> if sy \<noteq> eofSymbol then Inl huff_ErrInvalidFormat else Inr r)
         else Inr r1) = Inr r2"
    proof (cases isLast)
      case True
      then have "rinv r1 c1 T1 (bops (WBits (unat (ls ! eofSymbol)) (ucast (canonicalCodes ls ! eofSymbol))) @ []) tail" using r1(1) by simp
      then obtain r2 c2 T2 where "symbol (newDecodeTable ls) r1 = Some (eofSymbol, r2)" "rinv r2 c2 T2 [] tail" "0 < c2"
        using symbol_read[OF ls(2) eof(2) eof(1)[OF True]] by blast
      then show ?thesis using True symbol_buf by fastforce
    qed (use r1 in auto)
    then obtain r2 c2 T2 where r2: "rinv r2 c2 T2 [] tail" "0 < c2" "hr_buf r2 = hr_buf r1"
      "(if isLast then (case symbol (newDecodeTable ls) r1 of None \<Rightarrow> Inl huff_ErrInvalidFormat
                       | Some (sy, r) \<Rightarrow> if sy \<noteq> eofSymbol then Inl huff_ErrInvalidFormat else Inr r)
         else Inr r1) = Inr r2" by blast
    note u = bytes_read[OF r2(1,2)]
    have "hr_buf r2 = S @ tail" using r2(3) block_symbols_result[OF r1(3)] by (simp add: newReader_def)
    moreover have "hr_pos r2 \<le> length (hr_buf r2)" using r2(1) by (simp add: rinv_def)
    ultimately have "hr_pos r2 = length S" using arg_cong[OF u(2), of length] by simp
    then show ?thesis using r1(3) r2(4) u(1) by (simp add: huff_decompressBlock_def Let_def)
  qed
  show thesis
  proof (rule that[of "length_table ls @ S"])
    show "tableSize < length (length_table ls @ S)" by (simp add: t S_def)
    show "huff_decompressBlock (newDecodeTable (table_lengths (take tableSize (length_table ls @ S)))) (drop tableSize (length_table ls @ S) @ tail)
        pre (length src) isLast = Inr (pre @ src, length (length_table ls @ S) - tableSize)" for tail pre
      using d[of tail pre] by (simp add: t table_lengths_back[OF l])
  qed (rule c)
qed

subsection \<open>All the blocks\<close>

lemma blocks_back:
  assumes "start \<le> length src"
  shows "\<exists>R. (\<forall>dst. huff_blocks src start dst = Some (dst @ R))
    \<and> (\<forall>pb. huff_Decompress_loop (pb @ R) (int (length src)) (length pb) (take start src) = Inr src)"
  using assms
proof (induction "length src - start" arbitrary: start rule: less_induct)
  case less
  show ?case
  proof (cases "start < length src")
    case False
    then show ?thesis using less.prems by (intro exI[of _ "[]"]) (simp add: huff_blocks.simps huff_Decompress_loop.simps)
  next
    case True
    let ?stop = "min (start + blockSize) (length src)"
    let ?b = "take (?stop - start) (drop start src)" and ?last = "?stop = length src"
    have lb: "length ?b = ?stop - start" using True by simp
    have b: "?b \<noteq> []" "length ?b \<le> 65536" using True lb by (auto simp: blockSize_def simp flip: length_greater_0_conv)
    obtain B where B: "\<And>dst. huff_compressBlock dst ?b ?last = Some (dst @ B)" "tableSize < length B"
      "\<And>tail pre. huff_decompressBlock (newDecodeTable (table_lengths (take tableSize B))) (drop tableSize B @ tail) pre (length ?b) ?last
        = Inr (pre @ ?b, length B - tableSize)"
      using block_back[OF b, of ?last] by blast
    have te: "take start src @ ?b = take ?stop src" by (metis le_add_diff_inverse less_imp_le min.boundedI le_add1 take_add True)
    have sm: "length src - ?stop < length src - start" using True by (auto simp: blockSize_def min_def)
    obtain R where R: "\<forall>dst. huff_blocks src ?stop dst = Some (dst @ R)"
      "\<forall>pb. huff_Decompress_loop (pb @ R) (int (length src)) (length pb) (take ?stop src) = Inr src"
      using less.hyps[OF sm] by auto
    have rest: "huff_blocks src (start + blockSize) dst = Some (dst @ R)" for dst
    proof (cases "start + blockSize \<le> length src")
      case True
      then show ?thesis using R(1) by (simp add: min_absorb1)
    next
      case False
      then have "huff_blocks src (start + blockSize) dst = Some dst" "huff_blocks src ?stop dst = Some dst"
        by (simp_all add: huff_blocks.simps)
      then show ?thesis using R(1) by auto
    qed
    have "huff_blocks src start dst = Some (dst @ B @ R)" for dst
      using True B(1)[of dst] rest by (subst huff_blocks.simps) (simp add: Let_def)
    moreover have "huff_Decompress_loop (pb @ B @ R) (int (length src)) (length pb) (take start src) = Inr src" for pb
    proof -
      have len: "length (take start src) = start" using True by simp
      have w: "nat (min (int (length src) - int start) (int blockSize)) = length ?b" using True lb by simp
      have la: "(int (length src) - int start \<le> int blockSize) = ?last" using True by auto
      have tk: "take tableSize (drop (length pb) (pb @ B @ R)) = take tableSize B" "drop (length pb + tableSize) (pb @ B @ R) = drop tableSize B @ R"
        using B(2) by simp_all
      have "huff_Decompress_loop (pb @ B @ R) (int (length src)) (length pb) (take start src)
          = huff_Decompress_loop (pb @ B @ R) (int (length src)) (length pb + tableSize + (length B - tableSize)) (take ?stop src)"
        using True B(2) by (subst huff_Decompress_loop.simps) (simp only: len w la tk B(3) te Let_def, simp)
      also have "\<dots> = Inr src" using R(2)[rule_format, of "pb @ B"] B(2) by simp
      finally show ?thesis .
    qed
    ultimately show ?thesis by blast
  qed
qed

lemma huff_comes_back: "\<exists>c. huff_Compress src = Some c \<and> huff_Decompress c (int (length src)) = Inr src"
proof (cases "src = []")
  case True
  then show ?thesis by (simp add: huff_Compress_def huff_Decompress_def)
next
  case False
  then obtain R where R: "\<forall>dst. huff_blocks src 0 dst = Some (dst @ R)"
    "\<forall>pb. huff_Decompress_loop (pb @ R) (int (length src)) (length pb) (take 0 src) = Inr src"
    using blocks_back[of 0 src] by auto
  have "R \<noteq> []" using R(2)[rule_format, of "[]"] False by (auto simp: huff_Decompress_loop.simps)
  then show ?thesis using R(1)[rule_format, of "[]"] R(2)[rule_format, of "[]"] False
    by (simp add: huff_Compress_def huff_Decompress_def)
qed

interpretation huffman_codec: block_codec huff_Compress huff_Decompress
proof
  show "huff_Decompress b (int (length src)) = Inr src" if "huff_Compress src = Some b" for src b
    using huff_comes_back[of src] that by auto
qed (simp add: huff_Decompress_length)

text \<open>C11 (huffman_roundtrip). Compressing returns, whatever the input, and decompressing with the length of the input gives
  the input back: with codes for any frequencies, flattened as often as it takes; with lengths that stand as plain
  bytes between the words of the bit stream; and over as many blocks as the input fills.\<close>

theorem huffman_roundtrip: "\<exists>c. huff_Compress src = Some c \<and> huff_Decompress c (int (length src)) = Inr src"
  by (rule huff_comes_back)

end
