(* ===== verification/Compression.thy ===== *)
theory Compression
  imports Huffman_Roundtrip Requests
begin

section \<open>Compressed messages\<close>

text \<open>
  \<^verbatim>\<open>src/compress.go\<close>, the dispatcher of \<^verbatim>\<open>src/compress/compress.go\<close> and the pattern scan of \<^verbatim>\<open>src/compress/patternv1.go\<close>: what the
  server makes of a message that arrives compressed, in either shape, and which messages it compresses itself.
  LZ4 comes from outside of the repository: its two calls are a record of functions. A panic is \<^const>\<open>None\<close>, and so
  is a compression that would not return.
\<close>

definition COMPRESSION_NONE :: u16 where "COMPRESSION_NONE = 0x0000"
definition COMPRESSION_LZNT1 :: u16 where "COMPRESSION_LZNT1 = 0x0001"
definition COMPRESSION_LZ77 :: u16 where "COMPRESSION_LZ77 = 0x0002"
definition COMPRESSION_LZ77_HUFFMAN :: u16 where "COMPRESSION_LZ77_HUFFMAN = 0x0003"
definition COMPRESSION_PATTERN_V1 :: u16 where "COMPRESSION_PATTERN_V1 = 0x0004"
definition COMPRESSION_LZ4 :: u16 where "COMPRESSION_LZ4 = 0x0005"
definition COMPRESSION_CAPABILITIES_FLAG_CHAINED :: u16 where "COMPRESSION_CAPABILITIES_FLAG_CHAINED = 0x0001"
definition SMB2CompressionTransformHeaderSize :: nat where "SMB2CompressionTransformHeaderSize = 16"
definition SMB2CompressionPayloadHeaderOffset :: nat where "SMB2CompressionPayloadHeaderOffset = 8"
definition SMB2CompressionPayloadHeaderSize :: nat where "SMB2CompressionPayloadHeaderSize = 8"
definition SMB2ReadResponseMinSize :: nat where "SMB2ReadResponseMinSize = 16"
definition minCompressedSegment :: nat where "minCompressedSegment = 64 * 1024"

lemmas algorithm_defs = COMPRESSION_NONE_def COMPRESSION_LZNT1_def COMPRESSION_LZ77_def COMPRESSION_LZ77_HUFFMAN_def
  COMPRESSION_PATTERN_V1_def COMPRESSION_LZ4_def

lemmas transform_defs = SMB2CompressionTransformHeaderSize_def SMB2CompressionPayloadHeaderOffset_def
  SMB2CompressionPayloadHeaderSize_def SMB2ReadResponseMinSize_def minCompressedSegment_def

datatype comp_error = CErr wire_error | CErr_lznt1 lznt1_error | CErr_lz77 lz77_error | CErr_huffman huff_error | CErr_lz4 | CErr_lz4_size

subsection \<open>The algorithms\<close>

record lz4_lib =
  lz4_CompressBlock :: "bytes \<Rightarrow> bytes option"
  lz4_UncompressBlock :: "bytes \<Rightarrow> nat \<Rightarrow> bytes option"

definition with_error :: "('e \<Rightarrow> 'f) \<Rightarrow> 'e + 'a \<Rightarrow> 'f + 'a" where
  "with_error f m = (case m of Inl e \<Rightarrow> Inl (f e) | Inr x \<Rightarrow> Inr x)"

definition Compressor_Compress :: "lz4_lib \<Rightarrow> u16 \<Rightarrow> bytes \<Rightarrow> (comp_error + bytes) go" where
  "Compressor_Compress L algo src =
     (if algo = COMPRESSION_LZ77 then Some (Inr (lz77_Compress src))
      else if algo = COMPRESSION_LZ77_HUFFMAN then map_option Inr (huff_Compress src)
      else if algo = COMPRESSION_LZ4 then
        Some (if src = [] then Inr [] else case lz4_CompressBlock L src of None \<Rightarrow> Inl CErr_lz4 | Some b \<Rightarrow> Inr b)
      else if algo = COMPRESSION_LZNT1 then Some (Inr (lznt1_Compress src))
      else Some (Inr []))"

definition Compressor_Decompress :: "lz4_lib \<Rightarrow> u16 \<Rightarrow> bytes \<Rightarrow> int \<Rightarrow> comp_error + bytes" where
  "Compressor_Decompress L algo src limit =
     (if algo = COMPRESSION_LZ77 then with_error CErr_lz77 (lz77_Decompress src limit)
      else if algo = COMPRESSION_LZ77_HUFFMAN then with_error CErr_huffman (huff_Decompress src limit)
      else if algo = COMPRESSION_LZ4 then
        (if src = [] then Inr [] else if limit \<le> 0 then Inl CErr_lz4_size
         else case lz4_UncompressBlock L src (nat limit) of None \<Rightarrow> Inl CErr_lz4 | Some b \<Rightarrow> Inr b)
      else if algo = COMPRESSION_LZNT1 then with_error CErr_lznt1 (lznt1_Decompress src limit)
      else Inr [])"

text \<open>Runs of one byte, at the front and at the back, of 64 at least.\<close>

fun scan_run :: "byte \<Rightarrow> bytes \<Rightarrow> u32 \<Rightarrow> u32" where
  "scan_run p [] n = n"
| "scan_run p (b # bs) n = (if p = b then scan_run p bs (n + 1) else n)"

definition ScanForDataPatternsV1 :: "bytes \<Rightarrow> PatternV1 option \<times> PatternV1 option" where
  "ScanForDataPatternsV1 b =
     (if b = [] then (None, None)
      else let reps = scan_run (hd b) (tl b) 1;
               reps = (if reps < 64 then 0 else reps);
               forward = \<lparr>Pattern = hd b, Repetitions = reps\<rparr>
           in if reps = of_nat (length b) then (Some forward, None)
              else let reps = scan_run (last b) (tl (rev b)) 1;
                       reps = (if reps < 64 then 0 else reps)
                   in (Some forward, Some \<lparr>Pattern = last b, Repetitions = reps\<rparr>))"

subsection \<open>What arrives compressed\<close>

record comp_conn =
  cc_compressionSupported :: bool
  cc_compressionIDs :: "u16 list"
  cc_supportsChainedCompression :: bool
  cc_maxReadSize :: u64
  cc_maxWriteSize :: u64
  cc_maxTransactSize :: u64

definition invalid :: "(comp_error + 'a) go" where
  "invalid = Some (Inl (CErr ErrInvalidParameter))"

definition pattern_chunk :: "u32 \<Rightarrow> bytes \<Rightarrow> (comp_error + bytes) go" where
  "pattern_chunk ocss b =
     do { v1 \<leftarrow> PatternV1_Unmarshal b;
          case v1 of
            Inl e \<Rightarrow> Some (Inl (CErr e))
          | Inr v1 \<Rightarrow> if Repetitions v1 > ocss then invalid else Some (Inr (replicate (unat (Repetitions v1)) (Pattern v1))) }"

text \<open>One payload of a chain: what it comes apart to. The end of the third slice is a sum of 32 bits.\<close>

definition payload_chunk :: "lz4_lib \<Rightarrow> u32 \<Rightarrow> u16 \<Rightarrow> u32 \<Rightarrow> nat \<Rightarrow> bytes \<Rightarrow> bytes \<Rightarrow> (comp_error + bytes) go" where
  "payload_chunk L ocss algo len offset ph msg =
     (if algo = COMPRESSION_NONE then
        if unat len > length msg - (offset + SMB2CompressionPayloadHeaderSize) \<or> len > ocss then invalid
        else map_option Inr (slice (offset + SMB2CompressionPayloadHeaderSize) (offset + SMB2CompressionPayloadHeaderSize + unat len) msg)
      else if algo = COMPRESSION_PATTERN_V1 then
        do { b \<leftarrow> slice SMB2CompressionPayloadHeaderSize (SMB2CompressionPayloadHeaderSize + unat len) ph; pattern_chunk ocss b }
      else if len < 4 then invalid
      else do {
        ops \<leftarrow> Uint32_at SMB2CompressionPayloadHeaderSize ph;
        b \<leftarrow> slice (SMB2CompressionPayloadHeaderSize + 4) (unat (of_nat SMB2CompressionPayloadHeaderSize + len)) ph;
        case Compressor_Decompress L algo b (uint ocss) of
          Inl e \<Rightarrow> Some (Inl e)
        | Inr chunk \<Rightarrow> if of_nat (length chunk) \<noteq> ops then Some (Inl (CErr ErrWrongLength)) else Some (Inr chunk) })"

definition chained_payload :: "lz4_lib \<Rightarrow> comp_conn \<Rightarrow> u32 \<Rightarrow> bytes \<Rightarrow> nat \<Rightarrow> bytes \<Rightarrow> (comp_error + bytes \<times> nat) go" where
  "chained_payload L cc ocss msg offset output =
     (if offset + SMB2CompressionPayloadHeaderSize > length msg then Some (Inl (CErr ErrWrongFormat))
      else do {
        ph \<leftarrow> slice offset (length msg) msg;
        algo \<leftarrow> PayloadHeader_CompressionAlgorithm ph;
        if algo \<noteq> COMPRESSION_NONE \<and> algo \<notin> set (cc_compressionIDs cc) then invalid
        else do {
          len \<leftarrow> PayloadHeader_Length ph;
          if offset + SMB2CompressionPayloadHeaderSize + unat len > length msg then invalid
          else do {
            chunk \<leftarrow> payload_chunk L ocss algo len offset ph msg;
            case chunk of
              Inl e \<Rightarrow> Some (Inl e)
            | Inr chunk \<Rightarrow>
                if length (output @ chunk) > unat ocss then invalid
                else Some (Inr (output @ chunk, offset + SMB2CompressionPayloadHeaderSize + unat len)) } } })"

lemma chained_payload_result:
  assumes "chained_payload L cc ocss msg offset output = Some (Inr (output', offset'))"
  shows "offset < offset' \<and> offset' \<le> length msg \<and> length output' \<le> unat ocss"
proof -
  obtain len chunk where "offset + 8 + unat len \<le> length msg"
    and c: "(case chunk of Inl e \<Rightarrow> Some (Inl e)
        | Inr chunk \<Rightarrow> if length output + length chunk > unat ocss then invalid
            else Some (Inr (output @ chunk, offset + 8 + unat (len :: u32)))) = Some (Inr (output', offset'))"
    using assms unfolding chained_payload_def transform_defs invalid_def
    by (auto simp: bind_eq_Some_conv not_less split: if_split_asm)
  then show ?thesis by (cases chunk) (auto simp: invalid_def split: if_split_asm)
qed

function chained_loop :: "lz4_lib \<Rightarrow> comp_conn \<Rightarrow> u32 \<Rightarrow> bytes \<Rightarrow> nat \<Rightarrow> bytes \<Rightarrow> (comp_error + bytes) go" where
  "chained_loop L cc ocss msg offset output =
     (if offset = length msg then Some (Inr output)
      else case chained_payload L cc ocss msg offset output of
             None \<Rightarrow> None
           | Some (Inl e) \<Rightarrow> Some (Inl e)
           | Some (Inr (output, offset)) \<Rightarrow> chained_loop L cc ocss msg offset output)"
  by pat_completeness auto
termination
  by (relation "measure (\<lambda>(_, _, _, msg, offset, _). length msg - offset)") (auto dest!: chained_payload_result)

declare chained_loop.simps [simp del]

definition unchained :: "lz4_lib \<Rightarrow> comp_conn \<Rightarrow> u32 \<Rightarrow> bytes \<Rightarrow> (comp_error + bytes \<times> nat) go" where
  "unchained L cc ocss msg =
     do { off \<leftarrow> Header_Offset msg;
          let start = unat off in
          if SMB2CompressionTransformHeaderSize + start > length msg then invalid
          else do {
            output \<leftarrow> (if start > 0 then slice SMB2CompressionTransformHeaderSize (SMB2CompressionTransformHeaderSize + start) msg else Some []);
            algo \<leftarrow> Header_CompressionAlgorithm msg;
            if algo \<notin> set (cc_compressionIDs cc) then invalid
            else do {
              rest \<leftarrow> slice (SMB2CompressionTransformHeaderSize + start) (length msg) msg;
              b \<leftarrow> (if algo = COMPRESSION_PATTERN_V1 then pattern_chunk ocss rest
                    else Some (Compressor_Decompress L algo rest (uint ocss)));
              Some (case b of Inl e \<Rightarrow> Inl e | Inr b \<Rightarrow> Inr (output @ b, start)) } } }"

definition check_output :: "u32 \<Rightarrow> bytes \<Rightarrow> nat \<Rightarrow> (comp_error + bytes) go" where
  "check_output ocss output start =
     (if of_nat (length output - start) \<noteq> ocss then Some (Inl (CErr ErrWrongLength))
      else if length output < SMB2HeaderSize then Some (Inl (CErr ErrWrongLength))
      else do { id \<leftarrow> Header_ProtocolID output;
                Some (if id \<noteq> PROTOCOL_SMB2 then Inl (CErr WrongProtocol) else Inr output) })"

definition decompress :: "lz4_lib \<Rightarrow> comp_conn \<Rightarrow> bytes \<Rightarrow> (comp_error + bytes) go" where
  "decompress L cc msg =
     (if \<not> cc_compressionSupported cc \<or> cc_compressionIDs cc = [] then Some (Inl (CErr ErrCompressedMessage))
      else if length msg < SMB2CompressionTransformHeaderSize then Some (Inl (CErr ErrWrongLength))
      else do {
        ocss \<leftarrow> Header_OriginalCompressedSegmentSize msg;
        if ocss = 0 \<or> (ucast ocss :: u64) > 256 + of_nat SMB2CompressionTransformHeaderSize
             + max (cc_maxReadSize cc) (max (cc_maxWriteSize cc) (cc_maxTransactSize cc)) then invalid
        else do {
          flags \<leftarrow> Header_CompressionFlags msg;
          if flags AND NOT COMPRESSION_CAPABILITIES_FLAG_CHAINED \<noteq> 0 then invalid
          else let chained = (flags = COMPRESSION_CAPABILITIES_FLAG_CHAINED)
            in if chained \<and> \<not> cc_supportsChainedCompression cc then invalid
               else do {
                 r \<leftarrow> (if chained
                       then map_option (map_sum id (\<lambda>output. (output, 0)))
                              (chained_loop L cc ocss msg SMB2CompressionPayloadHeaderOffset [])
                       else unchained L cc ocss msg);
                 case r of
                   Inl e \<Rightarrow> Some (Inl e)
                 | Inr (output, start) \<Rightarrow> check_output ocss output start } } })"

subsection \<open>What is sent compressed\<close>

definition compressOffset :: "bytes \<Rightarrow> nat go" where
  "compressOffset msg =
     (if length msg < SMB2HeaderSize + SMB2ReadResponseMinSize then Some 0
      else do {
        cmd \<leftarrow> Header_Command msg;
        status \<leftarrow> Header_Status msg;
        nxt \<leftarrow> Header_NextCommand msg;
        if cmd \<noteq> SMB2_READ \<or> status \<noteq> STATUS_OK \<or> nxt \<noteq> 0 then Some 0
        else do {
          b \<leftarrow> byte_at (SMB2HeaderSize + 2) msg;
          let off = unat b in
          Some (if off < SMB2HeaderSize + SMB2ReadResponseMinSize \<or> off \<ge> length msg then 0 else off) } })"

definition sendCompressionPreference :: "u16 list" where
  "sendCompressionPreference = [COMPRESSION_LZ77_HUFFMAN, COMPRESSION_LZNT1, COMPRESSION_LZ4]"

definition pickCompression :: "u16 list \<Rightarrow> u16" where
  "pickCompression offered =
     (case find (\<lambda>want. want \<in> set offered) sendCompressionPreference of Some want \<Rightarrow> want | None \<Rightarrow> COMPRESSION_NONE)"

definition compress_header :: "u32 \<Rightarrow> u16 \<Rightarrow> u32 \<Rightarrow> bytes go" where
  "compress_header sz algo offset =
     do { h \<leftarrow> Header_SetProtocolID PROTOCOL_SMB2_COMPRESSED (replicate SMB2CompressionTransformHeaderSize 0);
          h \<leftarrow> Header_SetOriginalCompressedSegmentSize sz h;
          h \<leftarrow> Header_SetCompressionAlgorithm algo h;
          Header_SetOffset offset h }"

definition compress :: "lz4_lib \<Rightarrow> comp_conn \<Rightarrow> bytes \<Rightarrow> bytes go" where
  "compress L cc msg =
     (if \<not> cc_compressionSupported cc \<or> cc_compressionIDs cc = [] then Some msg
      else let algo = pickCompression (cc_compressionIDs cc) in
        if algo = COMPRESSION_NONE then Some msg
        else do {
          offset \<leftarrow> compressOffset msg;
          if length msg - offset < minCompressedSegment then Some msg
          else do {
            seg \<leftarrow> slice offset (length msg) msg;
            r \<leftarrow> Compressor_Compress L algo seg;
            case r of
              Inl e \<Rightarrow> Some msg
            | Inr b \<Rightarrow>
                if b = [] then Some msg
                else if SMB2CompressionTransformHeaderSize + offset + length b \<ge> length msg then Some msg
                else do {
                  h \<leftarrow> compress_header (of_nat (length msg - offset)) algo (of_nat offset);
                  head \<leftarrow> slice 0 offset msg;
                  Some (h @ head @ b) } } })"

end
