(* ===== verification/Compressed_Messages.thy ===== *)
theory Compressed_Messages
  imports Compression
begin

section \<open>Compressed messages: bounds and the way back\<close>

text \<open>
  Nothing a peer can send makes the server panic over it or take up more room than the message announces, which is
  held to what the connection allows; and what the server compresses itself, its own way back gives the message again.
  Of LZ4 both need that it fills at most the room it is given and undoes itself.
\<close>

definition lz4_ok :: "lz4_lib \<Rightarrow> bool" where
  "lz4_ok L \<longleftrightarrow> (\<forall>b n d. lz4_UncompressBlock L b n = Some d \<longrightarrow> length d \<le> n)
     \<and> (\<forall>src b. lz4_CompressBlock L src = Some b \<longrightarrow> lz4_UncompressBlock L b (length src) = Some src)"

subsection \<open>Bounds\<close>

lemma with_error_Inr [simp]: "with_error f m = Inr x \<longleftrightarrow> m = Inr x"
  by (cases m) (simp_all add: with_error_def)

lemma Decompress_bound:
  assumes "lz4_ok L" "0 < limit" "Compressor_Decompress L algo src limit = Inr b"
  shows "int (length b) \<le> limit"
proof -
  have "int (length d) \<le> limit" if "lz4_UncompressBlock L src (nat limit) = Some d" for d
    using assms(1,2) that unfolding lz4_ok_def by (metis nat_le_iff zero_less_imp_eq_int of_nat_le_iff nat_int)
  then show ?thesis using assms(2,3)
    by (auto simp: Compressor_Decompress_def lznt1_codec.bounded lz77_codec.bounded huffman_codec.bounded split: if_split_asm option.split_asm)
qed

lemma pattern_chunk_safe [simp]: "safe (pattern_chunk ocss b)"
  by (auto simp: pattern_chunk_def PatternV1_Unmarshal_def invalid_def split: sum.split)

lemma pattern_chunk_bound:
  assumes "pattern_chunk ocss b = Some (Inr c)"
  shows "length c \<le> unat ocss"
proof -
  obtain v1 where v: "PatternV1_Unmarshal b = Some v1" using assms by (auto simp: pattern_chunk_def bind_eq_Some_conv)
  show ?thesis using assms v by (cases v1) (auto simp: pattern_chunk_def invalid_def word_less_nat_alt not_less split: if_split_asm)
qed

lemma payload_chunk_safe:
  assumes "offset + 8 + unat len \<le> length msg" "length msg < 2 ^ 31" "ph = drop offset msg"
  shows "safe (payload_chunk L ocss algo len offset ph msg)"
proof -
  have "unat (8 + len) = 8 + unat len" using assms(1,2) by (simp add: unat_word_ariths)
  then show ?thesis using assms
    by (auto simp: payload_chunk_def transform_defs invalid_def word_less_nat_alt not_less split: sum.split)
qed

lemma chained_payload_safe:
  assumes "length msg < 2 ^ 31"
  shows "safe (chained_payload L cc ocss msg offset output)"
proof (cases "offset + 8 > length msg")
  case False
  then have s: "slice offset (length msg) msg = Some (drop offset msg)" by (simp add: slice_def)
  show ?thesis unfolding chained_payload_def using False payload_chunk_safe[OF _ assms refl]
    by (auto simp: s transform_defs invalid_def PayloadHeader_CompressionAlgorithm_def PayloadHeader_Length_def split: sum.split)
qed (simp add: chained_payload_def transform_defs)

lemma chained_loop_result:
  "length msg < 2 ^ 31 \<Longrightarrow> length output \<le> unat ocss \<Longrightarrow>
     \<exists>r. chained_loop L cc ocss msg offset output = Some r \<and> (\<forall>out. r = Inr out \<longrightarrow> length out \<le> unat ocss)"
proof (induction L cc ocss msg offset "output" rule: chained_loop.induct)
  case (1 L cc ocss msg offset acc)
  show ?case
  proof (cases "offset = length msg")
    case True
    then show ?thesis using 1(3) by (simp add: chained_loop.simps)
  next
    case False
    obtain r where r: "chained_payload L cc ocss msg offset acc = Some r" using chained_payload_safe[OF 1(2)] by (rule safeE)
    show ?thesis
    proof (cases r)
      case (Inl e)
      then show ?thesis using False r by (subst chained_loop.simps) simp
    next
      case (Inr p)
      obtain out' off' where p: "p = (out', off')" by force
      have "chained_loop L cc ocss msg offset acc = chained_loop L cc ocss msg off' out'"
        using False r Inr p by (subst chained_loop.simps) simp
      then show ?thesis using 1(1)[OF False r Inr p[symmetric] 1(2)] chained_payload_result[of L cc ocss msg offset acc out' off'] r Inr p by simp
    qed
  qed
qed

lemma unchained_eq:
  assumes "Header_Offset msg = Some off" "Header_CompressionAlgorithm msg = Some algo"
  shows "unchained L cc ocss msg =
    (if 16 + unat off > length msg \<or> algo \<notin> set (cc_compressionIDs cc) then invalid
     else map_option (\<lambda>b. case b of Inl e \<Rightarrow> Inl e | Inr b \<Rightarrow> Inr (take (unat off) (drop 16 msg) @ b, unat off))
       (if algo = COMPRESSION_PATTERN_V1 then pattern_chunk ocss (drop (16 + unat off) msg)
        else Some (Compressor_Decompress L algo (drop (16 + unat off) msg) (uint ocss))))"
proof (cases "16 + unat off > length msg \<or> algo \<notin> set (cc_compressionIDs cc)")
  case True
  then show ?thesis using assms by (auto simp: unchained_def Let_def invalid_def transform_defs slice_def)
next
  case False
  then show ?thesis using assms
    by (cases "unat off = 0") (simp_all add: unchained_def Let_def transform_defs slice_def map_conv_bind_option comp_def cong: sum.case_cong)
qed

lemma segment_bound:
  assumes "lz4_ok L" "ocss \<noteq> 0"
    and "(if algo = COMPRESSION_PATTERN_V1 then pattern_chunk ocss rest else Some (Compressor_Decompress L algo rest (uint ocss))) = Some (Inr b)"
  shows "length b \<le> unat ocss"
proof (cases "algo = COMPRESSION_PATTERN_V1")
  case True
  then show ?thesis using assms(3) pattern_chunk_bound by simp
next
  case False
  have "0 < uint ocss" using assms(2) by (simp add: word_neq_0_conv word_less_def)
  then have "int (length b) \<le> uint ocss" using Decompress_bound[OF assms(1)] assms(3) False by simp
  then show ?thesis by (metis of_nat_le_iff uint_nat)
qed

lemma unchained_result:
  assumes "lz4_ok L" "16 \<le> length msg" "ocss \<noteq> 0"
  shows "\<exists>r. unchained L cc ocss msg = Some r \<and>
    (\<forall>out start. r = Inr (out, start) \<longrightarrow> start + 16 \<le> length msg \<and> start \<le> length out \<and> length out - start \<le> unat ocss)"
proof -
  have "safe (Header_Offset msg)" "safe (Header_CompressionAlgorithm msg)" using assms(2) by (simp_all add: header_get_defs)
  then obtain off algo where hd: "Header_Offset msg = Some off" "Header_CompressionAlgorithm msg = Some algo" by (auto elim!: safeE)
  define seg where "seg = (if algo = COMPRESSION_PATTERN_V1 then pattern_chunk ocss (drop (16 + unat off) msg)
        else Some (Compressor_Decompress L algo (drop (16 + unat off) msg) (uint ocss)))"
  have "safe seg" by (simp add: seg_def)
  then obtain b where b: "seg = Some b" by (rule safeE)
  note u = unchained_eq[OF hd, of L cc ocss, folded seg_def, unfolded b option.map]
  show ?thesis
  proof (cases b)
    case (Inl e)
    then show ?thesis using u by (auto simp: invalid_def)
  next
    case (Inr c)
    then have "length c \<le> unat ocss" using segment_bound[OF assms(1,3) b[unfolded seg_def Inr]] by simp
    then show ?thesis using u Inr by (auto simp: invalid_def)
  qed
qed

lemma check_output_result:
  assumes "start \<le> length out" "length out - start \<le> unat ocss"
  shows "\<exists>r. check_output ocss out start = Some r \<and>
    (\<forall>d. r = Inr d \<longrightarrow> d = out \<and> length out = start + unat ocss \<and> 64 \<le> length out \<and> Header_ProtocolID out = Some PROTOCOL_SMB2)"
proof (cases "of_nat (length out - start) = ocss \<and> 64 \<le> length out")
  case True
  then have "unat ocss = length out - start" using assms(2) using unsigned_less[of ocss] by (auto simp: unsigned_of_nat take_bit_nat_eq_self)
  moreover have "safe (Header_ProtocolID out)" using True by (simp add: header_get_defs)
  then obtain i where "Header_ProtocolID out = Some i" by (rule safeE)
  ultimately show ?thesis using True assms(1) by (auto simp: check_output_def SMB2HeaderSize_def)
qed (auto simp: check_output_def SMB2HeaderSize_def)

definition refused :: "comp_conn \<Rightarrow> u32 \<Rightarrow> u16 \<Rightarrow> bool" where
  "refused cc ocss flags \<longleftrightarrow> ocss = 0
     \<or> (ucast ocss :: u64) > 272 + max (cc_maxReadSize cc) (max (cc_maxWriteSize cc) (cc_maxTransactSize cc))
     \<or> flags AND NOT COMPRESSION_CAPABILITIES_FLAG_CHAINED \<noteq> 0
     \<or> flags = COMPRESSION_CAPABILITIES_FLAG_CHAINED \<and> \<not> cc_supportsChainedCompression cc"

definition taken_apart :: "lz4_lib \<Rightarrow> comp_conn \<Rightarrow> u32 \<Rightarrow> u16 \<Rightarrow> bytes \<Rightarrow> (comp_error + bytes \<times> nat) go" where
  "taken_apart L cc ocss flags msg =
     (if flags = COMPRESSION_CAPABILITIES_FLAG_CHAINED
      then map_option (map_sum id (\<lambda>out. (out, 0))) (chained_loop L cc ocss msg 8 [])
      else unchained L cc ocss msg)"

lemma decompress_eq:
  assumes "cc_compressionSupported cc" "cc_compressionIDs cc \<noteq> []" "16 \<le> length msg"
    and "Header_OriginalCompressedSegmentSize msg = Some ocss" "Header_CompressionFlags msg = Some flags"
  shows "decompress L cc msg = (if refused cc ocss flags then invalid
    else taken_apart L cc ocss flags msg \<bind> case_sum (\<lambda>e. Some (Inl e)) (\<lambda>(out, start). check_output ocss out start))"
  using assms by (simp add: decompress_def transform_defs Let_def refused_def taken_apart_def split del: if_split cong: if_cong) auto

lemma taken_apart_result:
  assumes "lz4_ok L" "length msg < 2 ^ 31" "16 \<le> length msg" "ocss \<noteq> 0"
  shows "\<exists>r. taken_apart L cc ocss flags msg = Some r \<and> (\<forall>out start. r = Inr (out, start) \<longrightarrow>
    start + 16 \<le> length msg \<and> start \<le> length out \<and> length out - start \<le> unat ocss)"
proof (cases "flags = COMPRESSION_CAPABILITIES_FLAG_CHAINED")
  case True
  obtain r where "chained_loop L cc ocss msg 8 [] = Some r" "\<forall>out. r = Inr out \<longrightarrow> length out \<le> unat ocss"
    using chained_loop_result[OF assms(2), of "[]" ocss L cc 8] by auto
  then show ?thesis using True assms(3) by (cases r) (auto simp: taken_apart_def)
qed (simp add: taken_apart_def unchained_result[OF assms(1,3,4)])

lemma decompress_result:
  assumes "lz4_ok L" "length msg < 2 ^ 31"
  shows "\<exists>r. decompress L cc msg = Some r \<and> (\<forall>out. r = Inr out \<longrightarrow>
    64 \<le> length out \<and> Header_ProtocolID out = Some PROTOCOL_SMB2 \<and>
    (\<exists>ocss. Header_OriginalCompressedSegmentSize msg = Some ocss \<and> unat ocss \<le> length out \<and>
       length out \<le> unat ocss + (length msg - 16) \<and>
       (ucast ocss :: u64) \<le> 272 + max (cc_maxReadSize cc) (max (cc_maxWriteSize cc) (cc_maxTransactSize cc))))"
proof (cases "\<not> cc_compressionSupported cc \<or> cc_compressionIDs cc = [] \<or> length msg < 16")
  case True
  then show ?thesis by (auto simp: decompress_def transform_defs)
next
  case False
  have "safe (Header_OriginalCompressedSegmentSize msg)" "safe (Header_CompressionFlags msg)" using False by (simp_all add: header_get_defs)
  then obtain ocss flags where h: "Header_OriginalCompressedSegmentSize msg = Some ocss" "Header_CompressionFlags msg = Some flags"
    by (auto elim!: safeE)
  then have d: "decompress L cc msg = (if refused cc ocss flags then invalid
    else taken_apart L cc ocss flags msg \<bind> case_sum (\<lambda>e. Some (Inl e)) (\<lambda>(out, start). check_output ocss out start))"
    using False by (intro decompress_eq) simp_all
  show ?thesis
  proof (cases "refused cc ocss flags")
    case True
    then show ?thesis using d by (simp add: invalid_def)
  next
    case ok: False
    have nz: "ocss \<noteq> 0" "16 \<le> length msg" using ok False by (auto simp: refused_def)
    obtain r where r: "taken_apart L cc ocss flags msg = Some r" "\<And>out start. r = Inr (out, start) \<Longrightarrow>
        start + 16 \<le> length msg \<and> start \<le> length out \<and> length out - start \<le> unat ocss"
      using taken_apart_result[OF assms nz(2,1), of cc flags] by blast
    show ?thesis
    proof (cases r)
      case (Inl e)
      then show ?thesis using d ok r(1) by simp
    next
      case (Inr p)
      obtain out start where p: "p = (out, start)" by force
      have b: "start + 16 \<le> length msg" "start \<le> length out" "length out - start \<le> unat ocss" using r(2) Inr p by auto
      have "decompress L cc msg = check_output ocss out start" using d ok r(1) Inr p by simp
      then show ?thesis using check_output_result[OF b(2,3)] b(1) h(1) ok by (auto simp: refused_def not_less)
    qed
  qed
qed

subsection \<open>The way back\<close>

lemma Compress_comes_apart:
  assumes "lz4_ok L" "Compressor_Compress L algo src = Some (Inr b)" "b \<noteq> []" "src \<noteq> []"
  shows "Compressor_Decompress L algo b (int (length src)) = Inr src"
proof -
  have "lz4_UncompressBlock L b (length src) = Some src" if "lz4_CompressBlock L src = Some b"
    using assms(1) that by (simp add: lz4_ok_def)
  then show ?thesis using assms(2-) lznt1_codec.comes_back[OF refl, of src] lz77_codec.comes_back[OF refl, of src]
    by (auto simp: Compressor_Compress_def Compressor_Decompress_def huffman_codec.comes_back algorithm_defs split: if_split_asm option.split_asm)
qed

definition transform_bytes :: "u32 \<Rightarrow> u16 \<Rightarrow> u32 \<Rightarrow> bytes" where
  "transform_bytes sz algo off =
     to_le 4 (uint PROTOCOL_SMB2_COMPRESSED) @ to_le 4 (uint sz) @ to_le 2 (uint algo) @ [0, 0] @ to_le 4 (uint off)"

lemma compress_header_bytes: "compress_header sz algo off = Some (transform_bytes sz algo off)"
proof -
  let ?P = "to_le 4 (uint PROTOCOL_SMB2_COMPRESSED)" and ?S = "to_le 4 (uint sz)" and ?A = "to_le 2 (uint algo)" and ?O = "to_le 4 (uint off)"
  let ?z = "replicate 4 (0 :: byte)"
  have z: "replicate 16 (0 :: byte) = ?z @ ?z @ [0, 0] @ [0, 0] @ ?z" by (simp add: numeral_eq_Suc)
  have "Header_SetProtocolID PROTOCOL_SMB2_COMPRESSED (?z @ r) = Some (?P @ r)" for r
    using put_at_mid[of ?z ?P 0 "[]"] by (simp add: Header_SetProtocolID_def uint_at_defs put_word_def)
  moreover have "Header_SetOriginalCompressedSegmentSize sz (?P @ ?z @ r) = Some (?P @ ?S @ r)" for r
    using put_at_mid[of ?z ?S 4 ?P] by (simp add: Header_SetOriginalCompressedSegmentSize_def uint_at_defs put_word_def)
  moreover have "Header_SetCompressionAlgorithm algo (?P @ ?S @ [0, 0] @ r) = Some (?P @ ?S @ ?A @ r)" for r
    using put_at_mid[of "[0, 0]" ?A 8 "?P @ ?S"] by (simp add: Header_SetCompressionAlgorithm_def uint_at_defs put_word_def)
  moreover have "Header_SetOffset off (?P @ ?S @ ?A @ [0, 0] @ ?z) = Some (?P @ ?S @ ?A @ [0, 0] @ ?O)"
    using put_at_mid[of ?z ?O 12 "?P @ ?S @ ?A @ [0, 0]" "[]"] by (simp add: Header_SetOffset_def uint_at_defs put_word_def)
  ultimately show ?thesis unfolding compress_header_def transform_defs z transform_bytes_def by simp
qed

lemma transform_bytes_fields:
  "length (transform_bytes sz algo off) = 16"
  "Header_ProtocolID (transform_bytes sz algo off @ r) = Some PROTOCOL_SMB2_COMPRESSED"
  "Header_OriginalCompressedSegmentSize (transform_bytes sz algo off @ r) = Some sz"
  "Header_CompressionAlgorithm (transform_bytes sz algo off @ r) = Some algo"
  "Header_CompressionFlags (transform_bytes sz algo off @ r) = Some 0"
  "Header_Offset (transform_bytes sz algo off @ r) = Some off"
proof -
  let ?P = "to_le 4 (uint PROTOCOL_SMB2_COMPRESSED)" and ?S = "to_le 4 (uint sz)" and ?A = "to_le 2 (uint algo)"
  have z: "to_le 2 0 = [0, 0]" by (simp add: numeral_2_eq_2)
  show "length (transform_bytes sz algo off) = 16" by (simp add: transform_bytes_def)
  show "Header_ProtocolID (transform_bytes sz algo off @ r) = Some PROTOCOL_SMB2_COMPRESSED"
    using word_in_bytes[of 0 "[]" 4 PROTOCOL_SMB2_COMPRESSED] by (simp add: transform_bytes_def Header_ProtocolID_def uint_at_defs)
  show "Header_OriginalCompressedSegmentSize (transform_bytes sz algo off @ r) = Some sz"
    using word_in_bytes[of 4 ?P 4 sz] by (simp add: transform_bytes_def Header_OriginalCompressedSegmentSize_def uint_at_defs)
  show "Header_CompressionAlgorithm (transform_bytes sz algo off @ r) = Some algo"
    using word_in_bytes[of 8 "?P @ ?S" 2 algo] by (simp add: transform_bytes_def Header_CompressionAlgorithm_def uint_at_defs)
  show "Header_CompressionFlags (transform_bytes sz algo off @ r) = Some 0"
    using word_in_bytes[of 10 "?P @ ?S @ ?A" 2 "0 :: u16"] by (simp add: z transform_bytes_def Header_CompressionFlags_def uint_at_defs)
  show "Header_Offset (transform_bytes sz algo off @ r) = Some off"
    using word_in_bytes[of 12 "?P @ ?S @ ?A @ [0, 0]" 4 off] by (simp add: transform_bytes_def Header_Offset_def uint_at_defs)
qed

lemma compressOffset_result: "\<exists>off. compressOffset msg = Some off \<and> off \<le> length msg \<and> off < 256"
proof -
  have b: "unat (b :: byte) < 256" for b using unsigned_less[of b] by simp
  show ?thesis
  proof (cases "length msg < 80")
    case False
    then have "safe (Header_Command msg)" "safe (Header_Status msg)" "safe (Header_NextCommand msg)" by (simp_all add: header_get_defs)
    then obtain c st nx where "Header_Command msg = Some c" "Header_Status msg = Some st" "Header_NextCommand msg = Some nx"
      by (auto elim!: safeE)
    moreover have "byte_at 66 msg = Some (msg ! 66)" using False by (simp add: byte_at_def)
    ultimately show ?thesis using False b[of "msg ! 66"]
      by (simp add: compressOffset_def transform_defs SMB2HeaderSize_def Let_def not_less)
  qed (simp add: compressOffset_def transform_defs SMB2HeaderSize_def)
qed

lemma segment_comes_apart:
  assumes "lz4_ok L" "cc_compressionSupported rc" "algo \<in> set (cc_compressionIDs rc)"
    and "(of_nat (length msg) :: u64) \<le> 272 + max (cc_maxReadSize rc) (max (cc_maxWriteSize rc) (cc_maxTransactSize rc))"
    and "length msg < 2 ^ 32" "64 \<le> length msg" "Header_ProtocolID msg = Some PROTOCOL_SMB2"
    and "off < length msg" "off < 256" "algo \<noteq> COMPRESSION_PATTERN_V1"
    and "Compressor_Compress L algo (drop off msg) = Some (Inr b)" "b \<noteq> []"
  shows "decompress L rc (transform_bytes (of_nat (length msg - off)) algo (of_nat off) @ take off msg @ b) = Some (Inr msg)"
proof -
  let ?h = "transform_bytes (of_nat (length msg - off)) algo (of_nat off)" and ?n = "length msg - off"
  let ?ocss = "of_nat ?n :: u32"
  have small: "unat (of_nat j :: u32) = j" if "j < 2 ^ 32" for j using that by (simp add: unsigned_of_nat take_bit_nat_eq_self)
  then have n: "unat ?ocss = ?n" "unat (of_nat off :: u32) = off" using assms(5,9) by (auto simp del: of_nat_diff)
  then have u: "uint ?ocss = int ?n" "?ocss \<noteq> 0" using assms(8) by (auto simp: uint_nat)
  have "(ucast ?ocss :: u64) = of_nat ?n" using n(1) by (metis of_nat_unat)
  moreover have "(of_nat ?n :: u64) \<le> of_nat (length msg)" using assms(5) by (simp add: word_le_nat_alt unsigned_of_nat take_bit_nat_eq_self)
  ultimately have nr: "\<not> refused rc ?ocss 0" using assms(4) u(2)
    by (simp add: refused_def COMPRESSION_CAPABILITIES_FLAG_CHAINED_def not_less)
  have un: "unchained L rc ?ocss (?h @ take off msg @ b) = Some (Inr (msg, off))"
    using Compress_comes_apart[OF assms(1,11,12)] assms(3,8,10) n(2) u(1)
    by (simp add: unchained_eq[OF transform_bytes_fields(6,4)] transform_bytes_fields(1))
  have "check_output ?ocss msg off = Some (Inr msg)" using assms(6,7) by (simp add: check_output_def SMB2HeaderSize_def)
  moreover have "cc_compressionIDs rc \<noteq> []" "16 \<le> length (?h @ take off msg @ b)" using assms(3) by (auto simp: transform_bytes_fields(1))
  note decompress_eq[OF assms(2) this transform_bytes_fields(3,5)]
  ultimately show ?thesis using nr un by (simp add: taken_apart_def COMPRESSION_CAPABILITIES_FLAG_CHAINED_def)
qed

lemma Compress_returns: "\<exists>r. Compressor_Compress L algo src = Some r"
  using huff_comes_back[of src] by (auto simp: Compressor_Compress_def)

lemma pickCompression_result:
  "pickCompression ids = COMPRESSION_NONE \<or>
   pickCompression ids \<in> set ids \<and> pickCompression ids \<in> {COMPRESSION_LZ77_HUFFMAN, COMPRESSION_LZNT1, COMPRESSION_LZ4}"
  by (auto simp: pickCompression_def sendCompressionPreference_def)

lemma compress_comes_back:
  assumes "lz4_ok L" "Header_ProtocolID msg = Some PROTOCOL_SMB2" "length msg < 2 ^ 32"
    and "cc_compressionSupported rc" "set (cc_compressionIDs cc) \<subseteq> set (cc_compressionIDs rc)"
    and "(of_nat (length msg) :: u64) \<le> 272 + max (cc_maxReadSize rc) (max (cc_maxWriteSize rc) (cc_maxTransactSize rc))"
  shows "\<exists>out. compress L cc msg = Some out \<and>
    (out = msg \<or> length out < length msg \<and> Header_ProtocolID out = Some PROTOCOL_SMB2_COMPRESSED \<and> decompress L rc out = Some (Inr msg))"
proof -
  define algo where "algo = pickCompression (cc_compressionIDs cc)"
  show ?thesis
  proof (cases "\<not> cc_compressionSupported cc \<or> cc_compressionIDs cc = [] \<or> algo = COMPRESSION_NONE")
    case True
    then show ?thesis by (auto simp: compress_def algo_def)
  next
    case False
    then have al: "algo \<in> set (cc_compressionIDs rc)" "algo \<noteq> COMPRESSION_PATTERN_V1"
      using pickCompression_result[of "cc_compressionIDs cc"] assms(5) by (auto simp: algo_def[symmetric] algorithm_defs)
    obtain off where off: "compressOffset msg = Some off" "off \<le> length msg" "off < 256" using compressOffset_result by blast
    obtain r where r: "Compressor_Compress L algo (drop off msg) = Some r" using Compress_returns by blast
    show ?thesis
    proof (cases "length msg - off < 65536 \<or> (\<forall>b. r = Inr b \<longrightarrow> b = [] \<or> 16 + off + length b \<ge> length msg)")
      case True
      then show ?thesis using off r
        by (cases r) (auto simp: compress_def Let_def algo_def[symmetric] slice_def transform_defs)
    next
      case big: False
      then obtain b where b: "r = Inr b" "b \<noteq> []" "16 + off + length b < length msg" by auto
      have l: "off < length msg" "64 \<le> length msg" using big by auto
      have "compress L cc msg = Some (transform_bytes (of_nat (length msg - off)) algo (of_nat off) @ take off msg @ b)"
        using False off r b big
        by (simp add: compress_def Let_def algo_def[symmetric] slice_def transform_defs compress_header_bytes)
      then show ?thesis
        using segment_comes_apart[OF assms(1,4) al(1) assms(6,3) l(2) assms(2) l(1) off(3) al(2) _ b(2)] r b
        by (simp add: transform_bytes_fields)
    qed
  qed
qed

subsection \<open>The claims\<close>


text \<open>A stand-in for LZ4 that stores, and a connection that takes it. The message carries a header in a chain of two payloads:
  the first four bytes as they are, the rest as a run.\<close>

definition stored_lz4 :: lz4_lib where
  "stored_lz4 = \<lparr>lz4_CompressBlock = Some, lz4_UncompressBlock = \<lambda>b n. if length b \<le> n then Some b else None\<rparr>"

lemma stored_lz4_ok: "lz4_ok stored_lz4"
  by (simp add: lz4_ok_def stored_lz4_def)

definition small_conn :: comp_conn where
  "small_conn = \<lparr>cc_compressionSupported = True, cc_compressionIDs = [COMPRESSION_PATTERN_V1, COMPRESSION_LZ4, COMPRESSION_LZNT1],
     cc_supportsChainedCompression = True, cc_maxReadSize = 0x100000, cc_maxWriteSize = 0x100000, cc_maxTransactSize = 0x100000\<rparr>"

definition chained_msg :: bytes where
  "chained_msg = [0xfc, 0x53, 0x4d, 0x42, 64, 0, 0, 0, 0, 0, 1, 0, 4, 0, 0, 0, 0xfe, 0x53, 0x4d, 0x42,
     4, 0, 0, 0, 8, 0, 0, 0, 7, 0, 0, 0, 60, 0, 0, 0]"

lemma chained_msg_decompressed: "decompress stored_lz4 small_conn chained_msg = Some (Inr ([0xfe, 0x53, 0x4d, 0x42] @ replicate 60 7))"
  by code_simp


text \<open>C13 (compressed_comes_back). What the server sends for a message is the message itself or something shorter, marked as
  compressed, which a receiver of the same algorithms takes apart to the message again, headers and offset included.\<close>

theorem compressed_comes_back:
  assumes "lz4_ok L" "Header_ProtocolID msg = Some PROTOCOL_SMB2" "length msg < 2 ^ 32"
    and "cc_compressionSupported rc" "set (cc_compressionIDs cc) \<subseteq> set (cc_compressionIDs rc)"
    and "(of_nat (length msg) :: u64) \<le> 272 + max (cc_maxReadSize rc) (max (cc_maxWriteSize rc) (cc_maxTransactSize rc))"
  shows "\<exists>out. compress L cc msg = Some out \<and>
    (out = msg \<or> length out < length msg \<and> Header_ProtocolID out = Some PROTOCOL_SMB2_COMPRESSED \<and> decompress L rc out = Some (Inr msg))"
  by (rule compress_comes_back[OF assms])

theorem compressed_comes_back_witness:
  "\<exists>out. compress stored_lz4 small_conn ([0xfe, 0x53, 0x4d, 0x42] @ replicate 70000 0) = Some out \<and>
    (out = [0xfe, 0x53, 0x4d, 0x42] @ replicate 70000 0 \<or> length out < 70004 \<and>
     Header_ProtocolID out = Some PROTOCOL_SMB2_COMPRESSED \<and>
     decompress stored_lz4 small_conn out = Some (Inr ([0xfe, 0x53, 0x4d, 0x42] @ replicate 70000 0)))"
proof -
  let ?m = "[0xfe, 0x53, 0x4d, 0x42] @ replicate 70000 0"
  have l: "length ?m = 70004" by simp
  have p: "Header_ProtocolID ([0xfe, 0x53, 0x4d, 0x42] @ r) = Some PROTOCOL_SMB2" for r
    by (simp add: Header_ProtocolID_def uint_at_defs word_at_def slice_def protocol_defs)
  have s: "cc_compressionSupported small_conn" by (simp add: small_conn_def)
  have b: "(of_nat 70004 :: u64) \<le> 272 + max (cc_maxReadSize small_conn) (max (cc_maxWriteSize small_conn) (cc_maxTransactSize small_conn))"
    by (simp add: small_conn_def)
  have "(70004 :: nat) < 2 ^ 32" by simp
  from compressed_comes_back[OF stored_lz4_ok p[of "replicate 70000 0"], unfolded l, OF this s subset_refl b] show ?thesis .
qed

end
