(* ===== verification/Spec2Isabelle.thy ===== *)
theory Spec2Isabelle
  imports Byte_Locks Share_Modes Caching Lznt1 Store_Access Wildcard Request_Window Request_Answers Send_Queue Wire_Chain
    Transfer_Readback Session_Invariants Message_Protection Compressed_Messages
begin

text \<open>
  \<^bold>\<open>Sombrero, an SMB file server over decentralized storage.\<close>

  The program (Go, under \<^verbatim>\<open>src/\<close>) speaks SMB2 and SMB3 to file clients and keeps what they write on the Sia
  network, through a renterd or an indexd service. A connection (\<^verbatim>\<open>conn.go\<close>) decodes requests and dispatches
  them; a session (\<^verbatim>\<open>session.go\<close>) is a logged-in user; a tree connect (\<^verbatim>\<open>tree.go\<close>) is that user on a share
  (\<^verbatim>\<open>share.go\<close>); an open (\<^verbatim>\<open>open.go\<close>) is a handle on a file. Opens of different clients on one file meet in the
  server's tables, and that is where the program is hard: sharing modes (\<^verbatim>\<open>sharing.go\<close>), byte-range locks
  (\<^verbatim>\<open>lock.go\<close>), and the caching promises, oplocks and leases, that have to be broken before another client may
  see or change the file (\<^verbatim>\<open>oplock.go\<close>, \<^verbatim>\<open>lease.go\<close>). Who may do what comes from a store (\<^verbatim>\<open>stores/\<close>), a
  PostgreSQL database or, in the Lite mode, one JSON file. A user logs in over NTLM (\<^verbatim>\<open>ntlm/\<close>), and with the key
  of the session messages are signed or encrypted. Messages may cross the wire compressed (\<^verbatim>\<open>compress/\<close>), and every
  string crosses it as UTF-16. The files of a share move to another server as one stream (\<^verbatim>\<open>transfer/\<close>).

  \<^bold>\<open>What models what.\<close> Each theory names its source and translates its operations one by one; the manifest
  maps every definition to its lines.

  \<^item> \<open>Sombrero_Prelude\<close>: machine integers as words, the status codes of \<^verbatim>\<open>smb2/error.go\<close>, the removal of a
    slice element, and the unsigned-overflow test of the code.
  \<^item> \<open>Byte_Locks\<close> (\<^verbatim>\<open>lock.go\<close>): the lock table of a file, lock sequences, granting, refusing and giving back
    ranges, and the waiting request. Requests that wait are threads of a step relation (\<open>lockSys\<close>) in which
    any operation may come between the look at the table and the sleep. Shown: no byte is locked
    exclusively beside another lock in any reachable state, no wake-up is lost, what a request and an
    unlock change on every branch, and the one byte (at 2^64 - 1) whose locks never conflict.
  \<^item> \<open>Slices\<close> (\<^verbatim>\<open>utils/utils.go\<close>, and the dialect check of \<^verbatim>\<open>conn.go\<close>): the slice and path helpers, and what
    accepting a negotiated dialect list means.
  \<^item> \<open>Server_Store\<close>, \<open>Open_Index\<close> (\<^verbatim>\<open>server.go\<close>, \<^verbatim>\<open>openindex.go\<close>): the tables of opens and leases as maps from
    identities to records, since the Go code mutates shared objects through pointers; the index by file and
    by create GUID. The locale \<open>open_index\<close> is what its clients rely on, interpreted on the code's own
    operations. Shown: an open is found under exactly the name it carries, renames move exactly what is
    beneath, and a create can be replayed exactly until its handle is used.
  \<^item> \<open>Access_Rights\<close> (\<^verbatim>\<open>open.go\<close>, \<^verbatim>\<open>tree.go\<close>, \<^verbatim>\<open>stores/policy.go\<close>): what a create is granted, and the folder an
    anonymous session is confined to.
  \<^item> \<open>Share_Modes\<close> (\<^verbatim>\<open>sharing.go\<close>): when two opens clash, and that serial creates keep them apart while
    concurrent ones need not.
  \<^item> \<open>Break_Protocol\<close>, \<open>Oplocks\<close>, \<open>Leases\<close>, \<open>Caching\<close> (\<^verbatim>\<open>oplock.go\<close>, \<^verbatim>\<open>lease.go\<close>): the break of a promise as a
    protocol over a channel, a locale (\<open>break_protocol\<close>) interpreted once on the oplock of an open and once on
    a lease; then the granting and breaking of both kinds together. Shown: while one client may write out of
    its cache nobody else on the file is promised anything, no channel is closed twice, and what an
    acknowledgment and a late timer may do.
  \<^item> \<open>Lznt1\<close> (\<^verbatim>\<open>compress/lznt1\<close>): compressor and decompressor. Both are read through the tokens that stand
    between them; shown are the round trip for every input and the bound on what a stream may expand to. The locale
    \<open>block_codec\<close> is what a compressed message needs of an algorithm; each of the three interprets it.
  \<^item> \<open>Lz77\<close>, \<open>Lz77_Roundtrip\<close> (\<^verbatim>\<open>compress/lz77\<close>): the same for plain LZ77, whose flag words are filled in behind their
    tokens and whose long matches share bytes in pairs.
  \<^item> \<open>Huffman\<close>, \<open>Huffman_Bits\<close>, \<open>Huffman_Codes\<close>, \<open>Huffman_Tree\<close>, \<open>Huffman_Items\<close>, \<open>Huffman_Roundtrip\<close>
    (\<^verbatim>\<open>compress/huffman\<close>): the bit stream and that its reader undoes its writer, canonical codes and that their lengths
    are enough to read them, the tree and that flattening the frequencies ends, the items of a block, and the round
    trip over any number of blocks.
  \<^item> \<open>Compression\<close>, \<open>Compressed_Messages\<close> (\<^verbatim>\<open>compress.go\<close>, \<^verbatim>\<open>compress/\<close>): compressed messages in both shapes. LZ4 is a record
    of functions, assumed (\<open>lz4_ok\<close>) to fill at most the room it is given and to undo itself. Shown: no message makes
    the server panic or comes out longer than it announces, and what the server compresses comes back.
  \<^item> \<open>Utf16\<close> (\<^verbatim>\<open>utils/utf16le.go\<close>): strings on the wire, their round trip and their announced length.
  \<^item> \<open>Json_Store\<close>, \<open>Store_Integrity\<close>, \<open>Store_Access\<close> (\<^verbatim>\<open>stores/jsonstore.go\<close> and the types it keeps): every
    operation of the Lite store with its errors, its saves and its rollbacks. The locale \<open>store_invariant\<close> is
    the contract of \<^verbatim>\<open>update\<close>, interpreted on the integrity of the references. Shown: integrity under any
    interleaving, failed operations change nothing, restarts lose nothing, and what the lookups answer.

  \<^item> \<open>Wildcard\<close> (\<^verbatim>\<open>utils/wildcard.go\<close>): the matching of file names against the five wildcards of the protocol, by a
    table of one row. Shown: it decides exactly what the wildcards mean.
  \<^item> \<open>Requests\<close>, \<open>Request_Window\<close>, \<open>Request_Answers\<close> (\<^verbatim>\<open>conn.go\<close>, \<^verbatim>\<open>server.go\<close>): a connection's window of message IDs
    and the credits it gives for them; compound chains; and requests answered later, by work that finishes, a
    cancel, a close or a watch, as a step relation over every interleaving. Shown: no ID is taken twice, the
    window stays within its bound, a chain goes out whole, and every request taken on is answered once.
  \<^item> \<open>Send_Queue\<close> (\<^verbatim>\<open>sendqueue.go\<close>): the queue of outgoing messages with its two lanes and its wake-up. It refines
    two first-in first-out lanes of which one yields to the other, and it always drains.
  \<^item> \<open>Wire\<close>, \<open>Wire_Requests\<close>, \<open>Wire_Compound\<close>, \<open>Wire_Responses\<close>, \<open>Wire_Chain\<close>, \<open>File_Time\<close> (\<^verbatim>\<open>smb2/\<close>,
    \<^verbatim>\<open>utils/filetime.go\<close>): messages as bytes. A read or a write outside of a message panics in Go and is \<^const>\<open>None\<close> here.
    Shown: no message a client can send makes the checks or, once they pass, the accessors panic; a compound is
    cut up into what it is made of; a response answers its request; and create contexts and chains of responses
    read back as they were put together.
  \<^item> \<open>Transfers\<close>, \<open>Transfer_Records\<close>, \<open>Transfer_Stream\<close>, \<open>Transfer_Readback\<close> (\<^verbatim>\<open>transfer/\<close>): the description of the files
    of a share, its checks, and the stream of records it is written and read as. The encoding of the primitive types
    comes from the storage library: its laws are the locale \<open>codec_laws\<close>, interpreted on a little-endian instance. Shown:
    what is written is read back, and a stream that was cut short is refused wherever the cut is.
  \<^item> \<open>Crypto_Modes\<close>, \<open>Crypto_Ccm\<close> (\<^verbatim>\<open>internal/cmac\<close>, \<^verbatim>\<open>internal/ccm\<close>): CMAC and CCM over any block cipher, with the buffers of
    the code. Shown: both compute what the NIST standards define, and CCM opens what it sealed and nothing else.
  \<^item> \<open>Ntlm\<close>, \<open>Ntlm_Session\<close> (\<^verbatim>\<open>ntlm/\<close>): the challenge, the check of the answer, and signing and sealing afterwards. The
    accounts are reached through the locale \<open>account_store\<close>, interpreted on the JSON store. Shown: no message makes the
    checks panic, and a login succeeds only with a proof made from the stored hash of that account.
  \<^item> \<open>Sessions\<close>, \<open>Session_Invariants\<close> (\<^verbatim>\<open>session.go\<close>, \<^verbatim>\<open>channel.go\<close>, \<^verbatim>\<open>durable.go\<close>, session setup of \<^verbatim>\<open>conn.go\<close>): how sessions come to
    be, are bound to further connections and end, and the handles that outlive them. The handlers are the steps
    (\<open>srv_step\<close>) of a server; the invariants hold in every state it reaches. Shown: a session is as protected as it was
    set up to be, an open has one owner, and a durable handle is only given back to the user it was taken from.
  \<^item> \<open>Message_Protection\<close> (\<^verbatim>\<open>session.go\<close>): signing, checking, encrypting and decrypting messages. The locale \<open>aead_mode\<close> is
    what a cipher mode promises; CCM interprets it with the code of the repository, and GCM of the Go library is
    assumed to (\<open>crypto_ok\<close>). Shown: a request is served only if its signature or its seal is right, signed responses
    validate, and encrypted messages open to what was sent.

  \<^bold>\<open>Time, concurrency and the outside.\<close> A critical section under a mutex is one atomic step. Where the code
  lets go of the mutex (a waiting lock request, a create that asks the network, a store update that
  notifies the server) the model has a step relation, and the theorems range over its reachable states.
  What the disk, the network and the clients answer is an argument or any value a step may choose. Timers
  are returned as values and may fire at any later step. Code outside the repository (UUIDs, MD4, the JSON
  encoder, Unicode case mapping) is a record of functions, with what is relied on as hypotheses.

  \<^bold>\<open>Termination.\<close> No definition runs on fuel: the loops of the modelled code are recursive functions with a
  termination proof, so each theorem about a result is also one that there is a result. The exceptions are partial
  functions whose value says whether they return: the walks over the chain of a message (\<open>Append\<close>, and the loops that
  sign, stamp and wipe a chain), which go round in circles on bytes the server never makes, the taking of message IDs
  one by one, and the search for code lengths of the Huffman compressor. The theorems that rest on them show that they
  return. The chains of the match finders are bounded by their search depth, the adaptive loops of LZNT1 by the
  doubling of the threshold, and the walks over input by the bytes each turn consumes.

  \<^bold>\<open>What the code does less than it says.\<close> Some theorems state behaviour that its comments deny: the check
  for a downgraded negotiation, two creates in flight, a lease joined on another share or lowered without
  a break, an open short of a right its create asked for, the last byte of the lock space, a store rollback
  that takes another update with it, a public folder lost in normalizing, an ID beyond the window that can be
  replayed, a window that outgrows its bound, a cancel that overtakes the interim response, and a charge that
  covers any size above 0xffff0000. They are listed as findings
  in the manifest.

  \<^bold>\<open>Not modelled\<close>, and why: sockets, start-up, the command line and the storage clients are I/O; the SQL store is
  statements of a database that is not in the repository; the web interface is another language; SPNEGO is a wrapper
  over the ASN.1 encoder of the Go library, whose calls are parameters of the sessions. Of the request handlers the
  parts with decisions of their own are modelled (creates, locks, breaks, session setup, compounds, message IDs); what
  remains of them, of the opens, of the administration API and of the query messages copies fields between a request, the storage
  client and a response.
\<close>

end
